(* ===== verification/Prelude.thy ===== *)
theory Prelude
  imports Main "HOL-Library.Word"
begin

unbundle bit_operations_syntax

text \<open>
  Vocabulary shared by every component: the machine integers of the crate, results
  (\<open>Result<T, E>\<close> as \<open>'e + 'a\<close>), readers over a byte buffer as functions from the bytes
  that are left to a result and the bytes that are left afterwards, and generic lemmas on
  words and lists.  \<open>usize\<close> is 64 bits wide and is modelled by \<open>nat\<close>, with the bound
  written out wherever the code checks it.
\<close>

type_synonym u8 = "8 word"
type_synonym u16 = "16 word"
type_synonym u32 = "32 word"
type_synonym u64 = "64 word"
type_synonym bytes = "u8 list"

type_synonym ('e, 'a) reader = "bytes \<Rightarrow> 'e + ('a \<times> bytes)"

named_theorems step_simps \<open>one step of a reader on an input whose shape is known\<close>
named_theorems roundtrip_simps \<open>reading back what a writer produced\<close>

section \<open>Results\<close>

definition ebind :: "'e + 'a \<Rightarrow> ('a \<Rightarrow> 'e + 'b) \<Rightarrow> 'e + 'b" where
  "ebind r f = (case r of Inl e \<Rightarrow> Inl e | Inr a \<Rightarrow> f a)"

lemma ebind_simps [simp]:
  "ebind (Inl e) f = Inl e"
  "ebind (Inr a) f = f a"
  by (simp_all add: ebind_def)

lemma ebind_eq_Inr: "ebind r f = Inr b \<longleftrightarrow> (\<exists>a. r = Inr a \<and> f a = Inr b)"
  by (cases r) auto

lemma ebind_eq_InrE [elim!]:
  assumes "ebind r f = Inr b"
  obtains a where "r = Inr a" "f a = Inr b"
  using assms by (auto simp: ebind_eq_Inr)

text \<open>\<open>ensure e c\<close> is the guard \<open>if !c { return Err(e) }\<close>.\<close>

definition ensure :: "'e \<Rightarrow> bool \<Rightarrow> 'e + unit" where
  "ensure e c = (if c then Inr () else Inl e)"

lemma ensure_simps [simp]:
  "ensure e True = Inr ()"
  "ensure e False = Inl e"
  by (simp_all add: ensure_def)

lemma ensure_eq_Inr [simp]: "ensure e c = Inr u \<longleftrightarrow> c"
  by (simp add: ensure_def)

section \<open>Readers\<close>

definition preturn :: "'a \<Rightarrow> ('e, 'a) reader" where
  "preturn a bs = Inr (a, bs)"

definition pfail :: "'e \<Rightarrow> ('e, 'a) reader" where
  "pfail e bs = Inl e"

definition pbind :: "('e, 'a) reader \<Rightarrow> ('a \<Rightarrow> ('e, 'b) reader) \<Rightarrow> ('e, 'b) reader" where
  "pbind p f bs = (case p bs of Inl e \<Rightarrow> Inl e | Inr (a, rest) \<Rightarrow> f a rest)"

definition plift :: "'e + 'a \<Rightarrow> ('e, 'a) reader" where
  "plift r bs = (case r of Inl e \<Rightarrow> Inl e | Inr a \<Rightarrow> Inr (a, bs))"

definition pensure :: "'e \<Rightarrow> bool \<Rightarrow> ('e, unit) reader" where
  "pensure e c bs = (if c then Inr ((), bs) else Inl e)"

lemma preturn_eq [simp, step_simps]: "preturn a bs = Inr (a, bs)"
  by (simp add: preturn_def)

lemma pfail_eq [simp, step_simps]: "pfail e bs = Inl e"
  by (simp add: pfail_def)

lemma pensure_simps [simp, step_simps]:
  "pensure e True bs = Inr ((), bs)"
  "pensure e False bs = Inl e"
  by (simp_all add: pensure_def)

lemma pensure_eq_Inr [simp]: "pensure e c bs = Inr (u, r) \<longleftrightarrow> c \<and> r = bs"
  by (auto simp: pensure_def)

lemma plift_simps [simp, step_simps]:
  "plift (Inl e) bs = Inl e"
  "plift (Inr a) bs = Inr (a, bs)"
  by (simp_all add: plift_def)

lemma plift_eq_Inr [simp]: "plift r bs = Inr (a, rest) \<longleftrightarrow> r = Inr a \<and> rest = bs"
  by (auto simp: plift_def split: sum.splits)

lemma pbind_Inr [step_simps]: "p bs = Inr (a, rest) \<Longrightarrow> pbind p f bs = f a rest"
  by (simp add: pbind_def)

lemma pbind_Inl [step_simps]: "p bs = Inl e \<Longrightarrow> pbind p f bs = Inl e"
  by (simp add: pbind_def)

lemma pbind_eq_Inr: "pbind p f bs = Inr (b, r) \<longleftrightarrow> (\<exists>a rest. p bs = Inr (a, rest) \<and> f a rest = Inr (b, r))"
  by (auto simp: pbind_def split: sum.splits)

lemma pbind_eq_InrE [elim!]:
  assumes "pbind p f bs = Inr (b, r)"
  obtains a rest where "p bs = Inr (a, rest)" "f a rest = Inr (b, r)"
  using assms by (auto simp: pbind_eq_Inr)

lemma pbind_cong [fundef_cong]:
  assumes "bs = bs'" "p bs' = q bs'"
    and "\<And>a rest. q bs' = Inr (a, rest) \<Longrightarrow> f a rest = g a rest"
  shows "pbind p f bs = pbind q g bs'"
  using assms by (auto simp: pbind_def split: sum.splits)

text \<open>\<open>preplicate n p\<close> is the loop \<open>for _ in 0..n { xs.push(p()?) }\<close>.\<close>

fun preplicate :: "nat \<Rightarrow> ('e, 'a) reader \<Rightarrow> ('e, 'a list) reader" where
  "preplicate 0 p = preturn []"
| "preplicate (Suc n) p = pbind p (\<lambda>x. pbind (preplicate n p) (\<lambda>xs. preturn (x # xs)))"

lemma preplicate_length: "preplicate n p bs = Inr (xs, r) \<Longrightarrow> length xs = n"
  by (induction n arbitrary: bs xs) auto

lemma preplicate_all:
  assumes "\<And>bs x r. p bs = Inr (x, r) \<Longrightarrow> P x"
  shows "preplicate n p bs = Inr (xs, r) \<Longrightarrow> list_all P xs"
proof (induction n arbitrary: bs xs)
  case (Suc n)
  then obtain x rest ys where "p bs = Inr (x, rest)" "preplicate n p rest = Inr (ys, r)" "xs = x # ys" by auto
  then show ?case using assms Suc.IH by auto
qed simp

text \<open>\<open>pmap f xs\<close> is the loop \<open>for x in xs { ys.push(f(x)?) }\<close>.\<close>

fun pmap :: "('x \<Rightarrow> ('e, 'a) reader) \<Rightarrow> 'x list \<Rightarrow> ('e, 'a list) reader" where
  "pmap f [] = preturn []"
| "pmap f (x # xs) = pbind (f x) (\<lambda>y. pbind (pmap f xs) (\<lambda>ys. preturn (y # ys)))"

lemma pmap_length: "pmap f xs bs = Inr (ys, r) \<Longrightarrow> length ys = length xs"
  by (induction xs arbitrary: bs ys) auto

text \<open>
  A reader is \<^emph>\<open>sequential\<close> when what it leaves is a suffix of what it was given: it never
  reads past the end of the buffer and never moves backwards.
\<close>

definition sequential :: "('e, 'a) reader \<Rightarrow> bool" where
  "sequential p \<longleftrightarrow> (\<forall>bs a r. p bs = Inr (a, r) \<longrightarrow> (\<exists>used. bs = used @ r))"

lemma sequentialI:
  assumes "\<And>bs a r. p bs = Inr (a, r) \<Longrightarrow> \<exists>used. bs = used @ r"
  shows "sequential p"
  using assms by (auto simp: sequential_def)

lemma sequentialD: "sequential p \<Longrightarrow> p bs = Inr (a, r) \<Longrightarrow> \<exists>used. bs = used @ r"
  by (auto simp: sequential_def)

lemma sequential_length: "sequential p \<Longrightarrow> p bs = Inr (a, r) \<Longrightarrow> length r \<le> length bs"
  by (auto dest: sequentialD)

lemma sequential_intros [intro]:
  "sequential (preturn a)"
  "sequential (pfail e)"
  "sequential (pensure e c)"
  "sequential (plift x)"
  by (auto simp: sequential_def)

lemma sequential_pbind [intro]:
  assumes "sequential p" "\<And>a. sequential (f a)"
  shows "sequential (pbind p f)"
proof (rule sequentialI)
  fix bs b r assume "pbind p f bs = Inr (b, r)"
  then obtain a m where p: "p bs = Inr (a, m)" and f: "f a m = Inr (b, r)" by auto
  from sequentialD [OF assms(1) p] obtain u1 where "bs = u1 @ m" ..
  moreover from sequentialD [OF assms(2) f] obtain u2 where "m = u2 @ r" ..
  ultimately show "\<exists>used. bs = used @ r" by simp
qed

lemma sequential_if [intro]: "sequential p \<Longrightarrow> sequential q \<Longrightarrow> sequential (if c then p else q)"
  by simp

lemma sequential_case_prod [intro]: "(\<And>a b. sequential (f a b)) \<Longrightarrow> sequential (case x of (a, b) \<Rightarrow> f a b)"
  by (cases x) simp

lemma sequential_case_option [intro]:
  "sequential p \<Longrightarrow> (\<And>a. sequential (f a)) \<Longrightarrow> sequential (case x of None \<Rightarrow> p | Some a \<Rightarrow> f a)"
  by (cases x) simp_all

lemma sequential_preplicate [intro]: "sequential p \<Longrightarrow> sequential (preplicate n p)"
  by (induction n) auto

lemma sequential_pmap [intro]: "(\<And>x. sequential (f x)) \<Longrightarrow> sequential (pmap f xs)"
  by (induction xs) auto

section \<open>Words\<close>

lemma bit_above_bound:
  fixes v :: "'a::len word"
  assumes "unat v < 2 ^ k" "k \<le> n"
  shows "\<not> bit v n"
proof -
  have "take_bit k v = v"
    using assms(1) by (simp add: word_unat_eq_iff unsigned_take_bit_eq take_bit_nat_eq_self)
  moreover have "\<not> bit (take_bit k v) n"
    using assms(2) by (simp add: bit_take_bit_iff)
  ultimately show ?thesis by simp
qed

lemma unat_ucast_widen:
  fixes w :: "'a::len word"
  assumes "LENGTH('a) \<le> LENGTH('b)"
  shows "unat (ucast w :: 'b::len word) = unat w"
proof -
  have "unat w < 2 ^ LENGTH('a)" by (rule unsigned_less)
  also have "\<dots> \<le> 2 ^ LENGTH('b)" using assms by (rule power_increasing) simp
  finally show ?thesis by (simp add: unsigned_ucast_eq take_bit_nat_eq_self)
qed

text \<open>\<open>usize::MAX\<close> and \<open>u64::MAX\<close>, and the checked and saturating additions of \<open>u64\<close>.\<close>

definition usize_max :: nat where
  "usize_max = 2 ^ 64 - 1"

definition u64_max :: u64 where
  "u64_max = 18446744073709551615"

definition checked_add :: "u64 \<Rightarrow> u64 \<Rightarrow> u64 option" where
  "checked_add a b = (if unat a + unat b < 2 ^ 64 then Some (a + b) else None)"

definition saturating_add :: "u64 \<Rightarrow> u64 \<Rightarrow> u64" where
  "saturating_add a b = (if unat a + unat b < 2 ^ 64 then a + b else u64_max)"

definition checked_add_usize :: "nat \<Rightarrow> nat \<Rightarrow> nat option" where
  "checked_add_usize a b = (if a + b \<le> usize_max then Some (a + b) else None)"

lemma unat_u64_max [simp]: "unat u64_max = 2 ^ 64 - 1"
  by (simp add: u64_max_def)

lemma u64_bound: "unat (v :: u64) < 18446744073709551616"
  using unsigned_less [of v] by simp

lemma u8_bound: "unat (b :: u8) < 256"
  using unsigned_less [of b] by simp

lemma u32_bound: "unat (b :: u32) < 4294967296"
  using unsigned_less [of b] by simp

lemma unat_of_nat_u64: "n < 2 ^ 64 \<Longrightarrow> unat (of_nat n :: u64) = n"
  by (simp add: unsigned_of_nat take_bit_nat_eq_self)

lemma unat_add_u64: "unat (a :: u64) + unat b < 2 ^ 64 \<Longrightarrow> unat (a + b) = unat a + unat b"
  by (simp add: unat_word_ariths)

lemma checked_add_SomeD: "checked_add a b = Some c \<Longrightarrow> unat c = unat a + unat b"
  by (auto simp: checked_add_def unat_add_u64 split: if_splits)

lemma checked_add_eq_Some_iff:
  "checked_add a b = Some c \<longleftrightarrow> unat c = unat a + unat b"
proof
  assume "unat c = unat a + unat b"
  moreover have "unat c < 2 ^ 64" using unsigned_less [of c] by simp
  ultimately show "checked_add a b = Some c"
    by (auto simp: checked_add_def word_unat_eq_iff unat_add_u64)
qed (rule checked_add_SomeD)

lemma checked_add_None_iff: "checked_add a b = None \<longleftrightarrow> 2 ^ 64 \<le> unat a + unat b"
  by (auto simp: checked_add_def)

lemma unat_saturating_add:
  "unat (saturating_add a b) = min (unat a + unat b) (2 ^ 64 - 1)"
  by (auto simp: saturating_add_def unat_add_u64)

text \<open>Checked sums over a list, in the order the code adds.\<close>

fun checked_sum :: "'e \<Rightarrow> u64 \<Rightarrow> u64 list \<Rightarrow> 'e + u64" where
  "checked_sum e acc [] = Inr acc"
| "checked_sum e acc (x # xs) =
     (case checked_add acc x of None \<Rightarrow> Inl e | Some acc' \<Rightarrow> checked_sum e acc' xs)"

lemma checked_sum_Inr_iff:
  "checked_sum e acc xs = Inr s \<longleftrightarrow> unat s = unat acc + sum_list (map unat xs)"
proof (induction xs arbitrary: acc)
  case Nil
  then show ?case by (auto simp: word_unat_eq_iff)
next
  case (Cons x xs)
  show ?case
  proof (cases "checked_add acc x")
    case None
    then have "2 ^ 64 \<le> unat acc + unat x" by (simp add: checked_add_None_iff)
    moreover have "unat s < 2 ^ 64" using unsigned_less [of s] by simp
    ultimately show ?thesis using None by simp
  next
    case (Some acc')
    then show ?thesis using Cons.IH [of acc'] checked_add_SomeD [OF Some] by (simp add: add.assoc)
  qed
qed

lemma checked_sum_Inl_iff:
  "(\<exists>e'. checked_sum e acc xs = Inl e') \<longleftrightarrow> 2 ^ 64 \<le> unat acc + sum_list (map unat xs)"
proof -
  have "(\<exists>s. checked_sum e acc xs = Inr s) \<longleftrightarrow> unat acc + sum_list (map unat xs) < 2 ^ 64"
    (is "?l \<longleftrightarrow> ?r")
  proof
    assume ?l
    then obtain s :: u64 where "unat s = unat acc + sum_list (map unat xs)"
      unfolding checked_sum_Inr_iff by blast
    moreover have "unat s < 2 ^ 64" using unsigned_less [of s] by simp
    ultimately show ?r by simp
  next
    assume ?r
    then have "unat (of_nat (unat acc + sum_list (map unat xs)) :: u64) = unat acc + sum_list (map unat xs)"
      by (rule unat_of_nat_u64)
    then show ?l unfolding checked_sum_Inr_iff by blast
  qed
  then show ?thesis by (cases "checked_sum e acc xs") (auto simp: not_less)
qed

end
