(* ===== verification/Errors.thy ===== *)
theory Errors
  imports Prelude
begin

text \<open>
  The error type of the crate (\<open>src/error.rs\<close>).  A \<open>std::io::Error\<close> is its kind and, for an
  error the crate made itself, the message; \<open>Panic\<close> is not in the source: it is the result of an
  index or slice out of range, which panics in Rust, so that the absence of panics is a theorem; rendering an error (\<open>Display\<close>) is the parameter
  \<open>show\<close> of \<open>in_block\<close>, because it is Rust's derived \<open>Debug\<close> output.
\<close>

section \<open>Errors of the byte streams\<close>

datatype io_kind = UnexpectedEof | InvalidData | InvalidInput | WriteZero | NotFound | OutOfMemory | OtherKind

datatype io_error = Io_Error io_kind string

section \<open>Limits and errors\<close>

datatype limit =
    EndHeaderBytes | HeaderUnpackedBytes | HeaderDepth | Entries | NameBytes | TotalNameBytes
  | CodersPerBlock | StreamsPerCoder | TotalCoders | MemoryBytes | UnpackBytes | UnpackRatio
  | AesCyclesPower | AesKdfRounds | ArchiveBytes

fun limit_field :: "limit \<Rightarrow> string" where
  "limit_field EndHeaderBytes = ''max_end_header_bytes''"
| "limit_field HeaderUnpackedBytes = ''max_header_unpacked_bytes''"
| "limit_field HeaderDepth = ''max_header_depth''"
| "limit_field Entries = ''max_entries''"
| "limit_field NameBytes = ''max_name_bytes''"
| "limit_field TotalNameBytes = ''max_total_name_bytes''"
| "limit_field CodersPerBlock = ''max_coders_per_block''"
| "limit_field StreamsPerCoder = ''max_streams_per_coder''"
| "limit_field TotalCoders = ''max_total_coders''"
| "limit_field MemoryBytes = ''memory_limit_bytes''"
| "limit_field UnpackBytes = ''max_unpack_bytes''"
| "limit_field UnpackRatio = ''max_unpack_ratio''"
| "limit_field AesCyclesPower = ''max_aes_cycles_power''"
| "limit_field AesKdfRounds = ''max_aes_kdf_rounds''"
| "limit_field ArchiveBytes = ''the bytes the archive has''"

datatype block_error_kind = Corrupted | ChecksumMismatch | UnsupportedMethod | IoKind | PasswordKind

datatype error =
    BadSignature bytes
  | UnsupportedVersion u8 u8
  | ChecksumVerificationFailed
  | NextHeaderCrcMismatch
  | Io io_error string
  | FileOpen io_error string
  | Other string
  | BadTerminatedStreamsInfo u8
  | BadTerminatedUnpackInfo
  | BadTerminatedPackInfo u8
  | BadTerminatedSubStreamsInfo
  | BadTerminatedHeader u8
  | ExternalUnsupported
  | UnsupportedCompressionMethod string
  | MaxMemLimited nat nat
  | PasswordRequired
  | Unsupported string
  | MaybeBadPassword io_error
  | FileNotFound
  | EndHeaderTooLarge u64 u64
  | MemoryLimited u64 u64
  | LimitExceeded limit u64 u64
  | UnsafeEntryName string string
  | BlockDecode nat u64 block_error_kind string
  | Panic

type_synonym 'a result = "error + 'a"
type_synonym 'a parser = "(error, 'a) reader"

definition io_msg :: "io_error \<Rightarrow> string \<Rightarrow> error" where
  "io_msg e msg = Io e msg"

definition from_io :: "io_error \<Rightarrow> error" where
  "from_io e = io_msg e ''''"

definition bad_password :: "io_error \<Rightarrow> bool \<Rightarrow> error" where
  "bad_password e encrypted = (if encrypted then MaybeBadPassword e else io_msg e '''')"

fun maybe_bad_password :: "error \<Rightarrow> bool \<Rightarrow> error" where
  "maybe_bad_password (Io e s) encrypted =
     (if \<not> encrypted then Io e s else if s = '''' then MaybeBadPassword e else Io e s)"
| "maybe_bad_password e encrypted = e"

fun limit_hit :: "error \<Rightarrow> limit option" where
  "limit_hit (LimitExceeded what _ _) = Some what"
| "limit_hit (EndHeaderTooLarge _ _) = Some EndHeaderBytes"
| "limit_hit (MemoryLimited _ _) = Some MemoryBytes"
| "limit_hit _ = None"

fun block_kind :: "error \<Rightarrow> block_error_kind" where
  "block_kind (Io _ _) = IoKind"
| "block_kind (FileOpen _ _) = IoKind"
| "block_kind (UnsupportedCompressionMethod _) = UnsupportedMethod"
| "block_kind (Unsupported _) = UnsupportedMethod"
| "block_kind ExternalUnsupported = UnsupportedMethod"
| "block_kind ChecksumVerificationFailed = ChecksumMismatch"
| "block_kind NextHeaderCrcMismatch = ChecksumMismatch"
| "block_kind PasswordRequired = PasswordKind"
| "block_kind (MaybeBadPassword _) = PasswordKind"
| "block_kind _ = Corrupted"

fun in_block :: "(error \<Rightarrow> string) \<Rightarrow> error \<Rightarrow> nat \<Rightarrow> u64 \<Rightarrow> error" where
  "in_block show (BlockDecode i off k m) block_index packed_offset = BlockDecode i off k m"
| "in_block show (LimitExceeded what l r) block_index packed_offset = LimitExceeded what l r"
| "in_block show e block_index packed_offset =
     BlockDecode block_index packed_offset (block_kind e) (show e)"

lemma limit_field_inj: "limit_field a = limit_field b \<Longrightarrow> a = b"
  by (cases a; cases b) simp_all

text \<open>
  An error is located in its block once.  Adding a block's context a second time changes nothing, so
  the innermost block is the one that is named; an exceeded entry of \<open>ArchiveLimits\<close> stays what it is;
  every other error, \<open>EndHeaderTooLarge\<close> and \<open>MemoryLimited\<close> included, names the block and offset it was
  located in.
\<close>

lemma in_block_locates_once:
  "in_block show (in_block show e i off) j off' = in_block show e i off
    \<and> limit_hit (in_block show e i off) = (case e of LimitExceeded what l r \<Rightarrow> Some what | _ \<Rightarrow> None)
    \<and> (case e of LimitExceeded what l r \<Rightarrow> in_block show e i off = e
        | BlockDecode i0 off0 k m \<Rightarrow> in_block show e i off = e
        | _ \<Rightarrow> in_block show e i off = BlockDecode i off (block_kind e) (show e))"
  by (cases e) simp_all

end
