(* ===== verification/Byte_IO.thy ===== *)
theory Byte_IO
  imports Errors
begin

text \<open>
  The little-endian primitives of \<open>src/lib.rs\<close> (\<open>ByteReader\<close>, \<open>ByteWriter\<close>) and the 7z NUMBER
  encoding, \<open>read_variable_u64\<close> of \<open>src/reader.rs\<close> and \<open>write_u64\<close> of \<open>src/writer.rs\<close>.
  A reader is over a byte buffer (\<open>&[u8]\<close>), whose \<open>read_exact\<close> fails with
  \<open>UnexpectedEof\<close>; a writer is over a \<open>Vec<u8>\<close>, which never fails, so it is the bytes it
  appends.  The locale \<open>codec\<close> is the contract between a writer and its reader.
\<close>

section \<open>Reading and writing bytes\<close>

definition eof :: error where
  "eof = from_io (Io_Error UnexpectedEof ''failed to fill whole buffer'')"

definition read_exact :: "nat \<Rightarrow> bytes parser" where
  "read_exact n bs = (if n \<le> length bs then Inr (take n bs, drop n bs) else Inl eof)"

fun read_u8 :: "u8 parser" where
  "read_u8 [] = Inl eof"
| "read_u8 (b # bs) = Inr (b, bs)"

fun from_le_bytes :: "bytes \<Rightarrow> 'w::len word" where
  "from_le_bytes [] = 0"
| "from_le_bytes (b # bs) = ucast b OR push_bit 8 (from_le_bytes bs)"

fun to_le_bytes :: "nat \<Rightarrow> 'w::len word \<Rightarrow> bytes" where
  "to_le_bytes 0 v = []"
| "to_le_bytes (Suc n) v = ucast v # to_le_bytes n (drop_bit 8 v)"

definition read_u16 :: "u16 parser" where
  "read_u16 = pbind (read_exact 2) (\<lambda>buf. preturn (from_le_bytes buf))"

definition read_u32 :: "u32 parser" where
  "read_u32 = pbind (read_exact 4) (\<lambda>buf. preturn (from_le_bytes buf))"

definition read_u64 :: "u64 parser" where
  "read_u64 = pbind (read_exact 8) (\<lambda>buf. preturn (from_le_bytes buf))"

definition write_u8 :: "u8 \<Rightarrow> bytes" where
  "write_u8 v = [v]"

definition write_u16 :: "u16 \<Rightarrow> bytes" where
  "write_u16 v = to_le_bytes 2 v"

definition write_u32 :: "u32 \<Rightarrow> bytes" where
  "write_u32 v = to_le_bytes 4 v"

definition write_u64_le :: "u64 \<Rightarrow> bytes" where
  "write_u64_le v = to_le_bytes 8 v"

lemma length_to_le_bytes [simp]: "length (to_le_bytes n v) = n"
  by (induction n arbitrary: v) auto

lemma from_to_le_bytes: "from_le_bytes (to_le_bytes n v) = take_bit (8 * n) v"
proof (induction n arbitrary: v)
  case (Suc n)
  show ?case
    by (rule bit_word_eqI)
       (auto simp: Suc bit_simps not_less le_diff_conv2 le_add_diff_inverse2)
qed simp

lemma from_to_le_bytes_full: "LENGTH('w) \<le> 8 * n \<Longrightarrow> from_le_bytes (to_le_bytes n v) = (v :: 'w::len word)"
  by (simp add: from_to_le_bytes take_bit_word_eq_self)

lemma read_u8_append [step_simps]: "read_u8 ([b] @ bs) = Inr (b, bs)"
  by simp

lemma read_exact_append [step_simps]: "length xs = n \<Longrightarrow> read_exact n (xs @ bs) = Inr (xs, bs)"
  by (simp add: read_exact_def)

lemma read_exact_eq_Inr: "read_exact n bs = Inr (xs, r) \<longleftrightarrow> bs = xs @ r \<and> length xs = n"
  by (auto simp: read_exact_def)

lemma read_u8_eq_Inr: "read_u8 bs = Inr (b, r) \<longleftrightarrow> bs = b # r"
  by (cases bs) auto

lemma sequential_read_exact [intro]: "sequential (read_exact n)"
  by (auto simp: sequential_def read_exact_eq_Inr)

lemma sequential_read_u8 [intro]: "sequential read_u8"
  by (auto simp: sequential_def read_u8_eq_Inr)

lemma sequential_read_words [intro]:
  "sequential read_u16" "sequential read_u32" "sequential read_u64"
  by (auto simp: read_u16_def read_u32_def read_u64_def)

section \<open>Readers that do not panic\<close>

definition panic_free :: "'a parser \<Rightarrow> bool" where
  "panic_free p \<longleftrightarrow> (\<forall>bs. p bs \<noteq> Inl Panic)"

lemma panic_freeD: "panic_free p \<Longrightarrow> p bs \<noteq> Inl Panic"
  by (simp add: panic_free_def)

lemma panic_free_basic [intro]:
  "panic_free (preturn a)"
  "e \<noteq> Panic \<Longrightarrow> panic_free (pfail e)"
  "e \<noteq> Panic \<Longrightarrow> panic_free (pensure e c)"
  "r \<noteq> Inl Panic \<Longrightarrow> panic_free (plift r)"
  by (auto simp: panic_free_def pensure_def plift_def split: sum.splits)

lemma panic_free_pbind [intro]:
  "panic_free p \<Longrightarrow> (\<And>a. panic_free (f a)) \<Longrightarrow> panic_free (pbind p f)"
  by (auto simp: panic_free_def pbind_def split: sum.splits)

lemma pbind_eq_Panic:
  "pbind p f bs = Inl Panic \<longleftrightarrow> p bs = Inl Panic \<or> (\<exists>a r. p bs = Inr (a, r) \<and> f a r = Inl Panic)"
  by (auto simp: pbind_def split: sum.splits)

lemma pensure_eq_Panic [simp]: "e \<noteq> Panic \<Longrightarrow> pensure e c bs \<noteq> Inl Panic"
  by (simp add: pensure_def)

lemma plift_eq_Panic [simp]: "plift x bs = Inl Panic \<longleftrightarrow> x = Inl Panic"
  by (auto simp: plift_def split: sum.splits)

lemma panic_free_if [intro]: "panic_free p \<Longrightarrow> panic_free q \<Longrightarrow> panic_free (if c then p else q)"
  by simp

lemma panic_free_case_prod [intro]: "(\<And>a b. panic_free (f a b)) \<Longrightarrow> panic_free (case x of (a, b) \<Rightarrow> f a b)"
  by (cases x) simp

lemma panic_free_case_option [intro]:
  "panic_free p \<Longrightarrow> (\<And>a. panic_free (f a)) \<Longrightarrow> panic_free (case x of None \<Rightarrow> p | Some a \<Rightarrow> f a)"
  by (cases x) simp_all

lemma panic_free_preplicate [intro]: "panic_free p \<Longrightarrow> panic_free (preplicate n p)"
  by (induction n) auto

lemma panic_free_pmap [intro]: "(\<And>x. panic_free (f x)) \<Longrightarrow> panic_free (pmap f xs)"
  by (induction xs) auto

lemma panic_free_read_exact [intro]: "panic_free (read_exact n)"
  by (simp add: panic_free_def read_exact_def eof_def from_io_def io_msg_def)

lemma panic_free_read_u8 [intro]: "panic_free read_u8"
  unfolding panic_free_def
proof
  fix bs show "read_u8 bs \<noteq> Inl Panic" by (cases bs) (simp_all add: eof_def from_io_def io_msg_def)
qed

lemma panic_free_read_words [intro]:
  "panic_free read_u16" "panic_free read_u32" "panic_free read_u64"
  by (auto simp: read_u16_def read_u32_def read_u64_def)

section \<open>The contract of a writer and its reader\<close>

locale codec =
  fixes enc :: "'a \<Rightarrow> bytes"
    and dec :: "'a parser"
    and ok :: "'a \<Rightarrow> bool"
  assumes decode_encode: "ok a \<Longrightarrow> dec (enc a @ rest) = Inr (a, rest)"
begin

lemma decode_all: "ok a \<Longrightarrow> dec (enc a) = Inr (a, [])"
  using decode_encode [of a "[]"] by simp

lemma bind_encoded: "ok a \<Longrightarrow> pbind dec f (enc a @ rest) = f a rest"
  by (simp add: pbind_def decode_encode)

lemma prefix_free: "ok a \<Longrightarrow> ok b \<Longrightarrow> enc a @ r = enc b @ s \<Longrightarrow> a = b \<and> r = s"
  by (metis decode_encode Inr_inject prod.inject)

lemma decode_list:
  "list_all ok xs \<Longrightarrow> preplicate (length xs) dec (concat (map enc xs) @ rest) = Inr (xs, rest)"
  by (induction xs) (simp_all add: pbind_def decode_encode)

lemma bind_list:
  "list_all ok xs \<Longrightarrow> pbind (preplicate (length xs) dec) f (concat (map enc xs) @ rest) = f xs rest"
  by (simp add: pbind_def decode_list)

lemma decode_map:
  assumes "\<And>x. x \<in> set xs \<Longrightarrow> ok (f x)"
  shows "preplicate (length xs) dec (concat (map (\<lambda>x. enc (f x)) xs) @ rest) = Inr (map f xs, rest)"
  using decode_list [of "map f xs" rest] assms by (auto simp: list_all_iff comp_def)

end

interpretation u8_codec: codec write_u8 read_u8 "\<lambda>_. True"
  by unfold_locales (simp add: write_u8_def)

interpretation u16_codec: codec write_u16 read_u16 "\<lambda>_. True"
  by unfold_locales (simp add: write_u16_def read_u16_def pbind_def read_exact_append from_to_le_bytes_full)

interpretation u32_codec: codec write_u32 read_u32 "\<lambda>_. True"
  by unfold_locales (simp add: write_u32_def read_u32_def pbind_def read_exact_append from_to_le_bytes_full)

interpretation u64_codec: codec write_u64_le read_u64 "\<lambda>_. True"
  by unfold_locales (simp add: write_u64_le_def read_u64_def pbind_def read_exact_append from_to_le_bytes_full)

section \<open>The NUMBER encoding\<close>

text \<open>
  The loop of \<open>read_variable_u64\<close>: \<open>n\<close> iterations are left, so the loop variable is
  \<open>i = 8 - n\<close>.
\<close>

fun read_variable_loop :: "nat \<Rightarrow> u64 \<Rightarrow> u64 \<Rightarrow> u64 \<Rightarrow> u64 parser" where
  "read_variable_loop 0 first msk value bs = Inr (value, bs)"
| "read_variable_loop (Suc n) first msk value bs =
     (let i = 7 - n in
      if first AND msk = 0
      then Inr (value OR push_bit (8 * i) (first AND (msk - 1)), bs)
      else pbind read_u8
        (\<lambda>b. read_variable_loop n first (drop_bit 1 msk) (value OR push_bit (8 * i) (ucast b))) bs)"

definition read_variable_u64 :: "u64 parser" where
  "read_variable_u64 = pbind read_u8 (\<lambda>first. read_variable_loop 8 (ucast first) 0x80 0)"

text \<open>
  The first loop of \<open>write_u64\<close> computes the lead byte and the number of bytes that follow;
  again \<open>i = 8 - n\<close>.  The second loop is \<open>to_le_bytes\<close>.
\<close>

fun number_lead :: "nat \<Rightarrow> u64 \<Rightarrow> u64 \<Rightarrow> u64 \<Rightarrow> u64 \<times> nat" where
  "number_lead 0 first msk value = (first, 8)"
| "number_lead (Suc n) first msk value =
     (let i = 7 - n in
      if value < 2 ^ (7 * (i + 1))
      then (first OR drop_bit (8 * i) value, i)
      else number_lead n (first OR msk) (drop_bit 1 msk) value)"

definition write_u64 :: "u64 \<Rightarrow> bytes" where
  "write_u64 value =
     (let (first, i) = number_lead 8 0 0x80 value
      in ucast (first AND 0xFF) # to_le_bytes i value)"

subsection \<open>The lead byte\<close>

text \<open>The lead byte's marker: the top \<open>i\<close> bits of a byte.\<close>

definition lead_marker :: "nat \<Rightarrow> u64" where
  "lead_marker i = take_bit 8 (NOT (mask (8 - i)))"

lemma bit_lead_marker: "bit (lead_marker i) k \<longleftrightarrow> 8 - i \<le> k \<and> k < 8"
  by (auto simp: lead_marker_def bit_simps)

lemma bit_marker_mask: "bit (2 ^ m :: u64) k \<longleftrightarrow> k = m \<and> m < 64"
  by (auto simp: bit_exp_iff)

lemma lead_marker_Suc: "i < 8 \<Longrightarrow> lead_marker i OR 2 ^ (7 - i) = lead_marker (Suc i)"
  by (rule bit_word_eqI) (auto simp: bit_lead_marker bit_marker_mask bit_or_iff)

lemma drop_marker_mask: "0 < m \<Longrightarrow> m < 64 \<Longrightarrow> drop_bit 1 (2 ^ m :: u64) = 2 ^ (m - 1)"
  by (rule bit_word_eqI) (auto simp: bit_marker_mask bit_drop_bit_eq)

lemma less_exp_iff: "k < 64 \<Longrightarrow> (v :: u64) < 2 ^ k \<longleftrightarrow> unat v < 2 ^ k"
proof -
  assume "k < 64"
  then have "(2 :: nat) ^ k < 2 ^ 64" by (rule power_strict_increasing) simp
  then have "unat (of_nat (2 ^ k) :: u64) = 2 ^ k" by (rule unat_of_nat_u64)
  then show ?thesis by (simp add: word_less_nat_alt)
qed

lemma number_lead_general:
  assumes "j \<le> 8" "\<forall>i<j. 2 ^ (7 * (i + 1)) \<le> unat v"
  shows "\<exists>i\<le>8. number_lead (8 - j) (lead_marker j) (if j < 8 then 2 ^ (7 - j) else 0) v
      = (if i < 8 then lead_marker i OR drop_bit (8 * i) v else lead_marker 8, i)
    \<and> (i < 8 \<longrightarrow> unat v < 2 ^ (7 * (i + 1)))"
  using assms
proof (induction "8 - j" arbitrary: j)
  case 0
  then show ?case by (intro exI [of _ 8]) simp
next
  case (Suc n)
  then have j: "j < 8" and n: "n = 8 - Suc j" "8 - j = Suc n" "7 - n = j" by auto
  show ?case
  proof (cases "unat v < 2 ^ (7 * (j + 1))")
    case True
    then show ?thesis using j n by (intro exI [of _ j]) (simp add: less_exp_iff)
  next
    case False
    have "\<forall>i<Suc j. 2 ^ (7 * (i + 1)) \<le> unat v"
      using Suc.prems(2) False by (simp add: less_Suc_eq not_less)
    from Suc.hyps(1) [OF n(1) _ this] j obtain i where i: "i \<le> 8"
      and eq: "number_lead (8 - Suc j) (lead_marker (Suc j)) (if Suc j < 8 then 2 ^ (7 - Suc j) else 0) v
        = (if i < 8 then lead_marker i OR drop_bit (8 * i) v else lead_marker 8, i)"
      and b: "i < 8 \<longrightarrow> unat v < 2 ^ (7 * (i + 1))" by auto
    have m: "drop_bit 1 (2 ^ (7 - j) :: u64) = (if Suc j < 8 then 2 ^ (7 - Suc j) else 0)"
      using j drop_marker_mask [of "7 - j"] by (auto simp: numeral_eq_Suc)
    have "number_lead (8 - j) (lead_marker j) (if j < 8 then 2 ^ (7 - j) else 0) v
        = number_lead (8 - Suc j) (lead_marker (Suc j)) (if Suc j < 8 then 2 ^ (7 - Suc j) else 0) v"
      using j n False by (simp add: less_exp_iff lead_marker_Suc m [simplified])
    then show ?thesis using i eq b by auto
  qed
qed


lemma number_lead_spec:
  obtains i where "i \<le> 8"
    and "number_lead 8 0 0x80 v = (if i < 8 then lead_marker i OR drop_bit (8 * i) v else lead_marker 8, i)"
    and "i < 8 \<Longrightarrow> unat v < 2 ^ (7 * (i + 1))"
proof -
  have "lead_marker 0 = 0" by (rule bit_word_eqI) (simp add: bit_lead_marker)
  then show thesis using number_lead_general [of 0 v] that by auto
qed

subsection \<open>Reading back a NUMBER\<close>

lemma take_drop_or: "take_bit m v OR push_bit m (drop_bit m v) = (v :: u64)"
  by (rule bit_word_eqI) (simp add: bit_or_iff bit_take_bit_iff bit_push_bit_iff bit_drop_bit_eq, metis le_add_diff_inverse not_less)

lemma take_bit_step:
  "take_bit (8 * j) v OR push_bit (8 * j) (ucast (ucast (drop_bit (8 * j) v) :: u8)) = take_bit (8 * Suc j) (v :: u64)"
  by (rule bit_word_eqI) (auto simp: bit_simps)

lemma marker_pred: "m < 64 \<Longrightarrow> (2 ^ m :: u64) - 1 = mask m"
  by (simp add: mask_eq_exp_minus_1)

lemma marker_clear_iff: "m < 64 \<Longrightarrow> (first :: u64) AND 2 ^ m = 0 \<longleftrightarrow> \<not> bit first m"
  by (simp add: and_exp_eq_0_iff_not_bit)

lemma read_loop_spec:
  assumes "j \<le> i" "i \<le> 8" "\<forall>k<i. bit first (7 - k)" "i < 8 \<longrightarrow> \<not> bit first (7 - i)"
  shows "read_variable_loop (8 - j) first (if j < 8 then 2 ^ (7 - j) else 0) (take_bit (8 * j) v)
      (to_le_bytes (i - j) (drop_bit (8 * j) v) @ rest)
    = Inr (take_bit (8 * i) v OR (if i < 8 then push_bit (8 * i) (take_bit (7 - i) first) else 0), rest)"
  using assms
proof (induction "i - j" arbitrary: j)
  case 0
  then have [simp]: "j = i" by simp
  show ?case
  proof (cases "i < 8")
    case True
    then obtain n where n: "8 - i = Suc n" "7 - n = i" by (intro that [of "7 - i"]) auto
    have "first AND 2 ^ (7 - i) = 0" using True 0 by (simp add: marker_clear_iff)
    then show ?thesis using True n by (simp add: marker_pred [simplified] take_bit_eq_mask)
  next
    case False
    then show ?thesis using 0 by simp
  qed
next
  case (Suc d)
  then have j: "j < 8" "j < i" and d: "d = i - Suc j" "i - j = Suc d" by auto
  obtain n where n: "8 - j = Suc n" "7 - n = j" "n = 8 - Suc j"
    using j by (intro that [of "7 - j"]) auto
  have m: "drop_bit 1 (2 ^ (7 - j) :: u64) = (if Suc j < 8 then 2 ^ (7 - Suc j) else 0)"
    using j drop_marker_mask [of "7 - j"] by (auto simp: numeral_eq_Suc)
  have set_: "first AND 2 ^ (7 - j) \<noteq> 0" using j Suc.prems by (simp add: marker_clear_iff)
  have "read_variable_loop (8 - j) first (if j < 8 then 2 ^ (7 - j) else 0) (take_bit (8 * j) v)
      (to_le_bytes (i - j) (drop_bit (8 * j) v) @ rest)
    = read_variable_loop (8 - Suc j) first (if Suc j < 8 then 2 ^ (7 - Suc j) else 0) (take_bit (8 * Suc j) v)
      (to_le_bytes (i - Suc j) (drop_bit (8 * Suc j) v) @ rest)"
    using j n d set_ m take_bit_step [of j v] by (simp add: pbind_def add.commute)
  then show ?case using Suc.hyps(1) [OF d(1)] Suc.prems j by simp
qed

lemma read_write_u64: "read_variable_u64 (write_u64 v @ rest) = Inr (v, rest)"
proof -
  obtain i where i: "i \<le> 8"
    and lead: "number_lead 8 0 0x80 v = (if i < 8 then lead_marker i OR drop_bit (8 * i) v else lead_marker 8, i)"
    and small: "i < 8 \<Longrightarrow> unat v < 2 ^ (7 * (i + 1))" using number_lead_spec [of v] by blast
  define first where "first = (if i < 8 then lead_marker i OR drop_bit (8 * i) v else lead_marker 8)"
  have high: "k < 7 - i" if "bit v (8 * i + k)" "i < 8" for k
  proof -
    have "\<not> 7 * (i + 1) \<le> 8 * i + k"
      using bit_above_bound [OF small, of "8 * i + k"] that by blast
    then show ?thesis by simp
  qed
  have f8: "take_bit 8 first = first" 
    by (rule bit_word_eqI) (auto simp: first_def bit_simps bit_lead_marker dest: high)
  have b1: "\<forall>k<i. bit first (7 - k)"
    using i by (auto simp: first_def bit_simps bit_lead_marker)
  have b2: "i < 8 \<longrightarrow> \<not> bit first (7 - i)"
    using high [of "7 - i"] by (auto simp: first_def bit_simps bit_lead_marker)
  have low: "take_bit (7 - i) first = drop_bit (8 * i) v" if "i < 8"
    by (rule bit_word_eqI) (use that in \<open>auto simp: first_def bit_simps bit_lead_marker dest: high\<close>)
  have bound: "n < 8" if "bit first n" for n
    using f8 that by (metis bit_take_bit_iff)
  have byte_mask: "(0xFF :: u64) = mask 8" by (simp add: mask_eq_exp_minus_1)
  have u: "ucast (ucast (first AND 0xFF) :: u8) = first"
    by (rule bit_word_eqI) (auto simp: byte_mask bit_simps dest: bound)
  have "read_variable_u64 (write_u64 v @ rest)
      = read_variable_loop 8 first 0x80 0 (to_le_bytes i v @ rest)"
    using u by (simp add: read_variable_u64_def write_u64_def lead first_def [symmetric] pbind_def)
  also have "\<dots> = Inr (take_bit (8 * i) v OR (if i < 8 then push_bit (8 * i) (take_bit (7 - i) first) else 0), rest)"
    using read_loop_spec [of 0 i first v rest] i b1 b2 by simp
  also have "\<dots> = Inr (v, rest)"
    using low i take_drop_or [of "8 * i" v] by (auto simp: take_bit_word_eq_self)
  finally show ?thesis .
qed


interpretation number_codec: codec write_u64 read_variable_u64 "\<lambda>_. True"
  by unfold_locales (rule read_write_u64)

lemma read_variable_small:
  assumes "b AND 0x80 = (0 :: u8)"
  shows "read_variable_u64 (b # bs) = Inr (ucast b, bs)"
proof -
  have nb: "\<not> bit b 7"
    using assms and_exp_eq_0_iff_not_bit [of b 7] by simp
  have "(ucast b :: u64) AND 0x80 = 0"
    using marker_clear_iff [of 7 "ucast b"] nb by (simp add: bit_simps)
  moreover have m7: "(0x7F :: u64) = mask 7" by (simp add: mask_eq_exp_minus_1)
  have "(ucast b :: u64) AND 0x7F = ucast b"
    unfolding m7
  proof (rule bit_word_eqI)
    fix n
    have "bit b n \<Longrightarrow> n < 7" using nb bit_imp_le_length [of b n] by (cases "n = 7") auto
    then show "bit ((ucast b :: u64) AND mask 7) n \<longleftrightarrow> bit (ucast b :: u64) n"
      by (auto simp: bit_simps)
  qed
  ultimately show ?thesis
    by (simp add: read_variable_u64_def pbind_def numeral_eq_Suc Let_def)
qed
lemma sequential_read_variable_loop: "sequential (read_variable_loop n first msk v)"
proof (induction n arbitrary: msk v)
  case (Suc n)
  have "read_variable_loop (Suc n) first msk v
      = (if first AND msk = 0
         then preturn (v OR push_bit (8 * (7 - n)) (first AND (msk - 1)))
         else pbind read_u8
           (\<lambda>b. read_variable_loop n first (drop_bit 1 msk) (v OR push_bit (8 * (7 - n)) (ucast b))))"
    by (rule ext) (simp add: Let_def)
  then show ?case using Suc.IH by auto
qed (auto simp: sequential_def)

lemma sequential_read_variable_u64 [intro]: "sequential read_variable_u64"
  unfolding read_variable_u64_def by (intro sequential_pbind sequential_read_u8 sequential_read_variable_loop)

lemma panic_free_read_variable_loop: "panic_free (read_variable_loop n first msk v)"
proof (induction n arbitrary: msk v)
  case (Suc n)
  show ?case unfolding panic_free_def
  proof
    fix bs
    show "read_variable_loop (Suc n) first msk v bs \<noteq> Inl Panic"
      using panic_freeD [OF panic_free_pbind [OF panic_free_read_u8 Suc.IH]] by (simp add: Let_def)
  qed
qed (simp add: panic_free_def)

lemma panic_free_read_variable_u64 [intro]: "panic_free read_variable_u64"
  unfolding read_variable_u64_def by (intro panic_free_pbind panic_free_read_u8 panic_free_read_variable_loop)

lemma length_write_u64:
  "length (write_u64 v) \<le> 9"
  "length (write_u64 v) \<le> 8 \<Longrightarrow> unat v < 2 ^ (7 * length (write_u64 v))"
   by (rule number_lead_spec [of v]; simp add: write_u64_def split: if_splits)+

lemma number_lead_minimal:
  "number_lead n first msk value = (f, i) \<Longrightarrow> n \<le> 8 \<Longrightarrow> 8 - n \<le> k \<Longrightarrow> k < i \<Longrightarrow> 2 ^ (7 * (k + 1)) \<le> unat value"
proof (induction n arbitrary: first msk)
  case (Suc n)
  show ?case
  proof (cases "value < 2 ^ (7 * (7 - n + 1))")
    case True
    then show ?thesis using Suc.prems by (simp add: Let_def)
  next
    case False
    then have big: "\<not> unat value < 2 ^ (7 * (7 - n + 1))" using Suc.prems by (simp add: less_exp_iff)
    show ?thesis
    proof (cases "k = 7 - n")
      case True
      then show ?thesis using big by simp
    next
      case k: False
      then show ?thesis using Suc.IH [of "first OR msk" "drop_bit 1 msk"] Suc.prems False by (simp add: Let_def)
    qed
  qed
qed simp

section \<open>Properties\<close>

text \<open>
  C24: a NUMBER survives its encoding and the encoding is the shortest one.  Reading back what
  \<open>write_u64\<close> wrote gives every 64-bit value and leaves exactly what followed; it takes one
  to nine bytes, and \<open>k + 1\<close> bytes with \<open>k < 8\<close> exactly for the values that need more than
  \<open>7 k\<close> and at most \<open>7 (k + 1)\<close> bits.
\<close>

theorem number_roundtrip:
  "read_variable_u64 (write_u64 v @ rest) = Inr (v, rest)
    \<and> length (write_u64 v) \<le> 9
    \<and> (length (write_u64 v) \<le> 8 \<longrightarrow> unat v < 2 ^ (7 * length (write_u64 v)))
    \<and> (k + 1 < length (write_u64 v) \<longrightarrow> 2 ^ (7 * (k + 1)) \<le> unat v)"
proof -
  have "2 ^ (7 * (k + 1)) \<le> unat v" if "k + 1 < length (write_u64 v)"
    using that number_lead_minimal [where n = 8 and k = k]
    by (cases "number_lead 8 0 0x80 v") (simp add: write_u64_def)
  then show ?thesis using number_codec.decode_encode length_write_u64 by blast
qed

theorem number_roundtrip_witness:
  "write_u64 300 = [0x81, 0x2C] \<and> read_variable_u64 [0x81, 0x2C, 5] = Inr (300, [5])
    \<and> 2 ^ 7 \<le> unat (300 :: u64)"
proof -
  have w: "write_u64 300 = [0x81, 0x2C]" by code_simp
  show ?thesis using number_roundtrip [of 300 "[5]" 0] by (simp add: w)
qed

end
