(* ===== verification/Bit_Set.thy ===== *)
theory Bit_Set
  imports Byte_IO
begin

text \<open>
  \<open>src/bitset.rs\<close>: a set of indices as a vector of 64-bit blocks and a bit count, and its two
  serialisations, \<open>write_bit_set\<close> and \<open>read_bits\<close> / \<open>read_all_or_bits\<close> of \<open>src/reader.rs\<close>.
  The invariant \<open>bitset_ok\<close> says the vector has exactly the blocks the count needs and that
  no bit is set past the count (an index is a natural number; \<open>v + 1\<close> at \<open>usize::MAX\<close> is out of reach, as the
  vector would not fit in memory); the abstraction \<open>bitset_members\<close> is the set of indices.  The
  locale \<open>index_set\<close> is what the header code relies on.
\<close>

section \<open>The vector of blocks\<close>

record bit_set =
  bits :: "u64 list"
  bit_count :: nat

definition blocks_for_bits :: "nat \<Rightarrow> nat" where
  "blocks_for_bits n = (if n = 0 then 0 else (n - 1) div 64 + 1)"

definition bit_indices :: "nat \<Rightarrow> nat \<times> nat" where
  "bit_indices bit_pos = (bit_pos div 64, bit_pos mod 64)"

definition bitset_new :: bit_set where
  "bitset_new = \<lparr>bits = [], bit_count = 0\<rparr>"

definition bitset_with_capacity :: "nat \<Rightarrow> bit_set" where
  "bitset_with_capacity n = \<lparr>bits = replicate (blocks_for_bits n) 0, bit_count = n\<rparr>"

definition count_ones :: "u64 \<Rightarrow> nat" where
  "count_ones w = length (filter (bit w) [0..<64])"

definition bitset_len :: "bit_set \<Rightarrow> nat" where
  "bitset_len s = sum_list (map count_ones (bits s))"

definition bitset_contains :: "bit_set \<Rightarrow> nat \<Rightarrow> bool" where
  "bitset_contains s v =
     (if bit_count s \<le> v then False
      else let (block_idx, bit_idx) = bit_indices v in
        if length (bits s) \<le> block_idx then False
        else bits s ! block_idx AND push_bit bit_idx 1 \<noteq> 0)"

definition bitset_grow :: "nat \<Rightarrow> bit_set \<Rightarrow> bit_set" where
  "bitset_grow new_len s =
     (if new_len \<le> bit_count s then s
      else \<lparr>bits = bits s @ replicate (blocks_for_bits new_len - length (bits s)) 0,
            bit_count = new_len\<rparr>)"

definition bitset_insert :: "nat \<Rightarrow> bit_set \<Rightarrow> bool \<times> bit_set" where
  "bitset_insert v s =
     (if bitset_contains s v then (False, s)
      else let s' = (if bit_count s \<le> v then bitset_grow (v + 1) s else s);
               (block_idx, bit_idx) = bit_indices v
           in (True, s'\<lparr>bits := (bits s')[block_idx := bits s' ! block_idx OR push_bit bit_idx 1]\<rparr>))"

definition bitset_remove :: "nat \<Rightarrow> bit_set \<Rightarrow> bool \<times> bit_set" where
  "bitset_remove v s =
     (if \<not> bitset_contains s v then (False, s)
      else let (block_idx, bit_idx) = bit_indices v
           in (True, s\<lparr>bits := (bits s)[block_idx := bits s ! block_idx AND NOT (push_bit bit_idx 1)]\<rparr>))"

definition bitset_reserve_len_exact :: "nat \<Rightarrow> bit_set \<Rightarrow> bit_set" where
  "bitset_reserve_len_exact count s =
     (if bit_count s < count
      then \<lparr>bits = bits s @ replicate (blocks_for_bits count - length (bits s)) 0, bit_count = count\<rparr>
      else s)"

section \<open>Invariant and abstraction\<close>

definition stored :: "bit_set \<Rightarrow> nat \<Rightarrow> bool" where
  "stored s v \<longleftrightarrow> v div 64 < length (bits s) \<and> bit (bits s ! (v div 64)) (v mod 64)"

definition bitset_ok :: "bit_set \<Rightarrow> bool" where
  "bitset_ok s \<longleftrightarrow> length (bits s) = blocks_for_bits (bit_count s) \<and> (\<forall>v. stored s v \<longrightarrow> v < bit_count s)"

definition bitset_members :: "bit_set \<Rightarrow> nat set" where
  "bitset_members s = {v. bitset_contains s v}"

lemma block_in_range: "v < n \<Longrightarrow> v div 64 < blocks_for_bits n"
  by (auto simp: blocks_for_bits_def less_Suc_eq_le div_le_mono)

lemma blocks_mono: "m \<le> n \<Longrightarrow> blocks_for_bits m \<le> blocks_for_bits n"
  by (auto simp: blocks_for_bits_def div_le_mono)

lemma blocks_tight: "v div 64 < blocks_for_bits n \<Longrightarrow> v < 64 * blocks_for_bits n"
  by (auto simp: blocks_for_bits_def)

lemma contains_iff: "bitset_contains s v \<longleftrightarrow> v < bit_count s \<and> stored s v"
  by (auto simp: bitset_contains_def stored_def bit_indices_def Let_def and_exp_eq_0_iff_not_bit)

lemma contains_ok: "bitset_ok s \<Longrightarrow> bitset_contains s v \<longleftrightarrow> stored s v"
  by (auto simp: contains_iff bitset_ok_def)

lemma members_bounded: "bitset_members s \<subseteq> {..<bit_count s}"
  by (auto simp: bitset_members_def contains_iff)

lemma finite_members [simp]: "finite (bitset_members s)"
  using members_bounded by (rule finite_subset) simp

lemma bitset_ok_new [simp]: "bitset_ok bitset_new"
  by (simp add: bitset_ok_def bitset_new_def stored_def blocks_for_bits_def)

lemma bitset_ok_with_capacity [simp]: "bitset_ok (bitset_with_capacity n)"
  by (auto simp: bitset_ok_def bitset_with_capacity_def stored_def)

lemma members_fresh [simp]:
  "bitset_members bitset_new = {}" "bitset_members (bitset_with_capacity n) = {}"
  by (auto simp: bitset_members_def contains_iff stored_def bitset_new_def bitset_with_capacity_def)

lemma bit_count_fresh [simp]: "bit_count bitset_new = 0" "bit_count (bitset_with_capacity n) = n"
  by (simp_all add: bitset_new_def bitset_with_capacity_def)

lemma stored_extend: "stored \<lparr>bits = bits s @ replicate k 0, bit_count = n\<rparr> v \<longleftrightarrow> stored s v"
  by (auto simp: stored_def nth_append)

lemma grow_ok: "bitset_ok s \<Longrightarrow> bitset_ok (bitset_grow n s)"
  using blocks_mono [of "bit_count s" n]
  by (auto simp: bitset_grow_def bitset_ok_def stored_extend dest: less_le_trans)

lemma stored_grow: "stored (bitset_grow n s) v \<longleftrightarrow> stored s v"
  by (simp add: bitset_grow_def stored_extend)

lemma bit_count_grow: "bit_count (bitset_grow n s) = max n (bit_count s)"
  by (simp add: bitset_grow_def)

lemma reserve_is_grow: "bitset_reserve_len_exact n s = bitset_grow n s"
  by (auto simp: bitset_reserve_len_exact_def bitset_grow_def)

lemma same_index: "w div 64 = v div 64 \<Longrightarrow> w mod 64 = v mod 64 \<Longrightarrow> w = (v :: nat)"
  by (metis div_mult_mod_eq)

lemma stored_set:
  assumes "v div 64 < length (bits s)"
  shows "stored (s\<lparr>bits := (bits s)[v div 64 := bits s ! (v div 64) OR push_bit (v mod 64) 1]\<rparr>) w \<longleftrightarrow>
    w = v \<or> stored s w"
  using assms same_index [of w v]
  by (cases "w div 64 = v div 64") (auto simp: stored_def nth_list_update bit_or_iff bit_exp_iff)

lemma stored_clear:
  assumes "v div 64 < length (bits s)"
  shows "stored (s\<lparr>bits := (bits s)[v div 64 := bits s ! (v div 64) AND NOT (push_bit (v mod 64) 1)]\<rparr>) w \<longleftrightarrow>
    w \<noteq> v \<and> stored s w"
  using assms same_index [of w v]
  by (cases "w div 64 = v div 64")
    (auto simp: stored_def nth_list_update bit_and_iff bit_not_iff bit_exp_iff)

lemma insert_parts:
  assumes ok: "bitset_ok s"
  shows "bitset_ok (snd (bitset_insert v s))"
    and "bit_count (snd (bitset_insert v s)) = max (bit_count s) (v + 1)"
    and "stored (snd (bitset_insert v s)) w \<longleftrightarrow> w = v \<or> stored s w"
    and "fst (bitset_insert v s) \<longleftrightarrow> \<not> stored s v"
proof -
  define s' where "s' = (if bit_count s \<le> v then bitset_grow (v + 1) s else s)"
  have ok': "bitset_ok s'" using ok by (simp add: s'_def grow_ok)
  have n': "bit_count s' = max (bit_count s) (v + 1)" by (auto simp: s'_def bit_count_grow)
  have st': "stored s' w \<longleftrightarrow> stored s w" for w by (simp add: s'_def stored_grow)
  have blk: "v div 64 < length (bits s')"
    using ok' n' block_in_range [of v "bit_count s'"] by (simp add: bitset_ok_def)
  have ins: "bitset_insert v s = (if stored s v then (False, s)
    else (True, s'\<lparr>bits := (bits s')[v div 64 := bits s' ! (v div 64) OR push_bit (v mod 64) 1]\<rparr>))"
    using contains_ok [OF ok] by (simp add: bitset_insert_def s'_def Let_def bit_indices_def)
  have in_bound: "stored s v \<Longrightarrow> v < bit_count s" using ok by (simp add: bitset_ok_def)
  show "fst (bitset_insert v s) \<longleftrightarrow> \<not> stored s v" by (simp add: ins)
  show "stored (snd (bitset_insert v s)) w \<longleftrightarrow> w = v \<or> stored s w"
    using stored_set [OF blk, of w] by (auto simp: ins st')
  show "bit_count (snd (bitset_insert v s)) = max (bit_count s) (v + 1)"
    using in_bound by (auto simp: ins n')
  show "bitset_ok (snd (bitset_insert v s))"
    using ok ok' n' stored_set [OF blk] by (auto simp: ins bitset_ok_def)
qed

lemma remove_parts:
  assumes ok: "bitset_ok s"
  shows "bitset_ok (snd (bitset_remove v s))"
    and "bit_count (snd (bitset_remove v s)) = bit_count s"
    and "stored (snd (bitset_remove v s)) w \<longleftrightarrow> w \<noteq> v \<and> stored s w"
    and "fst (bitset_remove v s) \<longleftrightarrow> stored s v"
proof -
  have rem: "bitset_remove v s = (if \<not> stored s v then (False, s)
    else (True, s\<lparr>bits := (bits s)[v div 64 := bits s ! (v div 64) AND NOT (push_bit (v mod 64) 1)]\<rparr>))"
    using contains_ok [OF ok] by (simp add: bitset_remove_def Let_def bit_indices_def)
  have blk: "stored s v \<Longrightarrow> v div 64 < length (bits s)" by (simp add: stored_def)
  show "fst (bitset_remove v s) \<longleftrightarrow> stored s v" "bit_count (snd (bitset_remove v s)) = bit_count s"
    by (simp_all add: rem)
  show "stored (snd (bitset_remove v s)) w \<longleftrightarrow> w \<noteq> v \<and> stored s w"
    using stored_clear [OF blk, of w] by (auto simp: rem)
  show "bitset_ok (snd (bitset_remove v s))"
    using ok stored_clear [OF blk] by (auto simp: rem bitset_ok_def)
qed


text \<open>The number of set bits is the size of the abstract set.\<close>

lemma count_ones_card: "count_ones w = card {n. n < 64 \<and> bit w n}"
  by (simp add: count_ones_def distinct_length_filter Int_def conj_commute)

lemma count_blocks:
  "sum_list (map count_ones ws) = card {v. v div 64 < length ws \<and> bit (ws ! (v div 64)) (v mod 64)}"
proof (induction ws rule: rev_induct)
  case (snoc w ws)
  let ?old = "{v. v div 64 < length ws \<and> bit (ws ! (v div 64)) (v mod 64)}"
  let ?new = "(\<lambda>n. 64 * length ws + n) ` {n. n < 64 \<and> bit w n}"
  have "{v. v div 64 < length (ws @ [w]) \<and> bit ((ws @ [w]) ! (v div 64)) (v mod 64)} = ?old \<union> ?new"
    (is "?all = _")
  proof (rule set_eqI)
    fix v
    show "v \<in> ?all \<longleftrightarrow> v \<in> ?old \<union> ?new"
    proof (cases "v div 64 = length ws")
      case True
      then have "v = 64 * length ws + v mod 64" by (metis mult_div_mod_eq)
      moreover have "v mod 64 < 64" by simp
      ultimately show ?thesis using True by (auto simp: image_iff nth_append intro: exI [of _ "v mod 64"])
    next
      case False
      then show ?thesis by (auto simp: nth_append less_Suc_eq)
    qed
  qed
  moreover have "finite ?old"
    by (rule finite_subset [of _ "{..<64 * length ws}"]) auto
  moreover have "?old \<inter> ?new = {}" by auto
  moreover have "card ?new = card {n. n < 64 \<and> bit w n}"
    by (rule card_image) (auto simp: inj_on_def)
  ultimately show ?case by (simp add: snoc card_Un_disjoint count_ones_card [of w])
qed simp

lemma len_members: "bitset_ok s \<Longrightarrow> bitset_len s = card (bitset_members s)"
  by (simp add: bitset_len_def count_blocks bitset_members_def contains_ok stored_def)

section \<open>What the header code relies on\<close>

locale index_set =
  fixes inv :: "'s \<Rightarrow> bool"
    and mem :: "'s \<Rightarrow> nat \<Rightarrow> bool"
    and ins :: "nat \<Rightarrow> 's \<Rightarrow> bool \<times> 's"
    and rem :: "nat \<Rightarrow> 's \<Rightarrow> bool \<times> 's"
    and bound :: "'s \<Rightarrow> nat"
  assumes inv_ins: "inv s \<Longrightarrow> inv (snd (ins v s))"
    and mem_ins: "inv s \<Longrightarrow> mem (snd (ins v s)) w \<longleftrightarrow> w = v \<or> mem s w"
    and fresh_ins: "inv s \<Longrightarrow> fst (ins v s) \<longleftrightarrow> \<not> mem s v"
    and bound_ins: "inv s \<Longrightarrow> bound (snd (ins v s)) = max (bound s) (v + 1)"
    and inv_rem: "inv s \<Longrightarrow> inv (snd (rem v s))"
    and mem_rem: "inv s \<Longrightarrow> mem (snd (rem v s)) w \<longleftrightarrow> w \<noteq> v \<and> mem s w"
    and present_rem: "inv s \<Longrightarrow> fst (rem v s) \<longleftrightarrow> mem s v"
begin

lemma insert_all:
  assumes "inv s"
  shows "inv (fold (\<lambda>i t. if P i then snd (ins i t) else t) xs s)"
    and "mem (fold (\<lambda>i t. if P i then snd (ins i t) else t) xs s) w \<longleftrightarrow> w \<in> set xs \<and> P w \<or> mem s w"
    and "\<forall>i\<in>set xs. i < bound s \<Longrightarrow> bound (fold (\<lambda>i t. if P i then snd (ins i t) else t) xs s) = bound s"
  using assms
  by (induction xs arbitrary: s) (auto simp: inv_ins mem_ins bound_ins)

lemma insert_then_remove:
  "inv s \<Longrightarrow> \<not> mem s v \<Longrightarrow> mem (snd (rem v (snd (ins v s)))) w \<longleftrightarrow> mem s w"
  by (auto simp: inv_ins mem_ins mem_rem)

end

interpretation bs: index_set bitset_ok bitset_contains bitset_insert bitset_remove bit_count
  by unfold_locales (simp_all add: insert_parts remove_parts contains_ok)


section \<open>Serialisation\<close>

text \<open>
  The loop of \<open>write_bit_set\<close> over the indices that are left, with its \<open>cache\<close> and
  \<open>shift\<close>; the loop of \<open>read_bits\<close> with its \<open>mask\<close> and \<open>cache\<close>.
\<close>

fun write_bits_loop :: "bit_set \<Rightarrow> nat list \<Rightarrow> u8 \<Rightarrow> int \<Rightarrow> bytes" where
  "write_bits_loop bs [] cache shift = (if shift \<noteq> 7 then write_u8 cache else [])"
| "write_bits_loop bs (i # is) cache shift =
     (let cache' = cache OR push_bit (nat shift) (if bitset_contains bs i then 1 else 0);
          shift' = shift - 1
      in if shift' < 0 then write_u8 cache' @ write_bits_loop bs is 0 7
         else write_bits_loop bs is cache' shift')"

definition write_bit_set :: "bit_set \<Rightarrow> bytes" where
  "write_bit_set bs = write_bits_loop bs [0..<bit_count bs] 0 7"

fun read_bits_loop :: "nat list \<Rightarrow> bit_set \<Rightarrow> u32 \<Rightarrow> u32 \<Rightarrow> bit_set parser" where
  "read_bits_loop [] bs msk cache = preturn bs"
| "read_bits_loop (i # is) bs msk cache =
     pbind (if msk = 0 then pbind read_u8 (\<lambda>b. preturn (0x80, ucast b)) else preturn (msk, cache))
       (\<lambda>(msk, cache).
          read_bits_loop is (if cache AND msk \<noteq> 0 then snd (bitset_insert i bs) else bs)
            (drop_bit 1 msk) cache)"

definition read_bits :: "nat \<Rightarrow> bit_set parser" where
  "read_bits n = read_bits_loop [0..<n] (bitset_with_capacity n) 0 0"

definition read_all_or_bits :: "nat \<Rightarrow> bit_set parser" where
  "read_all_or_bits n =
     pbind read_u8 (\<lambda>all.
       if all \<noteq> 0 then preturn (fold (\<lambda>i bs. snd (bitset_insert i bs)) [0..<n] (bitset_with_capacity n))
       else read_bits n)"

subsection \<open>Reading back a bit vector\<close>

definition copy_bits :: "bit_set \<Rightarrow> nat list \<Rightarrow> bit_set \<Rightarrow> bit_set" where
  "copy_bits src is = fold (\<lambda>i bs. if bitset_contains src i then snd (bitset_insert i bs) else bs) is"

lemma read_step:
  assumes "k < 8"
  shows "read_bits_loop (i # is) bs (2 ^ (7 - k)) (ucast b) rest =
    read_bits_loop is (if bit b (7 - k) then snd (bitset_insert i bs) else bs)
      (if k = 7 then 0 else 2 ^ (7 - Suc k)) (ucast b) rest"
proof -
  have "drop_bit 1 (2 ^ (7 - k) :: u32) = (if k = 7 then 0 else 2 ^ (7 - Suc k))"
    using assms by (intro bit_word_eqI) (auto simp: bit_simps bit_exp_iff)
  moreover have "(ucast b :: u32) AND 2 ^ (7 - k) = 0 \<longleftrightarrow> \<not> bit b (7 - k)"
    using less_imp_diff_less [of 7 32 k] by (simp add: and_exp_eq_0_iff_not_bit bit_simps)
  moreover have "bit (2 ^ (7 - k) :: u32) (7 - k)"
    using less_imp_diff_less [of 7 32 k] by (simp add: bit_exp_iff)
  then have "(2 ^ (7 - k) :: u32) \<noteq> 0" by (metis bit_0_eq bot_apply bot_bool_def)
  ultimately show ?thesis by (simp add: pbind_def)
qed

lemma read_fetch:
  "read_bits_loop (i # is) bs 0 c (b # rest) = read_bits_loop (i # is) bs 0x80 (ucast b) rest"
  by (simp add: pbind_def)

lemma write_step:
  assumes "k < 8"
  shows "write_bits_loop bs (i # is) cache (7 - int k) =
    (let cache' = cache OR (if bitset_contains bs i then 2 ^ (7 - k) else 0)
     in if k = 7 then cache' # write_bits_loop bs is 0 7
        else write_bits_loop bs is cache' (7 - int (Suc k)))"
proof -
  have "nat (7 - int k) = 7 - k" by simp
  then show ?thesis using assms by (auto simp: Let_def write_u8_def)
qed

lemma write_read_loop:
  assumes "k < 8" "\<And>n. n < 8 - k \<Longrightarrow> \<not> bit cache n" "k = 0 \<Longrightarrow> cache = 0"
  shows "(k = 0 \<longrightarrow> read_bits_loop is S 0 c (write_bits_loop bs is cache (7 - int k) @ rest)
        = Inr (copy_bits bs is S, rest))
    \<and> (k > 0 \<or> is \<noteq> [] \<longrightarrow> (\<exists>b out. write_bits_loop bs is cache (7 - int k) = b # out
        \<and> (\<forall>n\<ge>8 - k. bit b n = bit cache n)
        \<and> read_bits_loop is S (2 ^ (7 - k)) (ucast b) (out @ rest) = Inr (copy_bits bs is S, rest)))"
  using assms
proof (induction "is" arbitrary: k cache S c)
  case Nil
  then show ?case by (auto simp: copy_bits_def write_u8_def)
next
  case (Cons i "is")
  define cache' where "cache' = cache OR (if bitset_contains bs i then 2 ^ (7 - k) else 0)"
  define S' where "S' = (if bitset_contains bs i then snd (bitset_insert i S) else S)"
  have bits': "bit cache' n = (if n = 7 - k then bitset_contains bs i else bit cache n)" for n
    using Cons.prems(1,2) less_imp_diff_less [of 7 8 k] by (auto simp: cache'_def bit_or_iff bit_exp_iff)
  have copy: "copy_bits bs (i # is) S = copy_bits bs is S'" by (simp add: copy_bits_def S'_def)
  have "\<exists>b out. write_bits_loop bs (i # is) cache (7 - int k) = b # out
        \<and> (\<forall>n\<ge>8 - k. bit b n = bit cache n)
        \<and> read_bits_loop (i # is) S (2 ^ (7 - k)) (ucast b) (out @ rest) = Inr (copy_bits bs (i # is) S, rest)"
  proof (cases "k = 7")
    case True
    have "read_bits_loop is S' 0 (ucast cache') (write_bits_loop bs is 0 7 @ rest) = Inr (copy_bits bs is S', rest)"
      using Cons.IH [of 0 0 S' "ucast cache'"] by simp
    then show ?thesis
      using True read_step [OF Cons.prems(1), of i "is" S cache'] write_step [OF Cons.prems(1), of bs i "is" cache] bits'
      by (auto simp: cache'_def [symmetric] Let_def copy S'_def simp del: read_bits_loop.simps write_bits_loop.simps)
  next
    case False
    then have k: "Suc k < 8" using Cons.prems(1) by simp
    have "\<And>n. n < 8 - Suc k \<Longrightarrow> \<not> bit cache' n" using bits' Cons.prems(2) by auto
    from Cons.IH [OF k this, of S'] obtain b out where
      w: "write_bits_loop bs is cache' (7 - int (Suc k)) = b # out"
      and b: "\<forall>n\<ge>8 - Suc k. bit b n = bit cache' n"
      and r: "read_bits_loop is S' (2 ^ (7 - Suc k)) (ucast b) (out @ rest) = Inr (copy_bits bs is S', rest)"
      by auto
    have bk: "bit b (7 - k) = bitset_contains bs i" using b bits' [of "7 - k"] by simp
    have "\<forall>n\<ge>8 - k. bit b n = bit cache n"
      using b bits' k by auto
    then show ?thesis
      using False k w r bk read_step [OF Cons.prems(1), of i "is" S b] write_step [OF Cons.prems(1), of bs i "is" cache]
      by (auto simp: cache'_def [symmetric] Let_def copy S'_def simp del: read_bits_loop.simps write_bits_loop.simps)
  qed
  then show ?case by (auto simp: read_fetch simp del: read_bits_loop.simps write_bits_loop.simps)
qed


lemma bitset_eqI:
  assumes "bitset_ok s" "bitset_ok t" "bit_count s = bit_count t"
    and "\<And>v. bitset_contains s v \<longleftrightarrow> bitset_contains t v"
  shows "s = t"
proof -
  have len: "length (bits s) = length (bits t)" using assms by (simp add: bitset_ok_def)
  have st: "stored s v \<longleftrightarrow> stored t v" for v using assms by (simp add: contains_ok)
  have "bits s = bits t"
  proof (rule nth_equalityI [OF len])
    fix j assume j: "j < length (bits s)"
    show "bits s ! j = bits t ! j"
    proof (rule bit_word_eqI)
      fix n assume "n < LENGTH(64)"
      then have "(64 * j + n) div 64 = j" "(64 * j + n) mod 64 = n" by auto
      then show "bit (bits s ! j) n = bit (bits t ! j) n"
        using st [of "64 * j + n"] j len by (simp add: stored_def)
    qed
  qed
  then show ?thesis using assms(3) by simp
qed

lemma copy_all:
  assumes "bitset_ok s"
  shows "copy_bits s [0..<bit_count s] (bitset_with_capacity (bit_count s)) = s"
proof (rule bitset_eqI)
  let ?f = "copy_bits s [0..<bit_count s] (bitset_with_capacity (bit_count s))"
  show ok: "bitset_ok ?f" by (simp add: copy_bits_def bs.insert_all)
  show "bit_count ?f = bit_count s" by (simp add: copy_bits_def bs.insert_all)
  have "\<not> bitset_contains (bitset_with_capacity n) v" for n v
    using members_fresh(2) [of n] by (auto simp: bitset_members_def)
  then have "bitset_contains ?f v \<longleftrightarrow> v \<in> set [0..<bit_count s] \<and> bitset_contains s v" for v
    by (simp add: copy_bits_def bs.insert_all(2))
  then show "bitset_contains ?f v \<longleftrightarrow> bitset_contains s v" for v
    by (auto simp: contains_iff)
qed (rule assms)

lemma read_write_bits:
  assumes "bitset_ok s"
  shows "read_bits (bit_count s) (write_bit_set s @ rest) = Inr (s, rest)"
  using write_read_loop [of 0 0 "[0..<bit_count s]" "bitset_with_capacity (bit_count s)" 0 s rest]
    copy_all [OF assms]
  by (simp add: read_bits_def write_bit_set_def)

interpretation bit_vector_codec: codec write_bit_set "read_bits n" "\<lambda>s. bitset_ok s \<and> bit_count s = n" for n
  by unfold_locales (auto simp: read_write_bits)

lemma length_write_bits_loop:
  "k < 8 \<Longrightarrow> length (write_bits_loop bs is cache (7 - int k)) = (k + length is + 7) div 8"
proof (induction "is" arbitrary: k cache)
  case (Cons i "is")
  show ?case
  proof (cases "k = 7")
    case True
    then show ?thesis using Cons.IH [of 0] Cons.prems by (simp add: Let_def write_u8_def)
  next
    case False
    then show ?thesis using Cons.IH [of "Suc k"] Cons.prems by (simp add: Let_def)
  qed
qed (auto simp: write_u8_def)

lemma length_write_bit_set: "length (write_bit_set s) = (bit_count s + 7) div 8"
  using length_write_bits_loop [of 0 s "[0..<bit_count s]" 0] by (simp add: write_bit_set_def)

lemma sequential_read_bits_loop: "sequential (read_bits_loop xs bs msk cache)"
proof (induction xs arbitrary: bs msk cache)
  case (Cons i xs)
  show ?case unfolding read_bits_loop.simps
    by (intro sequential_pbind sequential_if sequential_case_prod sequential_intros sequential_read_u8 Cons.IH)
qed auto

lemma sequential_read_bits [intro]: "sequential (read_bits n)"
  by (auto simp: read_bits_def sequential_read_bits_loop)

lemma sequential_read_all_or_bits [intro]: "sequential (read_all_or_bits n)"
  unfolding read_all_or_bits_def by (intro sequential_pbind sequential_if sequential_intros) auto

lemma panic_free_read_bits_loop: "panic_free (read_bits_loop xs bs msk cache)"
proof (induction xs arbitrary: bs msk cache)
  case (Cons i xs)
  show ?case unfolding read_bits_loop.simps
    by (intro panic_free_pbind panic_free_if panic_free_case_prod panic_free_basic panic_free_read_u8 Cons.IH)
qed auto

lemma panic_free_read_bits [intro]: "panic_free (read_bits n)" "panic_free (read_all_or_bits n)"
proof -
  show "panic_free (read_bits n)" for n by (simp add: read_bits_def panic_free_read_bits_loop)
  then show "panic_free (read_all_or_bits n)"
    unfolding read_all_or_bits_def by (intro panic_free_pbind panic_free_if panic_free_basic panic_free_read_u8)
qed

text \<open>Every bit set a reader returns satisfies the invariant and has exactly the asked-for count.\<close>

lemma read_bits_loop_ok:
  "read_bits_loop xs bs msk cache bs' = Inr (r, rest) \<Longrightarrow> bitset_ok bs \<Longrightarrow> \<forall>i\<in>set xs. i < bit_count bs
    \<Longrightarrow> bitset_ok r \<and> bit_count r = bit_count bs"
proof (induction xs arbitrary: bs msk cache bs')
  case (Cons i xs)
  from Cons.prems(1) obtain msk' cache' bs'' where
    "read_bits_loop xs (if cache' AND msk' \<noteq> 0 then snd (bitset_insert i bs) else bs)
      (drop_bit 1 msk') cache' bs'' = Inr (r, rest)"
    by (auto simp del: One_nat_def)
  moreover have "bitset_ok (if cache' AND msk' \<noteq> 0 then snd (bitset_insert i bs) else bs)"
    "bit_count (if cache' AND msk' \<noteq> 0 then snd (bitset_insert i bs) else bs) = bit_count bs"
    using Cons.prems(2,3) by (auto simp: insert_parts)
  ultimately show ?case using Cons.IH Cons.prems(3) by (metis list.set_intros(2))
qed simp

lemma read_bits_ok: "read_bits n bs = Inr (r, rest) \<Longrightarrow> bitset_ok r \<and> bit_count r = n"
  unfolding read_bits_def by (drule read_bits_loop_ok) auto

lemma read_all_or_bits_ok: "read_all_or_bits n bs = Inr (r, rest) \<Longrightarrow> bitset_ok r \<and> bit_count r = n"
  using bs.insert_all [where P = "\<lambda>_. True" and xs = "[0..<n]" and s = "bitset_with_capacity n"]
  by (auto simp: read_all_or_bits_def dest: read_bits_ok split: if_splits)

section \<open>Properties\<close>

text \<open>
  C26: \<open>BitSet\<close> implements a set of indices.  On a well-formed bit set, \<open>insert\<close> and
  \<open>remove\<close> keep it well formed, change the abstract set as their names say and return whether
  it changed, and \<open>len\<close> is its size, for every index however far past the current count.
\<close>

theorem bitset_refines_set:
  assumes "bitset_ok s"
  shows "bitset_ok (snd (bitset_insert v s)) \<and> bitset_ok (snd (bitset_remove v s))
    \<and> bitset_members (snd (bitset_insert v s)) = insert v (bitset_members s)
    \<and> bitset_members (snd (bitset_remove v s)) = bitset_members s - {v}
    \<and> fst (bitset_insert v s) = (v \<notin> bitset_members s)
    \<and> fst (bitset_remove v s) = (v \<in> bitset_members s)
    \<and> bitset_len s = card (bitset_members s)"
  using assms bs.mem_ins [OF assms] bs.mem_rem [OF assms]
  by (auto simp: bs.inv_ins bs.inv_rem bs.fresh_ins bs.present_rem len_members bitset_members_def)

theorem bitset_refines_set_witness:
  "bitset_members (snd (bitset_insert 70 (snd (bitset_insert 3 bitset_new)))) = {3, 70}
    \<and> bitset_len (snd (bitset_insert 3 bitset_new)) = 1"
  using bitset_refines_set [OF bitset_ok_new, of 3]
    bitset_refines_set [of "snd (bitset_insert 3 bitset_new)" 70] by auto

text \<open>
  C25: a bit vector survives its serialisation.  Reading \<open>bit_count\<close> bits back from what
  \<open>write_bit_set\<close> wrote gives the very same bit set and leaves exactly what followed, and
  the vector takes one byte per started group of eight.
\<close>

theorem bit_vector_roundtrip:
  assumes "bitset_ok s"
  shows "read_bits (bit_count s) (write_bit_set s @ rest) = Inr (s, rest)
    \<and> length (write_bit_set s) = (bit_count s + 7) div 8"
  using assms by (simp add: bit_vector_codec.decode_encode length_write_bit_set)

theorem bit_vector_roundtrip_witness:
  "write_bit_set (snd (bitset_insert 9 bitset_new)) = [0, 0x40]
    \<and> read_bits 10 [0, 0x40, 7] = Inr (snd (bitset_insert 9 bitset_new), [7])"
proof -
  have w: "write_bit_set (snd (bitset_insert 9 bitset_new)) = [0, 0x40]" by code_simp
  have "bit_count (snd (bitset_insert 9 bitset_new)) = 10" by (simp add: insert_parts)
  with w show ?thesis
    using bit_vector_roundtrip [of "snd (bitset_insert 9 bitset_new)" "[7]"] by (simp add: insert_parts)
qed

end
