(* ===== verification/Nt_Time.thy ===== *)
theory Nt_Time
  imports Prelude
begin

text \<open>
  \<open>src/time.rs\<close>: Windows file times, the 100-nanosecond ticks a 7z archive stores,
  and their conversion from and to \<open>SystemTime\<close>.  A \<open>Duration\<close> is its whole number
  of nanoseconds (\<open>Duration::new\<close> of seconds and nanoseconds) and a \<open>SystemTime\<close> its signed
  distance in nanoseconds from \<open>SystemTime::UNIX_EPOCH\<close>.
\<close>

datatype nt_time_error = Negative | Overflow

datatype nt_time = NtTime (ticks: u64)

type_synonym duration = nat
type_synonym system_time = int

definition FILE_TIMES_PER_SEC :: u64 where
  "FILE_TIMES_PER_SEC = 10000000"

definition UNIX_EPOCH :: nt_time where
  "UNIX_EPOCH = NtTime (134774 * 86400 * FILE_TIMES_PER_SEC)"

definition NT_TIME_EPOCH :: nt_time where
  "NT_TIME_EPOCH = NtTime 0"

definition duration_new :: "u64 \<Rightarrow> u64 \<Rightarrow> duration" where
  "duration_new secs nanos = unat secs * 1000000000 + unat nanos"

definition nt_time_sub :: "nt_time \<Rightarrow> nt_time \<Rightarrow> duration" where
  "nt_time_sub a b =
     (let d = ticks a - ticks b
      in duration_new (d div FILE_TIMES_PER_SEC) ((d mod FILE_TIMES_PER_SEC) * 100))"

definition nt_time_of_i64 :: "int \<Rightarrow> nt_time_error + nt_time" where
  "nt_time_of_i64 file_time = (if file_time < 0 then Inl Negative else Inr (NtTime (of_int file_time)))"

definition system_time_of :: "nt_time \<Rightarrow> system_time" where
  "system_time_of t =
     (let d = duration_new (ticks t div FILE_TIMES_PER_SEC) ((ticks t mod FILE_TIMES_PER_SEC) * 100)
      in (0 - int (nt_time_sub UNIX_EPOCH NT_TIME_EPOCH)) + int d)"

definition nt_time_of :: "system_time \<Rightarrow> nt_time_error + nt_time" where
  "nt_time_of st =
     (let start = 0 - int (nt_time_sub UNIX_EPOCH NT_TIME_EPOCH)
      in if st < start then Inl Negative
         else let elapsed = nat (st - start)
              in if elapsed div 100 < 2 ^ 64 then Inr (NtTime (of_nat (elapsed div 100)))
                 else Inl Overflow)"

section \<open>Lemmas\<close>

lemma duration_of_ticks:
  "duration_new (t div FILE_TIMES_PER_SEC) ((t mod FILE_TIMES_PER_SEC) * 100) = unat t * 100"
proof -
  have "unat (t mod FILE_TIMES_PER_SEC) = unat t mod 10000000"
    and d: "unat (t div FILE_TIMES_PER_SEC) = unat t div 10000000"
    by (simp_all add: FILE_TIMES_PER_SEC_def unat_mod unat_div)
  moreover from this have "unat ((t mod FILE_TIMES_PER_SEC) * 100) = unat t mod 10000000 * 100"
    by (simp add: unat_word_ariths)
  moreover have "unat t = unat t div 10000000 * 10000000 + unat t mod 10000000" by simp
  ultimately show ?thesis unfolding duration_new_def d by linarith
qed

lemma epoch_distance: "nt_time_sub UNIX_EPOCH NT_TIME_EPOCH = 11644473600 * 1000000000"
  unfolding nt_time_sub_def Let_def duration_of_ticks
  by (simp add: UNIX_EPOCH_def NT_TIME_EPOCH_def FILE_TIMES_PER_SEC_def)

lemma system_time_of_eq: "system_time_of t = int (unat (ticks t)) * 100 - 11644473600000000000"
  by (simp add: system_time_of_def Let_def duration_of_ticks epoch_distance)

lemma nt_time_of_eq:
  "nt_time_of st =
    (if st + 11644473600000000000 < 0 then Inl Negative
     else if (st + 11644473600000000000) div 100 < 2 ^ 64
     then Inr (NtTime (of_int ((st + 11644473600000000000) div 100)))
     else Inl Overflow)"
proof (cases "st + 11644473600000000000 < 0")
  case False
  then have "nat (st + 11644473600000000000) div 100 = nat ((st + 11644473600000000000) div 100)"
    by (simp add: nat_div_distrib)
  then show ?thesis using False
    by (auto simp: nt_time_of_def Let_def epoch_distance nat_less_iff of_nat_nat pos_imp_zdiv_nonneg_iff)
qed (simp add: nt_time_of_def Let_def epoch_distance)

text \<open>
  C28: file times and system times convert faithfully.  Every file time survives the trip through
  \<open>SystemTime\<close>, \<open>UNIX_EPOCH\<close> is the system time of the same name, and the order of file times is that
  of their system times; a system time is refused as \<open>Negative\<close> exactly when it lies before the
  system time of \<open>NT_TIME_EPOCH\<close>, as \<open>Overflow\<close> exactly when it lies 100 nanoseconds or more after
  that of the last file time, and otherwise comes back rounded down to 100 nanoseconds.
\<close>

theorem nt_time_roundtrip:
  "nt_time_of (system_time_of t) = Inr t
    \<and> system_time_of UNIX_EPOCH = 0
    \<and> (system_time_of t < system_time_of t' \<longleftrightarrow> ticks t < ticks t')
    \<and> (nt_time_of st = Inl Negative \<longleftrightarrow> st < system_time_of NT_TIME_EPOCH)
    \<and> (nt_time_of st = Inl Overflow \<longleftrightarrow> system_time_of (NtTime (- 1)) + 100 \<le> st)
    \<and> (nt_time_of st = Inr t' \<longrightarrow> system_time_of t' \<le> st \<and> st < system_time_of t' + 100)"
proof -
  have "uint (ticks t) < 2 ^ 64" using uint_bounded [of "ticks t"] by simp
  then have "nt_time_of (system_time_of t) = Inr t"
    by (cases t) (simp add: nt_time_of_eq system_time_of_eq)
  moreover have "system_time_of UNIX_EPOCH = 0" "system_time_of t < system_time_of t' \<longleftrightarrow> ticks t < ticks t'"
    by (simp_all add: system_time_of_eq UNIX_EPOCH_def FILE_TIMES_PER_SEC_def word_less_def)
  moreover have "nt_time_of st = Inl Negative \<longleftrightarrow> st < system_time_of NT_TIME_EPOCH"
    by (auto simp: nt_time_of_eq system_time_of_eq NT_TIME_EPOCH_def)
  moreover have "nt_time_of st = Inl Overflow \<longleftrightarrow> system_time_of (NtTime (- 1)) + 100 \<le> st"
  proof -
    have "(st + 11644473600000000000) div 100 < 2 ^ 64 \<longleftrightarrow> st + 11644473600000000000 < 2 ^ 64 * 100" by linarith
    moreover have "unat (- 1 :: u64) = 2 ^ 64 - 1" by (simp add: unsigned_minus_1_eq_mask mask_eq_exp_minus_1)
    ultimately show ?thesis by (auto simp: nt_time_of_eq system_time_of_eq)
  qed
  moreover have "system_time_of t' \<le> st \<and> st < system_time_of t' + 100" if "nt_time_of st = Inr t'"
  proof -
    define q where "q = (st + 11644473600000000000) div 100"
    have q: "0 \<le> q" "q < 2 ^ 64" "t' = NtTime (of_int q)"
      using that by (auto simp: nt_time_of_eq q_def pos_imp_zdiv_nonneg_iff split: if_splits)
    then have "int (unat (ticks t')) = q" by (simp add: unsigned_of_int take_bit_int_eq_self)
    then show ?thesis unfolding system_time_of_eq q_def by auto
  qed
  ultimately show ?thesis by blast
qed

theorem nt_time_roundtrip_witness:
  "nt_time_of 150 = Inr (NtTime 116444736000000001)
    \<and> system_time_of (NtTime 116444736000000001) \<le> 150"
proof -
  have "nt_time_of 150 = Inr (NtTime 116444736000000001)" by (simp add: nt_time_of_eq)
  then show ?thesis using nt_time_roundtrip [of "NtTime 0" "NtTime 116444736000000001" 150] by simp
qed

end
