(* ===== verification/Utf16.thy ===== *)
theory Utf16
  imports Errors
begin

text \<open>
  Rust strings as lists of Unicode scalar values, and the two standard-library functions the
  name records of the header go through: \<open>str::encode_utf16\<close> (in \<open>write_file_names\<close> of
  \<open>src/writer.rs\<close>) and \<open>String::from_utf16\<close> (in \<open>NamesReader::next\<close> of \<open>src/reader.rs\<close>).
\<close>

type_synonym ustring = "nat list"

definition scalar_value :: "nat \<Rightarrow> bool" where
  "scalar_value c \<longleftrightarrow> c < 0x110000 \<and> \<not> (0xD800 \<le> c \<and> c < 0xE000)"

definition encode_scalar :: "nat \<Rightarrow> u16 list" where
  "encode_scalar c =
     (if c < 0x10000 then [of_nat c]
      else [0xD800 + of_nat ((c - 0x10000) div 0x400), 0xDC00 + of_nat ((c - 0x10000) mod 0x400)])"

definition encode_utf16 :: "ustring \<Rightarrow> u16 list" where
  "encode_utf16 s = concat (map encode_scalar s)"

text \<open>A name in an error message, as the bytes of its UTF-8 form.\<close>

fun utf8_char :: "nat \<Rightarrow> string" where
  "utf8_char c =
     map char_of
       (if c < 0x80 then [c]
        else if c < 0x800 then [0xC0 + c div 0x40, 0x80 + c mod 0x40]
        else if c < 0x10000 then [0xE0 + c div 0x1000, 0x80 + c div 0x40 mod 0x40, 0x80 + c mod 0x40]
        else [0xF0 + c div 0x40000, 0x80 + c div 0x1000 mod 0x40, 0x80 + c div 0x40 mod 0x40, 0x80 + c mod 0x40])"

definition utf8 :: "ustring \<Rightarrow> string" where
  "utf8 s = concat (map utf8_char s)"

definition surrogate :: "u16 \<Rightarrow> bool" where
  "surrogate u \<longleftrightarrow> 0xD800 \<le> u \<and> u < 0xE000"

definition low_surrogate :: "u16 \<Rightarrow> bool" where
  "low_surrogate u \<longleftrightarrow> 0xDC00 \<le> u \<and> u < 0xE000"

fun from_utf16 :: "u16 list \<Rightarrow> ustring option" where
  "from_utf16 [] = Some []"
| "from_utf16 [u] = (if surrogate u then None else Some [unat u])"
| "from_utf16 (u # w # us) =
     (if \<not> surrogate u then map_option ((#) (unat u)) (from_utf16 (w # us))
      else if low_surrogate u then None
      else if low_surrogate w
      then map_option ((#) ((unat u - 0xD800) * 0x400 + (unat w - 0xDC00) + 0x10000)) (from_utf16 us)
      else None)"

section \<open>Lemmas\<close>

lemma surrogate_unat: "surrogate u \<longleftrightarrow> 0xD800 \<le> unat u \<and> unat u < 0xE000"
  by (simp add: surrogate_def word_le_nat_alt word_less_nat_alt)

lemma low_surrogate_unat: "low_surrogate u \<longleftrightarrow> 0xDC00 \<le> unat u \<and> unat u < 0xE000"
  by (simp add: low_surrogate_def word_le_nat_alt word_less_nat_alt)

lemma unat_small_u16: "n < 0x10000 \<Longrightarrow> unat (of_nat n :: u16) = n"
  by (simp add: unsigned_of_nat take_bit_nat_eq_self)

lemma unat_pair:
  assumes "n < 0x400"
  shows "unat (0xD800 + of_nat n :: u16) = 0xD800 + n" "unat (0xDC00 + of_nat n :: u16) = 0xDC00 + n"
proof -
  have "unat (of_nat n :: u16) = n" using assms by (intro unat_small_u16) simp
  then show "unat (0xD800 + of_nat n :: u16) = 0xD800 + n" "unat (0xDC00 + of_nat n :: u16) = 0xDC00 + n"
    using assms by (simp_all add: unat_word_ariths)
qed

lemma from_utf16_unit:
  "\<not> surrogate u \<Longrightarrow> from_utf16 (u # us) = map_option ((#) (unat u)) (from_utf16 us)"
  by (cases us) auto

lemma from_encode_scalar:
  assumes "scalar_value c"
  shows "from_utf16 (encode_scalar c @ us) = map_option ((#) c) (from_utf16 us)"
proof (cases "c < 0x10000")
  case True
  then have "\<not> surrogate (of_nat c)"
    using assms by (simp add: surrogate_unat unat_small_u16 scalar_value_def)
  then show ?thesis using True by (simp add: encode_scalar_def from_utf16_unit unat_small_u16)
next
  case False
  define d where "d = c - 0x10000"
  have c: "c = d + 0x10000" and d: "d div 0x400 < 0x400" "d mod 0x400 < 0x400"
    using False assms by (auto simp: d_def scalar_value_def less_mult_imp_div_less)
  have "unat (0xD800 + of_nat (d div 0x400) :: u16) = 0xD800 + d div 0x400"
    "unat (0xDC00 + of_nat (d mod 0x400) :: u16) = 0xDC00 + d mod 0x400"
    using d by (simp_all only: unat_pair)
  then have "from_utf16 ((0xD800 + of_nat (d div 0x400)) # (0xDC00 + of_nat (d mod 0x400)) # us)
      = map_option ((#) (d div 0x400 * 0x400 + d mod 0x400 + 0x10000)) (from_utf16 us)"
    using d by (simp add: surrogate_unat low_surrogate_unat)
  then show ?thesis using False by (simp add: encode_scalar_def c)
qed

lemma from_encode_utf16: "list_all scalar_value s \<Longrightarrow> from_utf16 (encode_utf16 s) = Some s"
  by (induction s) (simp_all add: encode_utf16_def from_encode_scalar)

lemma encode_pair:
  assumes "surrogate u" "\<not> low_surrogate u" "low_surrogate w"
  shows "scalar_value ((unat u - 0xD800) * 0x400 + (unat w - 0xDC00) + 0x10000)
    \<and> encode_scalar ((unat u - 0xD800) * 0x400 + (unat w - 0xDC00) + 0x10000) = [u, w]"
proof -
  define a where "a = unat u - 0xD800"
  define b where "b = unat w - 0xDC00"
  have a: "unat u = 0xD800 + a" "a < 0x400" and b: "unat w = 0xDC00 + b" "b < 0x400"
    using assms by (auto simp: a_def b_def surrogate_unat low_surrogate_unat)
  have "(a * 0x400 + b) div 0x400 = a" "(a * 0x400 + b) mod 0x400 = b" using b(2) by simp_all
  moreover have "0xD800 + of_nat a = u" "0xDC00 + of_nat b = w"
    using unat_pair(1) [OF a(2)] unat_pair(2) [OF b(2)] a b by (metis word_unat_eq_iff)+
  ultimately show ?thesis using a(2) b(2)
    by (simp add: encode_scalar_def scalar_value_def a_def [symmetric] b_def [symmetric])
qed

lemma encode_unit: "\<not> surrogate u \<Longrightarrow> scalar_value (unat u) \<and> encode_scalar (unat u) = [u]"
  using unsigned_less [of u] by (auto simp: encode_scalar_def scalar_value_def surrogate_unat)

lemma encode_from_utf16: "from_utf16 us = Some s \<Longrightarrow> encode_utf16 s = us \<and> list_all scalar_value s"
proof (induction us arbitrary: s rule: from_utf16.induct)
  case (3 u w us)
  show ?case
  proof (cases "surrogate u")
    case True
    then show ?thesis using 3 encode_pair [of u w]
      by (auto simp: encode_utf16_def split: if_splits)
  next
    case False
    then show ?thesis using 3 encode_unit [of u] by (auto simp: encode_utf16_def)
  qed
qed (use encode_unit in \<open>auto simp: encode_utf16_def split: if_splits\<close>)

lemma encode_utf16_no_nul: "list_all scalar_value s \<Longrightarrow> 0 \<notin> set s \<Longrightarrow> 0 \<notin> set (encode_utf16 s)"
proof (induction s)
  case (Cons c s)
  have "0 \<notin> set (encode_scalar c)"
  proof (cases "c < 0x10000")
    case True
    then have "unat (of_nat c :: u16) = c" by (rule unat_small_u16)
    then show ?thesis using Cons.prems True by (auto simp: encode_scalar_def)
  next
    case False
    then have "(c - 0x10000) div 0x400 < 0x400"
      using Cons.prems by (auto simp: scalar_value_def less_mult_imp_div_less)
    then have "unat (0xD800 + of_nat ((c - 0x10000) div 0x400) :: u16) \<noteq> 0"
      "unat (0xDC00 + of_nat ((c - 0x10000) mod 0x400) :: u16) \<noteq> 0"
      by (simp_all only: unat_pair)
    then show ?thesis using False by (auto simp: encode_scalar_def)
  qed
  then show ?case using Cons by (simp add: encode_utf16_def)
qed (simp add: encode_utf16_def)

end
