(* ===== verification/Archive_Model.thy ===== *)
theory Archive_Model
  imports Bit_Set Nt_Time Utf16
begin

text \<open>
  The data a parsed archive is made of: the property identifiers, \<open>Archive\<close>,
  \<open>ArchiveEntry\<close>, \<open>SubStreamsInfo\<close>, \<open>StreamMap\<close> and \<open>StartHeader\<close> and the method table of
  \<open>src/archive.rs\<close>, and \<open>Block\<close>, \<open>Coder\<close>, \<open>BindPair\<close> and \<open>OrderedCoderIter\<close> of
  \<open>src/block.rs\<close>.  A coder's \<open>encoder_method_id\<close> is the slice of its first \<open>id_size\<close> bytes.
\<close>

section \<open>Identifiers\<close>

definition SIGNATURE_HEADER_SIZE :: u64 where "SIGNATURE_HEADER_SIZE = 32"

definition SEVEN_Z_SIGNATURE :: bytes where
  "SEVEN_Z_SIGNATURE = [0x37, 0x7A, 0xBC, 0xAF, 0x27, 0x1C]"

definition K_END :: u8 where "K_END = 0x00"
definition K_HEADER :: u8 where "K_HEADER = 0x01"
definition K_ARCHIVE_PROPERTIES :: u8 where "K_ARCHIVE_PROPERTIES = 0x02"
definition K_ADDITIONAL_STREAMS_INFO :: u8 where "K_ADDITIONAL_STREAMS_INFO = 0x03"
definition K_MAIN_STREAMS_INFO :: u8 where "K_MAIN_STREAMS_INFO = 0x04"
definition K_FILES_INFO :: u8 where "K_FILES_INFO = 0x05"
definition K_PACK_INFO :: u8 where "K_PACK_INFO = 0x06"
definition K_UNPACK_INFO :: u8 where "K_UNPACK_INFO = 0x07"
definition K_SUB_STREAMS_INFO :: u8 where "K_SUB_STREAMS_INFO = 0x08"
definition K_SIZE :: u8 where "K_SIZE = 0x09"
definition K_CRC :: u8 where "K_CRC = 0x0A"
definition K_FOLDER :: u8 where "K_FOLDER = 0x0B"
definition K_CODERS_UNPACK_SIZE :: u8 where "K_CODERS_UNPACK_SIZE = 0x0C"
definition K_NUM_UNPACK_STREAM :: u8 where "K_NUM_UNPACK_STREAM = 0x0D"
definition K_EMPTY_STREAM :: u8 where "K_EMPTY_STREAM = 0x0E"
definition K_EMPTY_FILE :: u8 where "K_EMPTY_FILE = 0x0F"
definition K_ANTI :: u8 where "K_ANTI = 0x10"
definition K_NAME :: u8 where "K_NAME = 0x11"
definition K_C_TIME :: u8 where "K_C_TIME = 0x12"
definition K_A_TIME :: u8 where "K_A_TIME = 0x13"
definition K_M_TIME :: u8 where "K_M_TIME = 0x14"
definition K_WIN_ATTRIBUTES :: u8 where "K_WIN_ATTRIBUTES = 0x15"
definition K_ENCODED_HEADER :: u8 where "K_ENCODED_HEADER = 0x17"
definition K_START_POS :: u8 where "K_START_POS = 0x18"
definition K_DUMMY :: u8 where "K_DUMMY = 0x19"

lemmas K_defs = K_END_def K_HEADER_def K_ARCHIVE_PROPERTIES_def K_ADDITIONAL_STREAMS_INFO_def
  K_MAIN_STREAMS_INFO_def K_FILES_INFO_def K_PACK_INFO_def K_UNPACK_INFO_def
  K_SUB_STREAMS_INFO_def K_SIZE_def K_CRC_def K_FOLDER_def K_CODERS_UNPACK_SIZE_def
  K_NUM_UNPACK_STREAM_def K_EMPTY_STREAM_def K_EMPTY_FILE_def K_ANTI_def K_NAME_def
  K_C_TIME_def K_A_TIME_def K_M_TIME_def K_WIN_ATTRIBUTES_def K_ENCODED_HEADER_def
  K_START_POS_def K_DUMMY_def

section \<open>Blocks\<close>

record coder =
  encoder_method_id :: bytes
  num_in_streams :: u64
  num_out_streams :: u64
  coder_properties :: bytes

record bind_pair =
  in_index :: u64
  out_index :: u64

record block =
  coders :: "coder list"
  block_has_crc :: bool
  block_crc :: u64
  total_input_streams :: nat
  total_output_streams :: nat
  bind_pairs :: "bind_pair list"
  packed_streams :: "u64 list"
  block_unpack_sizes :: "u64 list"
  num_unpack_sub_streams :: nat

definition default_block :: block where
  "default_block = \<lparr>coders = [], block_has_crc = False, block_crc = 0, total_input_streams = 0,
     total_output_streams = 0, bind_pairs = [], packed_streams = [], block_unpack_sizes = [],
     num_unpack_sub_streams = 0\<rparr>"

definition find_bind_pair_for_in_stream :: "block \<Rightarrow> u64 \<Rightarrow> bind_pair option" where
  "find_bind_pair_for_in_stream b index = find (\<lambda>bp. in_index bp = index) (bind_pairs b)"

definition find_bind_pair_for_out_stream :: "block \<Rightarrow> u64 \<Rightarrow> bind_pair option" where
  "find_bind_pair_for_out_stream b index = find (\<lambda>bp. out_index bp = index) (bind_pairs b)"

text \<open>
  \<open>get_unpack_size\<close> indexes \<open>unpack_sizes\<close>, which panics past its end: \<open>None\<close>.  The loop
  \<open>for i in (0..n).rev()\<close> has \<open>n\<close> iterations left.
\<close>

definition nth_option :: "'a list \<Rightarrow> nat \<Rightarrow> 'a option" where
  "nth_option xs i = (if i < length xs then Some (xs ! i) else None)"

fun unbound_output_from :: "block \<Rightarrow> nat \<Rightarrow> nat option" where
  "unbound_output_from b 0 = None"
| "unbound_output_from b (Suc i) =
     (if find_bind_pair_for_out_stream b (of_nat i) = None then Some i else unbound_output_from b i)"

definition get_unpack_size :: "block \<Rightarrow> u64 option" where
  "get_unpack_size b =
     (if total_output_streams b = 0 then Some 0
      else case unbound_output_from b (total_output_streams b) of
          Some i \<Rightarrow> nth_option (block_unpack_sizes b) i
        | None \<Rightarrow> Some 0)"

definition get_unpack_size_for_coder :: "block \<Rightarrow> nat \<Rightarrow> u64 option" where
  "get_unpack_size_for_coder b k =
     (if k < length (coders b) then nth_option (block_unpack_sizes b) k else Some 0)"

definition get_unpack_size_at_index :: "block \<Rightarrow> nat \<Rightarrow> u64" where
  "get_unpack_size_at_index b index =
     (case nth_option (block_unpack_sizes b) index of Some v \<Rightarrow> v | None \<Rightarrow> 0)"

text \<open>
  \<open>OrderedCoderIter\<close>: its state is \<open>current\<close> and \<open>remaining\<close>, \<open>ordered_next\<close> is \<open>next\<close>, and
  \<open>ordered_rest\<close> is what a \<open>for\<close> loop over the iterator sees.
\<close>

type_synonym ordered_iter = "u64 option \<times> nat"

definition ordered_coder_iter :: "block \<Rightarrow> ordered_iter" where
  "ordered_coder_iter b = (nth_option (packed_streams b) 0, length (coders b))"

fun ordered_next :: "block \<Rightarrow> ordered_iter \<Rightarrow> (nat \<times> coder) option \<times> ordered_iter" where
  "ordered_next b (current, remaining) =
     (if remaining = 0 then (None, (current, remaining))
      else case current of
          None \<Rightarrow> (None, (current, remaining))
        | Some i \<Rightarrow>
            (let current' = map_option in_index (find_bind_pair_for_out_stream b i)
             in case nth_option (coders b) (unat i) of
                  Some c \<Rightarrow> (Some (unat i, c), (current', remaining - 1))
                | None \<Rightarrow> (None, (current', remaining))))"

function ordered_rest :: "block \<Rightarrow> ordered_iter \<Rightarrow> (nat \<times> coder) list" where
  "ordered_rest b it =
     (case ordered_next b it of
        (None, it') \<Rightarrow> []
      | (Some item, it') \<Rightarrow> item # ordered_rest b it')"
  by pat_completeness auto

termination
  by (relation "measure (\<lambda>(b, it). snd it)") (auto simp: Let_def split: if_splits option.splits)

declare ordered_rest.simps [simp del]

definition ordered_coders :: "block \<Rightarrow> (nat \<times> coder) list" where
  "ordered_coders b = ordered_rest b (ordered_coder_iter b)"

lemma ordered_next_shrinks: "ordered_next b it = (Some x, it') \<Longrightarrow> snd it = Suc (snd it')"
  by (cases it) (auto simp: Let_def split: if_splits option.splits)

lemma length_ordered_rest: "length (ordered_rest b it) \<le> snd it"
proof (induction b it rule: ordered_rest.induct)
  case (1 b it)
  obtain item it' where n: "ordered_next b it = (item, it')" by (cases "ordered_next b it")
  show ?case
  proof (cases item)
    case None
    then show ?thesis using n by (simp add: ordered_rest.simps)
  next
    case (Some x)
    then show ?thesis using 1 [OF n [symmetric] Some] n ordered_next_shrinks [of b it x it']
      by (subst ordered_rest.simps) simp
  qed
qed

lemma ordered_next_item:
  "ordered_next b it = (Some (i, c), it') \<Longrightarrow> i < length (coders b) \<and> c = coders b ! i"
  by (cases it) (auto simp: nth_option_def Let_def split: if_splits option.splits)

lemma ordered_rest_items: "(i, c) \<in> set (ordered_rest b it) \<Longrightarrow> i < length (coders b) \<and> c = coders b ! i"
proof (induction b it rule: ordered_rest.induct)
  case (1 b it)
  obtain item it' where n: "ordered_next b it = (item, it')" by (cases "ordered_next b it")
  show ?case
  proof (cases item)
    case None
    then show ?thesis using 1(2) n by (simp add: ordered_rest.simps)
  next
    case (Some x)
    then have "(i, c) = x \<or> (i, c) \<in> set (ordered_rest b it')"
      using 1(2) n by (subst (asm) ordered_rest.simps) simp
    then show ?thesis using 1(1) [OF n [symmetric] Some] ordered_next_item [of b it i c it'] n Some by blast
  qed
qed

section \<open>Methods\<close>

text \<open>An \<open>EncoderMethod\<close> is its name and its id; the table is in the order \<open>by_id\<close> searches.\<close>

type_synonym encoder_method = "string \<times> bytes"

definition ID_COPY :: bytes where "ID_COPY = [0x00]"
definition ID_DELTA :: bytes where "ID_DELTA = [0x03]"
definition ID_LZMA :: bytes where "ID_LZMA = [0x03, 0x01, 0x01]"
definition ID_BCJ_X86 :: bytes where "ID_BCJ_X86 = [0x03, 0x03, 0x01, 0x03]"
definition ID_BCJ2 :: bytes where "ID_BCJ2 = [0x03, 0x03, 0x01, 0x1B]"
definition ID_BCJ_PPC :: bytes where "ID_BCJ_PPC = [0x03, 0x03, 0x02, 0x05]"
definition ID_BCJ_IA64 :: bytes where "ID_BCJ_IA64 = [0x03, 0x03, 0x04, 0x01]"
definition ID_BCJ_ARM :: bytes where "ID_BCJ_ARM = [0x03, 0x03, 0x05, 0x01]"
definition ID_BCJ_ARM64 :: bytes where "ID_BCJ_ARM64 = [0xA]"
definition ID_BCJ_ARM_THUMB :: bytes where "ID_BCJ_ARM_THUMB = [0x03, 0x03, 0x07, 0x01]"
definition ID_BCJ_SPARC :: bytes where "ID_BCJ_SPARC = [0x03, 0x03, 0x08, 0x05]"
definition ID_BCJ_RISCV :: bytes where "ID_BCJ_RISCV = [0xB]"
definition ID_PPMD :: bytes where "ID_PPMD = [0x03, 0x04, 0x01]"
definition ID_LZMA2 :: bytes where "ID_LZMA2 = [0x21]"
definition ID_BZIP2 :: bytes where "ID_BZIP2 = [0x04, 0x02, 0x02]"
definition ID_ZSTD :: bytes where "ID_ZSTD = [0x04, 0xF7, 0x11, 0x01]"
definition ID_BROTLI :: bytes where "ID_BROTLI = [0x04, 0xF7, 0x11, 0x02]"
definition ID_LZ4 :: bytes where "ID_LZ4 = [0x04, 0xF7, 0x11, 0x04]"
definition ID_LZS :: bytes where "ID_LZS = [0x04, 0xF7, 0x11, 0x05]"
definition ID_LIZARD :: bytes where "ID_LIZARD = [0x04, 0xF7, 0x11, 0x06]"
definition ID_DEFLATE :: bytes where "ID_DEFLATE = [0x04, 0x01, 0x08]"
definition ID_DEFLATE64 :: bytes where "ID_DEFLATE64 = [0x04, 0x01, 0x09]"
definition ID_AES256_SHA256 :: bytes where "ID_AES256_SHA256 = [0x06, 0xF1, 0x07, 0x01]"

lemmas method_ids = ID_COPY_def ID_DELTA_def ID_LZMA_def ID_BCJ_X86_def ID_BCJ2_def ID_BCJ_PPC_def ID_BCJ_IA64_def ID_BCJ_ARM_def ID_BCJ_ARM64_def ID_BCJ_ARM_THUMB_def ID_BCJ_SPARC_def ID_BCJ_RISCV_def ID_PPMD_def ID_LZMA2_def ID_BZIP2_def ID_ZSTD_def ID_BROTLI_def ID_LZ4_def ID_LZS_def ID_LIZARD_def ID_DEFLATE_def ID_DEFLATE64_def ID_AES256_SHA256_def

definition ENCODING_METHODS :: "encoder_method list" where
  "ENCODING_METHODS =
    [(''COPY'', ID_COPY),
     (''LZMA'', ID_LZMA),
     (''LZMA2'', ID_LZMA2),
     (''PPMD'', ID_PPMD),
     (''BZIP2'', ID_BZIP2),
     (''ZSTD'', ID_ZSTD),
     (''BROTLI'', ID_BROTLI),
     (''LZ4'', ID_LZ4),
     (''LZS'', ID_LZS),
     (''LIZARD'', ID_LIZARD),
     (''DEFLATE'', ID_DEFLATE),
     (''DEFLATE64'', ID_DEFLATE64),
     (''AES256_SHA256'', ID_AES256_SHA256),
     (''BCJ_X86'', ID_BCJ_X86),
     (''BCJ_PPC'', ID_BCJ_PPC),
     (''BCJ_IA64'', ID_BCJ_IA64),
     (''BCJ_ARM'', ID_BCJ_ARM),
     (''BCJ_ARM64'', ID_BCJ_ARM64),
     (''BCJ_ARM_THUMB'', ID_BCJ_ARM_THUMB),
     (''BCJ_SPARC'', ID_BCJ_SPARC),
     (''BCJ_RISCV'', ID_BCJ_RISCV),
     (''DELTA'', ID_DELTA),
     (''BCJ2'', ID_BCJ2)]"

definition method_by_id :: "bytes \<Rightarrow> encoder_method option" where
  "method_by_id i = find (\<lambda>m. snd m = i) ENCODING_METHODS"

lemma method_lengths: "list_all (\<lambda>m. snd m \<noteq> [] \<and> length (snd m) \<le> 15) ENCODING_METHODS"
  by (simp add: ENCODING_METHODS_def method_ids)

lemma method_by_id_Some: "method_by_id i = Some m \<Longrightarrow> m \<in> set ENCODING_METHODS \<and> snd m = i"
  by (auto simp: method_by_id_def find_Some_iff)

section \<open>Archives\<close>

record sub_streams_info =
  unpack_sizes :: "u64 list"
  has_crc :: bit_set
  crcs :: "u64 list"

record archive_entry =
  entry_name :: ustring
  has_stream :: bool
  is_directory :: bool
  is_anti_item :: bool
  has_creation_date :: bool
  has_last_modified_date :: bool
  has_access_date :: bool
  creation_date :: nt_time
  last_modified_date :: nt_time
  access_date :: nt_time
  has_windows_attributes :: bool
  windows_attributes :: u32
  entry_has_crc :: bool
  entry_crc :: u64
  compressed_crc :: u64
  entry_size :: u64
  compressed_size :: u64

definition default_entry :: archive_entry where
  "default_entry = \<lparr>entry_name = [], has_stream = False, is_directory = False, is_anti_item = False,
     has_creation_date = False, has_last_modified_date = False, has_access_date = False,
     creation_date = NT_TIME_EPOCH, last_modified_date = NT_TIME_EPOCH, access_date = NT_TIME_EPOCH,
     has_windows_attributes = False, windows_attributes = 0, entry_has_crc = False, entry_crc = 0,
     compressed_crc = 0, entry_size = 0, compressed_size = 0\<rparr>"

definition new_file :: "ustring \<Rightarrow> archive_entry" where
  "new_file name = default_entry\<lparr>entry_name := name, has_stream := True, is_directory := False\<rparr>"

definition new_directory :: "ustring \<Rightarrow> archive_entry" where
  "new_directory name = default_entry\<lparr>entry_name := name, has_stream := False, is_directory := True\<rparr>"

record stream_map =
  block_first_pack_stream_index :: "nat list"
  pack_stream_offsets :: "u64 list"
  block_first_sub_stream_index :: "nat list"
  block_first_file_index :: "nat list"
  file_block_index :: "nat option list"

record archive =
  pack_pos :: u64
  pack_sizes :: "u64 list"
  pack_crcs_defined :: bit_set
  pack_crcs :: "u64 list"
  sub_streams :: "sub_streams_info option"
  blocks :: "block list"
  files :: "archive_entry list"
  stream_map_of :: stream_map
  is_solid :: bool

definition default_stream_map :: stream_map where
  "default_stream_map = \<lparr>block_first_pack_stream_index = [], pack_stream_offsets = [],
     block_first_sub_stream_index = [], block_first_file_index = [], file_block_index = []\<rparr>"

definition default_archive :: archive where
  "default_archive = \<lparr>pack_pos = 0, pack_sizes = [], pack_crcs_defined = bitset_new, pack_crcs = [],
     sub_streams = None, blocks = [], files = [], stream_map_of = default_stream_map, is_solid = False\<rparr>"

record start_header =
  next_header_offset :: u64
  next_header_size :: u64
  next_header_crc :: u64

section \<open>What an entry is\<close>

definition UNIX_EXTENSION :: u32 where "UNIX_EXTENSION = 0x8000"

definition unix_mode :: "archive_entry \<Rightarrow> u32 option" where
  "unix_mode e =
     (if has_windows_attributes e \<and> windows_attributes e AND UNIX_EXTENSION \<noteq> 0
      then Some (drop_bit 16 (windows_attributes e)) else None)"

definition is_symlink :: "archive_entry \<Rightarrow> bool" where
  "is_symlink e =
     (if (case unix_mode e of Some mode \<Rightarrow> mode AND 0xF000 = 0xA000 | None \<Rightarrow> False) then True
      else has_windows_attributes e \<and> windows_attributes e AND 0x400 \<noteq> 0)"

definition is_ascii_alphabetic :: "nat \<Rightarrow> bool" where
  "is_ascii_alphabetic c \<longleftrightarrow> (0x41 \<le> c \<and> c \<le> 0x5A) \<or> (0x61 \<le> c \<and> c \<le> 0x7A)"

fun split_on :: "(nat \<Rightarrow> bool) \<Rightarrow> ustring \<Rightarrow> ustring list" where
  "split_on sep [] = [[]]"
| "split_on sep (c # cs) =
     (if sep c then [] # split_on sep cs
      else case split_on sep cs of [] \<Rightarrow> [[c]] | w # ws \<Rightarrow> (c # w) # ws)"

definition slash_or_backslash :: "nat \<Rightarrow> bool" where
  "slash_or_backslash c \<longleftrightarrow> c = 0x2F \<or> c = 0x5C"

definition dot_dot :: ustring where "dot_dot = [0x2E, 0x2E]"

text \<open>
  The second byte of a name is a colon and the first an ASCII letter exactly when the first
  two scalar values are: a multi-byte UTF-8 sequence has no byte below 128.
\<close>

definition unsafe_path_reason :: "ustring \<Rightarrow> string option" where
  "unsafe_path_reason name =
     (if name = [] then Some ''the entry has no name''
      else if 0 \<in> set name then Some ''the name contains a NUL''
      else if hd name = 0x2F \<or> hd name = 0x5C then Some ''the name is an absolute path''
      else if 2 \<le> length name \<and> name ! 1 = 0x3A \<and> is_ascii_alphabetic (name ! 0)
      then Some ''the name names a drive''
      else if dot_dot \<in> set (split_on slash_or_backslash name)
      then Some ''the name walks out of the extraction directory''
      else None)"

definition is_unsafe_path :: "archive_entry \<Rightarrow> bool" where
  "is_unsafe_path e \<longleftrightarrow> unsafe_path_reason (entry_name e) \<noteq> None"

section \<open>Joining a name to a directory\<close>

text \<open>
  What joining a name to a directory resolves to, on a system that separates components with
  \<open>sep\<close>: a directory is the stack of its components, and going above the root gives \<open>None\<close>.
\<close>

fun walk_path :: "ustring list \<Rightarrow> ustring list \<Rightarrow> ustring list option" where
  "walk_path dir [] = Some dir"
| "walk_path dir (c # cs) =
     (if c = [] \<or> c = [0x2E] then walk_path dir cs
      else if c = dot_dot then (case dir of [] \<Rightarrow> None | _ # parent \<Rightarrow> walk_path parent cs)
      else walk_path (c # dir) cs)"

lemma split_on_nonempty: "split_on sep s \<noteq> []"
  by (induction s) (auto split: list.splits)

lemma split_on_coarser:
  assumes "\<And>c. sep1 c \<Longrightarrow> sep2 c"
  shows "(\<forall>c\<in>set (hd (split_on sep1 s)). \<not> sep2 c) \<longrightarrow> hd (split_on sep2 s) = hd (split_on sep1 s)"
    and "w \<in> set (tl (split_on sep1 s)) \<Longrightarrow> \<forall>c\<in>set w. \<not> sep2 c \<Longrightarrow> w \<in> set (tl (split_on sep2 s))"
proof (induction s)
  case (Cons c s)
  obtain w1 ws1 where s1: "split_on sep1 s = w1 # ws1" using split_on_nonempty [of sep1 s] by (cases "split_on sep1 s") auto
  obtain w2 ws2 where s2: "split_on sep2 s = w2 # ws2" using split_on_nonempty [of sep2 s] by (cases "split_on sep2 s") auto
  {
    case 1
    then show ?case using Cons.IH(1) s1 s2 assms [of c] by auto
  next
    case 2
    then show ?case using Cons.IH s1 s2 assms [of c] by (auto split: if_splits)
  }
qed simp_all

lemma split_on_finer:
  assumes "\<And>c. sep1 c \<Longrightarrow> sep2 c" "w \<in> set (split_on sep1 s)" "\<forall>c\<in>set w. \<not> sep2 c"
  shows "w \<in> set (split_on sep2 s)"
proof (cases "w \<in> set (tl (split_on sep1 s))")
  case True
  then show ?thesis using split_on_coarser(2) [OF assms(1) True assms(3)] using split_on_nonempty [of sep2 s] by (meson list.set_sel(2))
next
  case False
  then have "w = hd (split_on sep1 s)"
    using assms(2) by (cases "split_on sep1 s") auto
  then have "w = hd (split_on sep2 s)"
    using split_on_coarser(1) [of sep1 sep2 s] assms(1,3) by auto
  then show ?thesis using split_on_nonempty by simp
qed

lemma walk_downwards: "dot_dot \<notin> set cs \<Longrightarrow> \<exists>p. walk_path dir cs = Some (p @ dir)"
proof (induction cs arbitrary: dir)
  case (Cons c cs)
  show ?case
  proof (cases "c = [] \<or> c = [0x2E]")
    case True
    then show ?thesis using Cons by (auto simp: dot_dot_def)
  next
    case False
    obtain p where "walk_path (c # dir) cs = Some (p @ c # dir)" using Cons by auto
    then show ?thesis using Cons.prems False by (intro exI [of _ "p @ [c]"]) auto
  qed
qed auto

text \<open>
  C21: a name with no reason to be unsafe stays inside.  Whether the consumer's system separates
  components on a slash only or on a backslash too, joining the name to any directory resolves
  to that directory or something below it; the name is not empty, holds no NUL, is not rooted
  and names no drive.
\<close>

theorem safe_name_stays_inside:
  assumes "unsafe_path_reason name = None"
    and "sep = (\<lambda>c. c = 0x2F) \<or> sep = slash_or_backslash"
  shows "(\<exists>p. walk_path dir (split_on sep name) = Some (p @ dir))
    \<and> name \<noteq> [] \<and> 0 \<notin> set name \<and> \<not> sep (hd name)
    \<and> \<not> (2 \<le> length name \<and> name ! 1 = 0x3A \<and> is_ascii_alphabetic (name ! 0))"
proof -
  have "dot_dot \<notin> set (split_on slash_or_backslash name)"
    using assms(1) by (auto simp: unsafe_path_reason_def split: if_splits)
  then have "dot_dot \<notin> set (split_on sep name)"
    using assms(2) split_on_finer [of "\<lambda>c. c = 0x2F" slash_or_backslash dot_dot name]
    by (auto simp: slash_or_backslash_def dot_dot_def)
  then show ?thesis using assms walk_downwards
    by (auto simp: unsafe_path_reason_def slash_or_backslash_def split: if_splits)
qed

theorem safe_name_stays_inside_witness:
  "walk_path [[0x64]] (split_on slash_or_backslash [0x61, 0x2F, 0x62]) = Some [[0x62], [0x61], [0x64]]
    \<and> (\<exists>p. walk_path [[0x64]] (split_on slash_or_backslash [0x61, 0x2F, 0x62]) = Some (p @ [[0x64]]))"
  using safe_name_stays_inside [of "[0x61, 0x2F, 0x62]" slash_or_backslash "[[0x64]]"]
  by (simp add: unsafe_path_reason_def slash_or_backslash_def dot_dot_def is_ascii_alphabetic_def)

text \<open>
  The documentation of \<open>reject_unsafe_paths\<close> promises more than the check: a name with a
  backslash, or with a drive after a \<open>./\<close> component, passes.
\<close>

lemma backslash_name_accepted: "unsafe_path_reason [0x61, 0x5C, 0x62] = None"
  by (simp add: unsafe_path_reason_def slash_or_backslash_def dot_dot_def is_ascii_alphabetic_def)

lemma nested_drive_accepted: "unsafe_path_reason [0x2E, 0x2F, 0x43, 0x3A] = None"
  by (simp add: unsafe_path_reason_def slash_or_backslash_def dot_dot_def is_ascii_alphabetic_def)

section \<open>The order of a block's coders\<close>

lemma ordered_coders_items:
  "length (ordered_coders b) \<le> length (coders b)"
  "(i, c) \<in> set (ordered_coders b) \<Longrightarrow> i < length (coders b) \<and> c = coders b ! i"
  using length_ordered_rest [of b "ordered_coder_iter b"] ordered_rest_items [of i c b "ordered_coder_iter b"]
  by (simp_all add: ordered_coders_def ordered_coder_iter_def)

definition looping_block :: block where
  "looping_block = default_block
     \<lparr>coders := [\<lparr>encoder_method_id = ID_COPY, num_in_streams = 1, num_out_streams = 1, coder_properties = []\<rparr>],
      bind_pairs := [\<lparr>in_index = 0, out_index = 0\<rparr>], packed_streams := [0]\<rparr>"

text \<open>Whatever the bind pairs say, cycles included, the walk ends.\<close>

lemma looping_walk_ends: "length (ordered_coders looping_block) \<le> 1"
  using ordered_coders_items(1) [of looping_block] by (simp add: looping_block_def)

end
