(* ===== verification/Limits.thy ===== *)
theory Limits
  imports Archive_Model
begin

text \<open>
  \<open>src/container.rs\<close>: the limits a caller imposes on an archive, the memory a decode needs, the
  check of the AES work factors, and the read-only views of a parsed archive.
\<close>

section \<open>Archive limits\<close>

definition KIB :: u64 where "KIB = 1024"
definition MIB :: u64 where "MIB = 1024 * KIB"

record archive_limits =
  memory_limit_bytes :: u64
  max_end_header_bytes :: u64
  max_header_unpacked_bytes :: u64
  max_header_depth :: u8
  max_entries :: u64
  max_name_bytes :: u64
  max_total_name_bytes :: u64
  max_coders_per_block :: u64
  max_streams_per_coder :: u64
  max_total_coders :: u64
  max_unpack_bytes :: u64
  max_unpack_ratio :: u64
  max_aes_cycles_power :: u8
  max_aes_kdf_rounds :: u64
  reject_unsafe_paths :: bool

definition limits_default :: archive_limits where
  "limits_default = \<lparr>memory_limit_bytes = u64_max, max_end_header_bytes = u64_max,
     max_header_unpacked_bytes = 64 * MIB, max_header_depth = 2, max_entries = 1000000,
     max_name_bytes = 64 * KIB, max_total_name_bytes = 64 * MIB, max_coders_per_block = 8,
     max_streams_per_coder = 8, max_total_coders = 1000000, max_unpack_bytes = u64_max,
     max_unpack_ratio = u64_max, max_aes_cycles_power = 24, max_aes_kdf_rounds = push_bit 28 1,
     reject_unsafe_paths = False\<rparr>"

definition limits_new :: "u64 \<Rightarrow> u64 \<Rightarrow> archive_limits" where
  "limits_new memory end_header =
     limits_default\<lparr>memory_limit_bytes := memory, max_end_header_bytes := end_header\<rparr>"

definition limits_memory :: "u64 \<Rightarrow> archive_limits" where
  "limits_memory memory = limits_default\<lparr>memory_limit_bytes := memory\<rparr>"

definition with_max_unpack_bytes :: "archive_limits \<Rightarrow> u64 \<Rightarrow> archive_limits" where
  "with_max_unpack_bytes l n = l\<lparr>max_unpack_bytes := n\<rparr>"

definition rejecting_unsafe_paths :: "archive_limits \<Rightarrow> archive_limits" where
  "rejecting_unsafe_paths l = l\<lparr>reject_unsafe_paths := True\<rparr>"

definition limits_unlimited :: archive_limits where
  "limits_unlimited = \<lparr>memory_limit_bytes = u64_max, max_end_header_bytes = u64_max,
     max_header_unpacked_bytes = u64_max, max_header_depth = 255, max_entries = u64_max,
     max_name_bytes = u64_max, max_total_name_bytes = u64_max, max_coders_per_block = u64_max,
     max_streams_per_coder = u64_max, max_total_coders = u64_max, max_unpack_bytes = u64_max,
     max_unpack_ratio = u64_max, max_aes_cycles_power = 63, max_aes_kdf_rounds = u64_max,
     reject_unsafe_paths = False\<rparr>"

definition div_ceil :: "u64 \<Rightarrow> u64 \<Rightarrow> u64" where
  "div_ceil a b = (if a mod b = 0 then a div b else a div b + 1)"

definition memory_limit_kb :: "archive_limits \<Rightarrow> nat" where
  "memory_limit_kb l = unat (div_ceil (memory_limit_bytes l) KIB)"

section \<open>AES work factors\<close>

definition MAX_AES_CYCLES_POWER :: u8 where "MAX_AES_CYCLES_POWER = 24"

fun check_aes_coders :: "archive_limits \<Rightarrow> coder list \<Rightarrow> unit result" where
  "check_aes_coders limits [] = Inr ()"
| "check_aes_coders limits (c # cs) =
     (if encoder_method_id c \<noteq> ID_AES256_SHA256 then check_aes_coders limits cs
      else case coder_properties c of
          [] \<Rightarrow> Inl (Other ''AES256 properties too short'')
        | p # _ \<Rightarrow>
            (let power = p AND 63; cap = min (max_aes_cycles_power limits) MAX_AES_CYCLES_POWER
             in if power \<noteq> 63 \<and> cap < power
                then Inl (LimitExceeded AesCyclesPower (ucast cap) (ucast power))
                else check_aes_coders limits cs))"

definition check_aes_work :: "archive \<Rightarrow> archive_limits \<Rightarrow> unit result" where
  "check_aes_work a limits = check_aes_coders limits (concat (map coders (blocks a)))"

section \<open>The decoder memory model\<close>

datatype unsized_coder = UnsizedCoder bytes string

definition LZ_STATE_BYTES :: u64 where "LZ_STATE_BYTES = MIB"
definition PPMD_STATE_BYTES :: u64 where "PPMD_STATE_BYTES = MIB"
definition BZIP2_BYTES :: u64 where "BZIP2_BYTES = 8 * MIB"
definition DEFLATE_BYTES :: u64 where "DEFLATE_BYTES = MIB"
definition BROTLI_BYTES :: u64 where "BROTLI_BYTES = 32 * MIB"
definition ZSTD_BYTES :: u64 where "ZSTD_BYTES = 160 * MIB"
definition LZ4_BYTES :: u64 where "LZ4_BYTES = 16 * MIB"
definition FILTER_BYTES :: u64 where "FILTER_BYTES = MIB"
definition BCJ2_BYTES :: u64 where "BCJ2_BYTES = 16 * MIB"

definition lzma_dictionary_bytes :: "bytes \<Rightarrow> bytes \<Rightarrow> unsized_coder + u64" where
  "lzma_dictionary_bytes method_id properties =
     (if length properties < 5
      then Inl (UnsizedCoder method_id ''LZMA properties shorter than five bytes'')
      else let dict = (from_le_bytes [properties ! 1, properties ! 2, properties ! 3, properties ! 4] :: u32)
           in Inr (ucast dict))"

definition lzma2_dictionary_bytes :: "bytes \<Rightarrow> bytes \<Rightarrow> unsized_coder + u64" where
  "lzma2_dictionary_bytes method_id properties =
     (case properties of
        [] \<Rightarrow> Inl (UnsizedCoder method_id ''LZMA2 properties empty'')
      | p # _ \<Rightarrow>
          (let bits = (ucast p :: u64)
           in if bits AND NOT 0x3F \<noteq> 0
              then Inl (UnsizedCoder method_id ''LZMA2 property byte has reserved bits set'')
              else if 40 < bits
              then Inl (UnsizedCoder method_id ''LZMA2 dictionary larger than the 4 GiB maximum'')
              else let dict = (if bits = 40 then 0xFFFFFFFF
                               else push_bit (unat (bits div 2 + 11)) (2 OR (bits AND 1)))
                   in Inr ((dict + 15) AND NOT 15)))"

definition ppmd_model_bytes :: "bytes \<Rightarrow> bytes \<Rightarrow> unsized_coder + u64" where
  "ppmd_model_bytes method_id properties =
     (if length properties < 5
      then Inl (UnsizedCoder method_id ''PPMd properties shorter than five bytes'')
      else let memory = (from_le_bytes [properties ! 1, properties ! 2, properties ! 3, properties ! 4] :: u32)
           in Inr (ucast memory))"

definition coder_memory_estimate :: "coder \<Rightarrow> unsized_coder + u64" where
  "coder_memory_estimate c =
     (let method_id = encoder_method_id c; properties = coder_properties c in
      if method_id = ID_COPY then Inr 0
      else if method_id = ID_LZMA
      then ebind (lzma_dictionary_bytes method_id properties) (\<lambda>n. Inr (saturating_add n LZ_STATE_BYTES))
      else if method_id = ID_LZMA2
      then ebind (lzma2_dictionary_bytes method_id properties) (\<lambda>n. Inr (saturating_add n LZ_STATE_BYTES))
      else if method_id = ID_PPMD
      then ebind (ppmd_model_bytes method_id properties) (\<lambda>n. Inr (saturating_add n PPMD_STATE_BYTES))
      else if method_id = ID_BZIP2 then Inr BZIP2_BYTES
      else if method_id = ID_DEFLATE then Inr DEFLATE_BYTES
      else if method_id = ID_BROTLI then Inr BROTLI_BYTES
      else if method_id = ID_ZSTD then Inr ZSTD_BYTES
      else if method_id = ID_LZ4 then Inr LZ4_BYTES
      else if method_id = ID_BCJ2 then Inr BCJ2_BYTES
      else if method_id = ID_AES256_SHA256 \<or> method_id = ID_DELTA \<or> method_id = ID_BCJ_X86
        \<or> method_id = ID_BCJ_ARM \<or> method_id = ID_BCJ_ARM64 \<or> method_id = ID_BCJ_ARM_THUMB
        \<or> method_id = ID_BCJ_PPC \<or> method_id = ID_BCJ_IA64 \<or> method_id = ID_BCJ_SPARC
        \<or> method_id = ID_BCJ_RISCV
      then Inr FILTER_BYTES
      else Inl (UnsizedCoder method_id ''no memory model for this coder''))"

fun chain_estimate :: "coder list \<Rightarrow> u64 \<Rightarrow> unsized_coder + u64" where
  "chain_estimate [] chain = Inr chain"
| "chain_estimate (c # cs) chain =
     ebind (coder_memory_estimate c) (\<lambda>n. chain_estimate cs (saturating_add chain n))"

fun blocks_estimate :: "block list \<Rightarrow> u64 \<Rightarrow> unsized_coder + u64" where
  "blocks_estimate [] largest = Inr largest"
| "blocks_estimate (b # bs) largest =
     ebind (chain_estimate (coders b) 0) (\<lambda>chain. blocks_estimate bs (max largest chain))"

definition decoder_memory_estimate :: "archive \<Rightarrow> unsized_coder + u64" where
  "decoder_memory_estimate a = blocks_estimate (blocks a) 0"

section \<open>Views of a parsed archive\<close>

record pack_stream_range =
  range_index :: nat
  range_offset :: u64
  range_size :: u64

definition range_end :: "pack_stream_range \<Rightarrow> u64" where
  "range_end r = saturating_add (range_offset r) (range_size r)"

record sub_stream =
  sub_index :: nat
  sub_size :: u64
  sub_crc :: "u32 option"

definition total_unpack_sub_streams :: "archive \<Rightarrow> nat" where
  "total_unpack_sub_streams a = sum_list (map num_unpack_sub_streams (blocks a))"

definition sub_stream_at :: "archive \<Rightarrow> nat \<Rightarrow> sub_stream option" where
  "sub_stream_at a index =
     (case sub_streams a of
        None \<Rightarrow> None
      | Some info \<Rightarrow>
          (case nth_option (unpack_sizes info) index of
             None \<Rightarrow> None
           | Some sz \<Rightarrow>
               Some \<lparr>sub_index = index, sub_size = sz,
                 sub_crc = (if bitset_contains (has_crc info) index
                            then map_option ucast (nth_option (crcs info) index) else None)\<rparr>))"

definition block_sub_streams :: "archive \<Rightarrow> nat \<Rightarrow> sub_stream list" where
  "block_sub_streams a block_index =
     (case nth_option (blocks a) block_index of
        None \<Rightarrow> []
      | Some b \<Rightarrow>
          (case nth_option (block_first_sub_stream_index (stream_map_of a)) block_index of
             None \<Rightarrow> []
           | Some first \<Rightarrow>
               List.map_filter (sub_stream_at a) [first..<first + num_unpack_sub_streams b]))"

definition pack_stream_at :: "archive \<Rightarrow> nat \<Rightarrow> pack_stream_range option" where
  "pack_stream_at a index =
     (case nth_option (pack_stream_offsets (stream_map_of a)) index of
        None \<Rightarrow> None
      | Some offset \<Rightarrow>
          (case nth_option (pack_sizes a) index of
             None \<Rightarrow> None
           | Some sz \<Rightarrow>
               Some \<lparr>range_index = index,
                 range_offset = saturating_add (saturating_add SIGNATURE_HEADER_SIZE (pack_pos a)) offset,
                 range_size = sz\<rparr>))"

definition block_pack_streams :: "archive \<Rightarrow> nat \<Rightarrow> pack_stream_range list" where
  "block_pack_streams a block_index =
     (case nth_option (blocks a) block_index of
        None \<Rightarrow> []
      | Some b \<Rightarrow>
          (case nth_option (block_first_pack_stream_index (stream_map_of a)) block_index of
             None \<Rightarrow> []
           | Some first \<Rightarrow>
               List.map_filter (pack_stream_at a) [first..<first + max (length (packed_streams b)) 1]))"

definition block_coders :: "archive \<Rightarrow> nat \<Rightarrow> coder list" where
  "block_coders a block_index =
     (case nth_option (blocks a) block_index of None \<Rightarrow> [] | Some b \<Rightarrow> coders b)"

section \<open>Lemmas\<close>

lemma chain_estimate_sum:
  "chain_estimate cs acc = Inr m \<Longrightarrow>
    (\<forall>c\<in>set cs. \<exists>n. coder_memory_estimate c = Inr n) \<and>
    unat m = min (unat acc + (\<Sum>c\<leftarrow>cs. unat (projr (coder_memory_estimate c)))) (2 ^ 64 - 1)"
proof (induction cs arbitrary: acc)
  case Nil
  then show ?case using u64_bound [of acc] by (simp add: min_def)
next
  case (Cons c cs)
  then obtain n where n: "coder_memory_estimate c = Inr n"
    and r: "chain_estimate cs (saturating_add acc n) = Inr m" by auto
  from Cons.IH [OF r] n show ?case by (auto simp: unat_saturating_add min_def)
qed

lemma chain_estimate_fails:
  "chain_estimate cs acc = Inl u \<Longrightarrow>
    \<exists>sized c rest. cs = sized @ c # rest \<and> coder_memory_estimate c = Inl u
      \<and> (\<forall>c\<in>set sized. \<exists>n. coder_memory_estimate c = Inr n)"
proof (induction cs arbitrary: acc)
  case (Cons c cs)
  show ?case
  proof (cases "coder_memory_estimate c")
    case (Inl v)
    then show ?thesis using Cons.prems by (intro exI [of _ "[]"]) simp
  next
    case (Inr n)
    then obtain sized c' rest where "cs = sized @ c' # rest" "coder_memory_estimate c' = Inl u"
      "\<forall>c\<in>set sized. \<exists>n. coder_memory_estimate c = Inr n"
      using Cons.IH [of "saturating_add acc n"] Cons.prems by auto
    then show ?thesis using Inr by (intro exI [of _ "c # sized"]) auto
  qed
qed simp

definition chain_bytes :: "block \<Rightarrow> nat" where
  "chain_bytes b = min (\<Sum>c\<leftarrow>coders b. unat (projr (coder_memory_estimate c))) (2 ^ 64 - 1)"

lemma blocks_estimate_max:
  "blocks_estimate bs acc = Inr m \<Longrightarrow>
    (\<forall>b\<in>set bs. \<forall>c\<in>set (coders b). \<exists>n. coder_memory_estimate c = Inr n) \<and>
    unat m = Max (set (unat acc # map chain_bytes bs))"
proof (induction bs arbitrary: acc)
  case (Cons b bs)
  then obtain n where n: "chain_estimate (coders b) 0 = Inr n"
    and r: "blocks_estimate bs (max acc n) = Inr m" by auto
  have nb: "unat n = chain_bytes b" using chain_estimate_sum [OF n] by (simp add: chain_bytes_def)
  have "unat (max acc n) = max (unat acc) (unat n)" by (simp add: max_def word_le_nat_alt)
  then have "Max (set (unat (max acc n) # map chain_bytes bs)) = Max (set (unat acc # map chain_bytes (b # bs)))"
    using nb by (cases bs) (simp_all add: ac_simps)
  then show ?case using Cons.IH [OF r] chain_estimate_sum [OF n] by simp
qed simp

lemma check_aes_coders_iff:
  "check_aes_coders limits cs = Inr () \<longleftrightarrow>
    (\<forall>c\<in>set cs. encoder_method_id c = ID_AES256_SHA256 \<longrightarrow>
      (\<exists>p ps. coder_properties c = p # ps \<and>
        (p AND 63 = 63 \<or> \<not> min (max_aes_cycles_power limits) MAX_AES_CYCLES_POWER < p AND 63)))"
  by (induction cs) (auto simp: Let_def split: list.splits)

section \<open>Properties\<close>

lemma blocks_estimate_fails:
  "blocks_estimate bs acc = Inl u \<Longrightarrow>
    \<exists>sized c rest. concat (map coders bs) = sized @ c # rest \<and> coder_memory_estimate c = Inl u
      \<and> (\<forall>c\<in>set sized. \<exists>n. coder_memory_estimate c = Inr n)"
proof (induction bs arbitrary: acc)
  case (Cons b bs)
  show ?case
  proof (cases "chain_estimate (coders b) 0")
    case (Inl v)
    then obtain sized c rest where "coders b = sized @ c # rest" "coder_memory_estimate c = Inl u"
      "\<forall>c\<in>set sized. \<exists>n. coder_memory_estimate c = Inr n"
      using chain_estimate_fails [of "coders b" 0 v] Cons.prems by auto
    then show ?thesis by (intro exI [of _ sized] exI [of _ c] exI [of _ "rest @ concat (map coders bs)"]) simp
  next
    case (Inr n)
    then obtain sized c rest where "concat (map coders bs) = sized @ c # rest" "coder_memory_estimate c = Inl u"
      "\<forall>c\<in>set sized. \<exists>n. coder_memory_estimate c = Inr n"
      using Cons.IH [of "max acc n"] Cons.prems by auto
    then show ?thesis
      using chain_estimate_sum [OF Inr] by (intro exI [of _ "coders b @ sized"] exI [of _ c] exI [of _ rest]) auto
  qed
qed simp

text \<open>
  C22: the memory estimate is that of the most expensive block.  When an archive has an estimate,
  every coder of every block has one, a block costs the sum of its coders (stopping at
  \<open>u64::MAX\<close>, never wrapping), and the answer is the largest of these sums, 0 for no blocks.
  When it has none, the answer names the first coder, in the order of the blocks and of the coders in
  a block, that has no estimate: every coder before it has one.
\<close>

theorem memory_estimate_is_largest_chain:
  "(case decoder_memory_estimate a of
      Inr m \<Rightarrow>
        (\<forall>b\<in>set (blocks a). \<forall>c\<in>set (coders b). \<exists>n. coder_memory_estimate c = Inr n)
        \<and> unat m = Max (insert 0 (set (map
          (\<lambda>b. min (\<Sum>c\<leftarrow>coders b. unat (projr (coder_memory_estimate c))) (2 ^ 64 - 1)) (blocks a))))
    | Inl u \<Rightarrow>
        (\<exists>sized c rest. concat (map coders (blocks a)) = sized @ c # rest \<and> coder_memory_estimate c = Inl u
          \<and> (\<forall>c\<in>set sized. \<exists>n. coder_memory_estimate c = Inr n)))"
proof (cases "decoder_memory_estimate a")
  case (Inl u)
  then show ?thesis using blocks_estimate_fails [of "blocks a" 0 u] by (simp add: decoder_memory_estimate_def)
next
  case (Inr m)
  then show ?thesis
    using blocks_estimate_max [of "blocks a" 0 m]
    by (simp add: decoder_memory_estimate_def chain_bytes_def [abs_def])
qed

text \<open>An archive whose second coder has no estimate.\<close>

definition unsized_archive :: archive where
  "unsized_archive = default_archive\<lparr>blocks := [default_block\<lparr>coders :=
     [\<lparr>encoder_method_id = ID_COPY, num_in_streams = 1, num_out_streams = 1, coder_properties = []\<rparr>,
      \<lparr>encoder_method_id = [0x7F], num_in_streams = 1, num_out_streams = 1, coder_properties = []\<rparr>]\<rparr>]\<rparr>"

theorem memory_estimate_is_largest_chain_witness:
  "decoder_memory_estimate unsized_archive = Inl (UnsizedCoder [0x7F] ''no memory model for this coder'')
    \<and> (\<exists>sized c rest. concat (map coders (blocks unsized_archive)) = sized @ c # rest
        \<and> coder_memory_estimate c = Inl (UnsizedCoder [0x7F] ''no memory model for this coder'')
        \<and> (\<forall>c\<in>set sized. \<exists>n. coder_memory_estimate c = Inr n))"
proof -
  have "decoder_memory_estimate unsized_archive = Inl (UnsizedCoder [0x7F] ''no memory model for this coder'')"
    by (simp add: decoder_memory_estimate_def unsized_archive_def coder_memory_estimate_def method_ids Let_def)
  then show ?thesis using memory_estimate_is_largest_chain [of unsized_archive] by simp
qed

text \<open>
  C23: no key derivation above the caller's ceiling gets past the check.  The check succeeds
  exactly when every AES coder has a property byte whose power is 63 (a raw key) or at most the
  smaller of the caller's ceiling and 24; raising the ceiling above 24 changes nothing.
\<close>

theorem aes_work_is_bounded:
  "(check_aes_work a limits = Inr () \<longleftrightarrow>
      (\<forall>b\<in>set (blocks a). \<forall>c\<in>set (coders b). encoder_method_id c = ID_AES256_SHA256 \<longrightarrow>
        (\<exists>p ps. coder_properties c = p # ps \<and>
          (p AND 63 = 63 \<or> unat (p AND 63) \<le> min (unat (max_aes_cycles_power limits)) 24))))
    \<and> (24 \<le> max_aes_cycles_power limits \<longrightarrow>
        check_aes_work a limits = check_aes_work a (limits\<lparr>max_aes_cycles_power := 24\<rparr>))"
proof
  have cap: "(\<not> min (max_aes_cycles_power limits) MAX_AES_CYCLES_POWER < p) \<longleftrightarrow>
      unat p \<le> min (unat (max_aes_cycles_power limits)) 24" for p
    by (auto simp: MAX_AES_CYCLES_POWER_def min_def word_less_nat_alt word_le_nat_alt)
  show "check_aes_work a limits = Inr () \<longleftrightarrow>
      (\<forall>b\<in>set (blocks a). \<forall>c\<in>set (coders b). encoder_method_id c = ID_AES256_SHA256 \<longrightarrow>
        (\<exists>p ps. coder_properties c = p # ps \<and>
          (p AND 63 = 63 \<or> unat (p AND 63) \<le> min (unat (max_aes_cycles_power limits)) 24)))"
    unfolding check_aes_work_def check_aes_coders_iff cap by auto
  have "check_aes_coders limits cs = check_aes_coders (limits\<lparr>max_aes_cycles_power := 24\<rparr>) cs"
    if "24 \<le> max_aes_cycles_power limits" for cs
    using that by (induction cs) (auto simp: MAX_AES_CYCLES_POWER_def min_def Let_def split: list.splits)
  then show "24 \<le> max_aes_cycles_power limits \<longrightarrow>
      check_aes_work a limits = check_aes_work a (limits\<lparr>max_aes_cycles_power := 24\<rparr>)"
    by (simp add: check_aes_work_def)
qed

theorem aes_work_is_bounded_witness:
  "check_aes_work default_archive limits_unlimited
    = check_aes_work default_archive (limits_unlimited\<lparr>max_aes_cycles_power := 24\<rparr>)
    \<and> check_aes_work (default_archive\<lparr>blocks := [default_block
        \<lparr>coders := [\<lparr>encoder_method_id = ID_AES256_SHA256, num_in_streams = 1, num_out_streams = 1,
          coder_properties = [25]\<rparr>]\<rparr>]\<rparr>) limits_default \<noteq> Inr ()"
  using aes_work_is_bounded [of default_archive limits_unlimited]
    aes_work_is_bounded [of "default_archive\<lparr>blocks := [default_block
        \<lparr>coders := [\<lparr>encoder_method_id = ID_AES256_SHA256, num_in_streams = 1, num_out_streams = 1,
          coder_properties = [25]\<rparr>]\<rparr>]\<rparr>" limits_default]
  by (simp add: limits_unlimited_def limits_default_def)

end
