(* ===== verification/Coder_Graph.thy ===== *)
theory Coder_Graph
  imports Limits
begin

text \<open>
  \<open>HeaderBounds\<close>, \<open>read_block\<close> and \<open>validate_coder_graph\<close> of \<open>src/reader.rs\<close>: what a header is
  allowed to claim, the coders, bind pairs and packed streams of one block, and the check that
  they form a graph the decoder can walk.
\<close>

section \<open>Bounds on what a header claims\<close>

record header_bounds =
  hb_bytes :: nat
  hb_limits :: archive_limits

definition bounds_cap :: "archive_limits \<Rightarrow> limit \<Rightarrow> u64" where
  "bounds_cap l what =
     (case what of
        CodersPerBlock \<Rightarrow> max_coders_per_block l
      | TotalCoders \<Rightarrow> max_total_coders l
      | TotalNameBytes \<Rightarrow> max_total_name_bytes l
      | _ \<Rightarrow> max_entries l)"

definition bounds_count :: "header_bounds \<Rightarrow> u64 \<Rightarrow> limit \<Rightarrow> nat result" where
  "bounds_count hb v what =
     (if hb_bytes hb < unat v then Inl (LimitExceeded ArchiveBytes (of_nat (hb_bytes hb)) v)
      else let cap = bounds_cap (hb_limits hb) what
           in if cap < v then Inl (LimitExceeded what cap v) else Inr (unat v))"

definition bounds_add_count :: "header_bounds \<Rightarrow> nat \<Rightarrow> nat \<Rightarrow> nat result" where
  "bounds_add_count hb so_far additional =
     (case checked_add_usize so_far additional of
        None \<Rightarrow> Inl (Other ''total unpack streams overflow'')
      | Some t \<Rightarrow> bounds_count hb (of_nat t) Entries)"

definition bounds_size :: "header_bounds \<Rightarrow> u64 \<Rightarrow> nat result" where
  "bounds_size hb v =
     (if hb_bytes hb < unat v then Inl (LimitExceeded ArchiveBytes (of_nat (hb_bytes hb)) v)
      else Inr (unat v))"

lemma bounds_count_Inr:
  "bounds_count hb v what = Inr n \<longleftrightarrow> n = unat v \<and> unat v \<le> hb_bytes hb \<and> v \<le> bounds_cap (hb_limits hb) what"
  by (auto simp: bounds_count_def Let_def)

lemma bounds_size_Inr: "bounds_size hb v = Inr n \<longleftrightarrow> n = unat v \<and> unat v \<le> hb_bytes hb"
  by (auto simp: bounds_size_def)

text \<open>Indexing a vector, which panics out of range.\<close>

definition nth_or_panic :: "'a list \<Rightarrow> nat \<Rightarrow> 'a result" where
  "nth_or_panic xs i = (if i < length xs then Inr (xs ! i) else Inl Panic)"

definition set_or_panic :: "'a list \<Rightarrow> nat \<Rightarrow> 'a \<Rightarrow> 'a list result" where
  "set_or_panic xs i x = (if i < length xs then Inr (xs[i := x]) else Inl Panic)"

definition unpack_size_or_panic :: "block \<Rightarrow> u64 result" where
  "unpack_size_or_panic b = (case get_unpack_size b of None \<Rightarrow> Inl Panic | Some v \<Rightarrow> Inr v)"

text \<open>A decimal number in an error message.\<close>

fun decimal :: "nat \<Rightarrow> string" where
  "decimal n = (if n < 10 then [char_of (48 + n)] else decimal (n div 10) @ [char_of (48 + n mod 10)])"

declare decimal.simps [simp del]

section \<open>The coder graph\<close>

datatype visit = Unseen | On_Path | Done

text \<open>The two vectors of flags of \<open>validate_coder_graph\<close>, filled from the bind pairs.\<close>

fun bind_flags :: "bind_pair list \<Rightarrow> bool list \<Rightarrow> bool list \<Rightarrow> (bool list \<times> bool list) result" where
  "bind_flags [] in_bound out_bound = Inr (in_bound, out_bound)"
| "bind_flags (bp # bps) in_bound out_bound =
     ebind (nth_or_panic in_bound (unat (in_index bp))) (\<lambda>used_in.
     ebind (if used_in then Inr True else nth_or_panic out_bound (unat (out_index bp))) (\<lambda>used.
     if used then Inl (Other ''bind pairs bind a stream twice'')
     else ebind (set_or_panic out_bound (unat (out_index bp)) True) (\<lambda>out_bound'.
       bind_flags bps (in_bound[unat (in_index bp) := True]) out_bound')))"

fun packed_flags :: "u64 list \<Rightarrow> bool list \<Rightarrow> bool list result" where
  "packed_flags [] in_bound = Inr in_bound"
| "packed_flags (ps # pss) in_bound =
     (if length in_bound \<le> unat ps
      then Inl (Other ''packed stream references an out-of-range stream'')
      else if in_bound ! unat ps
      then Inl (Other ''packed stream is also bound by a bind pair'')
      else packed_flags pss (in_bound[unat ps := True]))"

definition coder_of_streams :: "(coder \<Rightarrow> u64) \<Rightarrow> coder list \<Rightarrow> nat list" where
  "coder_of_streams streams cs =
     concat (map (\<lambda>(ci, c). replicate (unat (streams c)) ci) (zip [0..<length cs] cs))"

definition first_in_stream :: "coder list \<Rightarrow> nat \<Rightarrow> nat" where
  "first_in_stream cs ci = sum_list (map (unat \<circ> num_in_streams) (take ci cs))"

text \<open>The depth-first walk, whose stack holds coders with the number of inputs already walked.\<close>

function graph_walk :: "block \<Rightarrow> nat list \<Rightarrow> visit list \<Rightarrow> (nat \<times> nat) list \<Rightarrow> unit result" where
  "graph_walk b coder_of_out state [] = Inr ()"
| "graph_walk b coder_of_out state ((ci, step) # stack) =
     (if length state \<le> ci \<or> length (coders b) \<le> ci then Inl Panic
      else if step = 0 \<and> state ! ci = On_Path then Inl (Other ''block's coders form a cycle'')
      else if step = 0 \<and> state ! ci = Done then graph_walk b coder_of_out state stack
      else let state' = (if step = 0 then state[ci := On_Path] else state);
               num_in = unat (num_in_streams (coders b ! ci))
           in if step < num_in
              then (case find_bind_pair_for_in_stream b (of_nat (first_in_stream (coders b) ci + step)) of
                      None \<Rightarrow> graph_walk b coder_of_out state' ((ci, step + 1) # stack)
                    | Some bp \<Rightarrow>
                        (case nth_option coder_of_out (unat (out_index bp)) of
                           None \<Rightarrow> Inl Panic
                         | Some next_coder \<Rightarrow>
                             graph_walk b coder_of_out state' ((next_coder, 0) # (ci, step + 1) # stack)))
              else graph_walk b coder_of_out (state'[ci := Done]) stack)"
  by pat_completeness auto

text \<open>
  The walk ends: every entry of the stack and every coder not yet seen pays for the steps it
  still causes.
\<close>

definition entry_cost :: "coder list \<Rightarrow> nat \<times> nat \<Rightarrow> nat" where
  "entry_cost cs e = (if snd e = 0 then 1 else 2 * (unat (num_in_streams (cs ! fst e)) - snd e) + 1)"

definition unseen_cost :: "coder list \<Rightarrow> visit list \<Rightarrow> nat" where
  "unseen_cost cs state =
     (\<Sum>i<length state. if state ! i = Unseen then 2 * unat (num_in_streams (cs ! i)) + 2 else 0)"

lemma unseen_cost_visit:
  assumes "ci < length state" "state ! ci = Unseen" "v \<noteq> Unseen"
  shows "unseen_cost cs (state[ci := v]) + (2 * unat (num_in_streams (cs ! ci)) + 2) = unseen_cost cs state"
proof -
  have split: "(\<Sum>i<length state. g i) = g ci + (\<Sum>i\<in>{..<length state} - {ci}. g i)" for g :: "nat \<Rightarrow> nat"
    by (rule sum.remove) (use assms in auto)
  have "(\<Sum>i\<in>{..<length state} - {ci}. if state[ci := v] ! i = Unseen then 2 * unat (num_in_streams (cs ! i)) + 2 else 0)
      = (\<Sum>i\<in>{..<length state} - {ci}. if state ! i = Unseen then 2 * unat (num_in_streams (cs ! i)) + 2 else 0)"
    by (rule sum.cong) auto
  then show ?thesis using assms by (simp add: unseen_cost_def split)
qed

lemma unseen_cost_le:
  assumes "v \<noteq> Unseen"
  shows "unseen_cost cs (state[ci := v]) \<le> unseen_cost cs state"
  unfolding unseen_cost_def length_list_update
proof (rule sum_mono)
  fix i assume "i \<in> {..<length state}"
  then show "(if state[ci := v] ! i = Unseen then 2 * unat (num_in_streams (cs ! i)) + 2 else 0)
      \<le> (if state ! i = Unseen then 2 * unat (num_in_streams (cs ! i)) + 2 else 0)"
    using assms by (cases "ci = i") auto
qed

definition walk_cost :: "block \<Rightarrow> visit list \<Rightarrow> (nat \<times> nat) list \<Rightarrow> nat" where
  "walk_cost b state stack = sum_list (map (entry_cost (coders b)) stack) + unseen_cost (coders b) state"

lemma walk_cost_pop: "walk_cost b state stack < walk_cost b state (e # stack)"
  by (simp add: walk_cost_def entry_cost_def)

lemma walk_cost_visit:
  assumes "ci < length state" "step = 0 \<longrightarrow> state ! ci = Unseen"
    and "state' = (if step = 0 then state[ci := On_Path] else state)"
  shows "step < unat (num_in_streams (coders b ! ci)) \<Longrightarrow>
      Suc (walk_cost b state' ((ci, Suc step) # stack)) < walk_cost b state ((ci, step) # stack)"
    and "walk_cost b (state'[ci := Done]) stack < walk_cost b state ((ci, step) # stack)"
proof -
  show "step < unat (num_in_streams (coders b ! ci)) \<Longrightarrow>
      Suc (walk_cost b state' ((ci, Suc step) # stack)) < walk_cost b state ((ci, step) # stack)"
    using assms unseen_cost_visit [of ci state On_Path "coders b"]
    by (cases "step = 0") (simp_all add: walk_cost_def entry_cost_def)
  have "unseen_cost (coders b) (state'[ci := Done]) \<le> unseen_cost (coders b) state"
    using unseen_cost_le [of Done "coders b" state' ci] unseen_cost_le [of On_Path "coders b" state ci] assms(3)
    by (auto split: if_splits)
  then show "walk_cost b (state'[ci := Done]) stack < walk_cost b state ((ci, step) # stack)"
    by (simp add: walk_cost_def entry_cost_def)
qed

termination graph_walk
proof (relation "measure (\<lambda>(b, cof, state, stack). walk_cost b state stack)", goal_cases)
  case (2 b coder_of_out state ci step stack)
  then show ?case by (simp add: walk_cost_pop)
next
  case (3 b coder_of_out state ci step stack)
  then show ?case
    using walk_cost_visit(1) [of ci state step _ b stack] by (cases "state ! ci") (auto split: if_splits)
next
  case (4 b coder_of_out state ci step stack)
  then show ?case
    using walk_cost_visit(1) [of ci state step _ b stack] by (cases "state ! ci") (auto simp: walk_cost_def entry_cost_def split: if_splits)
next
  case (5 b coder_of_out state ci step stack)
  then show ?case
    using walk_cost_visit(2) [of ci state step _ b stack] by (cases "state ! ci") (auto split: if_splits)
qed simp


declare graph_walk.simps [simp del]

definition validate_coder_graph :: "block \<Rightarrow> unit result" where
  "validate_coder_graph b =
     ebind (bind_flags (bind_pairs b) (replicate (total_input_streams b) False)
             (replicate (total_output_streams b) False)) (\<lambda>(in_bound, out_bound).
     ebind (packed_flags (packed_streams b) in_bound) (\<lambda>in_bound'.
     if \<exists>bound\<in>set in_bound'. \<not> bound
     then Inl (Other ''block leaves an input stream unaccounted for'')
     else if length (filter Not out_bound) \<noteq> 1
     then Inl (Other ''block must have exactly one unbound output stream'')
     else
       let coder_of_out = coder_of_streams num_out_streams (coders b);
           final_out = length (takeWhile id out_bound)
       in ebind (nth_or_panic coder_of_out final_out) (\<lambda>c.
            graph_walk b coder_of_out (replicate (length (coders b)) Unseen) [(c, 0)])))"

section \<open>Reading a block\<close>

text \<open>
  One iteration of the coder loop of \<open>read_block\<close>; the running totals of input and output
  streams are threaded through.
\<close>

definition read_coder :: "header_bounds \<Rightarrow> u64 \<Rightarrow> u64 \<Rightarrow> (coder \<times> u64 \<times> u64) parser" where
  "read_coder hb total_in total_out =
     pbind read_u8 (\<lambda>bits8.
     let id_size = unat (bits8 AND 0xF);
         is_simple = (bits8 AND 0x10 = 0);
         has_attributes = (bits8 AND 0x20 \<noteq> 0);
         more_alternative_methods = (bits8 AND 0x80 \<noteq> 0)
     in pbind (read_exact id_size) (\<lambda>method_id.
     pbind (if is_simple then preturn (1, 1)
            else pbind read_variable_u64 (\<lambda>i. pbind read_variable_u64 (\<lambda>out. preturn (i, out)))) (\<lambda>(n_in, n_out).
     pbind (plift (case checked_add total_in n_in of
                     None \<Rightarrow> Inl (Other ''coder stream counts exceed available input'')
                   | Some t \<Rightarrow> Inr t)) (\<lambda>total_in'.
     pbind (plift (case checked_add total_out n_out of
                     None \<Rightarrow> Inl (Other ''coder stream counts exceed available input'')
                   | Some t \<Rightarrow> Inr t)) (\<lambda>total_out'.
     pbind (pensure (LimitExceeded StreamsPerCoder (max_streams_per_coder (hb_limits hb)) (max n_in n_out))
              (n_in \<le> max_streams_per_coder (hb_limits hb) \<and> n_out \<le> max_streams_per_coder (hb_limits hb))) (\<lambda>_.
     pbind (plift (bounds_count hb total_in' Entries)) (\<lambda>_.
     pbind (plift (bounds_count hb total_out' Entries)) (\<lambda>_.
     pbind (if has_attributes
            then pbind read_variable_u64 (\<lambda>n. pbind (plift (bounds_size hb n)) read_exact)
            else preturn []) (\<lambda>props.
     pbind (pensure (Other ''Alternative methods are unsupported, please report. The reference implementation doesn't support them either.'')
              (\<not> more_alternative_methods)) (\<lambda>_.
     preturn (\<lparr>encoder_method_id = method_id, num_in_streams = n_in, num_out_streams = n_out,
               coder_properties = props\<rparr>, total_in', total_out')))))))))))"

fun read_coders :: "header_bounds \<Rightarrow> nat \<Rightarrow> u64 \<Rightarrow> u64 \<Rightarrow> (coder list \<times> u64 \<times> u64) parser" where
  "read_coders hb 0 total_in total_out = preturn ([], total_in, total_out)"
| "read_coders hb (Suc n) total_in total_out =
     pbind (read_coder hb total_in total_out) (\<lambda>(c, total_in', total_out').
     pbind (read_coders hb n total_in' total_out') (\<lambda>(cs, t_in, t_out).
     preturn (c # cs, t_in, t_out)))"

definition read_bind_pair :: "nat \<Rightarrow> nat \<Rightarrow> bind_pair parser" where
  "read_bind_pair total_in total_out =
     pbind read_variable_u64 (\<lambda>i.
     pbind read_variable_u64 (\<lambda>out.
     pbind (pensure (Other ''bind pair references an out-of-range stream'')
              (\<not> (total_in \<le> unat i \<or> total_out \<le> unat out))) (\<lambda>_.
     preturn \<lparr>in_index = i, out_index = out\<rparr>)))"

definition read_packed_streams :: "block \<Rightarrow> nat \<Rightarrow> u64 list parser" where
  "read_packed_streams b n =
     (if n = 1
      then case find (\<lambda>i. find_bind_pair_for_in_stream b (of_nat i) = None) [0..<total_input_streams b] of
          None \<Rightarrow> pfail (Other ''Couldn't find stream's bind pair index'')
        | Some i \<Rightarrow> preturn [of_nat i]
      else preplicate n read_variable_u64)"

definition read_block :: "header_bounds \<Rightarrow> block parser" where
  "read_block hb =
     pbind read_variable_u64 (\<lambda>v.
     pbind (plift (bounds_count hb v CodersPerBlock)) (\<lambda>num_coders.
     pbind (read_coders hb num_coders 0 0) (\<lambda>(cs, t_in, t_out).
     let total_in = unat t_in; total_out = unat t_out in
     pbind (pensure (Other ''Total output streams can't be 0'') (total_out \<noteq> 0)) (\<lambda>_.
     let num_bind_pairs = total_out - 1 in
     pbind (preplicate num_bind_pairs (read_bind_pair total_in total_out)) (\<lambda>bps.
     pbind (pensure (Other ''Total input streams can't be less than the number of bind pairs'')
              (\<not> total_in < num_bind_pairs)) (\<lambda>_.
     let b = default_block\<lparr>coders := cs, total_input_streams := total_in,
               total_output_streams := total_out, bind_pairs := bps\<rparr> in
     pbind (read_packed_streams b (total_in - num_bind_pairs)) (\<lambda>pss.
     let b' = b\<lparr>packed_streams := pss\<rparr> in
     pbind (plift (validate_coder_graph b')) (\<lambda>_. preturn b'))))))))"

section \<open>Streams are bound once\<close>

lemma nth_or_panic_eq [simp]:
  "nth_or_panic xs i = Inr x \<longleftrightarrow> i < length xs \<and> xs ! i = x"
  "nth_or_panic xs i = Inl e \<longleftrightarrow> \<not> i < length xs \<and> e = Panic"
  by (auto simp: nth_or_panic_def)

lemma set_or_panic_eq [simp]:
  "set_or_panic xs i x = Inr ys \<longleftrightarrow> i < length xs \<and> ys = xs[i := x]"
  "set_or_panic xs i x = Inl e \<longleftrightarrow> \<not> i < length xs \<and> e = Panic"
  by (auto simp: set_or_panic_def)

lemma bind_flags_Inr:
  "bind_flags bps ib ob = Inr (ib', ob') \<Longrightarrow>
    length ib' = length ib \<and> length ob' = length ob
    \<and> (\<forall>bp\<in>set bps. unat (in_index bp) < length ib \<and> \<not> ib ! unat (in_index bp)
        \<and> unat (out_index bp) < length ob \<and> \<not> ob ! unat (out_index bp))
    \<and> distinct (map in_index bps) \<and> distinct (map out_index bps)
    \<and> (\<forall>i<length ib. ib' ! i \<longleftrightarrow> ib ! i \<or> (\<exists>bp\<in>set bps. unat (in_index bp) = i))
    \<and> (\<forall>i<length ob. ob' ! i \<longleftrightarrow> ob ! i \<or> (\<exists>bp\<in>set bps. unat (out_index bp) = i))"
proof (induction bps arbitrary: ib ob)
  case (Cons bp bps)
  have 1: "unat (in_index bp) < length ib" "\<not> ib ! unat (in_index bp)"
    "unat (out_index bp) < length ob" "\<not> ob ! unat (out_index bp)"
    and r: "bind_flags bps (ib[unat (in_index bp) := True]) (ob[unat (out_index bp) := True]) = Inr (ib', ob')"
    using Cons.prems by (auto split: if_splits)
  note IH = Cons.IH [OF r]
  have "in_index bp \<notin> set (map in_index bps)" "out_index bp \<notin> set (map out_index bps)"
    using IH 1 by (auto simp: nth_list_update)
  moreover have "\<forall>bp'\<in>set bps. \<not> ib ! unat (in_index bp') \<and> \<not> ob ! unat (out_index bp')"
    using IH 1 by (metis length_list_update nth_list_update)
  moreover have "\<forall>i<length ib. ib' ! i \<longleftrightarrow> ib ! i \<or> (\<exists>bp'\<in>set (bp # bps). unat (in_index bp') = i)"
    "\<forall>i<length ob. ob' ! i \<longleftrightarrow> ob ! i \<or> (\<exists>bp'\<in>set (bp # bps). unat (out_index bp') = i)"
    using IH 1 by (auto simp: nth_list_update)
  ultimately show ?case using IH 1 by (simp only: length_list_update list.map distinct.simps list.set ball_simps) blast
qed simp

lemma bind_flags_no_panic:
  assumes "\<forall>bp\<in>set bps. unat (in_index bp) < length ib \<and> unat (out_index bp) < length ob"
  shows "bind_flags bps ib ob \<noteq> Inl Panic"
  using assms
proof (induction bps arbitrary: ib ob)
  case (Cons bp bps)
  then show ?case by (auto simp: nth_or_panic_def set_or_panic_def)
qed simp

lemma packed_flags_Inr:
  "packed_flags pss ib = Inr ib' \<Longrightarrow>
    length ib' = length ib \<and> distinct pss
    \<and> (\<forall>p\<in>set pss. unat p < length ib \<and> \<not> ib ! unat p)
    \<and> (\<forall>i<length ib. ib' ! i \<longleftrightarrow> ib ! i \<or> (\<exists>p\<in>set pss. unat p = i))"
proof (induction pss arbitrary: ib)
  case (Cons p pss)
  have 1: "unat p < length ib" "\<not> ib ! unat p" and r: "packed_flags pss (ib[unat p := True]) = Inr ib'"
    using Cons.prems by (auto split: if_splits)
  note IH = Cons.IH [OF r]
  have "p \<notin> set pss" using IH 1 by (auto simp: nth_list_update)
  moreover have "\<forall>q\<in>set pss. \<not> ib ! unat q" using IH 1 by (metis length_list_update nth_list_update)
  moreover have "\<forall>i<length ib. ib' ! i \<longleftrightarrow> ib ! i \<or> (\<exists>q\<in>set (p # pss). unat q = i)"
    using IH 1 by (auto simp: nth_list_update)
  ultimately show ?case using IH 1 by (simp only: length_list_update distinct.simps list.set ball_simps) blast
qed simp

lemma packed_flags_no_panic: "packed_flags pss ib \<noteq> Inl Panic"
  by (induction pss arbitrary: ib) auto

lemma length_coder_of_streams:
  "length (coder_of_streams f cs) = sum_list (map (unat \<circ> f) cs)"
proof -
  have "map (\<lambda>x. unat (f (snd x))) (zip [0..<length cs] cs) = map (\<lambda>x. unat (f x)) cs"
    by (rule nth_equalityI) auto
  then show ?thesis by (simp add: coder_of_streams_def length_concat comp_def case_prod_unfold)
qed

lemma coder_of_streams_range: "c \<in> set (coder_of_streams f cs) \<Longrightarrow> c < length cs"
  by (auto simp: coder_of_streams_def set_replicate_conv_if split: if_splits dest!: set_zip_leftD)

section \<open>The walk finds every cycle\<close>

definition coder_source :: "block \<Rightarrow> nat list \<Rightarrow> nat \<Rightarrow> nat \<Rightarrow> nat option" where
  "coder_source b coder_of_out c j =
     (if j < unat (num_in_streams (coders b ! c))
      then case find_bind_pair_for_in_stream b (of_nat (first_in_stream (coders b) c + j)) of
          None \<Rightarrow> None
        | Some bp \<Rightarrow> nth_option coder_of_out (unat (out_index bp))
      else None)"

definition reads_from :: "block \<Rightarrow> (nat \<times> nat) set" where
  "reads_from b = {(c, d). \<exists>j. coder_source b (coder_of_streams num_out_streams (coders b)) c j = Some d}"

text \<open>
  The invariant of the walk: what a finished coder reads from is finished, finished coders
  form no cycle, and a coder on the stack has walked its inputs up to its step, each leading
  to a finished coder or to the entry above it.
\<close>

fun stack_ok :: "block \<Rightarrow> visit list \<Rightarrow> nat option \<Rightarrow> (nat \<times> nat) list \<Rightarrow> bool" where
  "stack_ok b state up [] \<longleftrightarrow> True"
| "stack_ok b state up ((c, k) # stack) \<longleftrightarrow>
     (\<forall>j<k. \<forall>d. coder_source b (coder_of_streams num_out_streams (coders b)) c j = Some d
        \<longrightarrow> state ! d = Done \<or> up = Some d)
     \<and> (k = 0 \<longrightarrow> up = None) \<and> (\<forall>d. up = Some d \<longrightarrow> (c, d) \<in> reads_from b)
     \<and> (0 < k \<longrightarrow> state ! c = On_Path \<and> c \<notin> fst ` set stack)
     \<and> c < length (coders b) \<and> stack_ok b state (Some c) stack"

definition done_ok :: "block \<Rightarrow> visit list \<Rightarrow> bool" where
  "done_ok b state \<longleftrightarrow>
     length state = length (coders b)
     \<and> (\<forall>c d. c < length state \<and> state ! c = Done \<and> (c, d) \<in> reads_from b \<longrightarrow> state ! d = Done)
     \<and> acyclic {(c, d) \<in> reads_from b. c < length state \<and> state ! c = Done}"

definition walk_inv :: "block \<Rightarrow> nat \<Rightarrow> visit list \<Rightarrow> (nat \<times> nat) list \<Rightarrow> bool" where
  "walk_inv b c0 state stack \<longleftrightarrow>
     stack_ok b state None stack \<and> done_ok b state
     \<and> (\<forall>c<length state. state ! c = On_Path \<longrightarrow> (\<exists>k>0. (c, k) \<in> set stack))
     \<and> (\<forall>e\<in>set stack. (c0, fst e) \<in> (reads_from b)\<^sup>*)"

lemma stack_ok_below: "stack_ok b state (Some a) st \<Longrightarrow> e \<in> set st \<Longrightarrow> 0 < snd e \<and> state ! fst e = On_Path"
proof (induction st arbitrary: a)
  case (Cons x st)
  obtain c k where x: "x = (c, k)" by (cases x)
  then have "0 < k \<and> state ! c = On_Path" "stack_ok b state (Some c) st" using Cons.prems(1) by auto
  then show ?case using Cons.IH [of c] Cons.prems(2) x by (cases "e = x") auto
qed simp

lemma stack_ok_visit:
  assumes "state ! c = Unseen" "c < length state" "\<And>e. e \<in> set st \<Longrightarrow> 0 < snd e"
  shows "stack_ok b state up st \<Longrightarrow> stack_ok b (state[c := On_Path]) up st"
  using assms(3)
proof (induction st arbitrary: up)
  case (Cons x st)
  then show ?case using assms(1,2) by (cases x) (auto simp: nth_list_update)
qed simp

lemma stack_ok_finish:
  assumes "c < length state"
  shows "stack_ok b state up st \<Longrightarrow> c \<notin> fst ` set st \<Longrightarrow>
    stack_ok b (state[c := Done]) (if up = Some c then None else up) st"
proof (induction st arbitrary: up)
  case (Cons x st)
  obtain c' k' where x: "x = (c', k')" by (cases x)
  have "stack_ok b (state[c := Done]) (Some c') st"
    using Cons.IH [of "Some c'"] Cons.prems x by auto
  then show ?case using Cons.prems x assms by (auto simp: nth_list_update)
qed simp

lemma stack_ok_popped: "stack_ok b state (Some c) st \<Longrightarrow> state ! c = Done \<Longrightarrow> stack_ok b state None st"
  by (cases st) (auto, metis)

lemma stack_path: "stack_ok b state (Some a) st \<Longrightarrow> c \<in> fst ` set st \<Longrightarrow> (c, a) \<in> (reads_from b)\<^sup>+"
proof (induction st arbitrary: a)
  case (Cons x st)
  obtain c' k' where x: "x = (c', k')" by (cases x)
  have e: "(c', a) \<in> reads_from b" using Cons.prems(1) x by simp
  show ?case
  proof (cases "c = c'")
    case True
    then show ?thesis using e by blast
  next
    case False
    then have "(c, c') \<in> (reads_from b)\<^sup>+" using Cons x by auto
    then show ?thesis using e by (rule trancl_into_trancl)
  qed
qed simp

lemma acyclic_new_source:
  assumes "acyclic r" "\<And>x. (x, c) \<notin> r'" "r' \<subseteq> r \<union> {c} \<times> UNIV"
  shows "acyclic r'"
proof (rule acyclicI, intro allI notI)
  fix x assume cyc: "(x, x) \<in> r'\<^sup>+"
  have target: "y \<noteq> c" if "(z, y) \<in> r'\<^sup>+" for z y
    using that assms(2) by (cases rule: trancl.cases) auto
  have "(x, y) \<in> r\<^sup>+" if "(x, y) \<in> r'\<^sup>+" for y
    using that
  proof (induction rule: trancl_induct)
    case (base y)
    then show ?case using assms(3) target [OF cyc] by blast
  next
    case (step y z)
    then have "(y, z) \<in> r" using assms(3) target [OF step.hyps(1)] by blast
    then show ?case using step.IH by (rule trancl_into_trancl [rotated])
  qed
  then show False using cyc assms(1) by (auto simp: acyclic_def)
qed

lemma walk_inv_pop:
  assumes "walk_inv b c0 state ((c, 0) # st)" "state ! c = Done"
  shows "walk_inv b c0 state st"
  using assms stack_ok_popped [of b state c st] by (fastforce simp: walk_inv_def)

lemma walk_inv_enter:
  assumes inv: "walk_inv b c0 state ((c, k) # st)" and k: "k = 0 \<longrightarrow> state ! c = Unseen"
    and s': "state' = (if k = 0 then state[c := On_Path] else state)"
    and len: "c < length state"
  shows "stack_ok b state' (Some c) st" "c \<notin> fst ` set st" "done_ok b state'" "state' ! c = On_Path"
    "\<forall>j<k. \<forall>d. coder_source b (coder_of_streams num_out_streams (coders b)) c j = Some d \<longrightarrow> state' ! d = Done"
    "\<forall>c'<length state'. state' ! c' = On_Path \<longrightarrow> c' = c \<or> c' \<in> fst ` set st" "length state' = length state"
    "\<And>d. state ! d = Done \<Longrightarrow> state' ! d = Done" "\<And>d. state' ! d = Done \<Longrightarrow> state ! d = Done"
proof -
  have below: "stack_ok b state (Some c) st" using inv by (simp add: walk_inv_def)
  show "length state' = length state" by (simp add: s')
  show dn: "\<And>d. state ! d = Done \<Longrightarrow> state' ! d = Done" using k len s' by (auto simp: nth_list_update)
  show dn': "\<And>d. state' ! d = Done \<Longrightarrow> state ! d = Done" using s'
    by (metis len nth_list_update visit.distinct(5))
  show "stack_ok b state' (Some c) st"
    using below stack_ok_visit [OF _ len, of st b "Some c"] stack_ok_below [OF below] k s' by auto
  show "c \<notin> fst ` set st"
    using inv k stack_ok_below [OF below] by (cases "k = 0") (auto simp: walk_inv_def)
  show "state' ! c = On_Path" using inv len s' by (auto simp: walk_inv_def)
  show "\<forall>j<k. \<forall>d. coder_source b (coder_of_streams num_out_streams (coders b)) c j = Some d \<longrightarrow> state' ! d = Done"
    using inv dn by (auto simp: walk_inv_def)
  show "\<forall>c'<length state'. state' ! c' = On_Path \<longrightarrow> c' = c \<or> c' \<in> fst ` set st"
  proof (intro allI impI)
    fix c' assume "c' < length state'" "state' ! c' = On_Path"
    then have "c' = c \<or> c' < length state \<and> state ! c' = On_Path"
      using s' by (cases "c' = c") (auto split: if_splits)
    moreover have "c' = c \<or> c' \<in> fst ` set st" if "c' < length state" "state ! c' = On_Path"
    proof -
      from inv that obtain k' where "(c', k') \<in> set ((c, k) # st)" unfolding walk_inv_def by blast
      then show ?thesis by force
    qed
    ultimately show "c' = c \<or> c' \<in> fst ` set st" by blast
  qed
  have dd: "state' ! d = Done \<longleftrightarrow> state ! d = Done" for d using dn dn' by blast
  then show "done_ok b state'" using inv s' by (auto simp: walk_inv_def done_ok_def)
qed

lemma coder_source_range: "coder_source b (coder_of_streams f (coders b)) c j = Some d \<Longrightarrow> d < length (coders b)"
  by (auto simp: coder_source_def nth_option_def intro: coder_of_streams_range [of _ f] nth_mem split: if_splits option.splits)

lemma coder_source_reads:
  "coder_source b (coder_of_streams num_out_streams (coders b)) c j = Some d \<Longrightarrow> (c, d) \<in> reads_from b"
  by (auto simp: reads_from_def)

lemma walk_inv_step:
  assumes inv: "walk_inv b c0 state ((c, k) # st)" and k: "k = 0 \<longrightarrow> state ! c = Unseen"
    and s': "state' = (if k = 0 then state[c := On_Path] else state)" and len: "c < length state"
  shows "coder_source b (coder_of_streams num_out_streams (coders b)) c k = None \<Longrightarrow>
      walk_inv b c0 state' ((c, k + 1) # st)"
    and "coder_source b (coder_of_streams num_out_streams (coders b)) c k = Some d \<Longrightarrow>
      walk_inv b c0 state' ((d, 0) # (c, k + 1) # st)"
    and "unat (num_in_streams (coders b ! c)) \<le> k \<Longrightarrow> walk_inv b c0 (state'[c := Done]) st"
proof -
  note e = walk_inv_enter [OF inv k s' len]
  have cb: "c < length (coders b)" using inv by (simp add: walk_inv_def)
  have reach: "(c0, c) \<in> (reads_from b)\<^sup>*" "\<forall>x\<in>set st. (c0, fst x) \<in> (reads_from b)\<^sup>*"
    using inv by (auto simp: walk_inv_def)
  have onp: "\<forall>c'<length state'. state' ! c' = On_Path \<longrightarrow> c' = c \<or> (\<exists>k>0. (c', k) \<in> set st)"
  proof (intro allI impI)
    fix c' assume "c' < length state'" "state' ! c' = On_Path"
    then have "c' = c \<or> c' \<in> fst ` set st" using e(6) by blast
    then show "c' = c \<or> (\<exists>k>0. (c', k) \<in> set st)"
    proof (elim disjE imageE)
      fix x assume x: "c' = fst x" "x \<in> set st"
      then have "0 < snd x" "(c', snd x) \<in> set st" using stack_ok_below [OF e(1) x(2)] by simp_all
      then show ?thesis by blast
    qed simp
  qed
  show "walk_inv b c0 state' ((c, k + 1) # st)"
    if n: "coder_source b (coder_of_streams num_out_streams (coders b)) c k = None"
    using e n cb reach onp by (auto simp: walk_inv_def less_Suc_eq)
  show "walk_inv b c0 state' ((d, 0) # (c, k + 1) # st)"
    if s: "coder_source b (coder_of_streams num_out_streams (coders b)) c k = Some d"
    using e s cb reach onp coder_source_range [OF s] coder_source_reads [OF s]
    by (auto simp: walk_inv_def less_Suc_eq intro: rtrancl_into_rtrancl)
  show "walk_inv b c0 (state'[c := Done]) st" if fin: "unat (num_in_streams (coders b ! c)) \<le> k"
  proof -
    have len': "c < length state'" using len e(7) by simp
    have src: "state' ! d = Done" if "(c, d) \<in> reads_from b" for d
    proof -
      from that obtain j where j: "coder_source b (coder_of_streams num_out_streams (coders b)) c j = Some d"
        by (auto simp: reads_from_def)
      then have "j < k" using fin by (auto simp: coder_source_def split: if_splits)
      then show ?thesis using e(5) j by blast
    qed
    have old: "\<And>x d. (x, d) \<in> reads_from b \<Longrightarrow> x < length state' \<Longrightarrow> state' ! x = Done \<Longrightarrow> state' ! d = Done"
      using e(3) by (auto simp: done_ok_def)
    have notc: "state' ! c \<noteq> Done" using e(4) by simp
    have "done_ok b (state'[c := Done])"
      unfolding done_ok_def
    proof (intro conjI allI impI)
      show "length (state'[c := Done]) = length (coders b)" using e(3) by (simp add: done_ok_def)
      fix x d assume "x < length (state'[c := Done]) \<and> state'[c := Done] ! x = Done \<and> (x, d) \<in> reads_from b"
      then have "state' ! d = Done" using old [of x d] src [of d] by (cases "x = c") auto
      then show "state'[c := Done] ! d = Done" using len' by (cases "d = c") auto
    next
      show "acyclic {(x, d) \<in> reads_from b. x < length (state'[c := Done]) \<and> state'[c := Done] ! x = Done}"
      proof (rule acyclic_new_source [where c = c])
        show "acyclic {(x, d) \<in> reads_from b. x < length state' \<and> state' ! x = Done}"
          using e(3) unfolding done_ok_def by (elim conjE)
        fix x show "(x, c) \<notin> {(x, d) \<in> reads_from b. x < length (state'[c := Done]) \<and> state'[c := Done] ! x = Done}"
          using old [of x c] src [of c] notc by (cases "x = c") auto
      next
        show "{(x, d) \<in> reads_from b. x < length (state'[c := Done]) \<and> state'[c := Done] ! x = Done}
            \<subseteq> {(x, d) \<in> reads_from b. x < length state' \<and> state' ! x = Done} \<union> {c} \<times> UNIV"
          by (auto simp: nth_list_update split: if_splits)
      qed
    qed
    moreover have "stack_ok b (state'[c := Done]) None st"
      using stack_ok_finish [OF len' e(1) e(2)] by simp
    moreover have "\<forall>c'<length (state'[c := Done]). state'[c := Done] ! c' = On_Path \<longrightarrow> (\<exists>k>0. (c', k) \<in> set st)"
      using onp len' by (metis length_list_update nth_list_update visit.distinct(5))
    ultimately show ?thesis using reach by (simp add: walk_inv_def)
  qed
qed

text \<open>How a walk ends: all it was asked for is finished, or it met a cycle.\<close>

definition walk_result :: "block \<Rightarrow> nat \<Rightarrow> visit list \<Rightarrow> (nat \<times> nat) list \<Rightarrow> unit result \<Rightarrow> bool" where
  "walk_result b c0 state stack r \<longleftrightarrow>
     (r = Inr () \<and> (\<exists>state'. done_ok b state' \<and> (\<forall>c. state ! c = Done \<longrightarrow> state' ! c = Done)
        \<and> (\<forall>e\<in>set stack. state' ! fst e = Done)))
     \<or> (r = Inl (Other ''block's coders form a cycle'')
        \<and> (\<exists>c. (c0, c) \<in> (reads_from b)\<^sup>* \<and> (c, c) \<in> (reads_from b)\<^sup>+))"

lemma walk_result_mono:
  assumes "walk_result b c0 s1 st1 r" "\<And>d. state ! d = Done \<Longrightarrow> s1 ! d = Done"
    and "\<And>e. e \<in> set stack \<Longrightarrow> fst e \<in> fst ` set st1 \<or> s1 ! fst e = Done"
  shows "walk_result b c0 state stack r"
  using assms(1) unfolding walk_result_def
proof (elim disjE conjE exE)
  fix state' assume r: "r = Inr ()" "done_ok b state'" "\<forall>c. s1 ! c = Done \<longrightarrow> state' ! c = Done"
    "\<forall>e\<in>set st1. state' ! fst e = Done"
  have "\<forall>e\<in>set stack. state' ! fst e = Done" using assms(3) r(3,4) by fastforce
  then show "(r = Inr () \<and> (\<exists>state'. done_ok b state' \<and> (\<forall>c. state ! c = Done \<longrightarrow> state' ! c = Done)
        \<and> (\<forall>e\<in>set stack. state' ! fst e = Done)))
     \<or> (r = Inl (Other ''block's coders form a cycle'')
        \<and> (\<exists>c. (c0, c) \<in> (reads_from b)\<^sup>* \<and> (c, c) \<in> (reads_from b)\<^sup>+))"
    using assms(2) r by blast
qed blast

lemma graph_walk_correct:
  assumes "walk_inv b c0 state stack" "coder_of_out = coder_of_streams num_out_streams (coders b)"
    and "\<forall>bp\<in>set (bind_pairs b). unat (out_index bp) < length coder_of_out"
  shows "walk_result b c0 state stack (graph_walk b coder_of_out state stack)"
  using assms
proof (induction b coder_of_out state stack rule: graph_walk.induct)
  case (1 b coder_of_out state)
  then show ?case by (auto simp: graph_walk.simps walk_inv_def walk_result_def)
next
  case (2 b cof state ci step stack)
  note inv = 2(5) and cof = 2(6) and ranges = 2(7)
  have len: "length state = length (coders b)" "ci < length (coders b)"
    using inv by (auto simp: walk_inv_def done_ok_def)
  have below: "stack_ok b state (Some ci) stack" using inv by (simp add: walk_inv_def)
  consider (cycle) "step = 0" "state ! ci = On_Path" | (finished) "step = 0" "state ! ci = Done"
    | (active) "step = 0 \<longrightarrow> state ! ci = Unseen" by (cases "state ! ci") auto
  then show ?case
  proof cases
    case cycle
    then obtain k where "0 < k" "(ci, k) \<in> set ((ci, step) # stack)"
      using inv len by (auto simp: walk_inv_def)
    with cycle have "ci \<in> fst ` set stack" by force
    then have "(ci, ci) \<in> (reads_from b)\<^sup>+" by (rule stack_path [OF below])
    moreover have "(c0, ci) \<in> (reads_from b)\<^sup>*" using inv by (simp add: walk_inv_def)
    ultimately show ?thesis using cycle len by (auto simp: graph_walk.simps walk_result_def)
  next
    case finished
    then have "graph_walk b cof state ((ci, step) # stack) = graph_walk b cof state stack"
      using len by (simp add: graph_walk.simps)
    moreover have "walk_inv b c0 state stack" using walk_inv_pop [of b c0 state ci stack] inv finished by simp
    ultimately have "walk_result b c0 state stack (graph_walk b cof state ((ci, step) # stack))"
      using 2(1) [OF _ _ _ _ cof ranges] finished len by simp
    then show ?thesis by (rule walk_result_mono) (use finished in auto)
  next
    case active
    define s1 where "s1 = (if step = 0 then state[ci := On_Path] else state)"
    have dn: "\<And>d. state ! d = Done \<Longrightarrow> s1 ! d = Done"
      using walk_inv_enter(8) [OF inv active s1_def] len by simp
    have s1len: "length s1 = length state" by (simp add: s1_def)
    note steps = walk_inv_step [OF inv active s1_def]
    show ?thesis
    proof (cases "step < unat (num_in_streams (coders b ! ci))")
      case False
      have g: "graph_walk b cof state ((ci, step) # stack) = graph_walk b cof (s1[ci := Done]) stack"
        using active len False by (auto simp: graph_walk.simps s1_def)
      have "walk_inv b c0 (s1[ci := Done]) stack" using steps(3) len False by simp
      from 2(4) [OF _ _ _ s1_def _ _ this cof ranges] active len False
      have "walk_result b c0 (s1[ci := Done]) stack (graph_walk b cof state ((ci, step) # stack))"
        unfolding g by auto
      moreover have "s1[ci := Done] ! ci = Done" "\<And>d. state ! d = Done \<Longrightarrow> s1[ci := Done] ! d = Done"
        using dn s1len len by (auto simp: nth_list_update)
      ultimately show ?thesis by (elim walk_result_mono) auto
    next
      case True
      show ?thesis
      proof (cases "find_bind_pair_for_in_stream b (of_nat (first_in_stream (coders b) ci + step))")
        case None
        have g: "graph_walk b cof state ((ci, step) # stack) = graph_walk b cof s1 ((ci, step + 1) # stack)"
          using active len True None by (auto simp: graph_walk.simps s1_def)
        have "walk_inv b c0 s1 ((ci, step + 1) # stack)"
          using steps(1) len True None by (simp add: coder_source_def)
        from 2(2) [OF _ _ _ s1_def _ _ _ this cof ranges] active len True None
        have "walk_result b c0 s1 ((ci, step + 1) # stack) (graph_walk b cof state ((ci, step) # stack))"
          unfolding g by auto
        then show ?thesis by (rule walk_result_mono) (use dn in auto)
      next
        case (Some bp)
        then have "bp \<in> set (bind_pairs b)"
          by (auto simp: find_bind_pair_for_in_stream_def find_Some_iff)
        then obtain d where d: "nth_option cof (unat (out_index bp)) = Some d"
          using ranges by (auto simp: nth_option_def)
        have g: "graph_walk b cof state ((ci, step) # stack) = graph_walk b cof s1 ((d, 0) # (ci, step + 1) # stack)"
          using active len True Some d by (auto simp: graph_walk.simps s1_def)
        have "walk_inv b c0 s1 ((d, 0) # (ci, step + 1) # stack)"
          using steps(2) len True Some d cof by (simp add: coder_source_def)
        from 2(3) [OF _ _ _ s1_def _ _ _ _ this cof ranges] active len True Some d
        have "walk_result b c0 s1 ((d, 0) # (ci, step + 1) # stack) (graph_walk b cof state ((ci, step) # stack))"
          unfolding g by auto
        then show ?thesis by (rule walk_result_mono) (use dn in auto)
      qed
    qed
  qed
qed

section \<open>What a validated block promises\<close>

definition block_ranges :: "block \<Rightarrow> bool" where
  "block_ranges b \<longleftrightarrow>
     total_input_streams b = sum_list (map (unat \<circ> num_in_streams) (coders b))
     \<and> total_output_streams b = sum_list (map (unat \<circ> num_out_streams) (coders b))
     \<and> (\<forall>bp\<in>set (bind_pairs b). unat (in_index bp) < total_input_streams b
          \<and> unat (out_index bp) < total_output_streams b)"

definition streams_bound_once :: "block \<Rightarrow> bool" where
  "streams_bound_once b \<longleftrightarrow>
     distinct (map in_index (bind_pairs b) @ packed_streams b) \<and> distinct (map out_index (bind_pairs b))
     \<and> unat ` set (map in_index (bind_pairs b) @ packed_streams b) = {..<total_input_streams b}
     \<and> (\<exists>!out. out < total_output_streams b \<and> out \<notin> unat ` set (map out_index (bind_pairs b)))"

definition final_output :: "block \<Rightarrow> nat \<Rightarrow> bool" where
  "final_output b out \<longleftrightarrow> out < total_output_streams b \<and> out \<notin> unat ` set (map out_index (bind_pairs b))"

definition no_reachable_cycle :: "block \<Rightarrow> bool" where
  "no_reachable_cycle b \<longleftrightarrow>
     (\<forall>out c. final_output b out \<longrightarrow>
        (coder_of_streams num_out_streams (coders b) ! out, c) \<in> (reads_from b)\<^sup>* \<longrightarrow> (c, c) \<notin> (reads_from b)\<^sup>+)"

lemma one_false:
  assumes "length (filter Not xs) = 1"
  shows "length (takeWhile id xs) < length xs" "\<not> xs ! length (takeWhile id xs)"
    "\<forall>i<length xs. \<not> xs ! i \<longrightarrow> i = length (takeWhile id xs)"
proof -
  from assms have "length (takeWhile id xs) < length xs \<and> \<not> xs ! length (takeWhile id xs)
    \<and> (\<forall>i<length xs. \<not> xs ! i \<longrightarrow> i = length (takeWhile id xs))"
  proof (induction xs)
    case (Cons x xs)
    show ?case
    proof (cases x)
      case True
      then show ?thesis using Cons by (auto simp: nth_Cons split: nat.splits)
    next
      case False
      then have "filter Not xs = []" using Cons.prems by simp
      then have "\<forall>i<length xs. xs ! i" by (auto simp: filter_empty_conv)
      then show ?thesis using False by (auto simp: nth_Cons split: nat.splits)
    qed
  qed simp
  then show "length (takeWhile id xs) < length xs" "\<not> xs ! length (takeWhile id xs)"
    "\<forall>i<length xs. \<not> xs ! i \<longrightarrow> i = length (takeWhile id xs)" by blast+
qed

lemma reachable_done:
  assumes "done_ok b state" "state ! c0 = Done" "c0 < length (coders b)" "(c0, c) \<in> (reads_from b)\<^sup>*"
  shows "state ! c = Done \<and> c < length (coders b)"
  using assms(4)
proof (induction rule: rtrancl_induct)
  case (step y z)
  then have "state ! z = Done" using assms(1) unfolding done_ok_def by metis
  moreover have "z < length (coders b)" using step.hyps(2) coder_source_range by (auto simp: reads_from_def)
  ultimately show ?case by simp
qed (use assms in simp)

lemma done_no_cycle:
  assumes "done_ok b state" "state ! c = Done" "c < length (coders b)"
  shows "(c, c) \<notin> (reads_from b)\<^sup>+"
proof
  assume cyc: "(c, c) \<in> (reads_from b)\<^sup>+"
  define r where "r = {(c, d) \<in> reads_from b. c < length state \<and> state ! c = Done}"
  have in_r: "(x, y) \<in> r" if "(c, x) \<in> (reads_from b)\<^sup>*" "(x, y) \<in> reads_from b" for x y
    using reachable_done [OF assms that(1)] that(2) assms(1) by (simp add: r_def done_ok_def)
  have "(c, y) \<in> r\<^sup>+" if "(c, y) \<in> (reads_from b)\<^sup>+" for y
    using that
  proof (induction rule: trancl_induct)
    case (base y)
    then show ?case using in_r [of c y] by blast
  next
    case (step y z)
    then show ?case using in_r [of y z] by (meson trancl_into_rtrancl trancl_into_trancl)
  qed
  then have "(c, c) \<in> r\<^sup>+" using cyc by blast
  moreover have "acyclic r" using assms(1) unfolding done_ok_def r_def by (elim conjE)
  ultimately show False by (simp add: acyclic_def)
qed

lemma walk_from_start:
  assumes "block_ranges b" "c0 < length (coders b)"
  shows "walk_result b c0 (replicate (length (coders b)) Unseen) [(c0, 0)]
    (graph_walk b (coder_of_streams num_out_streams (coders b)) (replicate (length (coders b)) Unseen) [(c0, 0)])"
proof (rule graph_walk_correct)
  show "walk_inv b c0 (replicate (length (coders b)) Unseen) [(c0, 0)]"
  proof -
    have "{(c, d) \<in> reads_from b. c < length (coders b) \<and> replicate (length (coders b)) Unseen ! c = Done} = {}"
      by auto
    moreover have "acyclic ({} :: (nat \<times> nat) set)" by (simp add: acyclic_def)
    ultimately have "acyclic {(c, d) \<in> reads_from b. c < length (coders b) \<and> replicate (length (coders b)) Unseen ! c = Done}"
      by (simp only:)
    then have "done_ok b (replicate (length (coders b)) Unseen)"
      unfolding done_ok_def length_replicate by (intro conjI) auto
    then show ?thesis using assms(2) by (auto simp: walk_inv_def)
  qed
qed (use assms in \<open>auto simp: block_ranges_def length_coder_of_streams\<close>)

lemma bind_flags_succeeds:
  assumes "\<forall>bp\<in>set bps. unat (in_index bp) < length ib \<and> \<not> ib ! unat (in_index bp)
      \<and> unat (out_index bp) < length ob \<and> \<not> ob ! unat (out_index bp)"
    and "distinct (map in_index bps)" "distinct (map out_index bps)"
  shows "\<exists>r. bind_flags bps ib ob = Inr r"
  using assms
proof (induction bps arbitrary: ib ob)
  case (Cons bp bps)
  have "\<exists>r. bind_flags bps (ib[unat (in_index bp) := True]) (ob[unat (out_index bp) := True]) = Inr r"
    using Cons.prems by (intro Cons.IH) (auto simp: nth_list_update word_unat_eq_iff [symmetric] image_iff)
  then show ?case using Cons.prems(1) by (simp add: nth_or_panic_def set_or_panic_def)
qed simp

lemma packed_flags_succeeds:
  assumes "\<forall>p\<in>set pss. unat p < length ib \<and> \<not> ib ! unat p" "distinct pss"
  shows "\<exists>r. packed_flags pss ib = Inr r"
  using assms
proof (induction pss arbitrary: ib)
  case (Cons p pss)
  have "\<exists>r. packed_flags pss (ib[unat p := True]) = Inr r"
    using Cons.prems by (intro Cons.IH) (auto simp: nth_list_update word_unat_eq_iff [symmetric] image_iff)
  then show ?case using Cons.prems(1) by simp
qed simp

lemma filter_Not_one:
  "length (filter Not xs) = 1 \<longleftrightarrow> (\<exists>!i. i < length xs \<and> \<not> xs ! i)"
proof -
  have "card {i. i < length xs \<and> \<not> xs ! i} = length (filter Not xs)" by (simp add: length_filter_conv_card)
  then have "length (filter Not xs) = 1 \<longleftrightarrow> (\<exists>i. {i. i < length xs \<and> \<not> xs ! i} = {i})"
    by (simp add: card_1_singleton_iff [symmetric])
  then show ?thesis by (auto simp: set_eq_iff Ex1_def)
qed

lemma flags_fail_bind:
  assumes "block_ranges b"
    and "bind_flags (bind_pairs b) (replicate (total_input_streams b) False) (replicate (total_output_streams b) False) = Inl e"
  shows "\<not> streams_bound_once b \<and> e \<noteq> Panic"
proof
  have rg: "\<forall>bp\<in>set (bind_pairs b). unat (in_index bp) < total_input_streams b
      \<and> unat (out_index bp) < total_output_streams b"
    using assms(1) unfolding block_ranges_def by (elim conjE)
  show "\<not> streams_bound_once b"
  proof
    assume "streams_bound_once b"
    then have d: "distinct (map in_index (bind_pairs b))" "distinct (map out_index (bind_pairs b))"
      by (simp_all add: streams_bound_once_def)
    have "\<exists>r. bind_flags (bind_pairs b) (replicate (total_input_streams b) False) (replicate (total_output_streams b) False) = Inr r"
      using rg d by (intro bind_flags_succeeds) simp_all
    then show False using assms(2) by simp
  qed
  have "bind_flags (bind_pairs b) (replicate (total_input_streams b) False) (replicate (total_output_streams b) False) \<noteq> Inl Panic"
    using rg by (intro bind_flags_no_panic) simp
  then show "e \<noteq> Panic" using assms(2) by auto
qed

lemma flags_bound:
  assumes "bind_flags (bind_pairs b) (replicate (total_input_streams b) False)
      (replicate (total_output_streams b) False) = Inr (ib, ob)"
  shows "length ib = total_input_streams b" "length ob = total_output_streams b"
    "i < total_input_streams b \<Longrightarrow> ib ! i \<longleftrightarrow> i \<in> unat ` set (map in_index (bind_pairs b))"
    "i < total_output_streams b \<Longrightarrow> ob ! i \<longleftrightarrow> i \<in> unat ` set (map out_index (bind_pairs b))"
    "distinct (map in_index (bind_pairs b))" "distinct (map out_index (bind_pairs b))"
  using bind_flags_Inr [OF assms] by auto

lemma flags_fail_packed:
  assumes bf: "bind_flags (bind_pairs b) (replicate (total_input_streams b) False)
      (replicate (total_output_streams b) False) = Inr (ib, ob)"
    and pf: "packed_flags (packed_streams b) ib = Inl e"
  shows "\<not> streams_bound_once b \<and> e \<noteq> Panic"
proof
  show "\<not> streams_bound_once b"
  proof
    assume once: "streams_bound_once b"
    have "unat p < total_input_streams b" if "p \<in> set (packed_streams b)" for p
      using that once by (auto simp: streams_bound_once_def)
    moreover have "unat p \<notin> unat ` set (map in_index (bind_pairs b))" if "p \<in> set (packed_streams b)" for p
      using that once by (auto simp: streams_bound_once_def word_unat_eq_iff [symmetric])
    moreover have "distinct (packed_streams b)" using once by (simp add: streams_bound_once_def)
    ultimately show False
      using packed_flags_succeeds [of "packed_streams b" ib] flags_bound(1,3) [OF bf] pf by auto
  qed
  show "e \<noteq> Panic" using packed_flags_no_panic [of "packed_streams b" ib] pf by auto
qed

lemma flags_once:
  assumes rg: "block_ranges b"
    and bf: "bind_flags (bind_pairs b) (replicate (total_input_streams b) False)
      (replicate (total_output_streams b) False) = Inr (ib, ob)"
    and pk: "packed_flags (packed_streams b) ib = Inr ib'"
  shows "streams_bound_once b \<longleftrightarrow> \<not> (\<exists>bound\<in>set ib'. \<not> bound) \<and> length (filter Not ob) = 1"
proof -
  note fb = flags_bound [OF bf] and pf = packed_flags_Inr [OF pk]
  let ?S = "unat ` set (map in_index (bind_pairs b) @ packed_streams b)"
  have "in_index bp \<notin> set (packed_streams b)" if "bp \<in> set (bind_pairs b)" for bp
  proof
    assume "in_index bp \<in> set (packed_streams b)"
    then have "unat (in_index bp) < length ib" "\<not> ib ! unat (in_index bp)" using pf by auto
    then show False using fb(1) fb(3) [of "unat (in_index bp)"] that by auto
  qed
  then have dist: "distinct (map in_index (bind_pairs b) @ packed_streams b)"
    using fb pf by auto
  have ib': "i < total_input_streams b \<Longrightarrow> ib' ! i \<longleftrightarrow> i \<in> ?S" for i
    using fb pf by auto
  have sub: "?S \<subseteq> {..<total_input_streams b}"
    using pf rg fb(1) by (auto simp: block_ranges_def)
  have "(\<exists>bound\<in>set ib'. \<not> bound) \<longleftrightarrow> (\<exists>i<total_input_streams b. \<not> ib' ! i)"
    using pf fb(1) by (metis in_set_conv_nth)
  also have "\<dots> \<longleftrightarrow> (\<exists>i<total_input_streams b. i \<notin> ?S)" using ib' by blast
  also have "\<dots> \<longleftrightarrow> ?S \<noteq> {..<total_input_streams b}" using sub by blast
  finally have all_in: "(\<exists>bound\<in>set ib'. \<not> bound) \<longleftrightarrow> ?S \<noteq> {..<total_input_streams b}" .
  have "(i < length ob \<and> \<not> ob ! i) \<longleftrightarrow>
      (i < total_output_streams b \<and> i \<notin> unat ` set (map out_index (bind_pairs b)))" for i
    by (cases "i < total_output_streams b") (simp_all only: fb simp_thms)
  then have one_out: "length (filter Not ob) = 1 \<longleftrightarrow>
      (\<exists>!out. out < total_output_streams b \<and> out \<notin> unat ` set (map out_index (bind_pairs b)))"
    unfolding filter_Not_one by (simp only:)
  show ?thesis
    unfolding all_in one_out streams_bound_once_def using dist fb(6) by (simp only: simp_thms)
qed

lemma validate_walk:
  assumes rg: "block_ranges b" and once: "streams_bound_once b"
    and bf: "bind_flags (bind_pairs b) (replicate (total_input_streams b) False)
      (replicate (total_output_streams b) False) = Inr (ib, ob)"
    and pk: "packed_flags (packed_streams b) ib = Inr ib'"
  shows "(validate_coder_graph b = Inr () \<longleftrightarrow> no_reachable_cycle b) \<and> validate_coder_graph b \<noteq> Inl Panic"
proof -
  let ?cof = "coder_of_streams num_out_streams (coders b)"
  have fl: "\<not> (\<exists>bound\<in>set ib'. \<not> bound)" "length (filter Not ob) = 1"
    using flags_once [OF rg bf pk] once by blast+
  define out where "out = length (takeWhile id ob)"
  have out: "out < total_output_streams b" "\<not> ob ! out" "\<forall>i<total_output_streams b. \<not> ob ! i \<longrightarrow> i = out"
    unfolding out_def flags_bound(2) [OF bf, symmetric] by (rule one_false [OF fl(2)])+
  have fin: "final_output b o' \<longleftrightarrow> o' = out" for o'
    using out flags_bound(4) [OF bf] unfolding final_output_def by blast
  have lc: "out < length ?cof" using out(1) rg by (simp add: length_coder_of_streams block_ranges_def)
  then have c0: "?cof ! out < length (coders b)" using nth_mem coder_of_streams_range by blast
  have v: "validate_coder_graph b = graph_walk b ?cof (replicate (length (coders b)) Unseen) [(?cof ! out, 0)]"
    unfolding validate_coder_graph_def bf pk ebind_simps prod.case if_not_P [OF fl(1)]
    using fl(2) lc by (simp add: out_def [symmetric] nth_or_panic_def Let_def)
  have "walk_result b (?cof ! out) (replicate (length (coders b)) Unseen) [(?cof ! out, 0)] (validate_coder_graph b)"
    unfolding v by (rule walk_from_start [OF rg c0])
  then show ?thesis unfolding walk_result_def
  proof (elim disjE conjE exE)
    fix state' assume ok: "validate_coder_graph b = Inr ()" "done_ok b state'"
      "\<forall>e\<in>set [(?cof ! out, 0)]. state' ! fst e = Done"
    then have "no_reachable_cycle b"
      using reachable_done [OF ok(2) _ c0] done_no_cycle [OF ok(2)] by (auto simp: no_reachable_cycle_def fin)
    then show ?thesis using ok by simp
  next
    fix c assume "validate_coder_graph b = Inl (Other ''block's coders form a cycle'')"
      "(?cof ! out, c) \<in> (reads_from b)\<^sup>*" "(c, c) \<in> (reads_from b)\<^sup>+"
    then show ?thesis using fin by (auto simp: no_reachable_cycle_def)
  qed
qed

lemma validate_iff:
  assumes rg: "block_ranges b"
  shows "(validate_coder_graph b = Inr () \<longleftrightarrow> streams_bound_once b \<and> no_reachable_cycle b)
    \<and> validate_coder_graph b \<noteq> Inl Panic"
proof (cases "bind_flags (bind_pairs b) (replicate (total_input_streams b) False) (replicate (total_output_streams b) False)")
  case (Inl e)
  then have "validate_coder_graph b = Inl e" by (simp add: validate_coder_graph_def)
  then show ?thesis using flags_fail_bind [OF rg Inl] by auto
next
  case (Inr r)
  obtain ib ob where r: "r = (ib, ob)" by (cases r)
  note bf = Inr [unfolded r]
  show ?thesis
  proof (cases "packed_flags (packed_streams b) ib")
    case (Inl e)
    then have "validate_coder_graph b = Inl e" by (simp add: validate_coder_graph_def bf)
    then show ?thesis using flags_fail_packed [OF bf Inl] by auto
  next
    case (Inr ib')
    show ?thesis
    proof (cases "streams_bound_once b")
      case True
      then show ?thesis using validate_walk [OF rg True bf Inr] by blast
    next
      case False
      then have "(\<exists>bound\<in>set ib'. \<not> bound) \<or> length (filter Not ob) \<noteq> 1"
        using flags_once [OF rg bf Inr] by blast
      then have "\<exists>s. validate_coder_graph b = Inl (Other s)"
        unfolding validate_coder_graph_def bf Inr ebind_simps prod.case by (simp only: if_True if_False split: if_splits) blast
      then show ?thesis using False by auto
    qed
  qed
qed

section \<open>What a block that was read promises\<close>

lemma low_nibble: "unat (b AND 0xF :: u8) < 16"
proof -
  have "b AND 0xF = take_bit 4 b" by (simp add: take_bit_eq_mask mask_eq_exp_minus_1)
  then show ?thesis using take_bit_nat_less_exp [of 4 "unat b"] by (simp add: unsigned_take_bit_eq)
qed

lemma read_coder_spec:
  assumes "read_coder hb t_in t_out bs = Inr ((c, t_in', t_out'), r)"
  shows "unat t_in' = unat t_in + unat (num_in_streams c) \<and>
    unat t_out' = unat t_out + unat (num_out_streams c) \<and>
    num_in_streams c \<le> max_streams_per_coder (hb_limits hb) \<and>
    num_out_streams c \<le> max_streams_per_coder (hb_limits hb) \<and>
    length (encoder_method_id c) < 16 \<and> unat t_in' \<le> hb_bytes hb \<and> unat t_out' \<le> hb_bytes hb"
  using assms unfolding read_coder_def Let_def
  by (auto simp: bounds_count_Inr checked_add_eq_Some_iff read_exact_eq_Inr low_nibble split: option.splits)

lemma read_coders_spec:
  "read_coders hb n t_in t_out bs = Inr ((cs, t_in', t_out'), r) \<Longrightarrow>
    length cs = n
    \<and> unat t_in' = unat t_in + sum_list (map (unat \<circ> num_in_streams) cs)
    \<and> unat t_out' = unat t_out + sum_list (map (unat \<circ> num_out_streams) cs)
    \<and> (\<forall>c\<in>set cs. num_in_streams c \<le> max_streams_per_coder (hb_limits hb)
        \<and> num_out_streams c \<le> max_streams_per_coder (hb_limits hb)
        \<and> length (encoder_method_id c) < 16)
    \<and> (0 < n \<longrightarrow> unat t_in' \<le> hb_bytes hb \<and> unat t_out' \<le> hb_bytes hb)"
proof (induction n arbitrary: t_in t_out bs cs)
  case (Suc n)
  from Suc.prems obtain c i out bs1 cs' where
    c: "read_coder hb t_in t_out bs = Inr ((c, i, out), bs1)"
    and cs: "read_coders hb n i out bs1 = Inr ((cs', t_in', t_out'), r)" "cs = c # cs'"
    by auto
  show ?case
  proof (cases n)
    case 0
    then show ?thesis using cs read_coder_spec [OF c] by simp
  next
    case (Suc m)
    then show ?thesis using cs read_coder_spec [OF c] Suc.IH [OF cs(1)] by simp
  qed
qed simp

text \<open>What the parser guarantees of every block, whatever the bytes were.\<close>

definition block_ok :: "header_bounds \<Rightarrow> block \<Rightarrow> bool" where
  "block_ok hb b \<longleftrightarrow>
     block_ranges b \<and> streams_bound_once b \<and> no_reachable_cycle b
     \<and> length (bind_pairs b) + 1 = total_output_streams b
     \<and> length (coders b) \<le> unat (max_coders_per_block (hb_limits hb))
     \<and> total_input_streams b \<le> hb_bytes hb \<and> total_output_streams b \<le> hb_bytes hb
     \<and> (\<forall>c\<in>set (coders b). num_in_streams c \<le> max_streams_per_coder (hb_limits hb)
          \<and> num_out_streams c \<le> max_streams_per_coder (hb_limits hb) \<and> length (encoder_method_id c) < 16)"

lemma read_bind_pair_spec:
  "read_bind_pair t_in t_out bs = Inr (bp, r) \<Longrightarrow> unat (in_index bp) < t_in \<and> unat (out_index bp) < t_out"
  by (auto simp: read_bind_pair_def not_le)

lemma read_block_spec:
  assumes "read_block hb bs = Inr (b, r)"
  shows "block_ok hb b \<and> block_unpack_sizes b = [] \<and> \<not> block_has_crc b \<and> num_unpack_sub_streams b = 0"
proof -
  from assms obtain n cs t_in t_out bs1 bs2 bps bs3 pss where
    n: "n \<le> unat (max_coders_per_block (hb_limits hb))"
    and cs: "read_coders hb n 0 0 bs1 = Inr ((cs, t_in, t_out), bs2)"
    and out0: "unat t_out \<noteq> 0"
    and bps: "preplicate (unat t_out - 1) (read_bind_pair (unat t_in) (unat t_out)) bs2 = Inr (bps, bs3)"
    and b: "b = default_block\<lparr>coders := cs, total_input_streams := unat t_in,
      total_output_streams := unat t_out, bind_pairs := bps, packed_streams := pss\<rparr>"
    and v: "validate_coder_graph b = Inr ()"
    unfolding read_block_def Let_def
    by (auto simp: bounds_count_Inr bounds_cap_def word_le_nat_alt)
  note c = read_coders_spec [OF cs]
  have "list_all (\<lambda>bp. unat (in_index bp) < unat t_in \<and> unat (out_index bp) < unat t_out) bps"
    by (rule preplicate_all [OF read_bind_pair_spec bps])
  then have rg: "block_ranges b" using c b by (simp add: block_ranges_def default_block_def list_all_iff)
  have "0 < n" using c out0 by (cases n) auto
  moreover have "length bps + 1 = unat t_out" using preplicate_length [OF bps] out0 by simp
  moreover have "streams_bound_once b" "no_reachable_cycle b" using validate_iff [OF rg] v by blast+
  ultimately show ?thesis
    using c n rg unfolding block_ok_def by (simp add: b default_block_def)
qed

lemma checked_no_panic: "(case checked_add a b of None \<Rightarrow> Inl (Other s) | Some t \<Rightarrow> Inr t) \<noteq> Inl Panic"
  by (simp split: option.splits)

lemma bounds_no_panic: "bounds_count hb v what \<noteq> Inl Panic" "bounds_size hb v \<noteq> Inl Panic"
  by (auto simp: bounds_count_def bounds_size_def Let_def)

lemma panic_free_read_coder: "panic_free (read_coder hb t_in t_out)"
  unfolding read_coder_def Let_def
  by (intro panic_free_pbind panic_free_if panic_free_case_prod panic_free_basic panic_free_read_u8
      panic_free_read_exact panic_free_read_variable_u64 checked_no_panic bounds_no_panic) simp_all

lemma panic_free_read_coders: "panic_free (read_coders hb n t_in t_out)"
  by (induction n arbitrary: t_in t_out)
    (auto intro!: panic_free_pbind panic_free_case_prod panic_free_read_coder)

lemma panic_free_read_packed: "panic_free (read_packed_streams b n)"
  unfolding read_packed_streams_def
  by (intro panic_free_if panic_free_case_option panic_free_basic panic_free_preplicate panic_free_read_variable_u64) simp

lemma panic_free_read_bind_pair: "panic_free (read_bind_pair t_in t_out)"
  unfolding read_bind_pair_def
  by (intro panic_free_pbind panic_free_basic panic_free_read_variable_u64) simp

lemma panic_free_read_block: "panic_free (read_block hb)"
proof -
  have tail: "validate_coder_graph (default_block\<lparr>coders := cs, total_input_streams := unat t_in,
      total_output_streams := unat t_out, bind_pairs := bps, packed_streams := pss\<rparr>) \<noteq> Inl Panic"
    if cs: "read_coders hb n 0 0 bs1 = Inr ((cs, t_in, t_out), bs2)"
      and bps: "preplicate k (read_bind_pair (unat t_in) (unat t_out)) bs2 = Inr (bps, bs3)"
    for n bs1 cs t_in t_out bs2 k bps bs3 pss
  proof -
    have "list_all (\<lambda>bp. unat (in_index bp) < unat t_in \<and> unat (out_index bp) < unat t_out) bps"
      by (rule preplicate_all [OF read_bind_pair_spec bps])
    then show ?thesis
      using validate_iff read_coders_spec [OF cs] by (simp add: block_ranges_def default_block_def list_all_iff)
  qed
  have bp: "preplicate n (read_bind_pair i out) bs \<noteq> Inl Panic" for n i out bs
    by (rule panic_freeD [OF panic_free_preplicate [OF panic_free_read_bind_pair]])
  show ?thesis
    unfolding panic_free_def
  proof (intro allI notI)
    fix bs assume "read_block hb bs = Inl Panic"
    then show False
      unfolding read_block_def Let_def
      by (auto simp: pbind_eq_Panic panic_freeD [OF panic_free_read_variable_u64] bounds_no_panic bp
          panic_freeD [OF panic_free_read_coders] panic_freeD [OF panic_free_read_packed] dest: tail)
  qed
qed

subsection \<open>Reading a block consumes its bytes in order\<close>

lemma sequential_read_coder: "sequential (read_coder hb t_in t_out)"
  unfolding read_coder_def Let_def
  by (intro sequential_pbind sequential_if sequential_case_prod sequential_intros sequential_read_u8
      sequential_read_exact sequential_read_variable_u64)

lemma sequential_read_coders: "sequential (read_coders hb n t_in t_out)"
  by (induction n arbitrary: t_in t_out)
    (auto intro!: sequential_pbind sequential_case_prod sequential_read_coder)

lemma sequential_read_packed_streams: "sequential (read_packed_streams b n)"
  unfolding read_packed_streams_def
  by (intro sequential_if sequential_case_option sequential_intros sequential_preplicate sequential_read_variable_u64)

lemma sequential_read_block [intro]: "sequential (read_block hb)"
  unfolding read_block_def Let_def read_bind_pair_def
  by (intro sequential_pbind sequential_if sequential_case_prod sequential_intros sequential_preplicate
      sequential_read_variable_u64 sequential_read_coders sequential_read_packed_streams)

section \<open>Properties\<close>

text \<open>
  A coder contributes when the block's output is read from it, through however many coders.  Of a
  block whose coders all contribute, no reachable cycle and no cycle are the same.
\<close>

definition all_coders_contribute :: "block \<Rightarrow> bool" where
  "all_coders_contribute b \<longleftrightarrow>
     (\<forall>c<length (coders b). \<exists>out. final_output b out
        \<and> (coder_of_streams num_out_streams (coders b) ! out, c) \<in> (reads_from b)\<^sup>*)"

lemma acyclic_no_reachable_cycle: "acyclic (reads_from b) \<Longrightarrow> no_reachable_cycle b"
  by (simp add: acyclic_def no_reachable_cycle_def)

lemma contributing_acyclic:
  assumes "all_coders_contribute b" "no_reachable_cycle b"
  shows "acyclic (reads_from b)"
  unfolding acyclic_def
proof (intro allI notI)
  fix c assume c: "(c, c) \<in> (reads_from b)\<^sup>+"
  then obtain d where "(d, c) \<in> reads_from b" by (meson tranclD2)
  then have "c < length (coders b)" using coder_source_range by (auto simp: reads_from_def)
  then show False using assms c unfolding all_coders_contribute_def no_reachable_cycle_def by blast
qed

text \<open>
  C16: the coder graph check is exact on the coders a block's output depends on.  On a block whose
  stream indices are in range the check never panics; what it accepts has every input stream bound
  or packed once, no output stream bound twice, one output stream left unbound, and no cycle among
  the coders that output depends on; a block with such streams and no cycle at all is accepted; and
  when every coder contributes to the output, the check succeeds exactly when the streams are bound
  so and the graph is acyclic.
\<close>

theorem coder_graph_check_is_exact:
  assumes "block_ranges b"
  shows "validate_coder_graph b \<noteq> Inl Panic
    \<and> (validate_coder_graph b = Inr () \<longrightarrow> streams_bound_once b \<and> no_reachable_cycle b)
    \<and> (streams_bound_once b \<and> acyclic (reads_from b) \<longrightarrow> validate_coder_graph b = Inr ())
    \<and> (all_coders_contribute b \<longrightarrow>
        (validate_coder_graph b = Inr () \<longleftrightarrow> streams_bound_once b \<and> acyclic (reads_from b)))"
  using validate_iff [OF assms] acyclic_no_reachable_cycle [of b] contributing_acyclic [of b] by blast

text \<open>A block of two coders whose second feeds only itself.\<close>

definition one_stream_coder :: coder where
  "one_stream_coder = \<lparr>encoder_method_id = ID_COPY, num_in_streams = 1, num_out_streams = 1, coder_properties = []\<rparr>"

definition detached_cycle :: block where
  "detached_cycle = default_block\<lparr>coders := [one_stream_coder, one_stream_coder],
     total_input_streams := 2, total_output_streams := 2,
     bind_pairs := [\<lparr>in_index = 1, out_index = 1\<rparr>], packed_streams := [0]\<rparr>"

definition two_coder_chain :: block where
  "two_coder_chain = detached_cycle\<lparr>bind_pairs := [\<lparr>in_index = 1, out_index = 0\<rparr>]\<rparr>"

theorem coder_graph_check_is_exact_witness:
  "streams_bound_once two_coder_chain \<and> acyclic (reads_from two_coder_chain)"
proof -
  have "block_ranges two_coder_chain"
    by (simp add: block_ranges_def two_coder_chain_def detached_cycle_def one_stream_coder_def default_block_def)
  note exact = coder_graph_check_is_exact [OF this]
  have reads: "(1, 0) \<in> reads_from two_coder_chain"
  proof -
    have "coder_source two_coder_chain (coder_of_streams num_out_streams (coders two_coder_chain)) 1 0 = Some 0" by code_simp
    then show ?thesis by (auto simp: reads_from_def)
  qed
  have out: "final_output two_coder_chain 1" "coder_of_streams num_out_streams (coders two_coder_chain) ! 1 = 1"
    "length (coders two_coder_chain) = 2"
    by (auto simp: final_output_def two_coder_chain_def detached_cycle_def one_stream_coder_def default_block_def coder_of_streams_def)
  have "all_coders_contribute two_coder_chain"
    unfolding all_coders_contribute_def
  proof (intro allI impI exI [of _ 1] conjI)
    fix c assume "c < length (coders two_coder_chain)"
    then have "c = 0 \<or> c = 1" using out(3) by linarith
    then show "(coder_of_streams num_out_streams (coders two_coder_chain) ! 1, c) \<in> (reads_from two_coder_chain)\<^sup>*"
      using reads out(2) by auto
  qed (rule out(1))
  moreover have "validate_coder_graph two_coder_chain = Inr ()" by code_simp
  ultimately show ?thesis using exact by blast
qed

text \<open>
  The documentation of the check says the graph is acyclic; a cycle the block's output does not
  depend on is accepted.
\<close>

lemma detached_cycle_accepted:
  "validate_coder_graph detached_cycle = Inr () \<and> (1, 1) \<in> reads_from detached_cycle"
proof
  show "validate_coder_graph detached_cycle = Inr ()" by code_simp
  have "coder_source detached_cycle (coder_of_streams num_out_streams (coders detached_cycle)) 1 0 = Some 1"
    by code_simp
  then show "(1, 1) \<in> reads_from detached_cycle" by (auto simp: reads_from_def)
qed

section \<open>The walk over a chain\<close>

text \<open>
  Each step follows the bind pair of the coder's output, so a coder that is reached twice would have
  been entered through one input stream twice.
\<close>

definition next_coder :: "block \<Rightarrow> u64 \<Rightarrow> u64 option" where
  "next_coder b i = map_option in_index (find_bind_pair_for_out_stream b i)"

lemma next_coder_bound: "next_coder b i = Some k \<Longrightarrow> \<exists>bp\<in>set (bind_pairs b). out_index bp = i \<and> in_index bp = k"
  by (auto simp: next_coder_def find_bind_pair_for_out_stream_def find_Some_iff)

lemma ordered_rest_unfold:
  "ordered_rest b (None, m) = []"
  "ordered_rest b (Some i, m) =
     (if m = 0 \<or> length (coders b) \<le> unat i then []
      else (unat i, coders b ! unat i) # ordered_rest b (next_coder b i, m - 1))"
  by (simp_all add: ordered_rest.simps [of b] Let_def next_coder_def nth_option_def)

lemma walk_distinct:
  assumes "distinct (map in_index (bind_pairs b))" "\<forall>i. next_coder b i \<noteq> Some first"
  shows "first \<in> insert i seen \<Longrightarrow> i \<notin> seen \<Longrightarrow> \<forall>k\<in>insert i seen. k = first \<or> (\<exists>p\<in>seen. next_coder b p = Some k) \<Longrightarrow>
    distinct (map fst (ordered_rest b (Some i, m))) \<and> set (map fst (ordered_rest b (Some i, m))) \<inter> unat ` seen = {}"
proof (induction m arbitrary: i seen)
  case (Suc m)
  show ?case
  proof (cases "length (coders b) \<le> unat i \<or> next_coder b i = None")
    case True
    then show ?thesis using Suc.prems(2) by (auto simp: ordered_rest_unfold word_unat_eq_iff [symmetric])
  next
    case False
    then obtain k where k: "next_coder b i = Some k" by auto
    have "k \<notin> insert i seen"
    proof
      assume "k \<in> insert i seen"
      then obtain p where p: "p \<in> seen" "next_coder b p = Some k" using Suc.prems(3) assms(2) k by metis
      then have "p = i"
        using next_coder_bound [OF k] next_coder_bound [OF p(2)] assms(1)
        by (auto simp: distinct_map dest: inj_onD)
      then show False using p(1) Suc.prems(2) by simp
    qed
    moreover have "\<forall>k'\<in>insert k (insert i seen). k' = first \<or> (\<exists>p\<in>insert i seen. next_coder b p = Some k')"
      using Suc.prems(3) k by auto
    ultimately have "distinct (map fst (ordered_rest b (Some k, m)))
        \<and> set (map fst (ordered_rest b (Some k, m))) \<inter> unat ` insert i seen = {}"
      using Suc.IH [of k "insert i seen"] Suc.prems(1) by blast
    then show ?thesis using False Suc.prems(2) by (auto simp: ordered_rest_unfold k word_unat_eq_iff [symmetric])
  qed
qed (simp add: ordered_rest_unfold)

lemma walk_follows:
  "Suc j < length (ordered_rest b (cur, m)) \<Longrightarrow>
    \<exists>bp\<in>set (bind_pairs b). unat (out_index bp) = fst (ordered_rest b (cur, m) ! j)
      \<and> unat (in_index bp) = fst (ordered_rest b (cur, m) ! Suc j)"
proof (induction m arbitrary: cur j)
  case 0
  then show ?case by (cases cur) (simp_all add: ordered_rest_unfold)
next
  case (Suc m)
  obtain i where i: "cur = Some i" "unat i < length (coders b)"
    using Suc.prems by (cases cur) (auto simp: ordered_rest_unfold split: if_splits)
  have walk: "ordered_rest b (cur, Suc m) = (unat i, coders b ! unat i) # ordered_rest b (next_coder b i, m)"
    using i by (simp add: ordered_rest_unfold)
  show ?case
  proof (cases j)
    case 0
    then obtain k where k: "next_coder b i = Some k" "ordered_rest b (next_coder b i, m) \<noteq> []"
      using Suc.prems unfolding walk by (cases "next_coder b i") (auto simp: ordered_rest_unfold)
    then have "fst (ordered_rest b (next_coder b i, m) ! 0) = unat k"
      by (auto simp: ordered_rest_unfold split: if_splits)
    then show ?thesis using next_coder_bound [OF k(1)] unfolding walk 0 by auto
  next
    case (Suc j')
    then show ?thesis using Suc.IH [of j' "next_coder b i"] Suc.prems unfolding walk by simp
  qed
qed

text \<open>
  C27: the walk over a block's coders.  Whatever the bind pairs say, cycles included, it ends with at
  most as many coders as the block has, each of them the block's own coder at the index it is yielded
  with; it starts at the first packed stream, and every step goes from a coder through a bind pair of
  the output of that number to the coder the pair's input belongs to.  In a block that passes the graph
  check it yields no coder twice.
\<close>

theorem ordered_coders_walk:
  "length (ordered_coders b) \<le> length (coders b)
    \<and> (\<forall>(i, c) \<in> set (ordered_coders b). i < length (coders b) \<and> c = coders b ! i)
    \<and> (ordered_coders b \<noteq> [] \<longrightarrow> packed_streams b \<noteq> [] \<and> fst (hd (ordered_coders b)) = unat (hd (packed_streams b)))
    \<and> (\<forall>j. Suc j < length (ordered_coders b) \<longrightarrow>
        (\<exists>bp\<in>set (bind_pairs b). unat (out_index bp) = fst (ordered_coders b ! j)
          \<and> unat (in_index bp) = fst (ordered_coders b ! Suc j)))
    \<and> (block_ranges b \<and> validate_coder_graph b = Inr () \<longrightarrow> distinct (map fst (ordered_coders b)))"
proof (intro conjI allI impI)
  show "length (ordered_coders b) \<le> length (coders b)" by (rule ordered_coders_items)
  show "\<forall>(i, c) \<in> set (ordered_coders b). i < length (coders b) \<and> c = coders b ! i"
    using ordered_coders_items(2) [of _ _ b] by blast
  show "packed_streams b \<noteq> []" "fst (hd (ordered_coders b)) = unat (hd (packed_streams b))" if "ordered_coders b \<noteq> []"
    using that by (cases "packed_streams b";
      auto simp: ordered_coders_def ordered_coder_iter_def nth_option_def ordered_rest_unfold split: if_splits)+
  show "\<exists>bp\<in>set (bind_pairs b). unat (out_index bp) = fst (ordered_coders b ! j)
      \<and> unat (in_index bp) = fst (ordered_coders b ! Suc j)" if "Suc j < length (ordered_coders b)" for j
    using that walk_follows [of j b "nth_option (packed_streams b) 0" "length (coders b)"]
    by (simp add: ordered_coders_def ordered_coder_iter_def)
  assume ok: "block_ranges b \<and> validate_coder_graph b = Inr ()"
  then have once: "distinct (map in_index (bind_pairs b) @ packed_streams b)"
    using validate_iff [of b] by (simp add: streams_bound_once_def)
  show "distinct (map fst (ordered_coders b))"
  proof (cases "packed_streams b")
    case (Cons p ps)
    have "\<forall>i. next_coder b i \<noteq> Some p" using next_coder_bound [of b _ p] once Cons by (auto simp: image_iff)
    then show ?thesis
      using walk_distinct [of b p p "{}" "length (coders b)"] once Cons
      by (simp add: ordered_coders_def ordered_coder_iter_def nth_option_def)
  qed (simp add: ordered_coders_def ordered_coder_iter_def nth_option_def ordered_rest_unfold)
qed

theorem ordered_coders_walk_witness:
  "map fst (ordered_coders two_coder_chain) = [0, 1] \<and> distinct (map fst (ordered_coders two_coder_chain))"
proof -
  have "block_ranges two_coder_chain"
    by (simp add: block_ranges_def two_coder_chain_def detached_cycle_def one_stream_coder_def default_block_def)
  moreover have "validate_coder_graph two_coder_chain = Inr ()" by code_simp
  moreover have "map fst (ordered_coders two_coder_chain) = [0, 1]" by code_simp
  ultimately show ?thesis using ordered_coders_walk [of two_coder_chain] by blast
qed

text \<open>
  C15: every block the parser accepts is decodable.  Whatever the bytes are, a block that is
  read has every stream index in range and bound once, one final output that no dependency
  cycle can reach, a bind pair for every other output, at most as many coders and streams per
  coder as the limits allow and method ids of at most 15 bytes; and reading never panics.
\<close>

theorem parsed_block_is_decodable:
  "read_block hb bs \<noteq> Inl Panic \<and> (\<forall>b rest. read_block hb bs = Inr (b, rest) \<longrightarrow>
      block_ranges b \<and> streams_bound_once b \<and> no_reachable_cycle b
      \<and> length (bind_pairs b) + 1 = total_output_streams b
      \<and> length (coders b) \<le> unat (max_coders_per_block (hb_limits hb))
      \<and> (\<forall>c\<in>set (coders b). num_in_streams c \<le> max_streams_per_coder (hb_limits hb)
          \<and> num_out_streams c \<le> max_streams_per_coder (hb_limits hb) \<and> length (encoder_method_id c) < 16)
      \<and> (\<exists>used. bs = used @ rest))"
  using panic_freeD [OF panic_free_read_block, of hb bs] read_block_spec [of hb bs]
    sequentialD [OF sequential_read_block, of hb bs]
  by (auto simp: block_ok_def)

lemma one_lzma2_block:
  "\<exists>b. read_block \<lparr>hb_bytes = 100, hb_limits = limits_default\<rparr> [1, 0x21, 0x21, 1, 24, 7] = Inr (b, [7])"
  apply (simp add: read_block_def pbind_def read_variable_small bounds_count_def bounds_cap_def limits_default_def
    numeral_eq_Suc [of "num.One"] read_coder_def read_exact_def bounds_size_def checked_add_def)
  by (simp add: pbind_def Let_def read_packed_streams_def find_bind_pair_for_in_stream_def default_block_def validate_coder_graph_def coder_of_streams_def graph_walk.simps first_in_stream_def nth_or_panic_def)

theorem parsed_block_is_decodable_witness:
  "\<exists>b. read_block \<lparr>hb_bytes = 100, hb_limits = limits_default\<rparr> [1, 0x21, 0x21, 1, 24, 7] = Inr (b, [7])
    \<and> no_reachable_cycle b"
  using one_lzma2_block
    parsed_block_is_decodable [of "\<lparr>hb_bytes = 100, hb_limits = limits_default\<rparr>" "[1, 0x21, 0x21, 1, 24, 7]"]
  by blast

end
