(* ===== verification/Stream_Map.thy ===== *)
theory Stream_Map
  imports Coder_Graph
begin

text \<open>
  \<open>calculate_stream_map\<close> of \<open>src/reader.rs\<close>: which pack streams, sub-streams and files belong
  to which block.  The vectors it fills index by index are built in the order of the loops;
  the two vectors the file loop writes out of order are threaded through it.
\<close>

section \<open>The loops\<close>

fun first_pack_streams :: "nat \<Rightarrow> block list \<Rightarrow> nat \<Rightarrow> nat list result" where
  "first_pack_streams num_pack [] next_index = Inr []"
| "first_pack_streams num_pack (b # bs) next_index =
     (case checked_add_usize next_index (length (packed_streams b)) of
        None \<Rightarrow> Inl (Other ''pack stream index overflow'')
      | Some n \<Rightarrow>
          if num_pack < n
          then Inl (Other ''block references pack streams beyond the available pack sizes'')
          else ebind (first_pack_streams num_pack bs n) (\<lambda>rest. Inr (next_index # rest)))"

fun first_sub_streams :: "block list \<Rightarrow> nat \<Rightarrow> nat list result" where
  "first_sub_streams [] next_index = Inr []"
| "first_sub_streams (b # bs) next_index =
     (case checked_add_usize next_index (num_unpack_sub_streams b) of
        None \<Rightarrow> Inl (Other ''sub-stream index overflow'')
      | Some n \<Rightarrow> ebind (first_sub_streams bs n) (\<lambda>rest. Inr (next_index # rest)))"

fun stream_offsets :: "u64 list \<Rightarrow> u64 \<Rightarrow> u64 list result" where
  "stream_offsets [] next_offset = Inr []"
| "stream_offsets (n # ns) next_offset =
     (case checked_add next_offset n of
        None \<Rightarrow> Inl (Other ''pack stream offset overflow'')
      | Some off \<Rightarrow> ebind (stream_offsets ns off) (\<lambda>rest. Inr (next_offset # rest)))"

text \<open>The inner loop that looks for the next block with a sub-stream for file \<open>i\<close>.\<close>

function seek_block :: "block list \<Rightarrow> nat \<Rightarrow> nat \<Rightarrow> nat list \<Rightarrow> nat \<times> nat list" where
  "seek_block bs i nb first_file =
     (if nb < length bs
      then let first_file' = first_file[nb := i]
           in if 0 < num_unpack_sub_streams (bs ! nb) then (nb, first_file')
              else seek_block bs i (nb + 1) first_file'
      else (nb, first_file))"
  by pat_completeness auto
termination by (relation "measure (\<lambda>(bs, i, nb, ff). length bs - nb)") auto

declare seek_block.simps [simp del]

text \<open>
  The file loop: \<open>nb\<close> is \<open>next_block_index\<close> and \<open>nu\<close> is \<open>next_block_unpack_stream_index\<close>.
\<close>

fun assign_blocks ::
  "block list \<Rightarrow> u64 list \<Rightarrow> nat list \<Rightarrow> archive_entry list \<Rightarrow> nat \<Rightarrow> nat \<Rightarrow> nat \<Rightarrow> nat list
    \<Rightarrow> (nat list \<times> nat option list \<times> archive_entry list) result" where
  "assign_blocks bs sizes first_pack [] i nb nu first_file = Inr (first_file, [], [])"
| "assign_blocks bs sizes first_pack (f # fs) i nb nu first_file =
     (if \<not> has_stream f \<and> nu = 0
      then ebind (assign_blocks bs sizes first_pack fs (i + 1) nb nu first_file)
             (\<lambda>(ff, fb, fs'). Inr (ff, None # fb, f # fs'))
      else
        let (nb, first_file) = (if nu = 0 then seek_block bs i nb first_file else (nb, first_file))
        in if nu = 0 \<and> length bs \<le> nb then Inl (Other ''Too few blocks in archive'')
           else if \<not> has_stream f
           then ebind (assign_blocks bs sizes first_pack fs (i + 1) nb nu first_file)
                  (\<lambda>(ff, fb, fs'). Inr (ff, Some nb # fb, f # fs'))
           else
             ebind (nth_or_panic first_file nb) (\<lambda>start.
             ebind (if start = i
                    then ebind (nth_or_panic first_pack nb) (\<lambda>p.
                           case nth_option sizes p of
                             None \<Rightarrow> Inl (Other ''block references a pack stream index beyond pack_sizes'')
                           | Some n \<Rightarrow> Inr (f\<lparr>compressed_size := n\<rparr>))
                    else Inr f) (\<lambda>f'.
             ebind (nth_or_panic bs nb) (\<lambda>b.
             let (nb', nu') = (if num_unpack_sub_streams b \<le> nu + 1 then (nb + 1, 0) else (nb, nu + 1))
             in ebind (assign_blocks bs sizes first_pack fs (i + 1) nb' nu' first_file)
                  (\<lambda>(ff, fb, fs'). Inr (ff, Some nb # fb, f' # fs'))))))"

fun check_file_spans :: "nat \<Rightarrow> block list \<Rightarrow> nat list \<Rightarrow> unit result" where
  "check_file_spans num_files [] starts = Inr ()"
| "check_file_spans num_files (b # bs) [] = Inl Panic"
| "check_file_spans num_files (b # bs) (start # starts) =
     (case checked_add_usize start (num_unpack_sub_streams b) of
        None \<Rightarrow> Inl (Other ''block file span overflow'')
      | Some e \<Rightarrow>
          if num_files < e
          then Inl (Other ''block declares more sub-streams than the archive has files'')
          else check_file_spans num_files bs starts)"

definition calculate_stream_map :: "archive \<Rightarrow> archive result" where
  "calculate_stream_map a =
     ebind (first_pack_streams (length (pack_sizes a)) (blocks a) 0) (\<lambda>first_pack.
     ebind (first_sub_streams (blocks a) 0) (\<lambda>first_sub.
     ebind (stream_offsets (pack_sizes a) 0) (\<lambda>offsets.
     ebind (assign_blocks (blocks a) (pack_sizes a) first_pack (files a) 0 0 0
              (replicate (length (blocks a)) 0)) (\<lambda>(first_file, file_block, files').
     ebind (check_file_spans (length files') (blocks a) first_file) (\<lambda>_.
     Inr (a\<lparr>files := files',
       stream_map_of := \<lparr>block_first_pack_stream_index = first_pack, pack_stream_offsets = offsets,
         block_first_sub_stream_index = first_sub, block_first_file_index = first_file,
         file_block_index = file_block\<rparr>\<rparr>))))))"

section \<open>The running sums\<close>

definition packs_before :: "block list \<Rightarrow> nat \<Rightarrow> nat" where
  "packs_before bs k = sum_list (map (length \<circ> packed_streams) (take k bs))"

definition subs_before :: "block list \<Rightarrow> nat \<Rightarrow> nat" where
  "subs_before bs k = sum_list (map num_unpack_sub_streams (take k bs))"

lemma checked_add_usize_Some: "checked_add_usize a b = Some c \<longleftrightarrow> c = a + b \<and> a + b \<le> usize_max"
  by (auto simp: checked_add_usize_def)

lemma first_pack_streams_Inr:
  "first_pack_streams np bs acc = Inr xs \<Longrightarrow>
    length xs = length bs \<and> (\<forall>k<length bs. xs ! k = acc + packs_before bs k
      \<and> xs ! k + length (packed_streams (bs ! k)) \<le> np)"
proof (induction bs arbitrary: acc xs)
  case (Cons b bs)
  then obtain rest where r: "first_pack_streams np bs (acc + length (packed_streams b)) = Inr rest"
    and xs: "xs = acc # rest" and le: "acc + length (packed_streams b) \<le> np"
    by (auto simp: checked_add_usize_Some split: option.splits if_splits)
  show ?case using Cons.IH [OF r] xs le by (auto simp: packs_before_def nth_Cons split: nat.splits)
qed simp

lemma first_sub_streams_Inr:
  "first_sub_streams bs acc = Inr xs \<Longrightarrow>
    length xs = length bs \<and> (\<forall>k<length bs. xs ! k = acc + subs_before bs k)"
proof (induction bs arbitrary: acc xs)
  case (Cons b bs)
  then obtain rest where r: "first_sub_streams bs (acc + num_unpack_sub_streams b) = Inr rest"
    and xs: "xs = acc # rest"
    by (auto simp: checked_add_usize_Some split: option.splits)
  show ?case using Cons.IH [OF r] xs by (auto simp: subs_before_def nth_Cons split: nat.splits)
qed simp

lemma stream_offsets_Inr:
  "stream_offsets ns acc = Inr xs \<Longrightarrow>
    length xs = length ns \<and> (\<forall>k<length ns. unat (xs ! k) = unat acc + sum_list (map unat (take k ns))
      \<and> unat (xs ! k) + unat (ns ! k) < 2 ^ 64)"
proof (induction ns arbitrary: acc xs)
  case (Cons n ns)
  then obtain off rest where o: "checked_add acc n = Some off"
    and r: "stream_offsets ns off = Inr rest" and xs: "xs = acc # rest"
    by (auto split: option.splits)
  have "unat off = unat acc + unat n" "unat acc + unat n < 2 ^ 64"
    using checked_add_SomeD [OF o] o by (auto simp: checked_add_def split: if_splits)
  then show ?case using Cons.IH [OF r] xs by (auto simp: nth_Cons split: nat.splits)
qed simp

lemma check_file_spans_Inr:
  "check_file_spans nf bs starts = Inr () \<Longrightarrow>
    \<forall>k<length bs. starts ! k + num_unpack_sub_streams (bs ! k) \<le> nf"
proof (induction nf bs starts rule: check_file_spans.induct)
  case (3 nf b bs start starts)
  then show ?case
    by (auto simp: checked_add_usize_Some nth_Cons split: option.splits if_splits nat.splits)
qed auto

section \<open>The file loop\<close>

lemma seek_block_spec:
  assumes "seek_block bs i nb ff = (nb', ff')"
  shows "nb \<le> nb' \<and> length ff' = length ff
    \<and> subs_before bs nb' = subs_before bs nb
    \<and> (nb' < length bs \<longrightarrow> 0 < num_unpack_sub_streams (bs ! nb'))
    \<and> (\<forall>k. k < nb \<longrightarrow> ff' ! k = ff ! k)
    \<and> (nb' < length bs \<longrightarrow> nb' < length ff \<longrightarrow> ff' ! nb' = i)
    \<and> (nb \<le> length bs \<longrightarrow> nb' \<le> length bs)"
  using assms
proof (induction bs i nb ff arbitrary: nb' ff' rule: seek_block.induct)
  case (1 bs i nb ff)
  show ?case
  proof (cases "nb < length bs \<and> num_unpack_sub_streams (bs ! nb) = 0")
    case True
    then have "seek_block bs i (nb + 1) (ff[nb := i]) = (nb', ff')"
      using 1(2) by (simp add: seek_block.simps [of bs i nb ff] Let_def)
    moreover have "subs_before bs (Suc nb) = subs_before bs nb"
      using True by (simp add: subs_before_def take_Suc_conv_app_nth)
    ultimately show ?thesis using 1(1) [of "ff[nb := i]" nb' ff'] True by auto
  next
    case False
    then show ?thesis using 1(2) by (auto simp: seek_block.simps [of bs i nb ff] Let_def split: if_splits)
  qed
qed

definition streamed_before :: "archive_entry list \<Rightarrow> nat \<Rightarrow> nat" where
  "streamed_before fs j = length (filter has_stream (take j fs))"

lemma streamed_before_Cons [simp]:
  "streamed_before fs 0 = 0"
  "streamed_before (f # fs) (Suc j) = (if has_stream f then 1 else 0) + streamed_before fs j"
  by (simp_all add: streamed_before_def)

lemma subs_before_Suc: "b < length bs \<Longrightarrow> subs_before bs (Suc b) = subs_before bs b + num_unpack_sub_streams (bs ! b)"
  by (simp add: subs_before_def take_Suc_conv_app_nth)

text \<open>
  \<open>in_file_loop\<close> is the invariant of the file loop and \<open>files_placed\<close> what it achieves: the
  \<open>k\<close>-th streamed file belongs to the block whose sub-streams include number \<open>k\<close>, and the
  first of them is the block's first file.
\<close>

definition in_file_loop :: "block list \<Rightarrow> nat \<Rightarrow> nat \<Rightarrow> nat list \<Rightarrow> bool" where
  "in_file_loop bs nb nu ff \<longleftrightarrow>
     nb \<le> length bs \<and> (nu = 0 \<or> nb < length bs \<and> nu < num_unpack_sub_streams (bs ! nb)) \<and> length ff = length bs"

definition file_placed :: "block list \<Rightarrow> nat \<Rightarrow> nat \<Rightarrow> nat list \<Rightarrow> nat option \<Rightarrow> bool" where
  "file_placed bs k j ff placed \<longleftrightarrow>
     (\<exists>b<length bs. placed = Some b \<and> subs_before bs b \<le> k
        \<and> k < subs_before bs b + num_unpack_sub_streams (bs ! b)
        \<and> (k = subs_before bs b \<longrightarrow> ff ! b = j))"

definition files_placed ::
  "block list \<Rightarrow> archive_entry list \<Rightarrow> nat \<Rightarrow> nat \<Rightarrow> nat \<Rightarrow> nat list \<Rightarrow> nat list \<Rightarrow> nat option list \<Rightarrow> archive_entry list \<Rightarrow> bool" where
  "files_placed bs fs i nb nu ff ff' fb fs' \<longleftrightarrow>
     length fb = length fs \<and> length ff' = length bs
     \<and> (\<forall>b<nb. ff' ! b = ff ! b) \<and> (0 < nu \<longrightarrow> ff' ! nb = ff ! nb)
     \<and> (\<forall>j<length fs. has_stream (fs ! j) \<longrightarrow>
          file_placed bs (subs_before bs nb + nu + streamed_before fs j) (i + j) ff' (fb ! j))
     \<and> map (\<lambda>f. f\<lparr>compressed_size := 0\<rparr>) fs' = map (\<lambda>f. f\<lparr>compressed_size := 0\<rparr>) fs"

text \<open>The position of the loop after the block of the current file has been found.\<close>

lemma find_block:
  assumes "in_file_loop bs nb nu ff"
    and "(nb1, ff1) = (if nu = 0 then seek_block bs i nb ff else (nb, ff))" "\<not> (nu = 0 \<and> length bs \<le> nb1)"
  shows "in_file_loop bs nb1 nu ff1" "nb1 < length bs" "nu < num_unpack_sub_streams (bs ! nb1)" "nb \<le> nb1"
    "subs_before bs nb1 = subs_before bs nb" "nu = 0 \<longrightarrow> ff1 ! nb1 = i" "\<forall>b<nb. ff1 ! b = ff ! b"
    "0 < nu \<longrightarrow> nb1 = nb \<and> ff1 = ff"
  using assms seek_block_spec [of bs i nb ff nb1 ff1] by (auto simp: in_file_loop_def split: if_splits)

lemma after_file:
  assumes "in_file_loop bs nb nu ff" "nb < length bs" "nu < num_unpack_sub_streams (bs ! nb)"
    and "(nb', nu') = (if num_unpack_sub_streams (bs ! nb) \<le> nu + 1 then (nb + 1, 0) else (nb, nu + 1))"
  shows "in_file_loop bs nb' nu' ff" "subs_before bs nb' + nu' = subs_before bs nb + nu + 1"
    "nb < nb' \<or> 0 < nu' \<and> nb' = nb"
  using assms by (auto simp: in_file_loop_def subs_before_Suc split: if_splits)

lemma files_placed_Cons_plain:
  assumes "files_placed bs fs (i + 1) nb1 nu ff1 ff' fb fs'" "\<not> has_stream f" "nb \<le> nb1"
    and "subs_before bs nb1 = subs_before bs nb" "\<forall>b<nb. ff1 ! b = ff ! b" "0 < nu \<longrightarrow> nb1 = nb \<and> ff1 = ff"
  shows "files_placed bs (f # fs) i nb nu ff ff' (x # fb) (f # fs')"
  using assms unfolding files_placed_def by (auto simp: nth_Cons split: nat.splits)

lemma files_placed_Cons_streamed:
  assumes "files_placed bs fs (i + 1) nb' nu' ff1 ff' fb fs'" "has_stream f" "nb \<le> nb1" "nb1 < length bs"
    and "subs_before bs nb1 = subs_before bs nb" "\<forall>b<nb. ff1 ! b = ff ! b" "0 < nu \<longrightarrow> nb1 = nb \<and> ff1 = ff"
    and "subs_before bs nb' + nu' = subs_before bs nb1 + nu + 1" "nb1 < nb' \<or> 0 < nu' \<and> nb' = nb1"
    and "nu < num_unpack_sub_streams (bs ! nb1)" "nu = 0 \<longrightarrow> ff1 ! nb1 = i"
    and "f'\<lparr>compressed_size := 0\<rparr> = f\<lparr>compressed_size := 0\<rparr>"
  shows "files_placed bs (f # fs) i nb nu ff ff' (Some nb1 # fb) (f' # fs')"
proof -
  have keep: "ff' ! nb1 = ff1 ! nb1" "\<forall>b<nb. ff' ! b = ff1 ! b"
    using assms(1,3,9) unfolding files_placed_def by auto
  have "file_placed bs (subs_before bs nb + nu) i ff' (Some nb1)"
    unfolding file_placed_def using assms(4,5,10,11) keep by auto
  moreover have "file_placed bs (subs_before bs nb + nu + streamed_before (f # fs) (Suc j)) (i + Suc j) ff' (fb ! j)"
    if "j < length fs" "has_stream (fs ! j)" for j
  proof -
    have "file_placed bs (subs_before bs nb' + nu' + streamed_before fs j) (i + 1 + j) ff' (fb ! j)"
      using assms(1) that unfolding files_placed_def by blast
    then show ?thesis using assms(2,5,8) by simp
  qed
  ultimately show ?thesis
    using assms(1,2,6,7,12) keep unfolding files_placed_def by (auto simp: nth_Cons split: nat.splits)
qed

lemma assign_blocks_Inr:
  "assign_blocks bs sizes first_pack fs i nb nu ff = Inr (ff', fb, fs') \<Longrightarrow> in_file_loop bs nb nu ff \<Longrightarrow>
    files_placed bs fs i nb nu ff ff' fb fs'"
proof (induction fs arbitrary: i nb nu ff ff' fb fs')
  case Nil
  then show ?case by (auto simp: files_placed_def in_file_loop_def)
next
  case (Cons f fs)
  show ?case
  proof (cases "\<not> has_stream f \<and> nu = 0")
    case True
    then obtain fb1 fs1 where "assign_blocks bs sizes first_pack fs (i + 1) nb nu ff = Inr (ff', fb1, fs1)"
      "fb = None # fb1" "fs' = f # fs1" using Cons.prems(1) by auto
    then show ?thesis using Cons.IH Cons.prems(2) True by (auto intro!: files_placed_Cons_plain)
  next
    case False
    obtain nb1 ff1 where nb1: "(nb1, ff1) = (if nu = 0 then seek_block bs i nb ff else (nb, ff))"
      by (metis surj_pair)
    have some: "\<not> (nu = 0 \<and> length bs \<le> nb1)"
      using Cons.prems(1) False nb1 [symmetric] by (auto simp: Let_def)
    note fnd = find_block [OF Cons.prems(2) nb1 some]
    show ?thesis
    proof (cases "has_stream f")
      case nostream: False
      then obtain fb1 fs1 where r: "assign_blocks bs sizes first_pack fs (i + 1) nb1 nu ff1 = Inr (ff', fb1, fs1)"
        "fb = Some nb1 # fb1" "fs' = f # fs1"
        using Cons.prems(1) False some nb1 [symmetric] by (auto simp: Let_def)
      show ?thesis unfolding r(2,3)
        by (rule files_placed_Cons_plain [OF Cons.IH [OF r(1) fnd(1)] nostream fnd(4,5,7,8)])
    next
      case True
      define nbu where "nbu = (if num_unpack_sub_streams (bs ! nb1) \<le> nu + 1 then (nb1 + 1, 0) else (nb1, nu + 1))"
      obtain nb' nu' where n: "nbu = (nb', nu')" by (cases nbu)
      obtain f' fb1 fs1 where r: "assign_blocks bs sizes first_pack fs (i + 1) nb' nu' ff1 = Inr (ff', fb1, fs1)"
        "fb = Some nb1 # fb1" "fs' = f' # fs1" "f'\<lparr>compressed_size := 0\<rparr> = f\<lparr>compressed_size := 0\<rparr>"
        using Cons.prems(1) True some nb1 [symmetric] n unfolding nbu_def
        by (auto simp: Let_def split: if_splits option.splits)
      note aft = after_file [OF fnd(1,2,3) n [symmetric, unfolded nbu_def]]
      show ?thesis
        unfolding r(2,3)
        by (rule files_placed_Cons_streamed [OF Cons.IH [OF r(1) aft(1)] True fnd(4,2,5,7,8) aft(2,3) fnd(3,6) r(4)])
    qed
  qed
qed

section \<open>Properties\<close>

lemma assign_blocks_no_panic:
  "in_file_loop bs nb nu ff \<Longrightarrow> length first_pack = length bs \<Longrightarrow>
    assign_blocks bs sizes first_pack fs i nb nu ff \<noteq> Inl Panic"
proof (induction fs arbitrary: i nb nu ff)
  case (Cons f fs)
  show ?case
  proof (cases "\<not> has_stream f \<and> nu = 0")
    case True
    then show ?thesis using Cons.IH [OF Cons.prems] by (auto simp: ebind_def split: sum.splits)
  next
    case False
    obtain nb1 ff1 where nb1: "(nb1, ff1) = (if nu = 0 then seek_block bs i nb ff else (nb, ff))"
      by (metis surj_pair)
    show ?thesis
    proof (cases "nu = 0 \<and> length bs \<le> nb1")
      case True
      then show ?thesis using False nb1 [symmetric] by (simp add: Let_def)
    next
      case some: False
      note fnd = find_block [OF Cons.prems(1) nb1 some]
      have len: "nb1 < length ff1" "nb1 < length first_pack" "nb1 < length bs"
        using fnd(1,2) Cons.prems(2) by (simp_all add: in_file_loop_def)
      define nbu where "nbu = (if num_unpack_sub_streams (bs ! nb1) \<le> nu + 1 then (nb1 + 1, 0) else (nb1, nu + 1))"
      obtain nb' nu' where n: "nbu = (nb', nu')" by (cases nbu)
      note aft = after_file [OF fnd(1,2,3) n [symmetric, unfolded nbu_def]]
      note IHs = Cons.IH [OF fnd(1) Cons.prems(2), of "i + 1"] Cons.IH [OF aft(1) Cons.prems(2), of "i + 1"]
      show ?thesis using False some nb1 [symmetric] n len IHs unfolding nbu_def
        by (auto simp: Let_def ebind_def nth_or_panic_def split: sum.splits option.splits if_splits)
    qed
  qed
qed simp

lemma check_file_spans_no_panic:
  "length bs \<le> length starts \<Longrightarrow> check_file_spans nf bs starts \<noteq> Inl Panic"
proof (induction nf bs starts rule: check_file_spans.induct)
  case (3 nf b bs start starts)
  then show ?case by (auto split: option.splits)
qed auto

lemma sums_no_panic:
  "first_pack_streams np bs acc \<noteq> Inl Panic"
  "first_sub_streams bs acc \<noteq> Inl Panic"
  "stream_offsets ns off \<noteq> Inl Panic"
proof -
  show "first_pack_streams np bs acc \<noteq> Inl Panic"
    by (induction bs arbitrary: acc) (auto simp: ebind_def split: option.splits sum.splits)
  show "first_sub_streams bs acc \<noteq> Inl Panic"
    by (induction bs arbitrary: acc) (auto simp: ebind_def split: option.splits sum.splits)
  show "stream_offsets ns off \<noteq> Inl Panic"
    by (induction ns arbitrary: off) (auto simp: ebind_def split: option.splits sum.splits)
qed

lemma start_in_file_loop: "in_file_loop bs 0 0 (replicate (length bs) 0)"
  by (simp add: in_file_loop_def)

lemma calculate_stream_map_parts:
  assumes "calculate_stream_map a = Inr a'"
  obtains first_pack first_sub offsets first_file file_block files' where
    "first_pack_streams (length (pack_sizes a)) (blocks a) 0 = Inr first_pack"
    "first_sub_streams (blocks a) 0 = Inr first_sub"
    "stream_offsets (pack_sizes a) 0 = Inr offsets"
    "assign_blocks (blocks a) (pack_sizes a) first_pack (files a) 0 0 0 (replicate (length (blocks a)) 0)
      = Inr (first_file, file_block, files')"
    "check_file_spans (length files') (blocks a) first_file = Inr ()"
    "a' = a\<lparr>files := files',
       stream_map_of := \<lparr>block_first_pack_stream_index = first_pack, pack_stream_offsets = offsets,
         block_first_sub_stream_index = first_sub, block_first_file_index = first_file,
         file_block_index = file_block\<rparr>\<rparr>"
  using assms unfolding calculate_stream_map_def by (auto split: prod.splits)

lemma calculate_stream_map_no_panic: "calculate_stream_map a \<noteq> Inl Panic"
proof -
  have "check_file_spans n (blocks a) ff \<noteq> Inl Panic"
    if "assign_blocks (blocks a) (pack_sizes a) fp (files a) 0 0 0 (replicate (length (blocks a)) 0) = Inr (ff, fb, fs)"
    for n fp ff fb fs
    using assign_blocks_Inr [OF that start_in_file_loop]
    by (intro check_file_spans_no_panic) (simp add: files_placed_def)
  moreover have "assign_blocks (blocks a) (pack_sizes a) fp (files a) 0 0 0 (replicate (length (blocks a)) 0) \<noteq> Inl Panic"
    if "first_pack_streams (length (pack_sizes a)) (blocks a) 0 = Inr fp" for fp
    using first_pack_streams_Inr [OF that] by (intro assign_blocks_no_panic start_in_file_loop) simp
  ultimately show ?thesis
    by (auto simp: calculate_stream_map_def ebind_def sums_no_panic split: sum.splits)
qed

text \<open>
  C19: a stream map stays inside the archive.  When the map is built, every block's packed
  streams are a range of the archive's pack streams starting where the previous block's ended,
  its sub-streams are numbered consecutively, every pack stream starts where the previous one
  ended with no wrap-around, and its files are a range of the archive's entries; building the
  map never panics.
\<close>

theorem stream_map_in_range:
  "calculate_stream_map a \<noteq> Inl Panic
    \<and> (\<forall>a' m. calculate_stream_map a = Inr a' \<and> m = stream_map_of a' \<longrightarrow>
      length (file_block_index m) = length (files a) \<and> length (files a') = length (files a)
      \<and> (\<forall>k<length (blocks a).
          block_first_pack_stream_index m ! k = sum_list (map (length \<circ> packed_streams) (take k (blocks a)))
          \<and> block_first_pack_stream_index m ! k + length (packed_streams (blocks a ! k)) \<le> length (pack_sizes a)
          \<and> block_first_sub_stream_index m ! k = sum_list (map num_unpack_sub_streams (take k (blocks a)))
          \<and> block_first_file_index m ! k + num_unpack_sub_streams (blocks a ! k) \<le> length (files a))
      \<and> (\<forall>k<length (pack_sizes a).
          unat (pack_stream_offsets m ! k) = sum_list (map unat (take k (pack_sizes a)))
          \<and> unat (pack_stream_offsets m ! k) + unat (pack_sizes a ! k) < 2 ^ 64))"
proof (intro conjI allI impI calculate_stream_map_no_panic; elim conjE)
  fix a' m assume c: "calculate_stream_map a = Inr a'" and m: "m = stream_map_of a'"
  from c obtain first_pack first_sub offsets first_file file_block files' where
    p: "first_pack_streams (length (pack_sizes a)) (blocks a) 0 = Inr first_pack"
    and s: "first_sub_streams (blocks a) 0 = Inr first_sub"
    and o: "stream_offsets (pack_sizes a) 0 = Inr offsets"
    and f: "assign_blocks (blocks a) (pack_sizes a) first_pack (files a) 0 0 0 (replicate (length (blocks a)) 0)
      = Inr (first_file, file_block, files')"
    and sp: "check_file_spans (length files') (blocks a) first_file = Inr ()"
    and a': "a' = a\<lparr>files := files',
       stream_map_of := \<lparr>block_first_pack_stream_index = first_pack, pack_stream_offsets = offsets,
         block_first_sub_stream_index = first_sub, block_first_file_index = first_file,
         file_block_index = file_block\<rparr>\<rparr>"
    by (rule calculate_stream_map_parts)
  have fl: "files_placed (blocks a) (files a) 0 0 0 (replicate (length (blocks a)) 0) first_file file_block files'"
    by (rule assign_blocks_Inr [OF f start_in_file_loop])
  then have "length files' = length (files a)"
    unfolding files_placed_def by (metis length_map)
  then show "length (file_block_index m) = length (files a)" "length (files a') = length (files a)"
    "\<And>k. k < length (blocks a) \<Longrightarrow>
      block_first_pack_stream_index m ! k = sum_list (map (length \<circ> packed_streams) (take k (blocks a)))"
    "\<And>k. k < length (blocks a) \<Longrightarrow>
      block_first_pack_stream_index m ! k + length (packed_streams (blocks a ! k)) \<le> length (pack_sizes a)"
    "\<And>k. k < length (blocks a) \<Longrightarrow>
      block_first_sub_stream_index m ! k = sum_list (map num_unpack_sub_streams (take k (blocks a)))"
    "\<And>k. k < length (blocks a) \<Longrightarrow>
      block_first_file_index m ! k + num_unpack_sub_streams (blocks a ! k) \<le> length (files a)"
    "\<And>k. k < length (pack_sizes a) \<Longrightarrow>
      unat (pack_stream_offsets m ! k) = sum_list (map unat (take k (pack_sizes a)))"
    "\<And>k. k < length (pack_sizes a) \<Longrightarrow>
      unat (pack_stream_offsets m ! k) + unat (pack_sizes a ! k) < 2 ^ 64"
    using first_pack_streams_Inr [OF p] first_sub_streams_Inr [OF s] stream_offsets_Inr [OF o]
      check_file_spans_Inr [OF sp] fl
    by (auto simp: m a' packs_before_def subs_before_def files_placed_def)
qed

section \<open>When the map is built\<close>

lemma seek_block_range:
  assumes "seek_block bs i nb ff = (nb', ff')"
  shows "set ff' \<subseteq> insert i (set ff)"
    and "subs_before bs nb < subs_before bs (length bs) \<Longrightarrow> nb' < length bs"
  using assms
proof (induction bs i nb ff arbitrary: nb' ff' rule: seek_block.induct)
  case (1 bs i nb ff)
  { case 1
    show ?case
    proof (cases "nb < length bs \<and> num_unpack_sub_streams (bs ! nb) = 0")
      case True
      then show ?thesis using "1.IH"(1) [of "ff[nb := i]" nb' ff'] 1 set_update_subset_insert [of ff nb i]
        by (auto simp: seek_block.simps [of bs i nb ff] Let_def)
    next
      case False
      then show ?thesis using 1 set_update_subset_insert [of ff nb i]
        by (auto simp: seek_block.simps [of bs i nb ff] Let_def split: if_splits)
    qed
  next
    case 2
    show ?case
    proof (cases "nb < length bs \<and> num_unpack_sub_streams (bs ! nb) = 0")
      case True
      then show ?thesis using "1.IH"(2) [of "ff[nb := i]" nb' ff'] 2 subs_before_Suc [of nb bs]
        by (simp add: seek_block.simps [of bs i nb ff] Let_def)
    next
      case False
      then show ?thesis using 2 by (auto simp: seek_block.simps [of bs i nb ff] Let_def subs_before_def split: if_splits)
    qed
  }
qed

lemma assign_blocks_ok:
  assumes "in_file_loop bs nb nu ff" "\<forall>k<length bs. \<exists>p. nth_option first_pack k = Some p \<and> p < length sizes"
    and "subs_before bs nb + nu + length (filter has_stream fs) = subs_before bs (length bs)"
    and "set ff \<subseteq> {..n}" "i + length fs \<le> n"
  shows "\<exists>ff' fb fs'. assign_blocks bs sizes first_pack fs i nb nu ff = Inr (ff', fb, fs') \<and> set ff' \<subseteq> {..n}"
  using assms(1,3-)
proof (induction fs arbitrary: i nb nu ff)
  case (Cons f fs)
  show ?case
  proof (cases "\<not> has_stream f \<and> nu = 0")
    case True
    then show ?thesis using Cons.IH [OF Cons.prems(1), of "i + 1"] Cons.prems(2-) by auto
  next
    case False
    obtain nb1 ff1 where nb1: "(nb1, ff1) = (if nu = 0 then seek_block bs i nb ff else (nb, ff))" by (metis surj_pair)
    have some: "\<not> (nu = 0 \<and> length bs \<le> nb1)"
    proof
      assume "nu = 0 \<and> length bs \<le> nb1"
      then show False using False nb1 [symmetric] Cons.prems(2) seek_block_range(2) [of bs i nb ff nb1 ff1] by simp
    qed
    note fnd = find_block [OF Cons.prems(1) nb1 some]
    have ff1: "set ff1 \<subseteq> {..n}"
      using nb1 [symmetric] Cons.prems(3,4) seek_block_range(1) [of bs i nb ff nb1 ff1] by (auto split: if_splits)
    have len: "nb1 < length ff1" using fnd(1,2) by (simp add: in_file_loop_def)
    obtain p where p: "nth_option first_pack nb1 = Some p" "p < length sizes" using assms(2) fnd(2) by blast
    show ?thesis
    proof (cases "has_stream f")
      case nostream: False
      then show ?thesis
        using Cons.IH [OF fnd(1) _ ff1, of "i + 1"] Cons.prems(2,4) False some nb1 [symmetric] fnd(5) by (auto simp: Let_def)
    next
      case True
      define nbu where "nbu = (if num_unpack_sub_streams (bs ! nb1) \<le> nu + 1 then (nb1 + 1, 0) else (nb1, nu + 1))"
      obtain nb' nu' where n: "nbu = (nb', nu')" by (cases nbu)
      note aft = after_file [OF fnd(1,2,3) n [symmetric, unfolded nbu_def]]
      obtain ff' fb fs' where r: "assign_blocks bs sizes first_pack fs (i + 1) nb' nu' ff1 = Inr (ff', fb, fs')" "set ff' \<subseteq> {..n}"
        using Cons.IH [OF aft(1) _ ff1, of "i + 1"] Cons.prems(2,4) True aft(2) fnd(5) by auto
      have pick: "nth_or_panic first_pack nb1 = Inr p" "nth_option sizes p = Some (sizes ! p)"
        "nth_or_panic ff1 nb1 = Inr (ff1 ! nb1)" "nth_or_panic bs nb1 = Inr (bs ! nb1)"
        using p len fnd(2) by (auto simp: nth_or_panic_def nth_option_def split: if_splits)
      show ?thesis using True some r(2) by (simp add: Let_def nb1 [symmetric] pick n [unfolded nbu_def, simplified] r(1) [simplified])
    qed
  qed
qed simp

lemma sums_built:
  "list_all (\<lambda>b. length (packed_streams b) = 1) bs \<Longrightarrow> acc + length bs \<le> np \<Longrightarrow> np \<le> usize_max
    \<Longrightarrow> first_pack_streams np bs acc = Inr [acc..<acc + length bs]"
  "acc + sum_list (map num_unpack_sub_streams bs) \<le> usize_max \<Longrightarrow> \<exists>xs. first_sub_streams bs acc = Inr xs"
  "unat off + sum_list (map unat ns) < 2 ^ 64 \<Longrightarrow> \<exists>xs. stream_offsets ns off = Inr xs"
proof -
  show "list_all (\<lambda>b. length (packed_streams b) = 1) bs \<Longrightarrow> acc + length bs \<le> np \<Longrightarrow> np \<le> usize_max
      \<Longrightarrow> first_pack_streams np bs acc = Inr [acc..<acc + length bs]"
    by (induction bs arbitrary: acc) (simp_all add: checked_add_usize_def upt_conv_Cons del: upt_Suc)
  show "acc + sum_list (map num_unpack_sub_streams bs) \<le> usize_max \<Longrightarrow> \<exists>xs. first_sub_streams bs acc = Inr xs"
  proof (induction bs arbitrary: acc)
    case (Cons b bs)
    then have "acc + num_unpack_sub_streams b + sum_list (map num_unpack_sub_streams bs) \<le> usize_max" by (simp add: add.assoc)
    from Cons.IH [OF this] obtain xs where "first_sub_streams bs (acc + num_unpack_sub_streams b) = Inr xs" by blast
    then show ?case using Cons.prems by (simp add: checked_add_usize_def)
  qed simp
  show "unat off + sum_list (map unat ns) < 2 ^ 64 \<Longrightarrow> \<exists>xs. stream_offsets ns off = Inr xs"
  proof (induction ns arbitrary: off)
    case (Cons n ns)
    then have "unat off + unat n < 2 ^ 64" by simp
    then have "checked_add off n = Some (off + n)" "unat (off + n) = unat off + unat n"
      by (simp_all add: checked_add_def unat_word_ariths)
    then show ?case using Cons.IH [of "off + n"] Cons.prems by auto
  qed simp
qed

lemma check_file_spans_built:
  "length starts = length bs \<Longrightarrow> \<forall>k<length bs. starts ! k + num_unpack_sub_streams (bs ! k) \<le> nf \<Longrightarrow> nf \<le> usize_max
    \<Longrightarrow> check_file_spans nf bs starts = Inr ()"
proof (induction nf bs starts rule: check_file_spans.induct)
  case (3 nf b bs start starts)
  have "start + num_unpack_sub_streams b \<le> nf" using "3.prems"(2) by force
  moreover have "\<forall>k<length bs. starts ! k + num_unpack_sub_streams (bs ! k) \<le> nf" using "3.prems"(2) by force
  ultimately show ?case using 3 by (simp add: checked_add_usize_def)
qed simp_all

lemma streamed_index:
  "k < length (filter has_stream fs) \<Longrightarrow> \<exists>j<length fs. has_stream (fs ! j) \<and> streamed_before fs j = k"
proof (induction fs arbitrary: k)
  case (Cons f fs)
  show ?case
  proof (cases "has_stream f \<and> k = 0")
    case True
    then show ?thesis by (intro exI [of _ 0]) simp
  next
    case False
    define k' where "k' = (if has_stream f then k - 1 else k)"
    have "k' < length (filter has_stream fs)" using Cons.prems False by (auto simp: k'_def)
    then obtain j where "j < length fs" "has_stream (fs ! j)" "streamed_before fs j = k'" using Cons.IH by blast
    then show ?thesis using False by (intro exI [of _ "Suc j"]) (auto simp: k'_def)
  qed
qed simp

lemma streamed_from: "length (filter has_stream fs) \<le> streamed_before fs j + (length fs - j)"
proof -
  have "length (filter has_stream fs) = streamed_before fs j + length (filter has_stream (drop j fs))"
    unfolding streamed_before_def by (metis append_take_drop_id filter_append length_append)
  then show ?thesis by (simp add: length_filter_le [of has_stream "drop j fs", simplified])
qed

lemma subs_before_mono: "k < length bs \<Longrightarrow> subs_before bs k + num_unpack_sub_streams (bs ! k) \<le> subs_before bs (length bs)"
proof -
  assume "k < length bs"
  then have "take (Suc k) bs @ drop (Suc k) bs = bs" "subs_before bs k + num_unpack_sub_streams (bs ! k) = subs_before bs (Suc k)"
    by (simp_all add: subs_before_Suc)
  then show ?thesis unfolding subs_before_def by (metis le_add1 map_append order_refl sum_list_append take_all)
qed

text \<open>
  An archive whose blocks have one pack stream each, and whose streamed files are exactly the
  sub-streams of its blocks, gets its map.
\<close>

lemma calculate_stream_map_built:
  assumes "list_all (\<lambda>b. length (packed_streams b) = 1) (blocks a)" "length (blocks a) = length (pack_sizes a)"
    and "sum_list (map unat (pack_sizes a)) < 2 ^ 64" "length (pack_sizes a) \<le> usize_max" "length (files a) \<le> usize_max"
    and total: "sum_list (map num_unpack_sub_streams (blocks a)) = length (filter has_stream (files a))"
  shows "\<exists>a'. calculate_stream_map a = Inr a'"
proof -
  define bs fs where "bs = blocks a" and "fs = files a"
  have all: "subs_before bs (length bs) = length (filter has_stream fs)" "subs_before bs 0 = 0"
    using total by (simp_all add: subs_before_def bs_def fs_def)
  have few: "length (filter has_stream fs) \<le> length fs" by simp
  obtain first_sub where s: "first_sub_streams bs 0 = Inr first_sub"
    using sums_built(2) [of 0 bs] total le_trans [OF few assms(5) [folded fs_def]] by (auto simp: bs_def fs_def)
  obtain offsets where o: "stream_offsets (pack_sizes a) 0 = Inr offsets" using sums_built(3) [of 0] assms(3) by auto
  have p: "first_pack_streams (length (pack_sizes a)) bs 0 = Inr [0..<length bs]"
    using sums_built(1) [of bs 0 "length (pack_sizes a)"] assms(1,2,4) by (simp add: bs_def)
  have "\<exists>ff' fb fs'. assign_blocks bs (pack_sizes a) [0..<length bs] fs 0 0 0 (replicate (length bs) 0) = Inr (ff', fb, fs')
      \<and> set ff' \<subseteq> {..length fs}"
    by (rule assign_blocks_ok) (use all assms(2) in \<open>auto simp: start_in_file_loop nth_option_def bs_def [symmetric] in_file_loop_def\<close>)
  then obtain ff fb fs' where f: "assign_blocks bs (pack_sizes a) [0..<length bs] fs 0 0 0 (replicate (length bs) 0) = Inr (ff, fb, fs')"
    and ff: "set ff \<subseteq> {..length fs}" by blast
  note placed = assign_blocks_Inr [OF f start_in_file_loop]
  have len: "length ff = length bs" "length fs' = length fs"
    using placed unfolding files_placed_def by (simp, metis length_map)
  have "ff ! k + num_unpack_sub_streams (bs ! k) \<le> length fs" if "k < length bs" for k
  proof (cases "num_unpack_sub_streams (bs ! k) = 0")
    case True
    then show ?thesis using that subsetD [OF ff nth_mem, of k] by (simp add: len(1))
  next
    case False
    then have "subs_before bs k < length (filter has_stream fs)" using subs_before_mono [OF that] all by simp
    from streamed_index [OF this] obtain j where j: "j < length fs" "has_stream (fs ! j)" "streamed_before fs j = subs_before bs k" by blast
    have "file_placed bs (subs_before bs k) j ff (fb ! j)"
      using placed j all(2) unfolding files_placed_def by auto
    then obtain b where b: "b < length bs" "subs_before bs b \<le> subs_before bs k" "subs_before bs k < subs_before bs b + num_unpack_sub_streams (bs ! b)"
      "subs_before bs k = subs_before bs b \<longrightarrow> ff ! b = j" unfolding file_placed_def by blast
    have mono: "subs_before bs (Suc x) \<le> subs_before bs y" if "x < y" "y \<le> length bs" for x y
    proof -
      have "take y bs = take (Suc x) bs @ drop (Suc x) (take y bs)"
        using that by (metis Suc_leI append_take_drop_id min.absorb1 take_take)
      then show ?thesis unfolding subs_before_def by (metis le_add1 map_append sum_list_append)
    qed
    have "b = k"
      using b(1-3) False mono [of b k] mono [of k b] that by (cases b k rule: linorder_cases) (auto simp: subs_before_Suc)
    then have "ff ! k = j" using b(4) by simp
    moreover have "subs_before bs k + num_unpack_sub_streams (bs ! k) \<le> length (filter has_stream fs)"
      using subs_before_mono [OF that] all by simp
    ultimately show ?thesis using streamed_from [of fs j] j by simp
  qed
  then have "check_file_spans (length fs') bs ff = Inr ()"
    using len assms(5) by (intro check_file_spans_built) (simp_all add: fs_def)
  then show ?thesis
    using s o p f by (simp add: calculate_stream_map_def bs_def fs_def)
qed

text \<open>A small archive: a block of two files with a directory between them.\<close>

definition small_archive :: archive where
  "small_archive = default_archive\<lparr>pack_sizes := [10],
     blocks := [default_block\<lparr>packed_streams := [0], num_unpack_sub_streams := 2\<rparr>],
     files := [new_file [0x61], new_directory [0x64], new_file [0x62]]\<rparr>"

lemma small_archive_map:
  "\<exists>a'. calculate_stream_map small_archive = Inr a'
    \<and> block_first_file_index (stream_map_of a') = [0] \<and> file_block_index (stream_map_of a') = [Some 0, Some 0, Some 0]"
  by (simp add: calculate_stream_map_def small_archive_def default_archive_def default_block_def new_file_def
      new_directory_def default_entry_def checked_add_usize_def usize_max_def checked_add_def
      seek_block.simps nth_or_panic_def nth_option_def Let_def)

theorem stream_map_in_range_witness:
  "\<exists>a'. calculate_stream_map small_archive = Inr a' \<and> length (file_block_index (stream_map_of a')) = 3"
proof -
  obtain a' where "calculate_stream_map small_archive = Inr a'" using small_archive_map by blast
  then show ?thesis using stream_map_in_range [of small_archive] by (auto simp: small_archive_def)
qed

text \<open>
  C18: every streamed file is placed in the block that holds it.  Counting the files that have a
  stream, number \<open>k\<close> is assigned the block whose run of sub-streams contains \<open>k\<close>, across empty
  files, directories and blocks without sub-streams; the first file of that run is the block's
  first file; and apart from the compressed size no entry is changed.
\<close>

theorem streamed_files_find_their_block:
  assumes "calculate_stream_map a = Inr a'"
    and "i < length (files a)" "has_stream (files a ! i)"
  shows "(\<exists>b<length (blocks a). file_block_index (stream_map_of a') ! i = Some b
      \<and> subs_before (blocks a) b \<le> streamed_before (files a) i
      \<and> streamed_before (files a) i < subs_before (blocks a) b + num_unpack_sub_streams (blocks a ! b)
      \<and> (streamed_before (files a) i = subs_before (blocks a) b \<longrightarrow>
          block_first_file_index (stream_map_of a') ! b = i))
    \<and> map (\<lambda>f. f\<lparr>compressed_size := 0\<rparr>) (files a') = map (\<lambda>f. f\<lparr>compressed_size := 0\<rparr>) (files a)"
proof -
  from assms(1) obtain first_pack first_sub offsets first_file file_block files' where
    f: "assign_blocks (blocks a) (pack_sizes a) first_pack (files a) 0 0 0 (replicate (length (blocks a)) 0)
      = Inr (first_file, file_block, files')"
    and a': "a' = a\<lparr>files := files',
       stream_map_of := \<lparr>block_first_pack_stream_index = first_pack, pack_stream_offsets = offsets,
         block_first_sub_stream_index = first_sub, block_first_file_index = first_file,
         file_block_index = file_block\<rparr>\<rparr>"
    by (rule calculate_stream_map_parts)
  have "subs_before (blocks a) 0 = 0" by (simp add: subs_before_def)
  then show ?thesis
    using assign_blocks_Inr [OF f start_in_file_loop] assms(2,3)
    by (simp add: files_placed_def file_placed_def a')
qed

theorem streamed_files_find_their_block_witness:
  "\<exists>a'. calculate_stream_map small_archive = Inr a' \<and> file_block_index (stream_map_of a') ! 2 = Some 0"
proof -
  obtain a' where c: "calculate_stream_map small_archive = Inr a'" using small_archive_map by blast
  have "2 < length (files small_archive)" "has_stream (files small_archive ! 2)"
    "length (blocks small_archive) = 1" by (simp_all add: small_archive_def new_file_def)
  then show ?thesis using streamed_files_find_their_block [OF c, of 2] c by auto
qed

text \<open>
  A block whose sub-streams the entries never reach keeps 0 as its first file, so entry 0 is
  claimed by two blocks.
\<close>

lemma unreached_block_claims_entry_zero:
  "\<exists>a'. calculate_stream_map (default_archive\<lparr>pack_sizes := [1, 1],
      blocks := [default_block\<lparr>packed_streams := [0], num_unpack_sub_streams := 1\<rparr>,
                 default_block\<lparr>packed_streams := [0], num_unpack_sub_streams := 1\<rparr>],
      files := [new_file [0x61]]\<rparr>) = Inr a'
    \<and> block_first_file_index (stream_map_of a') = [0, 0] \<and> file_block_index (stream_map_of a') = [Some 0]"
  by (simp add: calculate_stream_map_def default_archive_def default_block_def new_file_def
      default_entry_def checked_add_usize_def usize_max_def checked_add_def
      seek_block.simps nth_or_panic_def nth_option_def Let_def)

end
