(* ===== verification/Header_Reader.thy ===== *)
theory Header_Reader
  imports Stream_Map
begin

text \<open>
  The header parser of \<open>src/reader.rs\<close>: \<open>read_header\<close> and the \<open>read_*_info\<close> functions it is
  made of.  The archive under construction is passed and returned; a \<open>Cursor\<close> that seeks past
  its end reads as an empty rest.  Vectors that are allocated and then filled in index order
  are built in that order.
\<close>

section \<open>Pack info\<close>

text \<open>The loops that read a CRC for every index a bit set contains, 0 for the others.\<close>

definition read_defined_crcs :: "bit_set \<Rightarrow> nat \<Rightarrow> u64 list parser" where
  "read_defined_crcs defined n =
     pmap (\<lambda>i. if bitset_contains defined i then pbind read_u32 (\<lambda>c. preturn (ucast c)) else preturn 0) [0..<n]"

definition read_pack_info :: "header_bounds \<Rightarrow> archive \<Rightarrow> archive parser" where
  "read_pack_info hb a =
     pbind read_variable_u64 (\<lambda>pos.
     pbind read_variable_u64 (\<lambda>v.
     pbind (plift (bounds_count hb v Entries)) (\<lambda>n.
     pbind read_u8 (\<lambda>nid.
     pbind (if nid = K_SIZE
            then pbind (preplicate n read_variable_u64) (\<lambda>s. pbind read_u8 (\<lambda>nid. preturn (s, nid)))
            else preturn (pack_sizes a, nid)) (\<lambda>(sizes, nid).
     pbind (if nid = K_CRC
            then pbind (read_all_or_bits n) (\<lambda>defined.
                 pbind (read_defined_crcs defined n) (\<lambda>cs.
                 pbind read_u8 (\<lambda>nid. preturn (defined, cs, nid))))
            else preturn (pack_crcs_defined a, pack_crcs a, nid)) (\<lambda>(defined, cs, nid).
     pbind (pensure (BadTerminatedPackInfo nid) (nid = K_END)) (\<lambda>_.
     preturn (a\<lparr>pack_pos := pos, pack_sizes := sizes, pack_crcs_defined := defined, pack_crcs := cs\<rparr>))))))))"

section \<open>Unpack info\<close>

fun read_blocks :: "header_bounds \<Rightarrow> nat \<Rightarrow> u64 \<Rightarrow> block list parser" where
  "read_blocks hb 0 total_coders = preturn []"
| "read_blocks hb (Suc n) total_coders =
     pbind (read_block hb) (\<lambda>b.
     let total_coders' = saturating_add total_coders (of_nat (length (coders b))) in
     pbind (pensure (LimitExceeded TotalCoders (max_total_coders (hb_limits hb)) total_coders')
              (\<not> max_total_coders (hb_limits hb) < total_coders')) (\<lambda>_.
     pbind (read_blocks hb n total_coders') (\<lambda>bs. preturn (b # bs))))"

definition read_unpack_sizes :: "block \<Rightarrow> block parser" where
  "read_unpack_sizes b =
     pbind (preplicate (total_output_streams b) read_variable_u64) (\<lambda>sizes.
     preturn (b\<lparr>block_unpack_sizes := block_unpack_sizes b @ sizes\<rparr>))"

definition read_block_crc :: "bit_set \<Rightarrow> nat \<Rightarrow> nat \<times> block \<Rightarrow> block parser" where
  "read_block_crc defined num_blocks ib =
     (let (i, b) = ib in
      if num_blocks \<le> i then preturn b
      else if bitset_contains defined i
      then pbind read_u32 (\<lambda>c. preturn (b\<lparr>block_has_crc := True, block_crc := ucast c\<rparr>))
      else preturn (b\<lparr>block_has_crc := False\<rparr>))"

definition read_unpack_info :: "header_bounds \<Rightarrow> archive \<Rightarrow> archive parser" where
  "read_unpack_info hb a =
     pbind read_u8 (\<lambda>nid.
     pbind (pensure (Other (''Expected kFolder, got '' @ decimal (unat nid))) (nid = K_FOLDER)) (\<lambda>_.
     pbind read_variable_u64 (\<lambda>v.
     pbind (plift (bounds_count hb v Entries)) (\<lambda>num_blocks.
     pbind read_u8 (\<lambda>external.
     pbind (pensure ExternalUnsupported (external = 0)) (\<lambda>_.
     pbind (read_blocks hb num_blocks 0) (\<lambda>bs.
     pbind read_u8 (\<lambda>nid.
     pbind (pensure (Other (''Expected kCodersUnpackSize, got '' @ decimal (unat nid))) (nid = K_CODERS_UNPACK_SIZE)) (\<lambda>_.
     pbind (pmap read_unpack_sizes (blocks a @ bs)) (\<lambda>bs.
     pbind read_u8 (\<lambda>nid.
     pbind (if nid = K_CRC
            then pbind (read_all_or_bits num_blocks) (\<lambda>defined.
                 pbind (pmap (read_block_crc defined num_blocks) (zip [0..<length bs] bs)) (\<lambda>bs.
                 pbind read_u8 (\<lambda>nid. preturn (bs, nid))))
            else preturn (bs, nid)) (\<lambda>(bs, nid).
     pbind (pensure BadTerminatedUnpackInfo (nid = K_END)) (\<lambda>_.
     preturn (a\<lparr>blocks := bs\<rparr>))))))))))))))"

section \<open>Sub-streams info\<close>

fun read_stream_counts :: "header_bounds \<Rightarrow> block list \<Rightarrow> nat \<Rightarrow> (block list \<times> nat) parser" where
  "read_stream_counts hb [] so_far = preturn ([], so_far)"
| "read_stream_counts hb (b # bs) so_far =
     pbind read_variable_u64 (\<lambda>v.
     pbind (plift (bounds_count hb v Entries)) (\<lambda>n.
     pbind (plift (bounds_add_count hb so_far n)) (\<lambda>so_far'.
     pbind (read_stream_counts hb bs so_far') (\<lambda>(bs', t).
     preturn (b\<lparr>num_unpack_sub_streams := n\<rparr> # bs', t)))))"

fun read_sized_streams :: "nat \<Rightarrow> u64 \<Rightarrow> (u64 list \<times> u64) parser" where
  "read_sized_streams 0 acc = preturn ([], acc)"
| "read_sized_streams (Suc n) acc =
     pbind read_variable_u64 (\<lambda>size.
     pbind (plift (case checked_add acc size of
                     None \<Rightarrow> Inl (Other ''sub-stream size sum overflow'')
                   | Some s \<Rightarrow> Inr s)) (\<lambda>acc'.
     pbind (read_sized_streams n acc') (\<lambda>(sizes, t). preturn (size # sizes, t))))"

text \<open>
  The sizes the code writes to \<open>unpack_sizes\<close>, in index order: without \<open>K_SIZE\<close> only one per
  block is written.
\<close>

fun read_stream_sizes :: "u8 \<Rightarrow> block list \<Rightarrow> u64 list parser" where
  "read_stream_sizes nid [] = preturn []"
| "read_stream_sizes nid (b # bs) =
     (if num_unpack_sub_streams b = 0 then read_stream_sizes nid bs
      else pbind (if nid = K_SIZE then read_sized_streams (num_unpack_sub_streams b - 1) 0 else preturn ([], 0)) (\<lambda>(sizes, acc).
           pbind (plift (unpack_size_or_panic b)) (\<lambda>unpack.
           pbind (pensure (Other ''sum of unpack sizes of block exceeds total unpack size'') (\<not> unpack < acc)) (\<lambda>_.
           pbind (read_stream_sizes nid bs) (\<lambda>rest.
           preturn (sizes @ [unpack - acc] @ rest))))))"

fun count_digests :: "nat \<Rightarrow> block list \<Rightarrow> nat \<Rightarrow> nat result" where
  "count_digests total_streams [] so_far = Inr so_far"
| "count_digests total_streams (b # bs) so_far =
     (if num_unpack_sub_streams b \<noteq> 1 \<or> \<not> block_has_crc b
      then case checked_add_usize so_far (num_unpack_sub_streams b) of
          None \<Rightarrow> Inl (Other ''sub-stream digest count out of range'')
        | Some t \<Rightarrow> if t \<le> total_streams then count_digests total_streams bs t
                    else Inl (Other ''sub-stream digest count out of range'')
      else count_digests total_streams bs so_far)"

text \<open>The state of the loop that hands the CRCs out.\<close>

record crc_state =
  cs_has_crc :: bit_set
  cs_crcs :: "u64 list"
  cs_next_crc :: nat
  cs_next_missing :: nat

fun take_missing_crcs :: "bit_set \<Rightarrow> u64 list \<Rightarrow> nat \<Rightarrow> crc_state \<Rightarrow> crc_state result" where
  "take_missing_crcs has_missing missing 0 st = Inr st"
| "take_missing_crcs has_missing missing (Suc n) st =
     (let has_crc' = snd (if bitset_contains has_missing (cs_next_missing st)
                          then bitset_insert (cs_next_crc st) (cs_has_crc st)
                          else bitset_remove (cs_next_crc st) (cs_has_crc st))
      in ebind (nth_or_panic missing (cs_next_missing st)) (\<lambda>c.
         ebind (set_or_panic (cs_crcs st) (cs_next_crc st) c) (\<lambda>crcs'.
         take_missing_crcs has_missing missing n
           \<lparr>cs_has_crc = has_crc', cs_crcs = crcs', cs_next_crc = cs_next_crc st + 1,
            cs_next_missing = cs_next_missing st + 1\<rparr>)))"

fun assign_crcs :: "bit_set \<Rightarrow> u64 list \<Rightarrow> block list \<Rightarrow> crc_state \<Rightarrow> crc_state result" where
  "assign_crcs has_missing missing [] st = Inr st"
| "assign_crcs has_missing missing (b # bs) st =
     (if num_unpack_sub_streams b = 1 \<and> block_has_crc b
      then ebind (set_or_panic (cs_crcs st) (cs_next_crc st) (block_crc b)) (\<lambda>crcs'.
           assign_crcs has_missing missing bs
             (st\<lparr>cs_has_crc := snd (bitset_insert (cs_next_crc st) (cs_has_crc st)), cs_crcs := crcs',
                 cs_next_crc := cs_next_crc st + 1\<rparr>))
      else ebind (take_missing_crcs has_missing missing (num_unpack_sub_streams b) st)
             (assign_crcs has_missing missing bs))"

definition read_sub_streams_info :: "header_bounds \<Rightarrow> archive \<Rightarrow> archive parser" where
  "read_sub_streams_info hb a =
     (let bs = map (\<lambda>b. b\<lparr>num_unpack_sub_streams := 1\<rparr>) (blocks a) in
     pbind read_u8 (\<lambda>nid.
     pbind (if nid = K_NUM_UNPACK_STREAM
            then pbind (read_stream_counts hb bs 0) (\<lambda>(bs, t). pbind read_u8 (\<lambda>nid. preturn (bs, t, nid)))
            else preturn (bs, length bs, nid)) (\<lambda>(bs, total_streams, nid).
     pbind (read_stream_sizes nid bs) (\<lambda>sizes.
     pbind (pensure Panic (length sizes \<le> total_streams)) (\<lambda>_.
     let unpack_sizes = sizes @ replicate (total_streams - length sizes) 0 in
     pbind (if nid = K_SIZE then read_u8 else preturn nid) (\<lambda>nid.
     pbind (plift (count_digests total_streams bs 0)) (\<lambda>num_digests.
     let st = \<lparr>cs_has_crc = bitset_reserve_len_exact total_streams bitset_new,
               cs_crcs = replicate total_streams 0, cs_next_crc = 0, cs_next_missing = 0\<rparr> in
     pbind (if nid = K_CRC
            then pbind (read_all_or_bits num_digests) (\<lambda>has_missing.
                 pbind (read_defined_crcs has_missing num_digests) (\<lambda>missing.
                 pbind (plift (assign_crcs has_missing missing bs st)) (\<lambda>st.
                 pbind read_u8 (\<lambda>nid. preturn (st, nid)))))
            else preturn (st, nid)) (\<lambda>(st, nid).
     pbind (pensure BadTerminatedSubStreamsInfo (nid = K_END)) (\<lambda>_.
     preturn (a\<lparr>blocks := bs,
       sub_streams := Some \<lparr>unpack_sizes = unpack_sizes, has_crc = cs_has_crc st, crcs = cs_crcs st\<rparr>\<rparr>))))))))))"

section \<open>Streams info\<close>

definition read_streams_info :: "header_bounds \<Rightarrow> archive \<Rightarrow> archive parser" where
  "read_streams_info hb a =
     pbind read_u8 (\<lambda>nid.
     pbind (if nid = K_PACK_INFO
            then pbind (read_pack_info hb a) (\<lambda>a. pbind read_u8 (\<lambda>nid. preturn (a, nid)))
            else preturn (a, nid)) (\<lambda>(a, nid).
     pbind (if nid = K_UNPACK_INFO
            then pbind (read_unpack_info hb a) (\<lambda>a. pbind read_u8 (\<lambda>nid. preturn (a, nid)))
            else preturn (a\<lparr>blocks := []\<rparr>, nid)) (\<lambda>(a, nid).
     pbind (if nid = K_SUB_STREAMS_INFO
            then pbind (read_sub_streams_info hb a) (\<lambda>a. pbind read_u8 (\<lambda>nid. preturn (a, nid)))
            else preturn (a, nid)) (\<lambda>(a, nid).
     pbind (pensure (BadTerminatedStreamsInfo nid) (nid = K_END)) (\<lambda>_. preturn a)))))"

section \<open>Names\<close>

text \<open>
  \<open>NamesReader::next\<close>: the inner loop reads UTF-16 units up to a zero unit or the end of the
  blob; \<open>read\<close> is \<open>read_bytes\<close> and \<open>cache\<close> the units so far.
\<close>

function read_name_units :: "nat \<Rightarrow> nat \<Rightarrow> nat \<Rightarrow> u16 list \<Rightarrow> (u16 list \<times> nat) parser" where
  "read_name_units max_bytes max_name read cache bs =
     (if read < max_bytes
      then pbind read_u16 (\<lambda>u.
             if u = 0 then preturn (cache, read + 2)
             else if max_name \<le> length cache * 2
             then pfail (LimitExceeded NameBytes (of_nat max_name) (of_nat max_name + 2))
             else read_name_units max_bytes max_name (read + 2) (cache @ [u])) bs
      else preturn (cache, read) bs)"
  by pat_completeness auto
termination by (relation "measure (\<lambda>(mb, mn, read, cache, bs). mb - read)") auto

declare read_name_units.simps [simp del]

lemma read_name_units_progress:
  "read_name_units mb mn read cache bs = Inr ((units, read'), r) \<Longrightarrow> read \<le> read' \<and> (read < mb \<longrightarrow> read < read')"
proof (induction mb mn read cache bs rule: read_name_units.induct)
  case (1 mb mn read cache bs)
  show ?case
  proof (cases "read < mb")
    case True
    then obtain u bs' where u: "read_u16 bs = Inr (u, bs')"
      and r: "(if u = 0 then preturn (cache, read + 2)
             else if mn \<le> length cache * 2
             then pfail (LimitExceeded NameBytes (of_nat mn) (of_nat mn + 2))
             else read_name_units mb mn (read + 2) (cache @ [u])) bs' = Inr ((units, read'), r)"
      using 1(2) by (auto simp: read_name_units.simps [of mb mn read cache bs])
    show ?thesis
    proof (cases "u = 0 \<or> mn \<le> length cache * 2")
      case stop: True
      then show ?thesis using r by (auto split: if_splits)
    next
      case False
      then have "read + 2 \<le> read'" using 1(1) [OF True u] r by auto
      then show ?thesis by simp
    qed
  next
    case False
    then show ?thesis using 1(2) by (simp add: read_name_units.simps [of mb mn read cache bs])
  qed
qed

text \<open>The loop over the names, which fills the entries from index \<open>next_file\<close> on.\<close>

function read_names :: "nat \<Rightarrow> nat \<Rightarrow> nat \<Rightarrow> nat \<Rightarrow> archive_entry list \<Rightarrow> archive_entry list parser" where
  "read_names max_bytes max_name read next_file fs bs =
     (if max_bytes \<le> read
      then pbind (pensure (Other ''Error parsing file names'') (next_file = length fs)) (\<lambda>_. preturn fs) bs
      else if length fs \<le> next_file then Inl (Other ''Error parsing file names'')
      else pbind (read_name_units max_bytes max_name read []) (\<lambda>(units, read').
             case from_utf16 units of
               None \<Rightarrow> pfail (Other ''invalid utf-16: lone surrogate found'')
             | Some name \<Rightarrow>
                 read_names max_bytes max_name read' (next_file + 1)
                   (fs[next_file := (fs ! next_file)\<lparr>entry_name := name\<rparr>])) bs)"
  by pat_completeness auto
termination
  by (relation "measure (\<lambda>(mb, mn, read, i, fs, bs). mb - read)")
    (auto dest!: read_name_units_progress)

declare read_names.simps [simp del]

section \<open>File properties\<close>

record files_state =
  fs_files :: "archive_entry list"
  fs_empty_stream :: "bit_set option"
  fs_empty_file :: "bit_set option"
  fs_anti :: "bit_set option"

text \<open>The four loops over a property that only some files have.\<close>

definition read_dated ::
  "('w \<Rightarrow> archive_entry \<Rightarrow> archive_entry) \<Rightarrow> (archive_entry \<Rightarrow> archive_entry) \<Rightarrow> 'w parser \<Rightarrow> bit_set
    \<Rightarrow> archive_entry list \<Rightarrow> archive_entry list parser" where
  "read_dated with_value without read defined fs =
     pmap (\<lambda>(i, f). if bitset_contains defined i then pbind read (\<lambda>v. preturn (with_value v f))
                    else preturn (without f)) (zip [0..<length fs] fs)"

definition with_creation_date :: "u64 \<Rightarrow> archive_entry \<Rightarrow> archive_entry" where
  "with_creation_date t f = f\<lparr>has_creation_date := True, creation_date := NtTime t\<rparr>"

definition with_access_date :: "u64 \<Rightarrow> archive_entry \<Rightarrow> archive_entry" where
  "with_access_date t f = f\<lparr>has_access_date := True, access_date := NtTime t\<rparr>"

definition with_last_modified_date :: "u64 \<Rightarrow> archive_entry \<Rightarrow> archive_entry" where
  "with_last_modified_date t f = f\<lparr>has_last_modified_date := True, last_modified_date := NtTime t\<rparr>"

definition with_windows_attributes :: "u32 \<Rightarrow> archive_entry \<Rightarrow> archive_entry" where
  "with_windows_attributes w f = f\<lparr>has_windows_attributes := True, windows_attributes := w\<rparr>"

definition without_creation_date :: "archive_entry \<Rightarrow> archive_entry" where
  "without_creation_date f = f\<lparr>has_creation_date := False\<rparr>"

definition without_access_date :: "archive_entry \<Rightarrow> archive_entry" where
  "without_access_date f = f\<lparr>has_access_date := False\<rparr>"

definition without_last_modified_date :: "archive_entry \<Rightarrow> archive_entry" where
  "without_last_modified_date f = f\<lparr>has_last_modified_date := False\<rparr>"

definition without_windows_attributes :: "archive_entry \<Rightarrow> archive_entry" where
  "without_windows_attributes f = f\<lparr>has_windows_attributes := False\<rparr>"

definition read_file_times ::
  "string \<Rightarrow> ('w \<Rightarrow> archive_entry \<Rightarrow> archive_entry) \<Rightarrow> (archive_entry \<Rightarrow> archive_entry) \<Rightarrow> 'w parser
    \<Rightarrow> nat \<Rightarrow> files_state \<Rightarrow> files_state parser" where
  "read_file_times what with_value without read num_files st =
     pbind (read_all_or_bits num_files) (\<lambda>defined.
     pbind read_u8 (\<lambda>external.
     pbind (pensure (Other (what @ '' Unimplemented:external='' @ decimal (unat external))) (external = 0)) (\<lambda>_.
     pbind (read_dated with_value without read defined (fs_files st)) (\<lambda>fs.
     preturn (st\<lparr>fs_files := fs\<rparr>)))))"

definition skip_bytes :: "nat \<Rightarrow> unit parser" where
  "skip_bytes n bs = Inr ((), drop n bs)"

definition read_file_property ::
  "header_bounds \<Rightarrow> nat \<Rightarrow> u8 \<Rightarrow> u64 \<Rightarrow> files_state \<Rightarrow> files_state parser" where
  "read_file_property hb num_files prop_type prop_size st =
     (if prop_type = K_EMPTY_STREAM
      then pbind (read_bits num_files) (\<lambda>b. preturn (st\<lparr>fs_empty_stream := Some b\<rparr>))
      else if prop_type = K_EMPTY_FILE
      then (case fs_empty_stream st of
              None \<Rightarrow> pfail (Other ''Header format error: kEmptyStream must appear before kEmptyFile'')
            | Some s \<Rightarrow> pbind (read_bits (bitset_len s)) (\<lambda>b. preturn (st\<lparr>fs_empty_file := Some b\<rparr>)))
      else if prop_type = K_ANTI
      then (case fs_empty_stream st of
              None \<Rightarrow> pfail (Other ''Header format error: kEmptyStream must appear before kEmptyFile'')
            | Some s \<Rightarrow> pbind (read_bits (bitset_len s)) (\<lambda>b. preturn (st\<lparr>fs_anti := Some b\<rparr>)))
      else if prop_type = K_NAME
      then pbind read_u8 (\<lambda>external.
           pbind (pensure (Other ''Not implemented:external != 0'') (external = 0)) (\<lambda>_.
           pbind (pensure (Other ''file names length invalid'') (\<not> (prop_size = 0 \<or> (prop_size - 1) AND 1 \<noteq> 0))) (\<lambda>_.
           pbind (plift (bounds_count hb prop_size TotalNameBytes)) (\<lambda>n.
           pbind (read_names (n - 1) (unat (max_name_bytes (hb_limits hb))) 0 0 (fs_files st)) (\<lambda>fs.
           preturn (st\<lparr>fs_files := fs\<rparr>))))))
      else if prop_type = K_C_TIME
      then read_file_times ''kCTime'' with_creation_date without_creation_date read_u64 num_files st
      else if prop_type = K_A_TIME
      then read_file_times ''kATime'' with_access_date without_access_date read_u64 num_files st
      else if prop_type = K_M_TIME
      then read_file_times ''kMTime'' with_last_modified_date without_last_modified_date read_u64 num_files st
      else if prop_type = K_WIN_ATTRIBUTES
      then read_file_times ''kWinAttributes'' with_windows_attributes without_windows_attributes read_u32 num_files st
      else if prop_type = K_START_POS
      then pfail (Other ''kStartPos is unsupported, please report'')
      else pbind (plift (bounds_size hb prop_size)) (\<lambda>skip. pbind (skip_bytes skip) (\<lambda>_. preturn st)))"

subsection \<open>Every reader only moves forward\<close>

lemma sequential_skip_bytes [intro]: "sequential (skip_bytes n)"
  by (auto simp: sequential_def skip_bytes_def) (metis append_take_drop_id)

lemma sequential_read_name_units [intro]: "sequential (read_name_units mb mn read cache)"
proof (rule sequentialI)
  fix bs a r
  show "read_name_units mb mn read cache bs = Inr (a, r) \<Longrightarrow> \<exists>used. bs = used @ r"
  proof (induction mb mn read cache bs rule: read_name_units.induct)
    case (1 mb mn read cache bs)
    show ?case
    proof (cases "read < mb")
      case True
      then obtain u bs' where u: "read_u16 bs = Inr (u, bs')"
        and t: "(if u = 0 then preturn (cache, read + 2)
               else if mn \<le> length cache * 2
               then pfail (LimitExceeded NameBytes (of_nat mn) (of_nat mn + 2))
               else read_name_units mb mn (read + 2) (cache @ [u])) bs' = Inr (a, r)"
        using 1(2) by (auto simp: read_name_units.simps [of mb mn read cache bs])
      from sequentialD [OF sequential_read_words(1) u] obtain used where "bs = used @ bs'" ..
      moreover have "\<exists>used. bs' = used @ r" using 1(1) [OF True u] t by (auto split: if_splits)
      ultimately show ?thesis by auto
    next
      case False
      then show ?thesis using 1(2) by (simp add: read_name_units.simps [of mb mn read cache bs])
    qed
  qed
qed

lemma sequential_read_names [intro]: "sequential (read_names mb mn read i fs)"
proof (rule sequentialI)
  fix bs a r
  show "read_names mb mn read i fs bs = Inr (a, r) \<Longrightarrow> \<exists>used. bs = used @ r"
  proof (induction mb mn read i fs bs rule: read_names.induct)
    case (1 mb mn read i fs bs)
    show ?case
    proof (cases "mb \<le> read \<or> length fs \<le> i")
      case True
      then show ?thesis using 1(2) by (auto simp: read_names.simps [of mb mn read i fs bs] split: if_splits)
    next
      case False
      then obtain units read' bs' name where u: "read_name_units mb mn read [] bs = Inr ((units, read'), bs')"
        and n: "from_utf16 units = Some name"
        and t: "read_names mb mn read' (i + 1) (fs[i := (fs ! i)\<lparr>entry_name := name\<rparr>]) bs' = Inr (a, r)"
        using 1(2) by (auto simp: read_names.simps [of mb mn read i fs bs] split: option.splits if_splits)
      from sequentialD [OF sequential_read_name_units u] obtain used where "bs = used @ bs'" ..
      moreover have "\<exists>used. bs' = used @ r" using 1(1) [OF _ _ u refl n] t False by auto
      ultimately show ?thesis by auto
    qed
  qed
qed

lemma sequential_read_file_times [intro]:
  "sequential read \<Longrightarrow> sequential (read_file_times what with_value without read n st)"
  unfolding read_file_times_def read_dated_def
  by (intro sequential_pbind sequential_pmap sequential_case_prod sequential_if sequential_intros
      sequential_read_u8 sequential_read_all_or_bits)

lemma sequential_read_file_property [intro]: "sequential (read_file_property hb n t sz st)"
  unfolding read_file_property_def
  by (intro sequential_if sequential_case_option sequential_pbind sequential_intros sequential_read_bits
      sequential_read_u8 sequential_read_names sequential_read_file_times sequential_read_words sequential_skip_bytes)

text \<open>The property loop ends because every round consumes at least the property's type.\<close>

function read_file_properties :: "header_bounds \<Rightarrow> nat \<Rightarrow> files_state \<Rightarrow> files_state parser" where
  "read_file_properties hb num_files st bs =
     pbind read_u8 (\<lambda>prop_type bs.
       if prop_type = 0 then preturn st bs
       else pbind read_variable_u64 (\<lambda>prop_size bs.
            pbind (read_file_property hb num_files prop_type prop_size st) (\<lambda>st' bs.
            read_file_properties hb num_files st' bs) bs) bs) bs"
  by pat_completeness auto
termination
  by (relation "measure (\<lambda>(hb, n, st, bs). length bs)")
    (auto simp: read_u8_eq_Inr dest!: sequential_length [OF sequential_read_file_property]
      sequential_length [OF sequential_read_variable_u64])

declare read_file_properties.simps [simp del]

section \<open>Files info\<close>

text \<open>
  The last loop of \<open>read_files_info\<close>: \<open>i\<close> is the entry's index, \<open>k\<close> counts the entries with
  a stream so far and \<open>e\<close> those without.
\<close>

fun assign_streams ::
  "sub_streams_info option \<Rightarrow> files_state \<Rightarrow> archive_entry list \<Rightarrow> nat \<Rightarrow> nat \<Rightarrow> nat \<Rightarrow> archive_entry list result" where
  "assign_streams info st [] i k e = Inr []"
| "assign_streams info st (f # fs) i k e =
     (let streamed = (case fs_empty_stream st of None \<Rightarrow> True | Some s \<Rightarrow> \<not> bitset_contains s i)
      in if streamed
      then case info of
          None \<Rightarrow> Inl (Other ''Archive contains file with streams but no subStreamsInfo'')
        | Some subs \<Rightarrow>
            (case (nth_option (crcs subs) k, nth_option (unpack_sizes subs) k) of
               (Some c, Some n) \<Rightarrow>
                 ebind (assign_streams info st fs (i + 1) (k + 1) e) (\<lambda>rest.
                 Inr (f\<lparr>has_stream := True, is_directory := False, is_anti_item := False,
                        entry_has_crc := bitset_contains (has_crc subs) k, entry_crc := c, entry_size := n\<rparr> # rest))
             | _ \<Rightarrow> Inl (Other ''Archive declares more streamed files than sub-streams''))
      else ebind (assign_streams info st fs (i + 1) k (e + 1)) (\<lambda>rest.
           Inr (f\<lparr>has_stream := False,
                  is_directory := (case fs_empty_file st of Some s \<Rightarrow> \<not> bitset_contains s e | None \<Rightarrow> True),
                  is_anti_item := (case fs_anti st of Some s \<Rightarrow> bitset_contains s e | None \<Rightarrow> False),
                  entry_has_crc := False, entry_size := 0\<rparr> # rest)))"

definition read_files_info :: "header_bounds \<Rightarrow> archive \<Rightarrow> archive parser" where
  "read_files_info hb a =
     pbind read_variable_u64 (\<lambda>v.
     pbind (plift (bounds_count hb v Entries)) (\<lambda>num_files.
     pbind (read_file_properties hb num_files
              \<lparr>fs_files = replicate num_files default_entry, fs_empty_stream = None, fs_empty_file = None, fs_anti = None\<rparr>) (\<lambda>st.
     pbind (plift (assign_streams (sub_streams a) st (fs_files st) 0 0 0)) (\<lambda>fs.
     plift (calculate_stream_map (a\<lparr>files := fs\<rparr>))))))"

section \<open>The header\<close>

function read_archive_properties_from :: "header_bounds \<Rightarrow> u8 \<Rightarrow> unit parser" where
  "read_archive_properties_from hb nid bs =
     (if nid = K_END then preturn () bs
      else pbind read_variable_u64 (\<lambda>v bs.
           pbind (plift (bounds_size hb v)) (\<lambda>n bs.
           pbind (skip_bytes n) (\<lambda>_ bs.
           pbind read_u8 (\<lambda>nid bs. read_archive_properties_from hb nid bs) bs) bs) bs) bs)"
  by pat_completeness auto
termination
  by (relation "measure (\<lambda>(hb, nid, bs). length bs)")
    (auto simp: read_u8_eq_Inr skip_bytes_def
      dest!: sequential_length [OF sequential_read_variable_u64] arg_cong [where f = length and y = "_ # _"])

declare read_archive_properties_from.simps [simp del]

definition read_archive_properties :: "header_bounds \<Rightarrow> unit parser" where
  "read_archive_properties hb = pbind read_u8 (read_archive_properties_from hb)"

definition read_header :: "header_bounds \<Rightarrow> archive \<Rightarrow> archive parser" where
  "read_header hb a =
     pbind read_u8 (\<lambda>nid.
     pbind (if nid = K_ARCHIVE_PROPERTIES
            then pbind (read_archive_properties hb) (\<lambda>_. read_u8) else preturn nid) (\<lambda>nid.
     pbind (pensure (Other ''Additional streams unsupported'') (nid \<noteq> K_ADDITIONAL_STREAMS_INFO)) (\<lambda>_.
     pbind (if nid = K_MAIN_STREAMS_INFO
            then pbind (read_streams_info hb a) (\<lambda>a. pbind read_u8 (\<lambda>nid. preturn (a, nid)))
            else preturn (a, nid)) (\<lambda>(a, nid).
     pbind (if nid = K_FILES_INFO
            then pbind (read_files_info hb a) (\<lambda>a. pbind read_u8 (\<lambda>nid. preturn (a, nid)))
            else pbind (plift (calculate_stream_map a)) (\<lambda>a. preturn (a, nid))) (\<lambda>(a, nid).
     pbind (pensure (BadTerminatedHeader nid) (nid = K_END)) (\<lambda>_. preturn a))))))"

end
