(* ===== verification/Header_Safety.thy ===== *)
theory Header_Safety
  imports Header_Reader
begin

text \<open>
  What the header parser guarantees for every input: it only moves forward, it never panics,
  and the archive it returns is well formed.
\<close>

section \<open>Blocks and their sizes\<close>

definition block_sized :: "block \<Rightarrow> bool" where
  "block_sized b \<longleftrightarrow> length (block_unpack_sizes b) = total_output_streams b"

lemma unbound_output_bound: "unbound_output_from b n = Some i \<Longrightarrow> i < n"
  by (induction n) (auto split: if_splits)

lemma block_sized_unpack_size: "block_sized b \<Longrightarrow> \<exists>v. get_unpack_size b = Some v"
  using unbound_output_bound [of b "total_output_streams b"]
  by (auto simp: get_unpack_size_def block_sized_def nth_option_def split: option.splits)

lemma block_ok_update [simp]:
  "block_ok hb (b\<lparr>block_unpack_sizes := s\<rparr>) = block_ok hb b"
  "block_ok hb (b\<lparr>block_has_crc := h\<rparr>) = block_ok hb b"
  "block_ok hb (b\<lparr>block_crc := c\<rparr>) = block_ok hb b"
  "block_ok hb (b\<lparr>num_unpack_sub_streams := n\<rparr>) = block_ok hb b"
  by (simp_all add: block_ok_def block_ranges_def streams_bound_once_def no_reachable_cycle_def
      final_output_def reads_from_def coder_source_def find_bind_pair_for_in_stream_def)

lemma block_sized_update [simp]:
  "block_sized (b\<lparr>block_has_crc := h\<rparr>) = block_sized b"
  "block_sized (b\<lparr>block_crc := c\<rparr>) = block_sized b"
  "block_sized (b\<lparr>num_unpack_sub_streams := n\<rparr>) = block_sized b"
  by (simp_all add: block_sized_def)

lemma pmap_all2:
  assumes "\<And>x bs y r. x \<in> set xs \<Longrightarrow> f x bs = Inr (y, r) \<Longrightarrow> P x y"
  shows "pmap f xs bs = Inr (ys, r) \<Longrightarrow> list_all2 P xs ys"
  using assms
proof (induction xs arbitrary: bs ys)
  case (Cons x xs)
  from Cons.prems(1) obtain y rest ys' where
    y: "f x bs = Inr (y, rest)" and ys: "pmap f xs rest = Inr (ys', r)" "ys = y # ys'" by auto
  have "list_all2 P xs ys'" using Cons.prems(2) by (intro Cons.IH [OF ys(1)]) auto
  then show ?case using Cons.prems(2) [of x] y ys(2) by auto
qed simp

section \<open>Pack info and unpack info\<close>

lemma panic_free_read_defined_crcs [intro]: "panic_free (read_defined_crcs d n)"
  unfolding read_defined_crcs_def
  by (intro panic_free_pmap panic_free_if panic_free_pbind panic_free_basic panic_free_read_words)

lemma sequential_read_defined_crcs [intro]: "sequential (read_defined_crcs d n)"
  unfolding read_defined_crcs_def
  by (intro sequential_pmap sequential_if sequential_pbind sequential_intros sequential_read_words)

lemma length_read_defined_crcs: "read_defined_crcs d n bs = Inr (cs, r) \<Longrightarrow> length cs = n"
  unfolding read_defined_crcs_def by (drule pmap_length) simp

lemma panic_free_read_pack_info [intro]: "panic_free (read_pack_info hb a)"
  unfolding read_pack_info_def
  by (intro panic_free_pbind panic_free_if panic_free_case_prod panic_free_basic panic_free_preplicate
      panic_free_read_u8 panic_free_read_variable_u64 panic_free_read_bits panic_free_read_defined_crcs
      bounds_no_panic) simp

lemma sequential_read_pack_info [intro]: "sequential (read_pack_info hb a)"
  unfolding read_pack_info_def
  by (intro sequential_pbind sequential_if sequential_case_prod sequential_intros sequential_preplicate
      sequential_read_u8 sequential_read_variable_u64 sequential_read_all_or_bits sequential_read_defined_crcs)

lemma read_pack_info_frame:
  "read_pack_info hb a bs = Inr (a', r) \<Longrightarrow> blocks a' = blocks a \<and> sub_streams a' = sub_streams a \<and> files a' = files a"
  unfolding read_pack_info_def by auto

lemma panic_free_read_blocks: "panic_free (read_blocks hb n t)"
proof (induction n arbitrary: t)
  case (Suc n)
  show ?case unfolding read_blocks.simps Let_def
    by (intro panic_free_pbind panic_free_basic panic_free_read_block Suc.IH) simp
qed auto

lemma sequential_read_blocks: "sequential (read_blocks hb n t)"
proof (induction n arbitrary: t)
  case (Suc n)
  show ?case unfolding read_blocks.simps Let_def
    by (intro sequential_pbind sequential_intros sequential_read_block Suc.IH)
qed auto

lemma read_blocks_spec:
  "read_blocks hb n t bs = Inr (xs, r) \<Longrightarrow>
    length xs = n \<and> list_all (\<lambda>b. block_ok hb b \<and> block_unpack_sizes b = [] \<and> \<not> block_has_crc b) xs"
proof (induction n arbitrary: t bs xs)
  case (Suc n)
  then obtain b rest ys t' rest' where "read_block hb bs = Inr (b, rest)"
    "read_blocks hb n t' rest' = Inr (ys, r)" "xs = b # ys" by (auto simp: Let_def)
  then show ?case using Suc.IH read_block_spec by auto
qed simp

lemma read_unpack_sizes_spec:
  "read_unpack_sizes b bs = Inr (b', r) \<Longrightarrow>
    \<exists>s. b' = b\<lparr>block_unpack_sizes := block_unpack_sizes b @ s\<rparr> \<and> length s = total_output_streams b"
  unfolding read_unpack_sizes_def by (auto dest: preplicate_length)

lemma read_block_crc_spec:
  "read_block_crc d n ib bs = Inr (b', r) \<Longrightarrow>
    \<exists>h c. b' = (snd ib)\<lparr>block_has_crc := h, block_crc := c\<rparr>"
proof -
  assume "read_block_crc d n ib bs = Inr (b', r)"
  then consider "b' = snd ib" | c where "b' = (snd ib)\<lparr>block_has_crc := True, block_crc := c\<rparr>"
    | "b' = (snd ib)\<lparr>block_has_crc := False\<rparr>"
    by (cases ib) (auto simp: read_block_crc_def split: if_splits)
  then show ?thesis
  proof cases
    case 1
    then show ?thesis by (intro exI [of _ "block_has_crc (snd ib)"] exI [of _ "block_crc (snd ib)"]) simp
  next
    case 3
    then show ?thesis by (intro exI [of _ False] exI [of _ "block_crc (snd ib)"]) simp
  qed blast
qed

lemma panic_free_read_unpack_info [intro]: "panic_free (read_unpack_info hb a)"
proof -
  have "panic_free (read_unpack_sizes b)" for b
    unfolding read_unpack_sizes_def
    by (intro panic_free_pbind panic_free_preplicate panic_free_basic panic_free_read_variable_u64)
  moreover have "panic_free (read_block_crc d n ib)" for d n ib
    unfolding read_block_crc_def Let_def
    by (intro panic_free_case_prod panic_free_if panic_free_pbind panic_free_basic panic_free_read_words)
  ultimately show ?thesis
    unfolding read_unpack_info_def
    by (intro panic_free_pbind panic_free_if panic_free_case_prod panic_free_basic panic_free_pmap
        panic_free_read_u8 panic_free_read_variable_u64 panic_free_read_bits panic_free_read_blocks
        bounds_no_panic) simp_all
qed

lemma sequential_read_unpack_info [intro]: "sequential (read_unpack_info hb a)"
proof -
  have "sequential (read_unpack_sizes b)" for b
    unfolding read_unpack_sizes_def
    by (intro sequential_pbind sequential_preplicate sequential_intros sequential_read_variable_u64)
  moreover have "sequential (read_block_crc d n ib)" for d n ib
    unfolding read_block_crc_def Let_def
    by (intro sequential_case_prod sequential_if sequential_pbind sequential_intros sequential_read_words)
  ultimately show ?thesis
    unfolding read_unpack_info_def
    by (intro sequential_pbind sequential_if sequential_case_prod sequential_intros sequential_pmap
        sequential_read_u8 sequential_read_variable_u64 sequential_read_all_or_bits sequential_read_blocks)
qed

lemma read_unpack_info_spec:
  assumes "read_unpack_info hb a bs = Inr (a', r)" "blocks a = []"
  shows "(\<forall>b\<in>set (blocks a'). block_ok hb b \<and> block_sized b) \<and> sub_streams a' = sub_streams a
    \<and> pack_sizes a' = pack_sizes a \<and> files a' = files a"
proof -
  from assms obtain n bs1 xs bs2 bs3 ys bs4 zs bs5 bs6 nid where
    xs: "read_blocks hb n 0 bs1 = Inr (xs, bs2)"
    and ys: "pmap read_unpack_sizes xs bs3 = Inr (ys, bs4)"
    and zs: "(if nid = K_CRC
            then pbind (read_all_or_bits n) (\<lambda>defined.
                 pbind (pmap (read_block_crc defined n) (zip [0..<length ys] ys)) (\<lambda>bs.
                 pbind read_u8 (\<lambda>nid. preturn (bs, nid))))
            else preturn (ys, nid)) bs5 = Inr ((zs, K_END), bs6)"
    and a': "a' = a\<lparr>blocks := zs\<rparr>"
    unfolding read_unpack_info_def by auto
  have "list_all2 (\<lambda>b b'. \<exists>s. b' = b\<lparr>block_unpack_sizes := block_unpack_sizes b @ s\<rparr> \<and> length s = total_output_streams b) xs ys"
    by (rule pmap_all2 [OF _ ys]) (rule read_unpack_sizes_spec)
  then have ysok: "list_all (\<lambda>b. block_ok hb b \<and> block_sized b) ys"
    using read_blocks_spec [OF xs]
    by (auto simp: list_all2_conv_all_nth list_all_length block_sized_def dest: spec)
  have "list_all (\<lambda>b. block_ok hb b \<and> block_sized b) zs"
  proof (cases "nid = K_CRC")
    case True
    then obtain d bs7 bs8 where z: "pmap (read_block_crc d n) (zip [0..<length ys] ys) bs7 = Inr (zs, bs8)"
      using zs by auto
    have "list_all2 (\<lambda>ib b'. \<exists>h c. b' = (snd ib)\<lparr>block_has_crc := h, block_crc := c\<rparr>) (zip [0..<length ys] ys) zs"
      by (rule pmap_all2 [OF _ z]) (rule read_block_crc_spec)
    then have "\<exists>h c. zs ! k = (ys ! k)\<lparr>block_has_crc := h, block_crc := c\<rparr>" "length zs = length ys"
      if "k < length zs" for k
      using that by (auto simp: list_all2_conv_all_nth)
    then show ?thesis using ysok unfolding list_all_length
      by (metis block_ok_update(2,3) block_sized_update(1,2))
  next
    case False
    then show ?thesis using zs ysok by simp
  qed
  then show ?thesis by (simp add: a' list_all_iff)
qed

section \<open>Sub-streams info\<close>

definition subs_total :: "block list \<Rightarrow> nat" where
  "subs_total bs = sum_list (map num_unpack_sub_streams bs)"

definition missing_total :: "block list \<Rightarrow> nat" where
  "missing_total bs =
     sum_list (map (\<lambda>b. if num_unpack_sub_streams b = 1 \<and> block_has_crc b then 0 else num_unpack_sub_streams b) bs)"

lemma totals_Cons [simp]:
  "subs_total [] = 0" "subs_total (b # bs) = num_unpack_sub_streams b + subs_total bs"
  "missing_total [] = 0"
  "missing_total (b # bs) =
     (if num_unpack_sub_streams b = 1 \<and> block_has_crc b then 0 else num_unpack_sub_streams b) + missing_total bs"
  by (simp_all add: subs_total_def missing_total_def)

lemma read_stream_counts_spec:
  "read_stream_counts hb bs t inp = Inr ((bs', t'), r) \<Longrightarrow>
    t' = t + subs_total bs' \<and> list_all2 (\<lambda>b b'. \<exists>n. b' = b\<lparr>num_unpack_sub_streams := n\<rparr>) bs bs'"
proof (induction bs arbitrary: t inp bs')
  case (Cons b bs)
  from Cons.prems obtain n t1 inp1 bs1 where
    "bounds_add_count hb t n = Inr t1" and r: "read_stream_counts hb bs t1 inp1 = Inr ((bs1, t'), r)"
    and bs': "bs' = b\<lparr>num_unpack_sub_streams := n\<rparr> # bs1"
    by auto
  then have t1: "t1 = unat (of_nat (t + n) :: u64)" "t + n \<le> usize_max"
    by (auto simp: bounds_add_count_def bounds_count_Inr checked_add_usize_Some split: option.splits)
  then have "t1 = t + n" using unat_of_nat_u64 [of "t + n"] by (simp add: usize_max_def del: of_nat_add)
  then show ?case using Cons.IH [OF r] bs' by auto
qed simp

lemma read_sized_streams_spec:
  "read_sized_streams n acc inp = Inr ((sizes, t), r) \<Longrightarrow>
    length sizes = n \<and> unat t = unat acc + sum_list (map unat sizes)"
proof (induction n arbitrary: acc inp sizes)
  case (Suc n)
  from Suc.prems obtain x acc' inp1 xs where "checked_add acc x = Some acc'"
    and r: "read_sized_streams n acc' inp1 = Inr ((xs, t), r)" and sizes: "sizes = x # xs"
    by (auto split: option.splits)
  then have "unat acc' = unat acc + unat x" by (simp add: checked_add_SomeD)
  then show ?case using Suc.IH [OF r] sizes by simp
qed simp

text \<open>The sizes of one block's sub-streams: they add up to the block's size.\<close>

fun sizes_add_up :: "block list \<Rightarrow> u64 list \<Rightarrow> bool" where
  "sizes_add_up [] sizes \<longleftrightarrow> sizes = []"
| "sizes_add_up (b # bs) sizes \<longleftrightarrow>
     (let n = num_unpack_sub_streams b in
      n \<le> length sizes
      \<and> (0 < n \<longrightarrow> Some (sum_list (map unat (take n sizes))) = map_option unat (get_unpack_size b))
      \<and> sizes_add_up bs (drop n sizes))"

lemma read_stream_sizes_spec:
  "read_stream_sizes nid bs inp = Inr (sizes, r) \<Longrightarrow>
    length sizes \<le> subs_total bs
    \<and> (nid = K_SIZE \<or> list_all (\<lambda>b. num_unpack_sub_streams b \<le> 1) bs \<longrightarrow> sizes_add_up bs sizes)"
proof (induction bs arbitrary: inp sizes)
  case (Cons b bs)
  show ?case
  proof (cases "num_unpack_sub_streams b = 0")
    case True
    then show ?thesis using Cons.IH [of inp sizes] Cons.prems by (simp add: Let_def)
  next
    case False
    then obtain n where n: "num_unpack_sub_streams b = Suc n" by (cases "num_unpack_sub_streams b") auto
    from Cons.prems n obtain zs acc inp1 unpack inp2 rest where
      zs: "(if nid = K_SIZE then read_sized_streams (num_unpack_sub_streams b - 1) 0 else preturn ([], 0)) inp = Inr ((zs, acc), inp1)"
      and u: "unpack_size_or_panic b = Inr unpack" "\<not> unpack < acc"
      and r: "read_stream_sizes nid bs inp2 = Inr (rest, r)" and sizes: "sizes = zs @ [unpack - acc] @ rest"
      by auto
    have z: "unat acc = sum_list (map unat zs)" "nid = K_SIZE \<Longrightarrow> length zs = n" "nid \<noteq> K_SIZE \<Longrightarrow> zs = []"
      using zs n read_sized_streams_spec [of n 0 inp zs acc inp1] by (auto split: if_splits)
    have "get_unpack_size b = Some unpack" using u by (auto simp: unpack_size_or_panic_def split: option.splits)
    moreover have "unat (unpack - acc) = unat unpack - unat acc" "unat acc \<le> unat unpack"
      using u(2) by (auto simp: unat_sub not_less word_le_nat_alt)
    moreover have "length zs = n" if "nid = K_SIZE \<or> num_unpack_sub_streams b \<le> 1" using that z n by auto
    ultimately show ?thesis using Cons.IH [OF r] z n sizes
      by (cases "nid = K_SIZE") (auto simp: Let_def)
  qed
qed simp

lemma count_digests_spec:
  "count_digests t bs acc = Inr n \<Longrightarrow> n = acc + missing_total bs"
proof (induction bs arbitrary: acc)
  case (Cons b bs)
  then show ?case by (auto simp: checked_add_usize_Some split: if_splits option.splits dest!: Cons.IH)
qed simp

lemma count_digests_no_panic: "count_digests t bs acc \<noteq> Inl Panic"
  by (induction bs arbitrary: acc) (auto split: option.splits)

text \<open>Handing the CRCs out stays in range and keeps the bit set well formed.\<close>

definition crc_state_ok :: "nat \<Rightarrow> crc_state \<Rightarrow> bool" where
  "crc_state_ok t st \<longleftrightarrow> bitset_ok (cs_has_crc st) \<and> bit_count (cs_has_crc st) = t \<and> length (cs_crcs st) = t"

lemma take_missing_crcs_spec:
  assumes "crc_state_ok t st" "cs_next_crc st + n \<le> t" "cs_next_missing st + n \<le> length missing"
  shows "\<exists>st'. take_missing_crcs d missing n st = Inr st' \<and> crc_state_ok t st'
    \<and> cs_next_crc st' = cs_next_crc st + n \<and> cs_next_missing st' = cs_next_missing st + n"
  using assms
proof (induction n arbitrary: st)
  case (Suc n)
  define has' where "has' = snd (if bitset_contains d (cs_next_missing st)
                          then bitset_insert (cs_next_crc st) (cs_has_crc st)
                          else bitset_remove (cs_next_crc st) (cs_has_crc st))"
  define st1 where "st1 = \<lparr>cs_has_crc = has', cs_crcs = (cs_crcs st)[cs_next_crc st := missing ! cs_next_missing st],
    cs_next_crc = cs_next_crc st + 1, cs_next_missing = cs_next_missing st + 1\<rparr>"
  have "take_missing_crcs d missing (Suc n) st = take_missing_crcs d missing n st1"
    using Suc.prems by (simp add: crc_state_ok_def nth_or_panic_def set_or_panic_def st1_def has'_def Let_def)
  moreover have "crc_state_ok t st1"
    using Suc.prems by (auto simp: crc_state_ok_def st1_def has'_def insert_parts remove_parts)
  ultimately show ?case using Suc.IH [of st1] Suc.prems by (simp add: st1_def)
qed simp

lemma assign_crcs_spec:
  assumes "crc_state_ok t st" "cs_next_crc st + subs_total bs \<le> t"
    and "cs_next_missing st + missing_total bs \<le> length missing"
  shows "\<exists>st'. assign_crcs d missing bs st = Inr st' \<and> crc_state_ok t st'"
  using assms
proof (induction bs arbitrary: st)
  case (Cons b bs)
  show ?case
  proof (cases "num_unpack_sub_streams b = 1 \<and> block_has_crc b")
    case True
    define st1 where "st1 = st\<lparr>cs_has_crc := snd (bitset_insert (cs_next_crc st) (cs_has_crc st)),
      cs_crcs := (cs_crcs st)[cs_next_crc st := block_crc b], cs_next_crc := cs_next_crc st + 1\<rparr>"
    have "assign_crcs d missing (b # bs) st = assign_crcs d missing bs st1"
      using Cons.prems True by (simp add: crc_state_ok_def set_or_panic_def st1_def)
    moreover have "crc_state_ok t st1"
      using Cons.prems True by (auto simp: crc_state_ok_def st1_def insert_parts)
    ultimately show ?thesis using Cons.IH [of st1] Cons.prems True by (simp add: st1_def)
  next
    case False
    then obtain st1 where st1: "take_missing_crcs d missing (num_unpack_sub_streams b) st = Inr st1" "crc_state_ok t st1"
      "cs_next_crc st1 = cs_next_crc st + num_unpack_sub_streams b"
      "cs_next_missing st1 = cs_next_missing st + num_unpack_sub_streams b"
      using take_missing_crcs_spec [OF Cons.prems(1), of "num_unpack_sub_streams b" missing d] Cons.prems(2,3) by auto
    then show ?thesis using Cons.IH [of st1] Cons.prems(2,3) False by auto
  qed
qed simp


lemma start_crc_state:
  "crc_state_ok t \<lparr>cs_has_crc = bitset_reserve_len_exact t bitset_new, cs_crcs = replicate t 0,
    cs_next_crc = 0, cs_next_missing = 0\<rparr>"
  by (simp add: crc_state_ok_def reserve_is_grow grow_ok bit_count_grow)

definition sub_streams_ok :: "archive \<Rightarrow> bool" where
  "sub_streams_ok a \<longleftrightarrow>
     (\<forall>i. sub_streams a = Some i \<longrightarrow> length (unpack_sizes i) = subs_total (blocks a)
        \<and> length (crcs i) = subs_total (blocks a) \<and> bitset_ok (has_crc i) \<and> bit_count (has_crc i) = subs_total (blocks a))"

lemma subs_total_ones: "subs_total (map (\<lambda>b. b\<lparr>num_unpack_sub_streams := 1\<rparr>) bs) = length bs"
  by (induction bs) auto

lemma counted_blocks:
  assumes "(if nid = K_NUM_UNPACK_STREAM
      then pbind (read_stream_counts hb (map (\<lambda>b. b\<lparr>num_unpack_sub_streams := 1\<rparr>) bs) 0)
        (\<lambda>(bs, t). pbind read_u8 (\<lambda>nid. preturn (bs, t, nid)))
      else preturn (map (\<lambda>b. b\<lparr>num_unpack_sub_streams := 1\<rparr>) bs,
        length (map (\<lambda>b. b\<lparr>num_unpack_sub_streams := 1\<rparr>) bs), nid)) inp = Inr ((bs', t, nid'), r)"
  shows "t = subs_total bs' \<and> list_all2 (\<lambda>b b'. \<exists>n. b' = b\<lparr>num_unpack_sub_streams := n\<rparr>) bs bs'"
proof (cases "nid = K_NUM_UNPACK_STREAM")
  case True
  then obtain inp1 where c: "read_stream_counts hb (map (\<lambda>b. b\<lparr>num_unpack_sub_streams := 1\<rparr>) bs) 0 inp = Inr ((bs', t), inp1)"
    using assms by auto
  then show ?thesis using read_stream_counts_spec [OF c] by (auto simp: list_all2_conv_all_nth)
next
  case False
  then show ?thesis using assms subs_total_ones [of bs] by (auto simp: list_all2_conv_all_nth)
qed

lemma counted_blocks_ok:
  assumes "list_all2 (\<lambda>b b'. \<exists>n. b' = b\<lparr>num_unpack_sub_streams := n\<rparr>) bs bs'"
    and "\<forall>b\<in>set bs. block_ok hb b \<and> block_sized b"
  shows "\<forall>b\<in>set bs'. block_ok hb b \<and> block_sized b"
  using assms by (induction rule: list_all2_induct) auto

lemma read_sub_streams_info_spec:
  assumes "read_sub_streams_info hb a inp = Inr (a', r)" "\<forall>b\<in>set (blocks a). block_ok hb b \<and> block_sized b"
  shows "(\<forall>b\<in>set (blocks a'). block_ok hb b \<and> block_sized b) \<and> sub_streams_ok a'
    \<and> pack_sizes a' = pack_sizes a \<and> files a' = files a"
proof -
  from assms(1) obtain nid inp1 bs t nid' inp2 sizes inp3 nid2 inp4 n st nid3 inp5 where
    c: "(if nid = K_NUM_UNPACK_STREAM
      then pbind (read_stream_counts hb (map (\<lambda>b. b\<lparr>num_unpack_sub_streams := 1\<rparr>) (blocks a)) 0)
        (\<lambda>(bs, t). pbind read_u8 (\<lambda>nid. preturn (bs, t, nid)))
      else preturn (map (\<lambda>b. b\<lparr>num_unpack_sub_streams := 1\<rparr>) (blocks a),
        length (map (\<lambda>b. b\<lparr>num_unpack_sub_streams := 1\<rparr>) (blocks a)), nid)) inp1 = Inr ((bs, t, nid'), inp2)"
    and le: "length sizes \<le> t"
    and n: "count_digests t bs 0 = Inr n"
    and d: "(if nid2 = K_CRC
            then pbind (read_all_or_bits n) (\<lambda>has_missing.
                 pbind (read_defined_crcs has_missing n) (\<lambda>missing.
                 pbind (plift (assign_crcs has_missing missing bs \<lparr>cs_has_crc = bitset_reserve_len_exact t bitset_new,
                   cs_crcs = replicate t 0, cs_next_crc = 0, cs_next_missing = 0\<rparr>)) (\<lambda>st.
                 pbind read_u8 (\<lambda>nid. preturn (st, nid)))))
            else preturn (\<lparr>cs_has_crc = bitset_reserve_len_exact t bitset_new,
                   cs_crcs = replicate t 0, cs_next_crc = 0, cs_next_missing = 0\<rparr>, nid2)) inp4 = Inr ((st, nid3), inp5)"
    and a': "a' = a\<lparr>blocks := bs, sub_streams := Some \<lparr>unpack_sizes = sizes @ replicate (t - length sizes) 0,
       has_crc = cs_has_crc st, crcs = cs_crcs st\<rparr>\<rparr>"
    unfolding read_sub_streams_info_def Let_def by (elim pbind_eq_InrE) (auto split: prod.splits)
  note cb = counted_blocks [OF c]
  have "crc_state_ok t st"
  proof (cases "nid2 = K_CRC")
    case True
    then obtain hm missing i1 i2 where m: "read_defined_crcs hm n i1 = Inr (missing, i2)"
      and st: "assign_crcs hm missing bs \<lparr>cs_has_crc = bitset_reserve_len_exact t bitset_new,
         cs_crcs = replicate t 0, cs_next_crc = 0, cs_next_missing = 0\<rparr> = Inr st"
      using d by auto
    show ?thesis
      using assign_crcs_spec [OF start_crc_state, of t bs missing hm] cb count_digests_spec [OF n]
        length_read_defined_crcs [OF m] st by auto
  next
    case False
    then show ?thesis using d start_crc_state by auto
  qed
  then have "sub_streams_ok a'" using le cb by (simp add: sub_streams_ok_def a' crc_state_ok_def)
  then show ?thesis using counted_blocks_ok cb assms(2) by (auto simp: a')
qed

section \<open>No panics\<close>

lemma bounds_add_no_panic: "bounds_add_count hb t n \<noteq> Inl Panic"
  by (auto simp: bounds_add_count_def bounds_no_panic split: option.splits)

lemma panic_free_read_stream_counts: "panic_free (read_stream_counts hb bs t)"
proof (induction bs arbitrary: t)
  case (Cons b bs)
  show ?case unfolding read_stream_counts.simps
    by (intro panic_free_pbind panic_free_case_prod panic_free_basic panic_free_read_variable_u64
        bounds_no_panic bounds_add_no_panic Cons.IH)
qed auto

lemma panic_free_read_sized_streams: "panic_free (read_sized_streams n acc)"
proof (induction n arbitrary: acc)
  case (Suc n)
  show ?case unfolding read_sized_streams.simps
    by (intro panic_free_pbind panic_free_case_prod panic_free_basic panic_free_read_variable_u64
        checked_no_panic Suc.IH)
qed auto

lemma panic_free_read_stream_sizes: "\<forall>b\<in>set bs. block_sized b \<Longrightarrow> panic_free (read_stream_sizes nid bs)"
proof (induction bs)
  case (Cons b bs)
  then have "unpack_size_or_panic b \<noteq> Inl Panic"
    using block_sized_unpack_size [of b] by (auto simp: unpack_size_or_panic_def)
  then show ?case unfolding read_stream_sizes.simps using Cons
    by (intro panic_free_pbind panic_free_if panic_free_case_prod panic_free_basic
        panic_free_read_sized_streams Cons.IH) auto
qed auto

lemma pbind_no_panicI:
  assumes "p bs \<noteq> Inl Panic" "\<And>a r. p bs = Inr (a, r) \<Longrightarrow> f a r \<noteq> Inl Panic"
  shows "pbind p f bs \<noteq> Inl Panic"
  using assms by (auto simp: pbind_def split: sum.splits)

lemma read_sub_streams_info_no_panic:
  assumes "\<forall>b\<in>set (blocks a). block_ok hb b \<and> block_sized b"
  shows "read_sub_streams_info hb a inp \<noteq> Inl Panic"
proof -
  have counts: "panic_free (if nid = K_NUM_UNPACK_STREAM
      then pbind (read_stream_counts hb (map (\<lambda>b. b\<lparr>num_unpack_sub_streams := 1\<rparr>) (blocks a)) 0)
        (\<lambda>(bs, t). pbind read_u8 (\<lambda>nid. preturn (bs, t, nid)))
      else preturn (map (\<lambda>b. b\<lparr>num_unpack_sub_streams := 1\<rparr>) (blocks a),
        length (map (\<lambda>b. b\<lparr>num_unpack_sub_streams := 1\<rparr>) (blocks a)), nid))" for nid
    by (intro panic_free_if panic_free_pbind panic_free_case_prod panic_free_basic panic_free_read_u8
        panic_free_read_stream_counts)
  have crcs: "panic_free (if nid2 = K_CRC
            then pbind (read_all_or_bits n) (\<lambda>has_missing.
                 pbind (read_defined_crcs has_missing n) (\<lambda>missing.
                 pbind (plift (assign_crcs has_missing missing bs \<lparr>cs_has_crc = bitset_reserve_len_exact t bitset_new,
                   cs_crcs = replicate t 0, cs_next_crc = 0, cs_next_missing = 0\<rparr>)) (\<lambda>st.
                 pbind read_u8 (\<lambda>nid. preturn (st, nid)))))
            else preturn (\<lparr>cs_has_crc = bitset_reserve_len_exact t bitset_new,
                   cs_crcs = replicate t 0, cs_next_crc = 0, cs_next_missing = 0\<rparr>, nid2))"
    if "t = subs_total bs" "n = missing_total bs" for nid2 n bs t
  proof -
    have "assign_crcs hm missing bs \<lparr>cs_has_crc = bitset_reserve_len_exact t bitset_new,
        cs_crcs = replicate t 0, cs_next_crc = 0, cs_next_missing = 0\<rparr> \<noteq> Inl Panic"
      if "length missing = n" for hm missing
      using assign_crcs_spec [OF start_crc_state, of t bs missing hm] that \<open>t = subs_total bs\<close> \<open>n = missing_total bs\<close> by auto
    then show ?thesis
      by (auto simp: panic_free_def pbind_eq_Panic panic_freeD [OF panic_free_read_bits(2)]
          panic_freeD [OF panic_free_read_defined_crcs] panic_freeD [OF panic_free_read_u8] length_read_defined_crcs)
  qed
  have sizes: "panic_free (read_stream_sizes nid' bs)"
    if "(if nid = K_NUM_UNPACK_STREAM
      then pbind (read_stream_counts hb (map (\<lambda>b. b\<lparr>num_unpack_sub_streams := 1\<rparr>) (blocks a)) 0)
        (\<lambda>(bs, t). pbind read_u8 (\<lambda>nid. preturn (bs, t, nid)))
      else preturn (map (\<lambda>b. b\<lparr>num_unpack_sub_streams := 1\<rparr>) (blocks a),
        length (map (\<lambda>b. b\<lparr>num_unpack_sub_streams := 1\<rparr>) (blocks a)), nid)) i1 = Inr ((bs, t, nid''), i2)"
    for nid nid' nid'' i1 i2 bs t
    using counted_blocks [OF that] counted_blocks_ok assms by (intro panic_free_read_stream_sizes) blast
  show ?thesis
    unfolding read_sub_streams_info_def Let_def
    apply (rule pbind_no_panicI, rule panic_freeD [OF panic_free_read_u8])
    apply (rule pbind_no_panicI, rule panic_freeD [OF counts])
    apply (simp only: split_paired_all prod.case)
    apply (rule pbind_no_panicI, erule panic_freeD [OF sizes])
    apply (rule pbind_no_panicI)
     apply (drule counted_blocks, drule read_stream_sizes_spec, simp)
    apply (rule pbind_no_panicI, rule panic_freeD, intro panic_free_if panic_free_read_u8 panic_free_basic)
    apply (rule pbind_no_panicI, simp add: count_digests_no_panic)
    apply (rule pbind_no_panicI)
     apply (drule counted_blocks, rule panic_freeD [OF crcs], blast, auto dest: count_digests_spec)
    apply (simp add: pbind_eq_Panic split: prod.splits)
    done
qed


lemma sequential_case_list [intro]:
  "sequential p \<Longrightarrow> (\<And>x xs. sequential (f x xs)) \<Longrightarrow> sequential (case l of [] \<Rightarrow> p | x # xs \<Rightarrow> f x xs)"
  by (cases l) simp_all

lemma sequential_read_sub_streams_info [intro]: "sequential (read_sub_streams_info hb a)"
proof -
  have "sequential (read_stream_counts hb bs t)" for bs t
  proof (induction bs arbitrary: t)
    case (Cons b bs)
    show ?case unfolding read_stream_counts.simps
      by (intro sequential_pbind sequential_case_prod sequential_intros sequential_read_variable_u64 Cons.IH)
  qed auto
  moreover have sized: "sequential (read_sized_streams n acc)" for n acc
  proof (induction n arbitrary: acc)
    case (Suc n)
    show ?case unfolding read_sized_streams.simps
      by (intro sequential_pbind sequential_case_prod sequential_intros sequential_read_variable_u64 Suc.IH)
  qed auto
  moreover have "sequential (read_stream_sizes nid bs)" for nid bs
  proof (induction bs)
    case (Cons b bs)
    show ?case unfolding read_stream_sizes.simps
      by (intro sequential_pbind sequential_if sequential_case_prod sequential_intros sized Cons.IH)
  qed (simp add: sequential_def)
  ultimately show ?thesis
    unfolding read_sub_streams_info_def Let_def
    by (intro sequential_pbind sequential_if sequential_case_prod sequential_intros sequential_read_u8
        sequential_read_all_or_bits sequential_read_defined_crcs)
qed

lemma sequential_read_streams_info [intro]: "sequential (read_streams_info hb a)"
  unfolding read_streams_info_def
  by (intro sequential_pbind sequential_if sequential_case_prod sequential_intros sequential_read_u8
      sequential_read_pack_info sequential_read_unpack_info sequential_read_sub_streams_info)

text \<open>What holds of an archive whose streams have been read.\<close>

definition streams_ok :: "header_bounds \<Rightarrow> archive \<Rightarrow> bool" where
  "streams_ok hb a \<longleftrightarrow> (\<forall>b\<in>set (blocks a). block_ok hb b \<and> block_sized b) \<and> sub_streams_ok a"

lemma read_streams_info_stages:
  assumes "blocks a = []" "sub_streams a = None"
  shows "read_streams_info hb a inp \<noteq> Inl Panic"
    and "read_streams_info hb a inp = Inr (a', r) \<Longrightarrow> streams_ok hb a'"
proof -
  define st1 where "st1 nid = (if nid = K_PACK_INFO
            then pbind (read_pack_info hb a) (\<lambda>a. pbind read_u8 (\<lambda>nid. preturn (a, nid)))
            else preturn (a, nid))" for nid
  define st2 where "st2 a nid = (if nid = K_UNPACK_INFO
            then pbind (read_unpack_info hb a) (\<lambda>a. pbind read_u8 (\<lambda>nid. preturn (a, nid)))
            else preturn (a\<lparr>blocks := []\<rparr>, nid))" for a nid
  define st3 where "st3 a nid = (if nid = K_SUB_STREAMS_INFO
            then pbind (read_sub_streams_info hb a) (\<lambda>a. pbind read_u8 (\<lambda>nid. preturn (a, nid)))
            else preturn (a, nid))" for a nid
  have eq: "read_streams_info hb a = pbind read_u8 (\<lambda>nid. pbind (st1 nid) (\<lambda>(a, nid). pbind (st2 a nid) (\<lambda>(a, nid).
      pbind (st3 a nid) (\<lambda>(a, nid). pbind (pensure (BadTerminatedStreamsInfo nid) (nid = K_END)) (\<lambda>_. preturn a)))))"
    by (simp add: read_streams_info_def st1_def st2_def st3_def)
  have s1: "blocks a1 = [] \<and> sub_streams a1 = None" if "st1 nid i = Inr ((a1, nid'), i')" for nid i a1 nid' i'
    using that assms by (auto simp: st1_def dest: read_pack_info_frame split: if_splits)
  have s2: "(\<forall>b\<in>set (blocks a2). block_ok hb b \<and> block_sized b) \<and> sub_streams a2 = None"
    if "st2 a1 nid i = Inr ((a2, nid'), i')" "blocks a1 = [] \<and> sub_streams a1 = None" for a1 nid i a2 nid' i'
    using that by (auto simp: st2_def dest: read_unpack_info_spec split: if_splits)
  have s3: "streams_ok hb a3"
    if "st3 a2 nid i = Inr ((a3, nid'), i')"
      "(\<forall>b\<in>set (blocks a2). block_ok hb b \<and> block_sized b) \<and> sub_streams a2 = None" for a2 nid i a3 nid' i'
    using that by (auto simp: st3_def streams_ok_def sub_streams_ok_def dest: read_sub_streams_info_spec split: if_splits)
  have p1: "panic_free (st1 nid)" for nid
    unfolding st1_def by (intro panic_free_if panic_free_pbind panic_free_basic panic_free_read_u8 panic_free_read_pack_info)
  have p2: "panic_free (st2 a1 nid)" for a1 nid
    unfolding st2_def by (intro panic_free_if panic_free_pbind panic_free_basic panic_free_read_u8 panic_free_read_unpack_info)
  have p3: "st3 a2 nid i \<noteq> Inl Panic" if "\<forall>b\<in>set (blocks a2). block_ok hb b \<and> block_sized b" for a2 nid i
    using read_sub_streams_info_no_panic [OF that]
    by (auto simp: st3_def pbind_eq_Panic panic_freeD [OF panic_free_read_u8])
  show "read_streams_info hb a inp \<noteq> Inl Panic"
    unfolding eq
    by (auto simp: pbind_eq_Panic panic_freeD [OF panic_free_read_u8] panic_freeD [OF p1] panic_freeD [OF p2]
        dest!: s1 s2 p3)
  show "streams_ok hb a'" if "read_streams_info hb a inp = Inr (a', r)"
    using that unfolding eq by (auto dest!: s1 s2 s3)
qed

section \<open>Files and the whole header\<close>

lemma panic_free_read_name_units [intro]: "panic_free (read_name_units mb mn read cache)"
  unfolding panic_free_def
proof
  fix bs show "read_name_units mb mn read cache bs \<noteq> Inl Panic"
  proof (induction mb mn read cache bs rule: read_name_units.induct)
    case (1 mb mn read cache bs)
    show ?case
    proof (cases "read < mb")
      case True
      have "(if u = 0 then preturn (cache, read + 2)
             else if mn \<le> length cache * 2
             then pfail (LimitExceeded NameBytes (of_nat mn) (of_nat mn + 2))
             else read_name_units mb mn (read + 2) (cache @ [u])) bs' \<noteq> Inl Panic"
        if "read_u16 bs = Inr (u, bs')" for u bs'
        using 1 [OF True that] by (cases "u = 0"; cases "mn \<le> length cache * 2") simp_all
      then show ?thesis using True
        by (auto simp: read_name_units.simps [of mb mn read cache bs] pbind_eq_Panic
            panic_freeD [OF panic_free_read_words(1)])
    next
      case False
      then show ?thesis by (simp add: read_name_units.simps [of mb mn read cache bs])
    qed
  qed
qed

lemma panic_free_read_names [intro]: "panic_free (read_names mb mn read i fs)"
  unfolding panic_free_def
proof
  fix bs show "read_names mb mn read i fs bs \<noteq> Inl Panic"
  proof (induction mb mn read i fs bs rule: read_names.induct)
    case (1 mb mn read i fs bs)
    show ?case
    proof (cases "mb \<le> read \<or> length fs \<le> i")
      case True
      then show ?thesis by (auto simp: read_names.simps [of mb mn read i fs bs] pbind_eq_Panic)
    next
      case False
      then show ?thesis using 1
        by (auto simp: read_names.simps [of mb mn read i fs bs] pbind_eq_Panic
            panic_freeD [OF panic_free_read_name_units] split: option.splits)
    qed
  qed
qed

lemma panic_free_read_file_times [intro]:
  "panic_free read \<Longrightarrow> panic_free (read_file_times what w wo read n st)"
  unfolding read_file_times_def read_dated_def
  by (intro panic_free_pbind panic_free_pmap panic_free_case_prod panic_free_if panic_free_basic
      panic_free_read_u8 panic_free_read_bits) simp_all

lemma panic_free_skip_bytes: "panic_free (skip_bytes n)"
  by (simp add: panic_free_def skip_bytes_def)

lemma panic_free_read_file_property: "panic_free (read_file_property hb n t sz st)"
  unfolding read_file_property_def
  by (intro panic_free_if panic_free_case_option panic_free_pbind panic_free_basic panic_free_read_bits
      panic_free_read_u8 panic_free_read_names panic_free_read_file_times panic_free_read_words
      panic_free_skip_bytes bounds_no_panic) simp_all

lemma panic_free_read_file_properties: "panic_free (read_file_properties hb n st)"
  unfolding panic_free_def
proof
  fix bs show "read_file_properties hb n st bs \<noteq> Inl Panic"
    by (induction hb n st bs rule: read_file_properties.induct)
      (auto simp: read_file_properties.simps [of _ _ _ "_ :: bytes"] pbind_eq_Panic panic_freeD [OF panic_free_read_u8]
        panic_freeD [OF panic_free_read_variable_u64] panic_freeD [OF panic_free_read_file_property] split: if_splits)
qed

lemma assign_streams_no_panic: "assign_streams info st fs i k e \<noteq> Inl Panic"
  by (induction fs arbitrary: i k e) (auto simp: Let_def ebind_def split: option.splits sum.splits)

lemma panic_free_read_files_info [intro]: "panic_free (read_files_info hb a)"
  unfolding read_files_info_def
  by (intro panic_free_pbind panic_free_basic panic_free_read_variable_u64 panic_free_read_file_properties
      bounds_no_panic assign_streams_no_panic calculate_stream_map_no_panic)

lemma panic_free_read_archive_properties [intro]: "panic_free (read_archive_properties hb)"
proof -
  have "read_archive_properties_from hb nid bs \<noteq> Inl Panic" for nid bs
    by (induction hb nid bs rule: read_archive_properties_from.induct)
      (auto simp: read_archive_properties_from.simps [of _ _ "_ :: bytes"] pbind_eq_Panic bounds_no_panic
        panic_freeD [OF panic_free_read_u8] panic_freeD [OF panic_free_read_variable_u64]
        panic_freeD [OF panic_free_skip_bytes] split: if_splits)
  then have "panic_free (read_archive_properties_from hb nid)" for nid by (simp add: panic_free_def)
  then show ?thesis unfolding read_archive_properties_def by (intro panic_free_pbind panic_free_read_u8)
qed

lemma sequential_read_files_info [intro]: "sequential (read_files_info hb a)"
proof -
  have "sequential (read_file_properties hb n st)" for n st
  proof (rule sequentialI)
    fix bs a r
    show "read_file_properties hb n st bs = Inr (a, r) \<Longrightarrow> \<exists>used. bs = used @ r"
    proof (induction hb n st bs rule: read_file_properties.induct)
      case (1 hb n st bs)
      obtain t bs1 where t: "read_u8 bs = Inr (t, bs1)"
        using 1(2) by (auto simp: read_file_properties.simps [of hb n st bs])
      then have bs: "bs = [t] @ bs1" by (simp add: read_u8_eq_Inr)
      show ?case
      proof (cases "t = 0")
        case True
        then have "read_file_properties hb n st bs = Inr (st, bs1)"
          using t by (subst read_file_properties.simps) (simp add: pbind_def)
        then show ?thesis using 1(2) bs by auto
      next
        case False
        then obtain sz bs2 st' bs3 where sz: "read_variable_u64 bs1 = Inr (sz, bs2)"
          and st': "read_file_property hb n t sz st bs2 = Inr (st', bs3)"
          and rec: "read_file_properties hb n st' bs3 = Inr (a, r)"
          using 1(2) t by (auto simp: read_file_properties.simps [of hb n st bs])
        obtain u3 where "bs3 = u3 @ r" using 1(1) [OF t False sz st' rec] by blast
        moreover obtain u1 where "bs1 = u1 @ bs2" using sequentialD [OF sequential_read_variable_u64 sz] ..
        moreover obtain u2 where "bs2 = u2 @ bs3" using sequentialD [OF sequential_read_file_property st'] ..
        ultimately show ?thesis using bs by auto
      qed
    qed
  qed
  then show ?thesis
    unfolding read_files_info_def
    by (intro sequential_pbind sequential_intros sequential_read_variable_u64)
qed

lemma sequential_read_archive_properties [intro]: "sequential (read_archive_properties hb)"
proof -
  have "sequential (read_archive_properties_from hb nid)" for nid
  proof (rule sequentialI)
    fix bs a r
    show "read_archive_properties_from hb nid bs = Inr (a, r) \<Longrightarrow> \<exists>used. bs = used @ r"
    proof (induction hb nid bs rule: read_archive_properties_from.induct)
      case (1 hb nid bs)
      show ?case
      proof (cases "nid = K_END")
        case True
        then have "read_archive_properties_from hb nid bs = Inr ((), bs)"
          by (subst read_archive_properties_from.simps) simp
        then show ?thesis using 1(2) by auto
      next
        case False
        then obtain v bs1 n u bs2 nid' bs3 where v: "read_variable_u64 bs = Inr (v, bs1)"
          and n: "plift (bounds_size hb v) bs1 = Inr (n, bs1)" and sk: "skip_bytes n bs1 = Inr (u, bs2)"
          and nid': "read_u8 bs2 = Inr (nid', bs3)"
          and rec: "read_archive_properties_from hb nid' bs3 = Inr (a, r)"
          using 1(2) by (auto simp: read_archive_properties_from.simps [of hb nid bs])
        obtain u3 where "bs3 = u3 @ r" using 1(1) [OF False v n sk nid' rec] by blast
        moreover obtain u1 where "bs = u1 @ bs1" using sequentialD [OF sequential_read_variable_u64 v] ..
        moreover obtain u2 where "bs1 = u2 @ bs2" using sequentialD [OF sequential_skip_bytes sk] ..
        moreover have "bs2 = [nid'] @ bs3" using nid' by (simp add: read_u8_eq_Inr)
        ultimately show ?thesis by auto
      qed
    qed
  qed
  then show ?thesis
    unfolding read_archive_properties_def by (intro sequential_pbind sequential_read_u8)
qed

lemma sequential_read_header [intro]: "sequential (read_header hb a)"
  unfolding read_header_def
  by (intro sequential_pbind sequential_if sequential_case_prod sequential_intros sequential_read_u8
      sequential_read_archive_properties sequential_read_streams_info sequential_read_files_info)

lemma calculate_stream_map_frame:
  "calculate_stream_map a = Inr a' \<Longrightarrow> blocks a' = blocks a \<and> sub_streams a' = sub_streams a \<and> pack_sizes a' = pack_sizes a"
  by (erule calculate_stream_map_parts) simp

lemma read_files_info_frame:
  "read_files_info hb a inp = Inr (a', r) \<Longrightarrow> blocks a' = blocks a \<and> sub_streams a' = sub_streams a"
  unfolding read_files_info_def by (auto dest!: calculate_stream_map_frame)

lemma streams_ok_frame:
  "blocks a' = blocks a \<Longrightarrow> sub_streams a' = sub_streams a \<Longrightarrow> streams_ok hb a \<Longrightarrow> streams_ok hb a'"
  by (simp add: streams_ok_def sub_streams_ok_def)

lemma read_header_safe:
  assumes "blocks a = []" "sub_streams a = None"
  shows "read_header hb a inp \<noteq> Inl Panic"
    and "read_header hb a inp = Inr (a', r) \<Longrightarrow> streams_ok hb a'"
proof -
  show "read_header hb a inp \<noteq> Inl Panic"
    unfolding read_header_def
    by (auto simp: pbind_eq_Panic panic_freeD [OF panic_free_read_u8] calculate_stream_map_no_panic
        panic_freeD [OF panic_free_read_files_info] panic_freeD [OF panic_free_read_archive_properties]
        read_streams_info_stages(1) [OF assms] split: if_splits)
  assume r: "read_header hb a inp = Inr (a', r)"
  then obtain nid a1 nid1 i1 i2 i3 i4 nid2 where
    s: "(if nid = K_MAIN_STREAMS_INFO
            then pbind (read_streams_info hb a) (\<lambda>a. pbind read_u8 (\<lambda>nid. preturn (a, nid)))
            else preturn (a, nid)) i1 = Inr ((a1, nid1), i2)"
    and f: "(if nid1 = K_FILES_INFO
            then pbind (read_files_info hb a1) (\<lambda>a. pbind read_u8 (\<lambda>nid. preturn (a, nid)))
            else pbind (plift (calculate_stream_map a1)) (\<lambda>a. preturn (a, nid1))) i3 = Inr ((a', nid2), i4)"
    unfolding read_header_def by auto
  have "streams_ok hb a1"
    using s assms read_streams_info_stages(2) [OF assms]
    by (auto simp: streams_ok_def sub_streams_ok_def split: if_splits)
  then show "streams_ok hb a'"
    using f by (auto dest!: read_files_info_frame calculate_stream_map_frame intro: streams_ok_frame [of a' a1] split: if_splits)
qed

section \<open>Properties\<close>

text \<open>
  C14: no header makes the parser panic, and what it accepts is well formed.  For every byte
  string and all limits, \<open>read_header\<close> returns an archive or an error; it reads the bytes in
  order; in the archive every block is decodable and has a size for every output stream, and
  the sub-streams' sizes, CRCs and CRC flags are one per declared sub-stream.
\<close>

theorem header_parser_is_safe:
  "read_header hb default_archive inp \<noteq> Inl Panic
    \<and> (\<forall>a rest. read_header hb default_archive inp = Inr (a, rest) \<longrightarrow>
        (\<exists>used. inp = used @ rest)
        \<and> (\<forall>b\<in>set (blocks a). block_ranges b \<and> streams_bound_once b \<and> no_reachable_cycle b
            \<and> length (block_unpack_sizes b) = total_output_streams b \<and> (\<exists>v. get_unpack_size b = Some v))
        \<and> (\<forall>i. sub_streams a = Some i \<longrightarrow>
            length (unpack_sizes i) = total_unpack_sub_streams a \<and> length (crcs i) = total_unpack_sub_streams a
            \<and> bitset_members (has_crc i) \<subseteq> {..<total_unpack_sub_streams a}))"
proof -
  have da: "blocks default_archive = []" "sub_streams default_archive = None"
    by (simp_all add: default_archive_def)
  have "streams_ok hb a" if "read_header hb default_archive inp = Inr (a, rest)" for a rest
    using read_header_safe(2) [OF da that] .
  then show ?thesis
    using read_header_safe(1) [OF da] sequentialD [OF sequential_read_header] members_bounded
    by (fastforce simp: streams_ok_def block_ok_def sub_streams_ok_def block_sized_def total_unpack_sub_streams_def
        subs_total_def [symmetric] intro: block_sized_unpack_size [unfolded block_sized_def])
qed

lemma empty_streams_header:
  "\<exists>a. read_header \<lparr>hb_bytes = 9, hb_limits = limits_default\<rparr> default_archive [4, 0, 0, 7] = Inr (a, [7])"
  by (simp add: read_header_def read_streams_info_def pbind_def K_defs calculate_stream_map_def default_archive_def)

theorem header_parser_is_safe_witness:
  "\<exists>a used. read_header \<lparr>hb_bytes = 9, hb_limits = limits_default\<rparr> default_archive [4, 0, 0, 7] = Inr (a, [7])
    \<and> ([4, 0, 0, 7] :: bytes) = used @ [7]"
  using empty_streams_header header_parser_is_safe [of "\<lparr>hb_bytes = 9, hb_limits = limits_default\<rparr>" "[4, 0, 0, 7]"]
  by blast

text \<open>
  C20: the sub-streams of a block add up to the block.  When the header lists sizes, or no block
  has more than one sub-stream, the sizes that are read (with the last of each block computed)
  are one per sub-stream, in block order, and the sizes of a block that has any sum to exactly
  the block's unpacked size, with no wrap-around.
\<close>

theorem sub_stream_sizes_add_up:
  assumes "read_stream_sizes nid bs inp = Inr (sizes, rest)"
    and "nid = K_SIZE \<or> list_all (\<lambda>b. num_unpack_sub_streams b \<le> 1) bs"
  shows "sizes_add_up bs sizes"
  using read_stream_sizes_spec [OF assms(1)] assms(2) by blast

lemma three_sized_streams: "read_sized_streams (Suc (Suc 0)) 0 [2, 3, 5] = Inr (([2, 3], 5), [5])"
  by (simp add: pbind_def read_variable_small checked_add_def)

theorem sub_stream_sizes_add_up_witness:
  "read_stream_sizes K_SIZE [default_block\<lparr>total_output_streams := 1, block_unpack_sizes := [9],
      num_unpack_sub_streams := Suc (Suc (Suc 0))\<rparr>] [2, 3, 5] = Inr ([2, 3, 4], [5])
    \<and> sizes_add_up [default_block\<lparr>total_output_streams := 1, block_unpack_sizes := [9],
      num_unpack_sub_streams := Suc (Suc (Suc 0))\<rparr>] [2, 3, 4]"
proof -
  have "unpack_size_or_panic (default_block\<lparr>total_output_streams := 1, block_unpack_sizes := [9],
      num_unpack_sub_streams := Suc (Suc (Suc 0))\<rparr>) = Inr 9"
    by (simp add: unpack_size_or_panic_def get_unpack_size_def find_bind_pair_for_out_stream_def default_block_def
        nth_option_def)
  then have "read_stream_sizes K_SIZE [default_block\<lparr>total_output_streams := 1, block_unpack_sizes := [9],
      num_unpack_sub_streams := Suc (Suc (Suc 0))\<rparr>] [2, 3, 5] = Inr ([2, 3, 4], [5])"
    using three_sized_streams by (simp del: read_sized_streams.simps add: pbind_def)
  then show ?thesis using sub_stream_sizes_add_up [of K_SIZE] by blast
qed

section \<open>Entries and their sub-streams\<close>

definition entry_matches :: "sub_streams_info option \<Rightarrow> nat \<Rightarrow> archive_entry \<Rightarrow> bool" where
  "entry_matches info k f \<longleftrightarrow>
     (if has_stream f
      then (\<exists>subs. info = Some subs \<and> k < length (unpack_sizes subs) \<and> k < length (crcs subs)
        \<and> entry_size f = unpack_sizes subs ! k \<and> entry_crc f = crcs subs ! k
        \<and> (entry_has_crc f \<longleftrightarrow> bitset_contains (has_crc subs) k) \<and> \<not> is_directory f \<and> \<not> is_anti_item f)
      else entry_size f = 0 \<and> \<not> entry_has_crc f)"

lemma assign_streams_spec:
  "assign_streams info st fs i k e = Inr fs' \<Longrightarrow>
    length fs' = length fs \<and> (\<forall>j<length fs'. entry_matches info (k + streamed_before fs' j) (fs' ! j))"
proof (induction fs arbitrary: i k e fs')
  case (Cons f fs)
  define streamed where "streamed = (case fs_empty_stream st of None \<Rightarrow> True | Some s \<Rightarrow> \<not> bitset_contains s i)"
  show ?case
  proof (cases streamed)
    case True
    then obtain subs c n rest where info: "info = Some subs" "nth_option (crcs subs) k = Some c"
      "nth_option (unpack_sizes subs) k = Some n"
      and r: "assign_streams info st fs (i + 1) (k + 1) e = Inr rest"
      and fs': "fs' = f\<lparr>has_stream := True, is_directory := False, is_anti_item := False,
                        entry_has_crc := bitset_contains (has_crc subs) k, entry_crc := c, entry_size := n\<rparr> # rest"
      using Cons.prems by (auto simp: streamed_def [symmetric] split: option.splits)
    show ?thesis using Cons.IH [OF r] info
      by (auto simp: fs' entry_matches_def nth_option_def nth_Cons split: if_splits nat.splits)
  next
    case False
    then obtain rest d an where r: "assign_streams info st fs (i + 1) k (e + 1) = Inr rest"
      and fs': "fs' = f\<lparr>has_stream := False, is_directory := d, is_anti_item := an,
                  entry_has_crc := False, entry_size := 0\<rparr> # rest"
      using Cons.prems by (auto simp: streamed_def [symmetric])
    show ?thesis using Cons.IH [OF r]
      by (auto simp: fs' entry_matches_def nth_Cons split: nat.splits)
  qed
qed simp

lemma entry_matches_size [simp]: "entry_matches info k (f\<lparr>compressed_size := n\<rparr>) = entry_matches info k f"
  by (simp add: entry_matches_def)

lemma streamed_before_sizes:
  assumes "map (\<lambda>f. f\<lparr>compressed_size := 0\<rparr>) fs' = map (\<lambda>f. f\<lparr>compressed_size := 0\<rparr>) fs"
  shows "streamed_before fs' j = streamed_before fs j"
proof -
  have "streamed_before (map (\<lambda>f. f\<lparr>compressed_size := 0\<rparr>) gs) j = streamed_before gs j" for gs
    by (simp add: streamed_before_def take_map filter_map o_def)
  then show ?thesis using assms by metis
qed

lemma entries_match_sizes:
  assumes "map (\<lambda>f. f\<lparr>compressed_size := 0\<rparr>) fs' = map (\<lambda>f. f\<lparr>compressed_size := 0\<rparr>) fs"
    and "\<forall>j<length fs. entry_matches info (streamed_before fs j) (fs ! j)"
  shows "\<forall>j<length fs'. entry_matches info (streamed_before fs' j) (fs' ! j)"
proof (intro allI impI)
  fix j assume j: "j < length fs'"
  have len: "length fs' = length fs" using assms(1) map_eq_imp_length_eq by blast
  have "(fs' ! j)\<lparr>compressed_size := 0\<rparr> = (fs ! j)\<lparr>compressed_size := 0\<rparr>"
    using assms(1) j len by (metis nth_map)
  then have "entry_matches info k (fs' ! j) = entry_matches info k (fs ! j)" for k
    by (metis entry_matches_size)
  then show "entry_matches info (streamed_before fs' j) (fs' ! j)"
    using assms(2) j len streamed_before_sizes [OF assms(1)] by simp
qed

text \<open>
  C17: every entry gets the sub-stream that is its own.  When the file list is read, entry \<open>j\<close>
  has a stream exactly when the empty-stream vector does not name it; if it is the \<open>k\<close>-th of
  those its size, CRC and CRC flag are those of sub-stream \<open>k\<close>, which exists; an entry without
  a stream has size 0 and no CRC; and the block list is left as it is.
\<close>

theorem entries_get_their_substreams:
  assumes "read_files_info hb a inp = Inr (a', r)"
  shows "(\<forall>j<length (files a').
      entry_matches (sub_streams a) (streamed_before (files a') j) (files a' ! j))
    \<and> blocks a' = blocks a \<and> sub_streams a' = sub_streams a"
proof -
  from assms obtain st fs where fs: "assign_streams (sub_streams a) st (fs_files st) 0 0 0 = Inr fs"
    and m: "calculate_stream_map (a\<lparr>files := fs\<rparr>) = Inr a'"
    unfolding read_files_info_def by auto
  obtain ff fb files' fp where
    "assign_blocks (blocks a) (pack_sizes a) fp fs 0 0 0 (replicate (length (blocks a)) 0) = Inr (ff, fb, files')"
    and "files a' = files'"
    using m by (elim calculate_stream_map_parts) simp
  then have "map (\<lambda>f. f\<lparr>compressed_size := 0\<rparr>) (files a') = map (\<lambda>f. f\<lparr>compressed_size := 0\<rparr>) fs"
    using assign_blocks_Inr [OF _ start_in_file_loop] by (fastforce simp: files_placed_def)
  moreover have "\<forall>j<length fs. entry_matches (sub_streams a) (streamed_before fs j) (fs ! j)"
    using assign_streams_spec [OF fs] by simp
  ultimately show ?thesis using entries_match_sizes read_files_info_frame [OF assms] by blast
qed

text \<open>A file list of an empty entry and a streamed one.\<close>

lemma two_bits_read:
  "read_bits 2 [0x80, 0, 0] = Inr (snd (bitset_insert 0 (bitset_with_capacity 2)), [0, 0])"
  by code_simp

definition two_entry_archive :: archive where
  "two_entry_archive = default_archive\<lparr>pack_sizes := [10],
     blocks := [default_block\<lparr>packed_streams := [0], num_unpack_sub_streams := 1\<rparr>],
     sub_streams := Some \<lparr>unpack_sizes = [5], has_crc = bitset_new, crcs = [0]\<rparr>\<rparr>"

lemma two_entries_read:
  "\<exists>a'. read_files_info \<lparr>hb_bytes = 9, hb_limits = limits_default\<rparr> two_entry_archive
      [2, 14, 1, 0x80, 0, 0] = Inr (a', [0])
    \<and> map has_stream (files a') = [False, True] \<and> map entry_size (files a') = [0, 5]"
proof -
  define empty where "empty = snd (bitset_insert 0 (bitset_with_capacity 2))"
  have c: "bounds_count \<lparr>hb_bytes = 9, hb_limits = limits_default\<rparr> 2 Entries = Inr 2"
    by (simp add: bounds_count_def bounds_cap_def limits_default_def)
  have e: "bitset_contains empty 0" "\<not> bitset_contains empty (Suc 0)"
    unfolding empty_def by code_simp+
  have p: "read_file_properties hb 2 st [14, 1, 0x80, 0, 0] = Inr (st\<lparr>fs_empty_stream := Some empty\<rparr>, [0])" for hb st
    by (simp add: read_file_properties.simps pbind_def read_variable_small read_file_property_def two_bits_read
        empty_def K_defs)
  have r: "replicate 2 x = [x, x]" for x :: archive_entry by (simp add: numeral_2_eq_2)
  show ?thesis
    by (simp add: two_entry_archive_def read_files_info_def pbind_def read_variable_small c p r e nth_option_def Let_def
        calculate_stream_map_def default_archive_def default_block_def default_entry_def
        checked_add_usize_def usize_max_def checked_add_def seek_block.simps nth_or_panic_def)
qed

theorem entries_get_their_substreams_witness:
  "\<exists>a'. read_files_info \<lparr>hb_bytes = 9, hb_limits = limits_default\<rparr> two_entry_archive
      [2, 14, 1, 0x80, 0, 0] = Inr (a', [0])
    \<and> entry_matches (sub_streams two_entry_archive) 0 (files a' ! 1)"
proof -
  obtain a' where a': "read_files_info \<lparr>hb_bytes = 9, hb_limits = limits_default\<rparr> two_entry_archive
      [2, 14, 1, 0x80, 0, 0] = Inr (a', [0])"
    and h: "map has_stream (files a') = [False, True]"
    using two_entries_read by (elim exE conjE)
  have "1 < length (files a')" using arg_cong [OF h, of length] by simp
  moreover have "streamed_before (files a') 1 = 0"
    using h by (cases "files a'") (auto simp: streamed_before_def)
  ultimately have "entry_matches (sub_streams two_entry_archive) 0 (files a' ! 1)"
    using conjunct1 [OF entries_get_their_substreams [OF a'], rule_format, of 1] by simp
  with a' show ?thesis by (intro exI [of _ a'] conjI)
qed

end
