(* ===== verification/Lzma2_Plan.thy ===== *)
theory Lzma2_Plan
  imports Limits
begin

text \<open>
  The planning arithmetic of \<open>src/codec/lzma_turbo.rs\<close>: dictionaries as the coder properties
  name them, the clamp to the size of the output, the memory a decoder takes, whether a block is
  decoded in parallel and with which budget, and the shared control block.  An atomic is a field
  of the control record: every access in the source is a single load or store.  The CRC folder is
  a third-party structure; the model keeps the segments pushed since it was last cleared and the
  question it answers about them is the parameter \<open>in_range\<close>.
\<close>

section \<open>Dictionaries\<close>

definition lzma_dictionary_size :: "bytes \<Rightarrow> u32 result" where
  "lzma_dictionary_size properties =
     (if length properties < 5 then Inl (Other ''LZMA properties too short'')
      else Inr (from_le_bytes [properties ! 1, properties ! 2, properties ! 3, properties ! 4]))"

definition lzma2_dictionary_size :: "bytes \<Rightarrow> u32 result" where
  "lzma2_dictionary_size properties =
     (case properties of
        [] \<Rightarrow> Inl (Other ''LZMA2 properties too short'')
      | b # _ \<Rightarrow>
          (let v = ucast b :: u32
           in if v AND NOT 0x3F \<noteq> 0 then Inl (Other ''Unsupported LZMA2 property bits'')
              else if 40 < v then Inl (Other ''Dictionary larger than 4GiB maximum size'')
              else if v = 40 then Inr 0xFFFFFFFF
              else Inr (push_bit (unat (v div 2 + 11)) (2 OR (v AND 1)))))"

definition clamp_dictionary :: "u32 \<Rightarrow> u64 \<Rightarrow> u32" where
  "clamp_dictionary dict_size unpacked_size =
     (let needed = min (max unpacked_size 4096) 0xFFFFFFFF
      in min dict_size (ucast needed))"

definition lzma2_clamped_prop :: "u8 \<Rightarrow> u64 \<Rightarrow> u8" where
  "lzma2_clamped_prop p unpacked_size =
     (case lzma2_dictionary_size [p] of
        Inl _ \<Rightarrow> p
      | Inr dict \<Rightarrow>
          (let target = clamp_dictionary dict unpacked_size
           in case find (\<lambda>c. case lzma2_dictionary_size [c] of Inl _ \<Rightarrow> False | Inr n \<Rightarrow> target \<le> n)
                     (map of_nat [0..<unat p + 1]) of
                None \<Rightarrow> p
              | Some c \<Rightarrow> c))"

definition lzma2_memory_usage_kb :: "u32 \<Rightarrow> nat" where
  "lzma2_memory_usage_kb dict_size = unat (div_ceil (saturating_add (ucast dict_size) LZ_STATE_BYTES) 1024)"

section \<open>The plan of a block\<close>

definition MT_INPUT_CHUNK :: nat where "MT_INPUT_CHUNK = 2 ^ 20"
definition MT_MIN_BUDGET_BYTES :: u64 where "MT_MIN_BUDGET_BYTES = 32 * 1024 * 1024"
definition MT_BUDGET_PER_THREAD_BYTES :: u64 where "MT_BUDGET_PER_THREAD_BYTES = 512 * 1024 * 1024"
definition MT_FEED_PER_THREAD_BYTES :: u64 where "MT_FEED_PER_THREAD_BYTES = 128 * 1024 * 1024"
definition MT_MIN_FEED_BYTES :: u64 where "MT_MIN_FEED_BYTES = 1024 * 1024 * 1024"
definition MT_BACKLOG_RUNS_PER_THREAD :: u64 where "MT_BACKLOG_RUNS_PER_THREAD = 2"
definition MT_MIN_BUDGET_FLOOR_BYTES :: u64 where "MT_MIN_BUDGET_FLOOR_BYTES = 2 * MT_MIN_FEED_BYTES"

definition saturating_mul :: "u64 \<Rightarrow> u64 \<Rightarrow> u64" where
  "saturating_mul a b = (if unat a * unat b < 2 ^ 64 then a * b else u64_max)"

definition saturating_sub :: "u64 \<Rightarrow> u64 \<Rightarrow> u64" where
  "saturating_sub a b = (if b \<le> a then a - b else 0)"

definition mt_budget :: "u32 \<Rightarrow> u64 \<Rightarrow> u32 \<Rightarrow> u64 option" where
  "mt_budget threads limit_bytes dict_size =
     (let budget =
        (if limit_bytes = u64_max
         then max (saturating_mul (ucast threads) MT_BUDGET_PER_THREAD_BYTES) MT_MIN_BUDGET_FLOOR_BYTES
         else saturating_sub limit_bytes (saturating_add (ucast dict_size) LZ_STATE_BYTES))
      in if MT_MIN_BUDGET_BYTES \<le> budget then Some budget else None)"

datatype lzma2_plan = SingleThreaded | Adaptive u32 u64 "u64 list"

definition plan_for_block :: "u32 \<Rightarrow> bool \<Rightarrow> u64 \<Rightarrow> u32 \<Rightarrow> u64 list \<Rightarrow> lzma2_plan" where
  "plan_for_block threads adaptive limit_bytes dict_size splits =
     (if threads \<le> 1 \<and> \<not> adaptive then SingleThreaded
      else case mt_budget threads limit_bytes dict_size of
          None \<Rightarrow> SingleThreaded
        | Some memory_limit \<Rightarrow> Adaptive threads memory_limit splits)"

definition feed_target :: "u32 \<Rightarrow> u64 \<Rightarrow> u64" where
  "feed_target threads memory_limit =
     min (max (saturating_mul (ucast (max threads 1)) MT_FEED_PER_THREAD_BYTES) MT_MIN_FEED_BYTES)
         (memory_limit div 2)"

definition backlog_wanted :: "u32 \<Rightarrow> u64 \<Rightarrow> u64" where
  "backlog_wanted applied_threads pending_runs =
     saturating_sub (ucast (max applied_threads 1) * MT_BACKLOG_RUNS_PER_THREAD) pending_runs"

section \<open>The control block\<close>

record lzma2_control =
  ctl_threads :: u32
  ctl_engaged :: bool
  ctl_block_index :: nat
  ctl_pending_runs :: nat
  ctl_runs_claimed :: u64
  ctl_in_flight_bytes :: u64
  ctl_spawned_threads :: u32
  ctl_folder :: "(u64 \<times> u64 \<times> u32) list"

record lzma2_progress =
  lp_block_index :: nat
  lp_threads :: u32
  lp_spawned_threads :: u32
  lp_pending_runs :: nat
  lp_runs_claimed :: u64
  lp_in_flight_bytes :: u64

definition control_new :: "u32 \<Rightarrow> lzma2_control" where
  "control_new threads =
     \<lparr>ctl_threads = max threads 1, ctl_engaged = False, ctl_block_index = 0, ctl_pending_runs = 0,
      ctl_runs_claimed = 0, ctl_in_flight_bytes = 0, ctl_spawned_threads = 0, ctl_folder = []\<rparr>"

text \<open>A segment that carries no CRC-32 is not folded.\<close>

definition fold_segments :: "(u64 \<times> u64 \<times> u32 option) list \<Rightarrow> lzma2_control \<Rightarrow> lzma2_control" where
  "fold_segments segments c =
     (if segments = [] then c
      else c\<lparr>ctl_folder := fold (\<lambda>(offset, len, check) folder.
               case check of None \<Rightarrow> folder | Some crc32 \<Rightarrow> folder @ [(offset, len, crc32)]) segments (ctl_folder c)\<rparr>)"

definition folded :: "((u64 \<times> u64 \<times> u32) list \<Rightarrow> u64 \<Rightarrow> u64 \<Rightarrow> u32 option) \<Rightarrow> lzma2_control \<Rightarrow> u64 \<Rightarrow> u64 \<Rightarrow> u32 option" where
  "folded in_range c offset len = in_range (ctl_folder c) offset len"

definition clear_folded :: "lzma2_control \<Rightarrow> lzma2_control" where
  "clear_folded c = c\<lparr>ctl_folder := []\<rparr>"

definition control_set_threads :: "u32 \<Rightarrow> lzma2_control \<Rightarrow> lzma2_control" where
  "control_set_threads threads c = c\<lparr>ctl_threads := max threads 1\<rparr>"

definition engage :: "lzma2_control \<Rightarrow> lzma2_control" where
  "engage c = c\<lparr>ctl_engaged := True\<rparr>"

definition control_finish :: "lzma2_control \<Rightarrow> lzma2_control" where
  "control_finish c = c\<lparr>ctl_pending_runs := 0, ctl_in_flight_bytes := 0\<rparr>"

definition set_block_index :: "nat \<Rightarrow> lzma2_control \<Rightarrow> lzma2_control" where
  "set_block_index block_index c =
     clear_folded (c\<lparr>ctl_block_index := block_index, ctl_engaged := False, ctl_pending_runs := 0,
       ctl_runs_claimed := 0, ctl_in_flight_bytes := 0, ctl_spawned_threads := 0\<rparr>)"

definition control_progress :: "lzma2_control \<Rightarrow> lzma2_progress option" where
  "control_progress c =
     (if \<not> ctl_engaged c then None
      else Some \<lparr>lp_block_index = ctl_block_index c, lp_threads = ctl_threads c,
        lp_spawned_threads = ctl_spawned_threads c, lp_pending_runs = ctl_pending_runs c,
        lp_runs_claimed = ctl_runs_claimed c, lp_in_flight_bytes = ctl_in_flight_bytes c\<rparr>)"

definition handle_set_threads :: "u32 \<Rightarrow> lzma2_control \<Rightarrow> lzma2_control" where
  "handle_set_threads threads = control_set_threads (min (max threads 1) 256)"

section \<open>The dictionary table\<close>

definition dictionary_of :: "nat \<Rightarrow> nat" where
  "dictionary_of p = (if p = 40 then 2 ^ 32 - 1 else (2 + p mod 2) * 2 ^ (p div 2 + 11))"

lemma dictionary_of_step: "p < 40 \<Longrightarrow> dictionary_of p < dictionary_of (Suc p)"
proof (cases "p = 39")
  case False
  assume "p < 40"
  then have "p \<noteq> 40" "Suc p \<noteq> 40" using False by simp_all
  moreover have "(2 + p mod 2) * 2 ^ (p div 2 + 11) < (2 + Suc p mod 2) * (2 :: nat) ^ (Suc p div 2 + 11)"
  proof (cases "even p")
    case True
    then have "p mod 2 = 0" "Suc p mod 2 = 1" "Suc p div 2 = p div 2" by presburger+
    then show ?thesis by simp
  next
    case False
    then have "p mod 2 = 1" "Suc p mod 2 = 0" "Suc p div 2 = Suc (p div 2)" by presburger+
    then show ?thesis by (simp add: power_add)
  qed
  ultimately show ?thesis by (simp add: dictionary_of_def)
qed (simp add: dictionary_of_def)

lemma dictionary_of_less: "p < q \<Longrightarrow> q \<le> 40 \<Longrightarrow> dictionary_of p < dictionary_of q"
proof (induction q)
  case (Suc q)
  then show ?case using dictionary_of_step [of q] by (cases "p = q") auto
qed simp

lemma dictionary_of_le: "p \<le> q \<Longrightarrow> q \<le> 40 \<Longrightarrow> dictionary_of p \<le> dictionary_of q"
  using dictionary_of_less [of p q] by (cases "p = q") auto

lemma dictionary_of_bound: "p \<le> 40 \<Longrightarrow> dictionary_of p \<le> 2 ^ 32 - 1"
  using dictionary_of_le [of p 40] by (simp add: dictionary_of_def)

lemma dictionary_word:
  fixes v :: u32
  assumes "unat v < 40"
  shows "unat (push_bit (unat (v div 2 + 11)) (2 OR (v AND 1))) = dictionary_of (unat v)"
proof -
  have "v AND 1 = of_nat (unat v mod 2)"
    by (simp add: and_one_eq word_unat_eq_iff unat_mod unsigned_of_nat take_bit_nat_eq_self)
  moreover have "unat v mod 2 = 0 \<or> unat v mod 2 = 1" by auto
  ultimately have m: "2 OR (v AND 1) = of_nat (2 + unat v mod 2)" by auto
  have k: "unat (v div 2 + 11) = unat v div 2 + 11"
    using assms by (simp add: unat_word_ariths unat_div)
  define d where "d = (2 + unat v mod 2) * 2 ^ (unat v div 2 + 11)"
  have "dictionary_of (unat v) = d" using assms by (simp add: dictionary_of_def d_def)
  moreover have "dictionary_of (unat v) < 2 ^ 32" using dictionary_of_bound [of "unat v"] assms by simp
  moreover have "push_bit (unat v div 2 + 11) (of_nat (2 + unat v mod 2) :: u32) = of_nat d"
    by (subst push_bit_of_nat) (simp only: d_def push_bit_eq_mult)
  ultimately show ?thesis unfolding k m by (simp add: unsigned_of_nat take_bit_nat_eq_self)
qed

lemma dictionary_size_Inr:
  "lzma2_dictionary_size [p] = Inr d \<longleftrightarrow> unat p \<le> 40 \<and> unat d = dictionary_of (unat p)"
proof -
  define v where "v = (ucast p :: u32)"
  have v: "unat v = unat p"
    by (simp add: v_def unat_ucast_widen)
  consider "40 < unat p" | "unat p = 40" | "unat p < 40" by linarith
  then show ?thesis
  proof cases
    case 1
    then show ?thesis using v by (simp add: lzma2_dictionary_size_def v_def [symmetric] word_less_nat_alt)
  next
    case 2
    then have "v = 40" using v by (simp add: word_unat_eq_iff)
    then have "lzma2_dictionary_size [p] = Inr 0xFFFFFFFF" by (simp add: lzma2_dictionary_size_def v_def [symmetric])
    then show ?thesis using 2 by (auto simp: dictionary_of_def word_unat_eq_iff)
  next
    case 3
    then have "unat v < 2 ^ 6" using v by simp
    then have "\<not> bit v n" if "6 \<le> n" for n using bit_above_bound [of v 6] that by blast
    then have "v AND NOT (mask 6) = 0" by (intro bit_word_eqI) (auto simp: bit_simps not_less)
    then have "v AND NOT 0x3F = 0" by (simp add: mask_numeral)
    moreover have "\<not> 40 < v" "v \<noteq> 40" using 3 v by (auto simp: word_less_nat_alt)
    ultimately have "lzma2_dictionary_size [p] = Inr (push_bit (unat (v div 2 + 11)) (2 OR (v AND 1)))"
      by (simp add: lzma2_dictionary_size_def v_def [symmetric])
    then show ?thesis using 3 v dictionary_word [of v] by (auto simp: word_unat_eq_iff)
  qed
qed


text \<open>The clamp: enough for the output, no more than was declared.\<close>

lemma unat_clamp:
  "unat (clamp_dictionary d n) = min (unat d) (min (max (unat n) 4096) (2 ^ 32 - 1))"
proof -
  have "unat (min (max n 4096) 0xFFFFFFFF) < 2 ^ 32" by (simp add: min_def word_le_nat_alt)
  then have "unat (ucast (min (max n 4096) 0xFFFFFFFF) :: u32) = unat (min (max n 4096) 0xFFFFFFFF)"
    by (simp add: unsigned_ucast_eq take_bit_nat_eq_self)
  moreover have "unat (min (max n 4096) 0xFFFFFFFF) = min (max (unat n) 4096) (2 ^ 32 - 1)"
    by (simp add: min_def max_def word_le_nat_alt)
  ultimately show ?thesis by (simp add: clamp_dictionary_def min_def word_le_nat_alt)
qed

lemma find_upt_least:
  assumes "P n" "n < k"
  obtains m where "find P [0..<k] = Some m" "P m" "m \<le> n" "\<And>i. i < m \<Longrightarrow> \<not> P i"
proof -
  obtain m where m: "find P [0..<k] = Some m"
    using assms by (cases "find P [0..<k]") (auto simp: find_None_iff)
  then obtain i where "i < k" "P ([0..<k] ! i)" "m = [0..<k] ! i" "\<And>j. j < i \<Longrightarrow> \<not> P ([0..<k] ! j)"
    by (auto simp: find_Some_iff)
  then have "P m" "\<And>j. j < m \<Longrightarrow> \<not> P j" by auto
  moreover have "m \<le> n" using calculation(2) [of n] assms(1) not_le by blast
  ultimately show thesis using m that by blast
qed

lemma find_map: "find P (map f xs) = map_option f (find (P \<circ> f) xs)"
  by (induction xs) auto

lemma clamped_prop_spec:
  assumes "lzma2_dictionary_size [p] = Inr declared"
  obtains d where "lzma2_dictionary_size [lzma2_clamped_prop p n] = Inr d"
    "clamp_dictionary declared n \<le> d" "d \<le> declared" "unat (lzma2_clamped_prop p n) \<le> unat p"
    "\<And>q e. q < lzma2_clamped_prop p n \<Longrightarrow> lzma2_dictionary_size [q] = Inr e \<Longrightarrow> e < clamp_dictionary declared n"
proof -
  define fits where "fits c \<longleftrightarrow> (case lzma2_dictionary_size [c] of Inl _ \<Rightarrow> False | Inr n' \<Rightarrow> clamp_dictionary declared n \<le> n')" for c
  have "clamp_dictionary declared n \<le> declared" by (simp add: word_le_nat_alt unat_clamp)
  then have "fits (of_nat (unat p))" using assms by (simp add: fits_def)
  then obtain m where m: "find (fits \<circ> of_nat) [0..<unat p + 1] = Some m" "fits (of_nat m)" "m \<le> unat p"
    "\<And>i. i < m \<Longrightarrow> \<not> fits (of_nat i)"
    using find_upt_least [of "fits \<circ> of_nat" "unat p" "unat p + 1"] by auto
  have c: "lzma2_clamped_prop p n = of_nat m"
    using m(1) assms unfolding lzma2_clamped_prop_def fits_def [abs_def]
    by (simp add: find_map Let_def del: upt_Suc)
  have um: "unat (of_nat m :: u8) = m"
    using m(3) u8_bound [of p] by (simp add: unsigned_of_nat take_bit_nat_eq_self)
  obtain d where d: "lzma2_dictionary_size [of_nat m] = Inr d" "clamp_dictionary declared n \<le> d"
    using m(2) by (auto simp: fits_def split: sum.splits)
  have "d \<le> declared"
    using d(1) assms m(3) um dictionary_of_le [of m "unat p"] by (simp add: dictionary_size_Inr word_le_nat_alt)
  moreover have "e < clamp_dictionary declared n" if "q < of_nat m" "lzma2_dictionary_size [q] = Inr e" for q e
  proof -
    have "unat q < m" using that(1) um by (simp add: word_less_nat_alt)
    then have "\<not> fits (of_nat (unat q))" using m(4) by blast
    then show ?thesis using that(2) by (auto simp: fits_def not_le)
  qed
  ultimately show thesis using that [of d] c d um m(3) by simp
qed

section \<open>Properties\<close>

lemma unat_div_ceil: "unat (div_ceil x 1024) = unat x div 1024 + (if unat x mod 1024 = 0 then 0 else 1)"
proof -
  have "unat x div 1024 + 1 < 2 ^ 64" using u64_bound [of x] by simp
  then have "unat (x div 1024 + 1) = unat x div 1024 + 1"
    by (simp add: unat_word_ariths unat_div)
  moreover have "x mod 1024 = 0 \<longleftrightarrow> unat x mod 1024 = 0" by (simp add: word_unat_eq_iff unat_mod)
  ultimately show ?thesis by (simp add: div_ceil_def unat_div)
qed

lemma div_ceil_mono:
  assumes "a \<le> b"
  shows "unat (div_ceil a 1024) \<le> unat (div_ceil b 1024)"
proof -
  have le: "unat a \<le> unat b" using assms by (simp add: word_le_nat_alt)
  then consider "unat a div 1024 < unat b div 1024" | "unat a div 1024 = unat b div 1024"
    using div_le_mono [OF le, of 1024] by linarith
  then show ?thesis
  proof cases
    case 2
    then have "unat a mod 1024 \<le> unat b mod 1024"
      using le mult_div_mod_eq [of 1024 "unat a"] mult_div_mod_eq [of 1024 "unat b"] by linarith
    then show ?thesis using 2 by (simp add: unat_div_ceil)
  qed (simp add: unat_div_ceil)
qed

lemma memory_usage_mono:
  assumes "d \<le> e"
  shows "lzma2_memory_usage_kb d \<le> lzma2_memory_usage_kb e"
proof -
  have "saturating_add (ucast d) LZ_STATE_BYTES \<le> saturating_add (ucast e) LZ_STATE_BYTES"
    using assms by (simp add: word_le_nat_alt unat_saturating_add unat_ucast_widen min_def)
  then show ?thesis unfolding lzma2_memory_usage_kb_def by (rule div_ceil_mono)
qed

text \<open>
  C39: clamping the dictionary never costs a decode.  For a property byte the table has, the
  clamped byte names a dictionary that is no larger than the declared one and needs no more
  memory, and that either covers the whole declared output or is the declared dictionary itself;
  no smaller entry of the table would do.
\<close>

theorem clamped_dictionary_suffices:
  assumes "lzma2_dictionary_size [p] = Inr declared"
  shows "\<exists>d. lzma2_dictionary_size [lzma2_clamped_prop p n] = Inr d
    \<and> d \<le> declared \<and> lzma2_memory_usage_kb d \<le> lzma2_memory_usage_kb declared
    \<and> (unat n \<le> unat d \<or> d = declared)
    \<and> (\<forall>q e. q < lzma2_clamped_prop p n \<and> lzma2_dictionary_size [q] = Inr e \<longrightarrow>
        e < declared \<and> unat e < max (unat n) 4096)"
proof -
  obtain d where d: "lzma2_dictionary_size [lzma2_clamped_prop p n] = Inr d"
    "clamp_dictionary declared n \<le> d" "d \<le> declared"
    and least: "\<And>q e. q < lzma2_clamped_prop p n \<Longrightarrow> lzma2_dictionary_size [q] = Inr e \<Longrightarrow> e < clamp_dictionary declared n"
    using clamped_prop_spec [OF assms] by metis
  have "unat n \<le> unat d \<or> d = declared"
    using d(2,3) u32_bound [of declared]
    by (auto simp: word_le_nat_alt unat_clamp word_unat_eq_iff)
  moreover have "e < declared \<and> unat e < max (unat n) 4096" if "e < clamp_dictionary declared n" for e
    using that by (auto simp: word_less_nat_alt unat_clamp)
  ultimately show ?thesis using d memory_usage_mono [OF d(3)] least by blast
qed

theorem clamped_dictionary_suffices_witness:
  "lzma2_dictionary_size [24] = Inr 0x1000000
    \<and> (\<exists>d. lzma2_dictionary_size [lzma2_clamped_prop 24 10000000] = Inr d \<and> d \<le> 0x1000000 \<and> 10000000 \<le> unat d)"
proof -
  have s: "lzma2_dictionary_size [24] = Inr 0x1000000" by code_simp
  obtain d where "lzma2_dictionary_size [lzma2_clamped_prop 24 10000000] = Inr d" "d \<le> 0x1000000"
    "10000000 \<le> unat d \<or> d = 0x1000000"
    using clamped_dictionary_suffices [OF s, of 10000000] by auto
  then show ?thesis using s by auto
qed

text \<open>
  C40: a parallel decode stays inside the caller's memory.  A block is decoded in parallel only
  when more than one thread or adaptivity was asked for; its in-flight budget is at least 32 MiB
  and, when the caller set a limit, budget, dictionary and decoder state together fit in it; and
  the input read ahead of the workers is at most half the budget.
\<close>

theorem parallel_plan_fits_the_limit:
  assumes "plan_for_block threads adaptive limit_bytes dict splits = Adaptive t m s"
  shows "(1 < threads \<or> adaptive) \<and> t = threads \<and> s = splits \<and> 32 * 2 ^ 20 \<le> unat m
    \<and> (limit_bytes \<noteq> u64_max \<longrightarrow> unat m + unat dict + 2 ^ 20 \<le> unat limit_bytes)
    \<and> 2 * unat (feed_target t m) \<le> unat m"
proof -
  from assms have b: "mt_budget threads limit_bytes dict = Some m" and t: "1 < threads \<or> adaptive" "t = threads" "s = splits"
    by (auto simp: plan_for_block_def split: if_splits option.splits)
  have min: "32 * 2 ^ 20 \<le> unat m"
    using b by (auto simp: mt_budget_def MT_MIN_BUDGET_BYTES_def word_le_nat_alt Let_def split: if_splits)
  have own: "unat (saturating_add (ucast dict) LZ_STATE_BYTES) = unat dict + 2 ^ 20"
    using u32_bound [of dict]
    by (simp add: unat_saturating_add unat_ucast_widen LZ_STATE_BYTES_def MIB_def KIB_def)
  have "unat m + unat dict + 2 ^ 20 \<le> unat limit_bytes" if "limit_bytes \<noteq> u64_max"
  proof -
    have "m = saturating_sub limit_bytes (saturating_add (ucast dict) LZ_STATE_BYTES)"
      using b that by (auto simp: mt_budget_def Let_def split: if_splits)
    then have "saturating_add (ucast dict) LZ_STATE_BYTES \<le> limit_bytes"
      "m = limit_bytes - saturating_add (ucast dict) LZ_STATE_BYTES"
      using min by (auto simp: saturating_sub_def split: if_splits)
    then show ?thesis using own by (simp add: unat_sub word_le_nat_alt)
  qed
  moreover have "2 * unat (feed_target t m) \<le> unat m"
  proof -
    have "feed_target t m \<le> m div 2" by (simp add: feed_target_def)
    then have "unat (feed_target t m) \<le> unat m div 2" by (simp add: word_le_nat_alt unat_div)
    then show ?thesis by linarith
  qed
  ultimately show ?thesis using t min by blast
qed

theorem parallel_plan_fits_the_limit_witness:
  "plan_for_block 8 False 0x10000000 0x2000000 [0] = Adaptive 8 0xDF00000 [0] \<and> 2 * unat (feed_target 8 0xDF00000) \<le> unat (0xDF00000 :: u64)"
proof -
  have p: "plan_for_block 8 False 0x10000000 0x2000000 [0] = Adaptive 8 0xDF00000 [0]"
    by (simp add: plan_for_block_def word_le_nat_alt mt_budget_def saturating_sub_def saturating_add_def LZ_STATE_BYTES_def
        MIB_def KIB_def MT_MIN_BUDGET_BYTES_def u64_max_def)
  then show ?thesis using parallel_plan_fits_the_limit [OF p] p by blast
qed

end
