(* ===== verification/Aes_Key.thy ===== *)
theory Aes_Key
  imports Limits Utf16
begin

text \<open>
  Passwords (\<open>src/encryption/password.rs\<close>) and the key derivation of \<open>src/encryption/aes.rs\<close>:
  the coder's properties, raw-key mode, the one-entry cache of derived keys and the budget of
  SHA-256 rounds that a password carries.  SHA-256 itself is the parameter \<open>sha\<close>, a record of
  the three operations of \<open>Sha256Like\<close>.  The cache is behind a mutex; every function holds it
  from its first access to its last, so the model passes the password and returns it.
\<close>

section \<open>Passwords\<close>

record cached_key =
  ck_power :: u8
  ck_salt :: bytes
  ck_key :: bytes

record key_cache =
  kc_key :: "cached_key option"
  kc_rounds :: u64

record password =
  pw_bytes :: bytes
  pw_cache :: key_cache

definition empty_cache :: key_cache where
  "empty_cache = \<lparr>kc_key = None, kc_rounds = 0\<rparr>"

definition password_from_raw :: "bytes \<Rightarrow> password" where
  "password_from_raw bs = \<lparr>pw_bytes = bs, pw_cache = empty_cache\<rparr>"

definition password_empty :: password where
  "password_empty = \<lparr>pw_bytes = [], pw_cache = empty_cache\<rparr>"

definition password_clone :: "password \<Rightarrow> password" where
  "password_clone p = password_from_raw (pw_bytes p)"

definition password_eq :: "password \<Rightarrow> password \<Rightarrow> bool" where
  "password_eq p q \<longleftrightarrow> pw_bytes p = pw_bytes q"

definition password_is_empty :: "password \<Rightarrow> bool" where
  "password_is_empty p \<longleftrightarrow> pw_bytes p = []"

definition password_of_string :: "ustring \<Rightarrow> password" where
  "password_of_string s = \<lparr>pw_bytes = concat (map write_u16 (encode_utf16 s)), pw_cache = empty_cache\<rparr>"

section \<open>Deriving a key\<close>

record 's sha256 =
  sha_new :: 's
  sha_update :: "'s \<Rightarrow> bytes \<Rightarrow> 's"
  sha_finalize :: "'s \<Rightarrow> bytes"

text \<open>The counter is incremented byte by byte, the carry moving right.\<close>

fun bump_counter :: "bytes \<Rightarrow> bytes" where
  "bump_counter [] = []"
| "bump_counter (b # bs) = (if b + 1 \<noteq> 0 then (b + 1) # bs else 0 # bump_counter bs)"

fun kdf_rounds :: "'s sha256 \<Rightarrow> bytes \<Rightarrow> bytes \<Rightarrow> nat \<Rightarrow> 's \<Rightarrow> bytes \<Rightarrow> 's" where
  "kdf_rounds sha salt pw 0 st extra = st"
| "kdf_rounds sha salt pw (Suc n) st extra =
     kdf_rounds sha salt pw n
       (sha_update sha (sha_update sha (sha_update sha st salt) pw) extra) (bump_counter extra)"

definition derive_key :: "'s sha256 \<Rightarrow> u8 \<Rightarrow> bytes \<Rightarrow> bytes \<Rightarrow> bytes" where
  "derive_key sha num_cycles_power salt pw =
     sha_finalize sha (kdf_rounds sha salt pw (unat (push_bit (unat num_cycles_power) 1 :: u64))
       (sha_new sha) (replicate 8 0))"

definition derive_key_with_budget ::
  "'s sha256 \<Rightarrow> u8 \<Rightarrow> bytes \<Rightarrow> password \<Rightarrow> u64 \<Rightarrow> bytes result \<times> password" where
  "derive_key_with_budget sha num_cycles_power salt pw max_rounds =
     (let derive =
        (case checked_add (kc_rounds (pw_cache pw)) (push_bit (unat num_cycles_power) 1) of
           None \<Rightarrow> (Inl (Other ''AES KDF work total overflow''), pw)
         | Some rounds \<Rightarrow>
             if max_rounds < rounds then (Inl (LimitExceeded AesKdfRounds max_rounds rounds), pw)
             else let key = derive_key sha num_cycles_power salt (pw_bytes pw)
                  in (Inr key, pw\<lparr>pw_cache := \<lparr>kc_key = Some \<lparr>ck_power = num_cycles_power, ck_salt = salt, ck_key = key\<rparr>,
                                 kc_rounds = rounds\<rparr>\<rparr>))
      in case kc_key (pw_cache pw) of
           Some cached \<Rightarrow>
             if ck_power cached = num_cycles_power \<and> ck_salt cached = salt then (Inr (ck_key cached), pw) else derive
         | None \<Rightarrow> derive)"

text \<open>A single property byte is padded with a zero; the key and the initialisation vector.\<close>

definition get_aes_key ::
  "'s sha256 \<Rightarrow> bytes \<Rightarrow> password \<Rightarrow> u8 \<Rightarrow> u64 \<Rightarrow> (bytes \<times> bytes) result \<times> password" where
  "get_aes_key sha props pw max_cycles_power max_kdf_rounds =
     (if props = [] then (Inl (Other ''AES256 properties too short''), pw)
      else
        let props = (if length props = 1 then props @ [0] else props);
            b0 = props ! 0;
            num_cycles_power = b0 AND 63;
            b1 = props ! 1;
            iv_size = unat ((drop_bit 6 b0 AND 1) + (b1 AND 15));
            salt_size = unat ((drop_bit 7 b0 AND 1) + drop_bit 4 b1)
        in if length props < 2 + salt_size + iv_size
           then (Inl (Other ''Salt size + IV size too long''), pw)
           else
             let salt = take salt_size (drop 2 props);
                 iv = take iv_size (drop (2 + salt_size) props) @ replicate (16 - iv_size) 0
             in if password_is_empty pw then (Inl PasswordRequired, pw)
                else if num_cycles_power = 0x3F
                then let n = min (length (pw_bytes pw)) (32 - salt_size);
                         key = salt @ take n (pw_bytes pw)
                     in (Inr (key @ replicate (32 - length key) 0, iv), pw)
                else
                  let cap = min max_cycles_power MAX_AES_CYCLES_POWER
                  in if cap < num_cycles_power
                     then (Inl (LimitExceeded AesCyclesPower (ucast cap) (ucast num_cycles_power)), pw)
                     else case derive_key_with_budget sha num_cycles_power salt pw max_kdf_rounds of
                            (Inl e, pw') \<Rightarrow> (Inl e, pw')
                          | (Inr key, pw') \<Rightarrow> (Inr (key, iv), pw'))"

section \<open>The derivation is the hash of the counted rounds\<close>

text \<open>
  A streaming hash: \<open>seen\<close> is the input a state has absorbed, and finalizing hashes it.  This is
  the documented contract of every SHA-256 interface with init, update and finalize.
\<close>

definition streaming :: "'s sha256 \<Rightarrow> ('s \<Rightarrow> bytes) \<Rightarrow> (bytes \<Rightarrow> bytes) \<Rightarrow> bool" where
  "streaming sha seen H \<longleftrightarrow> seen (sha_new sha) = []
     \<and> (\<forall>s data. seen (sha_update sha s data) = seen s @ data)
     \<and> (\<forall>s. sha_finalize sha s = H (seen s))"

definition kdf_message :: "bytes \<Rightarrow> bytes \<Rightarrow> nat \<Rightarrow> bytes" where
  "kdf_message salt pw n = concat (map (\<lambda>i. salt @ pw @ write_u64_le (of_nat i)) [0..<n])"

lemma length_bump [simp]: "length (bump_counter bs) = length bs"
  by (induction bs) auto

lemma bump_le_bytes:
  assumes "unat v + 1 < 2 ^ 64"
  shows "bump_counter (to_le_bytes n (v :: u64)) = to_le_bytes n (v + 1)"
  using assms
proof (induction n arbitrary: v)
  case (Suc n)
  have v1: "unat (v + 1) = unat v + 1" using Suc.prems by (simp add: unat_word_ariths)
  have low: "(ucast (v + 1) :: u8) = ucast v + 1"
    by (simp add: word_unat_eq_iff unsigned_ucast_eq v1 unat_word_ariths take_bit_eq_mod mod_Suc_eq mod_mod_cancel)
  have byte: "unat (ucast v :: u8) = unat v mod 256"
    by (simp add: unsigned_ucast_eq take_bit_eq_mod)
  have high: "unat (drop_bit 8 w) = unat w div 256" for w :: u64
    by (simp add: unat_div drop_bit_eq_div)
  show ?case
  proof (cases "(ucast v + 1 :: u8) = 0")
    case False
    then have "unat v mod 256 \<noteq> 255"
      using byte by (auto simp: word_unat_eq_iff unat_word_ariths)
    then have "(unat v + 1) div 256 = unat v div 256" by (simp add: div_Suc mod_Suc)
    then have "drop_bit 8 (v + 1) = drop_bit 8 v" by (simp add: word_unat_eq_iff high v1)
    then show ?thesis using False low by simp
  next
    case True
    then have "(unat v mod 256 + 1) mod 256 = 0"
      using byte unat_word_ariths(1) [of "ucast v :: u8" 1] by simp
    then have "unat v mod 256 = 255" by (simp add: mod_Suc split: if_splits)
    then have d: "(unat v + 1) div 256 = unat v div 256 + 1" by (simp add: div_Suc mod_Suc)
    have small: "unat v div 256 + 1 < 2 ^ 64" using u64_bound [of v] by simp
    have "unat (drop_bit 8 (v + 1)) = unat v div 256 + 1" unfolding high v1 d ..
    moreover have "unat (drop_bit 8 v + 1) = unat v div 256 + 1"
      using small unat_word_ariths(1) [of "drop_bit 8 v" 1] by (simp only: high) simp
    ultimately have "drop_bit 8 (v + 1) = drop_bit 8 v + 1" unfolding word_unat_eq_iff by (rule trans [OF _ sym])
    then show ?thesis using True low Suc.IH [of "drop_bit 8 v"] small by (simp add: high)
  qed
qed simp

lemma kdf_message_Suc:
  "kdf_message salt pw (Suc n) = kdf_message salt pw n @ salt @ pw @ write_u64_le (of_nat n)"
  by (simp add: kdf_message_def)

lemma kdf_rounds_seen:
  assumes "streaming sha seen H" "k + n < 2 ^ 64"
  shows "seen s = kdf_message salt pw k \<Longrightarrow>
    seen (kdf_rounds sha salt pw n s (write_u64_le (of_nat k))) = kdf_message salt pw (k + n)"
  using assms(2)
proof (induction n arbitrary: k s)
  case (Suc n)
  have "unat (of_nat k :: u64) + 1 < 2 ^ 64" using Suc.prems by (simp add: unat_of_nat_u64)
  then have "bump_counter (write_u64_le (of_nat k)) = write_u64_le (of_nat (Suc k))"
    by (simp add: write_u64_le_def bump_le_bytes add.commute)
  moreover have "seen (sha_update sha (sha_update sha (sha_update sha s salt) pw) (write_u64_le (of_nat k)))
    = kdf_message salt pw (Suc k)"
    using assms(1) Suc.prems(1) by (simp add: streaming_def kdf_message_Suc)
  ultimately show ?case using Suc.IH [of _ "Suc k"] Suc.prems(2) by simp
qed simp

lemma counter_start: "replicate 8 0 = write_u64_le (of_nat 0)"
  by (simp add: write_u64_le_def numeral_eq_Suc)

lemma unat_shift_one: "p < 64 \<Longrightarrow> unat (2 ^ p :: u64) = 2 ^ p"
  using unsigned_push_bit_eq [of p "1 :: u64", where 'a = nat]
  by (simp add: take_bit_nat_eq_self push_bit_eq_mult)

text \<open>
  C36: the key a password gives is the hash of the salt, the password and a 64-bit little-endian
  counter, repeated two to the cycles power times with the counter running from zero: the byte
  by byte increment of the code is that counter.
\<close>

theorem derived_key_is_the_counted_hash:
  assumes "streaming sha seen H" "unat num_cycles_power < 64"
  shows "derive_key sha num_cycles_power salt pw = H (kdf_message salt pw (2 ^ unat num_cycles_power))"
proof -
  have small: "(2 :: nat) ^ unat num_cycles_power < 2 ^ 64" using assms(2) by (intro power_strict_increasing) simp_all
  have "seen (sha_new sha) = kdf_message salt pw 0" using assms(1) by (simp add: streaming_def kdf_message_def)
  then have "seen (kdf_rounds sha salt pw (2 ^ unat num_cycles_power) (sha_new sha) (replicate 8 0))
    = kdf_message salt pw (2 ^ unat num_cycles_power)"
    unfolding counter_start using kdf_rounds_seen [OF assms(1), of 0] small by simp
  then show ?thesis using assms by (simp add: derive_key_def unat_shift_one streaming_def)
qed

definition collecting_sha :: "bytes sha256" where
  "collecting_sha = \<lparr>sha_new = [], sha_update = (@), sha_finalize = rev\<rparr>"

theorem derived_key_is_the_counted_hash_witness:
  "streaming collecting_sha id rev \<and> derive_key collecting_sha 1 [7] [8] = rev [7, 8, 0, 0, 0, 0, 0, 0, 0, 0, 7, 8, 1, 0, 0, 0, 0, 0, 0, 0]"
proof -
  have s: "streaming collecting_sha id rev" by (simp add: streaming_def collecting_sha_def)
  have "kdf_message [7] [8] 2 = [7, 8, 0, 0, 0, 0, 0, 0, 0, 0, 7, 8, 1, 0, 0, 0, 0, 0, 0, 0]" by code_simp
  then show ?thesis using s derived_key_is_the_counted_hash [OF s, of 1 "[7]" "[8]"] by simp
qed

section \<open>The budget of rounds\<close>

definition cache_hit :: "password \<Rightarrow> u8 \<Rightarrow> bytes \<Rightarrow> bool" where
  "cache_hit pw p salt \<longleftrightarrow>
     (case kc_key (pw_cache pw) of None \<Rightarrow> False | Some c \<Rightarrow> ck_power c = p \<and> ck_salt c = salt)"

definition cache_ok :: "'s sha256 \<Rightarrow> password \<Rightarrow> bool" where
  "cache_ok sha pw \<longleftrightarrow>
     (case kc_key (pw_cache pw) of None \<Rightarrow> True
      | Some c \<Rightarrow> ck_key c = derive_key sha (ck_power c) (ck_salt c) (pw_bytes pw))"

text \<open>
  The keys a sequence of coders asks of one password, with the rounds that are really hashed:
  those of the calls that return a key and do not find it in the cache.
\<close>

fun use_keys ::
  "'s sha256 \<Rightarrow> u64 \<Rightarrow> (u8 \<times> bytes) list \<Rightarrow> password \<Rightarrow> bytes result list \<times> password \<times> nat" where
  "use_keys sha m [] pw = ([], pw, 0)"
| "use_keys sha m ((p, salt) # calls) pw =
     (let (r, pw') = derive_key_with_budget sha p salt pw m;
          (rs, pw'', work) = use_keys sha m calls pw'
      in (r # rs, pw'', (if cache_hit pw p salt \<or> (\<exists>e. r = Inl e) then 0 else 2 ^ unat p) + work))"

fun answer_ok :: "'s sha256 \<Rightarrow> bytes \<Rightarrow> u64 \<Rightarrow> nat \<Rightarrow> u8 \<times> bytes \<Rightarrow> bytes result \<Rightarrow> bool" where
  "answer_ok sha pw m charged (p, salt) (Inr k) \<longleftrightarrow> k = derive_key sha p salt pw"
| "answer_ok sha pw m charged (p, salt) (Inl e) \<longleftrightarrow> unat m < charged + 2 ^ unat p"

lemma derive_step:
  assumes "derive_key_with_budget sha p salt pw m = (r, pw')" "cache_ok sha pw" "unat p < 64"
  shows "pw_bytes pw' = pw_bytes pw" "cache_ok sha pw'"
    "unat (kc_rounds (pw_cache pw')) = unat (kc_rounds (pw_cache pw))
       + (if cache_hit pw p salt \<or> (\<exists>e. r = Inl e) then 0 else 2 ^ unat p)"
    "kc_rounds (pw_cache pw) \<le> m \<Longrightarrow> kc_rounds (pw_cache pw') \<le> m"
    "r = Inr k \<Longrightarrow> k = derive_key sha p salt (pw_bytes pw)"
    "r = Inl e \<Longrightarrow> \<not> cache_hit pw p salt \<and> unat m < unat (kc_rounds (pw_cache pw)) + 2 ^ unat p"
proof -
  have w: "unat (push_bit (unat p) 1 :: u64) = 2 ^ unat p" using assms(3) by (simp add: unat_shift_one)
  show "pw_bytes pw' = pw_bytes pw" "cache_ok sha pw'"
    "kc_rounds (pw_cache pw) \<le> m \<Longrightarrow> kc_rounds (pw_cache pw') \<le> m"
    "r = Inr k \<Longrightarrow> k = derive_key sha p salt (pw_bytes pw)"
    using assms(1,2)
    by (auto simp: derive_key_with_budget_def cache_ok_def Let_def not_less split: option.splits if_splits)
  show "unat (kc_rounds (pw_cache pw')) = unat (kc_rounds (pw_cache pw))
       + (if cache_hit pw p salt \<or> (\<exists>e. r = Inl e) then 0 else 2 ^ unat p)"
    using assms(1) w
    by (auto simp: derive_key_with_budget_def cache_hit_def Let_def checked_add_SomeD split: option.splits if_splits)
  show "r = Inl e \<Longrightarrow> \<not> cache_hit pw p salt \<and> unat m < unat (kc_rounds (pw_cache pw)) + 2 ^ unat p"
    using assms(1) w u64_bound [of m]
    by (auto simp: derive_key_with_budget_def cache_hit_def Let_def checked_add_None_iff word_less_nat_alt
        dest: checked_add_SomeD split: option.splits if_splits)
qed

lemma use_keys_invariant:
  assumes "use_keys sha m calls pw = (rs, pw', work)" "cache_ok sha pw" "list_all (\<lambda>(p, salt). unat p < 64) calls"
  shows "cache_ok sha pw' \<and> pw_bytes pw' = pw_bytes pw
    \<and> unat (kc_rounds (pw_cache pw')) = unat (kc_rounds (pw_cache pw)) + work
    \<and> (kc_rounds (pw_cache pw) \<le> m \<longrightarrow> kc_rounds (pw_cache pw') \<le> m)
    \<and> list_all2 (answer_ok sha (pw_bytes pw) m (unat (kc_rounds (pw_cache pw')))) calls rs"
  using assms
proof (induction calls arbitrary: pw rs work)
  case (Cons c calls)
  obtain p salt where c: "c = (p, salt)" by (cases c)
  obtain r pw1 where d: "derive_key_with_budget sha p salt pw m = (r, pw1)" by (cases "derive_key_with_budget sha p salt pw m")
  obtain rs2 w2 where u: "use_keys sha m calls pw1 = (rs2, pw', w2)" "rs = r # rs2"
    "work = (if cache_hit pw p salt \<or> (\<exists>e. r = Inl e) then 0 else 2 ^ unat p) + w2"
    using Cons.prems(1) d c by (auto simp: Let_def split: prod.splits)
  have p: "unat p < 64" using Cons.prems(3) c by simp
  note step = derive_step [OF d Cons.prems(2) p]
  have IH: "cache_ok sha pw' \<and> pw_bytes pw' = pw_bytes pw1
    \<and> unat (kc_rounds (pw_cache pw')) = unat (kc_rounds (pw_cache pw1)) + w2
    \<and> (kc_rounds (pw_cache pw1) \<le> m \<longrightarrow> kc_rounds (pw_cache pw') \<le> m)
    \<and> list_all2 (answer_ok sha (pw_bytes pw1) m (unat (kc_rounds (pw_cache pw')))) calls rs2"
    by (rule Cons.IH [OF u(1) step(2)]) (use Cons.prems(3) c in simp)
  have answer: "answer_ok sha (pw_bytes pw) m (unat (kc_rounds (pw_cache pw'))) (p, salt) r"
  proof (cases r)
    case (Inl e)
    then show ?thesis using step(3) step(6) [OF Inl] IH by simp
  next
    case (Inr k)
    then show ?thesis using step(5) [OF Inr] by simp
  qed
  have "unat (kc_rounds (pw_cache pw')) = unat (kc_rounds (pw_cache pw)) + work"
    using IH step(3) u(3) by linarith
  then show ?case using IH answer step(1,4) u(2) c by (metis list_all2_Cons)
qed simp

text \<open>
  C37: what one password costs is bounded.  Whatever sequence of coders uses a password, the
  rounds hashed for it are exactly the rounds charged, and never more than the limit; a key that
  is returned, from the cache or not, is the key of that salt, power and password; and a call is
  refused only when its rounds would not have fitted in what was left of the limit.
\<close>

theorem kdf_work_is_bounded:
  assumes "use_keys sha m calls (password_from_raw pw) = (rs, pw', work)"
    and "\<And>p salt. (p, salt) \<in> set calls \<Longrightarrow> unat p < 64"
  shows "work = unat (kc_rounds (pw_cache pw')) \<and> work \<le> unat m
    \<and> list_all2 (answer_ok sha pw m work) calls rs"
proof -
  have "list_all (\<lambda>(p, salt). unat p < 64) calls" using assms(2) by (auto simp: list_all_iff)
  then show ?thesis
    using use_keys_invariant [OF assms(1)]
    by (auto simp: cache_ok_def password_from_raw_def empty_cache_def word_le_nat_alt)
qed

theorem kdf_work_is_bounded_witness:
  "(\<exists>rs pw' work. use_keys collecting_sha 3 [(1, [9]), (1, [9]), (2, [])] (password_from_raw [5]) = (rs, pw', work)
     \<and> work \<le> 3 \<and> length rs = 3)"
proof -
  obtain rs pw' work where u: "use_keys collecting_sha 3 [(1, [9]), (1, [9]), (2, [])] (password_from_raw [5]) = (rs, pw', work)"
    by (cases "use_keys collecting_sha 3 [(1, [9]), (1, [9]), (2, [])] (password_from_raw [5])") auto
  have "unat p < 64" if "(p, salt) \<in> set [(1 :: u8, [9 :: u8]), (1, [9]), (2, [])]" for p salt using that by auto
  then have "work \<le> unat (3 :: u64)" "list_all2 (answer_ok collecting_sha [5] 3 work) [(1, [9]), (1, [9]), (2, [])] rs"
    using kdf_work_is_bounded [OF u] by blast+
  then have "work \<le> 3 \<and> length rs = 3" by (auto dest: list_all2_lengthD)
  then show ?thesis using u by blast
qed

end
