(* ===== verification/Encoder_Options.thy ===== *)
theory Encoder_Options
  imports Lzma2_Plan Aes_Key
begin

text \<open>
  The options of the encoders (\<open>src/encoder_options.rs\<close>), the coder chain's configuration
  (\<open>EncoderConfiguration\<close> of \<open>src/archive.rs\<close>) and what \<open>src/encoder.rs\<close> makes of them: the
  encoder that is built and the property bytes that are written to the header.  The bounds of the
  PPMd model and the version numbers of brotli and zstd are constants of other crates, hence
  parameters; so are the random salt and initialisation vector.  An encoder is the variant of
  \<open>Encoder\<close> with the arguments its constructor is given; \<open>build\<close> says whether the third-party
  constructor accepts them.  All features are on and \<open>lzma-rust2-encoder\<close> is off, the default.
\<close>

section \<open>LZMA settings\<close>

record lzma_settings =
  ls_level :: u32
  ls_dict_size :: "u32 option"
  ls_nice_len :: "u32 option"

definition DICT_SIZE_MIN :: u32 where "DICT_SIZE_MIN = 4096"
definition DICT_SIZE_MAX :: u32 where "DICT_SIZE_MAX = 4294967280"
definition NICE_LEN_MIN :: u32 where "NICE_LEN_MIN = 8"
definition NICE_LEN_MAX :: u32 where "NICE_LEN_MAX = 273"

definition LEVEL_DICT_SIZE :: "u32 list" where
  "LEVEL_DICT_SIZE = [push_bit 18 1, push_bit 20 1, push_bit 21 1, push_bit 22 1, push_bit 22 1,
     push_bit 23 1, push_bit 23 1, push_bit 24 1, push_bit 25 1, push_bit 26 1]"

definition LEVEL_NICE_LEN :: "u32 list" where
  "LEVEL_NICE_LEN = [128, 128, 273, 273, 16, 32, 64, 64, 64, 64]"

definition LEVEL_DEPTH :: "u32 list" where
  "LEVEL_DEPTH = [4, 8, 24, 48]"

definition clamp_u32 :: "u32 \<Rightarrow> u32 \<Rightarrow> u32 \<Rightarrow> u32" where
  "clamp_u32 v lo hi = (if v < lo then lo else if hi < v then hi else v)"

definition lzma_from_level :: "u32 \<Rightarrow> lzma_settings" where
  "lzma_from_level level = \<lparr>ls_level = (if 9 < level then 9 else level), ls_dict_size = None, ls_nice_len = None\<rparr>"

definition lzma_fast :: "lzma_settings \<Rightarrow> bool" where
  "lzma_fast s \<longleftrightarrow> ls_level s \<le> 3"

definition lzma_set_dict_size :: "u32 \<Rightarrow> lzma_settings \<Rightarrow> lzma_settings" where
  "lzma_set_dict_size dict_size s = s\<lparr>ls_dict_size := Some (clamp_u32 dict_size DICT_SIZE_MIN DICT_SIZE_MAX)\<rparr>"

definition lzma_set_nice_len :: "u32 \<Rightarrow> lzma_settings \<Rightarrow> lzma_settings" where
  "lzma_set_nice_len nice_len s = s\<lparr>ls_nice_len := Some (clamp_u32 nice_len NICE_LEN_MIN NICE_LEN_MAX)\<rparr>"

text \<open>A table is indexed by the level, which panics past its end: \<open>None\<close>.\<close>

definition lzma_dict_size :: "lzma_settings \<Rightarrow> u32 option" where
  "lzma_dict_size s = (case ls_dict_size s of Some d \<Rightarrow> Some d | None \<Rightarrow> nth_option LEVEL_DICT_SIZE (unat (ls_level s)))"

definition lzma_nice_len :: "lzma_settings \<Rightarrow> u32 option" where
  "lzma_nice_len s = (case ls_nice_len s of Some n \<Rightarrow> Some n | None \<Rightarrow> nth_option LEVEL_NICE_LEN (unat (ls_level s)))"

datatype match_finder = Hc4 | Bt4

record turbo_props =
  tp_level :: u32
  tp_dict_size :: u32
  tp_fast_bytes :: u32
  tp_fast_mode :: bool
  tp_match_finder :: match_finder
  tp_match_cycles :: "u32 option"

definition turbo_props_of :: "lzma_settings \<Rightarrow> turbo_props option" where
  "turbo_props_of s =
     (let fast = lzma_fast s in
      case lzma_dict_size s of None \<Rightarrow> None | Some dict \<Rightarrow>
      case lzma_nice_len s of None \<Rightarrow> None | Some nice \<Rightarrow>
      let props = \<lparr>tp_level = ls_level s, tp_dict_size = dict, tp_fast_bytes = nice, tp_fast_mode = fast,
                   tp_match_finder = (if fast then Hc4 else Bt4), tp_match_cycles = None\<rparr>
      in if fast
         then (case nth_option LEVEL_DEPTH (unat (ls_level s)) of None \<Rightarrow> None
               | Some depth \<Rightarrow> Some (props\<lparr>tp_match_cycles := Some depth\<rparr>))
         else Some props)"

definition lzma_props_byte :: u8 where
  "lzma_props_byte = (let lc = 3; lp = 0; pb = 2 in (pb * 5 + lp) * 9 + lc)"

section \<open>The options of each coder\<close>

definition lzma_options_default :: lzma_settings where
  "lzma_options_default = lzma_from_level 6"

record lzma2_options =
  l2_settings :: lzma_settings
  l2_threads :: u32
  l2_chunk_size :: "u64 option"

definition lzma2_options_default :: lzma2_options where
  "lzma2_options_default = \<lparr>l2_settings = lzma_from_level 6, l2_threads = 1, l2_chunk_size = None\<rparr>"

definition lzma2_from_level :: "u32 \<Rightarrow> lzma2_options" where
  "lzma2_from_level level = \<lparr>l2_settings = lzma_from_level level, l2_threads = 1, l2_chunk_size = None\<rparr>"

definition lzma2_from_level_mt :: "u32 \<Rightarrow> u32 \<Rightarrow> u64 \<Rightarrow> lzma2_options" where
  "lzma2_from_level_mt level threads chunk_size =
     \<lparr>l2_settings = lzma_from_level level, l2_threads = threads, l2_chunk_size = Some (max chunk_size 1)\<rparr>"

definition lzma2_set_dictionary_size :: "u32 \<Rightarrow> lzma2_options \<Rightarrow> lzma2_options" where
  "lzma2_set_dictionary_size dict_size o2 = o2\<lparr>l2_settings := lzma_set_dict_size dict_size (l2_settings o2)\<rparr>"

definition lzma2_set_nice_len :: "u32 \<Rightarrow> lzma2_options \<Rightarrow> lzma2_options" where
  "lzma2_set_nice_len nice_len o2 = o2\<lparr>l2_settings := lzma_set_nice_len nice_len (l2_settings o2)\<rparr>"

text \<open>The chunk size, never below the dictionary; the outer \<open>None\<close> is the panic of the level's table.\<close>

definition lzma2_block_size :: "lzma2_options \<Rightarrow> u64 option option" where
  "lzma2_block_size o2 =
     (case l2_chunk_size o2 of None \<Rightarrow> Some None
      | Some chunk \<Rightarrow>
          (case lzma_dict_size (l2_settings o2) of None \<Rightarrow> None
           | Some dict \<Rightarrow> Some (Some (max chunk (ucast dict)))))"

type_synonym bzip2_options = u32

definition bzip2_default :: bzip2_options where "bzip2_default = 6"

definition MINIMAL_SKIPPABLE_FRAME_SIZE :: u32 where "MINIMAL_SKIPPABLE_FRAME_SIZE = 64 * 1024"
definition DEFAULT_SKIPPABLE_FRAME_SIZE :: u32 where "DEFAULT_SKIPPABLE_FRAME_SIZE = 128 * 1024"

record brotli_options =
  br_quality :: u32
  br_window :: u32
  br_skippable_frame_size :: u32

definition brotli_from_quality_window :: "u32 \<Rightarrow> u32 \<Rightarrow> brotli_options" where
  "brotli_from_quality_window quality window =
     \<lparr>br_quality = (if 11 < quality then 11 else quality), br_window = (if 24 < window then 24 else window),
      br_skippable_frame_size = DEFAULT_SKIPPABLE_FRAME_SIZE\<rparr>"

definition brotli_with_skippable_frame_size :: "u32 \<Rightarrow> brotli_options \<Rightarrow> brotli_options" where
  "brotli_with_skippable_frame_size n b =
     (if n = 0 then b\<lparr>br_skippable_frame_size := 0\<rparr>
      else b\<lparr>br_skippable_frame_size := max n MINIMAL_SKIPPABLE_FRAME_SIZE\<rparr>)"

definition brotli_default :: brotli_options where
  "brotli_default = \<lparr>br_quality = 11, br_window = 22, br_skippable_frame_size = DEFAULT_SKIPPABLE_FRAME_SIZE\<rparr>"

type_synonym delta_options = u32

definition delta_from_distance :: "u32 \<Rightarrow> delta_options" where
  "delta_from_distance distance = (if distance = 0 then 1 else if 256 < distance then 256 else distance)"

definition delta_default :: delta_options where "delta_default = 1"

type_synonym deflate_options = u32

definition deflate_from_level :: "u32 \<Rightarrow> deflate_options" where
  "deflate_from_level level = (if 9 < level then 9 else level)"

definition deflate_default :: deflate_options where "deflate_default = 6"

type_synonym lz4_options = u32

definition lz4_default :: lz4_options where "lz4_default = 0"

definition lz4_with_skippable_frame_size :: "u32 \<Rightarrow> lz4_options \<Rightarrow> lz4_options" where
  "lz4_with_skippable_frame_size n l = (if n = 0 then 0 else max n MINIMAL_SKIPPABLE_FRAME_SIZE)"

record ppmd_bounds =
  ppmd_min_order :: u32
  ppmd_max_order :: u32
  ppmd_min_mem :: u32
  ppmd_max_mem :: u32

record ppmd_options =
  pp_order :: u32
  pp_memory_size :: u32

definition PPMD_ORDERS :: "u32 list" where
  "PPMD_ORDERS = [3, 4, 4, 5, 5, 6, 8, 16, 24, 32]"

definition ppmd_from_level :: "u32 \<Rightarrow> ppmd_options" where
  "ppmd_from_level level =
     (let level = (if 9 < level then 9 else level)
      in \<lparr>pp_order = PPMD_ORDERS ! unat level, pp_memory_size = push_bit (unat (level + 19)) 1\<rparr>)"

definition ppmd_from_order_memory_size :: "ppmd_bounds \<Rightarrow> u32 \<Rightarrow> u32 \<Rightarrow> ppmd_options" where
  "ppmd_from_order_memory_size pb order memory_size =
     \<lparr>pp_order = (if ppmd_max_order pb < order then ppmd_max_order pb
                 else if order < ppmd_min_order pb then ppmd_min_order pb else order),
      pp_memory_size = (if ppmd_max_mem pb < memory_size then ppmd_max_mem pb
                 else if memory_size < ppmd_min_mem pb then ppmd_min_mem pb else memory_size)\<rparr>"

definition ppmd_default :: ppmd_options where "ppmd_default = ppmd_from_level 6"

type_synonym zstd_options = u32

definition zstd_from_level :: "u32 \<Rightarrow> zstd_options" where
  "zstd_from_level level = (if 22 < level then 22 else level)"

definition zstd_default :: zstd_options where "zstd_default = 3"

record aes_options =
  ao_password :: password
  ao_iv :: bytes
  ao_salt :: bytes
  ao_num_cycles_power :: u8

definition aes_options_new :: "bytes \<Rightarrow> bytes \<Rightarrow> password \<Rightarrow> aes_options" where
  "aes_options_new random_iv random_salt pw =
     \<lparr>ao_password = pw, ao_iv = random_iv, ao_salt = random_salt, ao_num_cycles_power = 8\<rparr>"

definition aes_properties :: "aes_options \<Rightarrow> bytes" where
  "aes_properties a =
     ((ao_num_cycles_power a AND 0x3F) OR 0xC0) # 0xFF # ao_salt a @ ao_iv a"

datatype encoder_options =
    Delta delta_options
  | Lzma lzma_settings
  | Lzma2 lzma2_options
  | Brotli brotli_options
  | Bzip2 bzip2_options
  | Deflate deflate_options
  | Lz4 lz4_options
  | Ppmd ppmd_options
  | Zstd zstd_options
  | Aes aes_options

definition get_lzma_dict_size :: "encoder_options \<Rightarrow> u32 option" where
  "get_lzma_dict_size opts =
     (case opts of Lzma s \<Rightarrow> lzma_dict_size s | Lzma2 o2 \<Rightarrow> lzma_dict_size (l2_settings o2) | _ \<Rightarrow> Some 0)"

record encoder_configuration =
  cfg_method :: encoder_method
  cfg_options :: "encoder_options option"

definition config_new :: "encoder_method \<Rightarrow> encoder_configuration" where
  "config_new m = \<lparr>cfg_method = m, cfg_options = None\<rparr>"

definition with_options :: "encoder_options \<Rightarrow> encoder_configuration \<Rightarrow> encoder_configuration" where
  "with_options opts c = c\<lparr>cfg_options := Some opts\<rparr>"

definition config_of_options :: "encoder_options \<Rightarrow> encoder_configuration" where
  "config_of_options opts =
     with_options opts (config_new
       (case opts of
          Delta _ \<Rightarrow> (''DELTA'', ID_DELTA)
        | Lzma _ \<Rightarrow> (''LZMA'', ID_LZMA)
        | Lzma2 _ \<Rightarrow> (''LZMA2'', ID_LZMA2)
        | Brotli _ \<Rightarrow> (''BROTLI'', ID_BROTLI)
        | Bzip2 _ \<Rightarrow> (''BZIP2'', ID_BZIP2)
        | Deflate _ \<Rightarrow> (''DEFLATE'', ID_DEFLATE)
        | Lz4 _ \<Rightarrow> (''LZ4'', ID_LZ4)
        | Ppmd _ \<Rightarrow> (''PPMD'', ID_PPMD)
        | Zstd _ \<Rightarrow> (''ZSTD'', ID_ZSTD)
        | Aes _ \<Rightarrow> (''AES256_SHA256'', ID_AES256_SHA256)))"

end
