(* ===== verification/Encoder_Setup.thy ===== *)
theory Encoder_Setup
  imports Encoder_Options Coder_Graph
begin

text \<open>
  \<open>add_encoder\<close>, \<open>get_options_as_properties\<close>, \<open>lzma2_property_for\<close> and
  \<open>validate_lzma_dictionary_size\<close> of \<open>src/encoder.rs\<close>.  An encoder is the variant of \<open>Encoder\<close>
  with the arguments its constructor is given; \<open>build\<close> is whether the constructor of the codec
  crate accepts them.  Deriving an AES key updates the cache of the password in the configuration,
  so \<open>add_encoder\<close> returns the configuration.
\<close>

section \<open>Property bytes\<close>

definition validate_lzma_dictionary_size :: "u32 \<Rightarrow> unit result" where
  "validate_lzma_dictionary_size dict_size =
     (let max_dict_size = min (2 ^ 30 - 1) ((2 ^ 63 - 1) div 8 - 1) :: u64
      in if \<not> (ucast DICT_SIZE_MIN \<le> (ucast dict_size :: u64) \<and> ucast dict_size \<le> max_dict_size)
         then Inl (from_io (Io_Error InvalidInput
                (''unsupported LZMA dictionary size: '' @ decimal (unat dict_size) @ '' (maximum ''
                 @ decimal (unat max_dict_size) @ '')'')))
         else Inr ())"

definition lzma2_property_for :: "u32 \<Rightarrow> u8" where
  "lzma2_property_for dict_size =
     (case find (\<lambda>p. case lzma2_dictionary_size [p] of Inl _ \<Rightarrow> False | Inr d \<Rightarrow> dict_size \<le> d)
             (map of_nat [0..<41]) of
        None \<Rightarrow> 40
      | Some p \<Rightarrow> p)"

record codec_versions =
  brotli_version :: u8
  zstd_version_major :: u32
  zstd_version_minor :: u32

text \<open>
  The property bytes of a coder.  A settings value whose level is outside the tables panics:
  \<open>None\<close>.
\<close>

definition get_options_as_properties ::
  "codec_versions \<Rightarrow> encoder_method \<Rightarrow> encoder_options option \<Rightarrow> bytes option" where
  "get_options_as_properties vs m opts =
     (let mid = snd m in
      if mid = ID_DELTA
      then (let d = (case opts of Some (Delta d) \<Rightarrow> d | _ \<Rightarrow> delta_default)
            in Some [ucast (if d = 0 then 0 else d - 1)])
      else if mid = ID_LZMA2
      then (let o2 = (case opts of Some (Lzma2 o2) \<Rightarrow> o2 | _ \<Rightarrow> lzma2_options_default)
            in map_option (\<lambda>dict. [lzma2_property_for dict]) (lzma_dict_size (l2_settings o2)))
      else if mid = ID_LZMA
      then (let s = (case opts of Some (Lzma s) \<Rightarrow> s | _ \<Rightarrow> lzma_options_default)
            in map_option (\<lambda>dict. lzma_props_byte # write_u32 dict) (lzma_dict_size s))
      else if mid = ID_PPMD
      then (let p = (case opts of Some (Ppmd p) \<Rightarrow> p | _ \<Rightarrow> ppmd_default)
            in Some (ucast (pp_order p) # write_u32 (pp_memory_size p)))
      else if mid = ID_BROTLI
      then (let b = (case opts of Some (Brotli b) \<Rightarrow> b | _ \<Rightarrow> brotli_default)
            in Some [brotli_version vs, 0, ucast (br_quality b)])
      else if mid = ID_LZ4 then Some [1, 0, 3]
      else if mid = ID_ZSTD
      then (let z = (case opts of Some (Zstd z) \<Rightarrow> z | _ \<Rightarrow> zstd_default)
            in Some [ucast (zstd_version_major vs), ucast (zstd_version_minor vs), ucast z])
      else if mid = ID_AES256_SHA256
      then (case opts of Some (Aes a) \<Rightarrow> Some (aes_properties a) | _ \<Rightarrow> Some [])
      else Some [])"

section \<open>Building an encoder\<close>

datatype bcj_kind = X86 | Arm | Arm_Thumb | Arm64 | Ia64 | Sparc | Ppc | Riscv

datatype encoder =
    Enc_Copy
  | Enc_Bcj bcj_kind nat
  | Enc_Delta nat
  | Enc_Lzma turbo_props
  | Enc_Lzma2 turbo_props "u64 option" nat
  | Enc_Ppmd u32 u32
  | Enc_Brotli u32 u32 nat
  | Enc_Bzip2 u32
  | Enc_Deflate u32
  | Enc_Lz4 nat
  | Enc_Zstd u32
  | Enc_Aes bytes bytes

definition bcj_method :: "bytes \<Rightarrow> bcj_kind option" where
  "bcj_method mid =
     (if mid = ID_BCJ_X86 then Some X86 else if mid = ID_BCJ_ARM then Some Arm
      else if mid = ID_BCJ_ARM_THUMB then Some Arm_Thumb else if mid = ID_BCJ_ARM64 then Some Arm64
      else if mid = ID_BCJ_IA64 then Some Ia64 else if mid = ID_BCJ_SPARC then Some Sparc
      else if mid = ID_BCJ_PPC then Some Ppc else if mid = ID_BCJ_RISCV then Some Riscv else None)"

text \<open>\<open>Aes256Sha256Encoder::new\<close> derives its key from the properties it will write.\<close>

definition aes_encoder_new :: "'s sha256 \<Rightarrow> aes_options \<Rightarrow> encoder result \<times> aes_options" where
  "aes_encoder_new sha a =
     (case get_aes_key sha (aes_properties a) (ao_password a) MAX_AES_CYCLES_POWER u64_max of
        (Inl e, pw) \<Rightarrow> (Inl e, a\<lparr>ao_password := pw\<rparr>)
      | (Inr (key, iv), pw) \<Rightarrow> (Inr (Enc_Aes key iv), a\<lparr>ao_password := pw\<rparr>))"

text \<open>One thread is the solid stream, \<open>BLOCK_SIZE_SOLID\<close>: \<open>None\<close>.\<close>

definition lzma2_block_threads :: "u32 \<Rightarrow> u64 option \<Rightarrow> u64 option \<times> nat" where
  "lzma2_block_threads threads block_size =
     (if threads = 0 \<or> threads = 1 then (None, 1)
      else case block_size of None \<Rightarrow> (None, 1) | Some n \<Rightarrow> (Some n, unat threads))"

definition panics :: "'a option \<Rightarrow> 'a result" where
  "panics x = (case x of None \<Rightarrow> Inl Panic | Some a \<Rightarrow> Inr a)"

definition add_encoder ::
  "'s sha256 \<Rightarrow> (encoder \<Rightarrow> encoder result) \<Rightarrow> encoder_configuration \<Rightarrow> encoder result \<times> encoder_configuration" where
  "add_encoder sha build c =
     (let mid = snd (cfg_method c); opts = cfg_options c in
      if mid = ID_COPY then (Inr Enc_Copy, c)
      else if mid = ID_DELTA
      then (let d = (case opts of Some (Delta d) \<Rightarrow> d | _ \<Rightarrow> delta_default) in (Inr (Enc_Delta (unat d)), c))
      else if mid = ID_LZMA
      then (let s = (case opts of Some (Lzma s) \<Rightarrow> s | _ \<Rightarrow> lzma_options_default)
            in (ebind (panics (lzma_dict_size s)) (\<lambda>dict.
                ebind (validate_lzma_dictionary_size dict) (\<lambda>_.
                ebind (panics (turbo_props_of s)) (\<lambda>props. build (Enc_Lzma props)))), c))
      else if mid = ID_LZMA2
      then (let o2 = (case opts of Some (Lzma2 o2) \<Rightarrow> o2 | _ \<Rightarrow> lzma2_options_default)
            in (ebind (panics (lzma_dict_size (l2_settings o2))) (\<lambda>dict.
                ebind (validate_lzma_dictionary_size dict) (\<lambda>_.
                ebind (panics (lzma2_block_size o2)) (\<lambda>bs.
                ebind (panics (turbo_props_of (l2_settings o2))) (\<lambda>props.
                  let (block_size, threads) = lzma2_block_threads (l2_threads o2) bs
                  in build (Enc_Lzma2 props block_size threads))))), c))
      else if mid = ID_PPMD
      then (let p = (case opts of Some (Ppmd p) \<Rightarrow> p | _ \<Rightarrow> ppmd_default)
            in (build (Enc_Ppmd (pp_order p) (pp_memory_size p)), c))
      else if mid = ID_BROTLI
      then (let b = (case opts of Some (Brotli b) \<Rightarrow> b | _ \<Rightarrow> brotli_default)
            in (build (Enc_Brotli (br_quality b) (br_window b) (unat (br_skippable_frame_size b))), c))
      else if mid = ID_BZIP2
      then (let b = (case opts of Some (Bzip2 b) \<Rightarrow> b | _ \<Rightarrow> bzip2_default) in (Inr (Enc_Bzip2 b), c))
      else if mid = ID_DEFLATE
      then (let d = (case opts of Some (Deflate d) \<Rightarrow> d | _ \<Rightarrow> deflate_default) in (Inr (Enc_Deflate d), c))
      else if mid = ID_LZ4
      then (let l = (case opts of Some (Lz4 l) \<Rightarrow> l | _ \<Rightarrow> lz4_default) in (build (Enc_Lz4 (unat l)), c))
      else if mid = ID_ZSTD
      then (let z = (case opts of Some (Zstd z) \<Rightarrow> z | _ \<Rightarrow> zstd_default) in (build (Enc_Zstd z), c))
      else if mid = ID_AES256_SHA256
      then (case opts of
              Some (Aes a) \<Rightarrow> (let (r, a') = aes_encoder_new sha a in (r, c\<lparr>cfg_options := Some (Aes a')\<rparr>))
            | _ \<Rightarrow> (Inl PasswordRequired, c))
      else case bcj_method mid of
             Some k \<Rightarrow> (Inr (Enc_Bcj k 0), c)
           | None \<Rightarrow> (Inl (UnsupportedCompressionMethod (fst (cfg_method c))), c))"

section \<open>The property byte of LZMA2\<close>

lemma dictionary_covers: "\<exists>p. p \<le> 40 \<and> unat (d :: u32) \<le> dictionary_of p"
  using u32_bound [of d] by (intro exI [of _ 40]) (simp add: dictionary_of_def)

lemma lzma2_property_spec:
  obtains n where "lzma2_dictionary_size [lzma2_property_for d] = Inr n" "d \<le> n" "unat (lzma2_property_for d) \<le> 40"
    "\<And>q e. q < lzma2_property_for d \<Longrightarrow> lzma2_dictionary_size [q] = Inr e \<Longrightarrow> e < d"
proof -
  define fits where "fits p \<longleftrightarrow> (case lzma2_dictionary_size [p] of Inl _ \<Rightarrow> False | Inr n \<Rightarrow> d \<le> n)" for p
  have "lzma2_dictionary_size [of_nat 40] = Inr 0xFFFFFFFF" by (simp add: dictionary_size_Inr dictionary_of_def)
  then have "fits (of_nat 40)" using u32_bound [of d] by (simp add: fits_def word_le_nat_alt)
  then obtain m where m: "find (fits \<circ> of_nat) [0..<41] = Some m" "fits (of_nat m)" "m \<le> 40"
    "\<And>i. i < m \<Longrightarrow> \<not> fits (of_nat i)"
    using find_upt_least [of "fits \<circ> of_nat" 40 41] by auto
  have p: "lzma2_property_for d = of_nat m"
    using m(1) unfolding lzma2_property_for_def fits_def [abs_def] find_map by simp
  have um: "unat (of_nat m :: u8) = m" using m(3) by (simp add: unsigned_of_nat take_bit_nat_eq_self)
  obtain n where n: "lzma2_dictionary_size [of_nat m] = Inr n" "d \<le> n"
    using m(2) by (auto simp: fits_def split: sum.splits)
  moreover have "e < d" if "q < of_nat m" "lzma2_dictionary_size [q] = Inr e" for q e
  proof -
    have "unat q < m" using that(1) um by (simp add: word_less_nat_alt)
    then have "\<not> fits (of_nat (unat q))" using m(4) by blast
    then show ?thesis using that(2) by (auto simp: fits_def not_le)
  qed
  ultimately show thesis using that [of n] p um m(3) by simp
qed

text \<open>
  The LZMA2 property byte of an encoder never names a dictionary smaller than its window, and
  is the first byte of the table that does not.
\<close>

theorem lzma2_property_is_least:
  "\<exists>n. lzma2_dictionary_size [lzma2_property_for d] = Inr n \<and> d \<le> n
    \<and> (\<forall>q e. q < lzma2_property_for d \<and> lzma2_dictionary_size [q] = Inr e \<longrightarrow> e < d)"
  by (rule lzma2_property_spec [of d]) blast

theorem lzma2_property_is_least_witness:
  "\<exists>n. lzma2_dictionary_size [lzma2_property_for 0x500000] = Inr n \<and> 0x500000 \<le> n
    \<and> (20 < lzma2_property_for 0x500000 \<longrightarrow> 0x400000 < (0x500000 :: u32))"
  using lzma2_property_is_least [of "0x500000"] by (auto simp: word_less_nat_alt)

section \<open>The options a caller can build\<close>

text \<open>
  The values the public constructors and setters produce, with the fields of \<open>AesEncoderOptions\<close>
  free, as they are public.  Three constructors take a number without bringing it into the range their
  documentation gives: a Brotli window below 10, a Bzip2 level outside 1 to 9, a Zstandard level of 0.
  \<open>careful\<close> is whether the caller keeps to these ranges; without it every number is allowed.
\<close>

inductive lzma_api :: "lzma_settings \<Rightarrow> bool" where
  "lzma_api lzma_options_default"
| "lzma_api (lzma_from_level level)"
| "lzma_api s \<Longrightarrow> lzma_api (lzma_set_dict_size n s)"
| "lzma_api s \<Longrightarrow> lzma_api (lzma_set_nice_len n s)"

inductive lzma2_api :: "lzma2_options \<Rightarrow> bool" where
  "lzma2_api lzma2_options_default"
| "lzma2_api (lzma2_from_level level)"
| "lzma2_api (lzma2_from_level_mt level threads chunk_size)"
| "lzma2_api o2 \<Longrightarrow> lzma2_api (lzma2_set_dictionary_size n o2)"
| "lzma2_api o2 \<Longrightarrow> lzma2_api (lzma2_set_nice_len n o2)"

inductive brotli_api :: "bool \<Rightarrow> brotli_options \<Rightarrow> bool" for careful where
  "brotli_api careful brotli_default"
| "(careful \<Longrightarrow> 10 \<le> w) \<Longrightarrow> brotli_api careful (brotli_from_quality_window q w)"
| "brotli_api careful b \<Longrightarrow> brotli_api careful (brotli_with_skippable_frame_size n b)"

inductive api_options :: "bool \<Rightarrow> ppmd_bounds \<Rightarrow> encoder_options \<Rightarrow> bool" for careful pb where
  "lzma_api s \<Longrightarrow> api_options careful pb (Lzma s)"
| "lzma2_api o2 \<Longrightarrow> api_options careful pb (Lzma2 o2)"
| "brotli_api careful b \<Longrightarrow> api_options careful pb (Brotli b)"
| "api_options careful pb (Delta (delta_from_distance n))"
| "api_options careful pb (Delta delta_default)"
| "(careful \<Longrightarrow> 1 \<le> n \<and> n \<le> 9) \<Longrightarrow> api_options careful pb (Bzip2 n)"
| "api_options careful pb (Bzip2 bzip2_default)"
| "api_options careful pb (Deflate (deflate_from_level n))"
| "api_options careful pb (Deflate deflate_default)"
| "api_options careful pb (Lz4 lz4_default)"
| "api_options careful pb (Lz4 l) \<Longrightarrow> api_options careful pb (Lz4 (lz4_with_skippable_frame_size n l))"
| "api_options careful pb (Ppmd (ppmd_from_level n))"
| "api_options careful pb (Ppmd ppmd_default)"
| "api_options careful pb (Ppmd (ppmd_from_order_memory_size pb order mem))"
| "(careful \<Longrightarrow> 1 \<le> n) \<Longrightarrow> api_options careful pb (Zstd (zstd_from_level n))"
| "api_options careful pb (Zstd zstd_default)"
| "length (ao_iv a) = 16 \<Longrightarrow> length (ao_salt a) = 16 \<Longrightarrow> api_options careful pb (Aes a)"

definition frame_ok :: "u32 \<Rightarrow> bool" where
  "frame_ok n \<longleftrightarrow> n = 0 \<or> MINIMAL_SKIPPABLE_FRAME_SIZE \<le> n"

definition lzma_ok :: "lzma_settings \<Rightarrow> bool" where
  "lzma_ok s \<longleftrightarrow> ls_level s \<le> 9
     \<and> (\<forall>d. ls_dict_size s = Some d \<longrightarrow> DICT_SIZE_MIN \<le> d \<and> d \<le> DICT_SIZE_MAX)
     \<and> (\<forall>n. ls_nice_len s = Some n \<longrightarrow> NICE_LEN_MIN \<le> n \<and> n \<le> NICE_LEN_MAX)"

definition ppmd_ok :: "ppmd_bounds \<Rightarrow> ppmd_options \<Rightarrow> bool" where
  "ppmd_ok pb p \<longleftrightarrow> ppmd_min_order pb \<le> pp_order p \<and> pp_order p \<le> ppmd_max_order pb
     \<and> ppmd_min_mem pb \<le> pp_memory_size p \<and> pp_memory_size p \<le> ppmd_max_mem pb"

text \<open>The bounds of the PPMd crate leave room for the levels of the table.\<close>

definition ppmd_bounds_ok :: "ppmd_bounds \<Rightarrow> bool" where
  "ppmd_bounds_ok pb \<longleftrightarrow> ppmd_min_order pb \<le> 3 \<and> 32 \<le> ppmd_max_order pb \<and> ppmd_max_order pb \<le> 255
     \<and> ppmd_min_mem pb \<le> push_bit 19 1 \<and> push_bit 28 1 \<le> ppmd_max_mem pb"

text \<open>
  The ranges the documentation of \<open>encoder_options.rs\<close> gives: levels, dictionary sizes and match
  lengths of LZMA and LZMA2, an LZMA2 chunk never below the dictionary, the quality 0 to 11, the window
  10 to 24 and the frame size (none, or at least 64 KiB) of Brotli and the frame size of LZ4, and so on.
\<close>

fun in_documented_range :: "ppmd_bounds \<Rightarrow> encoder_options \<Rightarrow> bool" where
  "in_documented_range pb (Lzma s) \<longleftrightarrow> lzma_ok s"
| "in_documented_range pb (Lzma2 o2) \<longleftrightarrow> lzma_ok (l2_settings o2)
     \<and> (\<forall>n d. lzma2_block_size o2 = Some (Some n) \<longrightarrow> lzma_dict_size (l2_settings o2) = Some d \<longrightarrow> ucast d \<le> n)"
| "in_documented_range pb (Brotli b) \<longleftrightarrow> br_quality b \<le> 11 \<and> 10 \<le> br_window b \<and> br_window b \<le> 24
     \<and> frame_ok (br_skippable_frame_size b)"
| "in_documented_range pb (Delta d) \<longleftrightarrow> 1 \<le> d \<and> d \<le> 256"
| "in_documented_range pb (Bzip2 n) \<longleftrightarrow> 1 \<le> n \<and> n \<le> 9"
| "in_documented_range pb (Deflate n) \<longleftrightarrow> n \<le> 9"
| "in_documented_range pb (Lz4 l) \<longleftrightarrow> frame_ok l"
| "in_documented_range pb (Ppmd p) \<longleftrightarrow> ppmd_ok pb p"
| "in_documented_range pb (Zstd z) \<longleftrightarrow> 1 \<le> z \<and> z \<le> 22"
| "in_documented_range pb (Aes a) \<longleftrightarrow> length (ao_iv a) = 16 \<and> length (ao_salt a) = 16"

text \<open>What the code relies on, and what holds without the caller's care.\<close>

fun options_ok :: "ppmd_bounds \<Rightarrow> encoder_options \<Rightarrow> bool" where
  "options_ok pb (Lzma s) \<longleftrightarrow> lzma_ok s"
| "options_ok pb (Lzma2 o2) \<longleftrightarrow> lzma_ok (l2_settings o2)"
| "options_ok pb (Delta d) \<longleftrightarrow> 1 \<le> d \<and> d \<le> 256"
| "options_ok pb (Ppmd p) \<longleftrightarrow> ppmd_ok pb p"
| "options_ok pb (Aes a) \<longleftrightarrow> length (aes_properties a) = 34"
| "options_ok pb _ \<longleftrightarrow> True"

lemma lzma_ok_set:
  "lzma_ok s \<Longrightarrow> lzma_ok (lzma_set_dict_size n s)"
  "lzma_ok s \<Longrightarrow> lzma_ok (lzma_set_nice_len n s)"
  by (auto simp: lzma_ok_def lzma_set_dict_size_def lzma_set_nice_len_def clamp_u32_def DICT_SIZE_MIN_def
      DICT_SIZE_MAX_def NICE_LEN_MIN_def NICE_LEN_MAX_def word_le_nat_alt word_less_nat_alt)

lemma lzma_ok_level: "lzma_ok (lzma_from_level n)"
  by (auto simp: lzma_ok_def lzma_from_level_def not_less)

lemma lzma_api_ok: "lzma_api s \<Longrightarrow> lzma_ok s"
  by (induction rule: lzma_api.induct) (simp_all add: lzma_ok_set lzma_ok_level lzma_options_default_def)

lemma lzma2_api_ok: "lzma2_api o2 \<Longrightarrow> lzma_ok (l2_settings o2)"
  by (induction rule: lzma2_api.induct)
    (simp_all add: lzma_ok_set lzma_ok_level lzma2_options_default_def lzma2_from_level_def
      lzma2_set_dictionary_size_def lzma2_set_nice_len_def lzma2_from_level_mt_def)

lemma block_covers_dictionary:
  "lzma2_block_size o2 = Some (Some n) \<Longrightarrow> lzma_dict_size (l2_settings o2) = Some d \<Longrightarrow> ucast d \<le> n"
  by (auto simp: lzma2_block_size_def split: option.splits)

lemma frame_ok_max: "frame_ok (if n = 0 then 0 else max n MINIMAL_SKIPPABLE_FRAME_SIZE)"
  by (simp add: frame_ok_def)

lemma brotli_api_ok:
  "brotli_api careful b \<Longrightarrow> br_quality b \<le> 11 \<and> (careful \<longrightarrow> 10 \<le> br_window b) \<and> br_window b \<le> 24
    \<and> frame_ok (br_skippable_frame_size b)"
proof (induction rule: brotli_api.induct)
  case (3 b n)
  then show ?case using frame_ok_max [of n] by (simp add: brotli_with_skippable_frame_size_def split: if_splits)
qed (auto simp: brotli_default_def brotli_from_quality_window_def frame_ok_def DEFAULT_SKIPPABLE_FRAME_SIZE_def
      MINIMAL_SKIPPABLE_FRAME_SIZE_def not_less)

lemma level_cases:
  assumes "n \<le> (9 :: u32)"
  shows "unat n < 10"
  using assms by (simp add: word_le_nat_alt)

lemma ppmd_level_ok:
  assumes "ppmd_bounds_ok pb"
  shows "ppmd_ok pb (ppmd_from_level n)"
proof -
  define level where "level = (if 9 < n then 9 else n)"
  have level: "unat level \<le> 9" by (simp add: level_def word_less_nat_alt)
  then have o: "3 \<le> PPMD_ORDERS ! unat level \<and> PPMD_ORDERS ! unat level \<le> 32"
    by (auto simp: PPMD_ORDERS_def nth_Cons' word_le_nat_alt)
  have l19: "unat (level + 19) = unat level + 19" using level by (simp add: unat_word_ariths)
  have p: "unat (push_bit k 1 :: u32) = 2 ^ k" if "k < 32" for k
    using that unsigned_push_bit_eq [of k "1 :: u32", where 'a = nat] by (simp add: take_bit_nat_eq_self push_bit_eq_mult)
  have "unat (push_bit (unat level + 19) 1 :: u32) = 2 ^ (unat level + 19)" using level by (intro p) simp
  moreover have "(2 :: nat) ^ 19 \<le> 2 ^ (unat level + 19)" "(2 :: nat) ^ (unat level + 19) \<le> 2 ^ 28"
    using level by (intro power_increasing; simp)+
  ultimately have m: "unat (push_bit 19 1 :: u32) \<le> unat (push_bit (unat level + 19) 1 :: u32)"
    "unat (push_bit (unat level + 19) 1 :: u32) \<le> unat (push_bit 28 1 :: u32)"
    using p [of 19] p [of 28] by linarith+
  show ?thesis
    using assms o m unfolding ppmd_bounds_ok_def ppmd_ok_def ppmd_from_level_def Let_def level_def [symmetric] l19
    by (auto simp: word_le_nat_alt)
qed

lemma ppmd_clamped_ok:
  assumes "ppmd_bounds_ok pb"
  shows "ppmd_ok pb (ppmd_from_order_memory_size pb order mem)"
proof -
  have "ppmd_min_order pb \<le> ppmd_max_order pb" "ppmd_min_mem pb \<le> ppmd_max_mem pb"
    using assms by (auto simp: ppmd_bounds_ok_def word_le_nat_alt push_bit_eq_mult)
  then show ?thesis by (auto simp: ppmd_ok_def ppmd_from_order_memory_size_def not_less)
qed

lemma api_options_ok:
  assumes "api_options careful pb opts" "ppmd_bounds_ok pb"
  shows "options_ok pb opts"
  using assms(1)
  by cases (use assms(2) lzma_api_ok lzma2_api_ok ppmd_level_ok ppmd_clamped_ok in
    \<open>auto simp: delta_from_distance_def delta_default_def ppmd_default_def aes_properties_def not_less
      word_le_nat_alt word_less_nat_alt Suc_le_eq unat_gt_0\<close>)

lemma api_options_documented:
  assumes "api_options True pb opts" "ppmd_bounds_ok pb"
  shows "in_documented_range pb opts"
  using assms(1)
proof cases
  case (2 o2)
  then show ?thesis using lzma2_api_ok block_covers_dictionary by auto
next
  case (11 l n)
  then show ?thesis using frame_ok_max [of n] by (simp add: lz4_with_skippable_frame_size_def)
qed (use assms(2) lzma_api_ok brotli_api_ok ppmd_level_ok ppmd_clamped_ok in
    \<open>auto simp: delta_from_distance_def delta_default_def deflate_from_level_def deflate_default_def lz4_default_def
      frame_ok_def ppmd_default_def zstd_from_level_def zstd_default_def bzip2_default_def not_less
      word_le_nat_alt word_less_nat_alt Suc_le_eq unat_gt_0\<close>)

lemma lzma_ok_tables:
  assumes "lzma_ok s"
  shows "\<exists>d. lzma_dict_size s = Some d \<and> DICT_SIZE_MIN \<le> d" "\<exists>n. lzma_nice_len s = Some n"
    "\<exists>p. turbo_props_of s = Some p \<and> Some (tp_dict_size p) = lzma_dict_size s"
proof -
  have l: "unat (ls_level s) < 10" using assms by (auto simp: lzma_ok_def intro: level_cases)
  have "\<forall>d \<in> set LEVEL_DICT_SIZE. DICT_SIZE_MIN \<le> d"
    by (simp add: LEVEL_DICT_SIZE_def DICT_SIZE_MIN_def push_bit_eq_mult word_le_nat_alt)
  moreover have "LEVEL_DICT_SIZE ! unat (ls_level s) \<in> set LEVEL_DICT_SIZE"
    using l by (intro nth_mem) (simp add: LEVEL_DICT_SIZE_def)
  moreover have "length LEVEL_DICT_SIZE = 10" by (simp add: LEVEL_DICT_SIZE_def)
  ultimately show d: "\<exists>d. lzma_dict_size s = Some d \<and> DICT_SIZE_MIN \<le> d"
    using assms l by (auto simp: lzma_dict_size_def lzma_ok_def nth_option_def split: option.splits)
  show n: "\<exists>n. lzma_nice_len s = Some n"
    using l by (auto simp: lzma_nice_len_def nth_option_def LEVEL_NICE_LEN_def split: option.splits)
  have "lzma_fast s \<Longrightarrow> unat (ls_level s) < length LEVEL_DEPTH"
    by (simp add: lzma_fast_def LEVEL_DEPTH_def word_le_nat_alt)
  then show "\<exists>p. turbo_props_of s = Some p \<and> Some (tp_dict_size p) = lzma_dict_size s"
    using d n by (auto simp: turbo_props_of_def Let_def nth_option_def)
qed

lemma defaults_ok: "lzma_ok lzma_options_default" "lzma_ok (l2_settings lzma2_options_default)"
  by (simp_all add: lzma_options_default_def lzma2_options_default_def lzma_ok_level)

text \<open>
  C38: whatever options a caller builds through the constructors and setters, in any order: if the
  caller keeps the Brotli window, the Bzip2 level and the Zstandard level in their documented ranges,
  which their constructors leave to it, every value of every option is in the range its documentation
  gives, because the other constructors and setters clamp; and with or without this care, writing the
  options to a header indexes no table out of range and takes at most 34 bytes, and setting up their
  encoder panics only if the codec's own constructor does.
\<close>

theorem built_options_are_valid:
  assumes "api_options careful pb opts" "ppmd_bounds_ok pb" "\<And>e. build e \<noteq> Inl Panic"
  shows "(careful \<longrightarrow> in_documented_range pb opts)
    \<and> (\<exists>props. get_options_as_properties vs (cfg_method (config_of_options opts)) (Some opts) = Some props \<and> length props \<le> 34)
    \<and> fst (add_encoder sha build (config_of_options opts)) \<noteq> Inl Panic"
proof (intro conjI)
  note unfolds = config_of_options_def config_new_def with_options_def add_encoder_def Let_def method_ids
  show "careful \<longrightarrow> in_documented_range pb opts" using api_options_documented assms(1,2) by auto
  have ok: "options_ok pb opts" by (rule api_options_ok [OF assms(1,2)])
  have d: "\<exists>d. lzma_dict_size s = Some d" "\<exists>n. turbo_props_of s = Some n" if "lzma_ok s" for s
    using lzma_ok_tables [OF that] by auto
  show "\<exists>props. get_options_as_properties vs (cfg_method (config_of_options opts)) (Some opts) = Some props \<and> length props \<le> 34"
    using ok
    by (cases opts) (auto simp: config_of_options_def config_new_def with_options_def get_options_as_properties_def
        Let_def method_ids write_u32_def dest!: d(1))
  have v: "validate_lzma_dictionary_size n \<noteq> Inl Panic" for n
    by (simp add: validate_lzma_dictionary_size_def Let_def from_io_def io_msg_def)
  have k: "fst (get_aes_key sha p pw cap m) \<noteq> Inl Panic" for p pw cap m
    by (auto simp: get_aes_key_def derive_key_with_budget_def Let_def split: prod.splits option.splits sum.splits if_splits)
  have a: "fst (aes_encoder_new sha a) \<noteq> Inl Panic" for a
    using k [of "aes_properties a" "ao_password a" MAX_AES_CYCLES_POWER u64_max]
    by (auto simp: aes_encoder_new_def split: prod.splits sum.splits)
  have b: "\<exists>x. lzma2_block_size o2 = Some x" if "lzma_ok (l2_settings o2)" for o2
    using d(1) [OF that] by (auto simp: lzma2_block_size_def split: option.splits)
  show "fst (add_encoder sha build (config_of_options opts)) \<noteq> Inl Panic"
  proof (cases opts)
    case (Lzma s)
    then obtain dict props where "lzma_dict_size s = Some dict" "turbo_props_of s = Some props" using ok d by fastforce
    then show ?thesis using Lzma v [of dict] assms(3)
      by (cases "validate_lzma_dictionary_size dict") (simp_all add: unfolds panics_def)
  next
    case (Lzma2 o2)
    then obtain dict props bs where "lzma_dict_size (l2_settings o2) = Some dict" "turbo_props_of (l2_settings o2) = Some props"
      "lzma2_block_size o2 = Some bs" using ok d b by fastforce
    then show ?thesis using Lzma2 v [of dict] assms(3)
      by (cases "validate_lzma_dictionary_size dict") (simp_all add: unfolds panics_def split: prod.splits)
  next
    case (Aes x)
    then show ?thesis using a [of x] by (auto simp: unfolds split: prod.splits)
  qed (simp_all add: unfolds assms(3))
qed

theorem built_options_are_valid_witness:
  "fst (add_encoder collecting_sha Inr (config_of_options (Lzma2 (lzma2_set_dictionary_size 7 (lzma2_from_level_mt 12 4 0))))) \<noteq> Inl Panic
    \<and> lzma_ok (lzma_set_dict_size 7 (lzma_from_level 12)) \<and> br_window (brotli_from_quality_window 20 30) = 24"
proof -
  define pb where "pb = \<lparr>ppmd_min_order = 2, ppmd_max_order = 64, ppmd_min_mem = 2048, ppmd_max_mem = 0xFFFFFFDB\<rparr>"
  have b: "ppmd_bounds_ok pb" by (simp add: pb_def ppmd_bounds_ok_def word_le_nat_alt)
  have api: "api_options True pb (Lzma2 (lzma2_set_dictionary_size 7 (lzma2_from_level_mt 12 4 0)))"
    by (intro api_options.intros lzma2_api.intros)
  show ?thesis
    using built_options_are_valid [OF api b, of Inr undefined collecting_sha]
    by (simp add: lzma2_set_dictionary_size_def lzma2_from_level_mt_def brotli_from_quality_window_def word_less_nat_alt)
qed

end
