(* ===== verification/Decoder_Setup.thy ===== *)
theory Decoder_Setup
  imports Encoder_Setup
begin

text \<open>
  \<open>add_decoder\<close> and \<open>get_ppmd_order_memory_size\<close> of \<open>src/decoder.rs\<close>, and \<open>DecodeOptions\<close>.  A
  decoder is the variant of \<open>Decoder\<close> with the arguments its constructor is given; \<open>build\<close> is
  whether the constructor of the codec crate accepts them.  The AES key goes through the
  password's cache, so the password is returned.
\<close>

section \<open>Options\<close>

record decode_options =
  do_limits :: archive_limits
  do_threads :: u32
  do_adaptive_lzma2 :: bool
  do_verify_checksums :: bool
  do_lzma2_control :: "lzma2_control option"
  do_checksum_splits :: "u64 list"

definition header_options :: "archive_limits \<Rightarrow> decode_options" where
  "header_options lims =
     \<lparr>do_limits = lims, do_threads = 1, do_adaptive_lzma2 = False, do_verify_checksums = True,
      do_lzma2_control = None, do_checksum_splits = []\<rparr>"

definition folding_checksums :: "decode_options \<Rightarrow> bool" where
  "folding_checksums opts \<longleftrightarrow> do_checksum_splits opts \<noteq> []
     \<and> (case do_lzma2_control opts of None \<Rightarrow> False | Some c \<Rightarrow> control_progress c \<noteq> None)"

section \<open>Building a decoder\<close>

datatype decoder =
    Dec_Copy
  | Dec_Lzma nat bytes u32
  | Dec_Lzma2 u8 lzma2_plan
  | Dec_Ppmd u32 u32
  | Dec_Bcj bcj_kind nat
  | Dec_Delta nat
  | Dec_Brotli nat
  | Dec_Bzip2
  | Dec_Deflate
  | Dec_Lz4
  | Dec_Zstd nat
  | Dec_Aes bytes bytes

definition get_ppmd_order_memory_size :: "ppmd_bounds \<Rightarrow> coder \<Rightarrow> nat \<Rightarrow> (u32 \<times> u32) result" where
  "get_ppmd_order_memory_size pb c max_mem_limit_kb =
     (let props = coder_properties c in
      if length props < 5 then Inl (Other ''PPMD properties too short'')
      else
        let order = ucast (props ! 0);
            memory_size = from_le_bytes [props ! 1, props ! 2, props ! 3, props ! 4]
        in if order < ppmd_min_order pb then Inl (Other ''PPMD order smaller than PPMD7_MIN_ORDER'')
           else if ppmd_max_order pb < order then Inl (Other ''PPMD order larger than PPMD7_MAX_ORDER'')
           else if memory_size < ppmd_min_mem pb then Inl (Other ''PPMD memory size smaller than PPMD7_MIN_MEM_SIZE'')
           else if ppmd_max_mem pb < memory_size then Inl (Other ''PPMD memory size larger than PPMD7_MAX_MEM_SIZE'')
           else
             let memory_size_kb = (unat memory_size + 1023) div 1024
             in if max_mem_limit_kb < memory_size_kb then Inl (MaxMemLimited max_mem_limit_kb memory_size_kb)
                else Inr (order, memory_size))"

text \<open>
  The window log of zstd: the largest power of two in the budget, between 10 and 27.
  \<open>63 - bytes.leading_zeros()\<close> is the position of the highest bit.
\<close>

fun highest_bit :: "nat \<Rightarrow> nat" where
  "highest_bit n = (if n < 2 then 0 else Suc (highest_bit (n div 2)))"

declare highest_bit.simps [simp del]

definition ZSTD_DEFAULT_WINDOW_LOG :: nat where "ZSTD_DEFAULT_WINDOW_LOG = 27"

definition zstd_window_log :: "nat \<Rightarrow> nat" where
  "zstd_window_log max_mem_limit_kb =
     (if max_mem_limit_kb = usize_max then ZSTD_DEFAULT_WINDOW_LOG
      else let budget = max (saturating_mul (of_nat max_mem_limit_kb) 1024) 1024
           in min (max (highest_bit (unat budget)) 10) ZSTD_DEFAULT_WINDOW_LOG)"

definition debug_bytes :: "bytes \<Rightarrow> string" where
  "debug_bytes bs = ''['' @ concat (case bs of [] \<Rightarrow> []
     | b # rest \<Rightarrow> decimal (unat b) # map (\<lambda>c. '', '' @ decimal (unat c)) rest) @ '']''"

definition lzma2_plan_of :: "decode_options \<Rightarrow> u32 \<Rightarrow> lzma2_plan" where
  "lzma2_plan_of opts dic_size =
     (case do_lzma2_control opts of
        Some _ \<Rightarrow> plan_for_block (do_threads opts) (do_adaptive_lzma2 opts)
          (memory_limit_bytes (do_limits opts)) dic_size (do_checksum_splits opts)
      | None \<Rightarrow> SingleThreaded)"

text \<open>
  \<open>build\<close> reports the I/O error of a constructor of an LZMA decoder, which is a bad password when
  one was given; the other constructors report an error of the crate.
\<close>

record builders =
  build_lz :: "decoder \<Rightarrow> io_error option"
  build_other :: "decoder \<Rightarrow> decoder result"

definition built_lz :: "builders \<Rightarrow> password \<Rightarrow> decoder \<Rightarrow> decoder result" where
  "built_lz bd pw d = (case build_lz bd d of None \<Rightarrow> Inr d | Some e \<Rightarrow> Inl (bad_password e (\<not> password_is_empty pw)))"

definition add_lzma :: "builders \<Rightarrow> password \<Rightarrow> decode_options \<Rightarrow> nat \<Rightarrow> bytes \<Rightarrow> decoder result" where
  "add_lzma bd pw opts uncompressed_len props =
     (let max_mem_limit_kb = memory_limit_kb (do_limits opts) in
      if length props < 5 then Inl (Other ''LZMA properties too short'')
      else ebind (lzma_dictionary_size props) (\<lambda>declared.
        let dict_size = clamp_dictionary declared (of_nat uncompressed_len);
            mem_size = lzma2_memory_usage_kb dict_size
        in if max_mem_limit_kb < mem_size then Inl (MaxMemLimited max_mem_limit_kb mem_size)
           else built_lz bd pw (Dec_Lzma uncompressed_len props dict_size)))"

definition add_lzma2 :: "builders \<Rightarrow> password \<Rightarrow> decode_options \<Rightarrow> nat \<Rightarrow> bytes \<Rightarrow> decoder result" where
  "add_lzma2 bd pw opts uncompressed_len props =
     (let max_mem_limit_kb = memory_limit_kb (do_limits opts) in
      case props of
        [] \<Rightarrow> Inl (Other ''LZMA2 properties too short'')
      | b # _ \<Rightarrow>
          let dict_prop = lzma2_clamped_prop b (of_nat uncompressed_len)
          in ebind (lzma2_dictionary_size [dict_prop]) (\<lambda>dic_size.
               let mem_size = lzma2_memory_usage_kb dic_size
               in if max_mem_limit_kb < mem_size then Inl (MaxMemLimited max_mem_limit_kb mem_size)
                  else built_lz bd pw (Dec_Lzma2 dict_prop (lzma2_plan_of opts dic_size))))"

definition add_aes :: "'s sha256 \<Rightarrow> password \<Rightarrow> decode_options \<Rightarrow> bytes \<Rightarrow> decoder result \<times> password" where
  "add_aes sha pw opts props =
     (if password_is_empty pw then (Inl PasswordRequired, pw)
      else case get_aes_key sha props pw (max_aes_cycles_power (do_limits opts)) (max_aes_kdf_rounds (do_limits opts)) of
             (Inl e, pw') \<Rightarrow> (Inl e, pw')
           | (Inr (key, iv), pw') \<Rightarrow> (Inr (Dec_Aes key iv), pw'))"

definition add_decoder ::
  "'s sha256 \<Rightarrow> ppmd_bounds \<Rightarrow> builders \<Rightarrow> nat \<Rightarrow> coder \<Rightarrow> password \<Rightarrow> decode_options \<Rightarrow> decoder result \<times> password" where
  "add_decoder sha pb bd uncompressed_len c pw opts =
     (let max_mem_limit_kb = memory_limit_kb (do_limits opts) in
      case method_by_id (encoder_method_id c) of
        None \<Rightarrow> (Inl (UnsupportedCompressionMethod (debug_bytes (encoder_method_id c))), pw)
      | Some m \<Rightarrow>
          let mid = snd m; props = coder_properties c in
          if mid = ID_COPY then (Inr Dec_Copy, pw)
          else if mid = ID_LZMA then (add_lzma bd pw opts uncompressed_len props, pw)
          else if mid = ID_LZMA2 then (add_lzma2 bd pw opts uncompressed_len props, pw)
          else if mid = ID_PPMD
          then (ebind (get_ppmd_order_memory_size pb c max_mem_limit_kb)
                  (\<lambda>(order, memory_size). build_other bd (Dec_Ppmd order memory_size)), pw)
          else if mid = ID_BROTLI then (build_other bd (Dec_Brotli 4096), pw)
          else if mid = ID_BZIP2 then (Inr Dec_Bzip2, pw)
          else if mid = ID_DEFLATE then (Inr Dec_Deflate, pw)
          else if mid = ID_LZ4 then (build_other bd Dec_Lz4, pw)
          else if mid = ID_ZSTD then (build_other bd (Dec_Zstd (zstd_window_log max_mem_limit_kb)), pw)
          else if mid = ID_DELTA
          then (Inr (Dec_Delta (case props of [] \<Rightarrow> 1 | b # _ \<Rightarrow> unat b + 1)), pw)
          else if mid = ID_AES256_SHA256 then add_aes sha pw opts props
          else case bcj_method mid of
                 Some k \<Rightarrow> (Inr (Dec_Bcj k 0), pw)
               | None \<Rightarrow> (Inl (UnsupportedCompressionMethod (fst m)), pw))"

section \<open>A decoder agrees with the encoder that wrote the properties\<close>

text \<open>
  The decoder of an encoder.  A filter or PPMd is run with the encoder's own settings.  LZMA gets the
  property byte for \<open>lc = 3\<close>, \<open>lp = 0\<close>, \<open>pb = 2\<close>, with which both encoders run, the encoder's dictionary size
  and a window that is that size, or smaller when the output is.  LZMA2 gets a dictionary that reaches
  as far back as the encoder's or to the start of the output.  The streams of Brotli, Bzip2, Deflate, LZ4
  and Zstandard carry their settings themselves: their decoders take nothing from the encoder, only a
  buffer size or the largest window the memory limit allows.
\<close>

fun agrees :: "decode_options \<Rightarrow> nat \<Rightarrow> encoder \<Rightarrow> decoder \<Rightarrow> bool" where
  "agrees opts len Enc_Copy d \<longleftrightarrow> d = Dec_Copy"
| "agrees opts len (Enc_Bcj k p) d \<longleftrightarrow> d = Dec_Bcj k p"
| "agrees opts len (Enc_Delta n) d \<longleftrightarrow> d = Dec_Delta n"
| "agrees opts len (Enc_Lzma tp) d \<longleftrightarrow>
     (\<exists>b window. d = Dec_Lzma len (b # write_u32 (tp_dict_size tp)) window
       \<and> b mod 9 = 3 \<and> b div 9 mod 5 = 0 \<and> b div 45 = 2
       \<and> unat window = max (min (unat (tp_dict_size tp)) len) 4096)"
| "agrees opts len (Enc_Lzma2 tp bs n) d \<longleftrightarrow>
     (\<exists>p dict. d = Dec_Lzma2 p (lzma2_plan_of opts dict) \<and> lzma2_dictionary_size [p] = Inr dict
       \<and> min (unat (tp_dict_size tp)) len \<le> unat dict)"
| "agrees opts len (Enc_Ppmd order mem) d \<longleftrightarrow> d = Dec_Ppmd order mem"
| "agrees opts len (Enc_Brotli q w n) d \<longleftrightarrow> d = Dec_Brotli 4096"
| "agrees opts len (Enc_Bzip2 n) d \<longleftrightarrow> d = Dec_Bzip2"
| "agrees opts len (Enc_Deflate n) d \<longleftrightarrow> d = Dec_Deflate"
| "agrees opts len (Enc_Lz4 n) d \<longleftrightarrow> d = Dec_Lz4"
| "agrees opts len (Enc_Zstd n) d \<longleftrightarrow> d = Dec_Zstd (zstd_window_log (memory_limit_kb (do_limits opts)))"
| "agrees opts len (Enc_Aes key iv) d \<longleftrightarrow> d = Dec_Aes key iv"

text \<open>
  What becomes of building the decoder \<open>P\<close> describes: such a decoder, the refusal of its constructor, or
  the memory limit, which it exceeds.  No decoder needs more than \<open>2 ^ 54\<close> KiB, which is what an absent limit
  comes to, so without a limit the second case is impossible (\<open>unlimited_kb\<close>).
\<close>

definition decoder_or_refusal ::
  "builders \<Rightarrow> password \<Rightarrow> decode_options \<Rightarrow> (decoder \<Rightarrow> bool) \<Rightarrow> decoder result \<Rightarrow> bool" where
  "decoder_or_refusal bd pw opts P r \<longleftrightarrow>
     (case r of
        Inr dec \<Rightarrow> P dec
      | Inl e \<Rightarrow> (\<exists>n. e = MaxMemLimited (memory_limit_kb (do_limits opts)) n \<and> memory_limit_kb (do_limits opts) < n \<and> n \<le> 2 ^ 54)
          \<or> (\<exists>dec. P dec \<and> (built_lz bd pw dec = Inl e \<or> build_other bd dec = Inl e)))"

lemma refused_over_memory:
  "memory_limit_kb (do_limits opts) < n \<Longrightarrow> n \<le> 2 ^ 54
    \<Longrightarrow> decoder_or_refusal bd pw opts P (Inl (MaxMemLimited (memory_limit_kb (do_limits opts)) n))"
  by (simp add: decoder_or_refusal_def)

lemma built_lz_cases: "P dec \<Longrightarrow> decoder_or_refusal bd pw opts P (built_lz bd pw dec)"
  by (auto simp: decoder_or_refusal_def built_lz_def split: option.splits)

lemma build_other_cases:
  assumes "P dec" "\<And>d d'. build_other bd d = Inr d' \<Longrightarrow> d' = d"
  shows "decoder_or_refusal bd pw opts P (build_other bd dec)"
  using assms by (cases "build_other bd dec") (auto simp: decoder_or_refusal_def)

definition willing :: builders where
  "willing = \<lparr>build_lz = (\<lambda>d. None), build_other = Inr\<rparr>"

definition coder_for :: "encoder_method \<Rightarrow> bytes \<Rightarrow> coder" where
  "coder_for m props = \<lparr>encoder_method_id = snd m, num_in_streams = 1, num_out_streams = 1, coder_properties = props\<rparr>"

lemma method_by_id_found:
  "method_by_id ID_COPY = Some (''COPY'', ID_COPY)"
  "method_by_id ID_LZMA = Some (''LZMA'', ID_LZMA)"
  "method_by_id ID_LZMA2 = Some (''LZMA2'', ID_LZMA2)"
  "method_by_id ID_PPMD = Some (''PPMD'', ID_PPMD)"
  "method_by_id ID_BZIP2 = Some (''BZIP2'', ID_BZIP2)"
  "method_by_id ID_ZSTD = Some (''ZSTD'', ID_ZSTD)"
  "method_by_id ID_BROTLI = Some (''BROTLI'', ID_BROTLI)"
  "method_by_id ID_LZ4 = Some (''LZ4'', ID_LZ4)"
  "method_by_id ID_DEFLATE = Some (''DEFLATE'', ID_DEFLATE)"
  "method_by_id ID_AES256_SHA256 = Some (''AES256_SHA256'', ID_AES256_SHA256)"
  "method_by_id ID_DELTA = Some (''DELTA'', ID_DELTA)"
  by (simp_all add: method_by_id_def ENCODING_METHODS_def method_ids)

lemma length_write_u32 [simp]: "length (write_u32 v) = 4"
  by (simp add: write_u32_def)

lemma from_le_bytes_nth:
  fixes v :: u32
  assumes "length (to_le_bytes 4 v) = 4"
  shows "from_le_bytes [to_le_bytes 4 v ! 0, to_le_bytes 4 v ! 1, to_le_bytes 4 v ! 2, to_le_bytes 4 v ! 3] = v"
proof -
  have "[to_le_bytes 4 v ! 0, to_le_bytes 4 v ! 1, to_le_bytes 4 v ! 2, to_le_bytes 4 v ! 3] = to_le_bytes 4 v"
    using assms by (auto intro!: nth_equalityI simp: numeral_eq_Suc less_Suc_eq)
  then show ?thesis by (simp add: from_to_le_bytes_full)
qed

lemma lzma_dictionary_written: "lzma_dictionary_size (lzma_props_byte # write_u32 d) = Inr d"
  using from_le_bytes_nth [of d] by (simp add: lzma_dictionary_size_def write_u32_def numeral_eq_Suc)

lemma unlimited_kb:
  assumes "memory_limit_bytes l = u64_max"
  shows "memory_limit_kb l = 2 ^ 54"
  using assms by (simp add: memory_limit_kb_def KIB_def unat_div_ceil)

lemma memory_usage_bound: "lzma2_memory_usage_kb d \<le> 2 ^ 54"
proof -
  have "unat (saturating_add (ucast d) LZ_STATE_BYTES) div 1024 < 2 ^ 54"
    using u64_bound [of "saturating_add (ucast d) LZ_STATE_BYTES"] by (simp add: less_mult_imp_div_less)
  then show ?thesis by (simp add: lzma2_memory_usage_kb_def unat_div_ceil)
qed

lemma delta_agrees:
  assumes "1 \<le> d" "d \<le> (256 :: u32)"
  shows "unat (ucast (if d = 0 then 0 else d - 1) :: u8) + 1 = unat d"
proof -
  have d: "1 \<le> unat d" "unat d \<le> 256" using assms by (simp_all add: word_le_nat_alt)
  then have "unat (d - 1) = unat d - 1" using assms(1) by (simp add: unat_sub)
  then show ?thesis using d assms(1) by (auto simp: unsigned_ucast_eq take_bit_nat_eq_self)
qed

lemma lzma_agrees:
  assumes "lzma_ok st" "len < 2 ^ 64" "turbo_props_of st = Some tp" "lzma_dict_size st = Some dict"
  shows "decoder_or_refusal bd pw dopts (agrees dopts len (Enc_Lzma tp))
    (add_lzma bd pw dopts len (lzma_props_byte # write_u32 dict))"
proof -
  define window where "window = clamp_dictionary dict (of_nat len)"
  have "tp_dict_size tp = dict" "DICT_SIZE_MIN \<le> dict" using lzma_ok_tables [OF assms(1)] assms(3,4) by simp_all
  moreover then have "unat window = max (min (unat dict) len) 4096"
    using u32_bound [of dict] by (simp add: window_def unat_clamp unat_of_nat_u64 [OF assms(2)] min_def max_def DICT_SIZE_MIN_def word_le_nat_alt)
  ultimately have "agrees dopts len (Enc_Lzma tp) (Dec_Lzma len (lzma_props_byte # write_u32 dict) window)"
    by (simp add: lzma_props_byte_def)
  then show ?thesis using built_lz_cases refused_over_memory memory_usage_bound
    by (simp add: add_lzma_def lzma_dictionary_written Let_def window_def [symmetric] del: agrees.simps)
qed

lemma lzma2_agrees:
  assumes "lzma_ok st" "len < 2 ^ 64" "turbo_props_of st = Some tp" "lzma_dict_size st = Some dict"
  shows "decoder_or_refusal bd pw dopts (agrees dopts len (Enc_Lzma2 tp bs n))
    (add_lzma2 bd pw dopts len [lzma2_property_for dict])"
proof -
  obtain declared where declared: "lzma2_dictionary_size [lzma2_property_for dict] = Inr declared" "dict \<le> declared"
    by (rule lzma2_property_spec [of dict]) blast
  define p where "p = lzma2_clamped_prop (lzma2_property_for dict) (of_nat len)"
  obtain d where d: "lzma2_dictionary_size [p] = Inr d" "clamp_dictionary declared (of_nat len) \<le> d"
    unfolding p_def by (rule clamped_prop_spec [OF declared(1), of "of_nat len"]) blast
  have "min (unat dict) len \<le> unat d"
    using d(2) declared(2) u32_bound [of dict] by (simp add: word_le_nat_alt unat_clamp unat_of_nat_u64 [OF assms(2)] min_def max_def split: if_splits)
  moreover have "tp_dict_size tp = dict" using lzma_ok_tables(3) [OF assms(1)] assms(3,4) by simp
  ultimately have "agrees dopts len (Enc_Lzma2 tp bs n) (Dec_Lzma2 p (lzma2_plan_of dopts d))"
    using d(1) by auto
  then show ?thesis using built_lz_cases refused_over_memory memory_usage_bound d(1)
    by (simp add: add_lzma2_def Let_def p_def [symmetric] del: agrees.simps)
qed

lemma ppmd_agrees:
  assumes "ppmd_ok pb p" "ppmd_bounds_ok pb"
  shows "get_ppmd_order_memory_size pb (coder_for m (ucast (pp_order p) # write_u32 (pp_memory_size p))) kb
    = (let need = (unat (pp_memory_size p) + 1023) div 1024
       in if kb < need then Inl (MaxMemLimited kb need) else Inr (pp_order p, pp_memory_size p))"
proof -
  have "unat (pp_order p) \<le> 255" using assms(1,2) by (auto simp: ppmd_ok_def ppmd_bounds_ok_def word_le_nat_alt)
  then have "ucast (ucast (pp_order p) :: u8) = pp_order p"
    by (simp only: word_unat_eq_iff) (simp add: unat_ucast_widen unsigned_ucast_eq unsigned_take_bit_eq take_bit_nat_eq_self)
  then show ?thesis
    using assms(1) from_le_bytes_nth [of "pp_memory_size p"]
    by (simp add: get_ppmd_order_memory_size_def coder_for_def ppmd_ok_def write_u32_def Let_def not_less)
qed

text \<open>
  C34: the decoder set up from the property bytes of an encoder is the decoder of that encoder: the same
  filter, distance, PPMd order and memory; for LZMA the literal and position bits and the dictionary size
  of the encoder; for LZMA and LZMA2 a window that reaches as far back as the encoder's unless the whole
  output is shorter; for the codecs whose streams carry their settings, the same codec.  This holds for
  every option other than AES (whose key is the subject of the next property), every memory limit and every codec crate whose
  constructors build what they are asked for: then setting up the decoder either yields such a decoder, or
  stops at the memory limit it needs more than, or hands on the refusal of the constructor.
\<close>

theorem decoder_agrees_with_encoder:
  assumes "api_options careful pb opts" "ppmd_bounds_ok pb" "\<And>a. opts \<noteq> Aes a"
    and "\<And>e e'. build e = Inr e' \<Longrightarrow> e' = e" "\<And>d d'. build_other bd d = Inr d' \<Longrightarrow> d' = d"
    and "fst (add_encoder sha build (config_of_options opts)) = Inr enc" "len < 2 ^ 64"
  shows "\<exists>props. get_options_as_properties vs (cfg_method (config_of_options opts)) (Some opts) = Some props
    \<and> decoder_or_refusal bd pw dopts (agrees dopts len enc)
        (fst (add_decoder sha' pb bd len (coder_for (cfg_method (config_of_options opts)) props) pw dopts))"
proof -
  note unfolds = config_of_options_def config_new_def with_options_def add_encoder_def add_decoder_def
    get_options_as_properties_def coder_for_def method_by_id_found [unfolded method_ids] method_ids Let_def
  have ok: "options_ok pb opts" by (rule api_options_ok [OF assms(1,2)])
  have other: "decoder_or_refusal bd pw dopts P (build_other bd d)" if "P d" for P d
    using build_other_cases [of P, OF that assms(5)] .
  have plain: "decoder_or_refusal bd pw dopts P (Inr d) \<longleftrightarrow> P d" for P d by (simp add: decoder_or_refusal_def)
  show ?thesis
  proof (cases opts)
    case (Delta d)
    then show ?thesis using assms(6) delta_agrees [of d] ok by (auto simp: unfolds plain)
  next
    case (Lzma st)
    then have st: "lzma_ok st" using ok by simp
    obtain tp dict where t: "turbo_props_of st = Some tp" "lzma_dict_size st = Some dict"
      using lzma_ok_tables [OF st] by blast
    then have "enc = Enc_Lzma tp" using assms(6) Lzma
      by (auto simp: unfolds panics_def ebind_eq_Inr dest: assms(4))
    then show ?thesis using lzma_agrees [OF st assms(7) t, of bd pw dopts] Lzma t by (simp add: unfolds del: agrees.simps)
  next
    case (Lzma2 o2)
    then have st: "lzma_ok (l2_settings o2)" using ok by simp
    obtain tp dict where t: "turbo_props_of (l2_settings o2) = Some tp" "lzma_dict_size (l2_settings o2) = Some dict"
      using lzma_ok_tables [OF st] by blast
    then obtain bs n where "enc = Enc_Lzma2 tp bs n" using assms(6) Lzma2
      by (auto simp: unfolds panics_def ebind_eq_Inr case_prod_beta dest: assms(4) split: prod.splits)
    then show ?thesis using lzma2_agrees [OF st assms(7) t, of bd pw dopts bs n] Lzma2 t
      by (simp add: unfolds del: agrees.simps)
  next
    case (Ppmd p)
    then have p: "ppmd_ok pb p" using ok by simp
    have "enc = Enc_Ppmd (pp_order p) (pp_memory_size p)" using assms(6) Ppmd
      by (auto simp: unfolds dest: assms(4))
    then show ?thesis
      using ppmd_agrees [OF p assms(2), of "(''PPMD'', ID_PPMD)" "memory_limit_kb (do_limits dopts)"] Ppmd
        other [of "agrees dopts len enc"] refused_over_memory u32_bound [of "pp_memory_size p"]
      by (simp add: unfolds)
  next
    case (Aes a)
    then show ?thesis using assms(3) by simp
  next
    case (Brotli b)
    then have "enc = Enc_Brotli (br_quality b) (br_window b) (unat (br_skippable_frame_size b))"
      using assms(6) by (auto simp: unfolds dest: assms(4))
    then show ?thesis using Brotli other by (simp add: unfolds)
  next
    case (Lz4 l)
    then have "enc = Enc_Lz4 (unat l)" using assms(6) by (auto simp: unfolds dest: assms(4))
    then show ?thesis using Lz4 other by (simp add: unfolds)
  next
    case (Zstd z)
    then have "enc = Enc_Zstd z" using assms(6) by (auto simp: unfolds dest: assms(4))
    then show ?thesis using Zstd other by (simp add: unfolds)
  qed (use assms(6) in \<open>auto simp: unfolds plain\<close>)
qed

definition sample_bounds :: ppmd_bounds where
  "sample_bounds = \<lparr>ppmd_min_order = 2, ppmd_max_order = 64, ppmd_min_mem = 2048, ppmd_max_mem = 0xFFFFFFDB\<rparr>"

theorem decoder_agrees_with_encoder_witness:
  "\<exists>tp. fst (add_encoder collecting_sha Inr (config_of_options (Lzma (lzma_from_level 6)))) = Inr (Enc_Lzma tp) \<and> tp_dict_size tp = 2 ^ 23
    \<and> fst (add_decoder collecting_sha sample_bounds willing 5000 (coder_for (''LZMA'', ID_LZMA) [93, 0, 0, 128, 0]) password_empty
        (header_options limits_default)) = Inr (Dec_Lzma 5000 [93, 0, 0, 128, 0] 5000)"
proof -
  have b: "ppmd_bounds_ok sample_bounds" by (simp add: sample_bounds_def ppmd_bounds_ok_def word_le_nat_alt)
  have api: "api_options True sample_bounds (Lzma (lzma_from_level 6))"
    by (intro api_options.intros lzma_api.intros)
  define tp where "tp = \<lparr>tp_level = 6, tp_dict_size = 2 ^ 23, tp_fast_bytes = 64, tp_fast_mode = False,
    tp_match_finder = Bt4, tp_match_cycles = None\<rparr>"
  have dict: "lzma_dict_size (lzma_from_level 6) = Some (2 ^ 23)"
    by (simp add: lzma_dict_size_def lzma_from_level_def nth_option_def LEVEL_DICT_SIZE_def push_bit_eq_mult word_less_nat_alt)
  have "lzma_nice_len (lzma_from_level 6) = Some 64" "\<not> lzma_fast (lzma_from_level 6)" "ls_level (lzma_from_level 6) = 6"
    by (simp_all add: lzma_nice_len_def lzma_fast_def lzma_from_level_def nth_option_def LEVEL_NICE_LEN_def
        word_less_nat_alt word_le_nat_alt)
  then have "turbo_props_of (lzma_from_level 6) = Some tp" by (simp add: turbo_props_of_def dict tp_def Let_def)
  then have e: "fst (add_encoder collecting_sha Inr (config_of_options (Lzma (lzma_from_level 6)))) = Inr (Enc_Lzma tp)"
    by (simp add: add_encoder_def config_of_options_def config_new_def with_options_def method_ids dict panics_def
        validate_lzma_dictionary_size_def DICT_SIZE_MIN_def word_le_nat_alt)
  have bytes: "write_u32 (2 ^ 23) = [0, 0, 128, 0]" by code_simp
  then have p: "get_options_as_properties undefined (''LZMA'', ID_LZMA) (Some (Lzma (lzma_from_level 6))) = Some [93, 0, 0, 128, 0]"
    by (simp add: get_options_as_properties_def method_ids dict lzma_props_byte_def)
  have "decoder_or_refusal willing password_empty (header_options limits_default) (agrees (header_options limits_default) 5000 (Enc_Lzma tp))
    (fst (add_decoder collecting_sha sample_bounds willing 5000 (coder_for (''LZMA'', ID_LZMA) [93, 0, 0, 128, 0]) password_empty
        (header_options limits_default)))"
    using decoder_agrees_with_encoder [OF api b _ _ _ e, where bd = willing and len = 5000
        and vs = undefined and pw = password_empty and dopts = "header_options limits_default" and sha' = collecting_sha] p
    by (auto simp: config_of_options_def config_new_def with_options_def willing_def)
  moreover have "memory_limit_kb limits_default = 2 ^ 54" by (rule unlimited_kb) (simp add: limits_default_def)
  ultimately have "\<exists>b window. fst (add_decoder collecting_sha sample_bounds willing 5000 (coder_for (''LZMA'', ID_LZMA) [93, 0, 0, 128, 0]) password_empty
        (header_options limits_default)) = Inr (Dec_Lzma 5000 (b # write_u32 (2 ^ 23)) window)
      \<and> b mod 9 = 3 \<and> b div 9 mod 5 = 0 \<and> b div 45 = 2 \<and> unat window = 5000"
    by (auto simp: decoder_or_refusal_def header_options_def willing_def built_lz_def tp_def split: sum.splits)
  then obtain b window where d: "fst (add_decoder collecting_sha sample_bounds willing 5000 (coder_for (''LZMA'', ID_LZMA) [93, 0, 0, 128, 0]) password_empty
        (header_options limits_default)) = Inr (Dec_Lzma 5000 (b # write_u32 (2 ^ 23)) window)"
    "b mod 9 = 3" "b div 9 mod 5 = 0" "b div 45 = 2" "unat window = 5000" by (elim exE conjE) (rule that)
  have "window = 5000" using d(5) by (simp add: word_unat_eq_iff)
  moreover have "b = 93"
  proof -
    have n: "unat b mod 9 = 3" "unat b div 9 mod 5 = 0" "unat b div 45 = 2"
      using arg_cong [OF d(2), of unat] arg_cong [OF d(3), of unat] arg_cong [OF d(4), of unat]
      by (simp_all add: unat_mod unat_div del: mod_0_imp_dvd mod_eq_0_iff_dvd)
    have "unat b = 93" using n div_mult2_eq [of "unat b" 9 5] div_mult_mod_eq [of "unat b" 9]
        div_mult_mod_eq [of "unat b div 9" 5] by simp
    then show ?thesis by (simp add: word_unat_eq_iff)
  qed
  ultimately show ?thesis using e d(1) bytes by (auto simp: tp_def)
qed

text \<open>The AES properties the encoder writes, read back.\<close>

lemma aes_bytes:
  fixes p :: u8
  shows "((p AND 0x3F) OR 0xC0) AND 63 = p AND 63"
    "drop_bit 6 ((p AND 0x3F) OR 0xC0) AND 1 = 1" "drop_bit 7 ((p AND 0x3F) OR 0xC0) AND 1 = 1"
proof -
  have m: "(63 :: u8) = mask 6" "(0xC0 :: u8) = push_bit 6 (mask 2)" by (simp_all add: mask_numeral push_bit_eq_mult)
  show "((p AND 0x3F) OR 0xC0) AND 63 = p AND 63"
    unfolding m by (rule bit_word_eqI) (auto simp: bit_simps)
  show "drop_bit 6 ((p AND 0x3F) OR 0xC0) AND 1 = 1" "drop_bit 7 ((p AND 0x3F) OR 0xC0) AND 1 = 1"
    by simp_all
qed

lemma get_aes_key_written:
  assumes "length (ao_iv a) = 16" "length (ao_salt a) = 16"
  shows "get_aes_key sha (aes_properties a) pw cap m =
    (let power = ao_num_cycles_power a AND 63 in
     if password_is_empty pw then (Inl PasswordRequired, pw)
     else if power = 0x3F
     then (Inr (ao_salt a @ take 16 (pw_bytes pw) @ replicate (16 - length (pw_bytes pw)) 0, ao_iv a), pw)
     else if min cap MAX_AES_CYCLES_POWER < power
     then (Inl (LimitExceeded AesCyclesPower (ucast (min cap MAX_AES_CYCLES_POWER)) (ucast power)), pw)
     else case derive_key_with_budget sha power (ao_salt a) pw m of
            (Inl e, pw') \<Rightarrow> (Inl e, pw')
          | (Inr key, pw') \<Rightarrow> (Inr (key, ao_iv a), pw'))"
proof -
  have "unat ((drop_bit 6 ((ao_num_cycles_power a AND 0x3F) OR 0xC0) AND 1) + (0xFF AND 15)) = 16"
    "unat ((drop_bit 7 ((ao_num_cycles_power a AND 0x3F) OR 0xC0) AND 1) + drop_bit 4 (0xFF :: u8)) = 16"
    unfolding aes_bytes(2,3) by simp_all
  then show ?thesis
    using assms by (simp add: get_aes_key_def aes_properties_def aes_bytes(1) Let_def min_def)
qed

text \<open>
  C35: what is encrypted can be decrypted.  When an AES encoder is set up, the decoder that is
  given the properties it wrote and a fresh copy of the password derives the same key and the
  same initialisation vector, as long as the reader's limits allow the work factor.
\<close>

theorem decrypts_with_the_encryption_key:
  assumes "length (ao_iv a) = 16" "length (ao_salt a) = 16" "cache_ok sha (ao_password a)"
    and "fst (add_encoder sha build (config_of_options (Aes a))) = Inr (Enc_Aes key iv)"
    and "ao_num_cycles_power a AND 63 = 63 \<or> ao_num_cycles_power a AND 63 \<le> max_aes_cycles_power (do_limits dopts)"
    and "ao_num_cycles_power a AND 63 = 63 \<or> 2 ^ unat (ao_num_cycles_power a AND 63) \<le> unat (max_aes_kdf_rounds (do_limits dopts))"
  shows "fst (add_decoder sha pb bd len (coder_for (''AES256_SHA256'', ID_AES256_SHA256) (aes_properties a))
           (password_clone (ao_password a)) dopts) = Inr (Dec_Aes key iv) \<and> iv = ao_iv a
    \<and> (ao_num_cycles_power a AND 63 \<noteq> 63 \<longrightarrow>
        key = derive_key sha (ao_num_cycles_power a AND 63) (ao_salt a) (pw_bytes (ao_password a)))"
proof -
  define power where "power = ao_num_cycles_power a AND 63"
  define fresh where "fresh = password_clone (ao_password a)"
  let ?lims = "do_limits dopts"
  have fresh: "pw_bytes fresh = pw_bytes (ao_password a)" "password_is_empty fresh = password_is_empty (ao_password a)"
    "kc_key (pw_cache fresh) = None" "kc_rounds (pw_cache fresh) = 0"
    by (simp_all add: fresh_def password_clone_def password_from_raw_def password_is_empty_def empty_cache_def)
  have enc: "fst (get_aes_key sha (aes_properties a) (ao_password a) MAX_AES_CYCLES_POWER u64_max) = Inr (key, iv)"
    using assms(4) by (simp add: add_encoder_def config_of_options_def config_new_def with_options_def Let_def method_ids
        aes_encoder_new_def split: prod.splits sum.splits)
  have dec: "fst (add_decoder sha pb bd len (coder_for (''AES256_SHA256'', ID_AES256_SHA256) (aes_properties a)) fresh dopts)
    = (if password_is_empty fresh then Inl PasswordRequired
       else map_sum id (\<lambda>(k, v). Dec_Aes k v) (fst (get_aes_key sha (aes_properties a) fresh (max_aes_cycles_power ?lims) (max_aes_kdf_rounds ?lims))))"
    by (simp add: add_decoder_def coder_for_def method_by_id_found [unfolded method_ids] method_ids Let_def add_aes_def
        split: prod.splits sum.splits)
  have nonempty: "\<not> password_is_empty (ao_password a)"
    using enc by (auto simp: get_aes_key_written [OF assms(1,2)] split: if_splits)
  show ?thesis
  proof (cases "power = 63")
    case True
    then show ?thesis using enc dec nonempty fresh
      by (simp add: get_aes_key_written [OF assms(1,2)] power_def [symmetric] fresh_def [symmetric])
  next
    case False
    then have small: "power \<le> MAX_AES_CYCLES_POWER"
      using enc nonempty by (auto simp: get_aes_key_written [OF assms(1,2)] power_def [symmetric] Let_def not_less
          split: if_splits prod.splits sum.splits)
    then have p64: "unat power < 64" by (simp add: MAX_AES_CYCLES_POWER_def word_le_nat_alt)
    have k: "key = derive_key sha power (ao_salt a) (pw_bytes (ao_password a))" "iv = ao_iv a"
    proof -
      obtain pw' where "derive_key_with_budget sha power (ao_salt a) (ao_password a) u64_max = (Inr key, pw')" "iv = ao_iv a"
        using enc nonempty False small by (auto simp: get_aes_key_written [OF assms(1,2)] power_def [symmetric] Let_def
            split: if_splits prod.splits sum.splits)
      then show "key = derive_key sha power (ao_salt a) (pw_bytes (ao_password a))" "iv = ao_iv a"
        using derive_step(5) [OF _ assms(3) p64] by auto
    qed
    have w: "unat (push_bit (unat power) 1 :: u64) = 2 ^ unat power" using p64 by (simp add: unat_shift_one)
    then have "checked_add 0 (push_bit (unat power) 1) = Some (push_bit (unat power) 1)" by (simp add: checked_add_eq_Some_iff)
    then have "fst (derive_key_with_budget sha power (ao_salt a) fresh (max_aes_kdf_rounds ?lims)) = Inr key"
      using fresh k assms(6) w False
      by (simp add: derive_key_with_budget_def Let_def power_def [symmetric] word_less_nat_alt)
    moreover have "\<not> min (max_aes_cycles_power ?lims) MAX_AES_CYCLES_POWER < power"
      using small assms(5) False by (simp add: power_def [symmetric] not_less)
    ultimately have "fst (get_aes_key sha (aes_properties a) fresh (max_aes_cycles_power ?lims) (max_aes_kdf_rounds ?lims)) = Inr (key, ao_iv a)"
      using nonempty fresh False
      by (auto simp: get_aes_key_written [OF assms(1,2)] power_def [symmetric] Let_def split: prod.splits sum.splits)
    then show ?thesis using dec nonempty fresh k by (simp add: fresh_def [symmetric] power_def [symmetric])
  qed
qed

theorem decrypts_with_the_encryption_key_witness:
  "\<exists>key. fst (add_encoder collecting_sha Inr (config_of_options (Aes
        (aes_options_new (replicate 16 4) (replicate 16 3) (password_from_raw [5]))))) = Inr (Enc_Aes key (replicate 16 4))
    \<and> fst (add_decoder collecting_sha sample_bounds willing 32 (coder_for (''AES256_SHA256'', ID_AES256_SHA256)
        (aes_properties (aes_options_new (replicate 16 4) (replicate 16 3) (password_from_raw [5]))))
        (password_clone (password_from_raw [5])) (header_options limits_default)) = Inr (Dec_Aes key (replicate 16 4))"
proof -
  define a where "a = aes_options_new (replicate 16 4) (replicate 16 3) (password_from_raw [5])"
  have a: "length (ao_iv a) = 16" "length (ao_salt a) = 16" "cache_ok collecting_sha (ao_password a)"
    "ao_num_cycles_power a AND 63 = 8" "\<not> password_is_empty (ao_password a)" "ao_password a = password_from_raw [5]"
    "kc_key (pw_cache (ao_password a)) = None" "kc_rounds (pw_cache (ao_password a)) = 0" "ao_iv a = replicate 16 4"
    by (simp_all add: a_def aes_options_new_def cache_ok_def password_from_raw_def empty_cache_def password_is_empty_def)
  have "checked_add 0 256 = Some 256" by (simp add: checked_add_def)
  then have "fst (get_aes_key collecting_sha (aes_properties a) (ao_password a) MAX_AES_CYCLES_POWER u64_max)
    = Inr (derive_key collecting_sha 8 (ao_salt a) (pw_bytes (ao_password a)), replicate 16 4)"
    using a by (simp add: get_aes_key_written derive_key_with_budget_def MAX_AES_CYCLES_POWER_def word_less_nat_alt Let_def u64_max_def)
  then have e: "fst (add_encoder collecting_sha Inr (config_of_options (Aes a)))
    = Inr (Enc_Aes (derive_key collecting_sha 8 (ao_salt a) (pw_bytes (ao_password a))) (replicate 16 4))"
    by (auto simp: add_encoder_def config_of_options_def config_new_def with_options_def method_ids aes_encoder_new_def
        split: prod.splits sum.splits)
  have l: "ao_num_cycles_power a AND 63 \<le> max_aes_cycles_power (do_limits (header_options limits_default))"
    "2 ^ unat (ao_num_cycles_power a AND 63) \<le> unat (max_aes_kdf_rounds (do_limits (header_options limits_default)))"
    unfolding a(4) by (simp_all add: header_options_def limits_default_def word_le_nat_alt)
  show ?thesis
    using e decrypts_with_the_encryption_key [OF a(1-3) e, of "header_options limits_default" sample_bounds willing 32] l a(6)
    unfolding a_def [symmetric] by auto
qed

end
