(* ===== verification/Io_Streams.thy ===== *)
theory Io_Streams
  imports Errors
begin

text \<open>
  Streams: what a \<open>Read\<close> is, and the small adapters the archive is read and written through.
  \<open>BoundedReader\<close>, \<open>SharedBoundedReader\<close>, \<open>FaultRecordingReader\<close> and \<open>Crc32VerifyingReader\<close> of
  \<open>src/reader.rs\<close>, \<open>SourceReader\<close> and \<open>SeqReader\<close> of \<open>src/writer/\<close>.  A reader is a function of the
  length of the buffer it is given and of its state; an adapter takes the \<open>read\<close> of the reader below
  it as an argument.  The locale \<open>byte_source\<close> is the contract of a \<open>Read\<close> that does not fail, and the
  adapters are shown to keep it.  The digest \<open>Crc32\<close> is a parameter, a function of the bytes it was
  updated with.
\<close>

section \<open>Reading\<close>

type_synonym 's io_reader = "nat \<Rightarrow> 's \<Rightarrow> (io_error + bytes) \<times> 's"

text \<open>A source from outside: what its successive reads return.\<close>

datatype read_event = Got bytes | Failed io_error

fun source_read :: "read_event list io_reader" where
  "source_read n [] = (Inr [], [])"
| "source_read n (Failed e # s) = (Inl e, s)"
| "source_read n (Got bs # s) =
     (if length bs \<le> n then (Inr bs, s) else (Inr (take n bs), Got (drop n bs) # s))"

text \<open>
  A loop that reads into a buffer of \<open>n\<close> bytes until a read returns nothing or fails: the pieces
  and the error.
\<close>

partial_function (option) read_loop ::
  "'s io_reader \<Rightarrow> nat \<Rightarrow> 's \<Rightarrow> bytes list \<Rightarrow> (bytes list \<times> io_error option \<times> 's) option" where
  "read_loop rd n s pieces =
     (case rd n s of
        (Inl e, s') \<Rightarrow> Some (pieces, Some e, s')
      | (Inr bs, s') \<Rightarrow> if bs = [] then Some (pieces, None, s') else read_loop rd n s' (pieces @ [bs]))"

text \<open>A caller that reads with the given buffer lengths, as long as there is something.\<close>

fun drain :: "'s io_reader \<Rightarrow> nat list \<Rightarrow> 's \<Rightarrow> (io_error + bytes list) \<times> 's" where
  "drain rd [] s = (Inr [], s)"
| "drain rd (n # ns) s =
     (case rd n s of
        (Inl e, s') \<Rightarrow> (Inl e, s')
      | (Inr bs, s') \<Rightarrow>
          if bs = [] then (Inr [], s')
          else case drain rd ns s' of
                 (Inl e, s'') \<Rightarrow> (Inl e, s'')
               | (Inr pieces, s'') \<Rightarrow> (Inr (bs # pieces), s''))"

section \<open>Adapters of the archive reader\<close>

record 's bounded =
  bd_inner :: 's
  bd_remain :: nat

definition bounded_new :: "'s \<Rightarrow> nat \<Rightarrow> 's bounded" where
  "bounded_new inner max_size = \<lparr>bd_inner = inner, bd_remain = max_size\<rparr>"

definition bounded_read :: "'s io_reader \<Rightarrow> 's bounded io_reader" where
  "bounded_read rd n b =
     (if bd_remain b = 0 then (Inr [], b)
      else case rd (min n (bd_remain b)) (bd_inner b) of
             (Inl e, s') \<Rightarrow> (Inl e, b\<lparr>bd_inner := s'\<rparr>)
           | (Inr bs, s') \<Rightarrow> (Inr bs, \<lparr>bd_inner = s', bd_remain = bd_remain b - length bs\<rparr>))"

text \<open>
  The file below a \<open>SharedBoundedReader\<close> is its bytes and its position, which all the readers
  that share it move.
\<close>

record cursor =
  cu_bytes :: bytes
  cu_pos :: nat

definition cursor_read :: "cursor io_reader" where
  "cursor_read n c = (let bs = take n (drop (cu_pos c) (cu_bytes c)) in (Inr bs, c\<lparr>cu_pos := cu_pos c + length bs\<rparr>))"

definition cursor_seek :: "nat \<Rightarrow> cursor \<Rightarrow> cursor" where
  "cursor_seek p c = c\<lparr>cu_pos := p\<rparr>"

record shared_bounded =
  sb_cur :: u64
  sb_bounds :: "u64 \<times> u64"

definition shared_new :: "u64 \<times> u64 \<Rightarrow> shared_bounded" where
  "shared_new bounds = \<lparr>sb_cur = fst bounds, sb_bounds = bounds\<rparr>"

definition shared_read :: "nat \<Rightarrow> shared_bounded \<times> cursor \<Rightarrow> (io_error + bytes) \<times> shared_bounded \<times> cursor" where
  "shared_read n st =
     (case st of (r, inner) \<Rightarrow>
       if snd (sb_bounds r) \<le> sb_cur r then (Inr [], r, inner)
       else
         let bound = min n (unat (snd (sb_bounds r) - sb_cur r))
         in case cursor_read bound (cursor_seek (unat (sb_cur r)) inner) of
              (Inl e, inner') \<Rightarrow> (Inl e, r, inner')
            | (Inr bs, inner') \<Rightarrow> (Inr bs, r\<lparr>sb_cur := sb_cur r + of_nat (length bs)\<rparr>, inner'))"

text \<open>Positions are computed in \<open>i64\<close>: the same 64 bits, read with \<open>sint\<close>.\<close>

type_synonym i64 = "64 word"

datatype seek_from = SeekStart u64 | SeekEnd i64 | SeekCurrent i64

definition shared_seek :: "seek_from \<Rightarrow> shared_bounded \<times> cursor \<Rightarrow> (io_error + u64) \<times> shared_bounded \<times> cursor" where
  "shared_seek pos st =
     (case st of (r, inner) \<Rightarrow>
       let new_pos = (case pos of SeekStart p \<Rightarrow> fst (sb_bounds r) + p
                      | SeekEnd p \<Rightarrow> snd (sb_bounds r) + p
                      | SeekCurrent p \<Rightarrow> sb_cur r + p) :: i64
       in if sint new_pos < 0 then (Inl (Io_Error OtherKind ''SeekBeforeStart''), r, inner)
          else (Inr new_pos, r\<lparr>sb_cur := new_pos\<rparr>, cursor_seek (unat new_pos) inner))"

definition fault_read :: "'s io_reader \<Rightarrow> (bool \<times> 's) io_reader" where
  "fault_read rd n st =
     (case st of (faulted, s) \<Rightarrow>
       case rd n s of
         (Inl e, s') \<Rightarrow> (Inl e, True, s')
       | (Inr bs, s') \<Rightarrow> (Inr bs, faulted, s'))"

record 's crc_verifying =
  cv_inner :: 's
  cv_seen :: bytes
  cv_expected :: u64
  cv_remaining :: int
  cv_report :: "u32 option"

definition crc_verifying_new :: "'s \<Rightarrow> nat \<Rightarrow> u64 \<Rightarrow> 's crc_verifying" where
  "crc_verifying_new inner remaining expected =
     \<lparr>cv_inner = inner, cv_seen = [], cv_expected = expected,
      cv_remaining = sint (of_nat remaining :: i64), cv_report = None\<rparr>"

definition checksum_error :: io_error where
  "checksum_error = Io_Error OtherKind ''ChecksumVerificationFailed''"

definition crc_verifying_read :: "(bytes \<Rightarrow> u32) \<Rightarrow> 's io_reader \<Rightarrow> 's crc_verifying io_reader" where
  "crc_verifying_read crc32 rd n v =
     (if cv_remaining v \<le> 0 then (Inr [], v)
      else case rd n (cv_inner v) of
             (Inl e, s') \<Rightarrow> (Inl e, v\<lparr>cv_inner := s'\<rparr>)
           | (Inr bs, s') \<Rightarrow>
               let v1 = v\<lparr>cv_inner := s', cv_seen := cv_seen v @ bs, cv_remaining := cv_remaining v - int (length bs)\<rparr>
               in if cv_remaining v1 \<le> 0
                  then let d = crc32 (cv_seen v1); v2 = v1\<lparr>cv_seen := []\<rparr>
                       in if ucast d \<noteq> cv_expected v then (Inl checksum_error, v2)
                          else (Inr bs, v2\<lparr>cv_report := Some d\<rparr>)
                  else (Inr bs, v1))"

section \<open>Adapters of the archive writer\<close>

record 's source_reader =
  sr_inner :: 's
  sr_size :: nat
  sr_seen :: bytes
  sr_crc_value :: u32

definition source_reader_new :: "'s \<Rightarrow> 's source_reader" where
  "source_reader_new inner = \<lparr>sr_inner = inner, sr_size = 0, sr_seen = [], sr_crc_value = 0\<rparr>"

definition source_reader_read :: "(bytes \<Rightarrow> u32) \<Rightarrow> 's io_reader \<Rightarrow> 's source_reader io_reader" where
  "source_reader_read crc32 rd n r =
     (case rd n (sr_inner r) of
        (Inl e, s') \<Rightarrow> (Inl e, r\<lparr>sr_inner := s'\<rparr>)
      | (Inr bs, s') \<Rightarrow>
          (Inr bs,
           if sr_crc_value r = 0
           then (if bs \<noteq> []
                 then r\<lparr>sr_inner := s', sr_size := sr_size r + length bs, sr_seen := sr_seen r @ bs\<rparr>
                 else r\<lparr>sr_inner := s', sr_seen := [], sr_crc_value := crc32 (sr_seen r)\<rparr>)
           else r\<lparr>sr_inner := s'\<rparr>))"

record 'r seq_reader =
  sq_readers :: "'r list"
  sq_current :: nat

definition seq_reader_new :: "'r list \<Rightarrow> 'r seq_reader" where
  "seq_reader_new readers = \<lparr>sq_readers = readers, sq_current = 0\<rparr>"

function seq_read :: "'r io_reader \<Rightarrow> 'r seq_reader io_reader" where
  "seq_read rd n q =
     (if sq_current q < length (sq_readers q)
      then case rd n (sq_readers q ! sq_current q) of
             (Inl e, r') \<Rightarrow> (Inl e, q\<lparr>sq_readers := (sq_readers q)[sq_current q := r']\<rparr>)
           | (Inr bs, r') \<Rightarrow>
               let q' = q\<lparr>sq_readers := (sq_readers q)[sq_current q := r']\<rparr>
               in if bs = [] then seq_read rd n (q'\<lparr>sq_current := sq_current q + 1\<rparr>) else (Inr bs, q')
      else (Inr [], q))"
  by pat_completeness auto
termination by (relation "measure (\<lambda>(rd, n, q). length (sq_readers q) - sq_current q)") auto

declare seq_read.simps [simp del]

section \<open>The contract of a reader\<close>

text \<open>
  A reader that comes to an end: as long as it delivers something, what is left shrinks.  The loops
  that read until nothing comes end on it, whether or not it fails.
\<close>

locale ending_reader =
  fixes rd :: "'s io_reader" and inv :: "'s \<Rightarrow> bool" and left :: "'s \<Rightarrow> nat"
  assumes inv_step: "inv s \<Longrightarrow> 0 < n \<Longrightarrow> rd n s = (Inr bs, s') \<Longrightarrow> inv s'"
    and shrinks: "inv s \<Longrightarrow> 0 < n \<Longrightarrow> rd n s = (Inr bs, s') \<Longrightarrow> bs \<noteq> [] \<Longrightarrow> left s' < left s"
begin

lemma loop_ends: "inv s \<Longrightarrow> 0 < n \<Longrightarrow> \<exists>pieces e s'. read_loop rd n s acc = Some (acc @ pieces, e, s')"
proof (induction "left s" arbitrary: s acc rule: less_induct)
  case less
  obtain r s1 where r: "rd n s = (r, s1)" by (cases "rd n s")
  show ?case
  proof (cases r)
    case (Inl e)
    then show ?thesis using r by (simp add: read_loop.simps)
  next
    case (Inr bs)
    show ?thesis
    proof (cases "bs = []")
      case True
      then show ?thesis using r Inr by (simp add: read_loop.simps)
    next
      case False
      have step: "left s1 < left s" "inv s1" using shrinks inv_step less.prems r Inr False by blast+
      from less.hyps [OF step(1,2) less.prems(2), of "acc @ [bs]"] show ?thesis
        using r Inr False by (subst read_loop.simps) auto
    qed
  qed
qed

end

text \<open>A reader that does not fail and delivers its \<open>content\<close>, in pieces it chooses.\<close>

locale byte_source =
  fixes rd :: "'s io_reader" and good :: "'s \<Rightarrow> bool" and content :: "'s \<Rightarrow> bytes"
  assumes read_law: "good s \<Longrightarrow> 0 < n \<Longrightarrow> \<exists>bs s'. rd n s = (Inr bs, s') \<and> good s' \<and> length bs \<le> n
    \<and> content s = bs @ content s' \<and> (bs = [] \<longrightarrow> content s = [])"
begin

lemma read_cases:
  assumes "good s" "0 < n"
  obtains bs s' where "rd n s = (Inr bs, s')" "good s'" "length bs \<le> n" "content s = bs @ content s'" "bs = [] \<longleftrightarrow> content s = []"
  using read_law [OF assms] by auto

lemma read_Inr:
  assumes "good s" "0 < n" "rd n s = (r, s')"
  shows "\<exists>bs. r = Inr bs \<and> good s' \<and> length bs \<le> n \<and> content s = bs @ content s' \<and> (bs = [] \<longleftrightarrow> content s = [])"
  using read_law [OF assms(1,2)] assms(3) by auto

lemma drain_prefix:
  assumes "good s" "\<forall>n\<in>set ns. 0 < n"
  shows "\<exists>pieces s'. drain rd ns s = (Inr pieces, s') \<and> good s' \<and> content s = concat pieces @ content s'
    \<and> (length (content s) < length ns \<longrightarrow> content s' = [])"
  using assms
proof (induction ns arbitrary: s)
  case (Cons n ns)
  have n: "0 < n" using Cons.prems(2) by simp
  obtain bs s1 where r: "rd n s = (Inr bs, s1)" "good s1" "content s = bs @ content s1" "bs = [] \<longleftrightarrow> content s = []"
    by (rule read_cases [OF Cons.prems(1) n])
  show ?case
  proof (cases "bs = []")
    case True
    have "content s1 = []" "content s = []" using r(3,4) True by simp_all
    moreover have "drain rd (n # ns) s = (Inr [], s1)" using r(1) True by simp
    ultimately show ?thesis using r(2) by force
  next
    case False
    obtain pieces s' where "drain rd ns s1 = (Inr pieces, s')" "good s'" "content s1 = concat pieces @ content s'"
      "length (content s1) < length ns \<longrightarrow> content s' = []"
      using Cons.IH [OF r(2)] Cons.prems(2) by force
    note p = this
    have "drain rd (n # ns) s = (Inr (bs # pieces), s')" using r(1) False p(1) by simp
    moreover have "content s = concat (bs # pieces) @ content s'" using r(3) p(3) by simp
    moreover have "length (content s) < length (n # ns) \<longrightarrow> content s' = []"
      using r(3) p(4) False by (cases bs) simp_all
    ultimately show ?thesis using p(2) by blast
  qed
qed simp

lemma drain_all:
  assumes "good s" "\<forall>n\<in>set ns. 0 < n" "length (content s) < length ns"
  shows "\<exists>pieces s'. drain rd ns s = (Inr pieces, s') \<and> content s = concat pieces"
  using drain_prefix [OF assms(1,2)] assms(3) by auto

lemma loop_reads_all:
  "good s \<Longrightarrow> 0 < n \<Longrightarrow> \<exists>pieces s'. read_loop rd n s acc = Some (acc @ pieces, None, s') \<and> content s = concat pieces
    \<and> [] \<notin> set pieces \<and> good s' \<and> content s' = []"
proof (induction "length (content s)" arbitrary: s acc rule: less_induct)
  case less
  obtain bs s1 where r: "rd n s = (Inr bs, s1)" "good s1" "content s = bs @ content s1" "bs = [] \<longleftrightarrow> content s = []"
    by (rule read_cases [OF less.prems])
  show ?case
  proof (cases "bs = []")
    case True
    have "content s1 = []" "content s = []" using r(3,4) True by simp_all
    moreover have "read_loop rd n s acc = Some (acc @ [], None, s1)" using r(1) True by (subst read_loop.simps) simp
    ultimately show ?thesis using r(2) by (intro exI [of _ "[]"] exI [of _ s1]) simp
  next
    case False
    then have "length (content s1) < length (content s)" using r(3) by simp
    from less.hyps [OF this r(2) less.prems(2), of "acc @ [bs]"] obtain pieces s' where
      p: "read_loop rd n s1 (acc @ [bs]) = Some ((acc @ [bs]) @ pieces, None, s')" "content s1 = concat pieces" "[] \<notin> set pieces"
      "good s'" "content s' = []" by blast
    have "read_loop rd n s acc = Some (acc @ (bs # pieces), None, s')"
      using p(1) r(1) False by (subst read_loop.simps) simp
    moreover have "content s = concat (bs # pieces)" using r(3) p(2) by simp
    moreover have "[] \<notin> set (bs # pieces)" using False p(3) by auto
    ultimately show ?thesis using p(4,5) by blast
  qed
qed

lemma loop_keeps:
  assumes keeps: "\<And>s bs s'. good s \<Longrightarrow> I s \<Longrightarrow> rd n s = (Inr bs, s') \<Longrightarrow> I s'" and "0 < n"
  shows "good s \<Longrightarrow> I s \<Longrightarrow> read_loop rd n s acc = Some (pieces, e, s') \<Longrightarrow> \<exists>s0. good s0 \<and> I s0 \<and> rd n s0 = (Inr [], s')"
proof (induction "length (content s)" arbitrary: s acc rule: less_induct)
  case less
  obtain bs s1 where r: "rd n s = (Inr bs, s1)" "good s1" "content s = bs @ content s1" "bs = [] \<longleftrightarrow> content s = []"
    by (rule read_cases [OF less.prems(1) assms(2)])
  show ?case
  proof (cases "bs = []")
    case True
    then have "s' = s1" using less.prems(3) r(1) by (simp add: read_loop.simps)
    then show ?thesis using r(1) True less.prems(1,2) by blast
  next
    case False
    then have "length (content s1) < length (content s)" using r(3) by simp
    moreover have "read_loop rd n s1 (acc @ [bs]) = Some (pieces, e, s')"
      using less.prems(3) r(1) False by (subst (asm) read_loop.simps) simp
    ultimately show ?thesis using less.hyps r(2) keeps [OF less.prems(1,2) r(1)] by blast
  qed
qed

end

sublocale byte_source \<subseteq> ending_reader rd good "length \<circ> content"
proof
  fix s n bs s'
  assume s: "good s" "0 < n" "rd n s = (Inr bs, s')"
  from read_Inr [OF this] have law: "good s'" "content s = bs @ content s'" by simp_all
  then show "good s'" "bs \<noteq> [] \<Longrightarrow> (length \<circ> content) s' < (length \<circ> content) s" by simp_all
qed

subsection \<open>Sources\<close>

fun event_data :: "read_event \<Rightarrow> bytes" where
  "event_data (Got bs) = bs"
| "event_data (Failed e) = []"

definition source_data :: "read_event list \<Rightarrow> bytes" where
  "source_data s = concat (map event_data s)"

definition plain_source :: "read_event list \<Rightarrow> bool" where
  "plain_source s \<longleftrightarrow> list_all (\<lambda>ev. event_data ev \<noteq> []) s"

lemma source_data_simps [simp]:
  "source_data [] = []" "source_data (ev # s) = event_data ev @ source_data s"
  by (simp_all add: source_data_def)

lemma plain_source_simps [simp]:
  "plain_source []" "plain_source (ev # s) \<longleftrightarrow> event_data ev \<noteq> [] \<and> plain_source s"
  by (simp_all add: plain_source_def)

lemma plain_source_empty: "plain_source s \<Longrightarrow> source_data s = [] \<longleftrightarrow> s = []"
  by (cases s) auto

interpretation script: ending_reader source_read "\<lambda>_. True" "\<lambda>s. length (source_data s)"
proof
  fix s n bs s'
  assume "0 < n" "source_read n s = (Inr bs, s')" "bs \<noteq> []"
  then show "length (source_data s') < length (source_data s)"
    by (cases "(n, s)" rule: source_read.cases) (auto split: if_splits)
qed simp

interpretation plain: byte_source source_read plain_source source_data
proof
  fix s and n :: nat
  assume s: "plain_source s" "0 < n"
  show "\<exists>bs s'. source_read n s = (Inr bs, s') \<and> plain_source s' \<and> length bs \<le> n \<and> source_data s = bs @ source_data s'
    \<and> (bs = [] \<longrightarrow> source_data s = [])"
  proof (cases "(n, s)" rule: source_read.cases)
    case (3 m bs t)
    then have e: "s = Got bs # t" "m = n" by simp_all
    have "source_data s = take n bs @ source_data (Got (drop n bs) # t)" unfolding e by simp
    then show ?thesis using s e by (cases "length bs \<le> n") auto
  qed (use s in auto)
qed

subsection \<open>The adapters keep the contract\<close>

context byte_source begin

lemma bounded:
  "byte_source (bounded_read rd) (\<lambda>b. good (bd_inner b)) (\<lambda>b. take (bd_remain b) (content (bd_inner b)))"
proof
  fix b :: "'s bounded" and n :: nat
  assume b: "good (bd_inner b)" "0 < n"
  show "\<exists>bs b'. bounded_read rd n b = (Inr bs, b') \<and> good (bd_inner b') \<and> length bs \<le> n
    \<and> take (bd_remain b) (content (bd_inner b)) = bs @ take (bd_remain b') (content (bd_inner b'))
    \<and> (bs = [] \<longrightarrow> take (bd_remain b) (content (bd_inner b)) = [])"
  proof (cases "bd_remain b = 0")
    case True
    then show ?thesis using b by (simp add: bounded_read_def)
  next
    case False
    then have n: "0 < min n (bd_remain b)" using b(2) by simp
    obtain bs s' where r: "rd (min n (bd_remain b)) (bd_inner b) = (Inr bs, s')" "good s'" "length bs \<le> min n (bd_remain b)"
      "content (bd_inner b) = bs @ content s'" "bs = [] \<longleftrightarrow> content (bd_inner b) = []"
      by (rule read_cases [OF b(1) n])
    have "bounded_read rd n b = (Inr bs, \<lparr>bd_inner = s', bd_remain = bd_remain b - length bs\<rparr>)"
      using False r(1) by (simp add: bounded_read_def)
    moreover have "take (bd_remain b) (content (bd_inner b)) = bs @ take (bd_remain b - length bs) (content s')"
      using r(3,4) by simp
    moreover have "bs = [] \<longrightarrow> take (bd_remain b) (content (bd_inner b)) = []" using r(5) by simp
    ultimately show ?thesis using r(2,3) by simp
  qed
qed

lemma source_reader: "byte_source (source_reader_read crc32 rd) (\<lambda>r. good (sr_inner r)) (\<lambda>r. content (sr_inner r))"
proof
  fix r :: "'s source_reader" and n :: nat
  assume r: "good (sr_inner r)" "0 < n"
  obtain bs s' where "rd n (sr_inner r) = (Inr bs, s')" "good s'" "length bs \<le> n"
    "content (sr_inner r) = bs @ content s'" "bs = [] \<longleftrightarrow> content (sr_inner r) = []"
    by (rule read_cases [OF r])
  note law = this
  then show "\<exists>bs r'. source_reader_read crc32 rd n r = (Inr bs, r') \<and> good (sr_inner r') \<and> length bs \<le> n
    \<and> content (sr_inner r) = bs @ content (sr_inner r') \<and> (bs = [] \<longrightarrow> content (sr_inner r) = [])"
    by (intro exI [of _ bs] exI [of _ "snd (source_reader_read crc32 rd n r)"]) (auto simp: source_reader_read_def)
qed

lemma seq_reader:
  "byte_source (seq_read rd) (\<lambda>q. list_all good (sq_readers q)) (\<lambda>q. concat (map content (drop (sq_current q) (sq_readers q))))"
proof
  fix q :: "'s seq_reader" and n :: nat
  assume "list_all good (sq_readers q)" "0 < n"
  then show "\<exists>bs q'. seq_read rd n q = (Inr bs, q') \<and> list_all good (sq_readers q') \<and> length bs \<le> n
    \<and> concat (map content (drop (sq_current q) (sq_readers q))) = bs @ concat (map content (drop (sq_current q') (sq_readers q')))
    \<and> (bs = [] \<longrightarrow> concat (map content (drop (sq_current q) (sq_readers q))) = [])"
  proof (induction "length (sq_readers q) - sq_current q" arbitrary: q rule: less_induct)
    case less
    define i where "i = sq_current q"
    show ?case
    proof (cases "i < length (sq_readers q)")
      case False
      then show ?thesis using less.prems by (simp add: seq_read.simps i_def)
    next
      case True
      have g: "good (sq_readers q ! i)" using less.prems(1) True by (simp add: list_all_length)
      obtain bs r' where r: "rd n (sq_readers q ! i) = (Inr bs, r')" "good r'" "length bs \<le> n"
        "content (sq_readers q ! i) = bs @ content r'" "bs = [] \<longleftrightarrow> content (sq_readers q ! i) = []"
        by (rule read_cases [OF g less.prems(2)])
      define q' where "q' = q\<lparr>sq_readers := (sq_readers q)[i := r']\<rparr>"
      have good': "list_all good (sq_readers q')"
        using less.prems(1) r(2) True by (auto simp: q'_def list_all_length nth_list_update)
      have here: "drop i (sq_readers q) = sq_readers q ! i # drop (Suc i) (sq_readers q)" using True by (rule Cons_nth_drop_Suc [symmetric])
      have there: "drop i (sq_readers q') = r' # drop (Suc i) (sq_readers q)" "drop (Suc i) (sq_readers q') = drop (Suc i) (sq_readers q)"
        using True by (simp_all add: q'_def drop_update_swap Cons_nth_drop_Suc [symmetric])
      show ?thesis
      proof (cases "bs = []")
        case False
        then have "seq_read rd n q = (Inr bs, q')" using True r(1) by (subst seq_read.simps) (simp add: q'_def i_def)
        moreover have "sq_current q' = i" by (simp add: q'_def i_def)
        ultimately show ?thesis using good' r(3,4) here there False by (auto simp: i_def [symmetric])
      next
        case True
        define q'' where "q'' = q'\<lparr>sq_current := i + 1\<rparr>"
        have "seq_read rd n q = seq_read rd n q''"
          using True \<open>i < length (sq_readers q)\<close> r(1) by (subst seq_read.simps) (simp add: q''_def q'_def i_def)
        moreover have "concat (map content (drop (sq_current q) (sq_readers q))) = concat (map content (drop (sq_current q'') (sq_readers q'')))"
          using here there True r(5) by (simp add: q''_def i_def [symmetric])
        moreover have "length (sq_readers q'') - sq_current q'' < length (sq_readers q) - sq_current q"
          using \<open>i < length (sq_readers q)\<close> by (simp add: q''_def q'_def i_def)
        moreover have "list_all good (sq_readers q'')" using good' by (simp add: q''_def)
        ultimately show ?thesis using less.hyps [of q''] less.prems(2) by simp
      qed
    qed
  qed
qed

end

subsection \<open>Sources are measured while they are read\<close>

definition measuring :: "('s \<Rightarrow> bytes) \<Rightarrow> bytes \<Rightarrow> 's source_reader \<Rightarrow> bool" where
  "measuring content d r \<longleftrightarrow> sr_crc_value r = 0 \<and> sr_size r = length (sr_seen r) \<and> d = sr_seen r @ content (sr_inner r)"

definition measured :: "(bytes \<Rightarrow> u32) \<Rightarrow> bytes \<Rightarrow> 's source_reader \<Rightarrow> bool" where
  "measured crc32 d r \<longleftrightarrow> sr_size r = length d \<and> sr_crc_value r = crc32 d"

definition seq_measures :: "(bytes \<Rightarrow> u32) \<Rightarrow> ('s \<Rightarrow> bytes) \<Rightarrow> bytes list \<Rightarrow> 's source_reader seq_reader \<Rightarrow> bool" where
  "seq_measures crc32 content ds q \<longleftrightarrow> length (sq_readers q) = length ds \<and> sq_current q \<le> length ds
     \<and> (\<forall>i<length ds. (i < sq_current q \<longrightarrow> measured crc32 (ds ! i) (sq_readers q ! i))
          \<and> (sq_current q \<le> i \<longrightarrow> measuring content (ds ! i) (sq_readers q ! i)))"

context byte_source begin

lemma measuring_step:
  assumes "good (sr_inner r)" "0 < n" "measuring content d r" "source_reader_read crc32 rd n r = (Inr bs, r')"
  shows "if bs = [] then measured crc32 d r' else measuring content d r'"
proof -
  obtain bs' s' where l: "rd n (sr_inner r) = (Inr bs', s')" "content (sr_inner r) = bs' @ content s'"
    "bs' = [] \<longleftrightarrow> content (sr_inner r) = []" by (rule read_cases [OF assms(1,2)])
  have "bs' = bs" using assms(4) l(1) by (simp add: source_reader_read_def)
  then show ?thesis
    using assms(3,4) l by (auto simp: source_reader_read_def measuring_def measured_def)
qed

lemma seq_measures_step:
  assumes "0 < n"
  shows "list_all (\<lambda>r. good (sr_inner r)) (sq_readers q) \<Longrightarrow> seq_measures crc32 content ds q \<Longrightarrow>
    seq_read (source_reader_read crc32 rd) n q = (Inr bs, q') \<Longrightarrow>
    seq_measures crc32 content ds q' \<and> (bs = [] \<longrightarrow> sq_current q' = length ds)"
proof (induction "length (sq_readers q) - sq_current q" arbitrary: q rule: less_induct)
  case less
  define i where "i = sq_current q"
  show ?case
  proof (cases "i < length (sq_readers q)")
    case False
    then show ?thesis using less.prems by (simp add: seq_read.simps [of _ n q] i_def seq_measures_def)
  next
    case True
    have g: "good (sr_inner (sq_readers q ! i))" using less.prems(1) True by (simp add: list_all_length)
    obtain b r' where r: "source_reader_read crc32 rd n (sq_readers q ! i) = (Inr b, r')" "good (sr_inner r')"
      by (rule byte_source.read_cases [OF source_reader g assms])
    have len: "length (sq_readers q) = length ds" using less.prems(2) by (simp add: seq_measures_def)
    have "measuring content (ds ! i) (sq_readers q ! i)" using less.prems(2) True by (simp add: seq_measures_def i_def)
    note new = measuring_step [OF g assms this r(1)]
    define q' where "q' = q\<lparr>sq_readers := (sq_readers q)[i := r']\<rparr>"
    have good': "list_all (\<lambda>r. good (sr_inner r)) (sq_readers q')"
      using less.prems(1) r(2) True by (auto simp: q'_def list_all_length nth_list_update)
    show ?thesis
    proof (cases "b = []")
      case False
      then have "seq_read (source_reader_read crc32 rd) n q = (Inr b, q')" using True r(1) by (subst seq_read.simps) (simp add: q'_def i_def)
      moreover have "seq_measures crc32 content ds q'"
        using less.prems(2) new False by (auto simp: seq_measures_def q'_def i_def nth_list_update)
      ultimately show ?thesis using less.prems(3) False by simp
    next
      case empty: True
      define q'' where "q'' = q'\<lparr>sq_current := i + 1\<rparr>"
      have "seq_read (source_reader_read crc32 rd) n q = seq_read (source_reader_read crc32 rd) n q''"
        using empty True r(1) by (subst seq_read.simps) (simp add: q''_def q'_def i_def)
      moreover have "seq_measures crc32 content ds q''"
        using less.prems(2) new empty True len
        by (auto simp: seq_measures_def q''_def q'_def i_def nth_list_update less_Suc_eq)
      moreover have "length (sq_readers q'') - sq_current q'' < length (sq_readers q) - sq_current q"
        using True by (simp add: q''_def q'_def i_def)
      moreover have "list_all (\<lambda>r. good (sr_inner r)) (sq_readers q'')" using good' by (simp add: q''_def)
      ultimately show ?thesis using less.hyps [of q''] less.prems(3) by simp
    qed
  qed
qed

lemma sources_measured:
  assumes "list_all good ss" "0 < n"
  shows "\<exists>pieces q. read_loop (seq_read (source_reader_read crc32 rd)) n (seq_reader_new (map source_reader_new ss)) []
      = Some (pieces, None, q)
    \<and> concat pieces = concat (map content ss) \<and> [] \<notin> set pieces
    \<and> list_all2 (measured crc32) (map content ss) (sq_readers q)"
proof -
  define q0 where "q0 = seq_reader_new (map source_reader_new ss)"
  note law = byte_source.seq_reader [OF source_reader, of crc32]
  have good0: "list_all (\<lambda>r. good (sr_inner r)) (sq_readers q0)"
    using assms(1) by (simp add: q0_def seq_reader_new_def source_reader_new_def list_all_iff)
  have start: "seq_measures crc32 content (map content ss) q0"
    by (simp add: q0_def seq_reader_new_def source_reader_new_def seq_measures_def measuring_def)
  obtain pieces q where l: "read_loop (seq_read (source_reader_read crc32 rd)) n q0 [] = Some (pieces, None, q)"
    and c: "concat (map (\<lambda>r. content (sr_inner r)) (drop (sq_current q0) (sq_readers q0))) = concat pieces" "[] \<notin> set pieces"
    using byte_source.loop_reads_all [OF law good0 assms(2), of "[]"] by (auto simp only: append.simps)
  have "\<exists>q1. list_all (\<lambda>r. good (sr_inner r)) (sq_readers q1) \<and> seq_measures crc32 content (map content ss) q1
      \<and> seq_read (source_reader_read crc32 rd) n q1 = (Inr [], q)"
    by (rule byte_source.loop_keeps [OF law _ assms(2) good0 _ l, where I = "seq_measures crc32 content (map content ss)"])
      (use start seq_measures_step [OF assms(2)] in blast)+
  then obtain q1 where q1: "list_all (\<lambda>r. good (sr_inner r)) (sq_readers q1)" "seq_measures crc32 content (map content ss) q1"
    "seq_read (source_reader_read crc32 rd) n q1 = (Inr [], q)" by blast
  from seq_measures_step [OF assms(2) this]
  have "list_all2 (measured crc32) (map content ss) (sq_readers q)" by (simp add: seq_measures_def list_all2_conv_all_nth)
  moreover have "concat pieces = concat (map content ss)"
    using c(1) by (simp add: q0_def seq_reader_new_def source_reader_new_def comp_def)
  ultimately show ?thesis using l c(2) by (simp add: q0_def)
qed

end

section \<open>Properties\<close>

lemma crc_verifying_drained:
  assumes "drain (crc_verifying_read crc32 rd) ns v = (Inr pieces, v')" "0 < cv_remaining v"
  shows "cv_expected v' = cv_expected v \<and>
    (if cv_remaining v \<le> int (length (concat pieces))
     then ucast (crc32 (cv_seen v @ concat pieces)) = cv_expected v \<and> cv_report v' = Some (crc32 (cv_seen v @ concat pieces))
     else cv_report v' = cv_report v)"
  using assms
proof (induction ns arbitrary: v pieces)
  case (Cons n ns)
  obtain r s1 where r: "rd n (cv_inner v) = (r, s1)" by (cases "rd n (cv_inner v)")
  have "\<exists>bs. r = Inr bs" using Cons.prems r by (cases r) (simp_all add: crc_verifying_read_def)
  then obtain bs where bs: "r = Inr bs" ..
  define v1 where "v1 = v\<lparr>cv_inner := s1, cv_seen := cv_seen v @ bs, cv_remaining := cv_remaining v - int (length bs)\<rparr>"
  show ?case
  proof (cases "cv_remaining v1 \<le> 0")
    case False
    then have read: "crc_verifying_read crc32 rd n v = (Inr bs, v1)"
      using Cons.prems(2) r bs by (simp add: crc_verifying_read_def Let_def v1_def)
    show ?thesis
    proof (cases "bs = []")
      case True
      then show ?thesis using Cons.prems read by (auto simp: v1_def)
    next
      case nonempty: False
      then obtain rest where rest: "drain (crc_verifying_read crc32 rd) ns v1 = (Inr rest, v')" "pieces = bs # rest"
        using Cons.prems(1) read by (auto split: prod.splits sum.splits)
      have "0 < cv_remaining v1" using False by simp
      from Cons.IH [OF rest(1) this] show ?thesis by (auto simp: rest(2) v1_def algebra_simps split: if_splits)
    qed
  next
    case True
    define d where "d = crc32 (cv_seen v @ bs)"
    define v2 where "v2 = v1\<lparr>cv_seen := [], cv_report := Some d\<rparr>"
    have bs0: "bs \<noteq> []" using True Cons.prems(2) by (auto simp: v1_def)
    have ok: "ucast d = cv_expected v" "crc_verifying_read crc32 rd n v = (Inr bs, v2)"
      using Cons.prems True r bs bs0
      by (auto simp: crc_verifying_read_def Let_def v1_def d_def v2_def split: if_splits)
    have stop: "drain (crc_verifying_read crc32 rd) ns v2 = (Inr [], v2)"
      using True by (cases ns) (simp_all add: crc_verifying_read_def v2_def)
    have "pieces = [bs]" "v' = v2" using Cons.prems(1) ok(2) stop bs0 by auto
    then show ?thesis using ok(1) True by (simp add: v2_def v1_def d_def)
  qed
qed simp

text \<open>
  C32: data that a \<open>Crc32VerifyingReader\<close> delivers in full has the checksum it was given.  Whatever
  the reader below does and whatever the buffers are, if the reads come to an end without an error
  and all the announced bytes were delivered, their CRC-32 is the expected value, and that is the
  value it reports; when fewer bytes were delivered nothing is reported.
\<close>

theorem verified_data_has_the_checksum:
  assumes "drain (crc_verifying_read crc32 rd) ns (crc_verifying_new s announced expected) = (Inr pieces, v)"
    and "0 < announced" "announced < 2 ^ 63"
  shows "(announced \<le> length (concat pieces) \<longrightarrow> ucast (crc32 (concat pieces)) = expected \<and> cv_report v = Some (crc32 (concat pieces)))
    \<and> (length (concat pieces) < announced \<longrightarrow> cv_report v = None)"
proof -
  have "sint (of_nat announced :: i64) = int announced"
    using assms(3) by (simp add: signed_of_nat signed_take_bit_int_eq_self)
  then show ?thesis
    using crc_verifying_drained [OF assms(1)] assms(2) by (auto simp: crc_verifying_new_def)
qed

definition length_crc :: "bytes \<Rightarrow> u32" where "length_crc bs = of_nat (length bs)"

theorem verified_data_has_the_checksum_witness:
  "\<exists>v. drain (crc_verifying_read length_crc source_read) [4, 4, 4] (crc_verifying_new [Got [1, 2], Got [3]] 3 3) = (Inr [[1, 2], [3]], v)
    \<and> cv_report v = Some 3"
proof -
  obtain v where d: "drain (crc_verifying_read length_crc source_read) [4, 4, 4] (crc_verifying_new [Got [1, 2], Got [3]] 3 3)
    = (Inr [[1, 2], [3]], v)"
    by (simp add: crc_verifying_read_def crc_verifying_new_def length_crc_def Let_def)
  then show ?thesis using verified_data_has_the_checksum [OF d] by (simp add: length_crc_def)
qed

text \<open>A source that ends early is not noticed by the checksum.\<close>

lemma short_data_is_not_checked:
  "\<exists>v. drain (crc_verifying_read length_crc source_read) [4, 4] (crc_verifying_new [Got [1, 2]] 3 3) = (Inr [[1, 2]], v)"
  by (simp add: crc_verifying_read_def crc_verifying_new_def length_crc_def Let_def)

subsection \<open>Readers that share a file\<close>

text \<open>
  Several \<open>SharedBoundedReader\<close>s over one file: a schedule says which of them reads next and with
  how large a buffer, and the log records what each read returned.
\<close>

fun run_shared :: "(nat \<times> nat) list \<Rightarrow> shared_bounded list \<Rightarrow> cursor \<Rightarrow> (nat \<times> bytes) list \<times> shared_bounded list \<times> cursor" where
  "run_shared [] rs c = ([], rs, c)"
| "run_shared ((i, n) # schedule) rs c =
     (case shared_read n (rs ! i, c) of
        (Inl e, r', c') \<Rightarrow> run_shared schedule (rs[i := r']) c'
      | (Inr bs, r', c') \<Rightarrow>
          (case run_shared schedule (rs[i := r']) c' of (log, rs', c'') \<Rightarrow> ((i, bs) # log, rs', c'')))"

definition delivered :: "nat \<Rightarrow> (nat \<times> bytes) list \<Rightarrow> bytes" where
  "delivered i log = concat (map snd (filter (\<lambda>x. fst x = i) log))"

definition slice :: "nat \<Rightarrow> nat \<Rightarrow> bytes \<Rightarrow> bytes" where
  "slice lo hi bs = take (hi - lo) (drop lo bs)"

definition shared_ok :: "bytes \<Rightarrow> shared_bounded \<Rightarrow> bool" where
  "shared_ok bs r \<longleftrightarrow> unat (fst (sb_bounds r)) \<le> unat (sb_cur r) \<and> unat (sb_cur r) \<le> unat (snd (sb_bounds r))
     \<and> unat (snd (sb_bounds r)) \<le> length bs"

lemma slice_append: "lo \<le> mid \<Longrightarrow> mid \<le> hi \<Longrightarrow> hi \<le> length bs \<Longrightarrow> slice lo mid bs @ slice mid hi bs = slice lo hi bs"
  unfolding slice_def using take_add [of "mid - lo" "hi - mid" "drop lo bs"] by simp

lemma slice_empty [simp]: "slice lo lo bs = []"
  by (simp add: slice_def)

lemma shared_read_slice:
  assumes "shared_ok (cu_bytes c) r"
  obtains r' c' where "shared_read n (r, c) = (Inr (slice (unat (sb_cur r)) (unat (sb_cur r')) (cu_bytes c)), r', c')"
    "shared_ok (cu_bytes c) r'" "sb_bounds r' = sb_bounds r" "cu_bytes c' = cu_bytes c" "unat (sb_cur r) \<le> unat (sb_cur r')"
    "0 < n \<Longrightarrow> sb_cur r \<noteq> snd (sb_bounds r) \<Longrightarrow> unat (sb_cur r) < unat (sb_cur r')"
proof (cases "snd (sb_bounds r) \<le> sb_cur r")
  case True
  then have "sb_cur r = snd (sb_bounds r)" using assms by (simp add: shared_ok_def word_le_nat_alt word_unat_eq_iff)
  then show ?thesis using that [of r c] assms by (simp add: shared_read_def)
next
  case False
  define cur hi where "cur = unat (sb_cur r)" and "hi = unat (snd (sb_bounds r))"
  have bounds: "cur < hi" "hi \<le> length (cu_bytes c)"
    using False assms by (simp_all add: cur_def hi_def shared_ok_def word_le_nat_alt)
  have diff: "unat (snd (sb_bounds r) - sb_cur r) = hi - cur"
    using False by (simp add: cur_def hi_def unat_sub_if' word_le_nat_alt)
  define k where "k = min n (hi - cur)"
  define c' where "c' = \<lparr>cu_bytes = cu_bytes c, cu_pos = cur + k\<rparr>"
  have new: "unat (sb_cur r + of_nat k) = cur + k"
    using bounds u64_bound [of "snd (sb_bounds r)"] by (simp add: cur_def hi_def k_def unat_word_ariths unat_of_nat_u64)
  have len: "length (take k (drop cur (cu_bytes c))) = k" using bounds by (simp add: k_def)
  have "shared_read n (r, c) = (Inr (take k (drop cur (cu_bytes c))), r\<lparr>sb_cur := sb_cur r + of_nat k\<rparr>, c')"
    using False len unfolding shared_read_def diff k_def [symmetric]
    by (simp add: Let_def cursor_read_def cursor_seek_def diff cur_def [symmetric] k_def [symmetric] c'_def)
  moreover have "take k (drop cur (cu_bytes c)) = slice cur (cur + k) (cu_bytes c)" by (simp add: slice_def)
  ultimately show ?thesis
    using that [of "r\<lparr>sb_cur := sb_cur r + of_nat k\<rparr>" c'] new bounds assms
    by (auto simp: cur_def hi_def k_def shared_ok_def c'_def)
qed

text \<open>
  C33: readers that share a file do not disturb each other.  However the reads of several
  \<open>SharedBoundedReader\<close>s are interleaved, each of them delivers its own range of the file, from its
  start and in order, and stays inside it.
\<close>

theorem shared_readers_do_not_interfere:
  assumes "list_all (shared_ok (cu_bytes c)) rs" "list_all (\<lambda>(i, n). i < length rs) schedule"
    and "run_shared schedule rs c = (log, rs', c')" "i < length rs"
  shows "delivered i log = slice (unat (sb_cur (rs ! i))) (unat (sb_cur (rs' ! i))) (cu_bytes c)
    \<and> sb_bounds (rs' ! i) = sb_bounds (rs ! i) \<and> unat (sb_cur (rs ! i)) \<le> unat (sb_cur (rs' ! i))
    \<and> list_all (shared_ok (cu_bytes c)) rs' \<and> cu_bytes c' = cu_bytes c"
  using assms
proof (induction schedule arbitrary: rs c log)
  case (Cons step schedule)
  obtain j n where step: "step = (j, n)" by (cases step)
  have j: "j < length rs" using Cons.prems(2) step by simp
  have ok: "shared_ok (cu_bytes c) (rs ! j)" using Cons.prems(1) j by (simp add: list_all_length)
  obtain r1 c1 where r: "shared_read n (rs ! j, c) = (Inr (slice (unat (sb_cur (rs ! j))) (unat (sb_cur r1)) (cu_bytes c)), r1, c1)"
    "shared_ok (cu_bytes c) r1" "sb_bounds r1 = sb_bounds (rs ! j)" "cu_bytes c1 = cu_bytes c" "unat (sb_cur (rs ! j)) \<le> unat (sb_cur r1)"
    by (rule shared_read_slice [OF ok])
  obtain rest where rest: "run_shared schedule (rs[j := r1]) c1 = (rest, rs', c')"
    "log = (j, slice (unat (sb_cur (rs ! j))) (unat (sb_cur r1)) (cu_bytes c)) # rest"
    using Cons.prems(3) step r(1) by (auto split: prod.splits)
  have "list_all (shared_ok (cu_bytes c1)) (rs[j := r1])"
    using Cons.prems(1) r(2,4) j by (auto simp: list_all_length nth_list_update)
  from Cons.IH [OF this _ rest(1)] have IH:
    "delivered i rest = slice (unat (sb_cur (rs[j := r1] ! i))) (unat (sb_cur (rs' ! i))) (cu_bytes c)"
    "sb_bounds (rs' ! i) = sb_bounds (rs[j := r1] ! i)" "unat (sb_cur (rs[j := r1] ! i)) \<le> unat (sb_cur (rs' ! i))"
    "list_all (shared_ok (cu_bytes c)) rs'" "cu_bytes c' = cu_bytes c"
    using Cons.prems(2,4) r(4) by simp_all
  show ?case
  proof (cases "i = j")
    case False
    then show ?thesis using IH by (simp add: rest(2) delivered_def)
  next
    case True
    have top: "length rs' = length rs" using rest(1) by (induction schedule "rs[j := r1]" c1 arbitrary: rest rs j r1 rule: run_shared.induct)
      (auto split: prod.splits sum.splits)
    have "unat (sb_cur (rs' ! i)) \<le> length (cu_bytes c)"
      using IH(4) Cons.prems(4) top by (auto simp: list_all_length shared_ok_def dest!: spec [of _ i])
    then show ?thesis
      using IH True r(3,5) j slice_append [of "unat (sb_cur (rs ! j))" "unat (sb_cur r1)" "unat (sb_cur (rs' ! j))" "cu_bytes c"]
      by (simp add: rest(2) delivered_def)
  qed
qed (simp add: delivered_def)

definition five_bytes :: cursor where "five_bytes = \<lparr>cu_bytes = [1, 2, 3, 4, 5], cu_pos = 0\<rparr>"

theorem shared_readers_do_not_interfere_witness:
  "\<exists>log rs' c'. run_shared [(0, 2), (1, 1), (0, 5), (1, 9)] [shared_new (0, 3), shared_new (3, 5)] five_bytes = (log, rs', c')
     \<and> delivered 0 log = [1, 2, 3] \<and> delivered 1 log = [4, 5]"
proof -
  obtain log rs' c' where run: "run_shared [(0, 2), (1, 1), (0, 5), (1, 9)] [shared_new (0, 3), shared_new (3, 5)] five_bytes = (log, rs', c')"
    and ends: "map sb_cur rs' = [3, 5]"
    by (simp add: shared_read_def shared_new_def five_bytes_def cursor_read_def cursor_seek_def Let_def)
  have ok: "list_all (shared_ok (cu_bytes five_bytes)) [shared_new (0, 3), shared_new (3, 5)]"
    by (simp add: shared_ok_def shared_new_def five_bytes_def)
  have "sb_cur (rs' ! 0) = 3" "sb_cur (rs' ! 1) = 5" using ends by auto
  then show ?thesis
    using run shared_readers_do_not_interfere [OF ok _ run, of 0] shared_readers_do_not_interfere [OF ok _ run, of 1]
    by (simp add: slice_def shared_new_def five_bytes_def)
qed

end
