(* ===== verification/Open_Archive.thy ===== *)
theory Open_Archive
  imports Header_Safety Decoder_Setup Io_Streams
begin

text \<open>
  Opening an archive: \<open>read_with_limits\<close>, \<open>read_start_header\<close>, \<open>init_archive\<close>,
  \<open>read_encoded_header\<close> and \<open>try_to_locale_end_header\<close> of \<open>src/reader.rs\<close>.  The reader is a file
  that can be read at any position; a decoder of a codec crate is known by what it delivers for what
  it is fed (\<open>oe_run\<close>).  A password is passed and returned, because deriving a key fills its cache.
\<close>

section \<open>The environment\<close>

text \<open>What a stream delivers, up to its end or to the error it fails with.\<close>

type_synonym stream = "bytes \<times> io_error option"

record 's open_env =
  oe_sha :: "'s sha256"
  oe_ppmd :: ppmd_bounds
  oe_builders :: builders
  oe_run :: "decoder \<Rightarrow> stream \<Rightarrow> stream"
  oe_crc32 :: "bytes \<Rightarrow> u32"

text \<open>\<open>Read::read_exact\<close> at a position of the file.\<close>

definition read_at :: "bytes \<Rightarrow> nat \<Rightarrow> nat \<Rightarrow> bytes result" where
  "read_at file pos n = (if pos + n \<le> length file then Inr (take n (drop pos file)) else Inl eof)"

text \<open>
  \<open>take(n).read_to_end\<close> on a stream, and the same on a \<open>Crc32VerifyingReader\<close> of \<open>n\<close> bytes around
  it: no read asks for more than is left of the \<open>n\<close> bytes, so the checksum is compared when the last
  of them has been read.
\<close>

definition take_to_end :: "nat \<Rightarrow> stream \<Rightarrow> io_error + bytes" where
  "take_to_end n s =
     (if n \<le> length (fst s) then Inr (take n (fst s))
      else case snd s of None \<Rightarrow> Inr (fst s) | Some e \<Rightarrow> Inl e)"

definition verified_to_end :: "(bytes \<Rightarrow> u32) \<Rightarrow> u64 \<Rightarrow> nat \<Rightarrow> stream \<Rightarrow> io_error + bytes" where
  "verified_to_end crc32 expected n s =
     (if 0 < n \<and> n \<le> length (fst s) \<and> ucast (crc32 (take n (fst s))) \<noteq> expected
      then Inl checksum_error else take_to_end n s)"

section \<open>The encoded header\<close>

definition run_decoder :: "'s open_env \<Rightarrow> decoder \<Rightarrow> stream \<Rightarrow> stream" where
  "run_decoder env d s = (case d of Dec_Copy \<Rightarrow> s | _ \<Rightarrow> oe_run env d s)"

text \<open>The loop over the coders, each around the stream of the one before.\<close>

fun stack_decoders ::
  "'s open_env \<Rightarrow> decode_options \<Rightarrow> block \<Rightarrow> (nat \<times> coder) list \<Rightarrow> stream \<Rightarrow> password \<Rightarrow> stream result \<times> password" where
  "stack_decoders env opts b [] s pw = (Inr s, pw)"
| "stack_decoders env opts b ((index, c) # cs) s pw =
     (if num_in_streams c \<noteq> 1 \<or> num_out_streams c \<noteq> 1
      then (Inl (Other ''Multi input/output stream coders are not yet supported''), pw)
      else case add_decoder (oe_sha env) (oe_ppmd env) (oe_builders env) (unat (get_unpack_size_at_index b index)) c pw opts of
             (Inl e, pw') \<Rightarrow> (Inl e, pw')
           | (Inr d, pw') \<Rightarrow> stack_decoders env opts b cs (run_decoder env d s) pw')"

text \<open>
  The reader that \<open>read_encoded_header\<close> returns is the decoded stream, the checksum it is verified
  against and the size it claims.
\<close>

record encoded_header =
  eh_stream :: stream
  eh_crc :: "u64 option"
  eh_size :: nat

definition read_encoded_header ::
  "'s open_env \<Rightarrow> header_bounds \<Rightarrow> decode_options \<Rightarrow> bytes \<Rightarrow> password \<Rightarrow> bytes \<Rightarrow> encoded_header result \<times> password" where
  "read_encoded_header env hb opts file pw header =
     (case read_streams_info hb default_archive header of
        Inl e \<Rightarrow> (Inl e, pw)
      | Inr (a, _) \<Rightarrow>
          (case check_aes_work a (do_limits opts) of
             Inl e \<Rightarrow> (Inl e, pw)
           | Inr _ \<Rightarrow>
               (case blocks a of
                  [] \<Rightarrow> (Inl (Other ''no blocks, can't read encoded header''), pw)
                | b # _ \<Rightarrow>
                    (case checked_add SIGNATURE_HEADER_SIZE (pack_pos a) of
                       None \<Rightarrow> (Inl (Other ''pack position out of range''), pw)
                     | Some block_offset \<Rightarrow>
                         (case pack_sizes a of
                            [] \<Rightarrow> (Inl (Other ''no packed streams, can't read encoded header''), pw)
                          | pack_size # _ \<Rightarrow>
                              (case unpack_size_or_panic b of
                                 Inl e \<Rightarrow> (Inl e, pw)
                               | Inr declared_unpack \<Rightarrow>
                                   if max_header_unpacked_bytes (hb_limits hb) < declared_unpack
                                   then (Inl (LimitExceeded HeaderUnpackedBytes (max_header_unpacked_bytes (hb_limits hb)) declared_unpack), pw)
                                   else
                                     let input = (take (unat pack_size) (drop (unat block_offset) file), None)
                                     in (case stack_decoders env opts b (ordered_coders b) input pw of
                                           (Inl e, pw') \<Rightarrow> (Inl e, pw')
                                         | (Inr s, pw') \<Rightarrow>
                                             (Inr \<lparr>eh_stream = s,
                                                eh_crc = (if block_has_crc b \<and> do_verify_checksums opts \<and> \<not> folding_checksums opts
                                                          then Some (block_crc b) else None),
                                                eh_size = unat declared_unpack\<rparr>, pw'))))))))"

definition decoded_header :: "'s open_env \<Rightarrow> encoded_header \<Rightarrow> io_error + bytes" where
  "decoded_header env h =
     (case eh_crc h of
        None \<Rightarrow> take_to_end (eh_size h) (eh_stream h)
      | Some c \<Rightarrow> verified_to_end (oe_crc32 env) c (eh_size h) (eh_stream h))"

section \<open>The checks on the whole archive\<close>

fun packed_sum :: "u64 \<Rightarrow> u64 list \<Rightarrow> u64 result" where
  "packed_sum packed_total [] = Inr packed_total"
| "packed_sum packed_total (n # ns) =
     (case checked_add packed_total n of None \<Rightarrow> Inl (Other ''pack sizes overflow'') | Some t \<Rightarrow> packed_sum t ns)"

fun unpacked_sum :: "u64 \<Rightarrow> block list \<Rightarrow> u64 result" where
  "unpacked_sum unpacked_total [] = Inr unpacked_total"
| "unpacked_sum unpacked_total (b # bs) =
     ebind (unpack_size_or_panic b) (\<lambda>n.
     case checked_add unpacked_total n of
       None \<Rightarrow> Inl (Other ''unpacked sizes overflow'') | Some t \<Rightarrow> unpacked_sum t bs)"

definition check_packed :: "nat \<Rightarrow> archive \<Rightarrow> u64 result" where
  "check_packed reader_len a =
     ebind (packed_sum 0 (pack_sizes a)) (\<lambda>packed_total.
     case Option.bind (checked_add SIGNATURE_HEADER_SIZE (pack_pos a)) (\<lambda>start. checked_add start packed_total) of
       None \<Rightarrow> Inl (Other ''pack stream range out of range'')
     | Some packed_end \<Rightarrow>
         if reader_len < unat packed_end
         then Inl (Other (''pack streams end at '' @ decimal (unat packed_end) @ '', past the end of a ''
                @ decimal reader_len @ ''-byte archive''))
         else Inr packed_total)"

definition check_unpacked :: "archive_limits \<Rightarrow> u64 \<Rightarrow> archive \<Rightarrow> unit result" where
  "check_unpacked limits packed_total a =
     (if max_unpack_bytes limits < u64_max \<or> max_unpack_ratio limits < u64_max
      then ebind (unpacked_sum 0 (blocks a)) (\<lambda>unpacked_total.
           if max_unpack_bytes limits < unpacked_total
           then Inl (LimitExceeded UnpackBytes (max_unpack_bytes limits) unpacked_total)
           else if max_unpack_ratio limits < u64_max \<and> 0 < packed_total
                   \<and> max_unpack_ratio limits < unpacked_total div packed_total
           then Inl (LimitExceeded UnpackRatio (max_unpack_ratio limits) (unpacked_total div packed_total))
           else Inr ())
      else Inr ())"

fun check_paths :: "archive_entry list \<Rightarrow> unit result" where
  "check_paths [] = Inr ()"
| "check_paths (f # fs) =
     (case unsafe_path_reason (entry_name f) of
        Some reason \<Rightarrow> Inl (UnsafeEntryName (utf8 (entry_name f)) reason)
      | None \<Rightarrow> check_paths fs)"

text \<open>What follows the parsing of the header in \<open>init_archive\<close>.\<close>

definition check_archive :: "archive_limits \<Rightarrow> nat \<Rightarrow> archive \<Rightarrow> archive result" where
  "check_archive limits reader_len a =
     ebind (check_packed reader_len a) (\<lambda>packed_total.
     ebind (check_unpacked limits packed_total a) (\<lambda>_.
     ebind (if reject_unsafe_paths limits then check_paths (files a) else Inr ()) (\<lambda>_.
     ebind (check_aes_work a limits) (\<lambda>_.
     Inr (a\<lparr>is_solid := list_ex (\<lambda>b. 1 < num_unpack_sub_streams b) (blocks a)\<rparr>)))))"

section \<open>Opening\<close>

text \<open>The header that is parsed in the end: the first one, or the one it decodes to.\<close>

definition final_header :: "'s open_env \<Rightarrow> decode_options \<Rightarrow> bytes \<Rightarrow> password \<Rightarrow> bytes \<Rightarrow> bytes result \<times> password" where
  "final_header env opts file pw buf =
     (case read_u8 buf of
        Inl e \<Rightarrow> (Inl e, pw)
      | Inr (nid, rest) \<Rightarrow>
          if nid = K_ENCODED_HEADER
          then
            if max_header_depth (do_limits opts) < 2
            then (Inl (LimitExceeded HeaderDepth (ucast (max_header_depth (do_limits opts))) 2), pw)
            else case read_encoded_header env \<lparr>hb_bytes = length buf, hb_limits = do_limits opts\<rparr> opts file pw rest of
                (Inl e, pw') \<Rightarrow> (Inl e, pw')
              | (Inr h, pw') \<Rightarrow>
                  (case decoded_header env h of
                     Inl e \<Rightarrow> (Inl (bad_password e (\<not> password_is_empty pw)), pw')
                   | Inr decoded \<Rightarrow>
                       if length decoded \<noteq> eh_size h
                       then (Inl (bad_password (Io_Error UnexpectedEof '''') (\<not> password_is_empty pw)), pw')
                       else (Inr decoded, pw'))
          else (Inr buf, pw))"

definition parse_header :: "decode_options \<Rightarrow> bytes \<Rightarrow> archive result" where
  "parse_header opts buf =
     (case read_u8 buf of
        Inl e \<Rightarrow> Inl e
      | Inr (nid, header) \<Rightarrow>
          if nid = K_HEADER
          then (case read_header \<lparr>hb_bytes = length header, hb_limits = do_limits opts\<rparr> default_archive header of
                  Inl e \<Rightarrow> Inl e | Inr (a, _) \<Rightarrow> Inr a)
          else if nid = K_ENCODED_HEADER
          then Inl (LimitExceeded HeaderDepth (ucast (max_header_depth (do_limits opts))) 3)
          else Inl (Other ''Broken or unsupported archive: no Header''))"

definition init_archive ::
  "'s open_env \<Rightarrow> bytes \<Rightarrow> start_header \<Rightarrow> password \<Rightarrow> bool \<Rightarrow> decode_options \<Rightarrow> archive result \<times> password" where
  "init_archive env file sh pw verify_crc opts =
     (if max_end_header_bytes (do_limits opts) < next_header_size sh
      then (Inl (EndHeaderTooLarge (max_end_header_bytes (do_limits opts)) (next_header_size sh)), pw)
      else if length file < unat (next_header_size sh)
      then (Inl (Other (''Cannot handle next_header_size '' @ decimal (unat (next_header_size sh)))), pw)
      else case checked_add SIGNATURE_HEADER_SIZE (next_header_offset sh) of
          None \<Rightarrow> (Inl (Other ''next header offset out of range''), pw)
        | Some header_pos \<Rightarrow>
            if length file < unat header_pos then (Inl (Other ''next header offset out of range''), pw)
            else case read_at file (unat header_pos) (unat (next_header_size sh)) of
                Inl e \<Rightarrow> (Inl e, pw)
              | Inr buf \<Rightarrow>
                  if verify_crc \<and> ucast (oe_crc32 env buf) \<noteq> next_header_crc sh then (Inl NextHeaderCrcMismatch, pw)
                  else case final_header env opts file pw buf of
                      (Inl e, pw') \<Rightarrow> (Inl e, pw')
                    | (Inr buf, pw') \<Rightarrow>
                        (ebind (parse_header opts buf) (check_archive (do_limits opts) (length file)), pw'))"

definition read_start_header :: "(bytes \<Rightarrow> u32) \<Rightarrow> bytes \<Rightarrow> u32 \<Rightarrow> start_header result" where
  "read_start_header crc32 buf start_header_crc =
     (if crc32 buf \<noteq> start_header_crc then Inl ChecksumVerificationFailed
      else map_sum id fst (pbind read_u64 (\<lambda>offset. pbind read_u64 (\<lambda>size. pbind read_u32 (\<lambda>crc.
             preturn \<lparr>next_header_offset = offset, next_header_size = size, next_header_crc = ucast crc\<rparr>))) buf))"

text \<open>
  The search for a header at the end of the file: \<open>pos\<close> is decremented before it is tried.  The
  first candidate that does not open ends the search with its error.
\<close>

definition SEARCH_LIMIT :: nat where "SEARCH_LIMIT = 1024 * 1024"

fun search_end_header ::
  "'s open_env \<Rightarrow> bytes \<Rightarrow> nat \<Rightarrow> password \<Rightarrow> decode_options \<Rightarrow> nat \<Rightarrow> archive result \<times> password" where
  "search_end_header env file min_pos pw opts 0 =
     (Inl (Other ''Start header corrupt and unable to guess end header''), pw)"
| "search_end_header env file min_pos pw opts (Suc pos) =
     (if Suc pos \<le> min_pos then (Inl (Other ''Start header corrupt and unable to guess end header''), pw)
      else case read_at file pos 1 of
          Inl e \<Rightarrow> (Inl e, pw)
        | Inr nid \<Rightarrow>
            if (nid = [K_ENCODED_HEADER] \<or> nid = [K_HEADER]) \<and> 32 \<le> pos
            then
              let sh = \<lparr>next_header_offset = of_nat (pos - 32), next_header_size = of_nat (length file - pos), next_header_crc = 0\<rparr>
              in (case init_archive env file sh pw False opts of
                    (Inl e, pw') \<Rightarrow> (Inl e, pw')
                  | (Inr a, pw') \<Rightarrow> if files a \<noteq> [] then (Inr a, pw') else search_end_header env file min_pos pw' opts pos)
            else search_end_header env file min_pos pw opts pos)"

definition try_to_locale_end_header ::
  "'s open_env \<Rightarrow> bytes \<Rightarrow> password \<Rightarrow> decode_options \<Rightarrow> archive result \<times> password" where
  "try_to_locale_end_header env file pw opts =
     (let reader_len = length file;
          min_pos = (if reader_len < 12 + SEARCH_LIMIT then 12 else reader_len - SEARCH_LIMIT)
      in search_end_header env file min_pos pw opts (reader_len - 1))"

definition read_with_limits :: "'s open_env \<Rightarrow> bytes \<Rightarrow> password \<Rightarrow> archive_limits \<Rightarrow> archive result \<times> password" where
  "read_with_limits env file pw limits =
     (case read_at file 0 6 of
        Inl e \<Rightarrow> (Inl e, pw)
      | Inr signature \<Rightarrow>
          if signature \<noteq> SEVEN_Z_SIGNATURE then (Inl (BadSignature signature), pw)
          else case read_at file 6 2 of
              Inl e \<Rightarrow> (Inl e, pw)
            | Inr versions \<Rightarrow>
                if versions ! 0 \<noteq> 0 then (Inl (UnsupportedVersion (versions ! 0) (versions ! 1)), pw)
                else case read_at file 8 4 of
                    Inl e \<Rightarrow> (Inl e, pw)
                  | Inr crc \<Rightarrow>
                      (case read_at file 12 20 of
                         Inl e \<Rightarrow> (Inl e, pw)
                       | Inr buf \<Rightarrow>
                           if from_le_bytes crc = (0 :: u32) \<and> list_all (\<lambda>b. b = 0) buf
                           then try_to_locale_end_header env file pw (header_options limits)
                           else case read_start_header (oe_crc32 env) buf (from_le_bytes crc) of
                               Inl e \<Rightarrow> (Inl e, pw)
                             | Inr sh \<Rightarrow> init_archive env file sh pw True (header_options limits)))"

end
