(* ===== verification/Block_Decoder.thy ===== *)
theory Block_Decoder
  imports Open_Archive Stream_Map
begin

text \<open>
  Decoding: \<open>ArchiveReader\<close> and \<open>BlockDecoder\<close> of \<open>src/reader.rs\<close>, with the two decode stacks.  The
  source is the bytes of the file; a coder's decoder is what it makes of the streams below it.  The
  consumer's callback is an interaction tree, so that it may read as it likes; the hooks are the lists
  of the completions they are told of.
\<close>

section \<open>Callers and streams\<close>

text \<open>
  A callback asks for bytes, looks at what it got, and answers; \<open>'c\<close> is what it captures.  It is given
  the entry and, in place of the entry's address, its index.
\<close>

datatype 'c action = Answer "bool result" 'c | Ask nat "io_error + bytes \<Rightarrow> 'c action"

type_synonym 'c callback = "'c \<Rightarrow> nat \<Rightarrow> archive_entry \<Rightarrow> 'c action"

primrec perform :: "'s io_reader \<Rightarrow> 'c action \<Rightarrow> 's \<Rightarrow> (bool result \<times> 'c) \<times> 's" where
  "perform rd (Answer r c) s = ((r, c), s)"
| "perform rd (Ask n k) s = (case rd n s of (x, s') \<Rightarrow> perform rd (k x) s')"

definition empty_read :: "unit io_reader" where
  "empty_read n s = (Inr [], s)"

text \<open>
  A stream is read in pieces of a size the decoder chooses (\<open>piece\<close>), never more than asked for and at
  least one byte as long as there are any.
\<close>

definition stream_read :: "(bytes \<Rightarrow> nat \<Rightarrow> nat) \<Rightarrow> stream io_reader" where
  "stream_read piece n s =
     (if n = 0 then (Inr [], s)
      else if fst s \<noteq> []
      then let k = max 1 (min n (piece (fst s) n)) in (Inr (take k (fst s)), (drop k (fst s), snd s))
      else case snd s of None \<Rightarrow> (Inr [], s) | Some e \<Rightarrow> (Inl e, s))"

text \<open>The reader a decode stack ends in: the stream, or a \<open>Crc32VerifyingReader\<close> around it.\<close>

datatype block_stream = Unverified stream | Verified "stream crc_verifying"

record 's decode_env =
  de_open :: "'s open_env"
  de_bcj2 :: "stream list \<Rightarrow> nat \<Rightarrow> stream"
  de_piece :: "bytes \<Rightarrow> nat \<Rightarrow> nat"
  de_chunk :: nat
  de_pieces :: "nat \<Rightarrow> block_stream \<Rightarrow> (u64 \<times> u64 \<times> u32) list"
  de_fold :: "(u64 \<times> u64 \<times> u32) list \<Rightarrow> u64 \<Rightarrow> u64 \<Rightarrow> u32 option"
  de_show :: "error \<Rightarrow> string"
  de_show_unsized :: "unsized_coder \<Rightarrow> string"

fun block_stream_read :: "'s decode_env \<Rightarrow> block_stream io_reader" where
  "block_stream_read env n (Unverified s) =
     (case stream_read (de_piece env) n s of (r, s') \<Rightarrow> (r, Unverified s'))"
| "block_stream_read env n (Verified v) =
     (case crc_verifying_read (oe_crc32 (de_open env)) (stream_read (de_piece env)) n v of (r, v') \<Rightarrow> (r, Verified v'))"

definition verified_stream :: "stream \<Rightarrow> nat \<Rightarrow> u64 \<Rightarrow> block_stream" where
  "verified_stream s n crc = Verified (crc_verifying_new s n crc)"

section \<open>The stack of a chain\<close>

text \<open>An index out of range is a panic.\<close>

definition index_or_panic :: "'a list \<Rightarrow> nat \<Rightarrow> 'a result" where
  "index_or_panic xs i = (case nth_option xs i of None \<Rightarrow> Inl Panic | Some x \<Rightarrow> Inr x)"

text \<open>
  The checksum of the block's output: its own, or that of its only sub-stream.
\<close>

definition block_checksum :: "archive \<Rightarrow> nat \<Rightarrow> block \<Rightarrow> u64 option result" where
  "block_checksum a block_index b =
     (if block_has_crc b then Inr (Some (block_crc b))
      else if num_unpack_sub_streams b = 1
      then (case sub_streams a of
              None \<Rightarrow> Inr None
            | Some info \<Rightarrow>
                ebind (index_or_panic (block_first_sub_stream_index (stream_map_of a)) block_index) (\<lambda>i.
                if bitset_contains (has_crc info) i then map_sum id Some (index_or_panic (crcs info) i) else Inr None))
      else Inr None)"

definition block_offset_of :: "archive \<Rightarrow> nat \<Rightarrow> u64 result" where
  "block_offset_of a first =
     (case checked_add SIGNATURE_HEADER_SIZE (pack_pos a) of
        None \<Rightarrow> Inl (Other ''block offset out of range'')
      | Some v \<Rightarrow>
          ebind (index_or_panic (pack_stream_offsets (stream_map_of a)) first) (\<lambda>offset.
          case checked_add v offset of
            None \<Rightarrow> Inl (Other ''block offset out of range'')
          | Some start \<Rightarrow> Inr start))"

fun chain_stack ::
  "'s decode_env \<Rightarrow> decode_options \<Rightarrow> block \<Rightarrow> (nat \<times> coder) list \<Rightarrow> stream \<Rightarrow> password \<Rightarrow> stream result \<times> password" where
  "chain_stack env opts b [] s pw = (Inr s, pw)"
| "chain_stack env opts b ((index, c) # cs) s pw =
     (if num_in_streams c \<noteq> 1 \<or> num_out_streams c \<noteq> 1
      then (Inl (Unsupported ''Multi input/output stream coders are not supported''), pw)
      else case add_decoder (oe_sha (de_open env)) (oe_ppmd (de_open env)) (oe_builders (de_open env))
                  (unat (get_unpack_size_at_index b index)) c pw opts of
             (Inl e, pw') \<Rightarrow> (Inl e, pw')
           | (Inr d, pw') \<Rightarrow> chain_stack env opts b cs (run_decoder (de_open env) d s) pw')"

section \<open>The stack of a graph\<close>

text \<open>
  \<open>get_in_stream\<close> finds where an input stream comes from, \<open>get_in_stream2\<close> builds the decoder of a
  coder; \<open>get_in_streams\<close> is the loop over the four inputs of BCJ2.
\<close>

definition packed_position :: "block \<Rightarrow> nat \<Rightarrow> nat option" where
  "packed_position b i = find (\<lambda>k. packed_streams b ! k = of_nat i) [0..<length (packed_streams b)]"

function (sequential) get_in_stream ::
    "'s decode_env \<Rightarrow> decode_options \<Rightarrow> block \<Rightarrow> stream list \<Rightarrow> nat list \<Rightarrow> nat \<Rightarrow> nat \<Rightarrow> password \<Rightarrow> stream result \<times> password"
  and get_in_stream2 ::
    "'s decode_env \<Rightarrow> decode_options \<Rightarrow> block \<Rightarrow> stream list \<Rightarrow> nat list \<Rightarrow> nat \<Rightarrow> nat \<Rightarrow> password \<Rightarrow> stream result \<times> password"
  and get_in_streams ::
    "'s decode_env \<Rightarrow> decode_options \<Rightarrow> block \<Rightarrow> stream list \<Rightarrow> nat list \<Rightarrow> nat list \<Rightarrow> nat \<Rightarrow> password \<Rightarrow> stream list result \<times> password"
where
  "get_in_stream env opts b srcs starts i depth pw =
     (case packed_position b i of
        Some k \<Rightarrow> (index_or_panic srcs k, pw)
      | None \<Rightarrow>
          (case find_bind_pair_for_in_stream b (of_nat i) of
             None \<Rightarrow> (Inl (Other (''Couldn't find bind pair for stream '' @ decimal i)), pw)
           | Some bp \<Rightarrow> get_in_stream2 env opts b srcs starts (unat (out_index bp)) depth pw))"
| "get_in_stream2 env opts b srcs starts j depth pw =
     (if length (coders b) < depth then (Inl (Other ''cyclic coder bind-pair graph''), pw)
      else case (nth_option (coders b) j, nth_option starts j, nth_option (block_unpack_sizes b) j) of
          (Some c, Some start, Some uncompressed_len) \<Rightarrow>
            if num_in_streams c = 1
            then (case get_in_stream env opts b srcs starts start (depth + 1) pw of
                    (Inl e, pw') \<Rightarrow> (Inl e, pw')
                  | (Inr s, pw') \<Rightarrow>
                      (case add_decoder (oe_sha (de_open env)) (oe_ppmd (de_open env)) (oe_builders (de_open env))
                              (unat uncompressed_len) c pw' opts of
                         (Inl e, pw'') \<Rightarrow> (Inl e, pw'')
                       | (Inr d, pw'') \<Rightarrow> (Inr (run_decoder (de_open env) d s), pw'')))
            else if encoder_method_id c = ID_BCJ2
            then (if num_in_streams c \<noteq> 4
                  then (Inl (Other ''BCJ2 coder must declare exactly four input streams''), pw)
                  else case get_in_streams env opts b srcs starts [start..<start + 4] (depth + 1) pw of
                         (Inl e, pw') \<Rightarrow> (Inl e, pw')
                       | (Inr inputs, pw') \<Rightarrow> (Inr (de_bcj2 env inputs (unat uncompressed_len)), pw'))
            else (Inl (Unsupported (''Unsupported multi-input coder: '' @ debug_bytes (encoder_method_id c))), pw)
        | _ \<Rightarrow> (Inl (Other ''in_stream_index out of range''), pw))"
| "get_in_streams env opts b srcs starts [] depth pw = (Inr [], pw)"
| "get_in_streams env opts b srcs starts (i # is) depth pw =
     (case get_in_stream env opts b srcs starts i depth pw of
        (Inl e, pw') \<Rightarrow> (Inl e, pw')
      | (Inr s, pw') \<Rightarrow>
          (case get_in_streams env opts b srcs starts is depth pw' of
             (Inl e, pw'') \<Rightarrow> (Inl e, pw'')
           | (Inr ss, pw'') \<Rightarrow> (Inr (s # ss), pw'')))"
  by pat_completeness auto

text \<open>The depth grows at every coder, and is bounded by their number.\<close>

termination
  by (relation "inv_image (less_than <*lex*> less_than) (\<lambda>x. case x of
        Inl (env, opts, b, srcs, starts, i, depth, pw) \<Rightarrow> (length (coders b) + 2 - depth, 1)
      | Inr (Inl (env, opts, b, srcs, starts, j, depth, pw)) \<Rightarrow> (length (coders b) + 2 - depth, 0)
      | Inr (Inr (env, opts, b, srcs, starts, is, depth, pw)) \<Rightarrow> (length (coders b) + 2 - depth, 2 + length is))")
    auto

definition MAX_CODER_COUNT :: nat where "MAX_CODER_COUNT = 32"

text \<open>The packed streams of the block, each with a reader of its own on the file.\<close>

fun pack_sources :: "bytes \<Rightarrow> archive \<Rightarrow> u64 \<Rightarrow> nat list \<Rightarrow> stream list result" where
  "pack_sources file a start_pos [] = Inr []"
| "pack_sources file a start_pos (k # ks) =
     ebind (index_or_panic (pack_stream_offsets (stream_map_of a)) k) (\<lambda>offset.
     case checked_add start_pos offset of
       None \<Rightarrow> Inl (Other ''pack stream offset out of range'')
     | Some pos \<Rightarrow>
         ebind (index_or_panic (pack_sizes a) k) (\<lambda>pack_size.
         case checked_add pos pack_size of
           None \<Rightarrow> Inl (Other ''pack stream size out of range'')
         | Some pack_end \<Rightarrow>
             ebind (pack_sources file a start_pos ks) (\<lambda>rest.
             Inr ((take (unat pack_size) (drop (unat pos) file), None) # rest))))"

fun stream_starts :: "coder list \<Rightarrow> nat \<Rightarrow> nat list" where
  "stream_starts [] si = []"
| "stream_starts (c # cs) si = si # stream_starts cs (si + unat (num_in_streams c))"

definition main_coder_index :: "block \<Rightarrow> nat result" where
  "main_coder_index b =
     (if list_ex (\<lambda>bp. length (coders b) \<le> unat (out_index bp)) (bind_pairs b)
      then Inl (Other ''bind pair out index exceeds coder count'')
      else Inr (case find (\<lambda>i. \<not> list_ex (\<lambda>bp. unat (out_index bp) = i) (bind_pairs b)) [0..<length (coders b)] of
                  None \<Rightarrow> 0 | Some i \<Rightarrow> i))"

definition build_decode_stack2 ::
  "'s decode_env \<Rightarrow> decode_options \<Rightarrow> bytes \<Rightarrow> archive \<Rightarrow> nat \<Rightarrow> block \<Rightarrow> password \<Rightarrow> block_stream result \<times> password" where
  "build_decode_stack2 env opts file a block_index b pw =
     (if MAX_CODER_COUNT < length (coders b)
      then (Inl (Unsupported (''Too many coders: '' @ decimal (length (coders b)))), pw)
      else
        case ebind (index_or_panic (block_first_pack_stream_index (stream_map_of a)) block_index) (\<lambda>first.
             case checked_add SIGNATURE_HEADER_SIZE (pack_pos a) of
               None \<Rightarrow> Inl (Other ''pack position out of range'')
             | Some start_pos \<Rightarrow>
                 if length (pack_stream_offsets (stream_map_of a)) < first + length (packed_streams b) then Inl Panic
                 else ebind (pack_sources file a start_pos [first..<first + length (packed_streams b)]) (\<lambda>srcs.
                      ebind (main_coder_index b) (\<lambda>main_coder. Inr (srcs, main_coder)))) of
          Inl e \<Rightarrow> (Inl e, pw)
        | Inr (srcs, main_coder) \<Rightarrow>
            (case get_in_stream2 env opts b srcs (stream_starts (coders b) 0) main_coder 0 pw of
               (Inl e, pw') \<Rightarrow> (Inl e, pw')
             | (Inr s, pw') \<Rightarrow>
                 (ebind (if block_has_crc b then ebind (unpack_size_or_panic b) (\<lambda>n. Inr (verified_stream s (unat n) (block_crc b)))
                         else Inr (Unverified s)) (\<lambda>r.
                  ebind (index_or_panic (block_first_pack_stream_index (stream_map_of a)) block_index) (\<lambda>first.
                  ebind (index_or_panic (pack_sizes a) first) (\<lambda>_. Inr r))), pw')))"

definition build_decode_stack ::
  "'s decode_env \<Rightarrow> decode_options \<Rightarrow> bytes \<Rightarrow> archive \<Rightarrow> nat \<Rightarrow> password \<Rightarrow> block_stream result \<times> password" where
  "build_decode_stack env opts file a block_index pw =
     (case ebind (index_or_panic (blocks a) block_index) (\<lambda>b.
           ebind (check_aes_coders (do_limits opts) (coders b)) (\<lambda>_. Inr b)) of
        Inl e \<Rightarrow> (Inl e, pw)
      | Inr b \<Rightarrow>
          if total_output_streams b < total_input_streams b
          then build_decode_stack2 env opts file a block_index b pw
          else
            case ebind (index_or_panic (block_first_pack_stream_index (stream_map_of a)) block_index) (\<lambda>first.
                 ebind (block_offset_of a first) (\<lambda>block_offset.
                 ebind (block_checksum a block_index b) (\<lambda>crc.
                 ebind (index_or_panic (pack_sizes a) first) (\<lambda>pack_size.
                 Inr (crc, (take (unat pack_size) (drop (unat block_offset) file), None)))))) of
              Inl e \<Rightarrow> (Inl e, pw)
            | Inr (crc, input) \<Rightarrow>
                (case chain_stack env opts b (ordered_coders b) input pw of
                   (Inl e, pw') \<Rightarrow> (Inl e, pw')
                 | (Inr s, pw') \<Rightarrow>
                     (case crc of
                        None \<Rightarrow> (Inr (Unverified s), pw')
                      | Some c \<Rightarrow> (ebind (unpack_size_or_panic b) (\<lambda>n. Inr (verified_stream s (unat n) c)), pw'))))"

section \<open>The entries of a block\<close>

text \<open>
  Where the files of a block start in its output, for the workers that checksum it.  \<open>at += file.size\<close> wraps
  as in the release profile; a build with overflow checks would panic where it does.
\<close>

definition file_boundaries :: "archive \<Rightarrow> nat \<Rightarrow> u64 list result" where
  "file_boundaries a block_index =
     ebind (index_or_panic (blocks a) block_index) (\<lambda>b.
     if length (coders b) \<noteq> 1 then Inr []
     else
       ebind (index_or_panic (block_first_file_index (stream_map_of a)) block_index) (\<lambda>start.
       let fs = take (num_unpack_sub_streams b) (drop start (files a));
           (offsets, at, wanted) = fold (\<lambda>f (offsets, at, wanted).
              if has_stream f \<and> 0 < entry_size f
              then (if at \<noteq> 0 then offsets @ [at] else offsets, at + entry_size f, wanted \<or> entry_has_crc f)
              else (offsets, at, wanted)) fs ([], 0, block_has_crc b)
       in Inr (if \<not> wanted then [] else if offsets = [] then [u64_max] else offsets)))"

text \<open>Building the LZMA2 coder engages its control block when the plan is parallel.\<close>

definition coder_engages :: "decode_options \<Rightarrow> block \<Rightarrow> nat \<times> coder \<Rightarrow> bool" where
  "coder_engages opts b ic =
     (case coder_properties (snd ic) of
        [] \<Rightarrow> False
      | p # _ \<Rightarrow>
          encoder_method_id (snd ic) = ID_LZMA2
          \<and> (case lzma2_dictionary_size [lzma2_clamped_prop p (get_unpack_size_at_index b (fst ic))] of
               Inl _ \<Rightarrow> False | Inr dict \<Rightarrow> lzma2_plan_of opts dict \<noteq> SingleThreaded))"

definition after_building :: "decode_options \<Rightarrow> block \<Rightarrow> lzma2_control \<Rightarrow> lzma2_control" where
  "after_building opts b c =
     (if list_ex (coder_engages opts b) (ordered_coders b) then control_set_threads (do_threads opts) (engage c) else c)"

end
