(* ===== verification/Decode_Archive.thy ===== *)
theory Decode_Archive
  imports Block_Decoder
begin

text \<open>
  Decoding the entries: \<open>BlockDecoder\<close> and the decoding half of \<open>ArchiveReader\<close> of \<open>src/reader.rs\<close>,
  and the completion records of \<open>src/container.rs\<close>.  The control block that a reader shares with its
  LZMA2 coder is a value handed from block to block; what a hook is told is returned as a list.
  \<open>unpacked_offset += file.size\<close> wraps as in the release profile; a build with overflow checks would panic
  where it does.  The sizes a header lists for the sub-streams of a block add up to the size of the block
  (\<open>Header_Safety\<close>), so they reach neither.
\<close>

section \<open>Completions\<close>

record block_completion =
  bc_block_index :: nat
  bc_unpacked_size :: u64
  bc_crc_verified :: bool

record sub_stream_completion =
  sc_block_index :: nat
  sc_sub_stream_index :: nat
  sc_file_index :: nat
  sc_unpacked_offset :: u64
  sc_len :: u64
  sc_crc32 :: u32

section \<open>One entry\<close>

text \<open>The reader of a block, with the flag of \<open>FaultRecordingReader\<close>.\<close>

type_synonym block_reader = "bool \<times> block_stream"

definition block_read :: "'s decode_env \<Rightarrow> block_reader io_reader" where
  "block_read env = fault_read (block_stream_read env)"

text \<open>
  The callback on the bytes of one entry, verified on the way unless the workers fold their
  checksums or nothing is to be verified: what it answers, the block's reader afterwards, and the
  checksum that was reported.
\<close>

definition entry_read ::
  "'s decode_env \<Rightarrow> bool \<Rightarrow> archive_entry \<Rightarrow> 'c action \<Rightarrow> block_reader \<Rightarrow> (bool result \<times> 'c) \<times> block_reader \<times> u32 option" where
  "entry_read env verifying f act rd =
     (let decoder = bounded_new rd (unat (entry_size f))
      in if entry_has_crc f \<and> verifying
         then case perform (crc_verifying_read (oe_crc32 (de_open env)) (bounded_read (block_read env))) act
                     (crc_verifying_new decoder (unat (entry_size f)) (entry_crc f)) of
                (answer, v) \<Rightarrow> (answer, bd_inner (cv_inner v), cv_report v)
         else case perform (bounded_read (block_read env)) act decoder of
                (answer, b) \<Rightarrow> (answer, bd_inner b, None))"

text \<open>What the block decoder is given, and what changes from entry to entry.\<close>

record 's block_run =
  br_env :: "'s decode_env"
  br_archive :: archive
  br_index :: nat
  br_packed_offset :: u64
  br_verify :: bool
  br_folding :: bool
  br_encrypted :: bool

record entry_loop =
  el_reader :: block_reader
  el_unpacked_offset :: u64
  el_sub_stream :: nat
  el_completed :: "sub_stream_completion list"

definition locate :: "'s block_run \<Rightarrow> error \<Rightarrow> error" where
  "locate br e = in_block (de_show (br_env br)) e (br_index br) (br_packed_offset br)"

definition entry_error :: "'s block_run \<Rightarrow> bool \<Rightarrow> error \<Rightarrow> error" where
  "entry_error br faulted e =
     (let e = maybe_bad_password e (br_encrypted br) in if faulted then locate br e else e)"

definition range_crc :: "'s block_run \<Rightarrow> block_stream \<Rightarrow> u64 \<Rightarrow> u64 \<Rightarrow> u32 option" where
  "range_crc br s offset len = de_fold (br_env br) (de_pieces (br_env br) (br_index br) s) offset len"

text \<open>The checksum of the entry that was just read, folded or reported by its reader.\<close>

definition entry_checksum :: "'s block_run \<Rightarrow> archive_entry \<Rightarrow> entry_loop \<Rightarrow> u32 option \<Rightarrow> u32 option result" where
  "entry_checksum br f el report =
     (if br_folding br
      then case range_crc br (snd (el_reader el)) (el_unpacked_offset el) (entry_size f) of
             None \<Rightarrow> Inr report
           | Some crc32 \<Rightarrow>
               if entry_has_crc f \<and> ucast crc32 \<noteq> entry_crc f then Inl (locate br ChecksumVerificationFailed)
               else Inr (Some crc32)
      else Inr report)"

definition completion_of :: "'s block_run \<Rightarrow> nat \<Rightarrow> nat \<Rightarrow> archive_entry \<Rightarrow> entry_loop \<Rightarrow> u32 \<Rightarrow> sub_stream_completion" where
  "completion_of br first_sub i f el crc32 =
     \<lparr>sc_block_index = br_index br, sc_sub_stream_index = first_sub + el_sub_stream el, sc_file_index = i,
      sc_unpacked_offset = el_unpacked_offset el, sc_len = entry_size f, sc_crc32 = crc32\<rparr>"

definition decode_entry ::
  "'s block_run \<Rightarrow> nat \<Rightarrow> 'c callback \<Rightarrow> nat \<Rightarrow> archive_entry \<Rightarrow> 'c \<Rightarrow> entry_loop \<Rightarrow> bool result \<times> 'c \<times> entry_loop" where
  "decode_entry br first_sub each i f c el =
     (if has_stream f \<and> 0 < entry_size f
      then case entry_read (br_env br) (br_verify br \<and> \<not> br_folding br) f (each c i f) (el_reader el) of
          ((answer, c'), rd, report) \<Rightarrow>
            let el1 = el\<lparr>el_reader := rd\<rparr>
            in (case answer of
                  Inl e \<Rightarrow> (Inl (entry_error br (fst rd) e), c', el1)
                | Inr outcome \<Rightarrow>
                    (case entry_checksum br f el1 report of
                       Inl e \<Rightarrow> (Inl e, c', el1)
                     | Inr check \<Rightarrow>
                         (Inr outcome, c',
                          el1\<lparr>el_unpacked_offset := el_unpacked_offset el + entry_size f,
                            el_sub_stream := el_sub_stream el + 1,
                            el_completed := el_completed el
                              @ (case check of None \<Rightarrow> [] | Some crc32 \<Rightarrow> [completion_of br first_sub i f el1 crc32])\<rparr>)))
      else case perform empty_read (each c i f) () of
          ((answer, c'), _) \<Rightarrow>
            (answer, c', if has_stream f then el\<lparr>el_sub_stream := el_sub_stream el + 1\<rparr> else el))"

fun decode_entries ::
  "'s block_run \<Rightarrow> nat \<Rightarrow> 'c callback \<Rightarrow> nat list \<Rightarrow> 'c \<Rightarrow> entry_loop \<Rightarrow> bool result \<times> 'c \<times> entry_loop" where
  "decode_entries br first_sub each [] c el = (Inr True, c, el)"
| "decode_entries br first_sub each (i # is) c el =
     (case index_or_panic (files (br_archive br)) i of
        Inl e \<Rightarrow> (Inl e, c, el)
      | Inr f \<Rightarrow>
          (case decode_entry br first_sub each i f c el of
             (Inl e, c', el') \<Rightarrow> (Inl e, c', el')
           | (Inr outcome, c', el') \<Rightarrow>
               if outcome then decode_entries br first_sub each is c' el' else (Inr False, c', el')))"

section \<open>One block\<close>

record block_decoder =
  bk_threads :: u32
  bk_adaptive_lzma2 :: bool
  bk_verify_checksums :: bool
  bk_lzma2 :: lzma2_control
  bk_block_index :: nat
  bk_archive :: archive
  bk_password :: password
  bk_source :: bytes
  bk_limits :: archive_limits

definition clamp_threads :: "u32 \<Rightarrow> u32" where
  "clamp_threads threads = min (max threads 1) 256"

definition block_decoder_with_limits ::
  "u32 \<Rightarrow> nat \<Rightarrow> archive \<Rightarrow> password \<Rightarrow> bytes \<Rightarrow> archive_limits \<Rightarrow> block_decoder" where
  "block_decoder_with_limits threads block_index a pw source limits =
     \<lparr>bk_threads = clamp_threads threads, bk_adaptive_lzma2 = False, bk_verify_checksums = True,
      bk_lzma2 = control_new (clamp_threads threads), bk_block_index = block_index, bk_archive = a,
      bk_password = pw, bk_source = source, bk_limits = limits\<rparr>"

definition block_decoder_new :: "u32 \<Rightarrow> nat \<Rightarrow> archive \<Rightarrow> password \<Rightarrow> bytes \<Rightarrow> block_decoder" where
  "block_decoder_new threads block_index a pw source = block_decoder_with_limits threads block_index a pw source limits_default"

definition block_set_threads :: "u32 \<Rightarrow> block_decoder \<Rightarrow> block_decoder" where
  "block_set_threads threads bk =
     bk\<lparr>bk_threads := clamp_threads threads, bk_lzma2 := control_set_threads (clamp_threads threads) (bk_lzma2 bk)\<rparr>"

definition block_with_adaptive_lzma2 :: "block_decoder \<Rightarrow> block_decoder" where
  "block_with_adaptive_lzma2 bk = bk\<lparr>bk_adaptive_lzma2 := True\<rparr>"

definition block_with_verify_checksums :: "bool \<Rightarrow> block_decoder \<Rightarrow> block_decoder" where
  "block_with_verify_checksums verify bk = bk\<lparr>bk_verify_checksums := verify\<rparr>"

definition block_entries :: "block_decoder \<Rightarrow> archive_entry list result" where
  "block_entries bk =
     ebind (index_or_panic (block_first_file_index (stream_map_of (bk_archive bk))) (bk_block_index bk)) (\<lambda>start.
     ebind (index_or_panic (blocks (bk_archive bk)) (bk_block_index bk)) (\<lambda>b.
     if length (files (bk_archive bk)) < num_unpack_sub_streams b + start then Inl Panic
     else Inr (take (num_unpack_sub_streams b) (drop start (files (bk_archive bk))))))"

definition block_entry_count :: "block_decoder \<Rightarrow> nat result" where
  "block_entry_count bk =
     ebind (index_or_panic (blocks (bk_archive bk)) (bk_block_index bk)) (\<lambda>b. Inr (num_unpack_sub_streams b))"

definition decode_options_of :: "block_decoder \<Rightarrow> u64 list \<Rightarrow> decode_options" where
  "decode_options_of bk splits =
     \<lparr>do_limits = bk_limits bk, do_threads = bk_threads bk, do_adaptive_lzma2 = bk_adaptive_lzma2 bk,
      do_verify_checksums = bk_verify_checksums bk,
      do_lzma2_control = Some (set_block_index (bk_block_index bk) (bk_lzma2 bk)), do_checksum_splits = splits\<rparr>"

definition packed_offset_of :: "archive \<Rightarrow> nat \<Rightarrow> u64" where
  "packed_offset_of a block_index =
     (case block_pack_streams a block_index of [] \<Rightarrow> 0 | r # _ \<Rightarrow> range_offset r)"

text \<open>
  The checks after the last entry: the checksum of the whole block, when the workers folded it.
\<close>

definition folded_block_ok :: "'s block_run \<Rightarrow> block \<Rightarrow> entry_loop \<Rightarrow> unit result" where
  "folded_block_ok br b el =
     (if br_folding br \<and> block_has_crc b
      then ebind (unpack_size_or_panic b) (\<lambda>n.
           case range_crc br (snd (el_reader el)) 0 n of
             None \<Rightarrow> Inr ()
           | Some crc32 \<Rightarrow> if ucast crc32 \<noteq> block_crc b then Inl (locate br ChecksumVerificationFailed) else Inr ())
      else Inr ())"

definition block_loop ::
  "'s block_run \<Rightarrow> 'c callback \<Rightarrow> 'c \<Rightarrow> block_stream \<Rightarrow> bool result \<times> 'c \<times> sub_stream_completion list" where
  "block_loop br each c s =
     (case ebind (index_or_panic (block_first_file_index (stream_map_of (br_archive br))) (br_index br)) (\<lambda>start.
           ebind (index_or_panic (blocks (br_archive br)) (br_index br)) (\<lambda>b.
           ebind (index_or_panic (block_first_sub_stream_index (stream_map_of (br_archive br))) (br_index br)) (\<lambda>first_sub.
           Inr (start, b, first_sub)))) of
        Inl e \<Rightarrow> (Inl e, c, [])
      | Inr (start, b, first_sub) \<Rightarrow>
          (case decode_entries br first_sub each [start..<num_unpack_sub_streams b + start] c
                  \<lparr>el_reader = (False, s), el_unpacked_offset = 0, el_sub_stream = 0, el_completed = []\<rparr> of
             (Inr True, c', el) \<Rightarrow> (ebind (folded_block_ok br b el) (\<lambda>_. Inr True), c', el_completed el)
           | (r, c', el) \<Rightarrow> (r, c', el_completed el)))"

text \<open>What happens before the first entry: the decode stack is built on a control block that was reset.\<close>

definition open_block ::
  "'s decode_env \<Rightarrow> block_decoder \<Rightarrow> ('s block_run \<times> block_stream) result \<times> password \<times> lzma2_control" where
  "open_block env bk =
     (let a = bk_archive bk; k = bk_block_index bk; pw = bk_password bk;
          reset = set_block_index k (bk_lzma2 bk); packed_offset = packed_offset_of a k
      in case ebind (if bk_verify_checksums bk then file_boundaries a k else Inr []) (\<lambda>splits.
              ebind (index_or_panic (blocks a) k) (\<lambda>b. Inr (splits, b))) of
           Inl e \<Rightarrow> (Inl e, pw, bk_lzma2 bk)
         | Inr (splits, b) \<Rightarrow>
             let opts = decode_options_of bk splits
             in (case build_decode_stack env opts (bk_source bk) a k pw of
                   (Inl e, pw') \<Rightarrow> (Inl (if e = Panic then Panic else in_block (de_show env) e k packed_offset), pw', reset)
                 | (Inr s, pw') \<Rightarrow>
                     let control = after_building opts b reset
                     in (Inr (\<lparr>br_env = env, br_archive = a, br_index = k, br_packed_offset = packed_offset,
                                br_verify = bk_verify_checksums bk,
                                br_folding = folding_checksums (opts\<lparr>do_lzma2_control := Some control\<rparr>),
                                br_encrypted = \<not> password_is_empty pw\<rparr>, s), pw', control)))"

definition block_for_each_entries ::
  "'s decode_env \<Rightarrow> block_decoder \<Rightarrow> 'c callback \<Rightarrow> 'c
    \<Rightarrow> (bool result \<times> 'c \<times> sub_stream_completion list) \<times> password \<times> lzma2_control" where
  "block_for_each_entries env bk each c =
     (case open_block env bk of
        (Inl e, pw, control) \<Rightarrow> ((Inl e, c, []), pw, control)
      | (Inr (br, s), pw, control) \<Rightarrow> (block_loop br each c s, pw, control))"

section \<open>The archive reader\<close>

record index_entry =
  ie_block_index :: "nat option"
  ie_file_index :: nat

record archive_reader =
  ar_source :: bytes
  ar_archive :: archive
  ar_password :: password
  ar_thread_count :: u32
  ar_adaptive_lzma2 :: bool
  ar_verify_checksums :: bool
  ar_lzma2 :: lzma2_control
  ar_index :: "ustring \<Rightarrow> index_entry option"
  ar_limits :: archive_limits

text \<open>Entries of the same name: the last one stays in the index.\<close>

fun fill_index :: "archive_entry list \<Rightarrow> nat option list \<Rightarrow> nat \<Rightarrow> (ustring \<Rightarrow> index_entry option) \<Rightarrow> (ustring \<Rightarrow> index_entry option) result" where
  "fill_index [] fb i m = Inr m"
| "fill_index (f # fs) fb i m =
     ebind (index_or_panic fb i) (\<lambda>block_index.
     fill_index fs fb (i + 1) (m(entry_name f \<mapsto> \<lparr>ie_block_index = block_index, ie_file_index = i\<rparr>)))"

definition new_reader :: "bytes \<Rightarrow> archive \<Rightarrow> password \<Rightarrow> archive_limits \<Rightarrow> archive_reader result" where
  "new_reader source a pw limits =
     ebind (fill_index (files a) (file_block_index (stream_map_of a)) 0 (\<lambda>_. None)) (\<lambda>m.
     Inr \<lparr>ar_source = source, ar_archive = a, ar_password = pw, ar_thread_count = 1, ar_adaptive_lzma2 = False,
          ar_verify_checksums = True, ar_lzma2 = control_new 1, ar_index = m, ar_limits = limits\<rparr>)"

definition from_archive :: "archive \<Rightarrow> bytes \<Rightarrow> password \<Rightarrow> archive_reader result" where
  "from_archive a source pw = new_reader source a pw limits_default"

definition memory_admitted :: "'s decode_env \<Rightarrow> archive_limits \<Rightarrow> archive \<Rightarrow> unit result" where
  "memory_admitted env limits a =
     (if memory_limit_bytes limits < u64_max
      then case decoder_memory_estimate a of
             Inr required_bytes \<Rightarrow>
               if memory_limit_bytes limits < required_bytes
               then Inl (MemoryLimited (memory_limit_bytes limits) required_bytes) else Inr ()
           | Inl unsized \<Rightarrow> Inl (UnsupportedCompressionMethod (de_show_unsized env unsized))
      else Inr ())"

definition with_limits :: "'s decode_env \<Rightarrow> bytes \<Rightarrow> password \<Rightarrow> archive_limits \<Rightarrow> archive_reader result" where
  "with_limits env source pw limits =
     (case read_with_limits (de_open env) source pw limits of
        (Inl e, pw') \<Rightarrow> Inl e
      | (Inr a, pw') \<Rightarrow> ebind (memory_admitted env limits a) (\<lambda>_. new_reader source a pw' limits))"

definition reader_new :: "'s decode_env \<Rightarrow> bytes \<Rightarrow> password \<Rightarrow> archive_reader result" where
  "reader_new env source pw = with_limits env source pw limits_default"

definition reader_set_threads :: "u32 \<Rightarrow> archive_reader \<Rightarrow> archive_reader" where
  "reader_set_threads threads r =
     r\<lparr>ar_thread_count := clamp_threads threads, ar_lzma2 := control_set_threads (clamp_threads threads) (ar_lzma2 r)\<rparr>"

definition set_adaptive_lzma2 :: "bool \<Rightarrow> archive_reader \<Rightarrow> archive_reader" where
  "set_adaptive_lzma2 adaptive r = r\<lparr>ar_adaptive_lzma2 := adaptive\<rparr>"

definition set_verify_checksums :: "bool \<Rightarrow> archive_reader \<Rightarrow> archive_reader" where
  "set_verify_checksums verify r = r\<lparr>ar_verify_checksums := verify\<rparr>"

definition reader_lzma2_progress :: "archive_reader \<Rightarrow> lzma2_progress option" where
  "reader_lzma2_progress r = control_progress (ar_lzma2 r)"

definition decoder_of_block :: "archive_reader \<Rightarrow> nat \<Rightarrow> block_decoder" where
  "decoder_of_block r block_index =
     \<lparr>bk_threads = ar_thread_count r, bk_adaptive_lzma2 = ar_adaptive_lzma2 r,
      bk_verify_checksums = ar_verify_checksums r, bk_lzma2 = ar_lzma2 r, bk_block_index = block_index,
      bk_archive = ar_archive r, bk_password = ar_password r, bk_source = ar_source r, bk_limits = ar_limits r\<rparr>"

definition block_decoder :: "archive_reader \<Rightarrow> nat \<Rightarrow> block_decoder result" where
  "block_decoder r block_index =
     (if length (blocks (ar_archive r)) \<le> block_index then Inl FileNotFound else Inr (decoder_of_block r block_index))"

section \<open>All entries\<close>

text \<open>What a pass leaves: the reader, what the callback captured, and what the hooks were told.\<close>

record 'c decode_pass =
  dp_reader :: archive_reader
  dp_captured :: 'c
  dp_sub_streams :: "sub_stream_completion list"
  dp_blocks :: "block_completion list"

definition leave_reader :: "archive_reader \<Rightarrow> password \<Rightarrow> lzma2_control \<Rightarrow> archive_reader" where
  "leave_reader r pw control = r\<lparr>ar_password := pw, ar_lzma2 := control\<rparr>"

definition decode_block :: "'s decode_env \<Rightarrow> 'c callback \<Rightarrow> nat \<Rightarrow> 'c decode_pass \<Rightarrow> bool result \<times> 'c decode_pass" where
  "decode_block env each k dp =
     (case block_for_each_entries env (decoder_of_block (dp_reader dp) k) each (dp_captured dp) of
        ((r, c, subs), pw, control) \<Rightarrow>
          (r, dp\<lparr>dp_reader := leave_reader (dp_reader dp) pw control, dp_captured := c,
                dp_sub_streams := dp_sub_streams dp @ subs\<rparr>))"

definition block_crc_verified :: "archive \<Rightarrow> nat \<Rightarrow> block \<Rightarrow> bool" where
  "block_crc_verified a k b \<longleftrightarrow>
     block_has_crc b
     \<or> (block_sub_streams a k \<noteq> [] \<and> list_all (\<lambda>s. sub_crc s \<noteq> None) (block_sub_streams a k))"

definition complete_block :: "nat \<Rightarrow> 'c decode_pass \<Rightarrow> 'c decode_pass result" where
  "complete_block k dp =
     ebind (index_or_panic (blocks (ar_archive (dp_reader dp))) k) (\<lambda>b.
     ebind (unpack_size_or_panic b) (\<lambda>n.
     Inr (dp\<lparr>dp_blocks := dp_blocks dp @
       [\<lparr>bc_block_index = k, bc_unpacked_size = n, bc_crc_verified = block_crc_verified (ar_archive (dp_reader dp)) k b\<rparr>]\<rparr>)))"

fun decode_blocks :: "'s decode_env \<Rightarrow> 'c callback \<Rightarrow> nat list \<Rightarrow> 'c decode_pass \<Rightarrow> unit result \<times> 'c decode_pass" where
  "decode_blocks env each [] dp = (Inr (), dp)"
| "decode_blocks env each (k # ks) dp =
     (case decode_block env each k dp of
        (Inl e, dp') \<Rightarrow> (Inl e, dp')
      | (Inr finished, dp') \<Rightarrow>
          if finished
          then (case complete_block k dp' of Inl e \<Rightarrow> (Inl e, dp') | Inr dp'' \<Rightarrow> decode_blocks env each ks dp'')
          else decode_blocks env each ks dp')"

text \<open>The entries that are in no block.\<close>

fun decode_empty_entries :: "archive \<Rightarrow> 'c callback \<Rightarrow> nat list \<Rightarrow> 'c \<Rightarrow> unit result \<times> 'c" where
  "decode_empty_entries a each [] c = (Inr (), c)"
| "decode_empty_entries a each (i # is) c =
     (case index_or_panic (file_block_index (stream_map_of a)) i of
        Inl e \<Rightarrow> (Inl e, c)
      | Inr (Some k) \<Rightarrow> decode_empty_entries a each is c
      | Inr None \<Rightarrow>
          (case index_or_panic (files a) i of
             Inl e \<Rightarrow> (Inl e, c)
           | Inr f \<Rightarrow>
               (case perform empty_read (each c i f) () of
                  ((Inl e, c'), _) \<Rightarrow> (Inl e, c')
                | ((Inr go_on, c'), _) \<Rightarrow> if go_on then decode_empty_entries a each is c' else (Inr (), c'))))"

definition for_each_entries :: "'s decode_env \<Rightarrow> archive_reader \<Rightarrow> 'c callback \<Rightarrow> 'c \<Rightarrow> unit result \<times> 'c decode_pass" where
  "for_each_entries env r each c =
     (case decode_blocks env each [0..<length (blocks (ar_archive r))]
             \<lparr>dp_reader = r, dp_captured = c, dp_sub_streams = [], dp_blocks = []\<rparr> of
        (Inl e, dp) \<Rightarrow> (Inl e, dp)
      | (Inr _, dp) \<Rightarrow>
          (case decode_empty_entries (ar_archive r) each [0..<length (files (ar_archive r))] (dp_captured dp) of
             (result, c') \<Rightarrow> (result, dp\<lparr>dp_captured := c'\<rparr>)))"

section \<open>One file\<close>

text \<open>
  \<open>read_to_end\<close> as an action: it reads until nothing comes, at most \<open>fuel\<close> times, and continues with
  what it got.  Every read but the last one delivers a byte.
\<close>

primrec to_end :: "nat \<Rightarrow> nat \<Rightarrow> bytes \<Rightarrow> (io_error + bytes \<Rightarrow> 'c action) \<Rightarrow> 'c action" where
  "to_end chunk 0 acc k = k (Inr acc)"
| "to_end chunk (Suc fuel) acc k =
     Ask chunk (\<lambda>r. case r of
       Inl e \<Rightarrow> k (Inl e)
     | Inr bs \<Rightarrow> if bs = [] then k (Inr acc) else to_end chunk fuel (acc @ bs) k)"

definition read_fuel :: "archive_entry \<Rightarrow> nat" where
  "read_fuel f = unat (entry_size f) + 1"

text \<open>The callback of \<open>read_file\<close> in a solid archive: it reads every entry and keeps the target.\<close>

definition keep_target :: "nat \<Rightarrow> nat \<Rightarrow> bytes option callback" where
  "keep_target chunk target c i f =
     to_end chunk (read_fuel f) [] (\<lambda>r. case r of
       Inl e \<Rightarrow> Answer (Inl (from_io e)) c
     | Inr bs \<Rightarrow> if i = target then Answer (Inr False) (Some bs) else Answer (Inr True) c)"

text \<open>The one file of a block: the bytes of the block's reader, bounded and verified.\<close>

definition read_whole :: "'s decode_env \<Rightarrow> archive_entry \<Rightarrow> block_stream \<Rightarrow> bytes result" where
  "read_whole env f s =
     (let decoder = bounded_new s (unat (entry_size f));
          act = to_end (de_chunk env) (read_fuel f) []
            (\<lambda>r. case r of Inl e \<Rightarrow> Answer (Inl (from_io e)) [] | Inr bs \<Rightarrow> Answer (Inr True) bs);
          answer = (if entry_has_crc f
            then fst (perform (crc_verifying_read (oe_crc32 (de_open env)) (bounded_read (block_stream_read env))) act
                   (crc_verifying_new decoder (unat (entry_size f)) (entry_crc f)))
            else fst (perform (bounded_read (block_stream_read env)) act decoder))
      in case answer of (Inl e, _) \<Rightarrow> Inl e | (Inr _, bs) \<Rightarrow> Inr bs)"

definition read_file_in_block :: "'s decode_env \<Rightarrow> archive_reader \<Rightarrow> nat \<Rightarrow> archive_entry \<Rightarrow> bytes result \<times> archive_reader" where
  "read_file_in_block env r k f =
     (let a = ar_archive r; reset = set_block_index k (ar_lzma2 r); opts = decode_options_of (decoder_of_block r k) []
      in case ebind (index_or_panic (block_first_pack_stream_index (stream_map_of a)) k) (\<lambda>pack_index.
              ebind (index_or_panic (pack_stream_offsets (stream_map_of a)) pack_index) (\<lambda>_.
              ebind (block_offset_of a pack_index) (\<lambda>_. index_or_panic (blocks a) k))) of
           Inl e \<Rightarrow> (Inl e, r)
         | Inr b \<Rightarrow>
             (case build_decode_stack env opts (ar_source r) a k (ar_password r) of
                (Inl e, pw) \<Rightarrow> (Inl e, leave_reader r pw reset)
              | (Inr s, pw) \<Rightarrow> (read_whole env f s, leave_reader r pw (after_building opts b reset))))"

definition read_file_solid ::
  "'s decode_env \<Rightarrow> archive_reader \<Rightarrow> nat \<Rightarrow> nat \<Rightarrow> bytes result \<times> archive_reader \<times> sub_stream_completion list" where
  "read_file_solid env r k target =
     (case block_for_each_entries env (decoder_of_block r k) (keep_target (de_chunk env) target) None of
        ((result, found, subs), pw, control) \<Rightarrow>
          (case result of
             Inl e \<Rightarrow> Inl e
           | Inr _ \<Rightarrow> (case found of None \<Rightarrow> Inl FileNotFound | Some bs \<Rightarrow> Inr bs),
           leave_reader r pw control, subs))"

definition read_file ::
  "'s decode_env \<Rightarrow> archive_reader \<Rightarrow> ustring \<Rightarrow> bytes result \<times> archive_reader \<times> sub_stream_completion list" where
  "read_file env r name =
     (case ar_index r name of
        None \<Rightarrow> (Inl FileNotFound, r, [])
      | Some ie \<Rightarrow>
          (case index_or_panic (files (ar_archive r)) (ie_file_index ie) of
             Inl e \<Rightarrow> (Inl e, r, [])
           | Inr f \<Rightarrow>
               if \<not> has_stream f then (Inr [], r, [])
               else case ie_block_index ie of
                   None \<Rightarrow> (Inl (Other ''File has no associated block''), r, [])
                 | Some k \<Rightarrow>
                     if is_solid (ar_archive r) then read_file_solid env r k (ie_file_index ie)
                     else (case read_file_in_block env r k f of (result, r') \<Rightarrow> (result, r', []))))"

definition file_compression_methods :: "archive_reader \<Rightarrow> ustring \<Rightarrow> encoder_method list \<Rightarrow> encoder_method list result" where
  "file_compression_methods r name ms =
     (case ar_index r name of
        None \<Rightarrow> Inl FileNotFound
      | Some ie \<Rightarrow>
          ebind (index_or_panic (files (ar_archive r)) (ie_file_index ie)) (\<lambda>f.
          if \<not> has_stream f then Inr ms
          else case ie_block_index ie of
              None \<Rightarrow> Inl (Other ''File has no associated block'')
            | Some k \<Rightarrow>
                (case nth_option (blocks (ar_archive r)) k of
                   None \<Rightarrow> Inl (Other ''Block not found'')
                 | Some b \<Rightarrow> Inr (ms @ List.map_filter (\<lambda>c. method_by_id (encoder_method_id c)) (coders b)))))"

end
