(* ===== verification/Opening_Safety.thy ===== *)
theory Opening_Safety
  imports Open_Archive
begin

text \<open>
  What opening an archive guarantees for every file: it never panics, and an archive that opens lies
  inside its file and inside the caller's limits.
\<close>

section \<open>The sums\<close>

definition packed_bytes :: "archive \<Rightarrow> nat" where
  "packed_bytes a = sum_list (map unat (pack_sizes a))"

definition unpacked_bytes :: "block list \<Rightarrow> nat" where
  "unpacked_bytes bs = sum_list (map (\<lambda>b. case get_unpack_size b of None \<Rightarrow> 0 | Some n \<Rightarrow> unat n) bs)"

lemma packed_sum_Inr: "packed_sum t ns = Inr v \<Longrightarrow> unat v = unat t + sum_list (map unat ns)"
  by (induction ns arbitrary: t) (auto split: option.splits dest: checked_add_SomeD)

lemma unpacked_sum_Inr: "unpacked_sum t bs = Inr v \<Longrightarrow> unat v = unat t + unpacked_bytes bs"
  by (induction bs arbitrary: t)
    (auto simp: unpacked_bytes_def unpack_size_or_panic_def split: option.splits dest: checked_add_SomeD)

lemma packed_sum_no_panic: "packed_sum t ns \<noteq> Inl Panic"
  by (induction ns arbitrary: t) (auto split: option.splits)

lemma unpacked_sum_no_panic: "\<forall>b\<in>set bs. block_sized b \<Longrightarrow> unpacked_sum t bs \<noteq> Inl Panic"
  by (induction bs arbitrary: t)
    (auto simp: ebind_def unpack_size_or_panic_def dest: block_sized_unpack_size split: sum.splits option.splits)

section \<open>What the checks establish\<close>

definition inside_file :: "nat \<Rightarrow> archive \<Rightarrow> bool" where
  "inside_file len a \<longleftrightarrow> 32 + unat (pack_pos a) + packed_bytes a \<le> len"

definition inside_limits :: "archive_limits \<Rightarrow> archive \<Rightarrow> bool" where
  "inside_limits limits a \<longleftrightarrow>
     (max_unpack_bytes limits < u64_max \<longrightarrow> unpacked_bytes (blocks a) \<le> unat (max_unpack_bytes limits))
     \<and> (max_unpack_ratio limits < u64_max \<and> 0 < packed_bytes a \<longrightarrow>
          unpacked_bytes (blocks a) < (unat (max_unpack_ratio limits) + 1) * packed_bytes a)
     \<and> (reject_unsafe_paths limits \<longrightarrow> (\<forall>f\<in>set (files a). unsafe_path_reason (entry_name f) = None))
     \<and> check_aes_work a limits = Inr ()"

lemma check_packed_Inr:
  assumes "check_packed len a = Inr t"
  shows "inside_file len a" "unat t = packed_bytes a"
proof -
  obtain start e where t: "packed_sum 0 (pack_sizes a) = Inr t" "checked_add SIGNATURE_HEADER_SIZE (pack_pos a) = Some start"
    "checked_add start t = Some e" "unat e \<le> len"
    using assms by (auto simp: check_packed_def Option.bind_eq_Some_conv not_less split: option.splits if_splits)
  show b: "unat t = packed_bytes a" using packed_sum_Inr [OF t(1)] by (simp add: packed_bytes_def)
  show "inside_file len a"
    using t(4) checked_add_SomeD [OF t(2)] checked_add_SomeD [OF t(3)] b
    by (simp add: inside_file_def SIGNATURE_HEADER_SIZE_def)
qed

lemma check_unpacked_Inr:
  assumes "check_unpacked limits t a = Inr ()" "unat t = packed_bytes a"
  shows "max_unpack_bytes limits < u64_max \<Longrightarrow> unpacked_bytes (blocks a) \<le> unat (max_unpack_bytes limits)"
    and "max_unpack_ratio limits < u64_max \<Longrightarrow> 0 < packed_bytes a \<Longrightarrow>
      unpacked_bytes (blocks a) < (unat (max_unpack_ratio limits) + 1) * packed_bytes a"
proof -
  have sum: "\<exists>u. unpacked_sum 0 (blocks a) = Inr u \<and> u \<le> max_unpack_bytes limits
    \<and> \<not> (max_unpack_ratio limits < u64_max \<and> 0 < t \<and> max_unpack_ratio limits < u div t)"
    if "max_unpack_bytes limits < u64_max \<or> max_unpack_ratio limits < u64_max"
    using assms(1) that by (auto simp: check_unpacked_def not_less split: if_splits)
  show "unpacked_bytes (blocks a) \<le> unat (max_unpack_bytes limits)" if "max_unpack_bytes limits < u64_max"
    using sum that unpacked_sum_Inr [of 0 "blocks a"] by (auto simp: word_le_nat_alt)
  assume r: "max_unpack_ratio limits < u64_max" "0 < packed_bytes a"
  then obtain u where u: "unpacked_sum 0 (blocks a) = Inr u" "\<not> max_unpack_ratio limits < u div t"
    using sum assms(2) by (auto simp: word_less_nat_alt)
  have "unat u div unat t \<le> unat (max_unpack_ratio limits)"
    using u(2) by (simp add: word_less_nat_alt unat_div not_less)
  then have "unat u div packed_bytes a < unat (max_unpack_ratio limits) + 1" using assms(2) by simp
  then show "unpacked_bytes (blocks a) < (unat (max_unpack_ratio limits) + 1) * packed_bytes a"
    using unpacked_sum_Inr [OF u(1)] r(2) by (simp add: div_less_iff_less_mult)
qed

lemma check_paths_Inr: "check_paths fs = Inr () \<longleftrightarrow> (\<forall>f\<in>set fs. unsafe_path_reason (entry_name f) = None)"
  by (induction fs) (auto split: option.splits)

lemma check_archive_Inr:
  assumes "check_archive limits len a = Inr a'"
  shows "a' = a\<lparr>is_solid := list_ex (\<lambda>b. 1 < num_unpack_sub_streams b) (blocks a)\<rparr>"
    "inside_file len a" "inside_limits limits a"
proof -
  obtain t where t: "check_packed len a = Inr t" "check_unpacked limits t a = Inr ()"
    and p: "reject_unsafe_paths limits \<Longrightarrow> check_paths (files a) = Inr ()" and w: "check_aes_work a limits = Inr ()"
    and a': "a' = a\<lparr>is_solid := list_ex (\<lambda>b. 1 < num_unpack_sub_streams b) (blocks a)\<rparr>"
    using assms by (auto simp: check_archive_def split: if_splits)
  show "a' = a\<lparr>is_solid := list_ex (\<lambda>b. 1 < num_unpack_sub_streams b) (blocks a)\<rparr>" by (rule a')
  show "inside_file len a" by (rule check_packed_Inr(1) [OF t(1)])
  show "inside_limits limits a"
    using check_unpacked_Inr [OF t(2) check_packed_Inr(2) [OF t(1)]] p w by (simp add: inside_limits_def check_paths_Inr)
qed

lemma solid_frame:
  "inside_file len (a\<lparr>is_solid := s\<rparr>) = inside_file len a"
  "inside_limits limits (a\<lparr>is_solid := s\<rparr>) = inside_limits limits a"
  "streams_ok hb (a\<lparr>is_solid := s\<rparr>) = streams_ok hb a"
  by (simp_all add: inside_file_def inside_limits_def packed_bytes_def check_aes_work_def streams_ok_def sub_streams_ok_def)

section \<open>The pack streams of a parsed header\<close>

definition offsets_ok :: "archive \<Rightarrow> bool" where
  "offsets_ok a \<longleftrightarrow> length (pack_stream_offsets (stream_map_of a)) = length (pack_sizes a)
     \<and> (\<forall>k<length (pack_sizes a). unat (pack_stream_offsets (stream_map_of a) ! k) = sum_list (map unat (take k (pack_sizes a))))"

lemma calculate_stream_map_offsets: "calculate_stream_map a = Inr a' \<Longrightarrow> offsets_ok a'"
  by (erule calculate_stream_map_parts) (auto simp: offsets_ok_def dest!: stream_offsets_Inr)

lemma read_header_offsets: "read_header hb a inp = Inr (a', r) \<Longrightarrow> offsets_ok a'"
  unfolding read_header_def read_files_info_def
  by (auto dest!: calculate_stream_map_offsets split: if_splits)

lemma pack_stream_inside:
  assumes "offsets_ok a" "inside_file len a" "len < 2 ^ 64" "pack_stream_at a k = Some r"
  shows "32 \<le> unat (range_offset r)" "unat (range_offset r) + unat (range_size r) \<le> len"
proof -
  let ?ns = "map unat (pack_sizes a)"
  obtain off n where k: "nth_option (pack_stream_offsets (stream_map_of a)) k = Some off" "nth_option (pack_sizes a) k = Some n"
    and r: "range_offset r = saturating_add (saturating_add SIGNATURE_HEADER_SIZE (pack_pos a)) off" "range_size r = n"
    using assms(4) by (auto simp: pack_stream_at_def split: option.splits)
  have b: "k < length (pack_sizes a)" "n = pack_sizes a ! k" "off = pack_stream_offsets (stream_map_of a) ! k"
    using k by (auto simp: nth_option_def split: if_splits)
  then have off: "unat off = sum_list (take k ?ns)" using assms(1) by (simp add: offsets_ok_def take_map)
  have "sum_list ?ns = sum_list (take k ?ns) + (unat n + sum_list (drop (Suc k) ?ns))"
    using b by (metis append_take_drop_id Cons_nth_drop_Suc length_map nth_map sum_list.Cons sum_list.append)
  then have fits: "32 + unat (pack_pos a) + unat off + unat n \<le> len"
    using assms(2) off by (simp add: inside_file_def packed_bytes_def)
  moreover have "unat (range_offset r) = 32 + unat (pack_pos a) + unat off"
    using fits assms(3) by (simp add: r unat_saturating_add SIGNATURE_HEADER_SIZE_def)
  ultimately show "32 \<le> unat (range_offset r)" "unat (range_offset r) + unat (range_size r) \<le> len"
    by (simp_all add: r)
qed

section \<open>Opening\<close>

definition opened :: "archive_limits \<Rightarrow> nat \<Rightarrow> archive \<Rightarrow> bool" where
  "opened limits len a \<longleftrightarrow> inside_file len a \<and> inside_limits limits a \<and> offsets_ok a
     \<and> (\<exists>hb. hb_limits hb = limits \<and> streams_ok hb a)
     \<and> is_solid a = list_ex (\<lambda>b. 1 < num_unpack_sub_streams b) (blocks a)"

lemma default_parts: "blocks default_archive = []" "sub_streams default_archive = None"
  by (simp_all add: default_archive_def)

lemma parse_header_Inr:
  assumes "parse_header opts buf = Inr a"
  shows "offsets_ok a" "\<exists>hb. hb_limits hb = do_limits opts \<and> streams_ok hb a"
proof -
  obtain header r where "read_header \<lparr>hb_bytes = length header, hb_limits = do_limits opts\<rparr> default_archive header = Inr (a, r)"
    using assms by (auto simp: parse_header_def split: sum.splits if_splits)
  then show "offsets_ok a" "\<exists>hb. hb_limits hb = do_limits opts \<and> streams_ok hb a"
    using read_header_offsets read_header_safe(2) [OF default_parts] by (blast, metis header_bounds.select_convs(2))
qed

lemma parse_header_no_panic: "parse_header opts buf \<noteq> Inl Panic"
  using read_header_safe(1) [OF default_parts] panic_freeD [OF panic_free_read_u8]
  by (auto simp: parse_header_def split: sum.splits)

lemma check_archive_no_panic:
  assumes "\<forall>b\<in>set (blocks a). block_sized b"
  shows "check_archive limits len a \<noteq> Inl Panic"
proof -
  have "check_packed len a \<noteq> Inl Panic"
    using packed_sum_no_panic by (auto simp: check_packed_def ebind_def split: sum.splits option.splits)
  moreover have "check_unpacked limits t a \<noteq> Inl Panic" for t
    using unpacked_sum_no_panic [OF assms] by (auto simp: check_unpacked_def ebind_def split: sum.splits)
  moreover have "check_paths fs \<noteq> Inl Panic" for fs by (induction fs) (auto split: option.splits)
  moreover have "check_aes_coders limits cs \<noteq> Inl Panic" for cs
    by (induction cs) (auto simp: Let_def split: list.splits)
  ultimately show ?thesis by (auto simp: check_archive_def check_aes_work_def ebind_def split: sum.splits)
qed

lemma init_archive_opened:
  assumes "init_archive env file sh pw v opts = (Inr a, pw')"
  shows "opened (do_limits opts) (length file) a"
proof -
  obtain buf parsed where p: "parse_header opts buf = Inr parsed" and c: "check_archive (do_limits opts) (length file) parsed = Inr a"
    using assms by (auto simp: init_archive_def split: if_splits option.splits sum.splits prod.splits)
  have a: "a = parsed\<lparr>is_solid := list_ex (\<lambda>b. 1 < num_unpack_sub_streams b) (blocks parsed)\<rparr>"
    by (rule check_archive_Inr(1) [OF c])
  show ?thesis
    using parse_header_Inr [OF p] check_archive_Inr(2,3) [OF c]
    by (simp add: opened_def a solid_frame offsets_ok_def)
qed

lemma search_end_header_opened:
  "search_end_header env file m pw opts n = (Inr a, pw') \<Longrightarrow> opened (do_limits opts) (length file) a"
proof (induction n arbitrary: pw)
  case (Suc pos)
  then show ?case
    by (auto simp: Let_def split: if_splits sum.splits prod.splits intro: init_archive_opened)
qed simp

lemma read_with_limits_opened:
  "read_with_limits env file pw limits = (Inr a, pw') \<Longrightarrow> opened limits (length file) a"
  by (auto simp: read_with_limits_def try_to_locale_end_header_def header_options_def Let_def
      dest!: search_end_header_opened init_archive_opened split: sum.splits if_splits)

section \<open>No panic\<close>

text \<open>The constructors of the codec crates report their errors, they do not panic.\<close>

definition builders_sound :: "builders \<Rightarrow> bool" where
  "builders_sound bd \<longleftrightarrow> (\<forall>d. build_other bd d \<noteq> Inl Panic)"

lemma bad_password_no_panic: "bad_password e encrypted \<noteq> Panic"
  by (simp add: bad_password_def io_msg_def)

lemma lz_no_panic: "built_lz bd pw d \<noteq> Inl Panic"
  using bad_password_no_panic by (auto simp: built_lz_def split: option.splits)

lemma dictionary_no_panic: "lzma_dictionary_size ps \<noteq> Inl Panic" "lzma2_dictionary_size ps \<noteq> Inl Panic"
  by (auto simp: lzma_dictionary_size_def lzma2_dictionary_size_def Let_def split: list.splits option.splits)

lemma add_lzma_no_panic: "add_lzma bd pw opts n ps \<noteq> Inl Panic" "add_lzma2 bd pw opts n ps \<noteq> Inl Panic"
  using dictionary_no_panic lz_no_panic
  by (auto simp: add_lzma_def add_lzma2_def Let_def ebind_def split: list.splits sum.splits)

lemma get_aes_key_no_panic: "fst (get_aes_key sha ps pw p r) \<noteq> Inl Panic"
  by (auto simp: get_aes_key_def derive_key_with_budget_def Let_def split: option.splits sum.splits prod.splits if_splits)

lemma add_aes_no_panic: "fst (add_aes sha pw opts ps) \<noteq> Inl Panic"
  using get_aes_key_no_panic [of sha ps pw]
  by (auto simp: add_aes_def split: sum.splits prod.splits) (metis fst_conv)

lemma ppmd_no_panic: "get_ppmd_order_memory_size pb c m \<noteq> Inl Panic"
  by (simp add: get_ppmd_order_memory_size_def Let_def)

lemma add_decoder_no_panic:
  assumes "builders_sound bd"
  shows "fst (add_decoder sha pb bd n c pw opts) \<noteq> Inl Panic"
  using assms add_lzma_no_panic [of bd pw opts n] add_aes_no_panic [of sha pw opts] ppmd_no_panic [of pb c]
  by (auto simp: add_decoder_def builders_sound_def Let_def ebind_def split: option.splits sum.splits)

lemma stack_decoders_no_panic:
  assumes "builders_sound (oe_builders env)"
  shows "fst (stack_decoders env opts b cs st pw) \<noteq> Inl Panic"
proof (induction cs arbitrary: st pw)
  case (Cons ic cs)
  obtain i c where ic: "ic = (i, c)" by (cases ic)
  show ?case
    using add_decoder_no_panic [OF assms, of "oe_sha env" "oe_ppmd env" "unat (get_unpack_size_at_index b i)" c pw opts] Cons.IH
    by (auto simp: ic split: sum.splits prod.splits)
qed simp

lemma read_encoded_header_no_panic:
  assumes "builders_sound (oe_builders env)"
  shows "fst (read_encoded_header env hb opts file pw header) \<noteq> Inl Panic"
proof -
  note stack = stack_decoders_no_panic [OF assms]
  have streams: "read_streams_info hb default_archive header \<noteq> Inl Panic"
    by (rule read_streams_info_stages(1) [OF default_parts])
  have aes: "check_aes_work a limits \<noteq> Inl Panic" for a limits
  proof -
    have "check_aes_coders limits cs \<noteq> Inl Panic" for cs by (induction cs) (auto simp: Let_def split: list.splits)
    then show ?thesis by (simp add: check_aes_work_def)
  qed
  have sized: "unpack_size_or_panic b \<noteq> Inl Panic"
    if "read_streams_info hb default_archive header = Inr (a, r)" "b \<in> set (blocks a)" for a r b
    using read_streams_info_stages(2) [OF default_parts that(1)] that(2)
    by (auto simp: streams_ok_def unpack_size_or_panic_def dest!: block_sized_unpack_size split: option.splits)
  show ?thesis
    unfolding read_encoded_header_def
    using streams aes sized stack
    by (auto simp: Let_def split: sum.splits prod.splits list.splits option.splits) (metis fst_conv)+
qed

lemma final_header_no_panic:
  assumes "builders_sound (oe_builders env)"
  shows "fst (final_header env opts file pw buf) \<noteq> Inl Panic"
  using read_encoded_header_no_panic [OF assms, of _ opts "file" pw] bad_password_no_panic panic_freeD [OF panic_free_read_u8]
  by (auto simp: final_header_def split: sum.splits prod.splits) (metis fst_conv)+

lemma init_archive_no_panic:
  assumes "builders_sound (oe_builders env)"
  shows "fst (init_archive env file sh pw v opts) \<noteq> Inl Panic"
proof -
  have "ebind (parse_header opts buf) (check_archive (do_limits opts) n) \<noteq> Inl Panic" for buf n
  proof
    assume "ebind (parse_header opts buf) (check_archive (do_limits opts) n) = Inl Panic"
    then obtain a where a: "parse_header opts buf = Inr a" "check_archive (do_limits opts) n a = Inl Panic"
      using parse_header_no_panic by (auto simp: ebind_def split: sum.splits)
    show False using check_archive_no_panic parse_header_Inr(2) [OF a(1)] a(2) by (auto simp: streams_ok_def)
  qed
  moreover have "read_at file i n \<noteq> Inl Panic" for i n by (simp add: read_at_def eof_def from_io_def io_msg_def)
  ultimately show ?thesis
    using final_header_no_panic [OF assms, of opts "file" pw]
    by (auto simp: init_archive_def split: sum.splits prod.splits option.splits) (metis fst_conv)+
qed

lemma search_end_header_no_panic:
  assumes "builders_sound (oe_builders env)"
  shows "fst (search_end_header env file m pw opts n) \<noteq> Inl Panic"
proof (induction n arbitrary: pw)
  case (Suc pos)
  have "read_at file i n \<noteq> Inl Panic" for i n by (simp add: read_at_def eof_def from_io_def io_msg_def)
  then show ?case
    using init_archive_no_panic [OF assms, of "file" _ pw False opts] Suc.IH
    by (auto simp: Let_def split: sum.splits prod.splits) (metis fst_conv)+
qed simp

lemma map_sum_fst_Panic: "map_sum id fst x = Inl Panic \<longleftrightarrow> x = Inl Panic"
  by (cases x) simp_all

lemma read_with_limits_no_panic:
  assumes "builders_sound (oe_builders env)"
  shows "fst (read_with_limits env file pw limits) \<noteq> Inl Panic"
proof -
  have r: "read_at file i n \<noteq> Inl Panic" for i n by (simp add: read_at_def eof_def from_io_def io_msg_def)
  have "read_start_header crc32 buf c \<noteq> Inl Panic" for crc32 buf c
  proof -
    have "panic_free (pbind read_u64 (\<lambda>offset. pbind read_u64 (\<lambda>size. pbind read_u32 (\<lambda>crc.
             preturn \<lparr>next_header_offset = offset, next_header_size = size, next_header_crc = ucast crc\<rparr>))))"
      by (intro panic_free_pbind panic_free_basic panic_free_read_words)
    then show ?thesis by (auto simp: read_start_header_def panic_free_def map_sum_fst_Panic)
  qed
  then show ?thesis
    using r init_archive_no_panic [OF assms] search_end_header_no_panic [OF assms]
    by (auto simp: read_with_limits_def try_to_locale_end_header_def Let_def split: sum.splits)
qed

section \<open>Properties\<close>

text \<open>
  C1: opening a file never panics, and what opens stays inside its file and its limits.  For every
  byte string, password and limits, opening returns an archive or an error.  In an archive, every
  pack stream of every block lies between the signature header and the end of the file; the
  declared output is within the byte and ratio limits; when unsafe paths are rejected no entry has
  one; no coder asks for more key derivation than allowed; and every block is decodable and knows
  its size.
\<close>

theorem opened_archive_stays_inside:
  assumes "builders_sound (oe_builders env)"
  shows "fst (read_with_limits env file pw limits) \<noteq> Inl Panic
    \<and> (\<forall>a. fst (read_with_limits env file pw limits) = Inr a \<longrightarrow>
        32 + unat (pack_pos a) + packed_bytes a \<le> length file
        \<and> (\<forall>k. \<forall>r\<in>set (block_pack_streams a k). length file < 2 ^ 64 \<longrightarrow>
              32 \<le> unat (range_offset r) \<and> unat (range_offset r) + unat (range_size r) \<le> length file)
        \<and> inside_limits limits a
        \<and> (\<forall>b\<in>set (blocks a). block_ranges b \<and> streams_bound_once b \<and> no_reachable_cycle b \<and> (\<exists>n. get_unpack_size b = Some n))
        \<and> is_solid a = list_ex (\<lambda>b. 1 < num_unpack_sub_streams b) (blocks a))"
proof (intro conjI allI impI read_with_limits_no_panic [OF assms])
  fix a assume "fst (read_with_limits env file pw limits) = Inr a"
  then have o: "opened limits (length file) a"
    by (cases "read_with_limits env file pw limits") (auto intro: read_with_limits_opened)
  then show "32 + unat (pack_pos a) + packed_bytes a \<le> length file" "inside_limits limits a"
    "is_solid a = list_ex (\<lambda>b. 1 < num_unpack_sub_streams b) (blocks a)"
    by (simp_all add: opened_def inside_file_def)
  show "\<forall>b\<in>set (blocks a). block_ranges b \<and> streams_bound_once b \<and> no_reachable_cycle b \<and> (\<exists>n. get_unpack_size b = Some n)"
    using o by (auto simp: opened_def streams_ok_def block_ok_def dest: block_sized_unpack_size)
  show "\<forall>r\<in>set (block_pack_streams a k). length file < 2 ^ 64 \<longrightarrow>
      32 \<le> unat (range_offset r) \<and> unat (range_offset r) + unat (range_size r) \<le> length file" for k
    using o pack_stream_inside [of a "length file"]
    by (auto simp: opened_def block_pack_streams_def List.map_filter_def split: option.splits)
qed

definition constant_env :: "unit open_env" where
  "constant_env = \<lparr>oe_sha = \<lparr>sha_new = (), sha_update = (\<lambda>s bs. s), sha_finalize = (\<lambda>s. [])\<rparr>,
     oe_ppmd = \<lparr>ppmd_min_order = 2, ppmd_max_order = 64, ppmd_min_mem = 2048, ppmd_max_mem = 0xFFFFFFDB\<rparr>,
     oe_builders = willing, oe_run = (\<lambda>d s. s), oe_crc32 = (\<lambda>bs. 1)\<rparr>"

definition empty_file :: bytes where
  "empty_file = SEVEN_Z_SIGNATURE @ [0, 4, 1, 0, 0, 0] @ [0, 0, 0, 0, 0, 0, 0, 0] @ [2, 0, 0, 0, 0, 0, 0, 0] @ [1, 0, 0, 0] @ [K_HEADER, K_END]"

lemma empty_header_opens:
  "\<exists>a. ebind (parse_header opts [K_HEADER, K_END]) (check_archive limits_default (length empty_file)) = Inr a"
proof -
  have "parse_header opts [K_HEADER, K_END] = Inr default_archive"
    by (simp add: parse_header_def K_defs read_header_def pbind_def calculate_stream_map_def default_archive_def
        default_stream_map_def)
  then show ?thesis
    by (simp add: check_archive_def check_packed_def check_unpacked_def check_aes_work_def default_archive_def
        limits_default_def checked_add_def SIGNATURE_HEADER_SIZE_def u64_max_def empty_file_def SEVEN_Z_SIGNATURE_def)
qed

lemma empty_file_opens: "\<exists>a. fst (read_with_limits constant_env empty_file password_empty limits_default) = Inr a"
proof -
  have "do_limits (header_options limits_default) = limits_default" by (simp add: header_options_def)
  moreover have "max_end_header_bytes limits_default = u64_max" by (simp add: limits_default_def)
  ultimately show ?thesis
    using empty_header_opens [of "header_options limits_default"]
    by (simp add: read_with_limits_def empty_file_def constant_env_def read_at_def SEVEN_Z_SIGNATURE_def K_defs
      read_start_header_def init_archive_def final_header_def checked_add_def SIGNATURE_HEADER_SIZE_def
      read_u64_def read_u32_def read_exact_def pbind_def u64_max_def)
qed

theorem opened_archive_stays_inside_witness:
  "\<exists>a. fst (read_with_limits constant_env empty_file password_empty limits_default) = Inr a
     \<and> 32 + unat (pack_pos a) + packed_bytes a \<le> 34 \<and> inside_limits limits_default a"
proof -
  have "builders_sound (oe_builders constant_env)" by (simp add: builders_sound_def constant_env_def willing_def)
  note opened_archive_stays_inside [OF this, of empty_file password_empty limits_default]
  moreover have "length empty_file = 34" by (simp add: empty_file_def SEVEN_Z_SIGNATURE_def)
  ultimately show ?thesis using empty_file_opens by auto
qed

end
