(* ===== verification/Decode_Correct.thy ===== *)
theory Decode_Correct
  imports Decode_Archive Opening_Safety "HOL-Library.Multiset"
begin

text \<open>
  What decoding delivers.  A consumer that reads every entry to its end gets the entry's own bytes of
  its block's output, in order; a pass that collects all entries is a list of parts of the blocks' outputs.
\<close>

section \<open>The readers of a block keep the contract of a reader\<close>

text \<open>A stream that does not fail delivers its bytes.\<close>

interpretation whole: byte_source "stream_read piece" "\<lambda>s. snd s = None" fst
proof
  fix s :: stream and n :: nat
  assume s: "snd s = None" "0 < n"
  then have "stream_read piece n s =
      (if fst s = [] then (Inr [], s)
       else (Inr (take (max 1 (min n (piece (fst s) n))) (fst s)), (drop (max 1 (min n (piece (fst s) n))) (fst s), None)))"
    by (cases s) (simp add: stream_read_def Let_def)
  with s show "\<exists>bs s'. stream_read piece n s = (Inr bs, s') \<and> snd s' = None \<and> length bs \<le> n \<and> fst s = bs @ fst s'
    \<and> (bs = [] \<longrightarrow> fst s = [])"
    by (cases "fst s = []") simp_all
qed

text \<open>
  A \<open>Crc32VerifyingReader\<close> keeps the contract of the reader below it when that has no more than the
  announced bytes and, if it has them all, they have the checksum.
\<close>

definition crc_good :: "(bytes \<Rightarrow> u32) \<Rightarrow> ('s \<Rightarrow> bool) \<Rightarrow> ('s \<Rightarrow> bytes) \<Rightarrow> 's crc_verifying \<Rightarrow> bool" where
  "crc_good crc32 good content v \<longleftrightarrow> good (cv_inner v) \<and> int (length (content (cv_inner v))) \<le> max 0 (cv_remaining v)
     \<and> (int (length (content (cv_inner v))) = cv_remaining v \<and> content (cv_inner v) \<noteq> [] \<longrightarrow>
          ucast (crc32 (cv_seen v @ content (cv_inner v))) = cv_expected v)"

lemma crc_goodI:
  assumes "good s" "length (content s) \<le> announced" "announced < 2 ^ 63"
    and "length (content s) = announced \<Longrightarrow> ucast (crc32 (content s)) = expected"
  shows "crc_good crc32 good content (crc_verifying_new s announced expected)"
proof -
  have "sint (of_nat announced :: i64) = int announced"
    using assms(3) by (simp add: signed_of_nat signed_take_bit_int_eq_self)
  then show ?thesis using assms by (simp add: crc_good_def crc_verifying_new_def)
qed

context byte_source begin

lemma crc_verifying: "byte_source (crc_verifying_read crc32 rd) (crc_good crc32 good content) (\<lambda>v. content (cv_inner v))"
proof
  fix v :: "'s crc_verifying" and n :: nat
  assume v: "crc_good crc32 good content v" "0 < n"
  show "\<exists>bs v'. crc_verifying_read crc32 rd n v = (Inr bs, v') \<and> crc_good crc32 good content v' \<and> length bs \<le> n
    \<and> content (cv_inner v) = bs @ content (cv_inner v') \<and> (bs = [] \<longrightarrow> content (cv_inner v) = [])"
  proof (cases "cv_remaining v \<le> 0")
    case True
    then show ?thesis using v by (auto simp: crc_verifying_read_def crc_good_def)
  next
    case False
    have "good (cv_inner v)" using v(1) by (simp add: crc_good_def)
    then obtain bs s' where r: "rd n (cv_inner v) = (Inr bs, s')" "good s'" "length bs \<le> n" "content (cv_inner v) = bs @ content s'"
      "bs = [] \<longleftrightarrow> content (cv_inner v) = []" by (rule read_cases [OF _ v(2)])
    have len: "int (length bs) + int (length (content s')) \<le> cv_remaining v"
      using v(1) False r(4) by (simp add: crc_good_def)
    define v1 where "v1 = v\<lparr>cv_inner := s', cv_seen := cv_seen v @ bs, cv_remaining := cv_remaining v - int (length bs)\<rparr>"
    show ?thesis
    proof (cases "cv_remaining v1 \<le> 0")
      case True
      then have "cv_remaining v \<le> int (length bs)" by (simp add: v1_def)
      then have "length (content s') = 0" and all: "int (length bs) = cv_remaining v" using len by linarith+
      then have empty: "content s' = []" "bs \<noteq> []" using False by auto
      have d: "ucast (crc32 (cv_seen v @ bs)) = cv_expected v" using v(1) r(4) all empty by (simp add: crc_good_def)
      define v2 where "v2 = v1\<lparr>cv_seen := [], cv_report := Some (crc32 (cv_seen v @ bs))\<rparr>"
      have "crc_verifying_read crc32 rd n v = (Inr bs, v2)"
        using False True d r(1) by (simp add: crc_verifying_read_def Let_def v1_def v2_def)
      moreover have "crc_good crc32 good content v2"
        using True empty r(2) by (simp add: crc_good_def v1_def v2_def)
      moreover have "content (cv_inner v2) = []" using empty by (simp add: v1_def v2_def)
      ultimately show ?thesis using r(3,4) empty by (intro exI [of _ bs] exI [of _ v2]) simp
    next
      case more: False
      then have "crc_verifying_read crc32 rd n v = (Inr bs, v1)"
        using False r(1) by (simp add: crc_verifying_read_def Let_def v1_def)
      moreover have "crc_good crc32 good content v1"
        using v(1) False more r(2,4) len by (simp add: crc_good_def v1_def)
      moreover have "content (cv_inner v1) = content s'" by (simp add: v1_def)
      moreover have "bs = [] \<longrightarrow> content (cv_inner v) = []" using r(5) by blast
      ultimately show ?thesis using r(3,4) by metis
    qed
  qed
qed

lemma fault_recording: "byte_source (fault_read rd) (\<lambda>s. good (snd s)) (\<lambda>s. content (snd s))"
proof
  fix s :: "bool \<times> 's" and n :: nat
  assume "good (snd s)" "0 < n"
  then obtain bs s' where "rd n (snd s) = (Inr bs, s')" "good s'" "length bs \<le> n" "content (snd s) = bs @ content s'"
    "bs = [] \<longleftrightarrow> content (snd s) = []" by (rule read_cases)
  then show "\<exists>bs s'. fault_read rd n s = (Inr bs, s') \<and> good (snd s') \<and> length bs \<le> n \<and> content (snd s) = bs @ content (snd s')
    \<and> (bs = [] \<longrightarrow> content (snd s) = [])"
    by (auto simp: fault_read_def split: prod.splits)
qed

end

text \<open>The reader of a block.\<close>

fun block_content :: "block_stream \<Rightarrow> bytes" where
  "block_content (Unverified s) = fst s"
| "block_content (Verified v) = fst (cv_inner v)"

fun block_good :: "(bytes \<Rightarrow> u32) \<Rightarrow> block_stream \<Rightarrow> bool" where
  "block_good crc32 (Unverified s) = (snd s = None)"
| "block_good crc32 (Verified v) = crc_good crc32 (\<lambda>s. snd s = None) fst v"

lemma block_stream_source: "byte_source (block_stream_read env) (block_good (oe_crc32 (de_open env))) block_content"
proof
  fix s and n :: nat
  assume s: "block_good (oe_crc32 (de_open env)) s" "0 < n"
  show "\<exists>bs s'. block_stream_read env n s = (Inr bs, s') \<and> block_good (oe_crc32 (de_open env)) s' \<and> length bs \<le> n
    \<and> block_content s = bs @ block_content s' \<and> (bs = [] \<longrightarrow> block_content s = [])"
  proof (cases s)
    case (Unverified t)
    then show ?thesis using s whole.read_law [of t n "de_piece env"] by auto
  next
    case (Verified v)
    then show ?thesis
      using s byte_source.read_law [OF whole.crc_verifying, of "oe_crc32 (de_open env)" v n "de_piece env"] by fastforce
  qed
qed

lemma block_source:
  "byte_source (block_read env) (\<lambda>r. block_good (oe_crc32 (de_open env)) (snd r)) (\<lambda>r. block_content (snd r))"
  unfolding block_read_def by (rule byte_source.fault_recording [OF block_stream_source])

section \<open>Reading to the end\<close>

text \<open>What a verifying reader has seen, and the checksum it reports.\<close>

definition crc_progress :: "(bytes \<Rightarrow> u32) \<Rightarrow> ('s \<Rightarrow> bytes) \<Rightarrow> bytes \<Rightarrow> 's crc_verifying \<Rightarrow> bool" where
  "crc_progress crc32 content d v \<longleftrightarrow>
     (if 0 < cv_remaining v then cv_seen v @ content (cv_inner v) = d \<and> cv_remaining v = int (length (content (cv_inner v)))
      else cv_report v = Some (crc32 d))"

context byte_source begin

lemma to_end_reads:
  assumes "0 < chunk" and keeps: "\<forall>s bs s'. good s \<longrightarrow> keep s \<longrightarrow> rd chunk s = (Inr bs, s') \<longrightarrow> keep s'"
  shows "good s \<Longrightarrow> keep s \<Longrightarrow> length (content s) < fuel \<Longrightarrow>
    \<exists>s'. perform rd (to_end chunk fuel acc k) s = perform rd (k (Inr (acc @ content s))) s' \<and> good s' \<and> content s' = [] \<and> keep s'"
proof (induction fuel arbitrary: s acc)
  case (Suc fuel)
  obtain bs s1 where r: "rd chunk s = (Inr bs, s1)" "good s1" "content s = bs @ content s1" "bs = [] \<longleftrightarrow> content s = []"
    by (rule read_cases [OF Suc.prems(1) assms(1)])
  have inv1: "keep s1" using keeps Suc.prems(1,2) r(1) by blast
  show ?case
  proof (cases "bs = []")
    case True
    have c: "content s = []" using r(4) True by blast
    have "content s1 = []" using r(3) c by simp
    moreover have "perform rd (to_end chunk (Suc fuel) acc k) s = perform rd (k (Inr (acc @ content s))) s1"
      unfolding c using r(1) True by simp
    ultimately show ?thesis using r(2) inv1 by blast
  next
    case False
    then have "length (content s1) < fuel" using r(3) Suc.prems(3) by (cases bs) simp_all
    from Suc.IH [OF r(2) inv1 this, of "acc @ bs"]
    obtain s' where "perform rd (to_end chunk fuel (acc @ bs) k) s1 = perform rd (k (Inr ((acc @ bs) @ content s1))) s'"
      "good s'" "content s' = []" "keep s'" by blast
    moreover have "perform rd (to_end chunk (Suc fuel) acc k) s = perform rd (to_end chunk fuel (acc @ bs) k) s1"
      using r(1) False by simp
    ultimately show ?thesis unfolding r(3) by (metis append_assoc)
  qed
qed simp

text \<open>Where a bounded reader leaves the reader below it.\<close>

lemma bounded_position:
  assumes "good (bd_inner b)" "bd_remain b = m - j \<and> j \<le> m \<and> content (bd_inner b) = drop j d"
    and "0 < n" "bounded_read rd n b = (Inr bs, b')"
  shows "\<exists>j. bd_remain b' = m - j \<and> j \<le> m \<and> content (bd_inner b') = drop j d"
proof (cases "bd_remain b = 0")
  case True
  then show ?thesis using assms by (auto simp: bounded_read_def)
next
  case False
  then have n: "0 < min n (bd_remain b)" using assms(3) by simp
  obtain bs' s' where r: "rd (min n (bd_remain b)) (bd_inner b) = (Inr bs', s')" "length bs' \<le> min n (bd_remain b)"
    "content (bd_inner b) = bs' @ content s'"
    by (rule read_cases [OF assms(1) n])
  have b': "b' = \<lparr>bd_inner = s', bd_remain = bd_remain b - length bs'\<rparr>"
    using assms(4) r(1) False by (auto simp: bounded_read_def)
  have "content s' = drop (length bs') (drop j d)" using r(3) assms(2) by (metis append_eq_conv_conj)
  then show ?thesis using r(2) assms(2) by (intro exI [of _ "j + length bs'"]) (auto simp: b' add.commute)
qed

lemma crc_progress_step:
  assumes "good (cv_inner v)" "crc_progress crc32 content d v" "0 < n" "crc_verifying_read crc32 rd n v = (Inr bs, v')"
  shows "crc_progress crc32 content d v'"
proof (cases "cv_remaining v \<le> 0")
  case True
  then show ?thesis using assms by (auto simp: crc_verifying_read_def)
next
  case False
  obtain bs' s' where r: "rd n (cv_inner v) = (Inr bs', s')" "content (cv_inner v) = bs' @ content s'"
    by (rule read_cases [OF assms(1,3)])
  have len: "cv_remaining v = int (length bs') + int (length (content s'))" and seen: "cv_seen v @ bs' @ content s' = d"
    using assms(2) False r(2) by (simp_all add: crc_progress_def)
  show ?thesis
  proof (cases "cv_remaining v \<le> int (length bs')")
    case True
    then have "content s' = []" using len by simp
    then show ?thesis
      using assms(4) True False r(1) seen by (auto simp: crc_progress_def crc_verifying_read_def Let_def split: if_splits)
  next
    case more: False
    then have "v' = v\<lparr>cv_inner := s', cv_seen := cv_seen v @ bs', cv_remaining := cv_remaining v - int (length bs')\<rparr>"
      using assms(4) False r(1) by (auto simp: crc_verifying_read_def Let_def)
    then show ?thesis using more len seen by (simp add: crc_progress_def)
  qed
qed

end

lemma crc_verifying_inner:
  assumes "crc_verifying_read crc32 rd n v = (Inr bs, v')"
  shows "cv_inner v' = cv_inner v \<or> (\<exists>bs. rd n (cv_inner v) = (Inr bs, cv_inner v'))"
  using assms by (auto simp: crc_verifying_read_def Let_def split: if_splits prod.splits sum.splits)

lemma crc_progress_new:
  assumes "0 < length (content s)" "length (content s) < 2 ^ 63"
  shows "crc_progress crc32 content (content s) (crc_verifying_new s (length (content s)) expected)"
proof -
  have "sint (of_nat (length (content s)) :: i64) = int (length (content s))"
    using assms(2) by (simp add: signed_of_nat signed_take_bit_int_eq_self)
  then show ?thesis using assms(1) by (simp add: crc_progress_def crc_verifying_new_def)
qed

context byte_source begin

text \<open>An entry read to its end, bounded only and verified as well.\<close>

lemma bounded_to_end:
  assumes "good s" "0 < chunk" "m \<le> length (content s)" "m < fuel"
  shows "\<exists>b. perform (bounded_read rd) (to_end chunk fuel [] k) (bounded_new s m)
      = perform (bounded_read rd) (k (Inr (take m (content s)))) b
    \<and> good (bd_inner b) \<and> content (bd_inner b) = drop m (content s)"
proof -
  define at where "at = (\<lambda>b :: 's bounded. \<exists>j. bd_remain b = m - j \<and> j \<le> m \<and> content (bd_inner b) = drop j (content s))"
  have keeps: "\<forall>b bs b'. good (bd_inner b) \<longrightarrow> at b \<longrightarrow> bounded_read rd chunk b = (Inr bs, b') \<longrightarrow> at b'"
    using bounded_position [OF _ _ assms(2)] unfolding at_def by metis
  have at: "at (bounded_new s m)" by (auto simp: at_def bounded_new_def intro: exI [of _ 0])
  have "\<exists>b. perform (bounded_read rd) (to_end chunk fuel [] k) (bounded_new s m)
      = perform (bounded_read rd) (k (Inr ([] @ take (bd_remain (bounded_new s m)) (content (bd_inner (bounded_new s m)))))) b
    \<and> good (bd_inner b) \<and> take (bd_remain b) (content (bd_inner b)) = [] \<and> at b"
    by (rule byte_source.to_end_reads [OF bounded assms(2) keeps _ at]) (use assms in \<open>simp_all add: bounded_new_def\<close>)
  moreover have "content (bd_inner b) = drop m (content s)" if "at b" "take (bd_remain b) (content (bd_inner b)) = []" for b
    using that assms(3) by (auto simp: at_def)
  ultimately show ?thesis by (auto simp: bounded_new_def)
qed

lemma verified_to_end:
  assumes "good s" "0 < chunk" "m \<le> length (content s)" "m < fuel" "0 < m" "m < 2 ^ 63"
    and "ucast (digest (take m (content s))) = expected"
  shows "\<exists>v. perform (crc_verifying_read digest (bounded_read rd)) (to_end chunk fuel [] k) (crc_verifying_new (bounded_new s m) m expected)
      = perform (crc_verifying_read digest (bounded_read rd)) (k (Inr (take m (content s)))) v
    \<and> good (bd_inner (cv_inner v)) \<and> content (bd_inner (cv_inner v)) = drop m (content s)
    \<and> cv_report v = Some (digest (take m (content s)))"
proof -
  define cont where "cont = (\<lambda>b :: 's bounded. take (bd_remain b) (content (bd_inner b)))"
  define at where "at = (\<lambda>b :: 's bounded. \<exists>j. bd_remain b = m - j \<and> j \<le> m \<and> content (bd_inner b) = drop j (content s))"
  define b0 where "b0 = bounded_new s m"
  define v0 where "v0 = crc_verifying_new b0 m expected"
  define keep where "keep = (\<lambda>v :: 's bounded crc_verifying. at (cv_inner v) \<and> crc_progress digest cont (take m (content s)) v)"
  have src: "byte_source (bounded_read rd) (\<lambda>b. good (bd_inner b)) cont" unfolding cont_def by (rule bounded)
  have b0: "good (bd_inner b0)" "at b0" "cont b0 = take m (content s)" "length (cont b0) = m"
    using assms(1,3) by (auto simp: b0_def at_def cont_def bounded_new_def intro: exI [of _ 0])
  have v0: "cv_inner v0 = b0" by (simp add: v0_def crc_verifying_new_def)
  have good0: "crc_good digest (\<lambda>b. good (bd_inner b)) cont v0"
    unfolding v0_def by (rule crc_goodI) (use b0 assms(6,7) in simp_all)
  have "crc_progress digest cont (cont b0) (crc_verifying_new b0 (length (cont b0)) expected)"
    by (rule crc_progress_new) (simp_all only: b0(4) assms)
  then have "crc_progress digest cont (take m (content s)) v0" unfolding b0(4) unfolding v0_def b0(3) .
  then have keep0: "keep v0" using b0(2) v0 by (simp add: keep_def)
  have keeps: "\<forall>v bs v'. crc_good digest (\<lambda>b. good (bd_inner b)) cont v \<longrightarrow> keep v \<longrightarrow>
      crc_verifying_read digest (bounded_read rd) chunk v = (Inr bs, v') \<longrightarrow> keep v'"
  proof (intro allI impI)
    fix v bs v'
    assume v: "crc_good digest (\<lambda>b. good (bd_inner b)) cont v" "keep v" "crc_verifying_read digest (bounded_read rd) chunk v = (Inr bs, v')"
    have g: "good (bd_inner (cv_inner v))" using v(1) by (simp add: crc_good_def)
    have "at (cv_inner v')"
      using crc_verifying_inner [OF v(3)] v(2) bounded_position [OF g _ assms(2)] by (auto simp: keep_def at_def)
    moreover have "crc_progress digest cont (take m (content s)) v'"
      using byte_source.crc_progress_step [OF src g _ assms(2) v(3)] v(2) by (simp add: keep_def)
    ultimately show "keep v'" by (simp add: keep_def)
  qed
  have "length (cont (cv_inner v0)) < fuel" using b0(4) v0 assms(4) by simp
  from byte_source.to_end_reads [OF byte_source.crc_verifying [OF src] assms(2) keeps good0 keep0 this, of "[]" k]
  obtain v where v: "perform (crc_verifying_read digest (bounded_read rd)) (to_end chunk fuel [] k) v0
      = perform (crc_verifying_read digest (bounded_read rd)) (k (Inr (take m (content s)))) v"
    "good (bd_inner (cv_inner v))" "cont (cv_inner v) = []" "keep v"
    unfolding v0 b0(3) by (auto simp: crc_good_def)
  have "content (bd_inner (cv_inner v)) = drop m (content s)" "cv_report v = Some (digest (take m (content s)))"
    using v(3,4) assms(3) by (auto simp: keep_def at_def cont_def crc_progress_def split: if_splits)
  then show ?thesis using v(1,2) unfolding v0_def b0_def by blast
qed

end

section \<open>One entry\<close>

text \<open>
  A consumer that reads an entry to its end, decides on its bytes whether to go on, and keeps what
  it wants of them.
\<close>

definition reading :: "nat \<Rightarrow> ('c \<Rightarrow> nat \<Rightarrow> archive_entry \<Rightarrow> bytes \<Rightarrow> bool \<times> 'c) \<Rightarrow> 'c callback" where
  "reading chunk h c i f =
     to_end chunk (read_fuel f) [] (\<lambda>r. case r of
       Inl e \<Rightarrow> Answer (Inl (from_io e)) c
     | Inr bs \<Rightarrow> Answer (Inr (fst (h c i f bs))) (snd (h c i f bs)))"

lemma keep_target_reading:
  "keep_target chunk target = reading chunk (\<lambda>c i f bs. if i = target then (False, Some bs) else (True, c))"
proof (intro ext)
  fix c :: "bytes option" and i f
  have "(\<lambda>r. case r of Inl e \<Rightarrow> Answer (Inl (from_io e)) c
      | Inr bs \<Rightarrow> if i = target then Answer (Inr False) (Some bs) else Answer (Inr True) c)
    = (\<lambda>r. case r of Inl e \<Rightarrow> Answer (Inl (from_io e)) c
      | Inr bs \<Rightarrow> Answer (Inr (fst (if i = target then (False, Some bs) else (True, c))))
          (snd (if i = target then (False, Some bs) else (True, c))))"
    by (rule ext) (simp split: sum.split)
  then show "keep_target chunk target c i f
    = reading chunk (\<lambda>c i f bs. if i = target then (False, Some bs) else (True, c)) c i f"
    unfolding keep_target_def reading_def by (rule arg_cong)
qed

definition slice_ok :: "(bytes \<Rightarrow> u32) \<Rightarrow> bool \<Rightarrow> archive_entry \<Rightarrow> bytes \<Rightarrow> bool" where
  "slice_ok crc32 verifying f bs \<longleftrightarrow> length bs = unat (entry_size f) \<and> unat (entry_size f) < 2 ^ 63
     \<and> (entry_has_crc f \<and> verifying \<longrightarrow> ucast (crc32 bs) = entry_crc f)"

lemma slice_ok_bounds:
  assumes "slice_ok crc32 v f (take (unat (entry_size f)) d)" "0 < entry_size f"
  shows "0 < unat (entry_size f)" "unat (entry_size f) \<le> length d" "unat (entry_size f) < 2 ^ 63"
  using assms by (auto simp: slice_ok_def word_less_nat_alt min_def split: if_splits)

lemma entry_read_slice:
  assumes "block_good (oe_crc32 (de_open env)) (snd rd)" "0 < chunk" "0 < entry_size f"
    and "slice_ok (oe_crc32 (de_open env)) verifying f (take (unat (entry_size f)) (block_content (snd rd)))"
  shows "\<exists>rd'. entry_read env verifying f (reading chunk h c i f) rd
      = ((Inr (fst (h c i f (take (unat (entry_size f)) (block_content (snd rd))))),
          snd (h c i f (take (unat (entry_size f)) (block_content (snd rd))))), rd',
         if entry_has_crc f \<and> verifying
         then Some (oe_crc32 (de_open env) (take (unat (entry_size f)) (block_content (snd rd)))) else None)
    \<and> block_good (oe_crc32 (de_open env)) (snd rd')
    \<and> block_content (snd rd') = drop (unat (entry_size f)) (block_content (snd rd))"
proof -
  define m where "m = unat (entry_size f)"
  define d where "d = block_content (snd rd)"
  note ok = assms(4) [folded m_def d_def]
  note bounds = slice_ok_bounds [OF ok [unfolded m_def] assms(3), folded m_def]
  define k where "k = (\<lambda>r. case r of Inl e \<Rightarrow> Answer (Inl (from_io e)) c
     | Inr bs \<Rightarrow> Answer (Inr (fst (h c i f bs))) (snd (h c i f bs)))"
  have act: "reading chunk h c i f = to_end chunk (read_fuel f) [] k" by (simp add: reading_def k_def)
  have fuel: "m < read_fuel f" by (simp add: read_fuel_def m_def)
  show ?thesis
  proof (cases "entry_has_crc f \<and> verifying")
    case False
    obtain b where b: "perform (bounded_read (block_read env)) (to_end chunk (read_fuel f) [] k) (bounded_new rd m)
        = perform (bounded_read (block_read env)) (k (Inr (take m d))) b"
      "block_good (oe_crc32 (de_open env)) (snd (bd_inner b))" "block_content (snd (bd_inner b)) = drop m d"
      using byte_source.bounded_to_end [OF block_source assms(1,2) bounds(2) [unfolded d_def] fuel] unfolding d_def by blast
    have "entry_read env verifying f (reading chunk h c i f) rd
      = ((Inr (fst (h c i f (take m d))), snd (h c i f (take m d))), bd_inner b, None)"
      unfolding entry_read_def act m_def [symmetric] Let_def if_not_P [OF False] b(1) by (simp add: k_def)
    then show ?thesis using b(2,3) False by (auto simp: m_def [symmetric] d_def [symmetric])
  next
    case True
    have sum: "ucast (oe_crc32 (de_open env) (take m d)) = entry_crc f" using ok True by (simp add: slice_ok_def)
    obtain v where v: "perform (crc_verifying_read (oe_crc32 (de_open env)) (bounded_read (block_read env))) (to_end chunk (read_fuel f) [] k)
          (crc_verifying_new (bounded_new rd m) m (entry_crc f))
        = perform (crc_verifying_read (oe_crc32 (de_open env)) (bounded_read (block_read env))) (k (Inr (take m d))) v"
      "block_good (oe_crc32 (de_open env)) (snd (bd_inner (cv_inner v)))" "block_content (snd (bd_inner (cv_inner v))) = drop m d"
      "cv_report v = Some (oe_crc32 (de_open env) (take m d))"
      using byte_source.verified_to_end [where digest = "oe_crc32 (de_open env)", OF block_source assms(1,2) bounds(2) [unfolded d_def]
            fuel bounds(1,3) sum [unfolded d_def]]
      unfolding d_def by blast
    have "entry_read env verifying f (reading chunk h c i f) rd
      = ((Inr (fst (h c i f (take m d))), snd (h c i f (take m d))), bd_inner (cv_inner v), Some (oe_crc32 (de_open env) (take m d)))"
      unfolding entry_read_def act m_def [symmetric] Let_def if_P [OF True] v(1) by (simp add: k_def v(4))
    then show ?thesis using v(2,3) True by (auto simp: m_def [symmetric] d_def [symmetric])
  qed
qed

section \<open>The entries of a block\<close>

text \<open>The entries of a list of indices, each with its part of the block's output.\<close>

fun entry_slices :: "archive \<Rightarrow> nat list \<Rightarrow> bytes \<Rightarrow> (nat \<times> archive_entry \<times> bytes) list" where
  "entry_slices a [] d = []"
| "entry_slices a (i # is) d =
     (let f = files a ! i; n = (if has_stream f then unat (entry_size f) else 0)
      in (i, f, take n d) # entry_slices a is (drop n d))"

text \<open>Visiting them until the consumer has enough.\<close>

fun hand_over :: "('c \<Rightarrow> nat \<Rightarrow> archive_entry \<Rightarrow> bytes \<Rightarrow> bool \<times> 'c) \<Rightarrow> (nat \<times> archive_entry \<times> bytes) list \<Rightarrow> 'c \<Rightarrow> bool \<times> 'c" where
  "hand_over h [] c = (True, c)"
| "hand_over h ((i, f, bs) # xs) c = (case h c i f bs of (go_on, c') \<Rightarrow> if go_on then hand_over h xs c' else (False, c'))"

text \<open>
  The output of a block holds its entries: every index is an entry, every part has its size and, when
  the entries are verified, its checksum; and what the workers fold is the checksum of the bytes.
\<close>

definition holds_entries :: "'s block_run \<Rightarrow> nat list \<Rightarrow> bytes \<Rightarrow> bool" where
  "holds_entries br is d \<longleftrightarrow>
     list_all (\<lambda>i. i < length (files (br_archive br))) is
     \<and> list_all (\<lambda>(i, f, bs). has_stream f \<longrightarrow> slice_ok (oe_crc32 (de_open (br_env br))) (br_verify br) f bs)
         (entry_slices (br_archive br) is d)"

definition folds_soundly :: "'s block_run \<Rightarrow> bytes \<Rightarrow> bool" where
  "folds_soundly br d \<longleftrightarrow> (br_folding br \<longrightarrow> br_verify br)
     \<and> (\<forall>s offset len c. br_folding br \<longrightarrow> range_crc br s offset len = Some c \<longrightarrow>
          c = oe_crc32 (de_open (br_env br)) (take (unat len) (drop (unat offset) d)))"

lemma slice_ok_weaken: "slice_ok crc32 v f bs \<Longrightarrow> slice_ok crc32 (v \<and> w) f bs"
  by (simp add: slice_ok_def)

lemma entry_checksum_ok:
  assumes "folds_soundly br d" "slice_ok (oe_crc32 (de_open (br_env br))) (br_verify br) f bs"
    and "bs = take (unat (entry_size f)) (drop (unat (el_unpacked_offset el)) d)"
  shows "\<exists>check. entry_checksum br f el report = Inr check"
  using assms by (auto simp: entry_checksum_def folds_soundly_def slice_ok_def split: option.split)

lemma decode_entry_slice:
  assumes "0 < chunk" "folds_soundly br d" "length d < 2 ^ 64"
    and "block_good (oe_crc32 (de_open (br_env br))) (snd (el_reader el))"
    and "block_content (snd (el_reader el)) = drop at d" "at = unat (el_unpacked_offset el)" "at \<le> length d"
    and "n = (if has_stream f then unat (entry_size f) else 0)"
    and "has_stream f \<Longrightarrow> slice_ok (oe_crc32 (de_open (br_env br))) (br_verify br) f (take n (drop at d))"
  shows "\<exists>el1. decode_entry br first_sub (reading chunk h) i f c el
      = (Inr (fst (h c i f (take n (drop at d)))), snd (h c i f (take n (drop at d))), el1)
    \<and> unat (el_unpacked_offset el1) = at + n \<and> block_good (oe_crc32 (de_open (br_env br))) (snd (el_reader el1))
    \<and> block_content (snd (el_reader el1)) = drop n (drop at d) \<and> at + n \<le> length d"
proof (cases "has_stream f \<and> 0 < entry_size f")
  case True
  define bs where "bs = take n (drop at d)"
  define v where "v \<longleftrightarrow> br_verify br \<and> \<not> br_folding br"
  have n: "n = unat (entry_size f)" and ok: "slice_ok (oe_crc32 (de_open (br_env br))) (br_verify br) f bs"
    using assms(8,9) True by (simp_all add: bs_def)
  have bs: "take (unat (entry_size f)) (block_content (snd (el_reader el))) = bs" by (simp add: bs_def n assms(5))
  have fits: "at + n \<le> length d" using ok assms(7) True by (auto simp: slice_ok_def bs_def n min_def word_less_nat_alt split: if_splits)
  obtain rd report where r: "entry_read (br_env br) v f (reading chunk h c i f) (el_reader el)
      = ((Inr (fst (h c i f bs)), snd (h c i f bs)), rd, report)"
    "block_good (oe_crc32 (de_open (br_env br))) (snd rd)" "block_content (snd rd) = drop n (drop at d)"
    using entry_read_slice [OF assms(4,1), of f v h c i] True slice_ok_weaken [OF ok] unfolding bs
    by (auto simp: v_def n assms(5))
  obtain check where check: "entry_checksum br f (el\<lparr>el_reader := rd\<rparr>) report = Inr check"
    using entry_checksum_ok [OF assms(2) ok, of "el\<lparr>el_reader := rd\<rparr>" report] by (auto simp: bs_def n assms(6))
  have "unat (el_unpacked_offset el + entry_size f) = at + n"
    using fits assms(3,6) n by (simp add: unat_word_ariths)
  then show ?thesis
    using True r check fits unfolding decode_entry_def v_def bs_def by (simp add: Let_def)
next
  case False
  then have n: "n = 0" using assms(8) by (auto simp: word_less_nat_alt)
  have "perform empty_read (reading chunk h c i f) () = ((Inr (fst (h c i f [])), snd (h c i f [])), ())"
    by (simp add: reading_def read_fuel_def empty_read_def)
  then show ?thesis using False assms(4-7) n unfolding decode_entry_def by auto
qed

lemma decode_entries_visit:
  assumes "0 < chunk" "folds_soundly br d" "length d < 2 ^ 64"
  shows "holds_entries br is (drop (unat (el_unpacked_offset el)) d) \<Longrightarrow>
    block_good (oe_crc32 (de_open (br_env br))) (snd (el_reader el)) \<Longrightarrow>
    block_content (snd (el_reader el)) = drop (unat (el_unpacked_offset el)) d \<Longrightarrow>
    unat (el_unpacked_offset el) \<le> length d \<Longrightarrow>
    \<exists>el'. decode_entries br first_sub (reading chunk h) is c el
      = (Inr (fst (hand_over h (entry_slices (br_archive br) is (drop (unat (el_unpacked_offset el)) d)) c)),
         snd (hand_over h (entry_slices (br_archive br) is (drop (unat (el_unpacked_offset el)) d)) c), el')"
proof (induction "is" arbitrary: c el)
  case (Cons i "is")
  define f where "f = files (br_archive br) ! i"
  define at where "at = unat (el_unpacked_offset el)"
  define n where "n = (if has_stream f then unat (entry_size f) else 0)"
  have slices: "entry_slices (br_archive br) (i # is) (drop at d)
      = (i, f, take n (drop at d)) # entry_slices (br_archive br) is (drop n (drop at d))"
    unfolding entry_slices.simps Let_def f_def [symmetric] n_def [symmetric] ..
  note whole = Cons.prems(1) [folded at_def, unfolded holds_entries_def slices]
  have f: "index_or_panic (files (br_archive br)) i = Inr f"
    using whole by (simp add: index_or_panic_def nth_option_def f_def)
  have rest: "holds_entries br is (drop n (drop at d))" using whole unfolding holds_entries_def by simp
  have this_ok: "slice_ok (oe_crc32 (de_open (br_env br))) (br_verify br) f (take n (drop at d))" if "has_stream f"
    using whole that by simp
  obtain go c' where h: "h c i f (take n (drop at d)) = (go, c')" by fastforce
  obtain el1 where e: "decode_entry br first_sub (reading chunk h) i f c el = (Inr go, c', el1)"
    "unat (el_unpacked_offset el1) = at + n" "block_good (oe_crc32 (de_open (br_env br))) (snd (el_reader el1))"
    "block_content (snd (el_reader el1)) = drop n (drop at d)" "at + n \<le> length d"
    using decode_entry_slice [OF assms Cons.prems(2,3) refl Cons.prems(4) n_def, folded at_def, OF this_ok, of first_sub h i c] h
    by auto
  have pos: "drop (unat (el_unpacked_offset el1)) d = drop n (drop at d)" using e(2) by (simp add: add.commute)
  obtain el' where rec: "decode_entries br first_sub (reading chunk h) is c' el1
      = (Inr (fst (hand_over h (entry_slices (br_archive br) is (drop n (drop at d))) c')),
         snd (hand_over h (entry_slices (br_archive br) is (drop n (drop at d))) c'), el')"
    using Cons.IH [of el1 c', unfolded pos, OF rest e(3,4)] e(2,5) by auto
  show ?case
    unfolding at_def [symmetric] slices using e(1) f h rec by (cases go) simp_all
qed simp

section \<open>Blocks\<close>

definition span :: "archive \<Rightarrow> nat \<Rightarrow> nat list" where
  "span a k = (let start = block_first_file_index (stream_map_of a) ! k
               in [start..<num_unpack_sub_streams (blocks a ! k) + start])"

text \<open>A block whose stream is ready to be read: it delivers \<open>d\<close>, which holds the block's entries.\<close>

definition block_ready :: "'s block_run \<Rightarrow> block_stream \<Rightarrow> bytes \<Rightarrow> bool" where
  "block_ready br s d \<longleftrightarrow>
     (let a = br_archive br; k = br_index br; crc32 = oe_crc32 (de_open (br_env br))
      in k < length (blocks a) \<and> k < length (block_first_file_index (stream_map_of a))
         \<and> k < length (block_first_sub_stream_index (stream_map_of a)) \<and> length d < 2 ^ 64
         \<and> block_good crc32 s \<and> block_content s = d \<and> holds_entries br (span a k) d \<and> folds_soundly br d
         \<and> (case get_unpack_size (blocks a ! k) of
              None \<Rightarrow> False
            | Some n \<Rightarrow> br_folding br \<and> block_has_crc (blocks a ! k) \<longrightarrow> ucast (crc32 (take (unat n) d)) = block_crc (blocks a ! k)))"

lemma index_or_panic_Inr: "i < length xs \<Longrightarrow> index_or_panic xs i = Inr (xs ! i)"
  by (simp add: index_or_panic_def nth_option_def)

lemma block_loop_visit:
  assumes "block_ready br s d" "0 < chunk"
  shows "\<exists>subs. block_loop br (reading chunk h) c s
    = (Inr (fst (hand_over h (entry_slices (br_archive br) (span (br_archive br) (br_index br)) d) c)),
       snd (hand_over h (entry_slices (br_archive br) (span (br_archive br) (br_index br)) d) c), subs)"
proof -
  define a where "a = br_archive br"
  define k where "k = br_index br"
  define el0 where "el0 = \<lparr>el_reader = (False, s), el_unpacked_offset = 0, el_sub_stream = 0, el_completed = []\<rparr>"
  define first_sub where "first_sub = block_first_sub_stream_index (stream_map_of a) ! k"
  note ready = assms(1) [unfolded block_ready_def Let_def a_def [symmetric] k_def [symmetric]]
  have idx: "k < length (blocks a)" "k < length (block_first_file_index (stream_map_of a))"
    "k < length (block_first_sub_stream_index (stream_map_of a))" "length d < 2 ^ 64" using ready by blast+
  have folds: "folds_soundly br d" using ready by blast
  obtain n where n: "get_unpack_size (blocks a ! k) = Some n"
    "br_folding br \<and> block_has_crc (blocks a ! k) \<longrightarrow> ucast (oe_crc32 (de_open (br_env br)) (take (unat n) d)) = block_crc (blocks a ! k)"
    using ready by (auto split: option.splits)
  define v where "v = hand_over h (entry_slices a (span a k) d) c"
  obtain el where el: "decode_entries br first_sub (reading chunk h) (span a k) c el0 = (Inr (fst v), snd v, el)"
    using decode_entries_visit [OF assms(2) folds idx(4), of "span a k" el0 first_sub h c] ready
    by (auto simp: el0_def v_def a_def)
  have "x = oe_crc32 (de_open (br_env br)) (take (unat n) d)"
    if "br_folding br" "range_crc br (snd (el_reader el)) 0 n = Some x" for x
    using folds that unfolding folds_soundly_def by (metis drop0 unsigned_0)
  then have "folded_block_ok br (blocks a ! k) el = Inr ()"
    using n by (auto simp: folded_block_ok_def unpack_size_or_panic_def split: option.split)
  moreover have "block_loop br (reading chunk h) c s
      = (case (Inr (fst v), snd v, el) of
             (Inr True, c', el) \<Rightarrow> (ebind (folded_block_ok br (blocks a ! k) el) (\<lambda>_. Inr True), c', el_completed el)
           | (r, c', el) \<Rightarrow> (r, c', el_completed el))"
    using el unfolding block_loop_def a_def [symmetric] k_def [symmetric] el0_def first_sub_def span_def Let_def
    by (simp add: index_or_panic_Inr [OF idx(1)] index_or_panic_Inr [OF idx(2)] index_or_panic_Inr [OF idx(3)])
  ultimately show ?thesis
    unfolding a_def [symmetric] k_def [symmetric] v_def [symmetric] by (cases "fst v") simp_all
qed

lemma open_block_run:
  assumes "open_block env bk = (Inr (br, s), pw, control)"
  shows "br_archive br = bk_archive bk" "br_index br = bk_block_index bk" "br_env br = env"
  using assms by (auto simp: open_block_def Let_def split: sum.splits prod.splits)

section \<open>All entries\<close>

fun ready_blocks :: "'s decode_env \<Rightarrow> archive_reader \<Rightarrow> nat list \<Rightarrow> bytes list \<Rightarrow> bool" where
  "ready_blocks env r [] ds = (ds = [])"
| "ready_blocks env r (k # ks) ds =
     (case open_block env (decoder_of_block r k) of
        (Inl e, pw, control) \<Rightarrow> False
      | (Inr (br, s), pw, control) \<Rightarrow>
          (case ds of [] \<Rightarrow> False
           | d # ds' \<Rightarrow> block_ready br s d \<and> ready_blocks env (leave_reader r pw control) ks ds'))"

lemma ready_blocks_ConsE:
  assumes "ready_blocks env r (k # ks) ds"
  obtains br s pw control d ds' where "open_block env (decoder_of_block r k) = (Inr (br, s), pw, control)"
    "ds = d # ds'" "block_ready br s d" "ready_blocks env (leave_reader r pw control) ks ds'"
proof (cases "open_block env (decoder_of_block r k)")
  case (fields result pw control)
  then obtain br s where "result = Inr (br, s)" using assms by (cases result) auto
  then show ?thesis using that [of br s pw control] assms fields by (cases ds) auto
qed

fun visit_blocks ::
  "('c \<Rightarrow> nat \<Rightarrow> archive_entry \<Rightarrow> bytes \<Rightarrow> bool \<times> 'c) \<Rightarrow> archive \<Rightarrow> nat list \<Rightarrow> bytes list \<Rightarrow> 'c \<Rightarrow> 'c" where
  "visit_blocks h a (k # ks) (d # ds) c = visit_blocks h a ks ds (snd (hand_over h (entry_slices a (span a k) d) c))"
| "visit_blocks h a ks ds c = c"

definition empty_entries :: "archive \<Rightarrow> (nat \<times> archive_entry \<times> bytes) list" where
  "empty_entries a = map (\<lambda>i. (i, files a ! i, []))
     (filter (\<lambda>i. file_block_index (stream_map_of a) ! i = None) [0..<length (files a)])"

lemma decode_blocks_visit:
  assumes "0 < chunk"
  shows "ready_blocks env (dp_reader dp) ks ds \<Longrightarrow>
    \<exists>dp'. decode_blocks env (reading chunk h) ks dp = (Inr (), dp')
      \<and> dp_captured dp' = visit_blocks h (ar_archive (dp_reader dp)) ks ds (dp_captured dp)"
proof (induction ks arbitrary: dp ds)
  case (Cons k ks)
  define r where "r = dp_reader dp"
  define a where "a = ar_archive r"
  obtain br s pw control d ds' where o: "open_block env (decoder_of_block r k) = (Inr (br, s), pw, control)"
    and d: "ds = d # ds'" "block_ready br s d" "ready_blocks env (leave_reader r pw control) ks ds'"
    by (rule ready_blocks_ConsE [OF Cons.prems [folded r_def]])
  have br: "br_archive br = a" "br_index br = k"
    using open_block_run [OF o] by (simp_all add: decoder_of_block_def a_def)
  define v where "v = hand_over h (entry_slices a (span a k) d) (dp_captured dp)"
  obtain subs where "block_loop br (reading chunk h) (dp_captured dp) s = (Inr (fst v), snd v, subs)"
    using block_loop_visit [OF d(2) assms, of h "dp_captured dp"] br by (auto simp: v_def)
  then have blk: "decode_block env (reading chunk h) k dp
      = (Inr (fst v), dp\<lparr>dp_reader := leave_reader r pw control, dp_captured := snd v, dp_sub_streams := dp_sub_streams dp @ subs\<rparr>)"
    using o by (simp add: decode_block_def block_for_each_entries_def r_def)
  define dp1 where "dp1 = dp\<lparr>dp_reader := leave_reader r pw control, dp_captured := snd v, dp_sub_streams := dp_sub_streams dp @ subs\<rparr>"
  have a1: "ar_archive (dp_reader dp1) = a" by (simp add: dp1_def leave_reader_def a_def)
  have "k < length (blocks a)" "get_unpack_size (blocks a ! k) \<noteq> None"
    using d(2) br by (auto simp: block_ready_def Let_def split: option.splits)
  then obtain b where complete: "complete_block k dp1 = Inr (dp1\<lparr>dp_blocks := dp_blocks dp1 @ [b]\<rparr>)"
    by (auto simp: complete_block_def a1 index_or_panic_Inr unpack_size_or_panic_def)
  define dp2 where "dp2 = (if fst v then dp1\<lparr>dp_blocks := dp_blocks dp1 @ [b]\<rparr> else dp1)"
  have step: "decode_blocks env (reading chunk h) (k # ks) dp = decode_blocks env (reading chunk h) ks dp2"
    using blk complete by (simp add: dp1_def [symmetric] dp2_def)
  have dp2: "dp_reader dp2 = leave_reader r pw control" "dp_captured dp2 = snd v" "ar_archive (leave_reader r pw control) = a"
    by (simp_all add: dp2_def dp1_def leave_reader_def a_def)
  show ?case
    using Cons.IH [of dp2 ds'] d(3) unfolding step dp2 by (simp add: d(1) v_def r_def [symmetric] a_def [symmetric])
qed simp

lemma decode_empty_entries_visit:
  assumes "length (file_block_index (stream_map_of a)) = length (files a)"
  shows "list_all (\<lambda>i. i < length (files a)) is \<Longrightarrow>
    decode_empty_entries a (reading chunk h) is c
      = (Inr (), snd (hand_over h (map (\<lambda>i. (i, files a ! i, []))
          (filter (\<lambda>i. file_block_index (stream_map_of a) ! i = None) is)) c))"
proof (induction "is" arbitrary: c)
  case (Cons i "is")
  have "perform empty_read (reading chunk h c i f) () = ((Inr (fst (h c i f [])), snd (h c i f [])), ())" for f
    by (simp add: reading_def read_fuel_def empty_read_def)
  then show ?case using Cons assms by (auto simp: index_or_panic_Inr split: option.split prod.split)
qed simp

lemma for_each_entries_visit:
  assumes "0 < chunk" "ready_blocks env r [0..<length (blocks (ar_archive r))] ds"
    and "length (file_block_index (stream_map_of (ar_archive r))) = length (files (ar_archive r))"
  shows "\<exists>dp. for_each_entries env r (reading chunk h) c = (Inr (), dp)
    \<and> dp_captured dp = snd (hand_over h (empty_entries (ar_archive r))
        (visit_blocks h (ar_archive r) [0..<length (blocks (ar_archive r))] ds c))"
proof -
  define dp0 where "dp0 = \<lparr>dp_reader = r, dp_captured = c, dp_sub_streams = [], dp_blocks = []\<rparr>"
  have "dp_reader dp0 = r" "dp_captured dp0 = c" by (simp_all add: dp0_def)
  then obtain dp1 where "decode_blocks env (reading chunk h) [0..<length (blocks (ar_archive r))] dp0 = (Inr (), dp1)"
    "dp_captured dp1 = visit_blocks h (ar_archive r) [0..<length (blocks (ar_archive r))] ds c"
    using decode_blocks_visit [OF assms(1), of env dp0 _ ds h] assms(2) by auto
  then show ?thesis
    using decode_empty_entries_visit [OF assms(3), of "[0..<length (files (ar_archive r))]" chunk h]
    unfolding for_each_entries_def dp0_def [symmetric] by (simp add: empty_entries_def list_all_iff)
qed

section \<open>Every entry once\<close>

definition collecting :: "(nat \<times> bytes) list \<Rightarrow> nat \<Rightarrow> archive_entry \<Rightarrow> bytes \<Rightarrow> bool \<times> (nat \<times> bytes) list" where
  "collecting c i f bs = (True, c @ [(i, bs)])"

definition numbered :: "(nat \<times> archive_entry \<times> bytes) list \<Rightarrow> (nat \<times> bytes) list" where
  "numbered xs = map (\<lambda>(i, f, bs). (i, bs)) xs"

text \<open>The entries a block is decoded for are the entries that the stream map places in it.\<close>

definition spans_are_blocks :: "archive \<Rightarrow> bool" where
  "spans_are_blocks a \<longleftrightarrow> length (file_block_index (stream_map_of a)) = length (files a)
     \<and> (\<forall>i<length (files a). \<forall>k. file_block_index (stream_map_of a) ! i = Some k \<longrightarrow> k < length (blocks a))
     \<and> (\<forall>k<length (blocks a). \<forall>i. i \<in> set (span a k) \<longleftrightarrow> i < length (files a) \<and> file_block_index (stream_map_of a) ! i = Some k)"

lemma visit_collecting: "hand_over collecting xs c = (True, c @ numbered xs)"
  by (induction xs arbitrary: c) (auto simp: collecting_def numbered_def)

lemma visit_blocks_collecting:
  "length ds = length ks \<Longrightarrow>
    visit_blocks collecting a ks ds c = c @ concat (map2 (\<lambda>k d. numbered (entry_slices a (span a k) d)) ks ds)"
  by (induction ks ds arbitrary: c rule: list_induct2') (auto simp: visit_collecting)

lemma ready_blocks_length: "ready_blocks env r ks ds \<Longrightarrow> length ds = length ks"
proof (induction ks arbitrary: r ds)
  case (Cons k ks)
  show ?case by (rule ready_blocks_ConsE [OF Cons.prems]) (use Cons.IH in auto)
qed simp

lemma numbered_slices: "map fst (numbered (entry_slices a is d)) = is"
  by (induction a "is" d rule: entry_slices.induct) (auto simp: numbered_def Let_def)

lemma numbered_empty_entries:
  "map fst (numbered (empty_entries a)) = filter (\<lambda>i. file_block_index (stream_map_of a) ! i = None) [0..<length (files a)]"
  by (simp add: numbered_def empty_entries_def comp_def)

lemma visited_indices:
  "length ds = length ks \<Longrightarrow>
    map fst (concat (map2 (\<lambda>k d. numbered (entry_slices a (span a k) d)) ks ds)) = concat (map (span a) ks)"
  by (induction ks ds rule: list_induct2') (auto simp: numbered_slices)

lemma distinct_spans:
  assumes "spans_are_blocks a" "n \<le> length (blocks a)"
  shows "distinct (concat (map (span a) [0..<n]))
    \<and> set (concat (map (span a) [0..<n])) = {i. i < length (files a) \<and> (\<exists>k<n. file_block_index (stream_map_of a) ! i = Some k)}"
  using assms(2)
proof (induction n)
  case (Suc n)
  have "set (span a n) = {i. i < length (files a) \<and> file_block_index (stream_map_of a) ! i = Some n}"
    using assms(1) Suc.prems by (auto simp: spans_are_blocks_def)
  moreover have "distinct (span a n)" by (simp add: span_def Let_def)
  ultimately show ?case using Suc by (auto simp: less_Suc_eq)
qed simp

lemma every_index_once:
  assumes "spans_are_blocks a"
  shows "mset (concat (map (span a) [0..<length (blocks a)])
      @ filter (\<lambda>i. file_block_index (stream_map_of a) ! i = None) [0..<length (files a)]) = mset [0..<length (files a)]"
proof -
  note d = distinct_spans [OF assms order_refl]
  have "k < length (blocks a)" if "i < length (files a)" "file_block_index (stream_map_of a) ! i = Some k" for i k
    using that assms by (auto simp: spans_are_blocks_def)
  then have "set (concat (map (span a) [0..<length (blocks a)])
      @ filter (\<lambda>i. file_block_index (stream_map_of a) ! i = None) [0..<length (files a)]) = set [0..<length (files a)]"
    using d by auto
  moreover have "distinct (concat (map (span a) [0..<length (blocks a)])
      @ filter (\<lambda>i. file_block_index (stream_map_of a) ! i = None) [0..<length (files a)])"
    using d by auto
  ultimately show ?thesis by (simp only: set_eq_iff_mset_eq_distinct distinct_upt)
qed

lemma pass_collects:
  assumes "0 < chunk" "ready_blocks env r [0..<length (blocks (ar_archive r))] ds" "spans_are_blocks (ar_archive r)"
  shows "\<exists>dp. for_each_entries env r (reading chunk collecting) [] = (Inr (), dp)
    \<and> mset (map fst (dp_captured dp)) = mset [0..<length (files (ar_archive r))]
    \<and> dp_captured dp = concat (map2 (\<lambda>k d. numbered (entry_slices (ar_archive r) (span (ar_archive r) k) d))
          [0..<length (blocks (ar_archive r))] ds) @ numbered (empty_entries (ar_archive r))"
proof -
  define a where "a = ar_archive r"
  have fb: "length (file_block_index (stream_map_of (ar_archive r))) = length (files (ar_archive r))"
    using assms(3) by (simp add: spans_are_blocks_def)
  have len: "length ds = length [0..<length (blocks a)]" using ready_blocks_length [OF assms(2)] by (simp add: a_def)
  obtain dp where dp: "for_each_entries env r (reading chunk collecting) [] = (Inr (), dp)"
    "dp_captured dp = concat (map2 (\<lambda>k d. numbered (entry_slices a (span a k) d)) [0..<length (blocks a)] ds) @ numbered (empty_entries a)"
    using for_each_entries_visit [OF assms(1,2) fb, of collecting "[]"] visit_blocks_collecting [OF len, of a "[]"]
    by (auto simp: visit_collecting a_def)
  have "map fst (dp_captured dp) = concat (map (span a) [0..<length (blocks a)])
      @ filter (\<lambda>i. file_block_index (stream_map_of a) ! i = None) [0..<length (files a)]"
    using visited_indices [OF len, of a] by (simp add: dp(2) numbered_empty_entries)
  then have "mset (map fst (dp_captured dp)) = mset [0..<length (files a)]"
    by (simp only: every_index_once [OF assms(3), folded a_def])
  then show ?thesis using dp unfolding a_def by blast
qed

section \<open>One file\<close>

lemma visit_target:
  "distinct (map fst xs) \<Longrightarrow>
    snd (hand_over (\<lambda>c i f bs. if i = target then (False, Some bs) else (True, c)) xs c)
      = (case find (\<lambda>x. fst x = target) xs of None \<Rightarrow> c | Some (i, f, bs) \<Rightarrow> Some bs)"
  by (induction xs arbitrary: c) auto

lemma fst_entry_slices: "map fst (entry_slices a is d) = is"
  by (induction a "is" d rule: entry_slices.induct) (auto simp: Let_def)

lemma find_in_distinct:
  "distinct (map fst xs) \<Longrightarrow> (i, f, bs) \<in> set xs \<Longrightarrow> find (\<lambda>x. fst x = i) xs = Some (i, f, bs)"
  by (induction xs) (auto simp: image_iff)

lemma read_file_solid_delivers:
  assumes "open_block env (decoder_of_block r k) = (Inr (br, s), pw, control)" "block_ready br s d" "0 < de_chunk env"
    and "(target, f, bs) \<in> set (entry_slices (ar_archive r) (span (ar_archive r) k) d)"
  shows "fst (read_file_solid env r k target) = Inr bs"
proof -
  define h where "h = (\<lambda>(c :: bytes option) i (f :: archive_entry) bs. if i = target then (False, Some bs) else (True, c))"
  define xs where "xs = entry_slices (ar_archive r) (span (ar_archive r) k) d"
  have br: "br_archive br = ar_archive r" "br_index br = k"
    using open_block_run [OF assms(1)] by (simp_all add: decoder_of_block_def)
  have "distinct (map fst xs)" by (simp add: xs_def fst_entry_slices span_def Let_def)
  then have "snd (hand_over h xs None) = Some bs"
    using assms(4) unfolding h_def by (simp add: visit_target find_in_distinct xs_def)
  moreover obtain subs where "block_loop br (keep_target (de_chunk env) target) None s = (Inr (fst (hand_over h xs None)), snd (hand_over h xs None), subs)"
    using block_loop_visit [OF assms(2,3), of h None] unfolding keep_target_reading br h_def [symmetric] xs_def by blast
  ultimately show ?thesis using assms(1) by (simp add: read_file_solid_def block_for_each_entries_def)
qed

lemma read_whole_delivers:
  assumes "block_good (oe_crc32 (de_open env)) s" "0 < de_chunk env" "0 < entry_size f"
    and "slice_ok (oe_crc32 (de_open env)) True f (take (unat (entry_size f)) (block_content s))"
  shows "read_whole env f s = Inr (take (unat (entry_size f)) (block_content s))"
proof -
  define m where "m = unat (entry_size f)"
  define d where "d = block_content s"
  note ok = assms(4) [folded m_def d_def]
  note bounds = slice_ok_bounds [OF ok [unfolded m_def] assms(3), folded m_def]
  define k where "k = (\<lambda>r :: io_error + bytes. case r of Inl e \<Rightarrow> Answer (Inl (from_io e)) [] | Inr bs \<Rightarrow> Answer (Inr True) bs)"
  have fuel: "m < read_fuel f" by (simp add: read_fuel_def m_def)
  show ?thesis
  proof (cases "entry_has_crc f")
    case False
    obtain b where b: "perform (bounded_read (block_stream_read env)) (to_end (de_chunk env) (read_fuel f) [] k) (bounded_new s m)
        = perform (bounded_read (block_stream_read env)) (k (Inr (take m d))) b"
      using byte_source.bounded_to_end [OF block_stream_source assms(1,2) bounds(2) [unfolded d_def] fuel] unfolding d_def by blast
    show ?thesis
      unfolding read_whole_def m_def [symmetric] d_def [symmetric] k_def [symmetric] Let_def if_not_P [OF False] b by (simp add: k_def)
  next
    case True
    have sum: "ucast (oe_crc32 (de_open env) (take m d)) = entry_crc f" using ok True by (simp add: slice_ok_def)
    obtain v where v: "perform (crc_verifying_read (oe_crc32 (de_open env)) (bounded_read (block_stream_read env)))
          (to_end (de_chunk env) (read_fuel f) [] k) (crc_verifying_new (bounded_new s m) m (entry_crc f))
        = perform (crc_verifying_read (oe_crc32 (de_open env)) (bounded_read (block_stream_read env))) (k (Inr (take m d))) v"
      using byte_source.verified_to_end [where digest = "oe_crc32 (de_open env)", OF block_stream_source assms(1,2) bounds(2) [unfolded d_def]
            fuel bounds(1,3) sum [unfolded d_def]]
      unfolding d_def by blast
    show ?thesis
      unfolding read_whole_def m_def [symmetric] d_def [symmetric] k_def [symmetric] Let_def if_P [OF True] v by (simp add: k_def)
  qed
qed

lemma read_whole_empty: "entry_size f = 0 \<Longrightarrow> read_whole env f s = Inr []"
  by (simp add: read_whole_def bounded_new_def crc_verifying_new_def read_fuel_def bounded_read_def crc_verifying_read_def Let_def)

section \<open>Properties\<close>

text \<open>
  C2: a consumer that reads entries to their end gets each entry's own bytes.  When every block opens
  and its output holds its entries with the sizes and checksums of the header, \<open>for_each_entries\<close>
  succeeds, and what a consumer has captured at the end is what it captures when it is shown the
  entries of each block in order, each with its own part of the block's output, until it stops, and
  then the entries that have no data.
\<close>

theorem entries_get_their_bytes:
  assumes "0 < chunk" "ready_blocks env r [0..<length (blocks (ar_archive r))] ds"
    and "length (file_block_index (stream_map_of (ar_archive r))) = length (files (ar_archive r))"
  shows "\<exists>dp. for_each_entries env r (reading chunk h) c = (Inr (), dp)
    \<and> dp_captured dp = snd (hand_over h (empty_entries (ar_archive r))
        (visit_blocks h (ar_archive r) [0..<length (blocks (ar_archive r))] ds c))"
  by (rule for_each_entries_visit [OF assms])

section \<open>A small archive\<close>

text \<open>One stored block with two files, and a directory.\<close>

definition sample_env :: "unit decode_env" where
  "sample_env = \<lparr>de_open = constant_env, de_bcj2 = (\<lambda>ss n. ([], None)), de_piece = (\<lambda>bs n. n), de_chunk = 32,
     de_pieces = (\<lambda>k s. []), de_fold = (\<lambda>ps offset len. None), de_show = (\<lambda>e. []), de_show_unsized = (\<lambda>u. [])\<rparr>"

definition stored_block :: block where
  "stored_block = default_block\<lparr>coders := [coder_for (''COPY'', ID_COPY) []], total_input_streams := 1,
     total_output_streams := 1, packed_streams := [0], block_unpack_sizes := [3], num_unpack_sub_streams := 2\<rparr>"

definition sample_archive :: archive where
  "sample_archive = default_archive\<lparr>pack_sizes := [3], blocks := [stored_block],
     files := [default_entry\<lparr>entry_name := [97], has_stream := True, entry_size := 2\<rparr>,
               default_entry\<lparr>entry_name := [98], has_stream := True, entry_size := 1, entry_has_crc := True, entry_crc := 1\<rparr>,
               default_entry\<lparr>entry_name := [99], is_directory := True\<rparr>],
     stream_map_of := \<lparr>block_first_pack_stream_index = [0], pack_stream_offsets = [0], block_first_sub_stream_index = [0],
       block_first_file_index = [0], file_block_index = [Some 0, Some 0, None]\<rparr>, is_solid := True\<rparr>"

definition sample_reader :: archive_reader where
  "sample_reader = \<lparr>ar_source = replicate 32 0 @ [7, 8, 9], ar_archive = sample_archive, ar_password = password_empty,
     ar_thread_count = 1, ar_adaptive_lzma2 = False, ar_verify_checksums = True, ar_lzma2 = control_new 1,
     ar_index = (\<lambda>name. if name = [98] then Some \<lparr>ie_block_index = Some 0, ie_file_index = 1\<rparr> else None),
     ar_limits = limits_default\<rparr>"

lemma copy_coder: "add_decoder sha pb bd n (coder_for (''COPY'', ID_COPY) []) pw opts = (Inr Dec_Copy, pw)"
  by (simp add: add_decoder_def coder_for_def method_by_id_found)

lemma stored_order: "ordered_coders stored_block = [(0, coder_for (''COPY'', ID_COPY) [])]"
  by (simp add: ordered_coders_def stored_block_def default_block_def ordered_coder_iter_def ordered_rest.simps
      find_bind_pair_for_out_stream_def find_bind_pair_for_in_stream_def nth_option_def)

lemma sample_boundaries: "file_boundaries sample_archive 0 = Inr [2]"
  by (simp add: file_boundaries_def sample_archive_def default_archive_def index_or_panic_def nth_option_def stored_block_def
      default_block_def default_entry_def Let_def)

lemma sample_stack:
  "build_decode_stack sample_env opts (replicate 32 0 @ [7, 8, 9]) sample_archive 0 pw = (Inr (Unverified ([7, 8, 9], None)), pw)"
proof -
  have "check_aes_coders l [coder_for (''COPY'', ID_COPY) []] = Inr ()" for l
    by (simp add: coder_for_def method_ids)
  moreover have "coders stored_block = [coder_for (''COPY'', ID_COPY) []]" by (simp add: stored_block_def)
  moreover have "index_or_panic (blocks sample_archive) 0 = Inr stored_block"
    by (simp add: sample_archive_def index_or_panic_def nth_option_def)
  moreover have "\<not> total_output_streams stored_block < total_input_streams stored_block"
    by (simp add: stored_block_def)
  moreover have "block_checksum sample_archive 0 stored_block = Inr None"
    by (simp add: block_checksum_def stored_block_def default_block_def)
  moreover have "block_offset_of sample_archive 0 = Inr 32"
    by (simp add: block_offset_of_def sample_archive_def default_archive_def SIGNATURE_HEADER_SIZE_def checked_add_def
        index_or_panic_def nth_option_def)
  moreover have "run_decoder e Dec_Copy st = st" for e :: "unit open_env" and st by (simp add: run_decoder_def)
  ultimately show ?thesis
    by (simp add: build_decode_stack_def stored_order copy_coder index_or_panic_def nth_option_def sample_archive_def)
       (simp add: coder_for_def)
qed

lemma sample_opens:
  "\<exists>br pw control. open_block sample_env (decoder_of_block sample_reader 0) = (Inr (br, Unverified ([7, 8, 9], None)), pw, control)
    \<and> br_archive br = sample_archive \<and> br_index br = 0 \<and> br_env br = sample_env \<and> \<not> br_folding br"
proof -
  have "\<not> list_ex (coder_engages opts stored_block) (ordered_coders stored_block)" for opts
    by (simp add: stored_order coder_engages_def coder_for_def)
  then have "after_building opts stored_block c = c" for opts c by (simp add: after_building_def)
  moreover have "control_progress (set_block_index 0 c) = None" for c by (simp add: control_progress_def set_block_index_def clear_folded_def)
  moreover have "index_or_panic (blocks sample_archive) 0 = Inr stored_block"
    by (simp add: sample_archive_def index_or_panic_def nth_option_def)
  ultimately show ?thesis
    by (simp add: open_block_def decoder_of_block_def sample_reader_def sample_boundaries sample_stack folding_checksums_def Let_def)
qed

lemma sample_ready:
  assumes "br_archive br = sample_archive" "br_index br = 0" "br_env br = sample_env" "\<not> br_folding br"
  shows "block_ready br (Unverified ([7, 8, 9], None)) [7, 8, 9]"
proof -
  have "span sample_archive 0 = [0, 1]"
    by (simp add: span_def sample_archive_def stored_block_def upt_rec)
  moreover have "get_unpack_size stored_block = Some 3"
    by (simp add: get_unpack_size_def stored_block_def default_block_def find_bind_pair_for_out_stream_def nth_option_def numeral_eq_Suc)
  ultimately show ?thesis
    using assms unfolding block_ready_def
    by (simp add: holds_entries_def folds_soundly_def sample_archive_def Let_def slice_ok_def sample_env_def constant_env_def default_entry_def)
qed

lemma sample_ready_blocks: "ready_blocks sample_env sample_reader [0..<length (blocks (ar_archive sample_reader))] [[7, 8, 9]]"
proof -
  have "[0..<length (blocks (ar_archive sample_reader))] = [0]" by (simp add: sample_reader_def sample_archive_def)
  then show ?thesis using sample_opens sample_ready by auto
qed

lemma sample_slices: "entry_slices sample_archive (span sample_archive 0) [7, 8, 9]
  = [(0, files sample_archive ! 0, [7, 8]), (1, files sample_archive ! 1, [9])]"
  by (simp add: span_def sample_archive_def stored_block_def upt_rec Let_def)

theorem entries_get_their_bytes_witness:
  "\<exists>dp. for_each_entries sample_env sample_reader (reading 4 (\<lambda>c i f bs. (bs \<noteq> [9], c @ bs))) [] = (Inr (), dp)
    \<and> dp_captured dp = [7, 8, 9]"
proof -
  have "length (file_block_index (stream_map_of (ar_archive sample_reader))) = length (files (ar_archive sample_reader))"
    by (simp add: sample_reader_def sample_archive_def)
  note entries_get_their_bytes [OF _ sample_ready_blocks this, of 4 "\<lambda>c i f bs. (bs \<noteq> [9], c @ bs)" "[]"]
  moreover have "empty_entries sample_archive = [(2, files sample_archive ! 2, [])]"
    by (simp add: empty_entries_def sample_archive_def upt_rec)
  moreover have "[0..<length (blocks sample_archive)] = [0]" by (simp add: sample_archive_def)
  moreover have "ar_archive sample_reader = sample_archive" by (simp add: sample_reader_def)
  ultimately show ?thesis by (simp add: sample_slices)
qed

end
