(* ===== verification/Stored_File.thy ===== *)
theory Stored_File
  imports Decode_Correct
begin

text \<open>
  A complete archive file, byte for byte, read by the parser of the model: one block that stores three
  bytes, one entry, no name.  It shows that the hypotheses of the theorems about opened archives hold
  for a real file.
\<close>

definition stored_header :: bytes where
  "stored_header = [1, 4, 6, 0, 1, 9, 3, 0, 7, 11, 1, 0, 1, 1, 0, 12, 3, 0, 8, 0, 0, 5, 1, 0, 0]"

definition stored_file :: bytes where
  "stored_file = SEVEN_Z_SIGNATURE @ [0, 4, 1, 0, 0, 0] @ [3, 0, 0, 0, 0, 0, 0, 0] @ [25, 0, 0, 0, 0, 0, 0, 0]
     @ [1, 0, 0, 0] @ [7, 8, 9] @ stored_header"

definition stored_bounds :: header_bounds where
  "stored_bounds = \<lparr>hb_bytes = 24, hb_limits = limits_default\<rparr>"

text \<open>What its parts parse to.\<close>

definition copy_block :: block where
  "copy_block = default_block\<lparr>coders := [\<lparr>encoder_method_id = [0], num_in_streams = 1, num_out_streams = 1, coder_properties = []\<rparr>],
     total_input_streams := 1, total_output_streams := 1, packed_streams := [0]\<rparr>"

definition sized_block :: block where
  "sized_block = copy_block\<lparr>block_unpack_sizes := [3], num_unpack_sub_streams := 1\<rparr>"

definition one_sub :: sub_streams_info where
  "one_sub = \<lparr>unpack_sizes = [3], has_crc = bitset_reserve_len_exact 1 bitset_new, crcs = [0]\<rparr>"

definition stored_archive :: archive where
  "stored_archive = default_archive\<lparr>pack_sizes := [3], blocks := [sized_block], sub_streams := Some one_sub,
     files := [default_entry\<lparr>has_stream := True, entry_size := 3, compressed_size := 3\<rparr>],
     stream_map_of := \<lparr>block_first_pack_stream_index = [0], pack_stream_offsets = [0], block_first_sub_stream_index = [0],
       block_first_file_index = [0], file_block_index = [Some 0]\<rparr>\<rparr>"

section \<open>The parser, part by part\<close>

lemma stored_bounds_admit:
  "bounds_count stored_bounds 1 Entries = Inr 1" "max_total_coders (hb_limits stored_bounds) = 1000000"
  by (simp_all add: stored_bounds_def bounds_count_def bounds_cap_def limits_default_def)

lemma stored_block_read: "read_block stored_bounds (1 # 1 # 0 # rest) = Inr (copy_block, rest)"
  apply (simp add: read_block_def pbind_def read_variable_small bounds_count_def bounds_cap_def limits_default_def
    numeral_eq_Suc [of "num.One"] read_coder_def read_exact_def bounds_size_def checked_add_def stored_bounds_def)
  apply (simp add: pbind_def Let_def read_packed_streams_def find_bind_pair_for_in_stream_def default_block_def
    validate_coder_graph_def coder_of_streams_def graph_walk.simps first_in_stream_def nth_or_panic_def copy_block_def)
  done

lemma copy_block_parts: "block_has_crc copy_block = False" "length (coders copy_block) = 1"
  by (simp_all add: copy_block_def default_block_def)

lemma sized_block_parts:
  "num_unpack_sub_streams sized_block = 1" "block_has_crc sized_block = False" "packed_streams sized_block = [0]"
  "total_input_streams sized_block = 1" "check_aes_coders limits (coders sized_block) = Inr ()"
  "unpack_size_or_panic sized_block = Inr 3"
  by (simp_all add: sized_block_def copy_block_def default_block_def method_ids unpack_size_or_panic_def get_unpack_size_def
      ordered_coders_def ordered_coder_iter_def ordered_rest.simps find_bind_pair_for_out_stream_def
      find_bind_pair_for_in_stream_def nth_option_def)

lemma one_sub_parts: "crcs one_sub = [0]" "unpack_sizes one_sub = [3]" "bitset_contains (has_crc one_sub) 0 = False"
  by (simp_all add: one_sub_def bitset_contains_def bitset_reserve_len_exact_def bitset_new_def Let_def)

lemma stored_pack_info:
  "read_pack_info stored_bounds default_archive (0 # 1 # 9 # 3 # 0 # rest) = Inr (default_archive\<lparr>pack_sizes := [3]\<rparr>, rest)"
  by (simp add: read_pack_info_def pbind_def read_variable_small stored_bounds_admit K_defs default_archive_def)

lemma stored_unpack_sizes: "read_unpack_sizes copy_block (3 # rest) = Inr (copy_block\<lparr>block_unpack_sizes := [3]\<rparr>, rest)"
  by (simp add: read_unpack_sizes_def Let_def copy_block_def default_block_def pbind_def read_variable_small)

lemma stored_unpack_info:
  "blocks a = [] \<Longrightarrow> read_unpack_info stored_bounds a (11 # 1 # 0 # 1 # 1 # 0 # 12 # 3 # 0 # rest)
     = Inr (a\<lparr>blocks := [copy_block\<lparr>block_unpack_sizes := [3]\<rparr>]\<rparr>, rest)"
  by (simp add: read_unpack_info_def pbind_def read_variable_small stored_block_read stored_bounds_admit K_defs Let_def
      saturating_add_def stored_unpack_sizes copy_block_parts)

lemma stored_sub_streams:
  assumes "blocks a = [copy_block\<lparr>block_unpack_sizes := [3]\<rparr>]"
  shows "read_sub_streams_info stored_bounds a (0 # rest) = Inr (a\<lparr>blocks := [sized_block], sub_streams := Some one_sub\<rparr>, rest)"
  using sized_block_parts unfolding sized_block_def
  by (simp add: read_sub_streams_info_def assms pbind_def K_defs Let_def checked_add_usize_def usize_max_def one_sub_def)

lemma stored_streams_info:
  "read_streams_info stored_bounds default_archive ([6, 0, 1, 9, 3, 0, 7, 11, 1, 0, 1, 1, 0, 12, 3, 0, 8, 0, 0] @ rest)
     = Inr (default_archive\<lparr>pack_sizes := [3], blocks := [sized_block], sub_streams := Some one_sub\<rparr>, rest)"
proof -
  have "blocks default_archive = []" by (simp add: default_archive_def)
  note stored_unpack_info [of "default_archive\<lparr>pack_sizes := [3]\<rparr>"] stored_sub_streams
  then show ?thesis by (simp add: read_streams_info_def pbind_def K_defs stored_pack_info \<open>blocks default_archive = []\<close>)
qed

lemma stored_map:
  "calculate_stream_map (default_archive\<lparr>pack_sizes := [3], blocks := [sized_block], sub_streams := Some one_sub,
     files := [default_entry\<lparr>has_stream := True, entry_size := 3\<rparr>]\<rparr>) = Inr stored_archive"
proof -
  have "seek_block [sized_block] 0 0 [0] = (0, [0])" by (simp add: seek_block.simps sized_block_parts)
  then show ?thesis
    by (simp add: calculate_stream_map_def default_archive_def sized_block_parts stored_archive_def checked_add_usize_def
        usize_max_def checked_add_def u64_max_def nth_or_panic_def nth_option_def default_entry_def)
qed

lemma stored_files_info:
  "read_files_info stored_bounds (default_archive\<lparr>pack_sizes := [3], blocks := [sized_block], sub_streams := Some one_sub\<rparr>)
     (1 # 0 # rest) = Inr (stored_archive, rest)"
proof -
  have "default_entry\<lparr>has_stream := True, is_directory := False, is_anti_item := False, entry_has_crc := False,
      entry_crc := 0, entry_size := 3\<rparr> = default_entry\<lparr>has_stream := True, entry_size := 3\<rparr>"
    by (simp add: default_entry_def)
  then show ?thesis
    by (simp add: read_files_info_def pbind_def read_variable_small stored_bounds_admit read_file_properties.simps K_defs
        one_sub_parts nth_option_def stored_map)
qed

section \<open>The file opens\<close>

lemma stored_header_start:
  "read_u8 stored_header = Inr (1, tl stored_header)" "length stored_header = 25"
  by (simp_all add: stored_header_def)

lemma stored_header_parsed:
  assumes "do_limits opts = limits_default"
  shows "parse_header opts stored_header = Inr stored_archive"
proof -
  have "read_header stored_bounds default_archive (tl stored_header) = Inr (stored_archive, [])"
    using stored_files_info stored_streams_info [of "[5, 1, 0, 0]"]
    by (simp add: read_header_def pbind_def K_defs stored_header_def)
  then show ?thesis using assms by (simp add: parse_header_def K_defs stored_bounds_def stored_header_start)
qed

lemma stored_archive_checked: "check_archive limits_default 60 stored_archive = Inr stored_archive"
  by (simp add: check_archive_def check_packed_def check_unpacked_def check_aes_work_def stored_archive_def default_archive_def
      limits_default_def checked_add_def SIGNATURE_HEADER_SIZE_def u64_max_def sized_block_parts default_entry_def
      check_aes_coders.simps)

lemma stored_file_parts:
  "length stored_file = 60" "read_at stored_file 0 6 = Inr SEVEN_Z_SIGNATURE" "read_at stored_file 6 2 = Inr [0, 4]"
  "read_at stored_file 8 4 = Inr [1, 0, 0, 0]"
  "read_at stored_file 12 20 = Inr ([3, 0, 0, 0, 0, 0, 0, 0] @ [25, 0, 0, 0, 0, 0, 0, 0] @ [1, 0, 0, 0])"
  "read_at stored_file 35 25 = Inr stored_header"
  by (simp_all add: read_at_def stored_file_def SEVEN_Z_SIGNATURE_def stored_header_def)

lemma stored_file_opens: "fst (read_with_limits constant_env stored_file password_empty limits_default) = Inr stored_archive"
proof -
  have "do_limits (header_options limits_default) = limits_default" by (simp add: header_options_def)
  note stored_header_parsed [OF this] this
  moreover have "max_end_header_bytes limits_default = u64_max" by (simp add: limits_default_def)
  ultimately show ?thesis
    using stored_archive_checked
    by (simp add: read_with_limits_def stored_file_parts stored_header_start constant_env_def K_defs
        read_start_header_def init_archive_def final_header_def checked_add_def SIGNATURE_HEADER_SIZE_def
        read_u64_def read_u32_def read_exact_def pbind_def u64_max_def)
qed

lemma stored_file_reader:
  "\<exists>r. with_limits sample_env stored_file password_empty limits_default = Inr r \<and> ar_archive r = stored_archive"
proof -
  have "memory_admitted sample_env limits_default stored_archive = Inr ()"
    by (simp add: memory_admitted_def limits_default_def)
  moreover have "fill_index (files stored_archive) (file_block_index (stream_map_of stored_archive)) 0 (\<lambda>_. None)
      = Inr [[] \<mapsto> \<lparr>ie_block_index = Some 0, ie_file_index = 0\<rparr>]"
    by (simp add: stored_archive_def default_entry_def index_or_panic_def nth_option_def)
  moreover have "de_open sample_env = constant_env" by (simp add: sample_env_def)
  ultimately show ?thesis
    using stored_file_opens by (auto simp add: with_limits_def new_reader_def split: prod.splits)
qed

end
