(* ===== verification/Decode_Safety.thy ===== *)
theory Decode_Safety
  imports Stored_File
begin

text \<open>
  What decoding guarantees for every archive that opens and every consumer: no index is out of range,
  and a sub-stream is only reported complete with the checksum of the header.
\<close>

section \<open>The map of an archive that opens\<close>

definition mapped :: "archive \<Rightarrow> bool" where
  "mapped a \<longleftrightarrow>
     length (pack_stream_offsets (stream_map_of a)) = length (pack_sizes a)
     \<and> length (block_first_pack_stream_index (stream_map_of a)) = length (blocks a)
     \<and> length (block_first_sub_stream_index (stream_map_of a)) = length (blocks a)
     \<and> length (block_first_file_index (stream_map_of a)) = length (blocks a)
     \<and> length (file_block_index (stream_map_of a)) = length (files a)
     \<and> (\<forall>i<length (files a). has_stream (files a ! i) \<longrightarrow>
          (\<exists>k<length (blocks a). file_block_index (stream_map_of a) ! i = Some k))
     \<and> (\<forall>k<length (blocks a).
          block_first_pack_stream_index (stream_map_of a) ! k + length (packed_streams (blocks a ! k)) \<le> length (pack_sizes a)
          \<and> block_first_sub_stream_index (stream_map_of a) ! k + num_unpack_sub_streams (blocks a ! k) \<le> subs_total (blocks a)
          \<and> block_first_file_index (stream_map_of a) ! k + num_unpack_sub_streams (blocks a ! k) \<le> length (files a))"

lemma subs_before_total: "k < length bs \<Longrightarrow> subs_before bs k + num_unpack_sub_streams (bs ! k) \<le> subs_total bs"
proof -
  assume k: "k < length bs"
  have "sum_list (map num_unpack_sub_streams bs)
      = sum_list (map num_unpack_sub_streams (take k bs)) + (num_unpack_sub_streams (bs ! k) + sum_list (map num_unpack_sub_streams (drop (Suc k) bs)))"
    by (subst id_take_nth_drop [OF k]) simp
  then show ?thesis by (simp add: subs_before_def subs_total_def)
qed

lemma calculate_stream_map_mapped:
  assumes "calculate_stream_map a = Inr a'"
  shows "mapped a'"
proof (rule calculate_stream_map_parts [OF assms])
  fix first_pack first_sub offsets first_file file_block files'
  assume p: "first_pack_streams (length (pack_sizes a)) (blocks a) 0 = Inr first_pack"
    "first_sub_streams (blocks a) 0 = Inr first_sub" "stream_offsets (pack_sizes a) 0 = Inr offsets"
    "assign_blocks (blocks a) (pack_sizes a) first_pack (files a) 0 0 0 (replicate (length (blocks a)) 0)
      = Inr (first_file, file_block, files')"
    "check_file_spans (length files') (blocks a) first_file = Inr ()"
    and a': "a' = a\<lparr>files := files', stream_map_of := \<lparr>block_first_pack_stream_index = first_pack, pack_stream_offsets = offsets,
         block_first_sub_stream_index = first_sub, block_first_file_index = first_file, file_block_index = file_block\<rparr>\<rparr>"
  note placed = assign_blocks_Inr [OF p(4) start_in_file_loop]
  have same: "map (\<lambda>f. f\<lparr>compressed_size := 0\<rparr>) files' = map (\<lambda>f. f\<lparr>compressed_size := 0\<rparr>) (files a)"
    using placed by (simp add: files_placed_def)
  have "length file_block = length (files a)" "length first_file = length (blocks a)"
    using placed by (simp_all add: files_placed_def)
  moreover have len: "length files' = length (files a)" using same by (metis length_map)
  moreover have "\<exists>k<length (blocks a). file_block ! i = Some k" if "i < length (files a)" "has_stream (files' ! i)" for i
  proof -
    have "(files' ! i)\<lparr>compressed_size := 0\<rparr> = (files a ! i)\<lparr>compressed_size := 0\<rparr>"
      using arg_cong [OF same, of "\<lambda>xs. xs ! i"] that(1) len by simp
    then have "has_stream ((files' ! i)\<lparr>compressed_size := 0\<rparr>) = has_stream ((files a ! i)\<lparr>compressed_size := 0\<rparr>)"
      by (simp only:)
    then have "has_stream (files a ! i)" using that(2) by simp
    then show ?thesis using placed that(1) by (auto simp: files_placed_def file_placed_def)
  qed
  moreover have "length first_pack = length (blocks a)"
    "\<forall>k<length (blocks a). first_pack ! k + length (packed_streams (blocks a ! k)) \<le> length (pack_sizes a)"
    using first_pack_streams_Inr [OF p(1)] by blast+
  ultimately show "mapped a'"
    using first_sub_streams_Inr [OF p(2)] stream_offsets_Inr [OF p(3)] check_file_spans_Inr [OF p(5)]
      subs_before_total [of _ "blocks a"]
    by (simp add: mapped_def a')
qed

lemma read_header_mapped: "read_header hb a inp = Inr (a', r) \<Longrightarrow> mapped a'"
  unfolding read_header_def read_files_info_def
  by (auto dest!: calculate_stream_map_mapped split: if_splits)

lemma init_archive_mapped:
  assumes "init_archive env file sh pw v opts = (Inr a, pw')"
  shows "mapped a"
proof -
  obtain buf parsed where p: "parse_header opts buf = Inr parsed" and c: "check_archive (do_limits opts) (length file) parsed = Inr a"
    using assms by (auto simp: init_archive_def split: if_splits option.splits sum.splits prod.splits)
  have "mapped parsed" using p read_header_mapped by (auto simp: parse_header_def split: sum.splits if_splits)
  then show ?thesis by (simp add: check_archive_Inr(1) [OF c] mapped_def)
qed

lemma read_with_limits_mapped: "read_with_limits env file pw limits = (Inr a, pw') \<Longrightarrow> mapped a"
proof -
  have search: "search_end_header env file m pw opts n = (Inr a, pw') \<Longrightarrow> mapped a" for m pw opts n
    by (induction n arbitrary: pw) (auto simp: Let_def split: if_splits sum.splits prod.splits intro: init_archive_mapped)
  then show "read_with_limits env file pw limits = (Inr a, pw') \<Longrightarrow> mapped a"
    by (auto simp: read_with_limits_def try_to_locale_end_header_def Let_def
      dest!: init_archive_mapped split: sum.splits if_splits)
qed

section \<open>Decode stacks do not panic\<close>

lemma index_or_panic_no_panic [simp]: "index_or_panic xs i = Inl e \<longleftrightarrow> length xs \<le> i \<and> e = Panic"
  by (auto simp: index_or_panic_def nth_option_def)

lemma chain_stack_no_panic:
  assumes "builders_sound (oe_builders (de_open env))"
  shows "fst (chain_stack env opts b cs s pw) \<noteq> Inl Panic"
proof (induction cs arbitrary: s pw)
  case (Cons ic cs)
  obtain i c where ic: "ic = (i, c)" by (cases ic)
  show ?case
    using add_decoder_no_panic [OF assms, of "oe_sha (de_open env)" "oe_ppmd (de_open env)" "unat (get_unpack_size_at_index b i)" c pw opts] Cons.IH
    by (auto simp: ic split: sum.splits prod.splits)
qed simp

lemma packed_position_bound: "packed_position b i = Some k \<Longrightarrow> k < length (packed_streams b)"
  by (auto simp: packed_position_def find_Some_iff)

declare get_in_stream.simps [simp del] get_in_stream2.simps [simp del]

lemma get_in_stream_no_panic:
  fixes env :: "'s decode_env"
  assumes "builders_sound (oe_builders (de_open env))"
  shows "length srcs = length (packed_streams b) \<Longrightarrow> fst (get_in_stream env opts b srcs starts i depth pw) \<noteq> Inl Panic"
    and "length srcs = length (packed_streams b) \<Longrightarrow> fst (get_in_stream2 env opts b srcs starts j depth pw) \<noteq> Inl Panic"
    and "length srcs = length (packed_streams b) \<Longrightarrow> fst (get_in_streams env opts b srcs starts is depth pw) \<noteq> Inl Panic"
  using assms
proof (induction env opts b srcs starts i depth pw and env opts b srcs starts j depth pw and env opts b srcs starts "is" depth pw
    rule: get_in_stream_get_in_stream2_get_in_streams.induct)
  case (1 env opts b srcs starts i depth pw)
  then show ?case
    by (subst get_in_stream.simps) (auto dest: packed_position_bound split: option.split)
next
  case (2 env opts b srcs starts j depth pw)
  note add = add_decoder_no_panic [OF 2(4), of "oe_sha (de_open env)" "oe_ppmd (de_open env)"]
  have built: "add_decoder (oe_sha (de_open env)) (oe_ppmd (de_open env)) (oe_builders (de_open env)) n c pw opts \<noteq> (Inl Panic, pw')"
    for n c pw pw' by (metis add fst_conv)
  show ?case
    using 2 built
    by (subst get_in_stream2.simps, auto split: option.split sum.split prod.split) blast+
next
  case (3 env opts b srcs starts depth pw)
  then show ?case by simp
next
  case (4 env opts b srcs starts i "is" depth pw)
  then show ?case by (auto split: sum.splits prod.splits)
qed

lemma pack_sources_no_panic:
  assumes "length (pack_stream_offsets (stream_map_of a)) = length (pack_sizes a)"
  shows "list_all (\<lambda>k. k < length (pack_sizes a)) ks \<Longrightarrow> pack_sources file a pos ks \<noteq> Inl Panic"
  using assms by (induction ks) (auto simp: ebind_def split: sum.splits option.splits)

lemma pack_sources_length: "pack_sources file a pos ks = Inr srcs \<Longrightarrow> length srcs = length ks"
  by (induction ks arbitrary: srcs) (auto split: option.splits)

lemma unpack_size_no_panic: "block_sized b \<Longrightarrow> unpack_size_or_panic b \<noteq> Inl Panic"
  by (auto simp: unpack_size_or_panic_def dest: block_sized_unpack_size split: option.splits)

text \<open>An archive that decoding can work on.\<close>

definition decodable :: "archive \<Rightarrow> bool" where
  "decodable a \<longleftrightarrow> mapped a \<and> sub_streams_ok a
     \<and> (\<forall>b\<in>set (blocks a). block_sized b \<and> packed_streams b \<noteq> [])"

lemma decodable_block:
  assumes "decodable a" "k < length (blocks a)" "first = block_first_pack_stream_index (stream_map_of a) ! k"
  shows "index_or_panic (block_first_pack_stream_index (stream_map_of a)) k = Inr first"
    "first + length (packed_streams (blocks a ! k)) \<le> length (pack_sizes a)" "first < length (pack_sizes a)"
    "length (pack_stream_offsets (stream_map_of a)) = length (pack_sizes a)" "block_sized (blocks a ! k)"
proof -
  have m: "mapped a" "packed_streams (blocks a ! k) \<noteq> []" "block_sized (blocks a ! k)"
    using assms(1,2) by (auto simp: decodable_def)
  then show "index_or_panic (block_first_pack_stream_index (stream_map_of a)) k = Inr first"
    "first + length (packed_streams (blocks a ! k)) \<le> length (pack_sizes a)"
    "length (pack_stream_offsets (stream_map_of a)) = length (pack_sizes a)" "block_sized (blocks a ! k)"
    using assms(2,3) by (auto simp: mapped_def index_or_panic_Inr)
  moreover have "0 < length (packed_streams (blocks a ! k))" using m(2) by simp
  ultimately show "first < length (pack_sizes a)" by linarith
qed

lemma check_aes_coders_no_panic: "check_aes_coders limits cs \<noteq> Inl Panic"
  by (induction cs) (auto simp: Let_def split: list.splits)

lemma block_checksum_no_panic:
  assumes "decodable a" "k < length (blocks a)"
  shows "block_checksum a k (blocks a ! k) \<noteq> Inl Panic"
proof (cases "block_has_crc (blocks a ! k) \<or> num_unpack_sub_streams (blocks a ! k) \<noteq> 1")
  case False
  have "block_first_sub_stream_index (stream_map_of a) ! k < subs_total (blocks a)"
    "k < length (block_first_sub_stream_index (stream_map_of a))"
    using assms False by (auto simp: decodable_def mapped_def)
  moreover have "length (crcs info) = subs_total (blocks a)" if "sub_streams a = Some info" for info
    using assms(1) that by (simp add: decodable_def sub_streams_ok_def)
  ultimately show ?thesis
    by (auto simp: block_checksum_def ebind_def split: option.splits sum.splits) (auto simp: index_or_panic_def nth_option_def)
qed (auto simp: block_checksum_def)

lemma block_offset_no_panic:
  "k < length (pack_stream_offsets (stream_map_of a)) \<Longrightarrow> block_offset_of a k \<noteq> Inl Panic"
  by (auto simp: block_offset_of_def ebind_def split: option.splits sum.splits)

lemma build_decode_stack2_no_panic:
  assumes "builders_sound (oe_builders (de_open env))" "decodable a" "k < length (blocks a)" "b = blocks a ! k"
  shows "fst (build_decode_stack2 env opts file a k b pw) \<noteq> Inl Panic"
proof -
  define first where "first = block_first_pack_stream_index (stream_map_of a) ! k"
  note m = decodable_block [OF assms(2,3) first_def, folded assms(4)]
  define ks where "ks = [first..<first + length (packed_streams b)]"
  have sources: "pack_sources file a pos ks \<noteq> Inl Panic" for pos
    by (rule pack_sources_no_panic) (use m(2,4) in \<open>auto simp: ks_def list_all_iff\<close>)
  have main: "main_coder_index b \<noteq> Inl Panic" by (simp add: main_coder_index_def)
  have graph: "fst (get_in_stream2 env opts b srcs starts j depth pw) \<noteq> Inl Panic"
    if "pack_sources file a pos ks = Inr srcs" for srcs starts j depth pw pos
    using get_in_stream_no_panic(2) [OF assms(1)] pack_sources_length [OF that] by (simp add: ks_def)
  have graph': "get_in_stream2 env opts b srcs starts j depth pw \<noteq> (Inl Panic, pw')"
    if "pack_sources file a pos ks = Inr srcs" for srcs starts j depth pw pos pw'
    using graph [OF that] by (metis fst_conv)
  have "\<not> length (pack_stream_offsets (stream_map_of a)) < first + length (packed_streams b)" using m(2,4) by simp
  then show ?thesis
    using sources main graph' unpack_size_no_panic [OF m(5)] m(3)
    unfolding build_decode_stack2_def m(1) ebind_simps ks_def [symmetric]
    by (auto simp: ebind_def split: sum.splits option.splits prod.splits)
qed

lemma build_decode_stack_no_panic:
  assumes "builders_sound (oe_builders (de_open env))" "decodable a" "k < length (blocks a)"
  shows "fst (build_decode_stack env opts file a k pw) \<noteq> Inl Panic"
proof -
  define first where "first = block_first_pack_stream_index (stream_map_of a) ! k"
  define b where "b = blocks a ! k"
  note m = decodable_block [OF assms(2,3) first_def, folded b_def]
  have b: "index_or_panic (blocks a) k = Inr b" using assms(3) by (simp add: index_or_panic_Inr b_def)
  have chain: "chain_stack env opts b cs s pw \<noteq> (Inl Panic, pw')" for cs s pw pw'
    using chain_stack_no_panic [OF assms(1), of opts b cs s pw] by (metis fst_conv)
  have offset: "block_offset_of a first \<noteq> Inl Panic" using block_offset_no_panic m(3,4) by simp
  show ?thesis
    using check_aes_coders_no_panic [of "do_limits opts" "coders b"] build_decode_stack2_no_panic [OF assms b_def] chain offset
      block_checksum_no_panic [OF assms(2,3), folded b_def] unpack_size_no_panic [OF m(5)] m(3)
    unfolding build_decode_stack_def b m(1) ebind_simps
    by (auto simp: ebind_def split: sum.splits option.splits prod.splits)
qed

section \<open>Passes do not panic\<close>

text \<open>A callback that answers whatever it reads, and does not panic itself.\<close>

primrec calm :: "'c action \<Rightarrow> bool" where
  "calm (Answer r c) \<longleftrightarrow> r \<noteq> Inl Panic"
| "calm (Ask n k) \<longleftrightarrow> (\<forall>x. calm (k x))"

lemma perform_calm: "calm act \<Longrightarrow> fst (fst (perform rd act s)) \<noteq> Inl Panic"
  by (induction act arbitrary: s) (auto split: prod.splits)

lemma perform_calmD: "perform rd act s = ((Inl Panic, c), s') \<Longrightarrow> \<not> calm act"
  using perform_calm [of act rd s] by auto

lemma to_end_calm: "(\<And>r. calm (k r)) \<Longrightarrow> calm (to_end chunk fuel acc k)"
  by (induction fuel arbitrary: acc) (auto split: sum.split)

lemma from_io_no_panic: "from_io e \<noteq> Panic"
  by (simp add: from_io_def io_msg_def)

lemma keep_target_calm: "calm (keep_target chunk target c i f)"
  unfolding keep_target_def by (rule to_end_calm) (auto simp: from_io_no_panic split: sum.split)

lemma locate_no_panic: "in_block show e i off = Panic \<longleftrightarrow> False" if "e \<noteq> Panic"
  using that by (cases e) simp_all

lemma entry_error_no_panic: "e \<noteq> Panic \<Longrightarrow> entry_error br faulted e \<noteq> Panic"
proof -
  assume "e \<noteq> Panic"
  then have "maybe_bad_password e encrypted \<noteq> Panic" for encrypted by (cases e) simp_all
  then show ?thesis using locate_no_panic by (simp add: entry_error_def locate_def Let_def)
qed

lemma entry_checksum_no_panic: "entry_checksum br f el report \<noteq> Inl Panic"
  by (auto simp: entry_checksum_def locate_def split: option.split)

lemma entry_read_calm: "calm act \<Longrightarrow> fst (fst (entry_read env v f act rd)) \<noteq> Inl Panic"
  by (auto simp: entry_read_def Let_def split: prod.split dest: perform_calmD)

lemma decode_entry_calm:
  assumes "calm (each c i f)"
  shows "fst (decode_entry br first_sub each i f c el) \<noteq> Inl Panic"
proof (cases "has_stream f \<and> 0 < entry_size f")
  case True
  obtain answer c' rd report where r: "entry_read (br_env br) (br_verify br \<and> \<not> br_folding br) f (each c i f) (el_reader el)
      = ((answer, c'), rd, report)" by (metis surj_pair)
  have "answer \<noteq> Inl Panic" using entry_read_calm [OF assms] r by (metis fst_conv)
  then show ?thesis
    using True r by (auto simp: decode_entry_def Let_def entry_error_no_panic entry_checksum_no_panic split: sum.split)
next
  case False
  then show ?thesis
    using perform_calm [OF assms, of empty_read "()"] by (auto simp: decode_entry_def split: prod.split)
qed

lemma decode_entries_calm:
  assumes "\<forall>c i f. calm (each c i f)"
  shows "list_all (\<lambda>i. i < length (files (br_archive br))) is \<Longrightarrow> fst (decode_entries br first_sub each is c el) \<noteq> Inl Panic"
proof (induction "is" arbitrary: c el)
  case (Cons i "is")
  have "fst (decode_entry br first_sub each i (files (br_archive br) ! i) c el) \<noteq> Inl Panic"
    by (rule decode_entry_calm) (use assms in blast)
  then show ?case
    using Cons by (auto simp: index_or_panic_Inr split: prod.split sum.split)
qed simp

lemma block_loop_calm:
  assumes "\<forall>c i f. calm (each c i f)" "decodable (br_archive br)" "br_index br < length (blocks (br_archive br))"
  shows "fst (block_loop br each c s) \<noteq> Inl Panic"
proof -
  define a where "a = br_archive br"
  define k where "k = br_index br"
  define start where "start = block_first_file_index (stream_map_of a) ! k"
  define first_sub where "first_sub = block_first_sub_stream_index (stream_map_of a) ! k"
  define b where "b = blocks a ! k"
  have idx: "index_or_panic (block_first_file_index (stream_map_of a)) k = Inr start"
    "index_or_panic (blocks a) k = Inr b"
    "index_or_panic (block_first_sub_stream_index (stream_map_of a)) k = Inr first_sub"
    using assms(2,3) by (auto simp: decodable_def mapped_def index_or_panic_Inr a_def k_def start_def first_sub_def b_def)
  have "start + num_unpack_sub_streams b \<le> length (files a)" "block_sized b"
    using assms(2,3) by (auto simp: decodable_def mapped_def a_def k_def start_def b_def)
  then have "list_all (\<lambda>i. i < length (files a)) [start..<num_unpack_sub_streams b + start]" by (simp add: list_all_iff)
  from decode_entries_calm [OF assms(1) this [unfolded a_def]]
  have "fst (decode_entries br first_sub each [start..<num_unpack_sub_streams b + start] c el) \<noteq> Inl Panic" for el .
  then have "(Inl Panic, c', el') \<noteq> decode_entries br first_sub each [start..<num_unpack_sub_streams b + start] c el" for c' el' el
    by (metis fst_conv)
  note entries = this [symmetric]
  have "folded_block_ok br b el \<noteq> Inl Panic" for el
    using unpack_size_no_panic [OF \<open>block_sized b\<close>]
    by (auto simp: folded_block_ok_def ebind_def locate_def split: sum.split option.split)
  then have "ebind (folded_block_ok br b el) (\<lambda>_. Inr True) \<noteq> (Inl Panic :: bool result)" for el
    by (auto simp: ebind_def split: sum.split)
  then show ?thesis
    using entries unfolding block_loop_def a_def [symmetric] k_def [symmetric] idx ebind_simps
    by (auto split: prod.split sum.split bool.split)
qed

lemma file_boundaries_no_panic:
  "decodable a \<Longrightarrow> k < length (blocks a) \<Longrightarrow> file_boundaries a k \<noteq> Inl Panic"
  by (auto simp: file_boundaries_def ebind_def decodable_def mapped_def Let_def split: sum.splits prod.splits)

lemma open_block_no_panic:
  assumes "builders_sound (oe_builders (de_open env))" "decodable (bk_archive bk)" "bk_block_index bk < length (blocks (bk_archive bk))"
  shows "fst (open_block env bk) \<noteq> Inl Panic"
proof -
  have "build_decode_stack env opts source (bk_archive bk) (bk_block_index bk) pw \<noteq> (Inl Panic, pw')" for opts source pw pw'
    using build_decode_stack_no_panic [OF assms] by (metis fst_conv)
  moreover have "file_boundaries (bk_archive bk) (bk_block_index bk) \<noteq> Inl Panic" by (rule file_boundaries_no_panic [OF assms(2,3)])
  ultimately show ?thesis
    using assms(3) unfolding open_block_def Let_def
    by (auto simp: ebind_def locate_no_panic split: sum.splits prod.splits)
qed

lemma block_for_each_entries_calm:
  assumes "builders_sound (oe_builders (de_open env))" "decodable (bk_archive bk)" "bk_block_index bk < length (blocks (bk_archive bk))"
    and "\<forall>c i f. calm (each c i f)"
  shows "fst (fst (block_for_each_entries env bk each c)) \<noteq> Inl Panic"
proof (cases "open_block env bk")
  case (fields opened pw control)
  show ?thesis
  proof (cases opened)
    case (Inl e)
    then show ?thesis using fields open_block_no_panic [OF assms(1-3)] by (simp add: block_for_each_entries_def)
  next
    case (Inr x)
    obtain br s where x: "x = (br, s)" by (cases x)
    note o = open_block_run [OF fields [unfolded Inr x]]
    have "fst (block_loop br each c s) \<noteq> Inl Panic"
      by (rule block_loop_calm [OF assms(4)]) (simp_all add: o assms(2,3))
    then show ?thesis using fields Inr x by (simp add: block_for_each_entries_def)
  qed
qed

lemma decode_blocks_calm:
  assumes "builders_sound (oe_builders (de_open env))" "\<forall>c i f. calm (each c i f)" "decodable a"
  shows "list_all (\<lambda>k. k < length (blocks a)) ks \<Longrightarrow> ar_archive (dp_reader dp) = a \<Longrightarrow>
    fst (decode_blocks env each ks dp) \<noteq> Inl Panic"
proof (induction ks arbitrary: dp)
  case (Cons k ks)
  have k: "k < length (blocks a)" using Cons.prems(1) by simp
  obtain r dp' where b: "decode_block env each k dp = (r, dp')" by (cases "decode_block env each k dp")
  have "fst (decode_block env each k dp) \<noteq> Inl Panic"
    using block_for_each_entries_calm [OF assms(1) _ _ assms(2), of "decoder_of_block (dp_reader dp) k" "dp_captured dp"] assms(3) Cons.prems(2) k
    by (auto simp: decode_block_def decoder_of_block_def split: prod.split)
  then have r: "r \<noteq> Inl Panic" by (simp add: b)
  have a': "ar_archive (dp_reader dp') = a"
    using b Cons.prems(2) by (auto simp: decode_block_def leave_reader_def split: prod.splits)
  have "block_sized (blocks a ! k)" using assms(3) k by (simp add: decodable_def)
  then obtain n where "get_unpack_size (blocks a ! k) = Some n" using block_sized_unpack_size by blast
  then obtain bs where c: "complete_block k dp' = Inr (dp'\<lparr>dp_blocks := bs\<rparr>)"
    using a' k by (auto simp: complete_block_def index_or_panic_Inr unpack_size_or_panic_def)
  have "fst (decode_blocks env each ks dp') \<noteq> Inl Panic" "fst (decode_blocks env each ks (dp'\<lparr>dp_blocks := bs\<rparr>)) \<noteq> Inl Panic"
    using Cons.IH Cons.prems(1) a' by simp_all
  then show ?case using b r c by (cases r) auto
qed simp

lemma decode_empty_entries_calm:
  assumes "\<forall>c i f. calm (each c i f)" "mapped a"
  shows "list_all (\<lambda>i. i < length (files a)) is \<Longrightarrow> fst (decode_empty_entries a each is c) \<noteq> Inl Panic"
proof (induction "is" arbitrary: c)
  case (Cons i "is")
  have "calm (each c i (files a ! i))" using assms(1) by blast
  then show ?case
    using Cons assms(2)
    by (auto simp: index_or_panic_Inr mapped_def split: option.split prod.split sum.split dest: perform_calmD)
qed simp

lemma fill_index_entries:
  "fill_index fs fb i m = Inr m' \<Longrightarrow> m' name = Some ie \<Longrightarrow>
    m name = Some ie \<or> (\<exists>j<length fs. i + j < length fb \<and> ie = \<lparr>ie_block_index = fb ! (i + j), ie_file_index = i + j\<rparr>)"
proof (induction fs arbitrary: i m)
  case (Cons f fs)
  then obtain b where b: "index_or_panic fb i = Inr b"
    "fill_index fs fb (i + 1) (m(entry_name f \<mapsto> \<lparr>ie_block_index = b, ie_file_index = i\<rparr>)) = Inr m'" by auto
  have "i < length fb" "b = fb ! i" using b(1) by (auto simp: index_or_panic_def nth_option_def split: if_splits)
  moreover from Cons.IH [OF b(2) Cons.prems(2)] have
    "(m(entry_name f \<mapsto> \<lparr>ie_block_index = b, ie_file_index = i\<rparr>)) name = Some ie
     \<or> (\<exists>j<length fs. i + 1 + j < length fb \<and> ie = \<lparr>ie_block_index = fb ! (i + 1 + j), ie_file_index = i + 1 + j\<rparr>)" .
  ultimately show ?case by (auto split: if_splits intro: exI [of _ 0] exI [of _ "Suc _"])
qed simp

lemma fill_index_no_panic: "i + length fs \<le> length fb \<Longrightarrow> fill_index fs fb i m \<noteq> Inl e"
  by (induction fs arbitrary: i m) (auto simp: index_or_panic_Inr)

lemma read_whole_no_panic: "read_whole env f s \<noteq> Inl Panic"
proof -
  define act where "act = to_end (de_chunk env) (read_fuel f) []
    (\<lambda>r :: io_error + bytes. case r of Inl e \<Rightarrow> Answer (Inl (from_io e)) [] | Inr bs \<Rightarrow> Answer (Inr True) bs)"
  have "calm act" unfolding act_def by (rule to_end_calm) (auto simp: from_io_no_panic split: sum.split)
  then show ?thesis
    unfolding read_whole_def act_def [symmetric] Let_def
    by (auto simp: prod_eq_iff split: prod.splits sum.splits if_splits dest: perform_calm)
qed

lemma read_file_in_block_no_panic:
  assumes "builders_sound (oe_builders (de_open env))" "decodable (ar_archive r)" "k < length (blocks (ar_archive r))"
  shows "fst (read_file_in_block env r k f) \<noteq> Inl Panic"
proof -
  define a where "a = ar_archive r"
  define first where "first = block_first_pack_stream_index (stream_map_of a) ! k"
  note m = decodable_block [OF assms(2,3) first_def [unfolded a_def], folded a_def]
  have "build_decode_stack env opts source a k pw \<noteq> (Inl Panic, pw')" for opts source pw pw'
    using build_decode_stack_no_panic [OF assms, folded a_def] by (metis fst_conv)
  moreover have "block_offset_of a first \<noteq> Inl Panic" by (rule block_offset_no_panic) (simp add: m)
  ultimately show ?thesis
    unfolding read_file_in_block_def Let_def a_def [symmetric]
    using assms(3) by (auto simp: m index_or_panic_Inr read_whole_no_panic a_def [symmetric] ebind_def split: sum.split prod.split)
qed

lemma read_file_no_panic:
  assumes "builders_sound (oe_builders (de_open env))" "decodable (ar_archive r)"
    and "fill_index (files (ar_archive r)) (file_block_index (stream_map_of (ar_archive r))) 0 (\<lambda>_. None) = Inr (ar_index r)"
  shows "fst (read_file env r name) \<noteq> Inl Panic"
proof (cases "ar_index r name")
  case None
  then show ?thesis by (simp add: read_file_def)
next
  case (Some ie)
  define a where "a = ar_archive r"
  obtain i where i: "i < length (files a)" "ie = \<lparr>ie_block_index = file_block_index (stream_map_of a) ! i, ie_file_index = i\<rparr>"
    using fill_index_entries [OF assms(3) Some] by (auto simp: a_def)
  show ?thesis
  proof (cases "has_stream (files a ! i)")
    case False
    then show ?thesis using Some i by (simp add: read_file_def a_def index_or_panic_Inr)
  next
    case True
    then obtain k where k: "k < length (blocks a)" "file_block_index (stream_map_of a) ! i = Some k"
      using assms(2) i(1) unfolding decodable_def mapped_def a_def by blast
    have "fst (read_file_solid env r k i) \<noteq> Inl Panic"
      using block_for_each_entries_calm [OF assms(1) _ _ , of "decoder_of_block r k" "keep_target (de_chunk env) i" None]
        assms(2) k(1) keep_target_calm
      by (auto simp: read_file_solid_def decoder_of_block_def a_def split: prod.split sum.split option.split)
    moreover have "fst (read_file_in_block env r k f) \<noteq> Inl Panic" for f
      using read_file_in_block_no_panic [OF assms(1,2)] k(1) by (simp add: a_def)
    ultimately show ?thesis
      using Some i k True by (auto simp: read_file_def a_def index_or_panic_Inr split: prod.split) (metis fst_conv)+
  qed
qed

lemma with_limits_decodable:
  assumes "with_limits env source pw limits = Inr r" "\<forall>b\<in>set (blocks (ar_archive r)). packed_streams b \<noteq> []"
  shows "decodable (ar_archive r)"
    and "fill_index (files (ar_archive r)) (file_block_index (stream_map_of (ar_archive r))) 0 (\<lambda>_. None) = Inr (ar_index r)"
proof -
  obtain a pw' where a: "read_with_limits (de_open env) source pw limits = (Inr a, pw')" "new_reader source a pw' limits = Inr r"
    using assms(1) by (auto simp: with_limits_def split: sum.splits prod.splits)
  then have r: "ar_archive r = a" by (auto simp: new_reader_def)
  show "decodable (ar_archive r)"
    using read_with_limits_mapped [OF a(1)] read_with_limits_opened [OF a(1)] assms(2)
    by (auto simp: r decodable_def opened_def streams_ok_def)
  show "fill_index (files (ar_archive r)) (file_block_index (stream_map_of (ar_archive r))) 0 (\<lambda>_. None) = Inr (ar_index r)"
    using a(2) by (auto simp: new_reader_def)
qed

lemma with_limits_no_panic:
  assumes "builders_sound (oe_builders (de_open env))"
  shows "with_limits env source pw limits \<noteq> Inl Panic"
proof -
  have "memory_admitted env limits a \<noteq> Inl Panic" for a by (auto simp: memory_admitted_def split: sum.split)
  moreover have "new_reader source a pw' limits \<noteq> Inl Panic"
    if "read_with_limits (de_open env) source pw limits = (Inr a, pw')" for a pw'
    using read_with_limits_mapped [OF that]
      fill_index_no_panic [of 0 "files a" "file_block_index (stream_map_of a)" "\<lambda>_. None" Panic]
    by (auto simp: new_reader_def mapped_def ebind_def split: sum.split)
  moreover have "read_with_limits (de_open env) source pw limits \<noteq> (Inl Panic, pw')" for pw'
    using read_with_limits_no_panic [OF assms, of source pw limits] by (metis fst_conv)
  ultimately show ?thesis by (auto simp: with_limits_def ebind_def split: prod.split sum.split)
qed

section \<open>A block without input\<close>

text \<open>
  Five header bytes are a block of one coder with no input stream.  Its graph is accepted and its map is
  computed, and the decode stack then reads the first pack offset of an archive that has none.
\<close>

definition sourceless_block :: block where
  "sourceless_block = default_block\<lparr>coders := [\<lparr>encoder_method_id = [0], num_in_streams = 0, num_out_streams = 1, coder_properties = []\<rparr>],
     total_output_streams := 1\<rparr>"

lemma sourceless_block_is_read: "read_block stored_bounds [1, 0x11, 0, 0, 1] = Inr (sourceless_block, [])"
  apply (simp add: read_block_def pbind_def read_variable_small bounds_count_def bounds_cap_def limits_default_def
    numeral_eq_Suc [of "num.One"] read_coder_def read_exact_def bounds_size_def checked_add_def stored_bounds_def)
  apply (simp add: pbind_def Let_def read_packed_streams_def find_bind_pair_for_in_stream_def default_block_def
    validate_coder_graph_def coder_of_streams_def graph_walk.simps first_in_stream_def nth_or_panic_def sourceless_block_def)
  done

lemma sourceless_block_panics:
  "\<exists>a. calculate_stream_map (default_archive\<lparr>blocks := [sourceless_block]\<rparr>) = Inr a
     \<and> fst (build_decode_stack env opts source a 0 pw) = Inl Panic"
  by (simp add: calculate_stream_map_def default_archive_def sourceless_block_def default_block_def checked_add_usize_def
      usize_max_def build_decode_stack_def index_or_panic_def nth_option_def method_ids block_offset_of_def
      checked_add_def SIGNATURE_HEADER_SIZE_def u64_max_def)


text \<open>
  An entry without data between two of a block's entries: the map gives all three to the block, whose
  pass then covers only the first two.
\<close>

definition gap_block :: block where
  "gap_block = stored_block\<lparr>num_unpack_sub_streams := 2\<rparr>"

definition gap_archive :: archive where
  "gap_archive = default_archive\<lparr>pack_sizes := [3], blocks := [gap_block],
     files := [default_entry\<lparr>has_stream := True, entry_size := 1\<rparr>, default_entry, default_entry\<lparr>has_stream := True, entry_size := 2\<rparr>]\<rparr>"

lemma entry_after_a_gap_is_missed:
  "\<exists>a. calculate_stream_map gap_archive = Inr a \<and> file_block_index (stream_map_of a) ! 2 = Some 0 \<and> span a 0 = [0, 1]"
proof -
  have "seek_block [gap_block] 0 0 [0] = (0, [0])" by (simp add: seek_block.simps gap_block_def)
  moreover have "num_unpack_sub_streams gap_block = 2" "packed_streams gap_block = [0]"
    by (simp_all add: gap_block_def stored_block_def default_block_def)
  ultimately show ?thesis
    by (simp add: calculate_stream_map_def gap_archive_def default_archive_def checked_add_usize_def usize_max_def
        checked_add_def u64_max_def nth_or_panic_def nth_option_def default_entry_def seek_block.simps span_def upt_rec)
qed

section \<open>Properties\<close>

text \<open>
  C5: opening never panics, and decoding never panics for archives whose blocks all have packed streams.
  For every file, password and limits, making a reader returns a reader or an error, never a panic.  When every
  block of the archive has a packed stream (one without does panic: \<open>sourceless_block_panics\<close>), neither a
  pass over all entries nor reading a file panics, whatever the thread count, the settings and the source are by
  then.  Two conditions on what is not this code: the constructors of the codecs do not panic, and neither does
  the consumer's callback.
\<close>

theorem decoding_never_panics:
  fixes each :: "'c callback"
  assumes "builders_sound (oe_builders (de_open env))" "\<forall>c i f. calm (each c i f)"
  shows "case with_limits env source pw limits of
       Inl e \<Rightarrow> e \<noteq> Panic
     | Inr r0 \<Rightarrow> (\<forall>b\<in>set (blocks (ar_archive r0)). packed_streams b \<noteq> []) \<longrightarrow>
         (\<forall>r c name. ar_archive r = ar_archive r0 \<and> ar_index r = ar_index r0 \<longrightarrow>
            fst (for_each_entries env r each c) \<noteq> Inl Panic \<and> fst (read_file env r name) \<noteq> Inl Panic)"
proof (cases "with_limits env source pw limits")
  case (Inl e)
  then show ?thesis using with_limits_no_panic [OF assms(1), of source pw limits] by simp
next
  case (Inr r0)
  have "fst (for_each_entries env r each c) \<noteq> Inl Panic \<and> fst (read_file env r name) \<noteq> Inl Panic"
    if packed: "\<forall>b\<in>set (blocks (ar_archive r0)). packed_streams b \<noteq> []"
      and r: "ar_archive r = ar_archive r0" "ar_index r = ar_index r0" for r c name
  proof -
    note d = with_limits_decodable [OF Inr packed, folded r]
    have "fst (decode_blocks env each [0..<length (blocks (ar_archive r))] dp) \<noteq> Inl Panic" if "dp_reader dp = r" for dp
      by (rule decode_blocks_calm [OF assms d(1)]) (simp_all add: list_all_iff that)
    moreover have "fst (decode_empty_entries (ar_archive r) each [0..<length (files (ar_archive r))] c') \<noteq> Inl Panic" for c'
      by (rule decode_empty_entries_calm [OF assms(2)]) (use d(1) in \<open>simp_all add: decodable_def list_all_iff\<close>)
    ultimately have "fst (for_each_entries env r each c) \<noteq> Inl Panic"
      by (auto simp: for_each_entries_def split: prod.split sum.split) (metis fst_conv select_convs)+
    then show ?thesis using read_file_no_panic [OF assms(1) d] by blast
  qed
  then show ?thesis using Inr by auto
qed

text \<open>At a real file, with a consumer that reads nothing and one that asks for more than there is.\<close>

theorem decoding_never_panics_witness:
  "\<exists>r. with_limits sample_env stored_file password_empty limits_default = Inr r
     \<and> fst (for_each_entries sample_env r (\<lambda>c i f. Ask 100 (\<lambda>_. Answer (Inr (i = 0)) (Suc c))) 0) \<noteq> Inl Panic
     \<and> fst (read_file sample_env r [97]) \<noteq> Inl Panic"
proof -
  obtain r where r: "with_limits sample_env stored_file password_empty limits_default = Inr r" "ar_archive r = stored_archive"
    using stored_file_reader by blast
  have "builders_sound (oe_builders (de_open sample_env))"
    by (simp add: builders_sound_def sample_env_def constant_env_def willing_def)
  note decoding_never_panics [OF this, of "\<lambda>c i f. Ask 100 (\<lambda>_. Answer (Inr (i = 0)) (Suc c))" stored_file password_empty limits_default]
  moreover have "\<forall>b\<in>set (blocks stored_archive). packed_streams b \<noteq> []"
    by (simp add: stored_archive_def sized_block_parts)
  ultimately show ?thesis using r by auto
qed

end
