(* ===== verification/Completions.thy ===== *)
theory Completions
  imports Decode_Safety
begin

text \<open>
  The completion records of \<open>src/container.rs\<close>: what the sub-stream hook of a pass is told of the entries,
  whoever consumes them and whatever the decode stack delivers.
\<close>

section \<open>What the hook is told\<close>

text \<open>
  What a completion record promises of the entry it names.  \<open>streams_from a start i\<close> are the entries
  with a stream from the first one of the block up to entry \<open>i\<close>.
\<close>

definition streams_from :: "archive \<Rightarrow> nat \<Rightarrow> nat \<Rightarrow> archive_entry list" where
  "streams_from a start i = filter has_stream (map ((!) (files a)) [start..<i])"

definition honest :: "archive \<Rightarrow> nat \<Rightarrow> sub_stream_completion \<Rightarrow> bool" where
  "honest a k sc \<longleftrightarrow>
     (let i = sc_file_index sc; f = files a ! i; start = block_first_file_index (stream_map_of a) ! k;
          earlier = streams_from a start i
      in i \<in> set (span a k) \<and> i < length (files a) \<and> has_stream f \<and> 0 < entry_size f
       \<and> sc_block_index sc = k \<and> sc_len sc = entry_size f
       \<and> sc_unpacked_offset sc = sum_list (map entry_size earlier)
       \<and> sc_sub_stream_index sc = block_first_sub_stream_index (stream_map_of a) ! k + length earlier
       \<and> (entry_has_crc f \<longrightarrow> ucast (sc_crc32 sc) = entry_crc f))"

lemma streams_from_Suc:
  "start \<le> i \<Longrightarrow> streams_from a start (Suc i) = streams_from a start i @ (if has_stream (files a ! i) then [files a ! i] else [])"
  by (simp add: streams_from_def)

definition reports_soundly :: "u64 \<Rightarrow> 's crc_verifying \<Rightarrow> bool" where
  "reports_soundly expected v \<longleftrightarrow> cv_expected v = expected \<and> (\<forall>d. cv_report v = Some d \<longrightarrow> ucast d = expected)"

lemma crc_verifying_reports:
  "crc_verifying_read digest rd n v = (x, v') \<Longrightarrow> reports_soundly expected v \<Longrightarrow> reports_soundly expected v'"
  by (auto simp: crc_verifying_read_def reports_soundly_def Let_def split: if_splits sum.splits prod.splits)

lemma perform_reports:
  "perform (crc_verifying_read digest rd) act v = (answer, v') \<Longrightarrow> reports_soundly expected v \<Longrightarrow> reports_soundly expected v'"
  by (induction act arbitrary: v) (auto split: prod.splits dest: crc_verifying_reports)

lemma entry_read_report:
  "entry_read env verifying f act rd = (answer, rd', Some d) \<Longrightarrow> entry_has_crc f \<and> ucast d = entry_crc f"
proof -
  assume "entry_read env verifying f act rd = (answer, rd', Some d)"
  then obtain v where "entry_has_crc f" "cv_report v = Some d"
    "perform (crc_verifying_read (oe_crc32 (de_open env)) (bounded_read (block_read env))) act
       (crc_verifying_new (bounded_new rd (unat (entry_size f))) (unat (entry_size f)) (entry_crc f)) = (answer, v)"
    by (auto simp: entry_read_def Let_def split: if_splits prod.splits)
  moreover have "reports_soundly (entry_crc f) (crc_verifying_new (bounded_new rd (unat (entry_size f))) (unat (entry_size f)) (entry_crc f))"
    by (simp add: reports_soundly_def crc_verifying_new_def)
  ultimately show ?thesis using perform_reports [of _ _ _ _ answer v "entry_crc f"] unfolding reports_soundly_def by blast
qed

lemma entry_checksum_matches:
  "entry_checksum br f el report = Inr (Some d) \<Longrightarrow> (\<forall>d. report = Some d \<longrightarrow> ucast d = entry_crc f) \<Longrightarrow>
    entry_has_crc f \<longrightarrow> ucast d = entry_crc f"
  by (auto simp: entry_checksum_def split: if_splits option.splits)

text \<open>The counters of the loop before entry \<open>i\<close>.\<close>

definition counted :: "archive \<Rightarrow> nat \<Rightarrow> nat \<Rightarrow> entry_loop \<Rightarrow> bool" where
  "counted a k i el \<longleftrightarrow>
     (let earlier = streams_from a (block_first_file_index (stream_map_of a) ! k) i
      in el_unpacked_offset el = sum_list (map entry_size earlier) \<and> el_sub_stream el = length earlier
       \<and> list_all (honest a k) (el_completed el) \<and> sorted_wrt (<) (map sc_file_index (el_completed el) @ [i]))"

lemma decode_entry_counted:
  assumes i: "i \<in> set (span a k)" "i < length (files a)" and a: "br_archive br = a" "br_index br = k"
    and c: "counted a k i el"
    and d: "decode_entry br (block_first_sub_stream_index (stream_map_of a) ! k) each i (files a ! i) c el = (r, c', el')"
  shows "list_all (honest a k) (el_completed el') \<and> sorted_wrt (<) (map sc_file_index (el_completed el'))
    \<and> (\<forall>outcome. r = Inr outcome \<longrightarrow> counted a k (Suc i) el')"
proof (cases "has_stream (files a ! i) \<and> 0 < entry_size (files a ! i)")
  case True
  let ?f = "files a ! i"
  define start where "start = block_first_file_index (stream_map_of a) ! k"
  have "start \<le> i" using i(1) by (auto simp: span_def Let_def start_def)
  note earlier = streams_from_Suc [OF this, of a]
  obtain answer c1 rd report where e: "entry_read (br_env br) (br_verify br \<and> \<not> br_folding br) ?f (each c i ?f) (el_reader el)
      = ((answer, c1), rd, report)" by (metis surj_pair)
  let ?el = "el\<lparr>el_reader := rd\<rparr>"
  show ?thesis
  proof (cases answer)
    case (Inl e)
    then show ?thesis using True d c e by (auto simp: decode_entry_def Let_def counted_def sorted_wrt_append)
  next
    case (Inr outcome)
    show ?thesis
    proof (cases "entry_checksum br ?f ?el report")
      case (Inl e')
      then show ?thesis using True d c e Inr by (auto simp: decode_entry_def Let_def counted_def sorted_wrt_append)
    next
      case check: (Inr check)
      have crc: "entry_has_crc ?f \<longrightarrow> ucast digest = entry_crc ?f" if "check = Some digest" for digest
        using entry_checksum_matches [of br ?f ?el report digest] check entry_read_report that e by blast
      show ?thesis
        using True d c e Inr check earlier i a crc
        by (auto simp: decode_entry_def Let_def counted_def sorted_wrt_append completion_of_def honest_def start_def
            intro: less_SucI split: option.splits)
    qed
  qed
next
  case False
  have "start \<le> i" if "start = block_first_file_index (stream_map_of a) ! k" for start using i(1) that by (auto simp: span_def Let_def)
  then show ?thesis
    using False d c streams_from_Suc
    by (auto simp: decode_entry_def counted_def sorted_wrt_append Let_def word_gt_0 intro: less_SucI split: prod.splits if_splits)
qed


lemma decode_entries_counted:
  assumes a: "br_archive br = a" "br_index br = k" and within: "set [i..<n] \<subseteq> set (span a k)"
    and c: "counted a k i el"
    and d: "decode_entries br (block_first_sub_stream_index (stream_map_of a) ! k) each [i..<n] c el = (r, c', el')"
  shows "list_all (honest a k) (el_completed el') \<and> sorted_wrt (<) (map sc_file_index (el_completed el'))"
  using within c d
proof (induction "n - i" arbitrary: i c el)
  case 0
  then show ?case by (auto simp: counted_def Let_def sorted_wrt_append)
next
  case (Suc m)
  then have list: "[i..<n] = i # [Suc i..<n]" by (simp add: upt_conv_Cons)
  show ?case
  proof (cases "i < length (files a)")
    case False
    have "nth_option (files (br_archive br)) i = None" using False by (simp add: nth_option_def a)
    then show ?thesis using Suc.prems(2,3) unfolding list by (auto simp: index_or_panic_def counted_def Let_def sorted_wrt_append)
  next
    case True
    obtain r1 c1 el1 where e: "decode_entry br (block_first_sub_stream_index (stream_map_of a) ! k) each i (files a ! i) c el = (r1, c1, el1)"
      by (metis surj_pair)
    have i: "i \<in> set (span a k)" using Suc.prems(1) unfolding list by simp
    note one = decode_entry_counted [OF i True a Suc.prems(2) e]
    show ?thesis
    proof (cases "r1 = Inr True")
      case True
      then have "decode_entries br (block_first_sub_stream_index (stream_map_of a) ! k) each [Suc i..<n] c1 el1 = (r, c', el')"
        using Suc.prems(3) e a \<open>i < length (files a)\<close> unfolding list by (simp add: index_or_panic_Inr)
      then show ?thesis
        using Suc.hyps(1) [of "Suc i" el1 c1] Suc.hyps(2) Suc.prems(1) one True unfolding list by auto
    next
      case False
      then have "el' = el1" using Suc.prems(3) e a \<open>i < length (files a)\<close> unfolding list by (auto simp: index_or_panic_Inr split: sum.splits)
      then show ?thesis using one by simp
    qed
  qed
qed

lemma block_loop_honest:
  assumes "block_loop br each c s = (r, c', told)"
  shows "list_all (honest (br_archive br) (br_index br)) told \<and> sorted_wrt (<) (map sc_file_index told)"
proof -
  define a where "a = br_archive br"
  define k where "k = br_index br"
  show ?thesis
  proof (cases "k < length (block_first_file_index (stream_map_of a)) \<and> k < length (blocks a) \<and> k < length (block_first_sub_stream_index (stream_map_of a))")
    case False
    then have "told = []" using assms
      by (auto simp: block_loop_def index_or_panic_def nth_option_def a_def k_def split: if_splits)
    then show ?thesis by simp
  next
    case True
    let ?start = "block_first_file_index (stream_map_of a) ! k"
    define n where "n = num_unpack_sub_streams (blocks a ! k) + ?start"
    let ?el = "\<lparr>el_reader = (False, s), el_unpacked_offset = 0, el_sub_stream = 0, el_completed = []\<rparr>"
    obtain r1 c1 el where d: "decode_entries br (block_first_sub_stream_index (stream_map_of a) ! k) each [?start..<n] c ?el = (r1, c1, el)"
      by (metis surj_pair)
    have "told = el_completed el"
      using assms True d unfolding block_loop_def a_def [symmetric] k_def [symmetric]
      by (auto simp: index_or_panic_Inr n_def split: sum.splits bool.splits)
    moreover have "counted a k ?start ?el" by (simp add: counted_def streams_from_def)
    ultimately show ?thesis
      using decode_entries_counted [OF _ _ _ _ d] by (simp add: a_def k_def span_def n_def Let_def)
  qed
qed

text \<open>
  C6: what the sub-stream hook is told is true.  Whatever the block, the bytes that come out of its decode
  stack and the consumer: every completion names an entry of this block that has a stream, its size, the
  place of its first byte in the unpacked block and its number among the sub-streams, and its checksum is
  the one of the header whenever the header has one, whether the entry's reader computed it or the worker
  threads did.  Entries are reported in their order and none twice.
\<close>

theorem told_completions_are_true:
  "case block_for_each_entries env bk each c of ((r, c', told), pw, control) \<Rightarrow>
     list_all (honest (bk_archive bk) (bk_block_index bk)) told \<and> sorted_wrt (<) (map sc_file_index told)"
proof (cases "open_block env bk")
  case (fields opened pw' control')
  show ?thesis
  proof (cases opened)
    case (Inl e)
    then show ?thesis using fields by (simp add: block_for_each_entries_def)
  next
    case (Inr x)
    obtain br s where x: "x = (br, s)" by (cases x)
    note o = open_block_run [OF fields [unfolded Inr x]]
    show ?thesis
      using fields block_loop_honest [of br each c s]
      by (auto simp: Inr x o block_for_each_entries_def split: prod.split)
  qed
qed


end
