(* ===== verification/Stack_Follows.thy ===== *)
theory Stack_Follows
  imports Decode_Safety
begin

text \<open>
  What a decode stack does not depend on.  A password's cache only saves work: a stack that is built
  with a later state of the same password is also built with an earlier one, and is the same stack; nor
  do the points where an LZMA2 decoder cuts its checksums change the data.  So a block that opens in the
  course of a pass opens on its own, with the same output.
\<close>

section \<open>Passwords during a pass\<close>

definition later_password :: "'s sha256 \<Rightarrow> u64 \<Rightarrow> password \<Rightarrow> password \<Rightarrow> bool" where
  "later_password sha m pw pw' \<longleftrightarrow>
     pw_bytes pw' = pw_bytes pw \<and> cache_ok sha pw \<and> cache_ok sha pw'
     \<and> kc_rounds (pw_cache pw) \<le> kc_rounds (pw_cache pw')
     \<and> (kc_key (pw_cache pw') = kc_key (pw_cache pw)
        \<or> kc_rounds (pw_cache pw') \<le> m
          \<and> (\<forall>c. kc_key (pw_cache pw') = Some c \<longrightarrow>
               unat (kc_rounds (pw_cache pw)) + 2 ^ unat (ck_power c) \<le> unat (kc_rounds (pw_cache pw'))))"

lemma derive_cases:
  assumes "derive_key_with_budget sha p salt pw m = (Inr k, pw1)" "cache_ok sha pw" "unat p < 64"
  obtains (hit) "cache_hit pw p salt" "pw1 = pw" "k = derive_key sha p salt (pw_bytes pw)"
  | (miss) n where "\<not> cache_hit pw p salt" "k = derive_key sha p salt (pw_bytes pw)"
      "pw1 = pw\<lparr>pw_cache := \<lparr>kc_key = Some \<lparr>ck_power = p, ck_salt = salt, ck_key = k\<rparr>, kc_rounds = n\<rparr>\<rparr>"
      "n \<le> m" "unat n = unat (kc_rounds (pw_cache pw)) + 2 ^ unat p"
proof -
  have w: "unat (2 ^ unat p :: u64) = 2 ^ unat p" using assms(3) by (simp add: unat_shift_one)
  show thesis
  proof (cases "cache_hit pw p salt")
    case True
    then show thesis using assms by (intro hit) (auto simp: derive_key_with_budget_def cache_hit_def cache_ok_def Let_def split: option.splits if_splits)
  next
    case False
    define d where "d = derive_key sha p salt (pw_bytes pw)"
    have e: "derive_key_with_budget sha p salt pw m
      = (case checked_add (kc_rounds (pw_cache pw)) (push_bit (unat p) 1) of
           None \<Rightarrow> (Inl (Other ''AES KDF work total overflow''), pw)
         | Some rounds \<Rightarrow>
             if m < rounds then (Inl (LimitExceeded AesKdfRounds m rounds), pw)
             else (Inr d, pw\<lparr>pw_cache := \<lparr>kc_key = Some \<lparr>ck_power = p, ck_salt = salt, ck_key = d\<rparr>, kc_rounds = rounds\<rparr>\<rparr>))"
      using False by (auto simp: derive_key_with_budget_def cache_hit_def Let_def d_def split: option.splits)
    obtain n where n: "checked_add (kc_rounds (pw_cache pw)) (push_bit (unat p) 1) = Some n" "n \<le> m" "k = d"
      "pw1 = pw\<lparr>pw_cache := \<lparr>kc_key = Some \<lparr>ck_power = p, ck_salt = salt, ck_key = k\<rparr>, kc_rounds = n\<rparr>\<rparr>"
      using assms(1) unfolding e by (auto simp: not_less split: option.splits if_splits)
    have "unat n = unat (kc_rounds (pw_cache pw)) + 2 ^ unat p" using checked_add_SomeD [OF n(1)] w by (simp add: push_bit_eq_mult)
    then show thesis by (rule miss [OF False n(3) [unfolded d_def] n(4,2)])
  qed
qed

lemma derive_ok:
  assumes "unat (kc_rounds (pw_cache pw)) + 2 ^ unat p \<le> unat m" "cache_ok sha pw" "unat p < 64"
  obtains pw1 where "derive_key_with_budget sha p salt pw m = (Inr (derive_key sha p salt (pw_bytes pw)), pw1)"
proof (cases "cache_hit pw p salt")
  case True
  then show thesis using that assms(2) by (auto simp: derive_key_with_budget_def cache_hit_def cache_ok_def split: option.splits)
next
  case False
  have w: "unat (2 ^ unat p :: u64) = 2 ^ unat p" using assms(3) by (simp add: unat_shift_one)
  have "unat (kc_rounds (pw_cache pw)) + 2 ^ unat p < 2 ^ 64" using assms(1) u64_bound [of m] by simp
  then have "checked_add (kc_rounds (pw_cache pw)) (push_bit (unat p) 1) = Some (kc_rounds (pw_cache pw) + 2 ^ unat p)"
    "unat (kc_rounds (pw_cache pw) + 2 ^ unat p) = unat (kc_rounds (pw_cache pw)) + 2 ^ unat p"
    using w by (auto simp: checked_add_def push_bit_eq_mult unat_word_ariths)
  then show thesis
    using that False assms(1)
    by (auto simp: derive_key_with_budget_def cache_hit_def Let_def not_less word_le_nat_alt split: option.splits)
qed

lemma derive_follows:
  assumes "later_password sha m pw pw'" "derive_key_with_budget sha p salt pw' m = (Inr k, pw1')" "unat p < 64"
  shows "later_password sha m pw pw1'"
    and "\<exists>pw1. derive_key_with_budget sha p salt pw m = (Inr k, pw1) \<and> later_password sha m pw1 pw1'"
proof -
  note l = assms(1) [unfolded later_password_def]
  have c: "cache_ok sha pw'" using l by blast
  note s = derive_step [OF assms(2) c assms(3)]
  show right: "later_password sha m pw pw1'"
    using assms(2) c assms(3)
  proof (cases rule: derive_cases)
    case miss
    then show ?thesis using l s(2) unfolding later_password_def by (auto simp: word_le_nat_alt)
  qed (use assms(1) in simp)
  have key: "k = derive_key sha p salt (pw_bytes pw)" using s(5) l by simp
  show "\<exists>pw1. derive_key_with_budget sha p salt pw m = (Inr k, pw1) \<and> later_password sha m pw1 pw1'"
  proof (cases "cache_hit pw p salt")
    case True
    then have "derive_key_with_budget sha p salt pw m = (Inr k, pw)"
      using l key by (auto simp: derive_key_with_budget_def cache_hit_def cache_ok_def split: option.splits)
    then show ?thesis using right by blast
  next
    case False
    have "unat (kc_rounds (pw_cache pw)) + 2 ^ unat p \<le> unat (kc_rounds (pw_cache pw1')) \<and> kc_rounds (pw_cache pw1') \<le> m
      \<and> (\<exists>x. kc_key (pw_cache pw1') = Some x \<and> ck_power x = p \<and> ck_salt x = salt)"
      using assms(2) c assms(3)
    proof (cases rule: derive_cases)
      case hit
      then show ?thesis using l False by (auto simp: cache_hit_def split: option.splits)
    next
      case miss
      then show ?thesis using l by (auto simp: word_le_nat_alt)
    qed
    then obtain x where x: "unat (kc_rounds (pw_cache pw)) + 2 ^ unat p \<le> unat (kc_rounds (pw_cache pw1'))"
      "kc_rounds (pw_cache pw1') \<le> m" "kc_key (pw_cache pw1') = Some x" "ck_power x = p" "ck_salt x = salt" by blast
    have ok: "cache_ok sha pw" using l by blast
    obtain pw1 where pw1: "derive_key_with_budget sha p salt pw m = (Inr k, pw1)"
      using derive_ok [OF _ ok assms(3), of m salt] x(1,2) key by (auto simp: word_le_nat_alt)
    have "later_password sha m pw1 pw1'"
      using pw1 ok assms(3)
    proof (cases rule: derive_cases)
      case miss
      have "ck_key x = k" using x(3-5) s(1,2) l key by (simp add: cache_ok_def)
      then have "x = \<lparr>ck_power = p, ck_salt = salt, ck_key = k\<rparr>" using x(4,5) by simp
      then show ?thesis
        using miss x derive_step(2) [OF pw1 ok assms(3)] l s(1,2) unfolding later_password_def by (simp add: word_le_nat_alt)
    qed (use False in simp)
    then show ?thesis using pw1 by blast
  qed
qed


section \<open>Stacks that differ only in what is not data\<close>

text \<open>
  The LZMA2 decoder is told where its workers cut their checksums; it delivers the same data wherever
  that is.
\<close>

definition splits_are_hints :: "'s decode_env \<Rightarrow> bool" where
  "splits_are_hints env \<longleftrightarrow>
     (\<forall>p t m ss ss'.
        build_lz (oe_builders (de_open env)) (Dec_Lzma2 p (Adaptive t m ss)) = build_lz (oe_builders (de_open env)) (Dec_Lzma2 p (Adaptive t m ss'))
        \<and> oe_run (de_open env) (Dec_Lzma2 p (Adaptive t m ss)) = oe_run (de_open env) (Dec_Lzma2 p (Adaptive t m ss')))"

definition opts_alike :: "'s decode_env \<Rightarrow> decode_options \<Rightarrow> decode_options \<Rightarrow> bool" where
  "opts_alike env opts opts' \<longleftrightarrow>
     do_limits opts = do_limits opts' \<and> do_threads opts = do_threads opts' \<and> do_adaptive_lzma2 opts = do_adaptive_lzma2 opts'
     \<and> (do_lzma2_control opts = None \<longleftrightarrow> do_lzma2_control opts' = None)
     \<and> (do_checksum_splits opts = do_checksum_splits opts' \<or> splits_are_hints env)"

text \<open>
  A step that uses a password: when it succeeds with a later one, it succeeds with the earlier one and
  with what is alike, and every password that was earlier still is.
\<close>

definition follows ::
  "'s decode_env \<Rightarrow> u64 \<Rightarrow> ('a \<Rightarrow> 'a \<Rightarrow> bool) \<Rightarrow> (password \<Rightarrow> 'a result \<times> password) \<Rightarrow> (password \<Rightarrow> 'a result \<times> password) \<Rightarrow> bool" where
  "follows env m alike F G \<longleftrightarrow>
     (\<forall>pw pw' x pw1'. later_password (oe_sha (de_open env)) m pw pw' \<longrightarrow> G pw' = (Inr x, pw1') \<longrightarrow>
        (\<exists>y pw1. F pw = (Inr y, pw1) \<and> alike y x \<and> later_password (oe_sha (de_open env)) m pw1 pw1')
        \<and> later_password (oe_sha (de_open env)) m pw pw1')"

lemma followsD:
  assumes "follows env m alike F G" "later_password (oe_sha (de_open env)) m pw pw'" "G pw' = (Inr x, pw1')"
  obtains y pw1 where "F pw = (Inr y, pw1)" "alike y x" "later_password (oe_sha (de_open env)) m pw1 pw1'"
    "\<And>q. later_password (oe_sha (de_open env)) m q pw' \<Longrightarrow> later_password (oe_sha (de_open env)) m q pw1'"
  using assms unfolding follows_def by metis

text \<open>The same, with the passwords that occur.\<close>

lemma follows_pure:
  assumes "\<And>pw pw' x. G pw' = Inr x \<Longrightarrow> \<exists>y. F pw = Inr y \<and> alike y x"
  shows "follows env m alike (\<lambda>pw. (F pw, pw)) (\<lambda>pw. (G pw, pw))"
  using assms unfolding follows_def by simp

lemma follows_bind:
  assumes "follows env m A F G" "\<And>x y. A y x \<Longrightarrow> follows env m B (K y) (L x)"
  shows "follows env m B (\<lambda>pw. case F pw of (Inl e, pw1) \<Rightarrow> (Inl (f e), pw1) | (Inr x, pw1) \<Rightarrow> K x pw1)
    (\<lambda>pw. case G pw of (Inl e, pw1) \<Rightarrow> (Inl (g e), pw1) | (Inr x, pw1) \<Rightarrow> L x pw1)"
  unfolding follows_def
proof (intro allI impI)
  fix pw pw' z pw2'
  assume l: "later_password (oe_sha (de_open env)) m pw pw'"
    and r: "(case G pw' of (Inl e, pw1) \<Rightarrow> (Inl (g e), pw1) | (Inr x, pw1) \<Rightarrow> L x pw1) = (Inr z, pw2')"
  obtain x pw1' where g: "G pw' = (Inr x, pw1')" "L x pw1' = (Inr z, pw2')" using r by (auto split: prod.splits sum.splits)
  obtain y pw1 where F: "F pw = (Inr y, pw1)" "A y x" "later_password (oe_sha (de_open env)) m pw1 pw1'"
    "\<And>q. later_password (oe_sha (de_open env)) m q pw' \<Longrightarrow> later_password (oe_sha (de_open env)) m q pw1'"
    using followsD [OF assms(1) l g(1)] by metis
  obtain u pw2 where K: "K y pw1 = (Inr u, pw2)" "B u z" "later_password (oe_sha (de_open env)) m pw2 pw2'"
    "\<And>q. later_password (oe_sha (de_open env)) m q pw1' \<Longrightarrow> later_password (oe_sha (de_open env)) m q pw2'"
    using followsD [OF assms(2) [OF F(2)] F(3) g(2)] by metis
  show "(\<exists>y pw1. (case F pw of (Inl e, pw1) \<Rightarrow> (Inl (f e), pw1) | (Inr x, pw1) \<Rightarrow> K x pw1) = (Inr y, pw1) \<and> B y z
      \<and> later_password (oe_sha (de_open env)) m pw1 pw2') \<and> later_password (oe_sha (de_open env)) m pw pw2'"
    using F K l by simp
qed

lemma get_aes_key_follows:
  "follows env m (=) (\<lambda>pw. get_aes_key (oe_sha (de_open env)) props pw cap m) (\<lambda>pw. get_aes_key (oe_sha (de_open env)) props pw cap m)"
  unfolding follows_def
proof (intro allI impI)
  fix pw pw' x pw1'
  assume l: "later_password (oe_sha (de_open env)) m pw pw'"
    and r: "get_aes_key (oe_sha (de_open env)) props pw' cap m = (Inr x, pw1')"
  define props1 where "props1 = (if length props = 1 then props @ [0] else props)"
  define p where "p = props1 ! 0 AND 63"
  define iv_size where "iv_size = unat ((drop_bit 6 (props1 ! 0) AND 1) + (props1 ! 1 AND 15))"
  define salt_size where "salt_size = unat ((drop_bit 7 (props1 ! 0) AND 1) + drop_bit 4 (props1 ! 1))"
  define salt where "salt = take salt_size (drop 2 props1)"
  define iv where "iv = take iv_size (drop (2 + salt_size) props1) @ replicate (16 - iv_size) 0"
  define raw where "raw = (\<lambda>bs. (salt @ take (min (length bs) (32 - salt_size)) bs)
    @ replicate (32 - length (salt @ take (min (length bs) (32 - salt_size)) bs)) 0)"
  have e: "get_aes_key (oe_sha (de_open env)) props q cap m =
      (if props = [] then (Inl (Other ''AES256 properties too short''), q)
       else if length props1 < 2 + salt_size + iv_size then (Inl (Other ''Salt size + IV size too long''), q)
       else if password_is_empty q then (Inl PasswordRequired, q)
       else if p = 0x3F then (Inr (raw (pw_bytes q), iv), q)
       else if min cap MAX_AES_CYCLES_POWER < p
       then (Inl (LimitExceeded AesCyclesPower (ucast (min cap MAX_AES_CYCLES_POWER)) (ucast p)), q)
       else case derive_key_with_budget (oe_sha (de_open env)) p salt q m of
              (Inl e, q') \<Rightarrow> (Inl e, q') | (Inr key, q') \<Rightarrow> (Inr (key, iv), q'))" for q
    unfolding get_aes_key_def Let_def raw_def iv_def salt_def iv_size_def salt_size_def p_def props1_def ..
  have "password_is_empty pw' = password_is_empty pw" "pw_bytes pw' = pw_bytes pw"
    using l by (simp_all add: later_password_def password_is_empty_def)
  moreover have "unat p < 64" using word_and_le1 [of "props1 ! 0" 63] by (simp add: p_def word_le_nat_alt)
  ultimately show "(\<exists>y pw1. get_aes_key (oe_sha (de_open env)) props pw cap m = (Inr y, pw1) \<and> y = x
      \<and> later_password (oe_sha (de_open env)) m pw1 pw1') \<and> later_password (oe_sha (de_open env)) m pw pw1'"
    using r l derive_follows [OF l, of p salt] unfolding e by (auto split: if_splits prod.splits sum.splits)
qed


lemma follows_fail: "follows env m alike (\<lambda>pw. (Inl e, pw)) (\<lambda>pw. (Inl e', pw))"
  by (simp add: follows_def)

lemma follows_return: "alike y x \<Longrightarrow> follows env m alike (\<lambda>pw. (Inr y, pw)) (\<lambda>pw. (Inr x, pw))"
  by (auto simp: follows_def)

lemma follows_if:
  "(c \<Longrightarrow> follows env m alike F G) \<Longrightarrow> (\<not> c \<Longrightarrow> follows env m alike F' G') \<Longrightarrow>
    follows env m alike (\<lambda>pw. if c then F pw else F' pw) (\<lambda>pw. if c then G pw else G' pw)"
  by (cases c) simp_all

lemma follows_option:
  "(opt = None \<Longrightarrow> follows env m alike F G) \<Longrightarrow> (\<And>z. opt = Some z \<Longrightarrow> follows env m alike (F' z) (G' z)) \<Longrightarrow>
    follows env m alike (\<lambda>pw. case opt of None \<Rightarrow> F pw | Some z \<Rightarrow> F' z pw) (\<lambda>pw. case opt of None \<Rightarrow> G pw | Some z \<Rightarrow> G' z pw)"
  by (cases opt) simp_all

definition decoders_alike :: "'s decode_env \<Rightarrow> decoder \<Rightarrow> decoder \<Rightarrow> bool" where
  "decoders_alike env d d' \<longleftrightarrow> run_decoder (de_open env) d = run_decoder (de_open env) d'"

lemma decoders_alike_refl [simp]: "decoders_alike env d d"
  by (simp add: decoders_alike_def)

lemma built_follows:
  assumes "build_lz bd d = build_lz bd d'" "decoders_alike env d d'"
  shows "follows env m (decoders_alike env) (\<lambda>pw. (built_lz bd pw d, pw)) (\<lambda>pw. (built_lz bd pw d', pw))"
  by (rule follows_pure) (use assms in \<open>auto simp: built_lz_def split: option.splits\<close>)

lemma lzma2_plans_alike:
  assumes "opts_alike env opts opts'" "d = Dec_Lzma2 p (lzma2_plan_of opts dict)" "d' = Dec_Lzma2 p (lzma2_plan_of opts' dict)"
  shows "build_lz (oe_builders (de_open env)) d = build_lz (oe_builders (de_open env)) d'" "decoders_alike env d d'"
proof -
  have "lzma2_plan_of opts dict = lzma2_plan_of opts' dict
    \<or> splits_are_hints env \<and> (\<exists>t m ss ss'. lzma2_plan_of opts dict = Adaptive t m ss \<and> lzma2_plan_of opts' dict = Adaptive t m ss')"
    using assms(1) by (auto simp: opts_alike_def lzma2_plan_of_def plan_for_block_def split: option.split)
  then show "build_lz (oe_builders (de_open env)) d = build_lz (oe_builders (de_open env)) d'" "decoders_alike env d d'"
    unfolding assms(2,3) by (auto simp: splits_are_hints_def decoders_alike_def run_decoder_def fun_eq_iff)
qed

lemma add_aes_follows:
  assumes "do_limits opts = do_limits opts'"
  shows "follows env (max_aes_kdf_rounds (do_limits opts)) (decoders_alike env)
    (\<lambda>pw. add_aes (oe_sha (de_open env)) pw opts props) (\<lambda>pw. add_aes (oe_sha (de_open env)) pw opts' props)"
  unfolding follows_def
proof (intro allI impI)
  fix pw pw' x pw1'
  assume l: "later_password (oe_sha (de_open env)) (max_aes_kdf_rounds (do_limits opts)) pw pw'"
    and r: "add_aes (oe_sha (de_open env)) pw' opts' props = (Inr x, pw1')"
  have "password_is_empty pw' = password_is_empty pw"
    using l by (simp add: later_password_def password_is_empty_def)
  then show "(\<exists>y pw1. add_aes (oe_sha (de_open env)) pw opts props = (Inr y, pw1) \<and> decoders_alike env y x
      \<and> later_password (oe_sha (de_open env)) (max_aes_kdf_rounds (do_limits opts)) pw1 pw1')
      \<and> later_password (oe_sha (de_open env)) (max_aes_kdf_rounds (do_limits opts)) pw pw1'"
    using r followsD [OF get_aes_key_follows l] assms unfolding add_aes_def
    by (auto split: if_splits prod.splits sum.splits) (metis Pair_inject l sum.inject(2) sum.distinct(1) decoders_alike_refl)+
qed

lemma add_decoder_follows:
  assumes "opts_alike env opts opts'"
  shows "follows env (max_aes_kdf_rounds (do_limits opts)) (decoders_alike env)
    (\<lambda>pw. add_decoder (oe_sha (de_open env)) (oe_ppmd (de_open env)) (oe_builders (de_open env)) len c pw opts)
    (\<lambda>pw. add_decoder (oe_sha (de_open env)) (oe_ppmd (de_open env)) (oe_builders (de_open env)) len c pw opts')"
proof -
  have lims: "do_limits opts' = do_limits opts" using assms by (simp add: opts_alike_def)
  have same: "follows env m (decoders_alike env) (\<lambda>pw. (r, pw)) (\<lambda>pw. (r, pw))" for r m
    by (rule follows_pure) auto
  have lzma: "follows env m (decoders_alike env) (\<lambda>pw. (add_lzma bd pw opts len props, pw)) (\<lambda>pw. (add_lzma bd pw opts' len props, pw))" for m bd props
    by (rule follows_pure) (auto simp: add_lzma_def built_lz_def lims Let_def ebind_eq_Inr split: if_splits option.splits)
  have lzma2: "follows env m (decoders_alike env) (\<lambda>pw. (add_lzma2 (oe_builders (de_open env)) pw opts len props, pw))
      (\<lambda>pw. (add_lzma2 (oe_builders (de_open env)) pw opts' len props, pw))" for m props
    by (rule follows_pure)
       (auto simp: add_lzma2_def built_lz_def lims Let_def ebind_eq_Inr lzma2_plans_alike [OF assms refl refl]
         split: list.splits if_splits option.splits)
  show ?thesis
    unfolding add_decoder_def Let_def lims
    by (intro follows_option follows_if same lzma lzma2 add_aes_follows [OF lims [symmetric]])
qed

text \<open>The two decode stacks.\<close>

lemma chain_stack_follows:
  assumes "opts_alike env opts opts'"
  shows "follows env (max_aes_kdf_rounds (do_limits opts)) (=) (chain_stack env opts b cs s) (chain_stack env opts' b cs s)"
proof (induction cs arbitrary: s)
  case Nil
  then show ?case using follows_return [of "(=)" s s] by simp
next
  case (Cons ic cs)
  obtain i c where ic: "ic = (i, c)" by (cases ic)
  show ?case
    unfolding ic chain_stack.simps
    by (intro follows_if follows_fail follows_bind [OF add_decoder_follows [OF assms]])
       (simp add: decoders_alike_def Cons.IH)
qed

lemma get_in_stream_follows:
  assumes "opts_alike env opts opts'"
  shows "follows env (max_aes_kdf_rounds (do_limits opts)) (=)
      (get_in_stream env opts b srcs starts i depth) (get_in_stream env opts' b srcs starts i depth)"
    and "follows env (max_aes_kdf_rounds (do_limits opts)) (=)
      (get_in_stream2 env opts b srcs starts j depth) (get_in_stream2 env opts' b srcs starts j depth)"
    and "follows env (max_aes_kdf_rounds (do_limits opts)) (=)
      (get_in_streams env opts b srcs starts is depth) (get_in_streams env opts' b srcs starts is depth)"
proof -
  let ?m = "max_aes_kdf_rounds (do_limits opts)"
  have steps: "n = length (coders b) + 2 - depth \<Longrightarrow>
      (\<forall>i. follows env ?m (=) (get_in_stream env opts b srcs starts i depth) (get_in_stream env opts' b srcs starts i depth))
      \<and> (\<forall>j. follows env ?m (=) (get_in_stream2 env opts b srcs starts j depth) (get_in_stream2 env opts' b srcs starts j depth))
      \<and> (\<forall>is. follows env ?m (=) (get_in_streams env opts b srcs starts is depth) (get_in_streams env opts' b srcs starts is depth))" for n depth
  proof (induction n arbitrary: depth rule: less_induct)
    case (less n)
    have coder: "follows env ?m (=) (get_in_stream2 env opts b srcs starts j depth) (get_in_stream2 env opts' b srcs starts j depth)" for j
    proof (cases "length (coders b) < depth")
      case True
      then show ?thesis by (simp add: get_in_stream2.simps [abs_def] follows_fail)
    next
      case False
      then have "length (coders b) + 2 - (depth + 1) < n" using less.prems by simp
      note IH = less.IH [OF this refl]
      have deeper: "follows env ?m (=) (get_in_stream env opts b srcs starts i (depth + 1)) (get_in_stream env opts' b srcs starts i (depth + 1))"
        "follows env ?m (=) (get_in_streams env opts b srcs starts is (depth + 1)) (get_in_streams env opts' b srcs starts is (depth + 1))" for i "is"
        using IH by blast+
      show ?thesis
      proof (cases "\<exists>c start len. nth_option (coders b) j = Some c \<and> nth_option starts j = Some start
          \<and> nth_option (block_unpack_sizes b) j = Some len")
        case True
        then obtain c start len where c: "nth_option (coders b) j = Some c" "nth_option starts j = Some start"
          "nth_option (block_unpack_sizes b) j = Some len" by blast
        have run: "follows env ?m (=)
            (\<lambda>pw. case add_decoder (oe_sha (de_open env)) (oe_ppmd (de_open env)) (oe_builders (de_open env)) (unat len) c pw opts of
               (Inl e, pw') \<Rightarrow> (Inl e, pw') | (Inr d, pw') \<Rightarrow> (Inr (run_decoder (de_open env) d s), pw'))
            (\<lambda>pw. case add_decoder (oe_sha (de_open env)) (oe_ppmd (de_open env)) (oe_builders (de_open env)) (unat len) c pw opts' of
               (Inl e, pw') \<Rightarrow> (Inl e, pw') | (Inr d, pw') \<Rightarrow> (Inr (run_decoder (de_open env) d s), pw'))" for s
          by (rule follows_bind [OF add_decoder_follows [OF assms]]) (simp add: decoders_alike_def follows_return)
        show ?thesis
          unfolding get_in_stream2.simps using False
          apply (simp only: c option.case prod.case if_False)
          apply (intro follows_if follows_fail)
           apply (rule follows_bind [OF deeper(1)], simp only: run)
          apply (rule follows_bind [OF deeper(2)], simp only: follows_return)
          done
      next
        case False
        then have "get_in_stream2 env o' b srcs starts j depth = (\<lambda>pw. (Inl (Other ''in_stream_index out of range''), pw))" for o'
          using \<open>\<not> length (coders b) < depth\<close> unfolding get_in_stream2.simps [abs_def]
          by (auto simp: fun_eq_iff split: option.split)
        then show ?thesis by (simp add: follows_fail)
      qed
    qed
    have stream: "follows env ?m (=) (get_in_stream env opts b srcs starts i depth) (get_in_stream env opts' b srcs starts i depth)" for i
      unfolding get_in_stream.simps
      by (intro follows_option coder follows_fail follows_pure) auto
    have streams: "follows env ?m (=) (get_in_streams env opts b srcs starts is depth) (get_in_streams env opts' b srcs starts is depth)" for "is"
    proof (induction "is")
      case (Cons i "is")
      show ?case
        unfolding get_in_streams.simps
        by (intro follows_bind [OF stream] follows_bind [OF Cons.IH]; simp add: follows_return)
    qed (simp add: follows_return)
    show ?case using coder stream streams by blast
  qed
  show "follows env ?m (=) (get_in_stream env opts b srcs starts i depth) (get_in_stream env opts' b srcs starts i depth)"
    "follows env ?m (=) (get_in_stream2 env opts b srcs starts j depth) (get_in_stream2 env opts' b srcs starts j depth)"
    "follows env ?m (=) (get_in_streams env opts b srcs starts is depth) (get_in_streams env opts' b srcs starts is depth)"
    using steps by blast+
qed

lemma follows_sum:
  "(\<And>x. r = Inr x \<Longrightarrow> follows env m alike (F x) (G x)) \<Longrightarrow>
    follows env m alike (\<lambda>pw. case r of Inl e \<Rightarrow> (Inl (f e), pw) | Inr x \<Rightarrow> F x pw) (\<lambda>pw. case r of Inl e \<Rightarrow> (Inl (g e), pw) | Inr x \<Rightarrow> G x pw)"
  by (cases r) (simp_all add: follows_fail)

lemma follows_result: "follows env m (=) (\<lambda>pw. (r, pw)) (\<lambda>pw. (r, pw))"
  by (rule follows_pure) simp

lemma build_decode_stack2_follows:
  assumes "opts_alike env opts opts'"
  shows "follows env (max_aes_kdf_rounds (do_limits opts)) (=)
    (build_decode_stack2 env opts file a k b) (build_decode_stack2 env opts' file a k b)"
  unfolding build_decode_stack2_def [abs_def]
  apply (intro follows_if follows_fail)
  apply (rule follows_sum)
  subgoal for x
    by (cases x) (simp, rule follows_bind [OF get_in_stream_follows(2) [OF assms]], simp only: follows_result)
  done

lemma build_decode_stack_follows:
  assumes "opts_alike env opts opts'"
  shows "follows env (max_aes_kdf_rounds (do_limits opts)) (=)
    (build_decode_stack env opts file a k) (build_decode_stack env opts' file a k)"
proof -
  have "do_limits opts' = do_limits opts" using assms by (simp add: opts_alike_def)
  then show ?thesis
    unfolding build_decode_stack_def [abs_def]
    apply simp
    apply (rule follows_sum)
    apply (intro follows_if build_decode_stack2_follows [OF assms])
    apply (rule follows_sum)
    subgoal for b x
      apply (cases x)
      apply simp
      apply (rule follows_bind [OF chain_stack_follows [OF assms]])
      apply (cases "fst x")
       apply (simp_all add: follows_return follows_result)
      done
    done
qed

section \<open>Opening a block later in a pass\<close>

lemma folding_follows:
  assumes "opts_alike env opts opts'" "do_checksum_splits opts = do_checksum_splits opts'"
  shows "folding_checksums (opts\<lparr>do_lzma2_control := Some (after_building opts b (set_block_index k c))\<rparr>)
    = folding_checksums (opts'\<lparr>do_lzma2_control := Some (after_building opts' b (set_block_index k c'))\<rparr>)"
proof -
  have "lzma2_plan_of opts = lzma2_plan_of opts'"
    using assms by (auto simp: opts_alike_def lzma2_plan_of_def fun_eq_iff)
  then have "coder_engages opts b = coder_engages opts' b" by (intro ext) (simp only: coder_engages_def)
  then show ?thesis
    using assms(2)
    by (simp add: folding_checksums_def after_building_def control_progress_def control_set_threads_def engage_def
        set_block_index_def clear_folded_def)
qed

lemma open_block_follows:
  assumes "later_password (oe_sha (de_open env)) (max_aes_kdf_rounds (ar_limits r)) (ar_password r) pw"
    and "open_block env (decoder_of_block (leave_reader r pw c) k) = (Inr (br, s), pw', control')"
  shows "(\<exists>pw1 control1. open_block env (decoder_of_block r k) = (Inr (br, s), pw1, control1))
    \<and> later_password (oe_sha (de_open env)) (max_aes_kdf_rounds (ar_limits r)) (ar_password r) pw'"
proof -
  define r' where "r' = leave_reader r pw c"
  define bk where "bk = decoder_of_block r k"
  define bk' where "bk' = decoder_of_block r' k"
  have same: "ar_archive r' = ar_archive r" "ar_source r' = ar_source r" "ar_password r' = pw" "ar_verify_checksums r' = ar_verify_checksums r"
    "ar_limits r' = ar_limits r"
    by (simp_all add: r'_def leave_reader_def)
  obtain splits b where sp: "(if ar_verify_checksums r then file_boundaries (ar_archive r) k else Inr []) = Inr splits"
    "index_or_panic (blocks (ar_archive r)) k = Inr b"
    using assms(2) by (auto simp: open_block_def Let_def decoder_of_block_def leave_reader_def ebind_def split: sum.splits prod.splits if_splits)
  define opts where "opts = decode_options_of bk splits"
  define opts' where "opts' = decode_options_of bk' splits"
  have alike: "opts_alike env opts opts'"
    by (simp add: opts_alike_def opts_def opts'_def decode_options_of_def bk_def bk'_def decoder_of_block_def r'_def leave_reader_def)
  have lims: "do_limits opts = ar_limits r" by (simp add: opts_def decode_options_of_def bk_def decoder_of_block_def)
  have splits: "do_checksum_splits opts = do_checksum_splits opts'"
    by (simp add: opts_def opts'_def decode_options_of_def)
  have stack': "build_decode_stack env opts' (ar_source r) (ar_archive r) k pw = (Inr s, pw')"
    using assms(2) sp unfolding r'_def [symmetric]
    by (auto simp: open_block_def Let_def opts'_def bk'_def decoder_of_block_def same ebind_def split: sum.splits prod.splits if_splits)
  obtain y pw1 where F: "build_decode_stack env opts (ar_source r) (ar_archive r) k (ar_password r) = (Inr y, pw1)" "y = s"
    "\<And>q. later_password (oe_sha (de_open env)) (max_aes_kdf_rounds (ar_limits r)) q pw
      \<Longrightarrow> later_password (oe_sha (de_open env)) (max_aes_kdf_rounds (ar_limits r)) q pw'"
    using followsD [OF build_decode_stack_follows [OF alike, of "ar_source r" "ar_archive r" k] _ stack', unfolded lims, OF assms(1)] by metis
  have empty: "password_is_empty pw = password_is_empty (ar_password r)"
    using assms(1) by (simp add: later_password_def password_is_empty_def)
  have br: "br = \<lparr>br_env = env, br_archive = ar_archive r, br_index = k, br_packed_offset = packed_offset_of (ar_archive r) k,
      br_verify = ar_verify_checksums r,
      br_folding = folding_checksums (opts'\<lparr>do_lzma2_control := Some (after_building opts' b (set_block_index k c))\<rparr>),
      br_encrypted = \<not> password_is_empty pw\<rparr>"
    using assms(2) sp stack' unfolding r'_def [symmetric]
    by (auto simp: open_block_def Let_def opts'_def bk'_def decoder_of_block_def same ebind_def split: sum.splits prod.splits if_splits)
       (simp_all add: r'_def leave_reader_def)
  have "open_block env bk = (Inr (br, s), pw1, after_building opts b (set_block_index k (ar_lzma2 r)))"
    using sp F(1,2) empty folding_follows [OF alike splits, of b k "ar_lzma2 r" c]
    by (simp add: open_block_def Let_def bk_def decoder_of_block_def ebind_def br opts_def)
  then show ?thesis using F(3) [OF assms(1)] unfolding bk_def by blast
qed

lemma ready_blocks_direct:
  assumes "cache_ok (oe_sha (de_open env)) (ar_password r)"
  shows "ready_blocks env (leave_reader r pw c) ks ds \<Longrightarrow>
    later_password (oe_sha (de_open env)) (max_aes_kdf_rounds (ar_limits r)) (ar_password r) pw \<Longrightarrow>
    j < length ks \<Longrightarrow>
    \<exists>br s pw1 control1. open_block env (decoder_of_block r (ks ! j)) = (Inr (br, s), pw1, control1) \<and> block_ready br s (ds ! j)"
proof (induction ks arbitrary: pw c ds j)
  case (Cons k ks)
  obtain br s pw' control d ds' where o: "open_block env (decoder_of_block (leave_reader r pw c) k) = (Inr (br, s), pw', control)"
    and d: "ds = d # ds'" "block_ready br s d" "ready_blocks env (leave_reader (leave_reader r pw c) pw' control) ks ds'"
    by (rule ready_blocks_ConsE [OF Cons.prems(1)])
  have twice: "leave_reader (leave_reader r pw c) pw' control = leave_reader r pw' control" by (simp add: leave_reader_def)
  note here = open_block_follows [OF Cons.prems(2) o]
  show ?case
  proof (cases j)
    case 0
    then show ?thesis using here d(1,2) by auto
  next
    case (Suc i)
    then show ?thesis using Cons.IH [OF d(3) [unfolded twice], of i] here Cons.prems(3) d(1) by simp
  qed
qed simp

end
