(* ===== verification/Archive_Pass.thy ===== *)
theory Archive_Pass
  imports Stack_Follows
begin

text \<open>
  The passes over an archive that opens: when the stream map places the entries of a block in a run,
  a full pass visits every entry once, and reading one file by its name delivers what the pass has for
  it.
\<close>

section \<open>The entries of a block are a run of entries\<close>

text \<open>
  Every sub-stream has its entry, and no entry without data stands between two entries of one block:
  the number of entries with data before it is where a block starts or ends.
\<close>

definition gapless :: "archive \<Rightarrow> bool" where
  "gapless a \<longleftrightarrow>
     subs_before (blocks a) (length (blocks a)) = streamed_before (files a) (length (files a))
     \<and> (\<forall>i<length (files a). \<not> has_stream (files a ! i) \<longrightarrow>
          (\<exists>k\<le>length (blocks a). streamed_before (files a) i = subs_before (blocks a) k))"

lemma gapless_boundary:
  "gapless a \<Longrightarrow> i < length (files a) \<Longrightarrow> \<not> has_stream (files a ! i) \<Longrightarrow>
    \<exists>k\<le>length (blocks a). streamed_before (files a) i = subs_before (blocks a) k"
  by (simp add: gapless_def)

lemma subs_before_less:
  assumes "x < y" "y \<le> length bs"
  shows "subs_before bs x + num_unpack_sub_streams (bs ! x) \<le> subs_before bs y"
proof -
  have "take y bs = take (Suc x) bs @ drop (Suc x) (take y bs)"
    using assms by (metis Suc_leI append_take_drop_id min.absorb1 take_take)
  then have "subs_before bs (Suc x) \<le> subs_before bs y"
    unfolding subs_before_def by (metis le_add1 map_append sum_list_append)
  then show ?thesis using assms by (simp add: subs_before_Suc)
qed

lemma inside_one_block:
  assumes "b < length bs" "subs_before bs b \<le> n" "n < subs_before bs b + num_unpack_sub_streams (bs ! b)"
  shows "b' < length bs \<Longrightarrow> subs_before bs b' \<le> n \<Longrightarrow> n < subs_before bs b' + num_unpack_sub_streams (bs ! b') \<Longrightarrow> b' = b"
    and "k \<le> length bs \<Longrightarrow> n = subs_before bs k \<Longrightarrow> n = subs_before bs b"
  using assms subs_before_less [of b b' bs] subs_before_less [of b' b bs] subs_before_less [of b k bs] subs_before_less [of k b bs]
  by (cases b b' rule: linorder_cases; cases b k rule: linorder_cases; simp)+

lemma streamed_before_Suc:
  "i < length fs \<Longrightarrow> streamed_before fs (Suc i) = streamed_before fs i + (if has_stream (fs ! i) then 1 else 0)"
  by (simp add: streamed_before_def take_Suc_conv_app_nth)

lemma streamed_before_mono: "i \<le> j \<Longrightarrow> streamed_before fs i \<le> streamed_before fs j"
proof -
  assume "i \<le> j"
  then have "take j fs = take i fs @ drop i (take j fs)" by (metis append_take_drop_id min.absorb1 take_take)
  then show ?thesis unfolding streamed_before_def by (metis filter_append le_add1 length_append)
qed

lemma streamed_before_inj:
  assumes "i < length fs" "j < length fs" "has_stream (fs ! i)" "has_stream (fs ! j)" "streamed_before fs i = streamed_before fs j"
  shows "i = j"
  using assms streamed_before_Suc [of i fs] streamed_before_Suc [of j fs]
    streamed_before_mono [of "Suc i" j fs] streamed_before_mono [of "Suc j" i fs]
  by (cases i j rule: linorder_cases) auto

text \<open>An entry without data that stands between two blocks is placed in none.\<close>

lemma assign_blocks_None:
  "assign_blocks bs sizes first_pack fs i nb nu ff = Inr (ff', fb, fs') \<Longrightarrow> in_file_loop bs nb nu ff \<Longrightarrow>
    j < length fs \<Longrightarrow> \<not> has_stream (fs ! j) \<Longrightarrow> k \<le> length bs \<Longrightarrow>
    subs_before bs nb + nu + streamed_before fs j = subs_before bs k \<Longrightarrow> fb ! j = None"
proof (induction fs arbitrary: i nb nu ff ff' fb fs' j)
  case (Cons f fs)
  have start: "nu = 0" if "j = 0"
    using Cons.prems(2,5,6) that inside_one_block(2) [of nb bs "subs_before bs nb + nu" k] by (auto simp: in_file_loop_def)
  show ?case
  proof (cases "\<not> has_stream f \<and> nu = 0")
    case True
    then obtain fb1 fs1 where "assign_blocks bs sizes first_pack fs (i + 1) nb nu ff = Inr (ff', fb1, fs1)"
      "fb = None # fb1" using Cons.prems(1) by auto
    then show ?thesis using Cons.IH [of "i + 1" nb nu ff ff' fb1 fs1 "j - 1"] Cons.prems(2-) True by (cases j) auto
  next
    case False
    then obtain j' where j: "j = Suc j'" using start Cons.prems(4) by (cases j) auto
    obtain nb1 ff1 where nb1: "(nb1, ff1) = (if nu = 0 then seek_block bs i nb ff else (nb, ff))"
      by (metis surj_pair)
    have some: "\<not> (nu = 0 \<and> length bs \<le> nb1)"
      using Cons.prems(1) False nb1 [symmetric] by (auto simp: Let_def)
    note fnd = find_block [OF Cons.prems(2) nb1 some]
    show ?thesis
    proof (cases "has_stream f")
      case nostream: False
      then obtain fb1 fs1 where "assign_blocks bs sizes first_pack fs (i + 1) nb1 nu ff1 = Inr (ff', fb1, fs1)" "fb = Some nb1 # fb1"
        using Cons.prems(1) False some nb1 [symmetric] by (auto simp: Let_def)
      then show ?thesis using Cons.IH [OF _ fnd(1), of "i + 1" ff' fb1 fs1 j'] Cons.prems(3-) nostream fnd(5) by (simp add: j)
    next
      case True
      define nbu where "nbu = (if num_unpack_sub_streams (bs ! nb1) \<le> nu + 1 then (nb1 + 1, 0) else (nb1, nu + 1))"
      obtain nb' nu' where n: "nbu = (nb', nu')" by (cases nbu)
      obtain fb1 fs1 where r: "assign_blocks bs sizes first_pack fs (i + 1) nb' nu' ff1 = Inr (ff', fb1, fs1)" "fb = Some nb1 # fb1"
        using Cons.prems(1) True some nb1 [symmetric] n unfolding nbu_def
        by (auto simp: Let_def split: if_splits option.splits)
      note aft = after_file [OF fnd(1,2,3) n [symmetric, unfolded nbu_def]]
      show ?thesis using Cons.IH [OF r(1) aft(1), of j'] Cons.prems(3-) True fnd(5) aft(2) r(2) by (simp add: j)
    qed
  qed
qed simp

text \<open>The map of an archive without gaps.\<close>

lemma map_of_gapless:
  assumes "calculate_stream_map a0 = Inr a" "gapless a"
  shows "length (file_block_index (stream_map_of a)) = length (files a)"
    and "\<And>i. i < length (files a) \<Longrightarrow> \<not> has_stream (files a ! i) \<Longrightarrow> file_block_index (stream_map_of a) ! i = None"
    and "\<And>i. i < length (files a) \<Longrightarrow> has_stream (files a ! i) \<Longrightarrow>
      file_placed (blocks a) (streamed_before (files a) i) i (block_first_file_index (stream_map_of a)) (file_block_index (stream_map_of a) ! i)"
    and "length (block_first_file_index (stream_map_of a)) = length (blocks a)"
    and "\<And>k. k < length (blocks a) \<Longrightarrow>
      block_first_file_index (stream_map_of a) ! k + num_unpack_sub_streams (blocks a ! k) \<le> length (files a)"
proof -
  from assms(1) obtain first_pack first_sub offsets first_file file_block files' where
    f: "assign_blocks (blocks a0) (pack_sizes a0) first_pack (files a0) 0 0 0 (replicate (length (blocks a0)) 0)
      = Inr (first_file, file_block, files')"
    and sp: "check_file_spans (length files') (blocks a0) first_file = Inr ()"
    and a': "a = a0\<lparr>files := files',
       stream_map_of := \<lparr>block_first_pack_stream_index = first_pack, pack_stream_offsets = offsets,
         block_first_sub_stream_index = first_sub, block_first_file_index = first_file,
         file_block_index = file_block\<rparr>\<rparr>"
    by (rule calculate_stream_map_parts)
  note placed = assign_blocks_Inr [OF f start_in_file_loop, unfolded files_placed_def]
  have same: "map (\<lambda>f. f\<lparr>compressed_size := 0\<rparr>) files' = map (\<lambda>f. f\<lparr>compressed_size := 0\<rparr>) (files a0)" using placed by blast
  then have len: "length files' = length (files a0)" by (metis length_map)
  have streams: "has_stream (files' ! i) = has_stream (files a0 ! i)" if "i < length (files a0)" for i
    using arg_cong [OF same, of "\<lambda>xs. has_stream (xs ! i)"] that len by simp
  note before = streamed_before_sizes [OF same]
  have bounds: "subs_before (blocks a0) 0 = 0" "length first_file = length (blocks a0)" "length file_block = length (files a0)"
    using placed by (simp_all add: subs_before_def)
  have each: "file_placed (blocks a0) (subs_before (blocks a0) 0 + 0 + streamed_before (files a0) j) (0 + j) first_file (file_block ! j)"
    if "j < length (files a0)" "has_stream (files a0 ! j)" for j
    using placed that by blast
  have parts: "files a = files'" "blocks a = blocks a0" "block_first_file_index (stream_map_of a) = first_file"
    "file_block_index (stream_map_of a) = file_block"
    by (simp_all add: a')
  show "length (file_block_index (stream_map_of a)) = length (files a)"
    "length (block_first_file_index (stream_map_of a)) = length (blocks a)"
    unfolding parts using bounds len by simp_all
  show "block_first_file_index (stream_map_of a) ! k + num_unpack_sub_streams (blocks a ! k) \<le> length (files a)"
    if "k < length (blocks a)" for k
    using check_file_spans_Inr [OF sp] that len unfolding parts by simp
  show "file_placed (blocks a) (streamed_before (files a) i) i (block_first_file_index (stream_map_of a)) (file_block_index (stream_map_of a) ! i)"
    if "i < length (files a)" "has_stream (files a ! i)" for i
  proof -
    have i: "i < length (files a0)" using that(1) unfolding parts len .
    have "has_stream (files a0 ! i)" using that(2) unfolding parts streams [OF i] .
    from each [OF i this] show ?thesis unfolding parts before bounds(1) add_0 .
  qed
  show "file_block_index (stream_map_of a) ! i = None" if "i < length (files a)" "\<not> has_stream (files a ! i)" for i
  proof -
    have "\<exists>k\<le>length (blocks a). streamed_before (files a) i = subs_before (blocks a) k"
      by (rule gapless_boundary [OF assms(2) that])
    then obtain k where "k \<le> length (blocks a)" "streamed_before (files a) i = subs_before (blocks a) k" by blast
    then have k: "k \<le> length (blocks a0)" "subs_before (blocks a0) 0 + 0 + streamed_before (files a0) i = subs_before (blocks a0) k"
      unfolding parts before bounds(1) by simp_all
    have i: "i < length (files a0)" using that(1) unfolding parts len .
    have "\<not> has_stream (files a0 ! i)" using that(2) unfolding parts streams [OF i] .
    from assign_blocks_None [OF f start_in_file_loop i this k] show ?thesis unfolding parts .
  qed
qed

text \<open>The run of a block starts at its first file.\<close>

lemma run_of_block:
  assumes "calculate_stream_map a0 = Inr a" "gapless a" "k < length (blocks a)"
    and "n < num_unpack_sub_streams (blocks a ! k)" "start = block_first_file_index (stream_map_of a) ! k"
  shows "start + n < length (files a) \<and> has_stream (files a ! (start + n))
    \<and> streamed_before (files a) (start + n) = subs_before (blocks a) k + n"
  using assms(4)
proof (induction n)
  case 0
  have "subs_before (blocks a) k < streamed_before (files a) (length (files a))"
    using assms(2) 0 subs_before_less [OF assms(3) order_refl] by (simp add: gapless_def)
  then have "subs_before (blocks a) k < length (filter has_stream (files a))" by (simp add: streamed_before_def)
  from streamed_index [OF this] obtain j where j: "j < length (files a)" "has_stream (files a ! j)"
    "streamed_before (files a) j = subs_before (blocks a) k" by blast
  obtain b where b: "b < length (blocks a)" "subs_before (blocks a) b \<le> subs_before (blocks a) k"
    "subs_before (blocks a) k < subs_before (blocks a) b + num_unpack_sub_streams (blocks a ! b)"
    "subs_before (blocks a) k = subs_before (blocks a) b \<longrightarrow> block_first_file_index (stream_map_of a) ! b = j"
    using map_of_gapless(3) [OF assms(1,2) j(1,2)] unfolding file_placed_def j(3) by blast
  have "k = b" by (rule inside_one_block(1) [OF b(1-3) assms(3)]) (use 0 in simp_all)
  then show ?case using b(4) j assms(5) by simp
next
  case (Suc n)
  then have here: "start + n < length (files a)" "has_stream (files a ! (start + n))"
    "streamed_before (files a) (start + n) = subs_before (blocks a) k + n" by simp_all
  then have count: "streamed_before (files a) (Suc (start + n)) = subs_before (blocks a) k + Suc n"
    by (simp add: streamed_before_Suc)
  moreover have "subs_before (blocks a) k + Suc n < streamed_before (files a) (length (files a))"
    using assms(2) Suc.prems subs_before_less [OF assms(3) order_refl] by (simp add: gapless_def)
  ultimately have inside: "Suc (start + n) < length (files a)"
    using here(1) by (metis Suc_lessI less_irrefl)
  moreover have "has_stream (files a ! Suc (start + n))"
  proof (rule ccontr)
    assume "\<not> has_stream (files a ! Suc (start + n))"
    then obtain k' where "k' \<le> length (blocks a)" "subs_before (blocks a) k + Suc n = subs_before (blocks a) k'"
      using gapless_boundary [OF assms(2) inside] unfolding count by blast
    then show False
      using inside_one_block(2) [OF assms(3), of "subs_before (blocks a) k + Suc n" k'] Suc.prems by simp
  qed
  ultimately show ?case using count by simp
qed

lemma gapless_spans:
  assumes "calculate_stream_map a0 = Inr a" "gapless a"
  shows "spans_are_blocks a"
  unfolding spans_are_blocks_def
proof (intro conjI allI impI)
  note m = map_of_gapless [OF assms]
  show "length (file_block_index (stream_map_of a)) = length (files a)" by (rule m(1))
  have entry: "has_stream (files a ! i) \<and> file_placed (blocks a) (streamed_before (files a) i) i (block_first_file_index (stream_map_of a)) (Some k)"
    if "i < length (files a)" "file_block_index (stream_map_of a) ! i = Some k" for i k
    using m(2,3) [OF that(1)] that(2) by (cases "has_stream (files a ! i)") auto
  then show "k < length (blocks a)" if "i < length (files a)" "file_block_index (stream_map_of a) ! i = Some k" for i k
    using that by (fastforce simp: file_placed_def)
  fix k i assume k: "k < length (blocks a)"
  define start where "start = block_first_file_index (stream_map_of a) ! k"
  have span: "span a k = [start..<num_unpack_sub_streams (blocks a ! k) + start]" by (simp add: span_def start_def Let_def)
  show "i \<in> set (span a k) \<longleftrightarrow> i < length (files a) \<and> file_block_index (stream_map_of a) ! i = Some k"
  proof
    assume "i \<in> set (span a k)"
    then obtain n where n: "i = start + n" "n < num_unpack_sub_streams (blocks a ! k)"
      unfolding span by (metis add.commute atLeastLessThan_iff le_Suc_ex nat_add_left_cancel_less set_upt)
    note r = run_of_block [OF assms k n(2) start_def, folded n(1)]
    obtain b where b: "b < length (blocks a)" "file_block_index (stream_map_of a) ! i = Some b"
      "subs_before (blocks a) b \<le> subs_before (blocks a) k + n"
      "subs_before (blocks a) k + n < subs_before (blocks a) b + num_unpack_sub_streams (blocks a ! b)"
      using m(3) [of i] r unfolding file_placed_def by auto
    have "k = b" by (rule inside_one_block(1) [OF b(1,3,4) k]) (use n in simp_all)
    then show "i < length (files a) \<and> file_block_index (stream_map_of a) ! i = Some k" using r b by simp
  next
    assume i: "i < length (files a) \<and> file_block_index (stream_map_of a) ! i = Some k"
    then have e: "has_stream (files a ! i)" "subs_before (blocks a) k \<le> streamed_before (files a) i"
      "streamed_before (files a) i < subs_before (blocks a) k + num_unpack_sub_streams (blocks a ! k)"
      using entry [of i k] by (auto simp: file_placed_def)
    define n where "n = streamed_before (files a) i - subs_before (blocks a) k"
    have n: "n < num_unpack_sub_streams (blocks a ! k)" "streamed_before (files a) i = subs_before (blocks a) k + n"
      using e by (simp_all add: n_def)
    have "i = start + n"
      using streamed_before_inj [of i "files a" "start + n"] run_of_block [OF assms k n(1) start_def] i e(1) n(2) by simp
    then show "i \<in> set (span a k)" using n(1) by (simp add: span)
  qed
qed

section \<open>Archives that open\<close>

definition set_solid :: "archive \<Rightarrow> archive" where
  "set_solid a = a\<lparr>is_solid := list_ex (\<lambda>b. 1 < num_unpack_sub_streams b) (blocks a)\<rparr>"

definition map_computed :: "archive \<Rightarrow> bool" where
  "map_computed a \<longleftrightarrow> (\<exists>a0 a1. calculate_stream_map a0 = Inr a1 \<and> a = set_solid a1)"

lemma read_header_map: "read_header hb a inp = Inr (a', r) \<Longrightarrow> \<exists>a0. calculate_stream_map a0 = Inr a'"
  unfolding read_header_def read_files_info_def by (auto split: if_splits) blast+

lemma init_archive_map:
  assumes "init_archive env file sh pw v opts = (Inr a, pw')"
  shows "map_computed a"
proof -
  obtain buf parsed where p: "parse_header opts buf = Inr parsed" and c: "check_archive (do_limits opts) (length file) parsed = Inr a"
    using assms by (auto simp: init_archive_def split: if_splits option.splits sum.splits prod.splits)
  have "\<exists>a0. calculate_stream_map a0 = Inr parsed"
    using p read_header_map by (fastforce simp: parse_header_def split: sum.splits if_splits)
  then show ?thesis using check_archive_Inr(1) [OF c] unfolding map_computed_def set_solid_def by blast
qed

lemma opened_map: "read_with_limits env file pw limits = (Inr a, pw') \<Longrightarrow> map_computed a"
proof -
  have search: "search_end_header env file m pw opts n = (Inr a, pw') \<Longrightarrow> map_computed a" for m pw opts n
    by (induction n arbitrary: pw) (auto simp: Let_def split: if_splits sum.splits prod.splits intro: init_archive_map)
  then show "read_with_limits env file pw limits = (Inr a, pw') \<Longrightarrow> map_computed a"
    by (auto simp: read_with_limits_def try_to_locale_end_header_def Let_def
      dest!: init_archive_map split: sum.splits if_splits)
qed

lemma gapless_map:
  assumes "map_computed a" "gapless a"
  shows "spans_are_blocks a" "is_solid a = list_ex (\<lambda>b. 1 < num_unpack_sub_streams b) (blocks a)"
    and "\<And>i. i < length (files a) \<Longrightarrow> has_stream (files a ! i) \<longleftrightarrow> file_block_index (stream_map_of a) ! i \<noteq> None"
proof -
  obtain a0 a1 where m: "calculate_stream_map a0 = Inr a1" "a = set_solid a1" using assms(1) unfolding map_computed_def by blast
  have same: "files a = files a1" "blocks a = blocks a1" "stream_map_of a = stream_map_of a1"
    by (simp_all add: m(2) set_solid_def)
  have g: "gapless a1" using assms(2) by (simp add: gapless_def same)
  show "is_solid a = list_ex (\<lambda>b. 1 < num_unpack_sub_streams b) (blocks a)" by (simp add: m(2) set_solid_def)
  show "spans_are_blocks a" using gapless_spans [OF m(1) g] by (simp add: spans_are_blocks_def same span_def)
  show "has_stream (files a ! i) \<longleftrightarrow> file_block_index (stream_map_of a) ! i \<noteq> None" if "i < length (files a)" for i
    using map_of_gapless(2,3) [OF m(1) g] that unfolding same by (cases "has_stream (files a1 ! i)") (auto simp: file_placed_def)
qed

text \<open>The password's cache holds a key of the password after opening as before.\<close>

lemma stack_decoders_cache:
  fixes env :: "'s open_env"
  assumes "later_password (oe_sha env) (max_aes_kdf_rounds (do_limits opts)) q pw" "stack_decoders env opts b cs s pw = (Inr x, pw')"
  shows "later_password (oe_sha env) (max_aes_kdf_rounds (do_limits opts)) q pw'"
  using assms
proof (induction cs arbitrary: s pw)
  case (Cons ic cs)
  obtain i c where ic: "ic = (i, c)" by (cases ic)
  obtain de :: "'s decode_env" where de: "de_open de = env" by (metis decode_env.select_convs(1))
  have "opts_alike de opts opts" by (simp add: opts_alike_def)
  note f = add_decoder_follows [OF this, unfolded de]
  obtain d pw1 where d: "add_decoder (oe_sha env) (oe_ppmd env) (oe_builders env) (unat (get_unpack_size_at_index b i)) c pw opts = (Inr d, pw1)"
    "stack_decoders env opts b cs (run_decoder env d s) pw1 = (Inr x, pw')"
    using Cons.prems(2) by (auto simp: ic split: if_splits prod.splits sum.splits)
  have "later_password (oe_sha env) (max_aes_kdf_rounds (do_limits opts)) q pw1"
    using followsD [OF f _ d(1), unfolded de] Cons.prems(1) by metis
  then show ?case using Cons.IH d(2) by blast
qed simp

lemma later_refl: "cache_ok sha pw \<Longrightarrow> later_password sha m pw pw"
  by (simp add: later_password_def)

lemma final_header_cache:
  assumes "final_header env opts file pw buf = (Inr x, pw')" "cache_ok (oe_sha env) pw"
  shows "cache_ok (oe_sha env) pw'"
proof -
  have enc: "cache_ok (oe_sha env) pw1" if "read_encoded_header env hb opts file pw rest = (Inr h, pw1)" for hb rest h pw1
  proof -
    have "cache_ok (oe_sha env) pw1" if "stack_decoders env opts b cs s pw = (Inr y, pw1)" for b cs s y
      using stack_decoders_cache [OF later_refl [OF assms(2)] that] by (simp add: later_password_def)
    then show ?thesis using that unfolding read_encoded_header_def
      by (auto simp: Let_def split: sum.splits prod.splits list.splits option.splits if_splits)
  qed
  show ?thesis using assms enc unfolding final_header_def
    by (auto split: sum.splits prod.splits if_splits)
qed

lemma init_archive_cache:
  assumes "init_archive env file sh pw v opts = (Inr a, pw')" "cache_ok (oe_sha env) pw"
  shows "cache_ok (oe_sha env) pw'"
  using assms final_header_cache unfolding init_archive_def
  by (auto split: if_splits option.splits sum.splits prod.splits)

lemma opened_cache:
  assumes "cache_ok (oe_sha env) pw" "read_with_limits env file pw limits = (Inr a, pw')"
  shows "cache_ok (oe_sha env) pw'"
proof -
  have search: "cache_ok (oe_sha env) pw \<Longrightarrow> search_end_header env file m pw opts n = (Inr a, pw') \<Longrightarrow> cache_ok (oe_sha env) pw'" for m pw opts n
  proof (induction n arbitrary: pw)
    case (Suc n)
    then show ?case using init_archive_cache
      by (auto simp: Let_def split: if_splits sum.splits prod.splits) blast+
  qed simp
  then show ?thesis
    using assms unfolding read_with_limits_def try_to_locale_end_header_def Let_def
    by (auto dest: init_archive_cache split: sum.splits if_splits)
qed

lemma new_reader_map:
  assumes "with_limits env source pw limits = Inr r"
  shows "map_computed (ar_archive r)" "mapped (ar_archive r)"
    "cache_ok (oe_sha (de_open env)) pw \<Longrightarrow> cache_ok (oe_sha (de_open env)) (ar_password r)"
    "fill_index (files (ar_archive r)) (file_block_index (stream_map_of (ar_archive r))) 0 (\<lambda>_. None) = Inr (ar_index r)"
proof -
  obtain a pw' where a: "read_with_limits (de_open env) source pw limits = (Inr a, pw')" "new_reader source a pw' limits = Inr r"
    using assms(1) by (auto simp: with_limits_def split: sum.splits prod.splits)
  then have r: "ar_archive r = a" "ar_password r = pw'" by (auto simp: new_reader_def)
  show "map_computed (ar_archive r)" "mapped (ar_archive r)"
    "cache_ok (oe_sha (de_open env)) pw \<Longrightarrow> cache_ok (oe_sha (de_open env)) (ar_password r)"
    using opened_cache [OF _ a(1)] opened_map [OF a(1)] read_with_limits_mapped [OF a(1)] by (simp_all add: r)
  show "fill_index (files (ar_archive r)) (file_block_index (stream_map_of (ar_archive r))) 0 (\<lambda>_. None) = Inr (ar_index r)"
    using a(2) by (auto simp: new_reader_def)
qed

text \<open>Every name is in the index, with the last entry of that name.\<close>

lemma fill_index_names:
  "fill_index fs fb i m = Inr m' \<Longrightarrow> (\<forall>f\<in>set fs. entry_name f \<noteq> name) \<and> m' name = m name
    \<or> (\<exists>j<length fs. entry_name (fs ! j) = name \<and> (\<forall>l<length fs. j < l \<longrightarrow> entry_name (fs ! l) \<noteq> name)
        \<and> m' name = Some \<lparr>ie_block_index = fb ! (i + j), ie_file_index = i + j\<rparr>)"
proof (induction fs arbitrary: i m)
  case (Cons f fs)
  obtain b where b: "index_or_panic fb i = Inr b"
    "fill_index fs fb (i + 1) (m(entry_name f \<mapsto> \<lparr>ie_block_index = b, ie_file_index = i\<rparr>)) = Inr m'"
    using Cons.prems by (auto simp: ebind_eq_Inr)
  have fb: "fb ! i = b" using b(1) by (auto simp: index_or_panic_def nth_option_def split: if_splits)
  from Cons.IH [OF b(2)] show ?case
  proof (elim disjE conjE exE)
    assume none: "\<forall>g\<in>set fs. entry_name g \<noteq> name"
      and m': "m' name = (m(entry_name f \<mapsto> \<lparr>ie_block_index = b, ie_file_index = i\<rparr>)) name"
    show ?thesis
    proof (cases "entry_name f = name")
      case True
      then have "entry_name ((f # fs) ! 0) = name \<and> (\<forall>l<length (f # fs). 0 < l \<longrightarrow> entry_name ((f # fs) ! l) \<noteq> name)
          \<and> m' name = Some \<lparr>ie_block_index = fb ! (i + 0), ie_file_index = i + 0\<rparr>"
        using none m' fb by (auto simp: nth_Cons')
      then show ?thesis by (intro disjI2 exI [of _ 0]) simp
    qed (use none m' in simp)
  next
    fix j assume j: "j < length fs" "entry_name (fs ! j) = name" "\<forall>l<length fs. j < l \<longrightarrow> entry_name (fs ! l) \<noteq> name"
      "m' name = Some \<lparr>ie_block_index = fb ! (i + 1 + j), ie_file_index = i + 1 + j\<rparr>"
    then show ?thesis by (intro disjI2 exI [of _ "Suc j"]) (auto simp: nth_Cons')
  qed
qed simp

section \<open>A full pass\<close>

text \<open>An entry of a block is among what a pass has collected, with its part of the block's output.\<close>

lemma captured_slice:
  assumes "k < length (blocks a)" "length ds = length (blocks a)" "i \<in> set (span a k)"
  obtains bs where "(i, files a ! i, bs) \<in> set (entry_slices a (span a k) (ds ! k))"
    "(i, bs) \<in> set (concat (map2 (\<lambda>k d. numbered (entry_slices a (span a k) d)) [0..<length (blocks a)] ds))"
proof -
  have files: "f = files a ! j" if "(j, f, bs) \<in> set (entry_slices a is d)" for j f bs "is" d
    using that by (induction a "is" d rule: entry_slices.induct) (auto simp: Let_def)
  have "i \<in> fst ` set (entry_slices a (span a k) (ds ! k))"
    using assms(3) fst_entry_slices [of a "span a k" "ds ! k"] by (metis list.set_map)
  then obtain f bs where s: "(i, f, bs) \<in> set (entry_slices a (span a k) (ds ! k))" by auto
  moreover have "(i, bs) \<in> set (numbered (entry_slices a (span a k) (ds ! k)))"
    using s by (force simp: numbered_def)
  moreover have "numbered (entry_slices a (span a k) (ds ! k))
      \<in> set (map2 (\<lambda>k d. numbered (entry_slices a (span a k) d)) [0..<length (blocks a)] ds)"
    using assms(1,2) nth_mem [of k "map2 (\<lambda>k d. numbered (entry_slices a (span a k) d)) [0..<length (blocks a)] ds"] by simp
  ultimately show thesis using that files [OF s] by (metis (no_types, lifting) UN_I set_concat)
qed

section \<open>One file\<close>

lemma chain_parts:
  assumes "build_decode_stack env opts file a k pw = (Inr s, pw')" "mapped a"
    and "\<forall>b\<in>set (blocks a). packed_streams b \<noteq> []"
  obtains p offset where "k < length (blocks a)" "index_or_panic (block_first_pack_stream_index (stream_map_of a)) k = Inr p"
    "p < length (pack_stream_offsets (stream_map_of a))" "block_offset_of a p = Inr offset"
proof -
  obtain b where b: "index_or_panic (blocks a) k = Inr b"
    using assms(1) by (auto simp: build_decode_stack_def ebind_def split: sum.splits)
  then have k: "k < length (blocks a)" "b \<in> set (blocks a)"
    by (auto simp: index_or_panic_def nth_option_def split: if_splits)
  obtain p where p: "index_or_panic (block_first_pack_stream_index (stream_map_of a)) k = Inr p"
    using assms(2) k(1) by (simp add: mapped_def index_or_panic_Inr)
  have "p < length (pack_stream_offsets (stream_map_of a)) \<and> (\<exists>offset. block_offset_of a p = Inr offset)"
  proof (cases "total_output_streams b < total_input_streams b")
    case False
    then have "\<exists>offset n. block_offset_of a p = Inr offset \<and> index_or_panic (pack_sizes a) p = Inr n"
      using assms(1) b p unfolding build_decode_stack_def by (auto simp: ebind_def split: sum.splits prod.splits)
    then show ?thesis using assms(2) by (auto simp: mapped_def index_or_panic_def nth_option_def split: if_splits)
  next
    case True
    have ks: "[p..<p + length (packed_streams b)] = p # [Suc p..<p + length (packed_streams b)]"
      using assms(3) k(2) by (simp add: upt_conv_Cons)
    obtain start srcs n where s: "checked_add SIGNATURE_HEADER_SIZE (pack_pos a) = Some start"
      "pack_sources file a start (p # [Suc p..<p + length (packed_streams b)]) = Inr srcs" "index_or_panic (pack_sizes a) p = Inr n"
      using assms(1) b p True unfolding build_decode_stack_def build_decode_stack2_def ks [symmetric]
      by (auto simp: ebind_def split: sum.splits prod.splits option.splits if_splits)
    obtain offset pos where "index_or_panic (pack_stream_offsets (stream_map_of a)) p = Inr offset" "checked_add start offset = Some pos"
      using s(2) by (auto simp: ebind_eq_Inr split: option.splits)
    then show ?thesis
      using s assms(2) by (auto simp: block_offset_of_def mapped_def index_or_panic_def nth_option_def split: if_splits)
  qed
  then show thesis using that k(1) p by blast
qed

lemma read_file_in_block_ready:
  assumes "open_block env (decoder_of_block r k) = (Inr (br, s), pw, control)" "block_ready br s d" "0 < de_chunk env"
    and "cache_ok (oe_sha (de_open env)) (ar_password r)" "splits_are_hints env" "mapped (ar_archive r)"
    and "\<forall>b\<in>set (blocks (ar_archive r)). packed_streams b \<noteq> []"
    and "slice_ok (oe_crc32 (de_open env)) True f (take (unat (entry_size f)) d)"
  shows "fst (read_file_in_block env r k f) = Inr (take (unat (entry_size f)) d)"
proof -
  define a where "a = ar_archive r"
  obtain splits where stack: "build_decode_stack env (decode_options_of (decoder_of_block r k) splits) (ar_source r) a k (ar_password r) = (Inr s, pw)"
    using assms(1)
    by (auto simp: open_block_def Let_def decoder_of_block_def a_def ebind_def split: sum.splits prod.splits if_splits)
  have br: "br_archive br = a" "br_env br = env"
    using open_block_run [OF assms(1)] by (simp_all add: decoder_of_block_def a_def)
  have s: "block_good (oe_crc32 (de_open env)) s" "block_content s = d"
    using assms(2) br by (simp_all add: block_ready_def Let_def)
  have alike: "opts_alike env (decode_options_of (decoder_of_block r k) []) (decode_options_of (decoder_of_block r k) splits)"
    using assms(5) by (simp add: opts_alike_def decode_options_of_def)
  obtain pw1 where alone: "build_decode_stack env (decode_options_of (decoder_of_block r k) []) (ar_source r) a k (ar_password r) = (Inr s, pw1)"
    using followsD [OF build_decode_stack_follows [OF alike] later_refl [OF assms(4)] stack] by metis
  obtain p offset where parts: "k < length (blocks a)" "index_or_panic (block_first_pack_stream_index (stream_map_of a)) k = Inr p"
    "p < length (pack_stream_offsets (stream_map_of a))" "block_offset_of a p = Inr offset"
    by (rule chain_parts [OF alone assms(6,7) [folded a_def]])
  have "read_whole env f s = Inr (take (unat (entry_size f)) d)"
  proof (cases "entry_size f = 0")
    case False
    then have "0 < entry_size f" by (simp add: word_neq_0_conv)
    then show ?thesis using read_whole_delivers [OF s(1) assms(3)] assms(8) s(2) by blast
  qed (simp add: read_whole_empty)
  then show ?thesis
    using alone parts by (simp add: read_file_in_block_def Let_def index_or_panic_Inr a_def)
qed

lemma single_span:
  assumes "\<not> list_ex (\<lambda>b. 1 < num_unpack_sub_streams b) (blocks a)" "k < length (blocks a)" "i \<in> set (span a k)"
  shows "span a k = [i]"
proof -
  have "num_unpack_sub_streams (blocks a ! k) \<le> 1"
    using assms(1,2) by (auto simp: list_ex_iff not_less)
  then show ?thesis using assms(3) by (auto simp: span_def Let_def le_Suc_eq)
qed

text \<open>Reading one file gives what the pass has for it.\<close>

lemma read_file_of_pass:
  assumes "map_computed (ar_archive r)" "mapped (ar_archive r)" "gapless (ar_archive r)"
    and "cache_ok (oe_sha (de_open env)) (ar_password r)" "0 < de_chunk env"
    and "ready_blocks env r [0..<length (blocks (ar_archive r))] ds"
    and "is_solid (ar_archive r) \<or> ar_verify_checksums r \<and> splits_are_hints env
      \<and> (\<forall>b\<in>set (blocks (ar_archive r)). packed_streams b \<noteq> [])"
    and "ar_index r name = Some \<lparr>ie_block_index = file_block_index (stream_map_of (ar_archive r)) ! i, ie_file_index = i\<rparr>"
    and "i < length (files (ar_archive r))"
  shows "\<exists>bs. (i, bs) \<in> set (concat (map2 (\<lambda>k d. numbered (entry_slices (ar_archive r) (span (ar_archive r) k) d))
          [0..<length (blocks (ar_archive r))] ds) @ numbered (empty_entries (ar_archive r)))
    \<and> fst (read_file env r name) = Inr bs"
proof -
  define a where "a = ar_archive r"
  note g = gapless_map [OF assms(1,3), folded a_def]
  have i: "i < length (files a)" using assms(9) by (simp add: a_def)
  have f: "index_or_panic (files a) i = Inr (files a ! i)" using i by (simp add: index_or_panic_Inr)
  have len: "length ds = length (blocks a)" using ready_blocks_length [OF assms(6)] by (simp add: a_def)
  show ?thesis
  proof (cases "file_block_index (stream_map_of a) ! i")
    case None
    then have "\<not> has_stream (files a ! i)" using g(3) [OF i] by simp
    moreover have "(i, []) \<in> set (numbered (empty_entries a))"
      using None i by (force simp: numbered_def empty_entries_def)
    ultimately show ?thesis using assms(8) f by (intro exI [of _ "[]"]) (simp add: read_file_def a_def)
  next
    case (Some k)
    then have stream: "has_stream (files a ! i)" using g(3) [OF i] by simp
    have k: "k < length (blocks a)" "i \<in> set (span a k)" using g(1) i Some by (auto simp: spans_are_blocks_def)
    obtain bs where bs: "(i, files a ! i, bs) \<in> set (entry_slices a (span a k) (ds ! k))"
      "(i, bs) \<in> set (concat (map2 (\<lambda>k d. numbered (entry_slices a (span a k) d)) [0..<length (blocks a)] ds))"
      by (rule captured_slice [OF k(1) len k(2)])
    have same: "leave_reader r (ar_password r) (ar_lzma2 r) = r" by (simp add: leave_reader_def)
    obtain br s pw control where o: "open_block env (decoder_of_block r k) = (Inr (br, s), pw, control)" "block_ready br s (ds ! k)"
      using ready_blocks_direct [OF assms(4), where pw = "ar_password r" and c = "ar_lzma2 r" and ks = "[0..<length (blocks a)]" and ds = ds and j = k] assms(6)
        later_refl [OF assms(4)] k(1) unfolding same by (auto simp: a_def)
    have "fst (read_file env r name) = Inr bs"
    proof (cases "is_solid a")
      case True
      then show ?thesis
        using read_file_solid_delivers [OF o assms(5) bs(1) [unfolded a_def]] assms(8) f Some stream by (simp add: read_file_def a_def)
    next
      case False
      then have alone: "ar_verify_checksums r" "splits_are_hints env" "\<forall>b\<in>set (blocks a). packed_streams b \<noteq> []"
        using assms(7) by (simp_all add: a_def)
      have one: "span a k = [i]" using single_span [OF _ k] False g(2) by simp
      have br: "br_archive br = a" "br_index br = k" "br_env br = env"
        using open_block_run [OF o(1)] by (simp_all add: decoder_of_block_def a_def)
      have "br_verify br"
        using o(1) alone(1) by (auto simp: open_block_def Let_def decoder_of_block_def ebind_def split: sum.splits prod.splits)
      moreover have "holds_entries br (span a k) (ds ! k)" using o(2) br by (simp add: block_ready_def Let_def)
      ultimately have ok: "slice_ok (oe_crc32 (de_open env)) True (files a ! i) (take (unat (entry_size (files a ! i))) (ds ! k))"
        using stream one by (simp add: holds_entries_def br Let_def)
      have "bs = take (unat (entry_size (files a ! i))) (ds ! k)" using bs(1) stream one by (simp add: Let_def)
      then show ?thesis
        using read_file_in_block_ready [OF o assms(5,4) alone(2) assms(2) alone(3) [unfolded a_def] ok] assms(8) f Some stream False
        by (cases "read_file_in_block env r k (files a ! i)") (simp add: read_file_def a_def)
    qed
    then show ?thesis using bs(2) unfolding a_def by auto
  qed
qed

section \<open>Properties\<close>

text \<open>
  C3: a full pass ends and visits every entry exactly once, for an archive that opens and whose blocks
  open and hold the data the header promises (\<open>ready_blocks\<close>), when every sub-stream has its entry and
  no entry without data stands between two entries of one block (\<open>gapless\<close>).  Then a pass that collects
  all entries ends without an error, and what it collected is, block by block, every entry of the block
  with its part of the block's output, and after them the entries without data: every entry of the
  archive, each once.  With a gap an entry is missed (\<open>entry_after_a_gap_is_missed\<close>).
\<close>

theorem every_entry_is_visited_once:
  assumes "with_limits env source pw limits = Inr r0" "ar_archive r = ar_archive r0" "gapless (ar_archive r)"
    and "0 < chunk" "ready_blocks env r [0..<length (blocks (ar_archive r))] ds"
  shows "\<exists>dp. for_each_entries env r (reading chunk collecting) [] = (Inr (), dp)
    \<and> mset (map fst (dp_captured dp)) = mset [0..<length (files (ar_archive r))]
    \<and> dp_captured dp = concat (map2 (\<lambda>k d. numbered (entry_slices (ar_archive r) (span (ar_archive r) k) d))
          [0..<length (blocks (ar_archive r))] ds) @ numbered (empty_entries (ar_archive r))"
proof -
  have "map_computed (ar_archive r)" using new_reader_map(1) [OF assms(1)] assms(2) by simp
  then show ?thesis by (rule pass_collects [OF assms(4,5) gapless_map(1) [OF _ assms(3)]])
qed

text \<open>
  C4: reading a file by its name delivers what a full pass delivers for it.  For an archive that opens,
  is without gaps and whose blocks open and hold the data the header promises, a full pass that collects
  all entries succeeds, and for every entry that is the last of its name \<open>read_file\<close> of that name gives
  the very bytes the pass has collected for the entry; also for a directory or an empty file, and
  whatever key the password has cached.  In a solid archive \<open>read_file\<close> decodes the block from its start
  and drops the other entries.  Otherwise it builds a decode stack of its own and always verifies the
  entry: there the pass must verify too (an entry with a wrong checksum is delivered by a pass that does
  not verify, but not by \<open>read_file\<close>), every block must have a packed stream, and the LZMA2 decoder must
  deliver the same data wherever it cuts its checksums.
\<close>

theorem read_file_delivers_the_entry:
  assumes "with_limits env source pw limits = Inr r0" "ar_archive r = ar_archive r0" "ar_index r = ar_index r0"
    and "gapless (ar_archive r)" "cache_ok (oe_sha (de_open env)) (ar_password r)" "0 < chunk" "0 < de_chunk env"
    and "ready_blocks env r [0..<length (blocks (ar_archive r))] ds"
    and "is_solid (ar_archive r) \<or> ar_verify_checksums r \<and> splits_are_hints env
      \<and> (\<forall>b\<in>set (blocks (ar_archive r)). packed_streams b \<noteq> [])"
  shows "\<exists>dp. for_each_entries env r (reading chunk collecting) [] = (Inr (), dp)
    \<and> (\<forall>name. name \<in> entry_name ` set (files (ar_archive r)) \<longrightarrow>
        (\<exists>i bs. i < length (files (ar_archive r)) \<and> entry_name (files (ar_archive r) ! i) = name
          \<and> (\<forall>j<length (files (ar_archive r)). i < j \<longrightarrow> entry_name (files (ar_archive r) ! j) \<noteq> name)
          \<and> (i, bs) \<in> set (dp_captured dp) \<and> fst (read_file env r name) = Inr bs))"
proof -
  have m: "map_computed (ar_archive r)" "mapped (ar_archive r)"
    "fill_index (files (ar_archive r)) (file_block_index (stream_map_of (ar_archive r))) 0 (\<lambda>_. None) = Inr (ar_index r)"
    using new_reader_map(1,2,4) [OF assms(1)] assms(2,3) by simp_all
  obtain dp where dp: "for_each_entries env r (reading chunk collecting) [] = (Inr (), dp)"
    "dp_captured dp = concat (map2 (\<lambda>k d. numbered (entry_slices (ar_archive r) (span (ar_archive r) k) d))
          [0..<length (blocks (ar_archive r))] ds) @ numbered (empty_entries (ar_archive r))"
    using pass_collects [OF assms(6,8) gapless_map(1) [OF m(1) assms(4)]] by blast
  have "\<exists>i bs. i < length (files (ar_archive r)) \<and> entry_name (files (ar_archive r) ! i) = name
      \<and> (\<forall>j<length (files (ar_archive r)). i < j \<longrightarrow> entry_name (files (ar_archive r) ! j) \<noteq> name)
      \<and> (i, bs) \<in> set (dp_captured dp) \<and> fst (read_file env r name) = Inr bs"
    if named: "name \<in> entry_name ` set (files (ar_archive r))" for name
  proof -
    obtain i where i: "i < length (files (ar_archive r))" "entry_name (files (ar_archive r) ! i) = name"
      "\<forall>j<length (files (ar_archive r)). i < j \<longrightarrow> entry_name (files (ar_archive r) ! j) \<noteq> name"
      "ar_index r name = Some \<lparr>ie_block_index = file_block_index (stream_map_of (ar_archive r)) ! i, ie_file_index = i\<rparr>"
      using fill_index_names [OF m(3), of name] named by auto
    then show ?thesis using read_file_of_pass [OF m(1,2) assms(4,5,7,8,9) i(4,1)] unfolding dp(2) by blast
  qed
  then show ?thesis using dp(1) by blast
qed

section \<open>At a real file\<close>

lemma stored_stack:
  "build_decode_stack sample_env opts stored_file stored_archive 0 pw = (Inr (Unverified ([7, 8, 9], None)), pw)"
proof -
  have "take 3 (drop 32 stored_file) = [7, 8, 9]" by (simp add: stored_file_def SEVEN_Z_SIGNATURE_def)
  moreover have "block_checksum stored_archive 0 sized_block = Inr None"
    by (simp add: block_checksum_def sized_block_parts stored_archive_def one_sub_parts index_or_panic_def nth_option_def)
  moreover have "block_offset_of stored_archive 0 = Inr 32"
    by (simp add: block_offset_of_def stored_archive_def default_archive_def SIGNATURE_HEADER_SIZE_def checked_add_def
        index_or_panic_def nth_option_def)
  moreover have "ordered_coders sized_block = [(0, coder_for (''COPY'', ID_COPY) [])]"
    by (simp add: ordered_coders_def sized_block_def copy_block_def default_block_def ordered_coder_iter_def ordered_rest.simps
      find_bind_pair_for_out_stream_def find_bind_pair_for_in_stream_def nth_option_def coder_for_def method_ids)
  moreover have "\<not> total_output_streams sized_block < total_input_streams sized_block"
    by (simp add: sized_block_def copy_block_def)
  moreover have "run_decoder e Dec_Copy st = st" for e :: "unit open_env" and st by (simp add: run_decoder_def)
  ultimately show ?thesis
    using sized_block_parts(5)
    by (simp add: build_decode_stack_def copy_coder index_or_panic_def nth_option_def stored_archive_def)
       (simp add: coder_for_def)
qed

lemma stored_opens:
  assumes "ar_archive r = stored_archive" "ar_source r = stored_file"
  shows "\<exists>br pw control. open_block sample_env (decoder_of_block r 0) = (Inr (br, Unverified ([7, 8, 9], None)), pw, control)
    \<and> br_archive br = stored_archive \<and> br_index br = 0 \<and> br_env br = sample_env \<and> \<not> br_folding br"
proof -
  have "file_boundaries stored_archive 0 = Inr []"
    by (simp add: file_boundaries_def stored_archive_def default_archive_def index_or_panic_def nth_option_def sized_block_parts
        default_entry_def sized_block_def copy_block_def default_block_def Let_def)
  moreover have "index_or_panic (blocks stored_archive) 0 = Inr sized_block"
    by (simp add: stored_archive_def index_or_panic_def nth_option_def)
  ultimately show ?thesis
    using assms by (simp add: open_block_def decoder_of_block_def stored_stack folding_checksums_def decode_options_of_def Let_def)
qed

lemma stored_ready:
  assumes "ar_archive r = stored_archive" "ar_source r = stored_file"
  shows "ready_blocks sample_env r [0..<length (blocks (ar_archive r))] [[7, 8, 9]]"
proof -
  obtain br pw control where br: "open_block sample_env (decoder_of_block r 0) = (Inr (br, Unverified ([7, 8, 9], None)), pw, control)"
    "br_archive br = stored_archive" "br_index br = 0" "br_env br = sample_env" "\<not> br_folding br"
    using stored_opens [OF assms] by blast
  have "span stored_archive 0 = [0]"
    by (simp add: span_def stored_archive_def sized_block_parts upt_rec)
  moreover have "get_unpack_size sized_block = Some 3"
    using sized_block_parts(6) by (simp add: unpack_size_or_panic_def split: option.splits)
  ultimately have "block_ready br (Unverified ([7, 8, 9], None)) [7, 8, 9]"
    using br unfolding block_ready_def
    by (simp add: holds_entries_def folds_soundly_def stored_archive_def Let_def slice_ok_def sample_env_def constant_env_def default_entry_def)
  moreover have "[0..<length (blocks stored_archive)] = [0]" by (simp add: stored_archive_def)
  ultimately show ?thesis using br(1) by (simp add: assms(1))
qed

lemma stored_gapless: "gapless stored_archive"
  by (simp add: gapless_def stored_archive_def subs_before_def streamed_before_def sized_block_parts)

theorem every_entry_is_visited_once_witness:
  "\<exists>r. with_limits sample_env stored_file password_empty limits_default = Inr r
    \<and> (\<exists>dp. for_each_entries sample_env r (reading 4 collecting) [] = (Inr (), dp) \<and> dp_captured dp = [(0, [7, 8, 9])])"
proof -
  obtain r where r: "with_limits sample_env stored_file password_empty limits_default = Inr r" "ar_archive r = stored_archive"
    "ar_source r = stored_file"
    using stored_file_reader by (auto simp: with_limits_def new_reader_def ebind_eq_Inr split: sum.splits prod.splits)
  have g: "gapless (ar_archive r)" by (simp add: r(2) stored_gapless)
  have "entry_slices stored_archive (span stored_archive 0) [7, 8, 9] = [(0, files stored_archive ! 0, [7, 8, 9])]"
    by (simp add: span_def stored_archive_def sized_block_parts upt_rec Let_def)
  moreover have "empty_entries stored_archive = []" "[0..<length (blocks stored_archive)] = [0]"
    by (simp_all add: empty_entries_def stored_archive_def)
  ultimately show ?thesis
    using every_entry_is_visited_once [OF r(1) refl g _ stored_ready [OF r(2,3)], of 4] r(1)
    by (auto simp: r(2) numbered_def)
qed

theorem read_file_delivers_the_entry_witness:
  "\<exists>r dp. with_limits sample_env stored_file password_empty limits_default = Inr r \<and> \<not> is_solid (ar_archive r)
    \<and> for_each_entries sample_env r (reading 4 collecting) [] = (Inr (), dp)
    \<and> (\<exists>bs. (0, bs) \<in> set (dp_captured dp) \<and> fst (read_file sample_env r []) = Inr bs)"
proof -
  obtain r where r: "with_limits sample_env stored_file password_empty limits_default = Inr r" "ar_archive r = stored_archive"
    "ar_source r = stored_file" "ar_verify_checksums r"
    using stored_file_reader by (auto simp: with_limits_def new_reader_def ebind_eq_Inr split: sum.splits prod.splits)
  have g: "gapless (ar_archive r)" by (simp add: r(2) stored_gapless)
  have "cache_ok (oe_sha (de_open sample_env)) password_empty" by (simp add: cache_ok_def password_empty_def empty_cache_def)
  from new_reader_map(3) [OF r(1) this] have c: "cache_ok (oe_sha (de_open sample_env)) (ar_password r)" .
  have "splits_are_hints sample_env" by (simp add: splits_are_hints_def sample_env_def constant_env_def willing_def)
  then have alone: "is_solid (ar_archive r) \<or> ar_verify_checksums r \<and> splits_are_hints sample_env
      \<and> (\<forall>b\<in>set (blocks (ar_archive r)). packed_streams b \<noteq> [])"
    using r(4) by (simp add: r(2) stored_archive_def sized_block_parts)
  have chunk: "0 < de_chunk sample_env" by (simp add: sample_env_def)
  have one: "length (files stored_archive) = 1" "[] \<in> entry_name ` set (files stored_archive)" "\<not> is_solid stored_archive"
    by (simp_all add: stored_archive_def default_entry_def default_archive_def)
  obtain dp where dp: "for_each_entries sample_env r (reading 4 collecting) [] = (Inr (), dp)"
    "\<exists>i bs. i < 1 \<and> (i, bs) \<in> set (dp_captured dp) \<and> fst (read_file sample_env r []) = Inr bs"
    using read_file_delivers_the_entry [OF r(1) refl refl g c _ chunk stored_ready [OF r(2,3)] alone, of 4] one(1,2)
    unfolding r(2) by (metis zero_less_numeral)
  then show ?thesis using r(1) one(3) by (intro exI [of _ r] exI [of _ dp]) (simp add: r(2))
qed

end
