(* ===== verification/Lzma2_Reader.thy ===== *)
theory Lzma2_Reader
  imports Lzma2_Plan Io_Streams "HOL-Library.Monad_Syntax"
begin

text \<open>
  \<open>Lzma2MtReader\<close> of \<open>src/codec/lzma_turbo.rs\<close>: the loop that turns a decoder one feeds and drains into a
  reader.  It reads the packed stream ahead, walks its chunk headers with a scanner of its own, feeds whole runs
  to the decoder while their ends are known and a run as it arrives when nothing else is left to do, and hands
  out what the decoder delivers.  The decoder \<open>Lzma2AdaptiveDecoder\<close> and the scanner \<open>Lzma2RunScanner\<close> belong to
  another crate and are the parameter \<open>mt_env\<close>.  \<open>None\<close> is a panic, or a loop that does not end.  The pieces kept
  in \<open>spare\<close> to be filled again and the timing are left out; offsets in the stream are natural numbers.
\<close>

section \<open>The decoder and the scanner\<close>

datatype drain_status = Finished | Progress | NeedsMoreInput

record ('d, 'c) mt_env =
  me_new :: "u8 \<Rightarrow> nat \<Rightarrow> u64 \<Rightarrow> string + 'd"
  me_set_checksum :: "u64 list \<Rightarrow> 'd \<Rightarrow> 'd"
  me_set_threads :: "nat \<Rightarrow> 'd \<Rightarrow> 'd"
  me_memory_limit :: "'d \<Rightarrow> u64"
  me_in_flight :: "'d \<Rightarrow> u64"
  me_pending_runs :: "'d \<Rightarrow> nat"
  me_runs_claimed :: "'d \<Rightarrow> u64"
  me_spawned :: "'d \<Rightarrow> nat"
  me_feed :: "bytes \<Rightarrow> 'd \<Rightarrow> (string + nat) \<times> 'd"
  me_end_of_input :: "'d \<Rightarrow> 'd"
  me_drain :: "nat \<Rightarrow> 'd \<Rightarrow> bytes list \<times> (string + drain_status) \<times> 'd"
  me_take_checks :: "'d \<Rightarrow> (u64 \<times> u64 \<times> u32 option) list list \<times> 'd"
  me_scanner :: 'c
  me_scan :: "bytes \<Rightarrow> 'c \<Rightarrow> (string + nat) \<times> 'c"
  me_next_run :: "'c \<Rightarrow> bool \<times> 'c"
  me_scan_finished :: "'c \<Rightarrow> bool"
  me_open_run :: "'c \<Rightarrow> nat option"
  me_position :: "'c \<Rightarrow> nat"

definition decode_error :: "string \<Rightarrow> io_error" where
  "decode_error err = Io_Error InvalidData err"

definition MT_OUTPUT_CHUNK :: nat where "MT_OUTPUT_CHUNK = 2 ^ 20"
definition MT_NO_WORKER_GIVE_UP_BYTES :: nat where "MT_NO_WORKER_GIVE_UP_BYTES = 256 * 1024 * 1024"
definition MT_INPUT_HOLD_BYTES :: nat where "MT_INPUT_HOLD_BYTES = 192 * 1024 * 1024"

section \<open>The reader\<close>

record ('s, 'd, 'c) mt_reader =
  mr_decoder :: 'd
  mr_input :: 's
  mr_control :: lzma2_control
  mr_applied_threads :: u32
  mr_inbuf :: bytes
  mr_in_pos :: nat
  mr_base :: nat
  mr_scan_pos :: nat
  mr_scanner :: 'c
  mr_runs_seen :: nat
  mr_chasing :: bool
  mr_scan_broken :: bool
  mr_input_done :: bool
  mr_out :: "bytes list"
  mr_out_pos :: nat
  mr_finished :: bool
  mr_checksums :: bool
  mr_fed_total :: nat

definition mt_new ::
  "('d, 'c) mt_env \<Rightarrow> 's \<Rightarrow> u8 \<Rightarrow> u32 \<Rightarrow> u64 \<Rightarrow> lzma2_control \<Rightarrow> u64 list \<Rightarrow> io_error + ('s, 'd, 'c) mt_reader" where
  "mt_new env input dict_prop threads memory_limit control splits =
     (case me_new env dict_prop (unat threads) memory_limit of
        Inl e \<Rightarrow> Inl (decode_error e)
      | Inr d \<Rightarrow> Inr \<lparr>
          mr_decoder = (if splits \<noteq> [] then me_set_checksum env splits d else d), mr_input = input,
          mr_control = control_set_threads threads (engage control), mr_applied_threads = threads,
          mr_inbuf = [], mr_in_pos = 0, mr_base = 0, mr_scan_pos = 0, mr_scanner = me_scanner env, mr_runs_seen = 0,
          mr_chasing = False, mr_scan_broken = False, mr_input_done = False, mr_out = [], mr_out_pos = 0,
          mr_finished = False, mr_checksums = splits \<noteq> [], mr_fed_total = 0\<rparr>)"

definition mt_collect_checks :: "('d, 'c) mt_env \<Rightarrow> ('s, 'd, 'c) mt_reader \<Rightarrow> ('s, 'd, 'c) mt_reader" where
  "mt_collect_checks env r =
     (if \<not> mr_checksums r then r
      else case me_take_checks env (mr_decoder r) of
             (told, d) \<Rightarrow> r\<lparr>mr_decoder := d, mr_control := fold fold_segments told (mr_control r)\<rparr>)"

definition mt_publish :: "('d, 'c) mt_env \<Rightarrow> ('s, 'd, 'c) mt_reader \<Rightarrow> ('s, 'd, 'c) mt_reader" where
  "mt_publish env r =
     (let d = mr_decoder r
      in r\<lparr>mr_control := (mr_control r)\<lparr>ctl_pending_runs := me_pending_runs env d, ctl_runs_claimed := me_runs_claimed env d,
           ctl_in_flight_bytes := me_in_flight env d,
           ctl_spawned_threads := (if me_spawned env d < 2 ^ 32 then of_nat (me_spawned env d) else 0xFFFFFFFF)\<rparr>\<rparr>)"

definition mt_sync_threads :: "('d, 'c) mt_env \<Rightarrow> ('s, 'd, 'c) mt_reader \<Rightarrow> ('s, 'd, 'c) mt_reader" where
  "mt_sync_threads env r =
     (let want = ctl_threads (mr_control r)
      in if want \<noteq> mr_applied_threads r
         then r\<lparr>mr_decoder := me_set_threads env (unat want) (mr_decoder r), mr_applied_threads := want\<rparr> else r)"

definition mt_backlog_wanted :: "('d, 'c) mt_env \<Rightarrow> ('s, 'd, 'c) mt_reader \<Rightarrow> u64" where
  "mt_backlog_wanted env r = backlog_wanted (mr_applied_threads r) (of_nat (me_pending_runs env (mr_decoder r)))"

definition mt_safe_limit :: "('d, 'c) mt_env \<Rightarrow> ('s, 'd, 'c) mt_reader \<Rightarrow> nat" where
  "mt_safe_limit env r =
     (if mr_input_done r \<or> mr_scan_broken r then mr_base r + length (mr_inbuf r)
      else case me_open_run env (mr_scanner r) of
             Some offset \<Rightarrow> offset
           | None \<Rightarrow> me_position env (mr_scanner r))"

section \<open>Reading ahead\<close>

function mt_fill :: "'s io_reader \<Rightarrow> nat \<Rightarrow> bytes \<Rightarrow> 's \<Rightarrow> io_error option \<times> bytes \<times> 's" where
  "mt_fill rd room got s =
     (if room = 0 then (None, got, s)
      else case rd room s of
             (Inl e, s') \<Rightarrow> (Some e, got, s')
           | (Inr xs, s') \<Rightarrow>
               let bs = take room xs
               in if bs = [] then (None, got, s') else mt_fill rd (room - length bs) (got @ bs) s')"
  by pat_completeness auto
termination by (relation "measure (\<lambda>(rd, room, got, s). room)") (auto simp: neq_Nil_conv)

declare mt_fill.simps [simp del]

partial_function (option) count_runs :: "('c \<Rightarrow> bool \<times> 'c) \<Rightarrow> nat \<Rightarrow> 'c \<Rightarrow> (nat \<times> 'c) option" where
  "count_runs next_run n c =
     (case next_run c of (again, c') \<Rightarrow> if again then count_runs next_run (n + 1) c' else Some (n, c'))"

text \<open>The bytes the decoder took are dropped once they are a chunk.\<close>

definition mt_compact :: "('s, 'd, 'c) mt_reader \<Rightarrow> ('s, 'd, 'c) mt_reader option" where
  "mt_compact r =
     (if MT_INPUT_CHUNK \<le> mr_in_pos r then
        if length (mr_inbuf r) < mr_in_pos r \<or> mr_scan_pos r < mr_in_pos r then None
        else Some (r\<lparr>mr_inbuf := drop (mr_in_pos r) (mr_inbuf r), mr_base := mr_base r + mr_in_pos r,
               mr_scan_pos := mr_scan_pos r - mr_in_pos r, mr_in_pos := 0\<rparr>)
      else Some r)"

definition mt_scan_more :: "('d, 'c) mt_env \<Rightarrow> ('s, 'd, 'c) mt_reader \<Rightarrow> ('s, 'd, 'c) mt_reader option" where
  "mt_scan_more env r = do {
     r1 \<leftarrow> (if mr_scan_broken r \<or> me_scan_finished env (mr_scanner r) then Some r
            else if length (mr_inbuf r) < mr_scan_pos r then None
            else case me_scan env (drop (mr_scan_pos r) (mr_inbuf r)) (mr_scanner r) of
                   (Inl _, c) \<Rightarrow> Some (r\<lparr>mr_scanner := c, mr_scan_broken := True\<rparr>)
                 | (Inr n, c) \<Rightarrow> do {
                     (runs, c') \<leftarrow> count_runs (me_next_run env) (mr_runs_seen r) c;
                     Some (r\<lparr>mr_scan_pos := mr_scan_pos r + n, mr_scanner := c', mr_runs_seen := runs\<rparr>) });
     Some (if mr_scan_broken r1 \<or> me_scan_finished env (mr_scanner r1) then r1\<lparr>mr_scan_pos := length (mr_inbuf r1)\<rparr> else r1) }"

text \<open>When the source fails, the buffer keeps the length it was given to be read into.\<close>

definition mt_refill ::
  "('d, 'c) mt_env \<Rightarrow> 's io_reader \<Rightarrow> ('s, 'd, 'c) mt_reader \<Rightarrow> (io_error option \<times> ('s, 'd, 'c) mt_reader) option" where
  "mt_refill env rd r = do {
     r1 \<leftarrow> mt_compact r;
     (case mt_fill rd MT_INPUT_CHUNK [] (mr_input r1) of
        (Some e, bs, s) \<Rightarrow>
          Some (Some e, r1\<lparr>mr_inbuf := mr_inbuf r1 @ bs @ replicate (MT_INPUT_CHUNK - length bs) 0, mr_input := s\<rparr>)
      | (None, bs, s) \<Rightarrow>
          if bs = [] then Some (None, r1\<lparr>mr_input := s, mr_input_done := True, mr_decoder := me_end_of_input env (mr_decoder r1)\<rparr>)
          else do {
            r2 \<leftarrow> mt_scan_more env (r1\<lparr>mr_inbuf := mr_inbuf r1 @ bs, mr_input := s\<rparr>);
            Some (None, r2) }) }"

section \<open>Feeding\<close>

datatype mt_next = Stop_Feeding | Refill | Offer nat

text \<open>What the next turn of the loop does; an offer is up to an index of the buffer.\<close>

definition mt_choose ::
  "('d, 'c) mt_env \<Rightarrow> ('s, 'd, 'c) mt_reader \<Rightarrow> (mt_next \<times> ('s, 'd, 'c) mt_reader) option" where
  "mt_choose env r =
     (let in_flight = me_in_flight env (mr_decoder r); len = length (mr_inbuf r);
          one_run = (mr_runs_seen r = 0 \<and> MT_NO_WORKER_GIVE_UP_BYTES < me_position env (mr_scanner r) \<and> \<not> mr_input_done r);
          target = (if one_run then of_nat MT_INPUT_CHUNK else feed_target (mr_applied_threads r) (me_memory_limit env (mr_decoder r)));
          hold = (if one_run then 2 * MT_INPUT_CHUNK else MT_INPUT_HOLD_BYTES);
          to = min len (mt_safe_limit env r - mr_base r)
      in if target \<le> in_flight then Some (Stop_Feeding, r)
         else if mr_in_pos r < to then Some (Offer to, r\<lparr>mr_chasing := False\<rparr>)
         else if \<not> mr_input_done r \<and> len < mr_in_pos r then None
         else if \<not> mr_input_done r \<and> len - mr_in_pos r < hold then Some (Refill, r)
         else if (mr_chasing r \<or> in_flight = 0) \<and> mr_in_pos r < len
              then Some (Offer (min len (mr_in_pos r + MT_INPUT_CHUNK)), r\<lparr>mr_chasing := True\<rparr>)
         else Some (Stop_Feeding, r))"

definition mt_offer ::
  "('d, 'c) mt_env \<Rightarrow> nat \<Rightarrow> ('s, 'd, 'c) mt_reader \<Rightarrow> (io_error + nat) \<times> ('s, 'd, 'c) mt_reader" where
  "mt_offer env to r =
     (case me_feed env (take (to - mr_in_pos r) (drop (mr_in_pos r) (mr_inbuf r))) (mr_decoder r) of
        (Inl e, d) \<Rightarrow> (Inl (decode_error e), r\<lparr>mr_decoder := d\<rparr>)
      | (Inr taken, d) \<Rightarrow>
          (Inr taken, r\<lparr>mr_decoder := d, mr_in_pos := mr_in_pos r + taken, mr_fed_total := mr_fed_total r + taken\<rparr>))"

partial_function (option) pump_loop ::
  "('d, 'c) mt_env \<Rightarrow> 's io_reader \<Rightarrow> u64 \<Rightarrow> nat \<Rightarrow> bool \<Rightarrow> ('s, 'd, 'c) mt_reader
    \<Rightarrow> ((io_error + bool) \<times> ('s, 'd, 'c) mt_reader) option" where
  "pump_loop env rd want_runs runs_at_start fed r =
     (if fed \<and> unat want_runs \<le> mr_runs_seen r - runs_at_start then Some (Inr fed, r)
      else Option.bind (mt_choose env r) (\<lambda>(next, r1).
        case next of
          Stop_Feeding \<Rightarrow> Some (Inr fed, r1)
        | Refill \<Rightarrow> Option.bind (mt_refill env rd r1) (\<lambda>(e, r2).
            case e of Some e \<Rightarrow> Some (Inl e, r2) | None \<Rightarrow> pump_loop env rd want_runs runs_at_start fed r2)
        | Offer to \<Rightarrow>
            case mt_offer env to r1 of
              (Inl e, r2) \<Rightarrow> Some (Inl e, r2)
            | (Inr taken, r2) \<Rightarrow>
                if taken < to - mr_in_pos r1 then Some (Inr (fed \<or> 0 < taken), r2)
                else pump_loop env rd want_runs runs_at_start (fed \<or> 0 < taken) r2))"

definition pump_input ::
  "('d, 'c) mt_env \<Rightarrow> 's io_reader \<Rightarrow> u64 \<Rightarrow> ('s, 'd, 'c) mt_reader \<Rightarrow> ((io_error + bool) \<times> ('s, 'd, 'c) mt_reader) option" where
  "pump_input env rd want_runs r = pump_loop env rd want_runs (mr_runs_seen r) False r"

section \<open>Reading\<close>

text \<open>What finds no room in the caller's buffer goes into pieces of a fixed size; a piece is never longer.\<close>

function mt_spill :: "bytes list \<Rightarrow> bytes \<Rightarrow> bytes list" where
  "mt_spill out rest =
     (if rest = [] then out
      else
        let out1 = (if out = [] \<or> MT_OUTPUT_CHUNK \<le> length (last out) then out @ [[]] else out); piece = last out1;
            n = min (MT_OUTPUT_CHUNK - length piece) (length rest)
        in mt_spill (butlast out1 @ [piece @ take n rest]) (drop n rest))"
  by pat_completeness auto
termination
  by (relation "measure (\<lambda>(out, rest). length rest)") (auto simp: MT_OUTPUT_CHUNK_def)

declare mt_spill.simps [simp del]

definition mt_sink :: "nat \<Rightarrow> bytes \<Rightarrow> bytes \<times> bytes list \<Rightarrow> bytes \<times> bytes list" where
  "mt_sink n bs acc =
     (case acc of (direct, out) \<Rightarrow>
        let k = min (n - length direct) (length bs) in (direct @ take k bs, mt_spill out (drop k bs)))"

text \<open>One round: the backlog is topped up, the decoder drained, and fed again when it asks for more.\<close>

definition mt_top_up ::
  "('d, 'c) mt_env \<Rightarrow> 's io_reader \<Rightarrow> ('s, 'd, 'c) mt_reader \<Rightarrow> (io_error option \<times> ('s, 'd, 'c) mt_reader) option" where
  "mt_top_up env rd r =
     (if mr_input_done r \<or> mt_backlog_wanted env r = 0 then Some (None, r)
      else do {
        (res, r1) \<leftarrow> pump_input env rd (mt_backlog_wanted env r) r;
        Some (case res of Inl e \<Rightarrow> (Some e, r1) | Inr _ \<Rightarrow> (None, r1)) })"

definition mt_finish :: "('s, 'd, 'c) mt_reader \<Rightarrow> ('s, 'd, 'c) mt_reader" where
  "mt_finish r = r\<lparr>mr_control := control_finish (mr_control r)\<rparr>"

definition mt_round ::
  "('d, 'c) mt_env \<Rightarrow> 's io_reader \<Rightarrow> nat \<Rightarrow> ('s, 'd, 'c) mt_reader \<Rightarrow> ((io_error + bytes) \<times> ('s, 'd, 'c) mt_reader) option" where
  "mt_round env rd n r = do {
     (e, r1) \<leftarrow> mt_top_up env rd (mt_sync_threads env r);
     (case e of
        Some e \<Rightarrow> Some (Inl e, r1)
      | None \<Rightarrow>
          let told_the_end = mr_input_done r1
          in case me_drain env n (mr_decoder r1) of
               (pieces, res, d) \<Rightarrow>
                 (case fold (mt_sink n) pieces ([], mr_out r1) of
                    (direct, out) \<Rightarrow>
                      let r2 = r1\<lparr>mr_decoder := d, mr_out := out\<rparr>
                      in case res of
                           Inl e \<Rightarrow> Some (Inl (decode_error e), mt_finish r2)
                         | Inr status \<Rightarrow>
                             let r3 = mt_publish env (mt_collect_checks env r2)
                             in case status of
                                  Finished \<Rightarrow> Some (Inr direct, mt_finish (r3\<lparr>mr_finished := True\<rparr>))
                                | Progress \<Rightarrow> Some (Inr direct, r3)
                                | NeedsMoreInput \<Rightarrow> do {
                                    (res, r4) \<leftarrow> pump_input env rd (max (mt_backlog_wanted env r3) 1) r3;
                                    (case res of
                                       Inl e \<Rightarrow> Some (Inl e, r4)
                                     | Inr pumped \<Rightarrow>
                                         if \<not> pumped \<and> told_the_end \<and> direct = [] \<and> mr_out r4 = []
                                         then Some (Inl (Io_Error UnexpectedEof ''LZMA2 stream ended without its end marker''), mt_finish r4)
                                         else Some (Inr direct, r4)) })) }"

partial_function (option) mt_read ::
  "('d, 'c) mt_env \<Rightarrow> 's io_reader \<Rightarrow> nat \<Rightarrow> ('s, 'd, 'c) mt_reader \<Rightarrow> ((io_error + bytes) \<times> ('s, 'd, 'c) mt_reader) option" where
  "mt_read env rd n r =
     (case mr_out r of
        front # rest \<Rightarrow>
          if mr_out_pos r < length front
          then let k = min (length front - mr_out_pos r) n
               in Some (Inr (take k (drop (mr_out_pos r) front)), r\<lparr>mr_out_pos := mr_out_pos r + k\<rparr>)
          else mt_read env rd n (r\<lparr>mr_out := rest, mr_out_pos := 0\<rparr>)
      | [] \<Rightarrow>
          if mr_finished r \<or> n = 0 then Some (Inr [], r)
          else Option.bind (mt_round env rd n r) (\<lambda>(res, r1).
            case res of
              Inl e \<Rightarrow> Some (Inl e, r1)
            | Inr direct \<Rightarrow> if direct \<noteq> [] then Some (Inr direct, r1) else mt_read env rd n r1))"

section \<open>The decoder of a coder\<close>

text \<open>Without threads the decoder is \<open>Lzma2Reader\<close> of the other crate: its constructor and its \<open>read\<close> are parameters.\<close>

datatype ('x, 's, 'd, 'c) lzma2_coder = Plain_Coder 'x | Adaptive_Coder "('s, 'd, 'c) mt_reader"

definition lzma2_decoder ::
  "('d, 'c) mt_env \<Rightarrow> ('s \<Rightarrow> u8 \<Rightarrow> io_error + 'x) \<Rightarrow> 's \<Rightarrow> u8 \<Rightarrow> lzma2_plan \<Rightarrow> lzma2_control \<Rightarrow> io_error + ('x, 's, 'd, 'c) lzma2_coder" where
  "lzma2_decoder env plain_new input dict_prop plan control =
     (case plan of
        SingleThreaded \<Rightarrow> map_sum id Plain_Coder (plain_new input dict_prop)
      | Adaptive threads memory_limit splits \<Rightarrow>
          map_sum id Adaptive_Coder (mt_new env input dict_prop threads memory_limit control splits))"

definition mt_io :: "('d, 'c) mt_env \<Rightarrow> 's io_reader \<Rightarrow> ('s, 'd, 'c) mt_reader io_reader" where
  "mt_io env rd n r = (case mt_read env rd n r of Some x \<Rightarrow> x | None \<Rightarrow> (Inl (Io_Error OtherKind ''panic''), r))"

definition lzma2_coder_read ::
  "('d, 'c) mt_env \<Rightarrow> 's io_reader \<Rightarrow> 'x io_reader \<Rightarrow> ('x, 's, 'd, 'c) lzma2_coder io_reader" where
  "lzma2_coder_read env rd plain_rd n c =
     (case c of
        Plain_Coder x \<Rightarrow> (case plain_rd n x of (res, x') \<Rightarrow> (res, Plain_Coder x'))
      | Adaptive_Coder r \<Rightarrow> (case mt_io env rd n r of (res, r') \<Rightarrow> (res, Adaptive_Coder r')))"

text \<open>A caller that sets the number of threads before some of its reads, through the handle it holds.\<close>

fun steered_read ::
  "('d, 'c) mt_env \<Rightarrow> 's io_reader \<Rightarrow> 'x io_reader \<Rightarrow> (u32 list \<times> ('x, 's, 'd, 'c) lzma2_coder) io_reader" where
  "steered_read env rd plain_rd n (t # ts, Adaptive_Coder r) =
     (case lzma2_coder_read env rd plain_rd n (Adaptive_Coder (r\<lparr>mr_control := handle_set_threads t (mr_control r)\<rparr>)) of
        (res, c) \<Rightarrow> (res, ts, c))"
| "steered_read env rd plain_rd n (ts, c) = (case lzma2_coder_read env rd plain_rd n c of (res, c') \<Rightarrow> (res, ts, c'))"

end
