(* ===== verification/Lzma2_Reading.thy ===== *)
theory Lzma2_Reading
  imports Lzma2_Reader
begin

text \<open>
  What the parallel LZMA2 reader delivers.  \<open>serves\<close> is what the reader relies on of the decoder and the scanner,
  for one stream: the decoder takes bytes in order and refuses only while it holds some, what it hands over is the
  data in order, it asks for more only when it can go no further, and a round without output comes nearer to one
  with; the scanner takes what it is given and names the start of the run it is in.  Under it the reader is a
  \<open>byte_source\<close> of the data.
\<close>

section \<open>What the reader relies on\<close>

record ('d, 'c) mt_spec =
  sp_packed :: bytes
  sp_data :: bytes
  sp_bounds :: "nat \<Rightarrow> bool"
  sp_good :: "'d \<Rightarrow> bool"
  sp_taken :: "'d \<Rightarrow> nat"
  sp_given :: "'d \<Rightarrow> nat"
  sp_hungry :: "'d \<Rightarrow> bool"
  sp_rank :: "'d \<Rightarrow> nat"
  sp_walks :: "'c \<Rightarrow> bool"
  sp_scanned :: "'c \<Rightarrow> nat"
  sp_runs :: "'c \<Rightarrow> nat"

definition part_at :: "bytes \<Rightarrow> nat \<Rightarrow> bytes \<Rightarrow> bool" where
  "part_at xs k bs \<longleftrightarrow> k + length bs \<le> length xs \<and> bs = take (length bs) (drop k xs)"

definition same_state :: "('d, 'c) mt_spec \<Rightarrow> 'd \<Rightarrow> 'd \<Rightarrow> bool" where
  "same_state sp d d' \<longleftrightarrow>
     sp_good sp d' \<and> sp_taken sp d' = sp_taken sp d \<and> sp_given sp d' = sp_given sp d \<and> sp_rank sp d' = sp_rank sp d"

definition feeds :: "('d, 'c) mt_env \<Rightarrow> ('d, 'c) mt_spec \<Rightarrow> bool" where
  "feeds env sp \<longleftrightarrow>
     (\<forall>d bs. sp_good sp d \<longrightarrow> part_at (sp_packed sp) (sp_taken sp d) bs \<longrightarrow>
        (\<exists>k d'. me_feed env bs d = (Inr k, d') \<and> k \<le> length bs \<and> sp_good sp d' \<and> sp_taken sp d' = sp_taken sp d + k
           \<and> sp_given sp d' = sp_given sp d \<and> (k = 0 \<longrightarrow> sp_rank sp d' = sp_rank sp d)
           \<and> (sp_hungry sp d \<longrightarrow> bs \<noteq> [] \<longrightarrow> 0 < k)))"

definition hands_out :: "('d, 'c) mt_env \<Rightarrow> ('d, 'c) mt_spec \<Rightarrow> bool" where
  "hands_out env sp \<longleftrightarrow>
     (\<forall>d n. sp_good sp d \<longrightarrow> 0 < n \<longrightarrow>
        (\<exists>pieces st d'. me_drain env n d = (pieces, Inr st, d') \<and> sp_good sp d' \<and> sp_taken sp d' = sp_taken sp d
           \<and> length (concat pieces) \<le> n \<and> part_at (sp_data sp) (sp_given sp d) (concat pieces)
           \<and> sp_given sp d' = sp_given sp d + length (concat pieces)
           \<and> (st = Finished \<longrightarrow> sp_given sp d' = length (sp_data sp))
           \<and> (st = Progress \<longrightarrow> concat pieces = [] \<longrightarrow> sp_rank sp d' < sp_rank sp d)
           \<and> (st = NeedsMoreInput \<longrightarrow> sp_hungry sp d' \<and> sp_taken sp d' < length (sp_packed sp))))"

definition idles :: "('d, 'c) mt_env \<Rightarrow> ('d, 'c) mt_spec \<Rightarrow> bool" where
  "idles env sp \<longleftrightarrow>
     (\<forall>d. sp_good sp d \<longrightarrow> sp_taken sp d \<le> length (sp_packed sp) \<and> 2 ^ 21 \<le> unat (me_memory_limit env d)
        \<and> (sp_hungry sp d \<longrightarrow> unat (me_in_flight env d) < MT_INPUT_CHUNK
           \<and> (sp_bounds sp (sp_taken sp d) \<longrightarrow> me_in_flight env d = 0))
        \<and> (\<forall>threads. same_state sp d (me_set_threads env threads d))
        \<and> same_state sp d (me_end_of_input env d) \<and> sp_hungry sp (me_end_of_input env d) = sp_hungry sp d
        \<and> same_state sp d (snd (me_take_checks env d)) \<and> sp_hungry sp (snd (me_take_checks env d)) = sp_hungry sp d)"

definition run_start :: "('d, 'c) mt_env \<Rightarrow> 'c \<Rightarrow> nat" where
  "run_start env c = (case me_open_run env c of Some k \<Rightarrow> k | None \<Rightarrow> me_position env c)"

definition scans :: "('d, 'c) mt_env \<Rightarrow> ('d, 'c) mt_spec \<Rightarrow> bool" where
  "scans env sp \<longleftrightarrow>
     (\<forall>c. sp_walks sp c \<longrightarrow>
        sp_bounds sp (run_start env c) \<and> (me_scan_finished env c \<longrightarrow> sp_scanned sp c = length (sp_packed sp))
        \<and> (\<forall>bs. part_at (sp_packed sp) (sp_scanned sp c) bs \<longrightarrow> \<not> me_scan_finished env c \<longrightarrow>
             (\<exists>e c'. me_scan env bs c = (Inl e, c')) \<or>
             (\<exists>c'. me_scan env bs c = (Inr (length bs), c') \<and> sp_walks sp c' \<and> sp_scanned sp c' = sp_scanned sp c + length bs
                \<and> run_start env c \<le> run_start env c'))
        \<and> (\<exists>again c'. me_next_run env c = (again, c') \<and> sp_walks sp c' \<and> sp_scanned sp c' = sp_scanned sp c
             \<and> run_start env c' = run_start env c \<and> (again \<longrightarrow> sp_runs sp c' < sp_runs sp c)))"

definition starts :: "('d, 'c) mt_env \<Rightarrow> ('d, 'c) mt_spec \<Rightarrow> bool" where
  "starts env sp \<longleftrightarrow>
     (\<forall>p threads limit d. MT_MIN_BUDGET_BYTES \<le> limit \<longrightarrow> me_new env p threads limit = Inr d \<longrightarrow>
        (\<forall>d' \<in> {d} \<union> range (\<lambda>splits. me_set_checksum env splits d). sp_good sp d' \<and> sp_taken sp d' = 0 \<and> sp_given sp d' = 0))
     \<and> sp_walks sp (me_scanner env) \<and> sp_scanned sp (me_scanner env) = 0"

definition serves :: "('d, 'c) mt_env \<Rightarrow> ('d, 'c) mt_spec \<Rightarrow> bool" where
  "serves env sp \<longleftrightarrow> feeds env sp \<and> hands_out env sp \<and> idles env sp \<and> scans env sp \<and> starts env sp"

lemma serves_parts:
  assumes "serves env sp"
  shows "feeds env sp" "hands_out env sp" "idles env sp" "scans env sp"
  using assms by (simp_all add: serves_def)

lemma same_state_trans: "same_state sp d d' \<Longrightarrow> same_state sp d' d'' \<Longrightarrow> same_state sp d d''"
  by (simp add: same_state_def)

section \<open>Reading ahead\<close>

lemma part_append: "part_at xs k bs \<Longrightarrow> part_at xs (k + length bs) cs \<Longrightarrow> part_at xs k (bs @ cs)"
  using take_add [of "length bs" "length cs" "drop k xs"] by (simp add: part_at_def add.commute add.left_commute)

lemma part_sub:
  assumes "part_at xs k bs" "i \<le> length bs"
  shows "part_at xs (k + i) (take j (drop i bs))"
proof -
  have b: "k + length bs \<le> length xs" "bs = take (length bs) (drop k xs)" using assms(1) by (simp_all add: part_at_def)
  have "drop i bs = take (length bs - i) (drop (k + i) xs)"
    by (subst b(2)) (simp add: drop_take add.commute)
  then have "take j (drop i bs) = take (min j (length bs - i)) (drop (k + i) xs)" by (simp add: min.commute)
  moreover have "length (take j (drop i bs)) = min j (length bs - i)" by simp
  ultimately show ?thesis using b(1) assms(2) unfolding part_at_def by auto
qed

lemma fill_reads:
  assumes "byte_source rd good content"
  shows "good s \<Longrightarrow> 0 < room \<Longrightarrow> \<exists>bs s'. mt_fill rd room got s = (None, got @ bs, s') \<and> good s' \<and> content s = bs @ content s'
    \<and> (bs = [] \<longrightarrow> content s = [])"
proof (induction room arbitrary: got s rule: less_induct)
  case (less room)
  from byte_source.read_cases [OF assms less.prems]
  obtain xs s1 where x: "rd room s = (Inr xs, s1)" "good s1" "length xs \<le> room"
    and c: "content s = xs @ content s1" and e: "xs = [] \<longleftrightarrow> content s = []" by metis
  show ?case
  proof (cases "xs = []")
    case True
    then have "mt_fill rd room got s = (None, got @ [], s1)" using x less.prems(2) by (subst mt_fill.simps) simp
    moreover have "content s = []" using True e by blast
    ultimately show ?thesis using x(2) c True by (intro exI [of _ "[]"] exI [of _ s1]) simp
  next
    case False
    have step: "mt_fill rd room got s = mt_fill rd (room - length xs) (got @ xs) s1"
      using False x(1,3) less.prems(2) by (subst mt_fill.simps) (simp add: Let_def)
    show ?thesis
    proof (cases "length xs = room")
      case True
      have "mt_fill rd room got s = (None, got @ xs, s1)" unfolding step using True by (subst mt_fill.simps) simp
      then show ?thesis using x(2) c False by blast
    next
      case False
      have lt: "room - length xs < room" "0 < room - length xs" using False x(3) \<open>xs \<noteq> []\<close> less.prems(2) by simp_all
      from less.IH [OF lt(1) x(2) lt(2), of "got @ xs"] obtain bs s' where
        b: "mt_fill rd (room - length xs) (got @ xs) s1 = (None, (got @ xs) @ bs, s')" "good s'" "content s1 = bs @ content s'" by blast
      have "mt_fill rd room got s = (None, got @ (xs @ bs), s')" unfolding step b(1) by simp
      moreover have "content s = (xs @ bs) @ content s'" using c b(3) by simp
      moreover have "xs @ bs \<noteq> []" using \<open>xs \<noteq> []\<close> by simp
      ultimately show ?thesis using b(2) by blast
    qed
  qed
qed

lemma count_runs_ends:
  assumes "scans env sp"
  shows "sp_walks sp c \<Longrightarrow> \<exists>n' c'. count_runs (me_next_run env) n c = Some (n', c') \<and> sp_walks sp c'
    \<and> sp_scanned sp c' = sp_scanned sp c \<and> run_start env c' = run_start env c"
proof (induction "sp_runs sp c" arbitrary: n c rule: less_induct)
  case less
  from assms less.prems obtain again c1 where s: "me_next_run env c = (again, c1)" "sp_walks sp c1" "sp_scanned sp c1 = sp_scanned sp c"
    "run_start env c1 = run_start env c" "again \<longrightarrow> sp_runs sp c1 < sp_runs sp c"
    unfolding scans_def by blast
  show ?case
  proof (cases again)
    case True
    from less.hyps [OF s(5) [rule_format, OF True] s(2), of "n + 1"] show ?thesis
      using s True by (subst count_runs.simps) simp
  next
    case False
    then show ?thesis using s by (subst count_runs.simps) simp
  qed
qed

text \<open>
  What holds between the steps: the buffer is the part of the stream from \<open>base\<close> on, the decoder has the bytes
  before \<open>in_pos\<close>, all of the buffer is scanned, and nothing beyond the run that is open was fed unless the reader
  chases.
\<close>

definition mt_inv ::
  "('d, 'c) mt_env \<Rightarrow> ('d, 'c) mt_spec \<Rightarrow> ('s \<Rightarrow> bool) \<Rightarrow> ('s \<Rightarrow> bytes) \<Rightarrow> ('s, 'd, 'c) mt_reader \<Rightarrow> bool" where
  "mt_inv env sp good content r \<longleftrightarrow>
     good (mr_input r) \<and> sp_good sp (mr_decoder r)
     \<and> drop (mr_base r) (sp_packed sp) = mr_inbuf r @ content (mr_input r) \<and> mr_base r \<le> length (sp_packed sp)
     \<and> mr_in_pos r \<le> length (mr_inbuf r) \<and> sp_taken sp (mr_decoder r) = mr_base r + mr_in_pos r
     \<and> mr_scan_pos r = length (mr_inbuf r)
     \<and> (\<not> mr_scan_broken r \<longrightarrow> sp_walks sp (mr_scanner r) \<and> sp_scanned sp (mr_scanner r) = mr_base r + length (mr_inbuf r))
     \<and> (mr_input_done r \<longrightarrow> content (mr_input r) = [])
     \<and> (\<not> mr_chasing r \<longrightarrow> \<not> mr_scan_broken r \<longrightarrow> \<not> mr_input_done r \<longrightarrow>
          sp_taken sp (mr_decoder r) \<le> run_start env (mr_scanner r))
     \<and> mr_out r = [] \<and> (mr_finished r \<longrightarrow> sp_given sp (mr_decoder r) = length (sp_data sp))"

lemma inv_part:
  assumes "mt_inv env sp good content r"
  shows "part_at (sp_packed sp) (mr_base r) (mr_inbuf r @ content (mr_input r))"
    and "length (sp_packed sp) = mr_base r + length (mr_inbuf r) + length (content (mr_input r))"
proof -
  have p: "drop (mr_base r) (sp_packed sp) = mr_inbuf r @ content (mr_input r)" "mr_base r \<le> length (sp_packed sp)"
    using assms by (simp_all add: mt_inv_def)
  from arg_cong [OF p(1), of length] p(2)
  show l: "length (sp_packed sp) = mr_base r + length (mr_inbuf r) + length (content (mr_input r))" by simp
  then show "part_at (sp_packed sp) (mr_base r) (mr_inbuf r @ content (mr_input r))" using p(1) by (simp add: part_at_def)
qed

text \<open>Steps that change the reader but neither the position of the decoder in the data nor its pieces.\<close>

definition moves :: "('d, 'c) mt_spec \<Rightarrow> ('s, 'd, 'c) mt_reader \<Rightarrow> ('s, 'd, 'c) mt_reader \<Rightarrow> bool" where
  "moves sp r r' \<longleftrightarrow>
     sp_given sp (mr_decoder r') = sp_given sp (mr_decoder r) \<and> mr_finished r' = mr_finished r
     \<and> sp_taken sp (mr_decoder r) \<le> sp_taken sp (mr_decoder r')
     \<and> (sp_taken sp (mr_decoder r') = sp_taken sp (mr_decoder r) \<longrightarrow> sp_rank sp (mr_decoder r') = sp_rank sp (mr_decoder r))"

lemma moves_trans: "moves sp r r' \<Longrightarrow> moves sp r' r'' \<Longrightarrow> moves sp r r''"
  by (auto simp: moves_def)

lemma moves_same: "same_state sp (mr_decoder r) (mr_decoder r') \<Longrightarrow> mr_finished r' = mr_finished r \<Longrightarrow> moves sp r r'"
  by (simp add: moves_def same_state_def)

lemma compact_law:
  assumes "mt_inv env sp good content r"
  shows "\<exists>r1. mt_compact r = Some r1 \<and> mt_inv env sp good content r1 \<and> mr_decoder r1 = mr_decoder r \<and> mr_finished r1 = mr_finished r
    \<and> mr_input r1 = mr_input r \<and> mr_input_done r1 = mr_input_done r"
proof (cases "MT_INPUT_CHUNK \<le> mr_in_pos r")
  case True
  note inv = assms [unfolded mt_inv_def]
  have pos: "mr_in_pos r \<le> length (mr_inbuf r)" using inv by blast
  have "drop (mr_base r + mr_in_pos r) (sp_packed sp) = drop (mr_in_pos r) (mr_inbuf r) @ content (mr_input r)"
    using inv pos drop_drop [of "mr_in_pos r" "mr_base r" "sp_packed sp"] by (simp add: add.commute)
  moreover have "mr_base r + mr_in_pos r \<le> length (sp_packed sp)" using inv_part(2) [OF assms] pos by simp
  ultimately show ?thesis using True inv pos unfolding mt_compact_def mt_inv_def by auto
next
  case False
  then show ?thesis using assms by (simp add: mt_compact_def)
qed

lemma scan_more_law:
  assumes sv: "serves env sp"
    and inv: "mt_inv env sp good content r0" and r: "r = r0\<lparr>mr_inbuf := mr_inbuf r0 @ bs, mr_input := s\<rparr>"
    and s: "good s" "content (mr_input r0) = bs @ content s" and more: "\<not> mr_input_done r0"
  shows "\<exists>r1. mt_scan_more env r = Some r1 \<and> mt_inv env sp good content r1 \<and> mr_decoder r1 = mr_decoder r0 \<and> mr_finished r1 = mr_finished r0
    \<and> mr_input r1 = s"
proof -
  note i = inv [unfolded mt_inv_def]
  define k where "k = mr_base r0 + length (mr_inbuf r0)"
  have part: "part_at (sp_packed sp) k bs"
    using part_sub [OF inv_part(1) [OF inv], of "length (mr_inbuf r0)" "length bs"] s(2) by (simp add: k_def)
  have pk: "drop (mr_base r0) (sp_packed sp) = (mr_inbuf r0 @ bs) @ content s" using i s(2) by simp
  have len: "length (sp_packed sp) = k + length bs + length (content s)" using inv_part(2) [OF inv] s(2) by (simp add: k_def)
  have goal: "mt_inv env sp good content r1"
    if same: "mr_decoder r1 = mr_decoder r0" "mr_finished r1 = mr_finished r0" "mr_input r1 = s" "mr_inbuf r1 = mr_inbuf r0 @ bs"
        "mr_base r1 = mr_base r0" "mr_in_pos r1 = mr_in_pos r0" "mr_chasing r1 = mr_chasing r0" "mr_input_done r1 = mr_input_done r0"
        "mr_out r1 = mr_out r0" "mr_scan_pos r1 = length (mr_inbuf r0 @ bs)"
      and sc: "mr_scan_broken r1 \<or> \<not> mr_scan_broken r0 \<and> sp_walks sp (mr_scanner r1) \<and> sp_scanned sp (mr_scanner r1) = k + length bs
        \<and> run_start env (mr_scanner r0) \<le> run_start env (mr_scanner r1)" for r1
    using i s(1) pk sc more unfolding mt_inv_def same k_def by auto
  let ?c = "mr_scanner r0"
  show ?thesis
  proof (cases "mr_scan_broken r0 \<or> me_scan_finished env ?c")
    case True
    have "mr_scan_broken r0 \<or> sp_walks sp ?c \<and> sp_scanned sp ?c = k + length bs"
    proof (cases "mr_scan_broken r0")
      case False
      then have w: "sp_walks sp ?c" "sp_scanned sp ?c = k" using i by (simp_all add: k_def)
      moreover have "sp_scanned sp ?c = length (sp_packed sp)"
        using serves_parts(4) [OF sv] w(1) True False unfolding scans_def by blast
      ultimately show ?thesis using len by simp
    qed simp
    then have "mt_inv env sp good content (r\<lparr>mr_scan_pos := length (mr_inbuf r)\<rparr>)" by (intro goal) (auto simp: r)
    then show ?thesis using True by (simp add: mt_scan_more_def r)
  next
    case False
    then have w: "sp_walks sp ?c" "sp_scanned sp ?c = k" and nf: "\<not> me_scan_finished env ?c" "\<not> mr_scan_broken r0" using i by (simp_all add: k_def)
    have arg: "drop (mr_scan_pos r) (mr_inbuf r) = bs" "\<not> length (mr_inbuf r) < mr_scan_pos r" using i by (simp_all add: r)
    have "(\<exists>e c'. me_scan env bs ?c = (Inl e, c')) \<or>
        (\<exists>c'. me_scan env bs ?c = (Inr (length bs), c') \<and> sp_walks sp c' \<and> sp_scanned sp c' = sp_scanned sp ?c + length bs
           \<and> run_start env ?c \<le> run_start env c')"
      using serves_parts(4) [OF sv] w(1) part [folded w(2)] nf(1) unfolding scans_def by blast
    then show ?thesis
    proof
      assume "\<exists>e c'. me_scan env bs ?c = (Inl e, c')"
      then obtain e c' where m: "me_scan env bs ?c = (Inl e, c')" by blast
      have "mt_inv env sp good content (r\<lparr>mr_scanner := c', mr_scan_broken := True, mr_scan_pos := length (mr_inbuf r)\<rparr>)"
        by (intro goal) (auto simp: r)
      then show ?thesis using m arg nf by (simp add: mt_scan_more_def r)
    next
      assume "\<exists>c'. me_scan env bs ?c = (Inr (length bs), c') \<and> sp_walks sp c' \<and> sp_scanned sp c' = sp_scanned sp ?c + length bs
           \<and> run_start env ?c \<le> run_start env c'"
      then obtain c' where m: "me_scan env bs ?c = (Inr (length bs), c')" "sp_walks sp c'" "sp_scanned sp c' = k + length bs"
        "run_start env ?c \<le> run_start env c'" using w(2) by auto
      from count_runs_ends [OF serves_parts(4) [OF sv] m(2), of "mr_runs_seen r0"] obtain runs c'' where
        n: "count_runs (me_next_run env) (mr_runs_seen r0) c' = Some (runs, c'')" "sp_walks sp c''" "sp_scanned sp c'' = k + length bs"
        "run_start env c'' = run_start env c'" using m(3) by auto
      let ?r = "r\<lparr>mr_scan_pos := mr_scan_pos r + length bs, mr_scanner := c'', mr_runs_seen := runs\<rparr>"
      have pos: "mr_scan_pos r0 = length (mr_inbuf r0)" using i by blast
      have "mt_inv env sp good content ?r" by (intro goal) (use n m(4) nf(2) pos in \<open>auto simp: r\<close>)
      moreover have "mt_inv env sp good content (?r\<lparr>mr_scan_pos := length (mr_inbuf ?r)\<rparr>)"
        by (intro goal) (use n m(4) nf(2) pos in \<open>auto simp: r\<close>)
      ultimately show ?thesis using m(1) n(1) arg nf pos by (simp add: mt_scan_more_def r)
    qed
  qed
qed

lemma mt_refill_law:
  assumes src: "byte_source rd good content" and sv: "serves env sp" and inv: "mt_inv env sp good content r" and more: "\<not> mr_input_done r"
  shows "\<exists>r'. mt_refill env rd r = Some (None, r') \<and> mt_inv env sp good content r' \<and> moves sp r r'
    \<and> sp_taken sp (mr_decoder r') = sp_taken sp (mr_decoder r) \<and> sp_hungry sp (mr_decoder r') = sp_hungry sp (mr_decoder r)
    \<and> (length (content (mr_input r')) < length (content (mr_input r)) \<or> mr_input_done r')"
proof -
  from compact_law [OF inv] obtain r1 where c: "mt_compact r = Some r1" "mt_inv env sp good content r1" "mr_decoder r1 = mr_decoder r"
    "mr_finished r1 = mr_finished r" "mr_input r1 = mr_input r" "mr_input_done r1 = mr_input_done r" by blast
  have g: "good (mr_input r1)" "sp_good sp (mr_decoder r1)" using c(2) by (simp_all add: mt_inv_def)
  have "0 < MT_INPUT_CHUNK" by (simp add: MT_INPUT_CHUNK_def)
  from fill_reads [OF src g(1) this, of "[]"] obtain bs s where
    f: "mt_fill rd MT_INPUT_CHUNK [] (mr_input r1) = (None, bs, s)" "good s" "content (mr_input r1) = bs @ content s"
      "bs = [] \<longrightarrow> content (mr_input r1) = []" by auto
  show ?thesis
  proof (cases "bs = []")
    case True
    let ?r = "r1\<lparr>mr_input := s, mr_input_done := True, mr_decoder := me_end_of_input env (mr_decoder r1)\<rparr>"
    have e: "same_state sp (mr_decoder r1) (mr_decoder ?r)" "sp_hungry sp (mr_decoder ?r) = sp_hungry sp (mr_decoder r1)"
      using serves_parts(3) [OF sv] g(2) unfolding idles_def by simp_all
    have none: "content (mr_input r1) = []" "content s = []" using f(3,4) True by auto
    have "mt_inv env sp good content ?r"
      using c(2) f(2) none e(1) unfolding mt_inv_def same_state_def by simp
    moreover have "moves sp r ?r" using moves_same [of sp r ?r] e(1) c(3,4) by simp
    ultimately show ?thesis using c(1,3) f(1) True e unfolding same_state_def by (simp add: mt_refill_def)
  next
    case False
    from scan_more_law [OF sv c(2) refl f(2,3)] more c(6) obtain r2 where
      n: "mt_scan_more env (r1\<lparr>mr_inbuf := mr_inbuf r1 @ bs, mr_input := s\<rparr>) = Some r2" "mt_inv env sp good content r2"
        "mr_decoder r2 = mr_decoder r1" "mr_finished r2 = mr_finished r1" "mr_input r2 = s" by auto
    have "length (content s) < length (content (mr_input r))" using f(3) False c(5) by simp
    moreover have "moves sp r r2" using n(3,4) c(3,4) by (simp add: moves_def)
    ultimately show ?thesis using c(1,3) f(1) False n by (simp add: mt_refill_def)
  qed
qed

section \<open>Feeding\<close>

lemma feed_target_least: "2 ^ 21 \<le> unat limit \<Longrightarrow> MT_INPUT_CHUNK \<le> unat (feed_target threads limit)"
proof -
  assume "2 ^ 21 \<le> unat limit"
  then have "MT_INPUT_CHUNK \<le> unat (limit div 2)" by (simp add: unat_div MT_INPUT_CHUNK_def)
  moreover have "MT_INPUT_CHUNK \<le> unat MT_MIN_FEED_BYTES" by (simp add: MT_INPUT_CHUNK_def MT_MIN_FEED_BYTES_def)
  ultimately show ?thesis by (auto simp: feed_target_def min_def max_def word_le_nat_alt Let_def)
qed

lemma choose_law:
  assumes sv: "serves env sp" and inv: "mt_inv env sp good content r"
  obtains (stops) "mt_choose env r = Some (Stop_Feeding, r)"
      "sp_hungry sp (mr_decoder r) \<Longrightarrow> sp_taken sp (mr_decoder r) = length (sp_packed sp)"
    | (refills) "mt_choose env r = Some (Refill, r)" "\<not> mr_input_done r"
    | (offers) to chase where "mt_choose env r = Some (Offer to, r\<lparr>mr_chasing := chase\<rparr>)"
      "mr_in_pos r < to" "to \<le> length (mr_inbuf r)"
      "\<not> chase \<Longrightarrow> \<not> mr_scan_broken r \<Longrightarrow> \<not> mr_input_done r \<Longrightarrow> mr_base r + to \<le> run_start env (mr_scanner r)"
proof -
  note i = inv [unfolded mt_inv_def]
  define d where "d = mr_decoder r"
  define len where "len = length (mr_inbuf r)"
  define one_run where "one_run = (mr_runs_seen r = 0 \<and> MT_NO_WORKER_GIVE_UP_BYTES < me_position env (mr_scanner r) \<and> \<not> mr_input_done r)"
  define target where "target = (if one_run then of_nat MT_INPUT_CHUNK else feed_target (mr_applied_threads r) (me_memory_limit env d))"
  define hold where "hold = (if one_run then 2 * MT_INPUT_CHUNK else MT_INPUT_HOLD_BYTES)"
  define to where "to = min len (mt_safe_limit env r - mr_base r)"
  have pos: "mr_in_pos r \<le> len" "sp_taken sp d = mr_base r + mr_in_pos r" "sp_good sp d" using i by (simp_all add: len_def d_def)
  have hold: "0 < hold" by (simp add: hold_def MT_INPUT_CHUNK_def MT_INPUT_HOLD_BYTES_def)
  have id: "2 ^ 21 \<le> unat (me_memory_limit env d)" "sp_hungry sp d \<Longrightarrow> unat (me_in_flight env d) < MT_INPUT_CHUNK"
    "sp_hungry sp d \<Longrightarrow> sp_bounds sp (sp_taken sp d) \<Longrightarrow> me_in_flight env d = 0"
    using serves_parts(3) [OF sv] pos(3) unfolding idles_def by blast+
  have "MT_INPUT_CHUNK \<le> unat target"
    using feed_target_least [OF id(1)] by (simp add: target_def) (simp add: MT_INPUT_CHUNK_def)
  then have low: "\<not> target \<le> me_in_flight env d" if "sp_hungry sp d" using id(2) [OF that] by (simp add: word_le_nat_alt)
  have limit: "mt_safe_limit env r = (if mr_input_done r \<or> mr_scan_broken r then mr_base r + len else run_start env (mr_scanner r))"
    by (simp add: mt_safe_limit_def run_start_def len_def)
  have choose: "mt_choose env r =
     (if target \<le> me_in_flight env d then Some (Stop_Feeding, r)
      else if mr_in_pos r < to then Some (Offer to, r\<lparr>mr_chasing := False\<rparr>)
      else if \<not> mr_input_done r \<and> len < mr_in_pos r then None
      else if \<not> mr_input_done r \<and> len - mr_in_pos r < hold then Some (Refill, r)
      else if (mr_chasing r \<or> me_in_flight env d = 0) \<and> mr_in_pos r < len
           then Some (Offer (min len (mr_in_pos r + MT_INPUT_CHUNK)), r\<lparr>mr_chasing := True\<rparr>)
      else Some (Stop_Feeding, r))"
    by (simp only: mt_choose_def Let_def d_def len_def one_run_def target_def hold_def to_def)
  consider (full) "target \<le> me_in_flight env d" | (safe) "\<not> target \<le> me_in_flight env d" "mr_in_pos r < to"
    | (ahead) "\<not> target \<le> me_in_flight env d" "\<not> mr_in_pos r < to" "\<not> mr_input_done r" "len - mr_in_pos r < hold"
    | (chase) "\<not> target \<le> me_in_flight env d" "\<not> mr_in_pos r < to" "mr_input_done r \<or> hold \<le> len - mr_in_pos r"
        "(mr_chasing r \<or> me_in_flight env d = 0) \<and> mr_in_pos r < len"
    | (dry) "\<not> target \<le> me_in_flight env d" "\<not> mr_in_pos r < to" "mr_input_done r \<or> hold \<le> len - mr_in_pos r"
        "\<not> ((mr_chasing r \<or> me_in_flight env d = 0) \<and> mr_in_pos r < len)"
    by linarith
  then show thesis
  proof cases
    case full
    then show thesis using low by (intro stops) (auto simp: choose d_def)
  next
    case safe
    have "to \<le> len" "to \<le> mt_safe_limit env r - mr_base r" by (simp_all add: to_def)
    then show thesis using safe limit by (intro offers [of to False]) (auto simp: choose len_def)
  next
    case ahead
    then show thesis using pos(1) by (intro refills) (simp_all add: choose)
  next
    case chase
    have c: "mt_choose env r = Some (Offer (min len (mr_in_pos r + MT_INPUT_CHUNK)), r\<lparr>mr_chasing := True\<rparr>)"
      using chase pos(1) unfolding choose by auto
    show thesis by (rule offers [OF c]) (use chase(4) in \<open>simp_all add: MT_INPUT_CHUNK_def len_def\<close>)
  next
    case dry
    have c: "mt_choose env r = Some (Stop_Feeding, r)" using dry pos(1) unfolding choose by auto
    show thesis
    proof (rule stops [OF c])
      assume h: "sp_hungry sp (mr_decoder r)"
      show "sp_taken sp (mr_decoder r) = length (sp_packed sp)"
      proof (cases "mr_input_done r")
        case True
        then have "mr_in_pos r = len" using dry(2) pos(1) limit by (simp add: to_def)
        moreover have "content (mr_input r) = []" using i True by blast
        ultimately show ?thesis using pos(2) inv_part(2) [OF inv] by (simp add: d_def len_def)
      next
        case False
        then have lt: "mr_in_pos r < len" using dry(3) hold by simp
        have nb: "\<not> mr_scan_broken r" using dry(2) lt limit by (auto simp: to_def)
        have nc: "\<not> mr_chasing r" using dry(4) lt by blast
        have "sp_taken sp d \<le> run_start env (mr_scanner r)" using i nb nc False by (simp add: d_def)
        moreover have "run_start env (mr_scanner r) - mr_base r \<le> mr_in_pos r" using dry(2) lt limit nb False by (simp add: to_def)
        ultimately have "sp_taken sp d = run_start env (mr_scanner r)" using pos(2) by simp
        moreover have "sp_bounds sp (run_start env (mr_scanner r))"
          using serves_parts(4) [OF sv] i nb unfolding scans_def by blast
        ultimately have "me_in_flight env d = 0" using id(3) h by (simp add: d_def)
        then show ?thesis using dry(4) lt by simp
      qed
    qed
  qed
qed

lemma offer_law:
  assumes sv: "serves env sp" and inv: "mt_inv env sp good content r" and to: "mr_in_pos r < to" "to \<le> length (mr_inbuf r)"
    and chase: "\<not> chase \<Longrightarrow> \<not> mr_scan_broken r \<Longrightarrow> \<not> mr_input_done r \<Longrightarrow> mr_base r + to \<le> run_start env (mr_scanner r)"
  shows "\<exists>k r'. mt_offer env to (r\<lparr>mr_chasing := chase\<rparr>) = (Inr k, r') \<and> k \<le> to - mr_in_pos r \<and> mt_inv env sp good content r'
    \<and> moves sp r r' \<and> sp_taken sp (mr_decoder r') = sp_taken sp (mr_decoder r) + k \<and> (sp_hungry sp (mr_decoder r) \<longrightarrow> 0 < k)
    \<and> mr_input r' = mr_input r \<and> mr_input_done r' = mr_input_done r"
proof -
  note i = inv [unfolded mt_inv_def]
  define bs where "bs = take (to - mr_in_pos r) (drop (mr_in_pos r) (mr_inbuf r))"
  have d: "sp_good sp (mr_decoder r)" "sp_taken sp (mr_decoder r) = mr_base r + mr_in_pos r" using i by blast+
  have part: "part_at (sp_packed sp) (sp_taken sp (mr_decoder r)) bs"
    using part_sub [OF inv_part(1) [OF inv], of "mr_in_pos r" "to - mr_in_pos r"] to by (simp add: d(2) bs_def)
  have len: "length bs = to - mr_in_pos r" "bs \<noteq> []" using to by (auto simp: bs_def)
  from serves_parts(1) [OF sv] d(1) part obtain k d' where f: "me_feed env bs (mr_decoder r) = (Inr k, d')" "k \<le> length bs" "sp_good sp d'"
    "sp_taken sp d' = sp_taken sp (mr_decoder r) + k" "sp_given sp d' = sp_given sp (mr_decoder r)"
    "k = 0 \<longrightarrow> sp_rank sp d' = sp_rank sp (mr_decoder r)" "sp_hungry sp (mr_decoder r) \<longrightarrow> bs \<noteq> [] \<longrightarrow> 0 < k"
    unfolding feeds_def by blast
  let ?r = "r\<lparr>mr_chasing := chase, mr_decoder := d', mr_in_pos := mr_in_pos r + k, mr_fed_total := mr_fed_total r + k\<rparr>"
  have "mt_inv env sp good content ?r"
    using i f(2-5) len(1) to chase unfolding mt_inv_def by auto
  moreover have "moves sp r ?r" using f(4-6) by (simp add: moves_def)
  moreover have "mt_offer env to (r\<lparr>mr_chasing := chase\<rparr>) = (Inr k, ?r)" using f(1) by (simp add: mt_offer_def bs_def)
  ultimately show ?thesis using f(2,4,7) len by (intro exI [of _ k] exI [of _ ?r]) simp
qed

definition ahead :: "('d, 'c) mt_spec \<Rightarrow> ('s \<Rightarrow> bytes) \<Rightarrow> ('s, 'd, 'c) mt_reader \<Rightarrow> nat" where
  "ahead sp content r =
     length (content (mr_input r)) + (length (sp_packed sp) - sp_taken sp (mr_decoder r)) + (if mr_input_done r then 0 else 1)"

lemma pump_law:
  assumes src: "byte_source rd good content" and sv: "serves env sp"
  shows "mt_inv env sp good content r \<Longrightarrow>
    \<exists>b r'. pump_loop env rd want start fed r = Some (Inr b, r') \<and> mt_inv env sp good content r' \<and> moves sp r r'
      \<and> (b \<longleftrightarrow> fed \<or> sp_taken sp (mr_decoder r) < sp_taken sp (mr_decoder r'))
      \<and> (\<not> fed \<longrightarrow> sp_hungry sp (mr_decoder r) \<longrightarrow> sp_taken sp (mr_decoder r) < length (sp_packed sp)
          \<longrightarrow> sp_taken sp (mr_decoder r) < sp_taken sp (mr_decoder r'))"
proof (induction "ahead sp content r" arbitrary: fed r rule: less_induct)
  case less
  show ?case
  proof (cases "fed \<and> unat want \<le> mr_runs_seen r - start")
    case True
    then have "pump_loop env rd want start fed r = Some (Inr fed, r)" by (subst pump_loop.simps) simp
    then show ?thesis using less.prems True by (simp add: moves_def) blast
  next
    case go: False
    show ?thesis
    proof (rule choose_law [OF sv less.prems])
      assume c: "mt_choose env r = Some (Stop_Feeding, r)"
        "sp_hungry sp (mr_decoder r) \<Longrightarrow> sp_taken sp (mr_decoder r) = length (sp_packed sp)"
      have "pump_loop env rd want start fed r = Some (Inr fed, r)" using go c(1) by (subst pump_loop.simps) simp
      then show ?thesis using less.prems c(2) by (auto simp: moves_def)
    next
      assume c: "mt_choose env r = Some (Refill, r)" "\<not> mr_input_done r"
      from mt_refill_law [OF src sv less.prems c(2)] obtain r1 where f: "mt_refill env rd r = Some (None, r1)" "mt_inv env sp good content r1"
        "moves sp r r1" "sp_taken sp (mr_decoder r1) = sp_taken sp (mr_decoder r)" "sp_hungry sp (mr_decoder r1) = sp_hungry sp (mr_decoder r)"
        "length (content (mr_input r1)) < length (content (mr_input r)) \<or> mr_input_done r1" by blast
      have step: "pump_loop env rd want start fed r = pump_loop env rd want start fed r1"
        using go c(1) f(1) by (subst pump_loop.simps) auto
      have "length (content (mr_input r1)) \<le> length (content (mr_input r))"
        using f(6) f(2) by (auto simp: mt_inv_def)
      then have "ahead sp content r1 < ahead sp content r" using f(4,6) c(2) by (auto simp: ahead_def)
      from less.hyps [OF this f(2), of fed] show ?thesis
        unfolding step using moves_trans [OF f(3)] unfolding f(4,5) by blast
    next
      fix to chase
      assume c: "mt_choose env r = Some (Offer to, r\<lparr>mr_chasing := chase\<rparr>)" "mr_in_pos r < to" "to \<le> length (mr_inbuf r)"
        "\<not> chase \<Longrightarrow> \<not> mr_scan_broken r \<Longrightarrow> \<not> mr_input_done r \<Longrightarrow> mr_base r + to \<le> run_start env (mr_scanner r)"
      from offer_law [OF sv less.prems c(2-4)] obtain k r1 where f: "mt_offer env to (r\<lparr>mr_chasing := chase\<rparr>) = (Inr k, r1)"
        "k \<le> to - mr_in_pos r" "mt_inv env sp good content r1" "moves sp r r1"
        "sp_taken sp (mr_decoder r1) = sp_taken sp (mr_decoder r) + k" "sp_hungry sp (mr_decoder r) \<longrightarrow> 0 < k"
        "mr_input r1 = mr_input r" "mr_input_done r1 = mr_input_done r" by blast
      show ?thesis
      proof (cases "k < to - mr_in_pos r")
        case True
        have "pump_loop env rd want start fed r = Some (Inr (fed \<or> 0 < k), r1)"
          using go c(1) f(1) True by (subst pump_loop.simps) auto
        then show ?thesis using f(3-6) by auto
      next
        case False
        have k: "0 < k" using False f(2) c(2) by simp
        have step: "pump_loop env rd want start fed r = pump_loop env rd want start True r1"
          using go c(1) f(1) False k by (subst pump_loop.simps) auto
        have "sp_taken sp (mr_decoder r1) \<le> length (sp_packed sp)"
          using inv_part(2) [OF f(3)] f(3) by (auto simp: mt_inv_def)
        then have "ahead sp content r1 < ahead sp content r" using f(5,7,8) k by (simp add: ahead_def)
        from less.hyps [OF this f(3), of True] obtain b r' where
          p: "pump_loop env rd want start True r1 = Some (Inr b, r')" "mt_inv env sp good content r'" "moves sp r1 r'" "b" by blast
        have "sp_taken sp (mr_decoder r) < sp_taken sp (mr_decoder r')" using p(3) f(5) k by (simp add: moves_def)
        then show ?thesis unfolding step using p moves_trans [OF f(4) p(3)] by blast
      qed
    qed
  qed
qed

text \<open>
  A source that fails once is not read ahead correctly again: a refill that fails leaves the buffer as long as it
  was grown to be read into, so what was not read stands in it as zeros and the next bytes come behind them.
\<close>

lemma failed_refill_keeps_zeros:
  assumes "mr_in_pos r < MT_INPUT_CHUNK" "rd MT_INPUT_CHUNK (mr_input r) = (Inl e, s)"
  shows "mt_refill env rd r = Some (Some e, r\<lparr>mr_inbuf := mr_inbuf r @ replicate MT_INPUT_CHUNK 0, mr_input := s\<rparr>)"
proof -
  have "0 < MT_INPUT_CHUNK" by (simp add: MT_INPUT_CHUNK_def)
  then have "mt_fill rd MT_INPUT_CHUNK [] (mr_input r) = (Some e, [], s)" using assms(2) by (subst mt_fill.simps) simp
  then show ?thesis using assms(1) by (simp add: mt_refill_def mt_compact_def)
qed

section \<open>A read\<close>

lemma inv_decoder:
  "mt_inv env sp good content r \<Longrightarrow> same_state sp (mr_decoder r) d \<Longrightarrow> mt_inv env sp good content (r\<lparr>mr_decoder := d\<rparr>)"
  unfolding mt_inv_def same_state_def by auto

lemma sync_law:
  assumes sv: "serves env sp" and inv: "mt_inv env sp good content r"
  shows "mt_inv env sp good content (mt_sync_threads env r)" "moves sp r (mt_sync_threads env r)"
proof -
  have "sp_good sp (mr_decoder r)" using inv by (simp add: mt_inv_def)
  then have s: "same_state sp (mr_decoder r) (me_set_threads env n (mr_decoder r))" for n
    using serves_parts(3) [OF sv] unfolding idles_def by blast
  have refl: "moves sp r r" by (simp add: moves_def)
  have "moves sp r (r\<lparr>mr_decoder := me_set_threads env n (mr_decoder r), mr_applied_threads := t\<rparr>)" for n t
    by (rule moves_same) (simp_all add: s)
  then show "moves sp r (mt_sync_threads env r)" using refl by (simp add: mt_sync_threads_def Let_def)
  have "mt_inv env sp good content (r\<lparr>mr_decoder := me_set_threads env n (mr_decoder r), mr_applied_threads := t\<rparr>)" for n t
    using inv_decoder [OF inv s [of n]] unfolding mt_inv_def by auto
  then show "mt_inv env sp good content (mt_sync_threads env r)" using inv by (simp add: mt_sync_threads_def Let_def)
qed

lemma publish_law:
  assumes sv: "serves env sp" and inv: "mt_inv env sp good content r"
  defines "r' \<equiv> mt_publish env (mt_collect_checks env r)"
  shows "mt_inv env sp good content r'" "same_state sp (mr_decoder r) (mr_decoder r')"
    "sp_hungry sp (mr_decoder r') = sp_hungry sp (mr_decoder r)" "mr_finished r' = mr_finished r" "mr_input_done r' = mr_input_done r"
proof -
  have g: "sp_good sp (mr_decoder r)" using inv by (simp add: mt_inv_def)
  obtain told d where t: "me_take_checks env (mr_decoder r) = (told, d)" by (metis surj_pair)
  have s: "same_state sp (mr_decoder r) d" "sp_hungry sp d = sp_hungry sp (mr_decoder r)"
    using serves_parts(3) [OF sv] g t unfolding idles_def by (metis snd_conv)+
  have refl: "same_state sp (mr_decoder r) (mr_decoder r)" using g by (simp add: same_state_def)
  have ctl: "mt_inv env sp good content (x\<lparr>mr_control := c\<rparr>) = mt_inv env sp good content x" for x c
    by (simp add: mt_inv_def)
  show "mt_inv env sp good content r'"
    using inv inv_decoder [OF inv s(1)] by (simp add: r'_def mt_publish_def mt_collect_checks_def t Let_def ctl)
  show "same_state sp (mr_decoder r) (mr_decoder r')" "sp_hungry sp (mr_decoder r') = sp_hungry sp (mr_decoder r)"
    "mr_finished r' = mr_finished r" "mr_input_done r' = mr_input_done r"
    using s refl by (simp_all add: r'_def mt_publish_def mt_collect_checks_def t Let_def)
qed

lemma sink_law: "length acc + length (concat pieces) \<le> n \<Longrightarrow> fold (mt_sink n) pieces (acc, []) = (acc @ concat pieces, [])"
proof (induction pieces arbitrary: acc)
  case (Cons bs pieces)
  have "mt_spill [] [] = []" by (subst mt_spill.simps) simp
  then have "mt_sink n bs (acc, []) = (acc @ bs, [])" using Cons.prems by (simp add: mt_sink_def)
  then show ?case using Cons.IH [of "acc @ bs"] Cons.prems by simp
qed simp

text \<open>A round: it delivers the next data, or comes nearer to it, or ends.\<close>

definition nearer :: "('d, 'c) mt_spec \<Rightarrow> ('s, 'd, 'c) mt_reader \<Rightarrow> ('s, 'd, 'c) mt_reader \<Rightarrow> bool" where
  "nearer sp r r' \<longleftrightarrow>
     sp_taken sp (mr_decoder r) < sp_taken sp (mr_decoder r')
     \<or> sp_taken sp (mr_decoder r') = sp_taken sp (mr_decoder r) \<and> sp_rank sp (mr_decoder r') < sp_rank sp (mr_decoder r)"

lemma nearer_trans: "moves sp r r' \<Longrightarrow> nearer sp r' r'' \<Longrightarrow> nearer sp r r''" "nearer sp r r' \<Longrightarrow> moves sp r' r'' \<Longrightarrow> nearer sp r r''"
  by (auto simp: nearer_def moves_def)

lemma round_law:
  assumes src: "byte_source rd good content" and sv: "serves env sp" and inv: "mt_inv env sp good content r"
    and n: "0 < n" and open_end: "\<not> mr_finished r"
  shows "\<exists>direct r'. mt_round env rd n r = Some (Inr direct, r') \<and> mt_inv env sp good content r' \<and> length direct \<le> n
    \<and> part_at (sp_data sp) (sp_given sp (mr_decoder r)) direct
    \<and> sp_given sp (mr_decoder r') = sp_given sp (mr_decoder r) + length direct
    \<and> (direct \<noteq> [] \<or> mr_finished r' \<or> nearer sp r r')"
proof -
  note s = sync_law [OF sv inv]
  obtain r1 where t: "mt_top_up env rd (mt_sync_threads env r) = Some (None, r1)" "mt_inv env sp good content r1" "moves sp r r1"
  proof (cases "mr_input_done (mt_sync_threads env r) \<or> mt_backlog_wanted env (mt_sync_threads env r) = 0")
    case True
    then show thesis using s by (intro that [of "mt_sync_threads env r"]) (simp_all add: mt_top_up_def)
  next
    case False
    from pump_law [OF src sv s(1), of "mt_backlog_wanted env (mt_sync_threads env r)" "mr_runs_seen (mt_sync_threads env r)" False]
    obtain b r1 where p: "pump_input env rd (mt_backlog_wanted env (mt_sync_threads env r)) (mt_sync_threads env r) = Some (Inr b, r1)"
      "mt_inv env sp good content r1" "moves sp (mt_sync_threads env r) r1" unfolding pump_input_def by blast
    show thesis by (rule that [OF _ p(2) moves_trans [OF s(2) p(3)]]) (use False p(1) in \<open>simp add: mt_top_up_def\<close>)
  qed
  have fin: "\<not> mr_finished r1" "sp_given sp (mr_decoder r1) = sp_given sp (mr_decoder r)" using t(3) open_end by (simp_all add: moves_def)
  have g1: "sp_good sp (mr_decoder r1)" "mr_out r1 = []" using t(2) by (simp_all add: mt_inv_def)
  from serves_parts(2) [OF sv] g1(1) n obtain pieces st d where
    d: "me_drain env n (mr_decoder r1) = (pieces, Inr st, d)" "sp_good sp d" "sp_taken sp d = sp_taken sp (mr_decoder r1)"
      "length (concat pieces) \<le> n" "part_at (sp_data sp) (sp_given sp (mr_decoder r1)) (concat pieces)"
      "sp_given sp d = sp_given sp (mr_decoder r1) + length (concat pieces)" "st = Finished \<longrightarrow> sp_given sp d = length (sp_data sp)"
      "st = Progress \<longrightarrow> concat pieces = [] \<longrightarrow> sp_rank sp d < sp_rank sp (mr_decoder r1)"
      "st = NeedsMoreInput \<longrightarrow> sp_hungry sp d \<and> sp_taken sp d < length (sp_packed sp)"
    unfolding hands_out_def by blast
  define r2 where "r2 = r1\<lparr>mr_decoder := d, mr_out := []\<rparr>"
  define r3 where "r3 = mt_publish env (mt_collect_checks env r2)"
  have sink: "fold (mt_sink n) pieces ([], mr_out r1) = (concat pieces, [])" using sink_law [of "[]" pieces n] d(4) g1(2) by simp
  have inv2: "mt_inv env sp good content r2" using t(2) d(2,3) fin(1) unfolding mt_inv_def r2_def by auto
  note pub = publish_law [OF sv inv2, folded r3_def]
  have st3: "sp_given sp (mr_decoder r3) = sp_given sp (mr_decoder r) + length (concat pieces)"
      "sp_taken sp (mr_decoder r3) = sp_taken sp (mr_decoder r1)" "sp_rank sp (mr_decoder r3) = sp_rank sp d"
      "sp_hungry sp (mr_decoder r3) = sp_hungry sp d" "mr_finished r3 = mr_finished r1"
    using pub d(3,6) fin(2) by (simp_all add: same_state_def r2_def)
  have part: "part_at (sp_data sp) (sp_given sp (mr_decoder r)) (concat pieces)" using d(5) fin(2) by simp
  note common = t(1) d(1) sink part d(4) st3(1)
  show ?thesis
  proof (cases st)
    case Finished
    let ?r = "mt_finish (r3\<lparr>mr_finished := True\<rparr>)"
    have "mt_inv env sp good content ?r"
      using pub(1) d(7) Finished st3(1) d(6) fin(2) unfolding mt_inv_def by (auto simp: mt_finish_def)
    moreover have "mr_finished ?r" "sp_given sp (mr_decoder ?r) = sp_given sp (mr_decoder r3)" by (simp_all add: mt_finish_def)
    ultimately show ?thesis using common Finished by (simp add: mt_round_def Let_def flip: r2_def r3_def)
  next
    case Progress
    have "concat pieces \<noteq> [] \<or> nearer sp r r3"
    proof (cases "concat pieces = []")
      case True
      then have "nearer sp r1 r3" using d(8) Progress st3 by (simp add: nearer_def)
      then show ?thesis using nearer_trans(1) [OF t(3)] by blast
    qed simp
    then show ?thesis using common Progress pub(1) by (simp add: mt_round_def Let_def flip: r2_def r3_def) blast
  next
    case NeedsMoreInput
    have h: "sp_hungry sp (mr_decoder r3)" "sp_taken sp (mr_decoder r3) < length (sp_packed sp)" using d(3,9) NeedsMoreInput st3 by simp_all
    from pump_law [OF src sv pub(1), of "max (mt_backlog_wanted env r3) 1" "mr_runs_seen r3" False] h obtain b r4 where
      p: "pump_input env rd (max (mt_backlog_wanted env r3) 1) r3 = Some (Inr b, r4)" "mt_inv env sp good content r4" "moves sp r3 r4" "b"
        "sp_taken sp (mr_decoder r3) < sp_taken sp (mr_decoder r4)" unfolding pump_input_def by blast
    have "sp_taken sp (mr_decoder r) \<le> sp_taken sp (mr_decoder r1)" using t(3) by (simp add: moves_def)
    then have near: "nearer sp r r4" using p(5) st3(2) by (simp add: nearer_def)
    have "sp_given sp (mr_decoder r4) = sp_given sp (mr_decoder r3)" using p(3) by (simp add: moves_def)
    then show ?thesis using common NeedsMoreInput p near by (simp add: mt_round_def Let_def flip: r2_def r3_def)
  qed
qed

lemma mt_read_law:
  assumes src: "byte_source rd good content" and sv: "serves env sp" and n: "0 < n"
  shows "mt_inv env sp good content r \<Longrightarrow>
    \<exists>bs r'. mt_read env rd n r = Some (Inr bs, r') \<and> mt_inv env sp good content r' \<and> length bs \<le> n
      \<and> part_at (sp_data sp) (sp_given sp (mr_decoder r)) bs \<and> sp_given sp (mr_decoder r') = sp_given sp (mr_decoder r) + length bs
      \<and> (bs = [] \<longrightarrow> sp_given sp (mr_decoder r) = length (sp_data sp))"
proof (induction r rule: wf_induct_rule [OF wf_measures
      [of "[\<lambda>r. length (sp_packed sp) - sp_taken sp (mr_decoder r), \<lambda>r. sp_rank sp (mr_decoder r)]"]])
  case (1 r)
  have out: "mr_out r = []" "mr_finished r \<longrightarrow> sp_given sp (mr_decoder r) = length (sp_data sp)" using 1(2) by (simp_all add: mt_inv_def)
  show ?case
  proof (cases "mr_finished r")
    case True
    then have "mt_read env rd n r = Some (Inr [], r)" using out(1) by (subst mt_read.simps) simp
    then show ?thesis using True out(2) 1(2) by (simp add: part_at_def)
  next
    case False
    from round_law [OF src sv 1(2) n False] obtain direct r1 where
      r: "mt_round env rd n r = Some (Inr direct, r1)" "mt_inv env sp good content r1" "length direct \<le> n"
        "part_at (sp_data sp) (sp_given sp (mr_decoder r)) direct" "sp_given sp (mr_decoder r1) = sp_given sp (mr_decoder r) + length direct"
        "direct \<noteq> [] \<or> mr_finished r1 \<or> nearer sp r r1" by blast
    show ?thesis
    proof (cases "direct = []")
      case empty: True
      have step: "mt_read env rd n r = mt_read env rd n r1" using False out(1) r(1) empty n by (subst mt_read.simps) simp
      have given: "sp_given sp (mr_decoder r1) = sp_given sp (mr_decoder r)" using r(5) empty by simp
      show ?thesis
      proof (cases "mr_finished r1")
        case True
        have "mr_out r1 = []" "sp_given sp (mr_decoder r1) = length (sp_data sp)" using r(2) True by (simp_all add: mt_inv_def)
        moreover have "mt_read env rd n r1 = Some (Inr [], r1)" using True calculation(1) by (subst mt_read.simps) simp
        ultimately show ?thesis unfolding step using r(2,4) given empty by simp
      next
        case False
        then have near: "nearer sp r r1" using r(6) empty by simp
        have "sp_taken sp (mr_decoder r1) \<le> length (sp_packed sp)" using inv_part(2) [OF r(2)] r(2) by (auto simp: mt_inv_def)
        then have "(r1, r) \<in> measures [\<lambda>r. length (sp_packed sp) - sp_taken sp (mr_decoder r), \<lambda>r. sp_rank sp (mr_decoder r)]"
          using near by (auto simp: nearer_def)
        from 1(1) [OF this r(2)] show ?thesis unfolding step given .
      qed
    next
      case False
      have "mt_read env rd n r = Some (Inr direct, r1)" using \<open>\<not> mr_finished r\<close> out(1) r(1) False n by (subst mt_read.simps) simp
      then show ?thesis using r False by blast
    qed
  qed
qed

section \<open>The reader as a source\<close>

lemma mt_source:
  assumes "byte_source rd good content" "serves env sp"
  shows "byte_source (mt_io env rd) (mt_inv env sp good content) (\<lambda>r. drop (sp_given sp (mr_decoder r)) (sp_data sp))"
proof
  fix r :: "('a, 'b, 'c) mt_reader" and n :: nat
  assume "mt_inv env sp good content r" "0 < n"
  from mt_read_law [OF assms this(2,1)] obtain bs r' where
    r: "mt_read env rd n r = Some (Inr bs, r')" "mt_inv env sp good content r'" "length bs \<le> n"
      "part_at (sp_data sp) (sp_given sp (mr_decoder r)) bs" "sp_given sp (mr_decoder r') = sp_given sp (mr_decoder r) + length bs"
      "bs = [] \<longrightarrow> sp_given sp (mr_decoder r) = length (sp_data sp)" by blast
  have "drop (sp_given sp (mr_decoder r)) (sp_data sp) = bs @ drop (sp_given sp (mr_decoder r')) (sp_data sp)"
    using r(4) append_take_drop_id [of "length bs" "drop (sp_given sp (mr_decoder r)) (sp_data sp)"]
    by (simp add: part_at_def r(5) add.commute)
  then show "\<exists>bs r'. mt_io env rd n r = (Inr bs, r') \<and> mt_inv env sp good content r' \<and> length bs \<le> n
    \<and> drop (sp_given sp (mr_decoder r)) (sp_data sp) = bs @ drop (sp_given sp (mr_decoder r')) (sp_data sp)
    \<and> (bs = [] \<longrightarrow> drop (sp_given sp (mr_decoder r)) (sp_data sp) = [])"
    using r by (simp add: mt_io_def)
qed

definition steered_good ::
  "('d, 'c) mt_env \<Rightarrow> ('d, 'c) mt_spec \<Rightarrow> ('s \<Rightarrow> bool) \<Rightarrow> ('s \<Rightarrow> bytes) \<Rightarrow> u32 list \<times> ('x, 's, 'd, 'c) lzma2_coder \<Rightarrow> bool" where
  "steered_good env sp good content x \<longleftrightarrow> (\<exists>ts r. x = (ts, Adaptive_Coder r) \<and> mt_inv env sp good content r)"

fun coder_rest :: "('d, 'c) mt_spec \<Rightarrow> u32 list \<times> ('x, 's, 'd, 'c) lzma2_coder \<Rightarrow> bytes" where
  "coder_rest sp (ts, Adaptive_Coder r) = drop (sp_given sp (mr_decoder r)) (sp_data sp)"
| "coder_rest sp (ts, Plain_Coder x) = []"

lemma steered_source:
  assumes "byte_source rd good content" "serves env sp"
  shows "byte_source (steered_read env rd plain_rd) (steered_good env sp good content) (coder_rest sp)"
proof
  fix x :: "u32 list \<times> ('d, 'a, 'b, 'c) lzma2_coder" and n :: nat
  assume "steered_good env sp good content x" "0 < n"
  then obtain ts r where x: "x = (ts, Adaptive_Coder r)" "mt_inv env sp good content r" unfolding steered_good_def by blast
  define r1 where "r1 = (case ts of [] \<Rightarrow> r | t # _ \<Rightarrow> r\<lparr>mr_control := handle_set_threads t (mr_control r)\<rparr>)"
  have step: "steered_read env rd plain_rd n x = (case mt_io env rd n r1 of (res, r') \<Rightarrow> (res, tl ts, Adaptive_Coder r'))"
    by (cases ts) (simp_all add: x(1) r1_def lzma2_coder_read_def split: prod.splits)
  have inv: "mt_inv env sp good content r1" and d: "mr_decoder r1 = mr_decoder r"
    using x(2) by (auto simp: r1_def mt_inv_def split: list.splits)
  from byte_source.read_law [OF mt_source [OF assms] inv \<open>0 < n\<close>] obtain bs r' where
    m: "mt_io env rd n r1 = (Inr bs, r')" "mt_inv env sp good content r'" "length bs \<le> n"
      "drop (sp_given sp (mr_decoder r1)) (sp_data sp) = bs @ drop (sp_given sp (mr_decoder r')) (sp_data sp)"
      "bs = [] \<longrightarrow> drop (sp_given sp (mr_decoder r1)) (sp_data sp) = []" by blast
  have "steered_good env sp good content (tl ts, Adaptive_Coder r' :: ('d, 'a, 'b, 'c) lzma2_coder)" using m(2) by (auto simp: steered_good_def)
  then show "\<exists>bs x'. steered_read env rd plain_rd n x = (Inr bs, x') \<and> steered_good env sp good content x' \<and> length bs \<le> n
    \<and> coder_rest sp x = bs @ coder_rest sp x' \<and> (bs = [] \<longrightarrow> coder_rest sp x = [])"
    unfolding step using m by (intro exI [of _ bs] exI [of _ "(tl ts, Adaptive_Coder r')"]) (simp add: x(1) d)
qed

lemma new_inv:
  assumes sv: "serves env sp" and limit: "MT_MIN_BUDGET_BYTES \<le> limit"
    and new: "mt_new env input p threads limit control splits = Inr r" and src: "good input" "content input = sp_packed sp"
  shows "mt_inv env sp good content r \<and> sp_given sp (mr_decoder r) = 0"
proof -
  obtain d where d: "me_new env p (unat threads) limit = Inr d" using new by (auto simp: mt_new_def split: sum.splits)
  have st: "starts env sp" using sv by (simp add: serves_def)
  let ?d = "if splits \<noteq> [] then me_set_checksum env splits d else d"
  have "?d \<in> {d} \<union> range (\<lambda>splits. me_set_checksum env splits d)" by auto
  then have f: "sp_good sp ?d" "sp_taken sp ?d = 0" "sp_given sp ?d = 0"
    using st limit d unfolding starts_def by blast+
  have "mr_decoder r = ?d" using new d by (auto simp: mt_new_def)
  moreover have "sp_walks sp (me_scanner env)" "sp_scanned sp (me_scanner env) = 0" using st by (simp_all add: starts_def)
  ultimately show ?thesis using new d f src by (auto simp: mt_new_def mt_inv_def)
qed

lemma plan_budget: "plan_for_block threads adaptive limit dict splits = Adaptive t m ss \<Longrightarrow> MT_MIN_BUDGET_BYTES \<le> m"
  by (auto simp: plan_for_block_def mt_budget_def Let_def split: if_splits option.splits)

text \<open>
  C9: the parallel LZMA2 reader delivers the block.  For a decoder and a scanner that keep their side
  (\<open>serves\<close>), a block that is planned to be decoded in parallel is read to its end: every read returns, none
  panics or fails, and together they deliver exactly the data, however the packed stream arrives, whatever
  buffers the caller reads with, and however it changes the number of threads meanwhile.
\<close>

theorem parallel_reader_delivers:
  assumes sv: "serves env sp"
    and plan: "plan_for_block threads adaptive limit dict splits = plan" "plan \<noteq> SingleThreaded"
    and new: "lzma2_decoder env plain_new input p plan control = Inr coder"
    and src: "plain_source input" "source_data input = sp_packed sp"
    and ns: "\<forall>n\<in>set ns. 0 < n" "length (sp_data sp) < length ns"
  shows "\<exists>pieces x. drain (steered_read env source_read plain_rd) ns (ts, coder) = (Inr pieces, x) \<and> concat pieces = sp_data sp"
proof -
  obtain t m ss where a: "plan = Adaptive t m ss" using plan(2) by (cases plan) auto
  then obtain r where r: "mt_new env input p t m control ss = Inr r" "coder = Adaptive_Coder r"
    using new by (auto simp: lzma2_decoder_def map_sum_def split: sum.splits)
  have inv: "mt_inv env sp plain_source source_data r" "sp_given sp (mr_decoder r) = 0"
    using new_inv [where good = plain_source and content = source_data, OF sv plan_budget [OF plan(1) [unfolded a]] r(1) src] by simp_all
  have good: "steered_good env sp plain_source source_data (ts, coder)" using inv(1) r(2) by (auto simp: steered_good_def)
  have rest: "coder_rest sp (ts, coder) = sp_data sp" using inv(2) r(2) by simp
  from byte_source.drain_prefix [OF steered_source [OF plain.byte_source_axioms sv] good ns(1), of plain_rd] obtain pieces x where
    p: "drain (steered_read env source_read plain_rd) ns (ts, coder) = (Inr pieces, x)" "sp_data sp = concat pieces @ coder_rest sp x"
      "length (sp_data sp) < length ns \<longrightarrow> coder_rest sp x = []" unfolding rest by blast
  then have "concat pieces = sp_data sp" using ns(2) by simp
  then show ?thesis using p(1) by blast
qed

text \<open>A decoder of streams that hold their bytes as they are, up to a zero: it hands out one byte at a time.\<close>

definition stored_env :: "(bytes \<times> nat, nat) mt_env" where
  "stored_env =
     \<lparr>me_new = (\<lambda>p threads limit. Inr ([], 0)), me_set_checksum = (\<lambda>splits d. d), me_set_threads = (\<lambda>threads d. d),
      me_memory_limit = (\<lambda>d. 0x2000000), me_in_flight = (\<lambda>(fed, given). of_nat (length fed - given)),
      me_pending_runs = (\<lambda>d. 0), me_runs_claimed = (\<lambda>d. 0), me_spawned = (\<lambda>d. 0),
      me_feed = (\<lambda>bs (fed, given). (Inr (length bs), fed @ bs, given)), me_end_of_input = (\<lambda>d. d),
      me_drain = (\<lambda>n (fed, given).
        if length fed \<le> given then ([], Inr NeedsMoreInput, fed, given)
        else if fed ! given = 0 then ([], Inr Finished, fed, given)
        else ([[fed ! given]], Inr Progress, fed, given + 1)),
      me_take_checks = (\<lambda>d. ([], d)), me_scanner = 0, me_scan = (\<lambda>bs c. (Inr (length bs), c + length bs)),
      me_next_run = (\<lambda>c. (False, c)), me_scan_finished = (\<lambda>c. c = 4), me_open_run = (\<lambda>c. None), me_position = (\<lambda>c. c)\<rparr>"

definition stored_spec :: "(bytes \<times> nat, nat) mt_spec" where
  "stored_spec =
     \<lparr>sp_packed = [5, 6, 7, 0], sp_data = [5, 6, 7], sp_bounds = (\<lambda>k. True),
      sp_good = (\<lambda>(fed, given). part_at [5, 6, 7, 0] 0 fed \<and> given \<le> length fed \<and> given \<le> 3),
      sp_taken = (\<lambda>(fed, given). length fed), sp_given = snd, sp_hungry = (\<lambda>(fed, given). length fed \<le> given),
      sp_rank = (\<lambda>d. 0), sp_walks = (\<lambda>c. True), sp_scanned = (\<lambda>c. c), sp_runs = (\<lambda>c. 0)\<rparr>"

lemma stored_serves: "serves stored_env stored_spec"
proof -
  have byte: "fed ! given = [5, 6, 7, 0 :: u8] ! given" if "part_at [5, 6, 7, 0] 0 fed" "given < length fed" for fed given
    using that nth_take [of given "length fed" "[5, 6, 7, 0 :: u8]"] by (simp add: part_at_def)
  have four: "length fed \<le> Suc (Suc (Suc (Suc 0)))" if "part_at [5, 6, 7, 0 :: u8] 0 fed" for fed using that by (simp add: part_at_def)
  have "feeds stored_env stored_spec"
    unfolding feeds_def by (auto simp: stored_env_def stored_spec_def part_append [of _ 0, simplified])
  moreover have "hands_out stored_env stored_spec"
    unfolding hands_out_def
  proof (intro allI impI)
    fix d and n :: nat
    assume g: "sp_good stored_spec d" "0 < n"
    obtain fed given where d: "d = (fed, given)" by (cases d)
    have f: "part_at [5, 6, 7, 0] 0 fed" "given \<le> length fed" "given \<le> 3" using g(1) by (simp_all add: d stored_spec_def)
    consider "length fed = given" | "given < length fed" "given = 3" | "given < length fed" "given < 3" using f by linarith
    then show "\<exists>pieces st d'. me_drain stored_env n d = (pieces, Inr st, d') \<and> sp_good stored_spec d'
        \<and> sp_taken stored_spec d' = sp_taken stored_spec d \<and> length (concat pieces) \<le> n
        \<and> part_at (sp_data stored_spec) (sp_given stored_spec d) (concat pieces)
        \<and> sp_given stored_spec d' = sp_given stored_spec d + length (concat pieces)
        \<and> (st = Finished \<longrightarrow> sp_given stored_spec d' = length (sp_data stored_spec))
        \<and> (st = Progress \<longrightarrow> concat pieces = [] \<longrightarrow> sp_rank stored_spec d' < sp_rank stored_spec d)
        \<and> (st = NeedsMoreInput \<longrightarrow> sp_hungry stored_spec d' \<and> sp_taken stored_spec d' < length (sp_packed stored_spec))"
    proof cases
      case 1
      then show ?thesis using f by (simp add: d stored_env_def stored_spec_def part_at_def)
    next
      case 2
      then show ?thesis using f byte [OF f(1) 2(1)] by (simp add: d stored_env_def stored_spec_def part_at_def)
    next
      case 3
      then have "given = 0 \<or> given = 1 \<or> given = 2" by auto
      then show ?thesis using 3 f g(2) byte [OF f(1) 3(1)] by (auto simp: d stored_env_def stored_spec_def part_at_def)
    qed
  qed
  moreover have "idles stored_env stored_spec"
    unfolding idles_def using four by (auto simp: stored_env_def stored_spec_def same_state_def MT_INPUT_CHUNK_def)
  moreover have "scans stored_env stored_spec"
    unfolding scans_def by (auto simp: stored_env_def stored_spec_def run_start_def)
  moreover have "starts stored_env stored_spec"
    unfolding starts_def by (auto simp: stored_env_def stored_spec_def part_at_def)
  ultimately show ?thesis by (simp add: serves_def)
qed

theorem parallel_reader_delivers_witness:
  "\<exists>coder pieces x. lzma2_decoder stored_env (\<lambda>input p. Inr ()) [Got [5], Got [6, 7, 0]] 0 (plan_for_block 2 False 0x4000000 4096 []) (control_new 2)
      = Inr coder \<and> drain (steered_read stored_env source_read (\<lambda>n x. (Inr [], x))) [1, 1, 2, 2] ([1, 4], coder) = (Inr pieces, x)
    \<and> concat pieces = [5, 6, 7]"
proof -
  let ?plan = "plan_for_block 2 False 0x4000000 4096 []"
  have plan: "?plan = Adaptive 2 0x3EFF000 []"
    by (simp add: plan_for_block_def word_le_nat_alt mt_budget_def saturating_sub_def saturating_add_def LZ_STATE_BYTES_def
      MIB_def KIB_def MT_MIN_BUDGET_BYTES_def u64_max_def)
  then obtain coder where c: "lzma2_decoder stored_env (\<lambda>input p. Inr ()) [Got [5], Got [6, 7, 0]] 0 ?plan (control_new 2) = Inr coder"
    by (simp add: lzma2_decoder_def mt_new_def stored_env_def)
  have "\<exists>pieces x. drain (steered_read stored_env source_read (\<lambda>n x. (Inr [], x))) [1, 1, 2, 2] ([1, 4], coder) = (Inr pieces, x)
      \<and> concat pieces = sp_data stored_spec"
    by (rule parallel_reader_delivers [OF stored_serves refl _ c])
      (use plan in \<open>simp_all add: plain_source_def stored_spec_def\<close>)
  then show ?thesis using c by (simp add: stored_spec_def)
qed

end
