(* ===== verification/Header_Writer.thy ===== *)
theory Header_Writer
  imports Decoder_Setup Header_Reader
begin

text \<open>
  The header half of \<open>ArchiveWriter\<close>: \<open>PackInfo\<close> of \<open>src/writer/pack_info.rs\<close>, \<open>UnpackInfo\<close> and
  \<open>BlockInfo\<close> of \<open>src/writer/unpack_info.rs\<close>, and \<open>write_header\<close> with the \<open>write_file_*\<close>
  functions of \<open>src/writer.rs\<close>.  The header is a \<open>Vec<u8>\<close>, so a writer is the bytes it appends;
  \<open>None\<close> is the panic of an options value that indexes a table out of range.
\<close>

section \<open>Pack info\<close>

record pack_info =
  pi_crcs :: "u32 list"
  pi_sizes :: "u64 list"
  pi_pos :: u64

definition pack_info_default :: pack_info where
  "pack_info_default = \<lparr>pi_crcs = [], pi_sizes = [], pi_pos = 0\<rparr>"

definition add_stream :: "u64 \<Rightarrow> u32 \<Rightarrow> pack_info \<Rightarrow> pack_info" where
  "add_stream n c p = p\<lparr>pi_sizes := pi_sizes p @ [n], pi_crcs := pi_crcs p @ [c]\<rparr>"

text \<open>The bits of the indices below \<open>n\<close> that satisfy \<open>P\<close>, inserted in order.\<close>

definition insert_where :: "(nat \<Rightarrow> bool) \<Rightarrow> nat \<Rightarrow> bit_set \<Rightarrow> bit_set" where
  "insert_where P n s = fold (\<lambda>i t. if P i then snd (bitset_insert i t) else t) [0..<n] s"

definition write_pack_info :: "pack_info \<Rightarrow> bytes" where
  "write_pack_info p =
     write_u8 K_PACK_INFO @ write_u64 (pi_pos p) @ write_u64 (of_nat (length (pi_sizes p)))
     @ write_u8 K_SIZE @ concat (map write_u64 (pi_sizes p))
     @ write_u8 K_CRC
     @ (if list_all (\<lambda>c. c \<noteq> 0) (pi_crcs p)
        then write_u8 1 @ concat (map write_u32 (pi_crcs p))
        else write_u8 0 @ write_bit_set (insert_where (\<lambda>i. pi_crcs p ! i \<noteq> 0) (length (pi_crcs p))
               (bitset_with_capacity (length (pi_crcs p)))))
     @ write_u8 K_END"

section \<open>Unpack info\<close>

record block_info =
  bi_methods :: "encoder_configuration list"
  bi_sizes :: "u64 list"
  bi_crc :: u32
  bi_num_sub_unpack_streams :: u64
  bi_sub_stream_sizes :: "u64 list"
  bi_sub_stream_crcs :: "u32 list"

type_synonym unpack_info = "block_info list"

definition unpack_add :: "encoder_configuration list \<Rightarrow> u64 list \<Rightarrow> u32 \<Rightarrow> unpack_info \<Rightarrow> unpack_info" where
  "unpack_add ms sizes c u =
     u @ [\<lparr>bi_methods = ms, bi_sizes = sizes, bi_crc = c, bi_num_sub_unpack_streams = 1,
           bi_sub_stream_sizes = [], bi_sub_stream_crcs = []\<rparr>]"

definition unpack_add_multiple ::
  "encoder_configuration list \<Rightarrow> u64 list \<Rightarrow> u32 \<Rightarrow> u64 \<Rightarrow> u64 list \<Rightarrow> u32 list \<Rightarrow> unpack_info \<Rightarrow> unpack_info" where
  "unpack_add_multiple ms sizes c n sub_sizes sub_crcs u =
     u @ [\<lparr>bi_methods = ms, bi_sizes = sizes, bi_crc = c, bi_num_sub_unpack_streams = n,
           bi_sub_stream_sizes = sub_sizes, bi_sub_stream_crcs = sub_crcs\<rparr>]"

definition write_single_codec :: "codec_versions \<Rightarrow> encoder_configuration \<Rightarrow> bytes option" where
  "write_single_codec vs mc =
     (case get_options_as_properties vs (cfg_method mc) (cfg_options mc) of
        None \<Rightarrow> None
      | Some props \<Rightarrow>
          let mid = snd (cfg_method mc);
              codec_flags = (if props \<noteq> [] then of_nat (length mid) OR 0x20 else of_nat (length mid))
          in Some (write_u8 codec_flags @ mid
               @ (if props \<noteq> [] then write_u8 (of_nat (length props)) @ props else [])))"

text \<open>A loop whose body can panic.\<close>

fun concat_options :: "bytes option list \<Rightarrow> bytes option" where
  "concat_options [] = Some []"
| "concat_options (x # xs) =
     (case x of None \<Rightarrow> None | Some a \<Rightarrow> map_option (\<lambda>b. a @ b) (concat_options xs))"

definition write_block_info :: "codec_versions \<Rightarrow> block_info \<Rightarrow> bytes option" where
  "write_block_info vs b =
     (let num_coders = length (bi_methods b) in
      case concat_options (map (write_single_codec vs) (bi_methods b)) of
        None \<Rightarrow> None
      | Some cache \<Rightarrow> Some (write_u64 (of_nat num_coders) @ cache
          @ concat (map (\<lambda>i. write_u64 (of_nat i + 1) @ write_u64 (of_nat i)) [0..<num_coders - 1])))"

definition write_unpack_info :: "codec_versions \<Rightarrow> unpack_info \<Rightarrow> bytes option" where
  "write_unpack_info vs u =
     (case concat_options (map (write_block_info vs) u) of
        None \<Rightarrow> None
      | Some folders \<Rightarrow> Some (write_u8 K_UNPACK_INFO @ write_u8 K_FOLDER @ write_u64 (of_nat (length u))
          @ write_u8 0 @ folders
          @ write_u8 K_CODERS_UNPACK_SIZE @ concat (map (\<lambda>b. concat (map write_u64 (bi_sizes b))) u)
          @ write_u8 K_END))"

definition crcs_of_block :: "block_info \<Rightarrow> u32 list" where
  "crcs_of_block b =
     (if 1 < bi_num_sub_unpack_streams b then bi_sub_stream_crcs b
      else if bi_num_sub_unpack_streams b = 1
      then (case bi_sub_stream_crcs b of [] \<Rightarrow> [bi_crc b] | c # _ \<Rightarrow> [c])
      else [])"

definition write_substreams :: "unpack_info \<Rightarrow> bytes" where
  "write_substreams u =
     write_u8 K_SUB_STREAMS_INFO
     @ (if list_ex (\<lambda>b. bi_num_sub_unpack_streams b \<noteq> 1) u
        then write_u8 K_NUM_UNPACK_STREAM @ concat (map (\<lambda>b. write_u64 (bi_num_sub_unpack_streams b)) u) else [])
     @ (if list_ex (\<lambda>b. 1 < length (bi_sub_stream_sizes b)) u
        then write_u8 K_SIZE @ concat (map (\<lambda>b.
               if 1 < length (bi_sub_stream_sizes b)
               then concat (map (\<lambda>i. write_u64 (bi_sub_stream_sizes b ! i)) [0..<length (bi_sub_stream_sizes b) - 1])
               else []) u) else [])
     @ (let crcs_to_write = concat (map crcs_of_block u)
        in if crcs_to_write \<noteq> [] then write_u8 K_CRC @ write_u8 1 @ concat (map write_u32 crcs_to_write) else [])
     @ write_u8 K_END"

section \<open>Files\<close>

text \<open>The macro \<open>write_times!\<close>.\<close>

definition write_times :: "u8 \<Rightarrow> (archive_entry \<Rightarrow> bool) \<Rightarrow> (archive_entry \<Rightarrow> bytes) \<Rightarrow> archive_entry list \<Rightarrow> bytes" where
  "write_times nid has_time time fs =
     (let num = length (filter has_time fs) in
      if num = 0 then []
      else
        let temp = (if num \<noteq> length fs
                    then write_u8 0 @ write_bit_set (insert_where (\<lambda>i. has_time (fs ! i)) (length fs)
                           (bitset_with_capacity (length fs)))
                    else write_u8 1)
                   @ write_u8 0 @ concat (map (\<lambda>f. if has_time f then time f else []) fs)
        in write_u8 nid @ write_u64 (of_nat (length temp)) @ temp)"

definition write_file_ctimes :: "archive_entry list \<Rightarrow> bytes" where
  "write_file_ctimes = write_times K_C_TIME has_creation_date (\<lambda>f. write_u64_le (ticks (creation_date f)))"

definition write_file_atimes :: "archive_entry list \<Rightarrow> bytes" where
  "write_file_atimes = write_times K_A_TIME has_access_date (\<lambda>f. write_u64_le (ticks (access_date f)))"

definition write_file_mtimes :: "archive_entry list \<Rightarrow> bytes" where
  "write_file_mtimes = write_times K_M_TIME has_last_modified_date (\<lambda>f. write_u64_le (ticks (last_modified_date f)))"

definition write_file_windows_attrs :: "archive_entry list \<Rightarrow> bytes" where
  "write_file_windows_attrs = write_times K_WIN_ATTRIBUTES has_windows_attributes (\<lambda>f. write_u32 (windows_attributes f))"

definition write_file_empty_streams :: "archive_entry list \<Rightarrow> bytes" where
  "write_file_empty_streams fs =
     (if list_ex (\<lambda>f. \<not> has_stream f) fs
      then let temp = write_bit_set (insert_where (\<lambda>i. \<not> has_stream (fs ! i)) (length fs)
                        (bitset_with_capacity (length fs)))
           in write_u8 K_EMPTY_STREAM @ write_u64 (of_nat (length temp)) @ temp
      else [])"

text \<open>
  The loop of \<open>write_file_empty_files\<close> and of \<open>write_file_anti_items\<close>: \<open>counter\<close> counts the
  entries without a stream.
\<close>

fun collect_empty :: "(archive_entry \<Rightarrow> bool) \<Rightarrow> archive_entry list \<Rightarrow> nat \<Rightarrow> bit_set \<Rightarrow> bool \<Rightarrow> bool \<times> bit_set" where
  "collect_empty P [] counter bitset found = (found, bitset)"
| "collect_empty P (f # fs) counter bitset found =
     (if has_stream f then collect_empty P fs counter bitset found
      else collect_empty P fs (counter + 1) (if P f then snd (bitset_insert counter bitset) else bitset) (found \<or> P f))"

definition write_collected :: "u8 \<Rightarrow> (archive_entry \<Rightarrow> bool) \<Rightarrow> archive_entry list \<Rightarrow> bytes" where
  "write_collected nid P fs =
     (case collect_empty P fs 0 bitset_new False of
        (found, bitset) \<Rightarrow>
          if found then let temp = write_bit_set bitset in write_u8 nid @ write_u64 (of_nat (length temp)) @ temp
          else [])"

definition write_file_empty_files :: "archive_entry list \<Rightarrow> bytes" where
  "write_file_empty_files = write_collected K_EMPTY_FILE (\<lambda>f. \<not> is_directory f)"

definition write_file_anti_items :: "archive_entry list \<Rightarrow> bytes" where
  "write_file_anti_items = write_collected K_ANTI is_anti_item"

definition write_file_names :: "archive_entry list \<Rightarrow> bytes" where
  "write_file_names fs =
     (let temp = write_u8 0 @ concat (map (\<lambda>f. concat (map write_u16 (encode_utf16 (entry_name f))) @ [0, 0]) fs)
      in write_u8 K_NAME @ write_u64 (of_nat (length temp)) @ temp)"

definition write_files_info :: "archive_entry list \<Rightarrow> bytes" where
  "write_files_info fs =
     write_u8 K_FILES_INFO @ write_u64 (of_nat (length fs)) @ write_file_empty_streams fs
     @ write_file_empty_files fs @ write_file_anti_items fs @ write_file_names fs
     @ write_file_ctimes fs @ write_file_atimes fs @ write_file_mtimes fs @ write_file_windows_attrs fs
     @ write_u8 K_END"

section \<open>The header\<close>

definition write_streams_info :: "codec_versions \<Rightarrow> pack_info \<Rightarrow> unpack_info \<Rightarrow> bytes option" where
  "write_streams_info vs p u =
     (case (if 0 < length (pi_sizes p) then map_option (\<lambda>x. write_pack_info p @ x) (write_unpack_info vs u) else Some []) of
        None \<Rightarrow> None
      | Some front \<Rightarrow> Some (front @ write_substreams u @ write_u8 K_END))"

definition write_header :: "codec_versions \<Rightarrow> pack_info \<Rightarrow> unpack_info \<Rightarrow> archive_entry list \<Rightarrow> bytes option" where
  "write_header vs p u fs =
     (case write_streams_info vs p u of
        None \<Rightarrow> None
      | Some streams \<Rightarrow> Some (write_u8 K_HEADER @ write_u8 K_MAIN_STREAMS_INFO @ streams
          @ write_files_info fs @ write_u8 K_END))"

end
