(* ===== verification/Header_Roundtrip.thy ===== *)
theory Header_Roundtrip
  imports Header_Writer
begin

text \<open>
  What the writer's header means to the reader: the parsers of \<open>Header_Reader\<close> applied to the
  bytes of \<open>Header_Writer\<close>.  Each part is read back after the byte that announces it.
\<close>

section \<open>Reading back bit sets and checksums\<close>

lemma all_contained:
  assumes "bitset_ok s"
  shows "bitset_ok (insert_where P n s)"
    "bitset_contains (insert_where P n s) i \<longleftrightarrow> (i < n \<and> P i) \<or> bitset_contains s i"
    "n \<le> bit_count s \<Longrightarrow> bit_count (insert_where P n s) = bit_count s"
  using assms by (auto simp: insert_where_def bs.insert_all)

lemma not_contained_fresh [simp]: "\<not> bitset_contains (bitset_with_capacity n) i" "\<not> bitset_contains bitset_new i"
  using members_fresh by (auto simp: bitset_members_def)

definition full_set :: "nat \<Rightarrow> bit_set" where
  "full_set n = insert_where (\<lambda>_. True) n (bitset_with_capacity n)"

lemma full_set_ok [simp]:
  "bitset_ok (full_set n)" "bit_count (full_set n) = n" "bitset_contains (full_set n) i \<longleftrightarrow> i < n"
  by (simp_all add: full_set_def all_contained)

lemma read_all_set: "pbind (read_all_or_bits n) f (write_u8 1 @ rest) = f (full_set n) rest"
  by (simp add: read_all_or_bits_def pbind_def full_set_def insert_where_def write_u8_def)

lemma read_some_set:
  assumes "bitset_ok s" "bit_count s = n"
  shows "pbind (read_all_or_bits n) f (write_u8 0 @ write_bit_set s @ rest) = f s rest"
  using bit_vector_codec.decode_encode [of s n rest] assms by (simp add: read_all_or_bits_def pbind_def write_u8_def)

lemma pmap_crcs:
  assumes "list_all (bitset_contains s) is" "length is = length cs"
  shows "pmap (\<lambda>i. if bitset_contains s i then pbind read_u32 (\<lambda>c. preturn (ucast c :: u64)) else preturn 0) is
    (concat (map write_u32 cs) @ rest) = Inr (map ucast cs, rest)"
  using assms
proof (induction "is" arbitrary: cs)
  case (Cons i "is")
  then obtain c cs' where "cs = c # cs'" by (cases cs) auto
  then show ?case using Cons u32_codec.decode_encode [of c] by (auto simp: pbind_def)
qed simp

lemma read_crcs:
  assumes "\<And>i. i < length cs \<Longrightarrow> bitset_contains s i"
  shows "pbind (read_defined_crcs s (length cs)) f (concat (map write_u32 cs) @ rest) = f (map ucast cs) rest"
  using pmap_crcs [of s "[0..<length cs]" cs rest] assms
  by (simp add: read_defined_crcs_def pbind_def list_all_iff)

lemmas read_back = number_codec.bind_encoded [OF TrueI] u8_codec.bind_encoded [OF TrueI]
  u32_codec.bind_encoded [OF TrueI] u64_codec.bind_encoded [OF TrueI] read_all_set

lemma bind_numbers: "pbind (preplicate (length xs) read_variable_u64) f (concat (map write_u64 xs) @ rest) = f xs rest"
  by (rule number_codec.bind_list) (simp add: list_all_iff)

lemma bind_plift: "pbind (plift (Inr a)) f bs = f a bs"
  by (simp add: pbind_def)

lemma bind_preturn: "pbind (preturn a) f bs = f a bs"
  by (simp add: pbind_def)

lemma bind_pensure: "c \<Longrightarrow> pbind (pensure e c) f bs = f () bs"
  by (simp add: pbind_def)

lemma bind_assoc: "pbind (pbind p f) g bs = pbind p (\<lambda>a. pbind (f a) g) bs"
  by (simp add: pbind_def split: sum.splits)

lemma bind_assoc_fun: "pbind (pbind p f) g = pbind p (\<lambda>a. pbind (f a) g)"
  by (rule ext) (rule bind_assoc)

lemma bind_preturn_fun: "pbind (preturn a) f = f a"
  by (rule ext) (rule bind_preturn)

lemmas steps = read_back bind_numbers bind_plift bind_preturn bind_pensure bind_assoc

definition fits :: "header_bounds \<Rightarrow> limit \<Rightarrow> nat \<Rightarrow> bool" where
  "fits hb what n \<longleftrightarrow> n < 2 ^ 64 \<and> n \<le> hb_bytes hb \<and> n \<le> unat (bounds_cap (hb_limits hb) what)"

lemma bounds_count_fits: "fits hb what n \<Longrightarrow> bounds_count hb (of_nat n) what = Inr n"
  by (auto simp: fits_def bounds_count_Inr unat_of_nat_u64 word_le_nat_alt)

section \<open>Pack info\<close>

definition pack_info_ok :: "header_bounds \<Rightarrow> pack_info \<Rightarrow> bool" where
  "pack_info_ok hb p \<longleftrightarrow> length (pi_crcs p) = length (pi_sizes p) \<and> fits hb Entries (length (pi_sizes p))
     \<and> list_all (\<lambda>c. c \<noteq> 0) (pi_crcs p)"

lemma read_pack_info_written:
  assumes "pack_info_ok hb p"
  shows "pbind read_u8 (\<lambda>_. read_pack_info hb a) (write_pack_info p @ rest)
    = Inr (a\<lparr>pack_pos := pi_pos p, pack_sizes := pi_sizes p, pack_crcs_defined := full_set (length (pi_sizes p)),
             pack_crcs := map ucast (pi_crcs p)\<rparr>, rest)"
proof -
  define n where "n = length (pi_sizes p)"
  have n: "length (pi_crcs p) = n" "bounds_count hb (of_nat n) Entries = Inr n" "list_all (\<lambda>c. c \<noteq> 0) (pi_crcs p)"
    using assms bounds_count_fits [of hb Entries n] by (simp_all add: pack_info_ok_def n_def)
  have crcs: "pbind (read_defined_crcs (full_set n) n) f (concat (map write_u32 (pi_crcs p)) @ r) = f (map ucast (pi_crcs p)) r" for f :: "u64 list \<Rightarrow> 'a parser" and r
    using read_crcs [of "pi_crcs p" "full_set n" f r] n(1) by simp
  have nums: "pbind (preplicate n read_variable_u64) f (concat (map write_u64 (pi_sizes p)) @ r) = f (pi_sizes p) r" for f :: "u64 list \<Rightarrow> 'a parser" and r
    using bind_numbers [of "pi_sizes p" f r] by (simp add: n_def)
  show ?thesis
    using n(3) unfolding write_pack_info_def read_pack_info_def n_def [symmetric]
    by (simp add: steps n(2) crcs nums K_defs)
qed

section \<open>A chain of coders\<close>

definition chain_pairs :: "nat \<Rightarrow> bind_pair list" where
  "chain_pairs n = map (\<lambda>i. \<lparr>in_index = of_nat i + 1, out_index = of_nat i\<rparr>) [0..<n - 1]"

definition chain_block :: "coder list \<Rightarrow> block" where
  "chain_block cs = default_block\<lparr>coders := cs, total_input_streams := length cs,
     total_output_streams := length cs, bind_pairs := chain_pairs (length cs), packed_streams := [0]\<rparr>"

definition single_streamed :: "coder list \<Rightarrow> bool" where
  "single_streamed cs \<longleftrightarrow> list_all (\<lambda>c. num_in_streams c = 1 \<and> num_out_streams c = 1) cs"

lemma chain_block_parts [simp]:
  "coders (chain_block cs) = cs" "total_input_streams (chain_block cs) = length cs"
  "total_output_streams (chain_block cs) = length cs" "bind_pairs (chain_block cs) = chain_pairs (length cs)"
  "packed_streams (chain_block cs) = [0]" "block_unpack_sizes (chain_block cs) = []"
  "block_has_crc (chain_block cs) = False" "num_unpack_sub_streams (chain_block cs) = 0"
  by (simp_all add: chain_block_def default_block_def)

lemma unat_of_nat_Suc: "k < 2 ^ 64 - 1 \<Longrightarrow> unat (of_nat k + 1 :: u64) = Suc k"
  using unat_of_nat_u64 [of "Suc k"] by (simp add: add.commute)

lemma sum_single: "single_streamed cs \<Longrightarrow> sum_list (map (unat \<circ> num_in_streams) cs) = length cs
    \<and> sum_list (map (unat \<circ> num_out_streams) cs) = length cs"
  by (induction cs) (auto simp: single_streamed_def)

lemma chain_ranges:
  assumes "single_streamed cs" "length cs < 2 ^ 64"
  shows "block_ranges (chain_block cs)"
  using assms sum_single [OF assms(1)]
  by (auto simp: block_ranges_def chain_pairs_def unat_of_nat_Suc unat_of_nat_u64)

lemma chain_indices:
  assumes "n < 2 ^ 64"
  shows "unat ` set (map in_index (chain_pairs n)) = {1..<n}" "unat ` set (map out_index (chain_pairs n)) = {..<n - 1}"
    "distinct (map in_index (chain_pairs n))" "distinct (map out_index (chain_pairs n))"
proof -
  have i: "map unat (map in_index (chain_pairs n)) = map Suc [0..<n - 1]"
    using assms by (auto simp: chain_pairs_def unat_of_nat_Suc)
  have out: "map unat (map out_index (chain_pairs n)) = [0..<n - 1]"
    using assms by (auto simp: chain_pairs_def unat_of_nat_u64 intro!: map_idI)
  have "unat ` set (map in_index (chain_pairs n)) = set (map Suc [0..<n - 1])"
    using arg_cong [OF i, of set] by (simp only: set_map)
  then show "unat ` set (map in_index (chain_pairs n)) = {1..<n}"
    by (auto simp: image_iff)
  have "unat ` set (map out_index (chain_pairs n)) = set [0..<n - 1]"
    using arg_cong [OF out, of set] by (simp only: set_map)
  then show "unat ` set (map out_index (chain_pairs n)) = {..<n - 1}" by auto
  have "distinct (map unat (map in_index (chain_pairs n)))" unfolding i by (simp add: distinct_map)
  then show "distinct (map in_index (chain_pairs n))" by (simp only: distinct_map)
  have "distinct (map unat (map out_index (chain_pairs n)))" unfolding out by simp
  then show "distinct (map out_index (chain_pairs n))" by (simp only: distinct_map)
qed

lemma chain_bound_once:
  assumes "length cs < 2 ^ 64" "cs \<noteq> []"
  shows "streams_bound_once (chain_block cs)"
proof -
  note ix = chain_indices [OF assms(1)]
  have "0 \<notin> set (map in_index (chain_pairs (length cs)))"
  proof
    assume "0 \<in> set (map in_index (chain_pairs (length cs)))"
    then have "0 \<in> unat ` set (map in_index (chain_pairs (length cs)))" by force
    then show False unfolding ix by simp
  qed
  moreover have "unat ` set (map in_index (chain_pairs (length cs)) @ [0]) = {..<length cs}"
    using assms(2) ix(1) by (auto simp: image_Un)
  moreover have "\<exists>!out. out < length cs \<and> out \<notin> unat ` set (map out_index (chain_pairs (length cs)))"
    unfolding ix(2) using assms(2) by (intro ex1I [of _ "length cs - 1"]) (cases cs; auto)+
  ultimately show ?thesis using ix(3,4) by (simp add: streams_bound_once_def)
qed

lemma chain_find:
  assumes "n < 2 ^ 64" "bind_pairs b = chain_pairs n"
  shows "find_bind_pair_for_in_stream b 0 = None"
    "Suc j < n \<Longrightarrow> find_bind_pair_for_in_stream b (of_nat (Suc j)) = Some \<lparr>in_index = of_nat (Suc j), out_index = of_nat j\<rparr>"
proof -
  have u: "unat (of_nat i + 1 :: u64) = Suc i" if "i < n - 1" for i using that assms(1) by (intro unat_of_nat_Suc) linarith
  then have "of_nat i + 1 \<noteq> (0 :: u64)" if "i < n - 1" for i using that by fastforce
  then show "find_bind_pair_for_in_stream b 0 = None"
    using assms(2) by (auto simp: find_bind_pair_for_in_stream_def chain_pairs_def find_None_iff)
  assume j: "Suc j < n"
  then have "unat (of_nat (Suc j) :: u64) = Suc j" using assms(1) by (intro unat_of_nat_u64) linarith
  then have eq: "of_nat i + 1 = (of_nat (Suc j) :: u64) \<longleftrightarrow> i = j" if "i < n - 1" for i
    unfolding word_unat_eq_iff u [OF that] by simp
  have "find (\<lambda>bp. in_index bp = of_nat (Suc j)) (chain_pairs n) = Some (chain_pairs n ! j)"
    unfolding find_Some_iff using j eq nth_upt [of 0 j "n - 1"]
    by (intro exI [of _ j]) (auto simp: chain_pairs_def simp del: of_nat_Suc)
  then show "find_bind_pair_for_in_stream b (of_nat (Suc j)) = Some \<lparr>in_index = of_nat (Suc j), out_index = of_nat j\<rparr>"
    using j assms(2) by (simp add: find_bind_pair_for_in_stream_def chain_pairs_def add.commute)
qed

lemma chain_outputs: "single_streamed cs \<Longrightarrow> coder_of_streams num_out_streams cs = [0..<length cs]"
proof -
  assume s: "single_streamed cs"
  then have "map (\<lambda>(ci, c). replicate (unat (num_out_streams c)) ci) (zip [0..<length cs] cs) = map (\<lambda>ci. [ci]) [0..<length cs]"
    by (auto simp: single_streamed_def list_all_length intro!: nth_equalityI)
  then show ?thesis by (simp add: coder_of_streams_def)
qed

lemma chain_source_less:
  assumes "single_streamed cs" "length cs < 2 ^ 64" "c < length cs" "(c, d) \<in> reads_from (chain_block cs)"
  shows "d < c"
proof -
  from assms(4) obtain j where "coder_source (chain_block cs) [0..<length cs] c j = Some d"
    using chain_outputs [OF assms(1)] by (auto simp: reads_from_def)
  moreover have "unat (num_in_streams (cs ! c)) = 1" using assms(1,3) by (simp add: single_streamed_def list_all_length)
  moreover have "first_in_stream cs c = c"
    using sum_single [of "take c cs"] assms(1,3) by (auto simp: first_in_stream_def single_streamed_def list_all_iff dest: in_set_takeD)
  ultimately have "(case find_bind_pair_for_in_stream (chain_block cs) (of_nat c) of None \<Rightarrow> None
      | Some bp \<Rightarrow> nth_option [0..<length cs] (unat (out_index bp))) = Some d"
    by (auto simp: coder_source_def split: if_splits)
  moreover have "unat (of_nat i :: u64) = i" if "Suc i = c" for i
    using that assms(2,3) by (intro unat_of_nat_u64) linarith
  ultimately show ?thesis
    using chain_find [OF assms(2), of "chain_block cs"] assms(3)
    by (cases c) (auto simp: nth_option_def simp del: of_nat_Suc split: if_splits)
qed

lemma chain_no_cycle:
  assumes "single_streamed cs" "length cs < 2 ^ 64"
  shows "no_reachable_cycle (chain_block cs)"
  unfolding no_reachable_cycle_def
proof (intro allI impI)
  fix out c
  assume out: "final_output (chain_block cs) out"
    and r: "(coder_of_streams num_out_streams (coders (chain_block cs)) ! out, c) \<in> (reads_from (chain_block cs))\<^sup>*"
  note less = chain_source_less [OF assms]
  have "out < length cs" using out by (simp add: final_output_def)
  then have r: "(out, c) \<in> (reads_from (chain_block cs))\<^sup>*" using r chain_outputs [OF assms(1)] by simp
  have c: "c < length cs" using r
  proof induction
    case (step y z)
    then show ?case using less [of y z] by simp
  qed (rule \<open>out < length cs\<close>)
  have "d < c" if "(c, d) \<in> (reads_from (chain_block cs))\<^sup>+" for d
    using that
  proof induction
    case (step y z)
    then show ?case using less [of y z] c by simp
  qed (rule less [OF c])
  then show "(c, c) \<notin> (reads_from (chain_block cs))\<^sup>+" by blast
qed

lemma chain_valid:
  assumes "single_streamed cs" "length cs < 2 ^ 64" "cs \<noteq> []"
  shows "validate_coder_graph (chain_block cs) = Inr ()"
  using validate_iff [OF chain_ranges] chain_bound_once chain_no_cycle assms by blast

section \<open>Blocks\<close>

text \<open>The coder a configuration is written as, and what a reader needs to accept it.\<close>

definition written_coder :: "codec_versions \<Rightarrow> encoder_configuration \<Rightarrow> coder" where
  "written_coder vs mc = \<lparr>encoder_method_id = snd (cfg_method mc), num_in_streams = 1, num_out_streams = 1,
     coder_properties = the (get_options_as_properties vs (cfg_method mc) (cfg_options mc))\<rparr>"

definition config_ok :: "header_bounds \<Rightarrow> codec_versions \<Rightarrow> encoder_configuration \<Rightarrow> bool" where
  "config_ok hb vs mc \<longleftrightarrow> length (snd (cfg_method mc)) < 16
     \<and> (\<exists>props. get_options_as_properties vs (cfg_method mc) (cfg_options mc) = Some props
         \<and> length props < 128 \<and> length props \<le> hb_bytes hb)"

definition block_info_ok :: "header_bounds \<Rightarrow> codec_versions \<Rightarrow> block_info \<Rightarrow> bool" where
  "block_info_ok hb vs b \<longleftrightarrow> bi_methods b \<noteq> [] \<and> list_all (config_ok hb vs) (bi_methods b)
     \<and> fits hb CodersPerBlock (length (bi_methods b)) \<and> fits hb Entries (length (bi_methods b))
     \<and> 1 \<le> max_streams_per_coder (hb_limits hb) \<and> length (bi_sizes b) = length (bi_methods b)"

definition written_block :: "codec_versions \<Rightarrow> block_info \<Rightarrow> block" where
  "written_block vs b = chain_block (map (written_coder vs) (bi_methods b))"

lemma codec_flags:
  assumes "k < 16"
  shows "unat (of_nat k AND 0xF :: u8) = k" "unat ((of_nat k OR 0x20) AND 0xF :: u8) = k"
    "(of_nat k :: u8) AND 0x10 = 0" "((of_nat k :: u8) OR 0x20) AND 0x10 = 0"
    "(of_nat k :: u8) AND 0x20 = 0" "((of_nat k :: u8) OR 0x20) AND 0x20 \<noteq> 0"
    "(of_nat k :: u8) AND 0x80 = 0" "((of_nat k :: u8) OR 0x20) AND 0x80 = 0"
proof -
  have "k = 0 \<or> k = 1 \<or> k = 2 \<or> k = 3 \<or> k = 4 \<or> k = 5 \<or> k = 6 \<or> k = 7 \<or> k = 8 \<or> k = 9 \<or> k = 10 \<or> k = 11
    \<or> k = 12 \<or> k = 13 \<or> k = 14 \<or> k = 15" using assms by presburger
  then show "unat (of_nat k AND 0xF :: u8) = k" "unat ((of_nat k OR 0x20) AND 0xF :: u8) = k"
    "(of_nat k :: u8) AND 0x10 = 0" "((of_nat k :: u8) OR 0x20) AND 0x10 = 0"
    "(of_nat k :: u8) AND 0x20 = 0" "((of_nat k :: u8) OR 0x20) AND 0x20 \<noteq> 0"
    "(of_nat k :: u8) AND 0x80 = 0" "((of_nat k :: u8) OR 0x20) AND 0x80 = 0"
    by (elim disjE; simp)+
qed

lemma read_small_number:
  assumes "n < 128"
  shows "read_variable_u64 (write_u8 (of_nat n) @ rest) = Inr (of_nat n, rest)"
proof -
  have u: "unat (of_nat n :: u8) = n" using assms by (simp add: unsigned_of_nat take_bit_nat_eq_self)
  then have "\<not> bit (of_nat n :: u8) 7" using assms by (intro bit_above_bound [of _ 7]) simp_all
  then have "(of_nat n :: u8) AND 0x80 = 0" using and_exp_eq_0_iff_not_bit [of "of_nat n :: u8" 7] by simp
  moreover have "(ucast (of_nat n :: u8) :: u64) = of_nat n"
    using assms u by (simp only: word_unat_eq_iff unat_ucast_widen [where 'a = 8 and 'b = 64, simplified] u) (simp add: unat_of_nat_u64)
  ultimately show ?thesis using read_variable_small [of "of_nat n" rest] by (simp add: write_u8_def)
qed

lemma bind_small_number: "n < 128 \<Longrightarrow> pbind read_variable_u64 f (write_u8 (of_nat n) @ rest) = f (of_nat n) rest"
  by (simp add: pbind_def read_small_number)

lemma bind_exact: "length xs = n \<Longrightarrow> pbind (read_exact n) f (xs @ rest) = f xs rest"
  by (simp add: pbind_def read_exact_append)

lemma checked_add_Suc: "Suc k < 2 ^ 64 \<Longrightarrow> checked_add (of_nat k) 1 = Some (of_nat (Suc k))"
  using unat_of_nat_u64 [of "Suc k"] unat_of_nat_u64 [of k] by (simp add: checked_add_def add.commute)

lemma fits_le: "fits hb what n \<Longrightarrow> m \<le> n \<Longrightarrow> fits hb what m"
  by (simp add: fits_def)

lemma read_written_coder:
  assumes "config_ok hb vs mc" "write_single_codec vs mc = Some w" "fits hb Entries (Suc k)"
    and "1 \<le> max_streams_per_coder (hb_limits hb)"
  shows "pbind (read_coder hb (of_nat k) (of_nat k)) f (w @ rest) = f (written_coder vs mc, of_nat (Suc k), of_nat (Suc k)) rest"
proof -
  obtain props where p: "get_options_as_properties vs (cfg_method mc) (cfg_options mc) = Some props"
    "length props < 128" "length props \<le> hb_bytes hb" and l: "length (snd (cfg_method mc)) < 16"
    using assms(1) by (auto simp: config_ok_def)
  have add: "checked_add (of_nat k) 1 = Some (of_nat (Suc k))"
    using assms(3) by (intro checked_add_Suc) (simp add: fits_def)
  have fit: "bounds_count hb (of_nat (Suc k)) Entries = Inr (Suc k)" by (rule bounds_count_fits [OF assms(3)])
  have sz: "bounds_size hb (of_nat (length props)) = Inr (length props)"
    using p(2,3) by (simp add: bounds_size_Inr unat_of_nat_u64)
  define flags where "flags = (if props \<noteq> [] then of_nat (length (snd (cfg_method mc))) OR 0x20 else of_nat (length (snd (cfg_method mc))) :: u8)"
  have fl: "unat (flags AND 0xF) = length (snd (cfg_method mc))" "flags AND 0x10 = 0" "flags AND 0x80 = 0"
    "flags AND 0x20 = 0 \<longleftrightarrow> props = []"
    using codec_flags [OF l] by (simp_all add: flags_def)
  have w: "w = write_u8 flags @ snd (cfg_method mc) @ (if props \<noteq> [] then write_u8 (of_nat (length props)) @ props else [])"
    using assms(2) p(1) by (simp add: write_single_codec_def Let_def flags_def split: if_splits)
  show ?thesis
    unfolding read_coder_def Let_def w
    by (cases "props = []")
       (simp_all add: steps fl bind_exact bind_small_number add fit sz assms(4) p(2) written_coder_def p(1) del: of_nat_Suc)
qed

lemma read_written_coders:
  assumes "list_all (config_ok hb vs) ms" "concat_options (map (write_single_codec vs) ms) = Some w"
    and "fits hb Entries (k + length ms)" "1 \<le> max_streams_per_coder (hb_limits hb)"
  shows "pbind (read_coders hb (length ms) (of_nat k) (of_nat k)) f (w @ rest)
    = f (map (written_coder vs) ms, of_nat (k + length ms), of_nat (k + length ms)) rest"
  using assms
proof (induction ms arbitrary: w k f)
  case (Cons mc ms)
  obtain w1 w2 where w: "write_single_codec vs mc = Some w1" "concat_options (map (write_single_codec vs) ms) = Some w2" "w = w1 @ w2"
    using Cons.prems(2) by (auto split: option.splits)
  have fit: "fits hb Entries (Suc k)" using Cons.prems(3) by (auto intro: fits_le)
  have ok: "config_ok hb vs mc" using Cons.prems(1) by simp
  show ?case
    using Cons.prems Cons.IH [OF _ w(2), of "Suc k"] w(3)
    by (simp add: bind_assoc read_written_coder [OF ok w(1) fit] bind_preturn del: of_nat_Suc)
qed (simp add: bind_preturn)

lemma read_chain_pairs:
  assumes "n < 2 ^ 64" "m \<le> n - 1"
  shows "pbind (preplicate (n - 1 - m) (read_bind_pair n n)) f
      (concat (map (\<lambda>i. write_u64 (of_nat i + 1) @ write_u64 (of_nat i)) [m..<n - 1]) @ rest)
    = f (map (\<lambda>i. \<lparr>in_index = of_nat i + 1, out_index = of_nat i\<rparr>) [m..<n - 1]) rest"
  using assms
proof (induction "n - 1 - m" arbitrary: m f)
  case (Suc d)
  then have m: "m < n - 1" by linarith
  then have "[m..<n - 1] = m # [Suc m..<n - 1]" by (rule upt_conv_Cons)
  moreover have "n - 1 - m = Suc (n - 1 - Suc m)" using m by linarith
  moreover have "unat (of_nat m + 1 :: u64) = Suc m" "unat (of_nat m :: u64) = m"
    using m Suc.prems(1) by (auto intro!: unat_of_nat_Suc unat_of_nat_u64)
  moreover have "d = n - 1 - Suc m" "Suc m \<le> n - 1" "\<not> n \<le> Suc m" "\<not> n \<le> m" using Suc.hyps m by linarith+
  ultimately show ?case
    using Suc.hyps(1) [of "Suc m"] Suc.prems(1) m
    by (simp add: bind_assoc read_bind_pair_def steps)
next
  case 0
  then have "[m..<n - 1] = []" by simp
  then show ?case using 0 by (simp add: pbind_def)
qed

lemma read_written_block:
  assumes "block_info_ok hb vs b" "write_block_info vs b = Some w"
  shows "pbind (read_block hb) f (w @ rest) = f (written_block vs b) rest"
proof -
  define n where "n = length (bi_methods b)"
  define cs where "cs = map (written_coder vs) (bi_methods b)"
  have ok: "0 < n" "list_all (config_ok hb vs) (bi_methods b)" "fits hb CodersPerBlock n" "fits hb Entries n"
    "1 \<le> max_streams_per_coder (hb_limits hb)"
    using assms(1) by (auto simp: block_info_ok_def n_def)
  have n64: "n < 2 ^ 64" using ok(4) by (simp add: fits_def)
  obtain cache where c: "concat_options (map (write_single_codec vs) (bi_methods b)) = Some cache"
    and w: "w = write_u64 (of_nat n) @ cache @ concat (map (\<lambda>i. write_u64 (of_nat i + 1) @ write_u64 (of_nat i)) [0..<n - 1])"
    using assms(2) by (auto simp: write_block_info_def Let_def n_def split: option.splits)
  have len: "length cs = n" by (simp add: cs_def n_def)
  have single: "single_streamed cs" by (simp add: single_streamed_def cs_def list_all_iff written_coder_def)
  have "cs \<noteq> []" using ok(1) len by auto
  note valid = chain_valid [OF single _ this] and first = chain_find(1) [OF n64]
  have coders: "pbind (read_coders hb n 0 0) g (cache @ r) = g (cs, of_nat n, of_nat n) r" for g :: "coder list \<times> u64 \<times> u64 \<Rightarrow> block parser" and r
    using read_written_coders [OF ok(2) c _ ok(5), of 0 g r] ok(4) by (simp add: n_def cs_def)
  have pairs: "pbind (preplicate (n - 1) (read_bind_pair n n)) g (concat (map (\<lambda>i. write_u64 (of_nat i + 1) @ write_u64 (of_nat i)) [0..<n - 1]) @ r)
    = g (chain_pairs n) r" for g :: "bind_pair list \<Rightarrow> block parser" and r
    using read_chain_pairs [OF n64, of 0 g r] by (simp add: chain_pairs_def)
  have u: "unat (of_nat n :: u64) = n" by (rule unat_of_nat_u64 [OF n64])
  define b' where "b' = default_block\<lparr>coders := cs, total_input_streams := n, total_output_streams := n, bind_pairs := chain_pairs n\<rparr>"
  have "[0..<n] = 0 # [1..<n]" using ok(1) by (simp add: upt_conv_Cons)
  then have packed: "read_packed_streams b' (Suc 0) = preturn [0]"
    using first [of b'] by (simp add: read_packed_streams_def b'_def)
  have blk: "b'\<lparr>packed_streams := [0]\<rparr> = written_block vs b"
    by (simp add: b'_def written_block_def chain_block_def cs_def [symmetric] len)
  have diff: "n - (n - Suc 0) = Suc 0" using ok(1) by simp
  have "read_block hb (w @ r) = Inr (written_block vs b, r)" for r
    using ok(1) valid len n64
    unfolding read_block_def w Let_def
    by (simp add: steps bounds_count_fits [OF ok(3)] coders pairs [simplified] u b'_def [symmetric] diff packed blk
        written_block_def cs_def [symmetric])
  then show ?thesis by (simp add: pbind_def)
qed

section \<open>Unpack info\<close>

definition coder_total :: "unpack_info \<Rightarrow> nat" where
  "coder_total u = sum_list (map (\<lambda>b. length (bi_methods b)) u)"

lemma coder_total_simps [simp]: "coder_total [] = 0" "coder_total (b # u) = length (bi_methods b) + coder_total u"
  by (simp_all add: coder_total_def)

definition unpack_info_ok :: "header_bounds \<Rightarrow> codec_versions \<Rightarrow> unpack_info \<Rightarrow> bool" where
  "unpack_info_ok hb vs u \<longleftrightarrow> list_all (block_info_ok hb vs) u \<and> fits hb Entries (length u)
     \<and> coder_total u < 2 ^ 64 \<and> coder_total u \<le> unat (max_total_coders (hb_limits hb))"

definition sized_block :: "codec_versions \<Rightarrow> block_info \<Rightarrow> block" where
  "sized_block vs b = (written_block vs b)\<lparr>block_unpack_sizes := bi_sizes b\<rparr>"

lemma written_block_coders [simp]: "length (coders (written_block vs b)) = length (bi_methods b)"
  "total_output_streams (written_block vs b) = length (bi_methods b)" "block_unpack_sizes (written_block vs b) = []"
  by (simp_all add: written_block_def)

lemma read_written_blocks:
  assumes "list_all (block_info_ok hb vs) u" "concat_options (map (write_block_info vs) u) = Some w"
    and "k + coder_total u < 2 ^ 64" "k + coder_total u \<le> unat (max_total_coders (hb_limits hb))"
  shows "pbind (read_blocks hb (length u) (of_nat k)) f (w @ rest) = f (map (written_block vs) u) rest"
  using assms
proof (induction u arbitrary: w k f)
  case (Cons b u)
  obtain w1 w2 where w: "write_block_info vs b = Some w1" "concat_options (map (write_block_info vs) u) = Some w2" "w = w1 @ w2"
    using Cons.prems(2) by (auto split: option.splits)
  have ok: "block_info_ok hb vs b" using Cons.prems(1) by simp
  define k' where "k' = k + length (bi_methods b)"
  have k': "k' + coder_total u < 2 ^ 64" "k' + coder_total u \<le> unat (max_total_coders (hb_limits hb))"
    using Cons.prems(3,4) by (simp_all add: k'_def)
  have u: "unat (of_nat k :: u64) = k" "unat (of_nat (length (bi_methods b)) :: u64) = length (bi_methods b)" "unat (of_nat k' :: u64) = k'"
    using Cons.prems(3) k' by (auto intro!: unat_of_nat_u64)
  then have add: "saturating_add (of_nat k) (of_nat (length (bi_methods b))) = of_nat k'"
    using k' by (simp only: word_unat_eq_iff unat_saturating_add) (simp add: k'_def)
  have max: "\<not> max_total_coders (hb_limits hb) < of_nat k'"
    using k' u(3) by (simp add: word_less_nat_alt)
  show ?case
    using Cons.prems(1) Cons.IH [OF _ w(2) k']
    by (simp add: bind_assoc w(3) read_written_block [OF ok w(1)] Let_def add max bind_pensure bind_preturn)
qed (simp add: pbind_def)

lemma read_written_sizes:
  assumes "list_all (\<lambda>b. length (bi_sizes b) = length (bi_methods b)) u"
  shows "pbind (pmap read_unpack_sizes (map (written_block vs) u)) f (concat (map (\<lambda>b. concat (map write_u64 (bi_sizes b))) u) @ rest)
    = f (map (sized_block vs) u) rest"
  using assms
proof (induction u arbitrary: f)
  case (Cons b u)
  have "pbind (preplicate (length (bi_methods b)) read_variable_u64) g (concat (map write_u64 (bi_sizes b)) @ r) = g (bi_sizes b) r"
    for g :: "u64 list \<Rightarrow> 'a parser" and r
    using bind_numbers [of "bi_sizes b" g r] Cons.prems by simp
  then show ?case using Cons
    by (simp add: bind_assoc read_unpack_sizes_def bind_preturn sized_block_def)
qed (simp add: pbind_def)

lemma read_unpack_info_written:
  assumes "unpack_info_ok hb vs u" "write_unpack_info vs u = Some w" "blocks a = []"
  shows "pbind read_u8 (\<lambda>_. pbind (read_unpack_info hb a) f) (w @ rest) = f (a\<lparr>blocks := map (sized_block vs) u\<rparr>) rest"
proof -
  obtain folders where fo: "concat_options (map (write_block_info vs) u) = Some folders"
    and w: "w = write_u8 K_UNPACK_INFO @ write_u8 K_FOLDER @ write_u64 (of_nat (length u)) @ write_u8 0 @ folders
          @ write_u8 K_CODERS_UNPACK_SIZE @ concat (map (\<lambda>b. concat (map write_u64 (bi_sizes b))) u) @ write_u8 K_END"
    using assms(2) by (auto simp: write_unpack_info_def split: option.splits)
  have blocks: "pbind (read_blocks hb (length u) 0) g (folders @ r) = g (map (written_block vs) u) r" for g :: "block list \<Rightarrow> 'a parser" and r
    using read_written_blocks [OF _ fo, of hb 0 g r] assms(1) by (simp add: unpack_info_ok_def)
  have sizes: "pbind (pmap read_unpack_sizes (map (written_block vs) u)) g (concat (map (\<lambda>b. concat (map write_u64 (bi_sizes b))) u) @ r)
    = g (map (sized_block vs) u) r" for g :: "block list \<Rightarrow> 'a parser" and r
    using assms(1) by (intro read_written_sizes) (auto simp: unpack_info_ok_def block_info_ok_def list_all_iff)
  have fit: "bounds_count hb (of_nat (length u)) Entries = Inr (length u)"
    using assms(1) by (intro bounds_count_fits) (simp add: unpack_info_ok_def)
  show ?thesis
    unfolding w read_unpack_info_def by (simp add: steps fit blocks sizes assms(3)) (simp add: K_defs bind_pensure bind_preturn)
qed

section \<open>Sub-streams\<close>

definition stream_count :: "block_info \<Rightarrow> nat" where
  "stream_count b = unat (bi_num_sub_unpack_streams b)"

definition stream_sizes :: "block_info \<Rightarrow> u64 list" where
  "stream_sizes b = (if 1 < stream_count b then bi_sub_stream_sizes b
     else if stream_count b = 1 then [last (bi_sizes b)] else [])"

text \<open>
  A block whose sub-streams are described consistently: as many sizes and checksums as streams,
  adding up to what the block unpacks to.
\<close>

definition streams_described :: "block_info \<Rightarrow> bool" where
  "streams_described b \<longleftrightarrow>
     (if 1 < stream_count b
      then length (bi_sub_stream_sizes b) = stream_count b \<and> length (bi_sub_stream_crcs b) = stream_count b
        \<and> sum_list (map unat (bi_sub_stream_sizes b)) = unat (last (bi_sizes b))
      else length (bi_sub_stream_sizes b) \<le> 1)"

definition stream_total :: "unpack_info \<Rightarrow> nat" where
  "stream_total u = sum_list (map stream_count u)"

lemma stream_total_simps [simp]: "stream_total [] = 0" "stream_total (b # u) = stream_count b + stream_total u"
  by (simp_all add: stream_total_def)

definition counted_block :: "codec_versions \<Rightarrow> block_info \<Rightarrow> block" where
  "counted_block vs b = (sized_block vs b)\<lparr>num_unpack_sub_streams := stream_count b\<rparr>"

lemma counted_block_parts [simp]:
  "num_unpack_sub_streams (counted_block vs b) = stream_count b" "\<not> block_has_crc (counted_block vs b)"
  "block_unpack_sizes (counted_block vs b) = bi_sizes b" "total_output_streams (counted_block vs b) = length (bi_methods b)"
  "bind_pairs (counted_block vs b) = chain_pairs (length (bi_methods b))"
  by (simp_all add: counted_block_def sized_block_def written_block_def)

lemma counted_unpack_size:
  assumes "bi_methods b \<noteq> []" "length (bi_sizes b) = length (bi_methods b)" "length (bi_methods b) < 2 ^ 64"
  shows "unpack_size_or_panic (counted_block vs b) = Inr (last (bi_sizes b))"
proof -
  define n where "n = length (bi_methods b)"
  have n: "0 < n" "n < 2 ^ 64" using assms by (simp_all add: n_def)
  then obtain m where m: "n = Suc m" by (cases n) auto
  have u: "unat (of_nat i :: u64) = i" if "i < n" for i using that n(2) by (intro unat_of_nat_u64) linarith
  have "of_nat i \<noteq> (of_nat m :: u64)" if "i < m" for i
    using that m u [of i] u [of m] by (metis lessI less_SucI less_irrefl)
  then have "find_bind_pair_for_out_stream (counted_block vs b) (of_nat m) = None"
    by (auto simp: find_bind_pair_for_out_stream_def find_None_iff chain_pairs_def n_def [symmetric] m)
  moreover have "bi_sizes b \<noteq> []" using assms(1,2) by auto
  then have "bi_sizes b ! m = last (bi_sizes b)" using m assms(2) by (simp add: last_conv_nth n_def)
  ultimately show ?thesis
    using m assms(1,2)
    by (auto simp: unpack_size_or_panic_def get_unpack_size_def n_def [symmetric] nth_option_def)
qed

lemma read_counts:
  assumes "fits hb Entries (k + stream_total u)"
  shows "pbind (read_stream_counts hb (map (\<lambda>b. (sized_block vs' b)\<lparr>num_unpack_sub_streams := 1\<rparr>) u) k) f (concat (map (\<lambda>b. write_u64 (bi_num_sub_unpack_streams b)) u) @ rest)
    = f (map (counted_block vs') u, k + stream_total u) rest"
  using assms
proof (induction u arbitrary: k f)
  case (Cons b u)
  have "fits hb Entries (stream_count b)" "fits hb Entries (k + stream_count b)"
    using Cons.prems by (auto elim: fits_le)
  then have c: "bounds_count hb (bi_num_sub_unpack_streams b) Entries = Inr (stream_count b)"
    "bounds_add_count hb k (stream_count b) = Inr (k + stream_count b)"
    using bounds_count_fits [of hb Entries "stream_count b"] bounds_count_fits [of hb Entries "k + stream_count b"]
    by (simp_all add: stream_count_def bounds_add_count_def checked_add_usize_def usize_max_def fits_def)
  show ?case using Cons c by (simp add: bind_assoc steps counted_block_def add.assoc)
qed (simp add: pbind_def)

lemma read_sized_written:
  assumes "unat acc + sum_list (map unat xs) < 2 ^ 64"
  shows "unat (acc + sum_list xs) = unat acc + sum_list (map unat xs)"
    "read_sized_streams (length xs) acc (concat (map write_u64 xs) @ rest) = Inr ((xs, acc + sum_list xs), rest)"
proof -
  have "unat (acc + sum_list xs) = unat acc + sum_list (map unat xs)
    \<and> read_sized_streams (length xs) acc (concat (map write_u64 xs) @ rest) = Inr ((xs, acc + sum_list xs), rest)"
    using assms
  proof (induction xs arbitrary: acc)
    case (Cons x xs)
    have a: "unat (acc + x) = unat acc + unat x" using Cons.prems by (intro unat_add_u64) simp
    then have add: "checked_add acc x = Some (acc + x)" by (simp add: checked_add_eq_Some_iff)
    have IH: "unat (acc + x + sum_list xs) = unat (acc + x) + sum_list (map unat xs)"
      "read_sized_streams (length xs) (acc + x) (concat (map write_u64 xs) @ rest) = Inr ((xs, acc + x + sum_list xs), rest)"
      using Cons.IH [of "acc + x"] Cons.prems a by simp_all
    show ?case using IH a by (simp add: steps add add.assoc) (simp add: pbind_def add.assoc)
  qed simp
  then show "unat (acc + sum_list xs) = unat acc + sum_list (map unat xs)"
    "read_sized_streams (length xs) acc (concat (map write_u64 xs) @ rest) = Inr ((xs, acc + sum_list xs), rest)"
    by blast+
qed

definition written_sizes :: "block_info \<Rightarrow> bytes" where
  "written_sizes b = (if 1 < length (bi_sub_stream_sizes b)
     then concat (map (\<lambda>i. write_u64 (bi_sub_stream_sizes b ! i)) [0..<length (bi_sub_stream_sizes b) - 1]) else [])"

lemma written_sizes_butlast: "1 < length (bi_sub_stream_sizes b) \<Longrightarrow> written_sizes b = concat (map write_u64 (butlast (bi_sub_stream_sizes b)))"
proof -
  have "map (\<lambda>i. bi_sub_stream_sizes b ! i) [0..<length (bi_sub_stream_sizes b) - 1] = butlast (bi_sub_stream_sizes b)"
    by (intro nth_equalityI) (simp_all add: nth_butlast)
  then have "map (write_u64 \<circ> (\<lambda>i. bi_sub_stream_sizes b ! i)) [0..<length (bi_sub_stream_sizes b) - 1] = map write_u64 (butlast (bi_sub_stream_sizes b))"
    unfolding map_map [symmetric] by (rule arg_cong)
  then show "1 < length (bi_sub_stream_sizes b) \<Longrightarrow> written_sizes b = concat (map write_u64 (butlast (bi_sub_stream_sizes b)))"
    by (simp add: written_sizes_def comp_def)
qed

lemma unat_minus_sum:
  assumes "xs \<noteq> []" "sum_list (map unat xs) = unat (v :: u64)" "unat acc = sum_list (map unat (butlast xs))"
  shows "acc \<le> v" "v - acc = last xs"
proof -
  obtain ys y where "xs = ys @ [y]" using assms(1) by (cases xs rule: rev_cases) auto
  then have s: "unat v = unat acc + unat (last xs)" using assms(2,3) by simp
  then show "acc \<le> v" by (simp add: word_le_nat_alt)
  then show "v - acc = last xs" using s by (simp add: word_unat_eq_iff unat_sub)
qed

lemma stream_count_one: "bi_num_sub_unpack_streams b = 1 \<longleftrightarrow> stream_count b = 1" "1 < bi_num_sub_unpack_streams b \<longleftrightarrow> 1 < stream_count b"
  by (auto simp: stream_count_def word_unat_eq_iff word_less_nat_alt)

definition stream_block_ok :: "block_info \<Rightarrow> bool" where
  "stream_block_ok b \<longleftrightarrow> streams_described b \<and> bi_methods b \<noteq> [] \<and> length (bi_sizes b) = length (bi_methods b)
     \<and> length (bi_methods b) < 2 ^ 64"

lemma length_stream_sizes: "stream_block_ok b \<Longrightarrow> length (stream_sizes b) = stream_count b"
  by (auto simp: stream_sizes_def stream_block_ok_def streams_described_def)

text \<open>Reading the sizes, with \<open>K_SIZE\<close> and without.\<close>

lemma read_sizes_written:
  assumes "list_all stream_block_ok u"
  shows "pbind (read_stream_sizes K_SIZE (map (counted_block vs) u)) f (concat (map written_sizes u) @ rest)
    = f (concat (map stream_sizes u)) rest"
  using assms
proof (induction u arbitrary: f)
  case (Cons b u)
  then have ok: "stream_block_ok b" by simp
  note IH = Cons.IH [OF conjunct2 [OF Cons.prems [simplified]]]
  have size: "unpack_size_or_panic (counted_block vs b) = Inr (last (bi_sizes b))"
    using ok by (intro counted_unpack_size) (simp_all add: stream_block_ok_def)
  consider "stream_count b = 0" | "stream_count b = 1" | "1 < stream_count b" by linarith
  then show ?case
  proof cases
    case 1
    then have "written_sizes b = []" using ok by (simp add: written_sizes_def stream_block_ok_def streams_described_def)
    then show ?thesis using 1 IH by (simp add: stream_sizes_def)
  next
    case 2
    then have "written_sizes b = []" using ok by (simp add: written_sizes_def stream_block_ok_def streams_described_def)
    then show ?thesis using 2 IH size
      by (simp add: stream_sizes_def bind_assoc bind_plift bind_preturn bind_pensure)
  next
    case 3
    define xs where "xs = bi_sub_stream_sizes b"
    have xs: "length xs = stream_count b" "sum_list (map unat xs) = unat (last (bi_sizes b))" "1 < length xs"
      using ok 3 by (auto simp: stream_block_ok_def streams_described_def xs_def)
    have "sum_list (map unat (butlast xs)) \<le> sum_list (map unat xs)" using xs(3) by (cases xs rule: rev_cases) auto
    then have "unat (0 :: u64) + sum_list (map unat (butlast xs)) < 2 ^ 64"
      using xs(2) u64_bound [of "last (bi_sizes b)"] by simp
    note sized = read_sized_written [OF this]
    define t where "t = sum_list (butlast xs)"
    have t: "unat t = sum_list (map unat (butlast xs))" using sized(1) by (simp add: t_def)
    have rd: "pbind (read_sized_streams (length (butlast xs)) 0) g (concat (map write_u64 (butlast xs)) @ r) = g (butlast xs, t) r"
      for g :: "u64 list \<times> u64 \<Rightarrow> 'a parser" and r
      using sized(2) by (simp add: pbind_def t_def)
    have m: "t \<le> last (bi_sizes b)" "last (bi_sizes b) - t = last xs"
      using unat_minus_sum [OF _ xs(2) t] xs(3) by (cases xs; simp)+
    have w: "written_sizes b = concat (map write_u64 (butlast xs))" using xs(3) by (simp add: written_sizes_butlast xs_def)
    have l: "stream_count b - Suc 0 = length (butlast xs)" using xs(1) by simp
    have ss: "stream_sizes b = butlast xs @ [last xs]" using 3 xs(3) by (cases xs rule: rev_cases) (auto simp: stream_sizes_def xs_def)
    show ?thesis using 3 IH m
      by (simp add: bind_assoc w l rd [simplified] size bind_plift bind_pensure ss not_less bind_preturn)
  qed
qed (simp add: pbind_def)

lemma read_no_sizes:
  assumes "list_all stream_block_ok u" "list_all (\<lambda>b. stream_count b \<le> 1) u" "nid \<noteq> K_SIZE"
  shows "pbind (read_stream_sizes nid (map (counted_block vs) u)) f bs = f (concat (map stream_sizes u)) bs"
  using assms(1,2)
proof (induction u arbitrary: f)
  case (Cons b u)
  then have ok: "stream_block_ok b" by simp
  have size: "unpack_size_or_panic (counted_block vs b) = Inr (last (bi_sizes b))"
    using ok by (intro counted_unpack_size) (simp_all add: stream_block_ok_def)
  have "stream_count b = 0 \<or> stream_count b = 1" using Cons.prems by auto
  then show ?case using Cons size assms(3)
    by (auto simp: stream_sizes_def bind_assoc bind_plift bind_preturn bind_pensure)
qed (simp add: pbind_def)

text \<open>Handing out the checksums.\<close>

lemma count_all_digests:
  "k + stream_total u \<le> total_streams \<Longrightarrow> total_streams \<le> usize_max \<Longrightarrow>
    count_digests total_streams (map (counted_block vs) u) k = Inr (k + stream_total u)"
  by (induction u arbitrary: k) (auto simp: checked_add_usize_def add.assoc)

definition crcs_given :: "u64 list \<Rightarrow> nat \<Rightarrow> crc_state \<Rightarrow> bool" where
  "crcs_given cs k st \<longleftrightarrow> cs_next_crc st = k \<and> cs_next_missing st = k \<and> bitset_ok (cs_has_crc st)
     \<and> bit_count (cs_has_crc st) = length cs \<and> (\<forall>i. bitset_contains (cs_has_crc st) i \<longleftrightarrow> i < k)
     \<and> cs_crcs st = take k cs @ replicate (length cs - k) 0"

lemma take_all_crcs:
  assumes "crcs_given cs k st" "k + n \<le> length cs"
  shows "\<exists>st'. take_missing_crcs (full_set (length cs)) cs n st = Inr st' \<and> crcs_given cs (k + n) st'"
  using assms
proof (induction n arbitrary: k st)
  case (Suc n)
  have k: "k < length cs" using Suc.prems(2) by simp
  have ok: "bitset_ok (cs_has_crc st)" and next_k: "cs_next_crc st = k" "cs_next_missing st = k"
    and count: "bit_count (cs_has_crc st) = length cs" and mem: "\<And>i. bitset_contains (cs_has_crc st) i \<longleftrightarrow> i < k"
    and vals: "cs_crcs st = take k cs @ replicate (length cs - k) 0"
    using Suc.prems(1) unfolding crcs_given_def by blast+
  define st' where "st' = \<lparr>cs_has_crc = snd (bitset_insert k (cs_has_crc st)), cs_crcs = (cs_crcs st)[k := cs ! k],
    cs_next_crc = k + 1, cs_next_missing = k + 1\<rparr>"
  have "(cs_crcs st)[k := cs ! k] = take (Suc k) cs @ replicate (length cs - Suc k) 0"
    unfolding vals using k by (intro nth_equalityI) (auto simp: nth_list_update nth_append less_Suc_eq)
  moreover have "bit_count (snd (bitset_insert k (cs_has_crc st))) = length cs"
    using k by (simp add: bs.bound_ins [OF ok] count)
  moreover have "bitset_contains (snd (bitset_insert k (cs_has_crc st))) i \<longleftrightarrow> i < Suc k" for i
    unfolding bs.mem_ins [OF ok] mem by auto
  ultimately have "crcs_given cs (Suc k) st'"
    using bs.inv_ins [OF ok] by (simp add: crcs_given_def st'_def)
  moreover have "take_missing_crcs (full_set (length cs)) cs (Suc n) st = take_missing_crcs (full_set (length cs)) cs n st'"
  proof -
    have "length (cs_crcs st) = length cs" using vals k by simp
    then show ?thesis using k next_k by (simp add: Let_def st'_def nth_or_panic_def set_or_panic_def)
  qed
  ultimately show ?case using Suc.IH [of "Suc k" st'] Suc.prems(2) by simp
qed auto

lemma assign_all_crcs:
  assumes "crcs_given cs k st" "k + stream_total u \<le> length cs"
  shows "\<exists>st'. assign_crcs (full_set (length cs)) cs (map (counted_block vs) u) st = Inr st' \<and> crcs_given cs (k + stream_total u) st'"
  using assms
proof (induction u arbitrary: k st)
  case (Cons b u)
  obtain st1 where st1: "take_missing_crcs (full_set (length cs)) cs (stream_count b) st = Inr st1" "crcs_given cs (k + stream_count b) st1"
    using take_all_crcs [OF Cons.prems(1), of "stream_count b"] Cons.prems(2) by auto
  then show ?case using Cons.IH [OF st1(2)] Cons.prems(2) by (simp add: add.assoc)
qed auto

lemma all_crcs_given: "crcs_given cs (length cs) st \<Longrightarrow> cs_has_crc st = full_set (length cs) \<and> cs_crcs st = cs"
  unfolding crcs_given_def by (intro conjI bitset_eqI) simp_all

definition start_crcs :: "nat \<Rightarrow> crc_state" where
  "start_crcs n = \<lparr>cs_has_crc = bitset_reserve_len_exact n bitset_new, cs_crcs = replicate n 0, cs_next_crc = 0, cs_next_missing = 0\<rparr>"

lemma start_crcs_given: "crcs_given cs 0 (start_crcs (length cs))"
proof -
  have "\<not> bitset_contains (bitset_grow n bitset_new) i" for n i
    using contains_ok [OF grow_ok [OF bitset_ok_new, of n], of i] stored_grow [of n bitset_new i] contains_ok [OF bitset_ok_new, of i]
    by simp
  then show ?thesis by (simp add: crcs_given_def start_crcs_def reserve_is_grow grow_ok bit_count_grow)
qed

section \<open>Sub-streams info\<close>

definition sub_streams_ok :: "header_bounds \<Rightarrow> unpack_info \<Rightarrow> bool" where
  "sub_streams_ok hb u \<longleftrightarrow> list_all stream_block_ok u \<and> fits hb Entries (stream_total u)"

definition written_streams :: "unpack_info \<Rightarrow> sub_streams_info" where
  "written_streams u = \<lparr>unpack_sizes = concat (map stream_sizes u), has_crc = full_set (stream_total u),
     crcs = map ucast (concat (map crcs_of_block u))\<rparr>"

lemma length_block_crcs: "stream_block_ok b \<Longrightarrow> length (crcs_of_block b) = stream_count b"
  by (auto simp: crcs_of_block_def stream_count_one stream_block_ok_def streams_described_def split: list.splits)

lemma lengths_total:
  assumes "list_all stream_block_ok u"
  shows "length (concat (map stream_sizes u)) = stream_total u" "length (concat (map crcs_of_block u)) = stream_total u"
  using assms by (induction u) (auto simp: length_stream_sizes length_block_crcs)

text \<open>The rest of \<open>read_sub_streams_info\<close> after the counts, and after the sizes.\<close>

definition finish_streams :: "archive \<Rightarrow> block list \<Rightarrow> nat \<Rightarrow> u64 list \<Rightarrow> u8 \<Rightarrow> archive parser" where
  "finish_streams a bs total_streams sizes nid =
     pbind (plift (count_digests total_streams bs 0)) (\<lambda>num_digests.
     pbind (if nid = K_CRC
            then pbind (read_all_or_bits num_digests) (\<lambda>has_missing.
                 pbind (read_defined_crcs has_missing num_digests) (\<lambda>missing.
                 pbind (plift (assign_crcs has_missing missing bs (start_crcs total_streams))) (\<lambda>st.
                 pbind read_u8 (\<lambda>nid. preturn (st, nid)))))
            else preturn (start_crcs total_streams, nid)) (\<lambda>(st, nid).
     pbind (pensure BadTerminatedSubStreamsInfo (nid = K_END)) (\<lambda>_.
     preturn (a\<lparr>blocks := bs,
       sub_streams := Some \<lparr>unpack_sizes = sizes, has_crc = cs_has_crc st, crcs = cs_crcs st\<rparr>\<rparr>))))"

definition size_streams :: "archive \<Rightarrow> block list \<Rightarrow> nat \<Rightarrow> u8 \<Rightarrow> archive parser" where
  "size_streams a bs total_streams nid =
     pbind (read_stream_sizes nid bs) (\<lambda>sizes.
     pbind (pensure Panic (length sizes \<le> total_streams)) (\<lambda>_.
     pbind (if nid = K_SIZE then read_u8 else preturn nid)
       (finish_streams a bs total_streams (sizes @ replicate (total_streams - length sizes) 0))))"

lemma read_sub_streams_info_parts:
  "read_sub_streams_info hb a =
     pbind read_u8 (\<lambda>nid.
     pbind (if nid = K_NUM_UNPACK_STREAM
            then pbind (read_stream_counts hb (map (\<lambda>b. b\<lparr>num_unpack_sub_streams := 1\<rparr>) (blocks a)) 0)
                   (\<lambda>(bs, t). pbind read_u8 (\<lambda>nid. preturn (bs, t, nid)))
            else preturn (map (\<lambda>b. b\<lparr>num_unpack_sub_streams := 1\<rparr>) (blocks a), length (blocks a), nid))
       (\<lambda>(bs, t, nid). size_streams a bs t nid))"
  unfolding read_sub_streams_info_def size_streams_def finish_streams_def [abs_def] start_crcs_def Let_def length_map
  by (rule refl)

definition crc_bytes :: "unpack_info \<Rightarrow> bytes" where
  "crc_bytes u = (let cs = concat (map crcs_of_block u)
     in if cs \<noteq> [] then write_u8 K_CRC @ write_u8 1 @ concat (map write_u32 cs) else [])"

definition size_bytes :: "unpack_info \<Rightarrow> bytes" where
  "size_bytes u = (if list_ex (\<lambda>b. 1 < length (bi_sub_stream_sizes b)) u
     then write_u8 K_SIZE @ concat (map written_sizes u) else [])"

lemma write_substreams_parts:
  "write_substreams u = write_u8 K_SUB_STREAMS_INFO
     @ (if list_ex (\<lambda>b. bi_num_sub_unpack_streams b \<noteq> 1) u
        then write_u8 K_NUM_UNPACK_STREAM @ concat (map (\<lambda>b. write_u64 (bi_num_sub_unpack_streams b)) u) else [])
     @ size_bytes u @ crc_bytes u @ write_u8 K_END"
  by (simp add: write_substreams_def size_bytes_def crc_bytes_def written_sizes_def [abs_def])

lemma finish_written:
  assumes "sub_streams_ok hb u"
  shows "pbind read_u8 (\<lambda>nid. pbind (finish_streams a (map (counted_block vs) u) (stream_total u) sizes nid) f)
      (crc_bytes u @ write_u8 K_END @ rest)
    = f (a\<lparr>blocks := map (counted_block vs) u, sub_streams := Some \<lparr>unpack_sizes = sizes, has_crc = full_set (stream_total u),
          crcs = map ucast (concat (map crcs_of_block u))\<rparr>\<rparr>) rest"
proof -
  have ok: "list_all stream_block_ok u" and fit: "fits hb Entries (stream_total u)"
    using assms by (simp_all add: sub_streams_ok_def)
  define T where "T = stream_total u"
  define cs where "cs = concat (map crcs_of_block u)"
  have len: "length cs = T" using lengths_total [OF ok] by (simp add: T_def cs_def)
  have digests: "count_digests T (map (counted_block vs) u) 0 = Inr T"
    using count_all_digests [of 0 u T vs] fit by (simp add: T_def usize_max_def fits_def)
  obtain st where st: "assign_crcs (full_set T) (map ucast cs) (map (counted_block vs) u) (start_crcs T) = Inr st"
    "cs_has_crc st = full_set T" "cs_crcs st = map ucast cs"
  proof -
    have "crcs_given (map ucast cs) 0 (start_crcs T)" using start_crcs_given [of "map ucast cs"] len by simp
    from assign_all_crcs [OF this, of u vs] obtain st where
      "assign_crcs (full_set T) (map ucast cs) (map (counted_block vs) u) (start_crcs T) = Inr st" "crcs_given (map ucast cs) T st"
      using len by (auto simp: T_def)
    then show thesis using that all_crcs_given [of "map ucast cs" st] len by auto
  qed
  have crcs: "pbind (read_defined_crcs (full_set T) T) g (concat (map write_u32 cs) @ r) = g (map ucast cs) r" for g :: "u64 list \<Rightarrow> 'a parser" and r
    using read_crcs [of cs "full_set T" g r] len by simp
  show ?thesis
  proof (cases "cs = []")
    case True
    then have "T = 0" using len by simp
    then have "cs_has_crc (start_crcs T) = full_set T" "cs_crcs (start_crcs T) = map ucast cs"
      using all_crcs_given [of "[]" "start_crcs 0"] start_crcs_given [of "[]"] True by simp_all
    then show ?thesis using True digests
      unfolding crc_bytes_def Let_def cs_def [symmetric] finish_streams_def T_def [symmetric]
      by (simp add: steps) (simp add: K_defs bind_preturn bind_pensure)
  next
    case False
    then show ?thesis using digests st
      unfolding crc_bytes_def Let_def cs_def [symmetric] finish_streams_def T_def [symmetric]
      by (simp add: steps crcs)
  qed
qed

lemma size_written:
  assumes "sub_streams_ok hb u"
  shows "pbind read_u8 (\<lambda>nid. pbind (size_streams a (map (counted_block vs) u) (stream_total u) nid) f)
      (size_bytes u @ crc_bytes u @ write_u8 K_END @ rest)
    = f (a\<lparr>blocks := map (counted_block vs) u, sub_streams := Some (written_streams u)\<rparr>) rest"
proof -
  have ok: "list_all stream_block_ok u" using assms by (simp add: sub_streams_ok_def)
  note len = lengths_total(1) [OF ok]
  note fin = finish_written [OF assms, folded written_streams_def]
  show ?thesis
  proof (cases "list_ex (\<lambda>b. 1 < length (bi_sub_stream_sizes b)) u")
    case True
    then show ?thesis
      by (simp add: size_bytes_def size_streams_def steps read_sizes_written [OF ok] len fin [unfolded written_streams_def] written_streams_def)
  next
    case False
    then have "stream_count b \<le> 1" if "b \<in> set u" for b
      using ok that by (cases "1 < stream_count b") (auto simp: list_ex_iff list_all_iff stream_block_ok_def streams_described_def)
    then have few: "list_all (\<lambda>b. stream_count b \<le> 1) u" by (simp add: list_all_iff)
    have "\<exists>nid r. crc_bytes u @ write_u8 K_END @ rest = write_u8 nid @ r \<and> nid \<noteq> K_SIZE"
      by (cases "concat (map crcs_of_block u) = []") (auto simp: crc_bytes_def Let_def K_defs)
    then obtain nid r where r: "crc_bytes u @ write_u8 K_END @ rest = write_u8 nid @ r" "nid \<noteq> K_SIZE" by blast
    have "pbind (finish_streams a (map (counted_block vs) u) (stream_total u) (concat (map stream_sizes u)) nid) f r
      = f (a\<lparr>blocks := map (counted_block vs) u, sub_streams := Some (written_streams u)\<rparr>) rest"
      using finish_written [OF assms, of a vs "concat (map stream_sizes u)" f rest] unfolding r(1) by (simp add: steps written_streams_def)
    then show ?thesis using False r(2) unfolding size_bytes_def
      by (simp add: r(1) size_streams_def steps read_no_sizes [OF ok few r(2)] len)
  qed
qed

lemma read_sub_streams_info_written:
  assumes "sub_streams_ok hb u" "blocks a = map (sized_block vs) u"
  shows "pbind read_u8 (\<lambda>_. pbind (read_sub_streams_info hb a) f) (write_substreams u @ rest)
    = f (a\<lparr>blocks := map (counted_block vs) u, sub_streams := Some (written_streams u)\<rparr>) rest"
proof (cases "list_ex (\<lambda>b. bi_num_sub_unpack_streams b \<noteq> 1) u")
  case True
  have "pbind (read_stream_counts hb (map (\<lambda>b. (sized_block vs b)\<lparr>num_unpack_sub_streams := 1\<rparr>) u) 0) g
      (concat (map (\<lambda>b. write_u64 (bi_num_sub_unpack_streams b)) u) @ r) = g (map (counted_block vs) u, stream_total u) r"
    for g :: "block list \<times> nat \<Rightarrow> 'a parser" and r
    using read_counts [of hb 0 u vs g r] assms(1) by (simp add: sub_streams_ok_def)
  then show ?thesis using True
    by (simp add: write_substreams_parts read_sub_streams_info_parts assms(2) steps comp_def bind_assoc_fun bind_preturn_fun
        size_written [OF assms(1)])
next
  case False
  then have one: "\<forall>b\<in>set u. stream_count b = 1" by (auto simp: list_ex_iff stream_count_one)
  then have ones: "map (\<lambda>b. (sized_block vs b)\<lparr>num_unpack_sub_streams := 1\<rparr>) u = map (counted_block vs) u" "length u = stream_total u"
    by (induction u) (auto simp: counted_block_def)
  have "\<exists>nid r. size_bytes u @ crc_bytes u @ write_u8 K_END @ rest = write_u8 nid @ r \<and> nid \<noteq> K_NUM_UNPACK_STREAM"
    by (cases "concat (map crcs_of_block u) = []") (auto simp: size_bytes_def crc_bytes_def Let_def K_defs)
  then obtain nid r where r: "size_bytes u @ crc_bytes u @ write_u8 K_END @ rest = write_u8 nid @ r" "nid \<noteq> K_NUM_UNPACK_STREAM" by blast
  have "pbind (size_streams a (map (counted_block vs) u) (stream_total u) nid) f r
    = f (a\<lparr>blocks := map (counted_block vs) u, sub_streams := Some (written_streams u)\<rparr>) rest"
    using size_written [OF assms(1), of a vs f rest] unfolding r(1) by (simp add: steps)
  then show ?thesis using False r(2)
    by (simp add: write_substreams_parts read_sub_streams_info_parts assms(2) steps comp_def r(1) ones [unfolded One_nat_def])
qed

section \<open>Streams info\<close>

definition streams_ok_for :: "header_bounds \<Rightarrow> codec_versions \<Rightarrow> pack_info \<Rightarrow> unpack_info \<Rightarrow> bool" where
  "streams_ok_for hb vs p u \<longleftrightarrow> pack_info_ok hb p \<and> unpack_info_ok hb vs u \<and> sub_streams_ok hb u
     \<and> length (pi_sizes p) = length u"

definition streams_archive :: "codec_versions \<Rightarrow> pack_info \<Rightarrow> unpack_info \<Rightarrow> archive" where
  "streams_archive vs p u =
     (if u = [] then default_archive\<lparr>sub_streams := Some (written_streams [])\<rparr>
      else default_archive\<lparr>pack_pos := pi_pos p, pack_sizes := pi_sizes p,
        pack_crcs_defined := full_set (length u), pack_crcs := map ucast (pi_crcs p),
        blocks := map (counted_block vs) u, sub_streams := Some (written_streams u)\<rparr>)"

lemma bind_pack_info_written:
  assumes "pack_info_ok hb p"
  shows "pbind read_u8 (\<lambda>_. pbind (read_pack_info hb a) f) (write_pack_info p @ rest)
    = f (a\<lparr>pack_pos := pi_pos p, pack_sizes := pi_sizes p, pack_crcs_defined := full_set (length (pi_sizes p)),
             pack_crcs := map ucast (pi_crcs p)\<rparr>) rest"
  using read_pack_info_written [OF assms, of a rest] by (simp add: bind_assoc_fun [symmetric] pbind_def)

lemma after_tag: "pbind read_u8 (\<lambda>_. g) (write_u8 t @ r) = g r"
  by (simp add: read_back)

lemma tagged:
  "\<exists>x. write_pack_info p = write_u8 K_PACK_INFO @ x"
  "write_unpack_info vs u = Some w \<Longrightarrow> \<exists>x. w = write_u8 K_UNPACK_INFO @ x"
  "\<exists>x. write_substreams u = write_u8 K_SUB_STREAMS_INFO @ x"
  by (auto simp: write_pack_info_def write_unpack_info_def write_substreams_def split: option.splits)

lemma read_streams_info_written:
  assumes "streams_ok_for hb vs p u" "write_streams_info vs p u = Some w"
  shows "pbind (read_streams_info hb default_archive) f (w @ rest) = f (streams_archive vs p u) rest"
proof -
  have ok: "pack_info_ok hb p" "unpack_info_ok hb vs u" "sub_streams_ok hb u" "length (pi_sizes p) = length u"
    using assms(1) by (simp_all add: streams_ok_for_def)
  obtain xs where sub: "write_substreams u = write_u8 K_SUB_STREAMS_INFO @ xs" using tagged(3) by blast
  have sub_read: "pbind (read_sub_streams_info hb a) g (xs @ r)
      = g (a\<lparr>blocks := map (counted_block vs) u, sub_streams := Some (written_streams u)\<rparr>) r"
    if "blocks a = map (sized_block vs) u" for a and g :: "archive \<Rightarrow> 'a parser" and r
    using read_sub_streams_info_written [OF ok(3) that, of g r] by (simp add: sub after_tag)
  show ?thesis
  proof (cases "u = []")
    case True
    then have "w = write_u8 K_SUB_STREAMS_INFO @ xs @ write_u8 K_END"
      using assms(2) ok(4) sub by (simp add: write_streams_info_def)
    then show ?thesis using True sub_read [of "default_archive\<lparr>blocks := []\<rparr>"]
      by (simp add: read_streams_info_def steps) (simp add: K_defs steps bind_assoc_fun bind_preturn_fun streams_archive_def default_archive_def)
  next
    case False
    then obtain uw where uw: "write_unpack_info vs u = Some uw" "w = write_pack_info p @ uw @ write_substreams u @ write_u8 K_END"
      using assms(2) ok(4) by (auto simp: write_streams_info_def split: option.splits)
    obtain xp where pack: "write_pack_info p = write_u8 K_PACK_INFO @ xp" using tagged(1) by blast
    obtain xu where un: "uw = write_u8 K_UNPACK_INFO @ xu" using tagged(2) [OF uw(1)] by blast
    have pack_read: "pbind (read_pack_info hb a) g (xp @ r) = g (a\<lparr>pack_pos := pi_pos p, pack_sizes := pi_sizes p,
        pack_crcs_defined := full_set (length u), pack_crcs := map ucast (pi_crcs p)\<rparr>) r" for a and g :: "archive \<Rightarrow> 'a parser" and r
      using bind_pack_info_written [OF ok(1), of a g r] by (simp add: pack after_tag ok(4))
    have un_read: "pbind (read_unpack_info hb a) g (xu @ r) = g (a\<lparr>blocks := map (sized_block vs) u\<rparr>) r"
      if "blocks a = []" for a and g :: "archive \<Rightarrow> 'a parser" and r
      using read_unpack_info_written [OF ok(2) uw(1) that, of g r] by (simp add: un after_tag)
    show ?thesis
      unfolding uw(2) pack un sub read_streams_info_def
      by (simp add: steps pack_read un_read sub_read default_archive_def) (simp add: streams_archive_def default_archive_def False)
  qed
qed

end
