(* ===== verification/Files_Roundtrip.thy ===== *)
theory Files_Roundtrip
  imports Header_Roundtrip
begin

text \<open>
  What the writer's files info means to the reader, and the whole header: the properties of the
  entries are read back one by one by \<open>read_file_properties\<close>.
\<close>

section \<open>The property loop\<close>

lemma bind_property:
  assumes "t \<noteq> 0"
  shows "pbind (read_file_properties hb n st) f (write_u8 t @ write_u64 sz @ rest)
    = pbind (read_file_property hb n t sz st) (\<lambda>st'. pbind (read_file_properties hb n st') f) rest"
proof -
  have "read_file_properties hb n st (write_u8 t @ write_u64 sz @ rest)
    = pbind (read_file_property hb n t sz st) (read_file_properties hb n) rest"
    using assms by (subst read_file_properties.simps) (simp add: steps)
  then show ?thesis by (simp add: pbind_def split: sum.splits)
qed

lemma bind_last_property: "pbind (read_file_properties hb n st) f (write_u8 K_END @ rest) = f st rest"
proof -
  have "read_file_properties hb n st (write_u8 K_END @ rest) = Inr (st, rest)"
    by (subst read_file_properties.simps) (simp add: steps K_defs)
  then show ?thesis by (simp add: pbind_def)
qed

section \<open>Times and attributes\<close>

lemma read_dated_written:
  assumes "\<And>v r. read (enc v @ r) = Inr (v, r)" "\<And>i. i < length fs \<Longrightarrow> bitset_contains s (k + i) \<longleftrightarrow> has (fs ! i)"
  shows "pbind (pmap (\<lambda>(i, f). if bitset_contains s i then pbind read (\<lambda>v. preturn (with_value v f)) else preturn (without f))
      (zip [k..<k + length fs] (map g fs))) h (concat (map (\<lambda>f. if has f then enc (val f) else []) fs) @ rest)
    = h (map (\<lambda>f. if has f then with_value (val f) (g f) else without (g f)) fs) rest"
  using assms(2)
proof (induction fs arbitrary: k h)
  case (Cons x fs)
  have c: "bitset_contains s k \<longleftrightarrow> has x" using Cons.prems [of 0] by simp
  have "bitset_contains s (Suc k + i) \<longleftrightarrow> has (fs ! i)" if "i < length fs" for i using Cons.prems [of "Suc i"] that by simp
  note IH = Cons.IH [OF this]
  have z: "[k..<k + length (x # fs)] = k # [Suc k..<Suc k + length fs]" 
    by (subst upt_conv_Cons) (simp_all del: upt_Suc)
  have r: "pbind read h' (enc v @ r) = h' v r" for h' v r by (simp add: pbind_def assms(1))
  show ?case
    unfolding z by (simp add: c bind_assoc r bind_preturn IH [unfolded add_Suc] del: upt_Suc)
qed (simp add: pbind_def)

text \<open>One call of \<open>write_times!\<close>, read back by the arm of the property loop it belongs to.\<close>

lemma read_times_written:
  assumes arm: "\<And>sz st. read_file_property hb (length fs) nid sz st = read_file_times what with_value without read (length fs) st"
    and enc: "\<And>v r. read (enc v @ r) = Inr (v, r)"
    and nid: "nid \<noteq> 0" and unset: "\<And>x. x \<in> set fs \<Longrightarrow> \<not> has x \<Longrightarrow> without (g x) = g x"
    and st: "fs_files st = map g fs"
  shows "pbind (read_file_properties hb (length fs) st) f (write_times nid has (\<lambda>x. enc (val x)) fs @ rest)
    = pbind (read_file_properties hb (length fs)
        (st\<lparr>fs_files := map (\<lambda>x. if has x then with_value (val x) (g x) else g x) fs\<rparr>)) f rest"
proof -
  have final: "map (\<lambda>x. if has x then with_value (val x) (g x) else without (g x)) fs
    = map (\<lambda>x. if has x then with_value (val x) (g x) else g x) fs"
    using unset by auto
  define S where "S = insert_where (\<lambda>i. has (fs ! i)) (length fs) (bitset_with_capacity (length fs))"
  have S: "bitset_ok S" "bit_count S = length fs" "\<And>i. bitset_contains S i \<longleftrightarrow> i < length fs \<and> has (fs ! i)"
    unfolding S_def by (simp_all add: all_contained)
  have dated: "pbind (read_dated with_value without read s (map g fs)) h (concat (map (\<lambda>x. if has x then enc (val x) else []) fs) @ r)
      = h (map (\<lambda>x. if has x then with_value (val x) (g x) else g x) fs) r"
    if "\<And>i. i < length fs \<Longrightarrow> bitset_contains s i \<longleftrightarrow> has (fs ! i)" for s h r
    using read_dated_written [of read enc fs s 0 has with_value without g h val r, OF enc] that
    by (simp add: read_dated_def final)
  show ?thesis
  proof (cases "filter has fs = []")
    case True
    then have "\<forall>x\<in>set fs. \<not> has x" by (simp add: filter_empty_conv)
    then have "map (\<lambda>x. if has x then with_value (val x) (g x) else g x) fs = map g fs" by auto
    then have "st\<lparr>fs_files := map (\<lambda>x. if has x then with_value (val x) (g x) else g x) fs\<rparr> = st" using st by simp
    then show ?thesis using True by (simp add: write_times_def)
  next
    case False
    show ?thesis
    proof (cases "length (filter has fs) = length fs")
      case True
      then have "\<forall>x\<in>set fs. has x" by (metis filter_id_conv length_filter_less less_irrefl)
      then have "bitset_contains (full_set (length fs)) i \<longleftrightarrow> has (fs ! i)" if "i < length fs" for i using that by simp
      note d = dated [OF this]
      have "fs \<noteq> []" using False by auto
      then show ?thesis using False True
        by (simp add: write_times_def Let_def bind_property [OF nid] arm read_file_times_def steps d st)
    next
      case False
      have "bitset_contains S i \<longleftrightarrow> has (fs ! i)" if "i < length fs" for i using that by (simp add: S)
      note d = dated [OF this]
      show ?thesis using \<open>filter has fs \<noteq> []\<close> False
        by (simp add: write_times_def Let_def S_def [symmetric] bind_property [OF nid] arm read_file_times_def steps
            read_some_set [OF S(1,2)] d st)
    qed
  qed
qed

section \<open>Names\<close>

definition name_ok :: "header_bounds \<Rightarrow> archive_entry \<Rightarrow> bool" where
  "name_ok hb f \<longleftrightarrow> list_all scalar_value (entry_name f) \<and> 0 \<notin> set (entry_name f)
     \<and> 2 * length (encode_utf16 (entry_name f)) \<le> unat (max_name_bytes (hb_limits hb))"

definition name_bytes :: "archive_entry \<Rightarrow> bytes" where
  "name_bytes f = concat (map write_u16 (encode_utf16 (entry_name f))) @ [0, 0]"

definition name_size :: "archive_entry \<Rightarrow> nat" where
  "name_size f = 2 * length (encode_utf16 (entry_name f)) + 2"

lemma length_name_bytes: "length (name_bytes f) = name_size f"
  by (simp add: name_bytes_def name_size_def length_concat comp_def write_u16_def sum_list_triv)

lemma read_zero_unit: "read_u16 (0 # 0 # rest) = Inr (0, rest)"
  using u16_codec.decode_encode [of 0 rest] by (simp add: write_u16_def numeral_eq_Suc)

lemma read_units_written:
  assumes "0 \<notin> set us" "read + 2 * length us + 2 \<le> mb" "2 * (length cache + length us) \<le> mn"
  shows "read_name_units mb mn read cache (concat (map write_u16 us) @ 0 # 0 # rest) = Inr ((cache @ us, read + 2 * length us + 2), rest)"
  using assms
proof (induction us arbitrary: read cache)
  case Nil
  then show ?case by (subst read_name_units.simps) (simp add: pbind_def read_zero_unit)
next
  case (Cons u us)
  then show ?case
    by (subst read_name_units.simps) (simp add: u16_codec.bind_encoded [OF TrueI])
qed

lemma read_names_written:
  assumes "list_all (name_ok hb) fs" "mn = unat (max_name_bytes (hb_limits hb))"
    and "mb = read + sum_list (map name_size fs)" "length prev = next_file"
  shows "read_names mb mn read next_file (prev @ map g fs) (concat (map name_bytes fs) @ rest)
    = Inr (prev @ map (\<lambda>f. (g f)\<lparr>entry_name := entry_name f\<rparr>) fs, rest)"
  using assms
proof (induction fs arbitrary: read next_file prev)
  case Nil
  then show ?case by (subst read_names.simps) (simp add: bind_pensure)
next
  case (Cons f fs)
  have ok: "name_ok hb f" using Cons.prems(1) by simp
  have utf: "from_utf16 (encode_utf16 (entry_name f)) = Some (entry_name f)"
    using ok by (intro from_encode_utf16) (simp add: name_ok_def)
  have units: "read_name_units mb mn read [] (name_bytes f @ r) = Inr ((encode_utf16 (entry_name f), read + name_size f), r)" for r
    using read_units_written [of "encode_utf16 (entry_name f)" read mb "[]" mn r] ok Cons.prems(2,3) encode_utf16_no_nul
    by (simp add: name_bytes_def name_size_def name_ok_def)
  have pos: "\<not> mb \<le> read" using Cons.prems(3) by (simp add: name_size_def)
  have upd: "(prev @ map g (f # fs))[next_file := ((prev @ map g (f # fs)) ! next_file)\<lparr>entry_name := entry_name f\<rparr>]
    = (prev @ [(g f)\<lparr>entry_name := entry_name f\<rparr>]) @ map g fs"
    using Cons.prems(4) by (simp add: nth_append list_update_append)
  have "read_names mb mn (read + name_size f) (next_file + 1) ((prev @ [(g f)\<lparr>entry_name := entry_name f\<rparr>]) @ map g fs)
      (concat (map name_bytes fs) @ rest)
    = Inr ((prev @ [(g f)\<lparr>entry_name := entry_name f\<rparr>]) @ map (\<lambda>f. (g f)\<lparr>entry_name := entry_name f\<rparr>) fs, rest)"
    using Cons.prems by (intro Cons.IH) simp_all
  then show ?case
    using pos Cons.prems(4)
    by (subst read_names.simps) (simp add: pbind_def units utf upd [simplified])
qed

lemma read_file_names_written:
  assumes "list_all (name_ok hb) fs" "fits hb TotalNameBytes (1 + sum_list (map name_size fs))"
    and "fs_files st = map g fs"
  shows "pbind (read_file_properties hb n st) f (write_file_names fs @ rest)
    = pbind (read_file_properties hb n (st\<lparr>fs_files := map (\<lambda>x. (g x)\<lparr>entry_name := entry_name x\<rparr>) fs\<rparr>)) f rest"
proof -
  define N where "N = sum_list (map name_size fs)"
  have len: "length (concat (map name_bytes fs)) = N"
    by (simp add: length_concat comp_def length_name_bytes N_def)
  have even: "even N" unfolding N_def by (induction fs) (simp_all add: name_size_def)
  have size: "write_file_names fs = write_u8 K_NAME @ write_u64 (of_nat (Suc N)) @ write_u8 0 @ concat (map name_bytes fs)"
    using len by (simp add: write_file_names_def name_bytes_def [abs_def] write_u8_def del: of_nat_Suc)
  have fit: "fits hb TotalNameBytes (Suc N)" using assms(2) by (simp add: N_def)
  obtain k where "N = 2 * k" using even by blast
  then have "even (of_nat N :: u64)" by simp
  then have "(of_nat N :: u64) AND 1 = 0" unfolding and_one_eq by (rule even_iff_mod_2_eq_zero [THEN iffD1])
  then have nand: "(of_nat (Suc N) - 1 :: u64) AND 1 = 0" by simp
  have "unat (of_nat (Suc N) :: u64) = Suc N" using fit by (simp add: fits_def unat_of_nat_u64 del: of_nat_Suc of_nat_add)
  then have pos: "(of_nat (Suc N) :: u64) \<noteq> 0" by (metis unat_0 nat.distinct(1))
  have names: "pbind (read_names N (unat (max_name_bytes (hb_limits hb))) 0 0 (map g fs)) h (concat (map name_bytes fs) @ rest)
      = h (map (\<lambda>x. (g x)\<lparr>entry_name := entry_name x\<rparr>) fs) rest" for h
    using read_names_written [OF assms(1) refl, of N 0 "[]" 0 g rest] by (simp add: pbind_def N_def)
  show ?thesis
    unfolding size append_assoc
    by (subst bind_property)
      (simp_all add: K_defs read_file_property_def nand pos steps bounds_count_fits [OF fit] names assms(3) del: of_nat_add of_nat_Suc)
qed

section \<open>Entries without a stream\<close>

definition empties :: "archive_entry list \<Rightarrow> archive_entry list" where
  "empties fs = filter (\<lambda>f. \<not> has_stream f) fs"

definition no_stream_set :: "archive_entry list \<Rightarrow> bit_set" where
  "no_stream_set fs = insert_where (\<lambda>i. \<not> has_stream (fs ! i)) (length fs) (bitset_with_capacity (length fs))"

lemma no_stream_set_parts [simp]:
  "bitset_ok (no_stream_set fs)" "bit_count (no_stream_set fs) = length fs"
  "bitset_contains (no_stream_set fs) i \<longleftrightarrow> i < length fs \<and> \<not> has_stream (fs ! i)"
  by (simp_all add: no_stream_set_def all_contained)

lemma no_stream_set_len: "bitset_len (no_stream_set fs) = length (empties fs)"
  by (simp add: len_members bitset_members_def empties_def length_filter_conv_card)

lemma collect_empty_parts:
  assumes "bitset_ok s"
  shows "case collect_empty P fs k s found of (found', s') \<Rightarrow>
      (found' \<longleftrightarrow> found \<or> list_ex P (empties fs)) \<and> bitset_ok s' \<and> bit_count s' \<le> max (bit_count s) (k + length (empties fs))
      \<and> (\<forall>i. bitset_contains s' i \<longleftrightarrow> bitset_contains s i \<or> (k \<le> i \<and> i - k < length (empties fs) \<and> P (empties fs ! (i - k))))"
  using assms
proof (induction fs arbitrary: k s found)
  case (Cons f fs)
  show ?case
  proof (cases "has_stream f")
    case True
    then show ?thesis using Cons by (simp add: empties_def)
  next
    case False
    define t where "t = (if P f then snd (bitset_insert k s) else s)"
    have t: "bitset_ok t" "bit_count t \<le> max (bit_count s) (k + 1)"
      "\<And>i. bitset_contains t i \<longleftrightarrow> bitset_contains s i \<or> (i = k \<and> P f)"
      using Cons.prems by (auto simp: t_def insert_parts bs.mem_ins)
    have idx: "(k \<le> i \<and> i - k < Suc m \<and> P ((f # es) ! (i - k))) \<longleftrightarrow> (i = k \<and> P f) \<or> (Suc k \<le> i \<and> i - Suc k < m \<and> P (es ! (i - Suc k)))"
      for i m es by (cases "i = k") (auto simp: nth_Cons' Suc_diff_Suc)
    have e: "empties (f # fs) = f # empties fs" using False by (simp add: empties_def)
    show ?thesis
      using Cons.IH [OF t(1), where k = "k + 1" and found = "found \<or> P f"] t(2,3) False
      unfolding collect_empty.simps e length_Cons idx t_def [symmetric] by (auto split: prod.splits)
  qed
qed (simp add: empties_def)

text \<open>Padding a bit set with absent indices up to the end of its last byte does not change its bytes.\<close>

lemma write_bits_absent:
  "0 < k \<Longrightarrow> k + length js \<le> 8 \<Longrightarrow> k < 8 \<Longrightarrow> \<forall>j\<in>set js. \<not> bitset_contains s j \<Longrightarrow>
    write_bits_loop s js cache (7 - int k) = [cache]"
proof (induction js arbitrary: k cache)
  case (Cons j js)
  then have "k \<noteq> 7 \<Longrightarrow> write_bits_loop s js cache (7 - int (Suc k)) = [cache]" by (intro Cons.IH) simp_all
  then show ?case using Cons.prems write_step [OF Cons.prems(3), of s j js cache] by (cases "k = 7") (simp_all add: Let_def)
qed (simp add: write_u8_def)

lemma write_bits_padded:
  assumes "k < 8" "js = [] \<or> (k + length is) mod 8 \<noteq> 0" "(k + length is) mod 8 + length js \<le> 8"
    and "\<forall>j\<in>set js. \<not> bitset_contains s j"
  shows "write_bits_loop s (is @ js) cache (7 - int k) = write_bits_loop s is cache (7 - int k)"
  using assms
proof (induction "is" arbitrary: k cache)
  case Nil
  then show ?case using write_bits_absent [of k js s cache] by (cases "js = []") (simp_all add: write_u8_def)
next
  case (Cons i "is")
  show ?case
  proof (cases "k = 7")
    case True
    then have "write_bits_loop s (is @ js) 0 7 = write_bits_loop s is 0 7" using Cons.prems Cons.IH [of 0 0] by simp
    then show ?thesis using write_step [OF Cons.prems(1)] True by (simp del: write_bits_loop.simps)
  next
    case False
    then have "Suc k < 8" using Cons.prems(1) by simp
    then have "write_bits_loop s (is @ js) c (7 - int (Suc k)) = write_bits_loop s is c (7 - int (Suc k))" for c
      using Cons.prems by (intro Cons.IH) simp_all
    then show ?thesis using False write_step [OF Cons.prems(1)] by (simp add: Let_def del: write_bits_loop.simps)
  qed
qed

definition collected :: "(archive_entry \<Rightarrow> bool) \<Rightarrow> archive_entry list \<Rightarrow> bit_set" where
  "collected P fs = snd (collect_empty P fs 0 bitset_new False)"

text \<open>
  The writer sizes the bit vector by the last entry it marks, the reader by the number of entries
  without a stream: they agree when both need the same number of bytes.
\<close>

definition flags_fit :: "(archive_entry \<Rightarrow> bool) \<Rightarrow> archive_entry list \<Rightarrow> bool" where
  "flags_fit P fs \<longleftrightarrow> (list_ex P (empties fs) \<longrightarrow> (bit_count (collected P fs) + 7) div 8 = (length (empties fs) + 7) div 8)"

definition flag_set :: "(archive_entry \<Rightarrow> bool) \<Rightarrow> archive_entry list \<Rightarrow> bit_set" where
  "flag_set P fs = bitset_grow (length (empties fs)) (collected P fs)"

lemma collected_parts:
  "bitset_ok (collected P fs)" "bit_count (collected P fs) \<le> length (empties fs)"
  "bitset_contains (collected P fs) i \<longleftrightarrow> i < length (empties fs) \<and> P (empties fs ! i)"
  "fst (collect_empty P fs 0 bitset_new False) \<longleftrightarrow> list_ex P (empties fs)"
  using collect_empty_parts [OF bitset_ok_new, where P = P and fs = fs and k = 0 and found = False] by (auto simp: collected_def split: prod.splits)

lemma flag_set_parts:
  "bitset_ok (flag_set P fs)" "bit_count (flag_set P fs) = length (empties fs)"
  "bitset_contains (flag_set P fs) i \<longleftrightarrow> i < length (empties fs) \<and> P (empties fs ! i)"
proof -
  show ok: "bitset_ok (flag_set P fs)" "bit_count (flag_set P fs) = length (empties fs)"
    using collected_parts(1,2) [of P fs] by (auto simp: flag_set_def grow_ok bit_count_grow max_def)
  show "bitset_contains (flag_set P fs) i \<longleftrightarrow> i < length (empties fs) \<and> P (empties fs ! i)"
    using contains_ok [OF ok(1)] contains_ok [OF collected_parts(1)] collected_parts(3) [of P fs i]
    by (simp add: flag_set_def stored_grow)
qed

lemma same_bytes_split:
  assumes "b \<le> n" "(b + 7) div 8 = (n + 7) div (8 :: nat)"
  shows "n = b \<or> b mod 8 \<noteq> 0" "b mod 8 + (n - b) \<le> 8"
proof -
  obtain m r where b: "b = 8 * m + r" "r < 8" using mult_div_mod_eq [of 8 b] mod_less_divisor [of 8 b] by (metis zero_less_numeral)
  have "n + 7 < 8 * ((b + 7) div 8) + 8" using assms(2) by simp
  moreover have "(b + 7) div 8 = m + (r + 7) div 8" using b(1) by (simp add: add.assoc)
  moreover have "(r + 7) div 8 \<le> 1" "r = 0 \<longrightarrow> (r + 7) div 8 = 0" using b(2) by simp_all
  ultimately have n: "n \<le> 8 * (if r = 0 then m else Suc m)" by auto
  have "b mod 8 = r" using b by simp
  then show "n = b \<or> b mod 8 \<noteq> 0" "b mod 8 + (n - b) \<le> 8" using n b assms(1) by (auto split: if_splits)
qed

lemma flag_set_bytes:
  assumes "flags_fit P fs" "list_ex P (empties fs)"
  shows "write_bit_set (collected P fs) = write_bit_set (flag_set P fs)"
proof -
  define b n where "b = bit_count (collected P fs)" and "n = length (empties fs)"
  have bn: "b \<le> n" "(b + 7) div 8 = (n + 7) div 8"
    using collected_parts(2) [of P fs] assms by (simp_all add: b_def n_def flags_fit_def)
  have same: "write_bits_loop (flag_set P fs) is c k = write_bits_loop (collected P fs) is c k" for "is" c k
    by (induction "is" arbitrary: c k) (simp_all add: flag_set_parts(3) collected_parts(3))
  have "[0..<n] = [0..<b] @ [b..<n]" using bn(1) upt_add_eq_append [of 0 b "n - b"] by simp
  moreover have "\<forall>j\<in>set [b..<n]. \<not> bitset_contains (collected P fs) j" by (simp add: contains_iff b_def)
  ultimately have "write_bits_loop (collected P fs) [0..<n] 0 7 = write_bits_loop (collected P fs) [0..<b] 0 7"
    using write_bits_padded [of 0 "[b..<n]" "[0..<b]" "collected P fs" 0] same_bytes_split [OF bn] by (cases "n = b") simp_all
  then show ?thesis by (simp add: write_bit_set_def flag_set_parts(2) same b_def n_def)
qed

lemma read_flags_written:
  assumes arm: "\<And>sz. read_file_property hb n nid sz st = pbind (read_bits (length (empties fs))) (\<lambda>b. preturn (upd b st))"
    and nid: "nid \<noteq> 0" and fit: "flags_fit P fs"
  shows "pbind (read_file_properties hb n st) f (write_collected nid P fs @ rest)
    = pbind (read_file_properties hb n (if list_ex P (empties fs) then upd (flag_set P fs) st else st)) f rest"
proof (cases "list_ex P (empties fs)")
  case True
  have "pbind (read_bits (length (empties fs))) g (write_bit_set (flag_set P fs) @ rest) = g (flag_set P fs) rest" for g
    using read_write_bits [OF flag_set_parts(1), of P fs rest] by (simp add: pbind_def flag_set_parts(2))
  then show ?thesis using True collected_parts(4) [of P fs]
    by (simp add: write_collected_def case_prod_unfold collected_def [symmetric] Let_def bind_property [OF nid] arm steps bind_preturn_fun
        flag_set_bytes [OF fit])
next
  case False
  then show ?thesis using collected_parts(4) [of P fs] by (simp add: write_collected_def case_prod_unfold)
qed

section \<open>Files info\<close>

text \<open>
  What the reader makes of an entry the writer described: dates and attributes only where their flag
  says so, sizes and checksums of the sub-stream, nothing of the compressed data.
\<close>

definition described :: "archive_entry \<Rightarrow> archive_entry" where
  "described f = default_entry\<lparr>entry_name := entry_name f,
     has_creation_date := has_creation_date f,
     creation_date := if has_creation_date f then creation_date f else NT_TIME_EPOCH,
     has_access_date := has_access_date f,
     access_date := if has_access_date f then access_date f else NT_TIME_EPOCH,
     has_last_modified_date := has_last_modified_date f,
     last_modified_date := if has_last_modified_date f then last_modified_date f else NT_TIME_EPOCH,
     has_windows_attributes := has_windows_attributes f,
     windows_attributes := if has_windows_attributes f then windows_attributes f else 0\<rparr>"

definition restored :: "archive_entry \<Rightarrow> archive_entry" where
  "restored f = (if has_stream f
     then (described f)\<lparr>has_stream := True, entry_has_crc := True, entry_crc := entry_crc f, entry_size := entry_size f\<rparr>
     else (described f)\<lparr>is_directory := is_directory f, is_anti_item := is_anti_item f\<rparr>)"

definition files_ok :: "header_bounds \<Rightarrow> archive_entry list \<Rightarrow> bool" where
  "files_ok hb fs \<longleftrightarrow> list_all (name_ok hb) fs \<and> fits hb Entries (length fs)
     \<and> fits hb TotalNameBytes (1 + sum_list (map name_size fs))
     \<and> flags_fit (\<lambda>f. \<not> is_directory f) fs \<and> flags_fit is_anti_item fs"

definition flags_read :: "archive_entry list \<Rightarrow> files_state" where
  "flags_read fs = \<lparr>fs_files = replicate (length fs) default_entry,
     fs_empty_stream = (if empties fs \<noteq> [] then Some (no_stream_set fs) else None),
     fs_empty_file = (if list_ex (\<lambda>f. \<not> is_directory f) (empties fs) then Some (flag_set (\<lambda>f. \<not> is_directory f) fs) else None),
     fs_anti = (if list_ex is_anti_item (empties fs) then Some (flag_set is_anti_item fs) else None)\<rparr>"

lemma nt_time_ticks: "NtTime (ticks t) = t"
  by (cases t) simp

lemma read_empty_streams_written:
  "pbind (read_file_properties hb (length fs) st) f (write_file_empty_streams fs @ rest)
    = pbind (read_file_properties hb (length fs)
        (if empties fs \<noteq> [] then st\<lparr>fs_empty_stream := Some (no_stream_set fs)\<rparr> else st)) f rest"
proof (cases "empties fs = []")
  case True
  then have "\<not> list_ex (\<lambda>f. \<not> has_stream f) fs" by (auto simp: empties_def list_ex_iff filter_empty_conv)
  then show ?thesis using True by (simp add: write_file_empty_streams_def)
next
  case False
  then have "list_ex (\<lambda>f. \<not> has_stream f) fs" by (auto simp: empties_def list_ex_iff filter_empty_conv)
  moreover have "pbind (read_bits (length fs)) g (write_bit_set (no_stream_set fs) @ rest) = g (no_stream_set fs) rest" for g
    using read_write_bits [OF no_stream_set_parts(1), of fs rest] by (simp add: pbind_def)
  ultimately show ?thesis using False
    by (simp add: write_file_empty_streams_def no_stream_set_def [symmetric] Let_def bind_property K_defs
        read_file_property_def steps bind_preturn_fun)
qed

lemma read_flags_all:
  assumes "files_ok hb fs" "st = \<lparr>fs_files = replicate (length fs) default_entry, fs_empty_stream = None, fs_empty_file = None, fs_anti = None\<rparr>"
  shows "pbind (read_file_properties hb (length fs) st) f
      (write_file_empty_streams fs @ write_file_empty_files fs @ write_file_anti_items fs @ rest)
    = pbind (read_file_properties hb (length fs) (flags_read fs)) f rest"
proof (cases "empties fs = []")
  case True
  then show ?thesis using assms collected_parts(4) [of _ fs]
    by (simp add: read_empty_streams_written write_file_empty_files_def write_file_anti_items_def write_collected_def case_prod_unfold
        flags_read_def)
next
  case False
  have fit: "flags_fit (\<lambda>f. \<not> is_directory f) fs" "flags_fit is_anti_item fs" using assms(1) by (simp_all add: files_ok_def)
  have file_read: "pbind (read_file_properties hb n st) g (write_collected K_EMPTY_FILE (\<lambda>f. \<not> is_directory f) fs @ r)
      = pbind (read_file_properties hb n (if list_ex (\<lambda>f. \<not> is_directory f) (empties fs)
          then st\<lparr>fs_empty_file := Some (flag_set (\<lambda>f. \<not> is_directory f) fs)\<rparr> else st)) g r"
    if "fs_empty_stream st = Some (no_stream_set fs)" for st n r and g :: "files_state \<Rightarrow> 'a parser"
    by (rule read_flags_written [where upd = "\<lambda>b st. st\<lparr>fs_empty_file := Some b\<rparr>"])
      (simp_all add: read_file_property_def K_defs no_stream_set_len that fit(1))
  have anti_read: "pbind (read_file_properties hb n st) g (write_collected K_ANTI is_anti_item fs @ r)
      = pbind (read_file_properties hb n (if list_ex is_anti_item (empties fs)
          then st\<lparr>fs_anti := Some (flag_set is_anti_item fs)\<rparr> else st)) g r"
    if "fs_empty_stream st = Some (no_stream_set fs)" for st n r and g :: "files_state \<Rightarrow> 'a parser"
    by (rule read_flags_written [where upd = "\<lambda>b st. st\<lparr>fs_anti := Some b\<rparr>"])
      (simp_all add: read_file_property_def K_defs no_stream_set_len that fit(2))
  show ?thesis
    using False unfolding assms(2) write_file_empty_files_def write_file_anti_items_def flags_read_def
    by (simp add: read_empty_streams_written file_read anti_read)
qed

lemma read_ctimes:
  assumes "\<And>x. \<not> has_creation_date (g x)" "length fs = n"
  shows "pbind (read_file_properties hb n (st\<lparr>fs_files := map g fs\<rparr>)) f (write_file_ctimes fs @ rest)
    = pbind (read_file_properties hb n
        (st\<lparr>fs_files := map (\<lambda>x. if has_creation_date x then with_creation_date (ticks (creation_date x)) (g x) else g x) fs\<rparr>)) f rest"
  unfolding write_file_ctimes_def assms(2) [symmetric]
  by (subst read_times_written [where g = g and without = without_creation_date and read = read_u64 and what = "''kCTime''"])
    (simp_all add: read_file_property_def u64_codec.decode_encode K_defs without_creation_date_def assms)

lemma read_atimes:
  assumes "\<And>x. \<not> has_access_date (g x)" "length fs = n"
  shows "pbind (read_file_properties hb n (st\<lparr>fs_files := map g fs\<rparr>)) f (write_file_atimes fs @ rest)
    = pbind (read_file_properties hb n
        (st\<lparr>fs_files := map (\<lambda>x. if has_access_date x then with_access_date (ticks (access_date x)) (g x) else g x) fs\<rparr>)) f rest"
  unfolding write_file_atimes_def assms(2) [symmetric]
  by (subst read_times_written [where g = g and without = without_access_date and read = read_u64 and what = "''kATime''"])
    (simp_all add: read_file_property_def u64_codec.decode_encode K_defs without_access_date_def assms)

lemma read_mtimes:
  assumes "\<And>x. \<not> has_last_modified_date (g x)" "length fs = n"
  shows "pbind (read_file_properties hb n (st\<lparr>fs_files := map g fs\<rparr>)) f (write_file_mtimes fs @ rest)
    = pbind (read_file_properties hb n
        (st\<lparr>fs_files := map (\<lambda>x. if has_last_modified_date x then with_last_modified_date (ticks (last_modified_date x)) (g x) else g x) fs\<rparr>)) f rest"
  unfolding write_file_mtimes_def assms(2) [symmetric]
  by (subst read_times_written [where g = g and without = without_last_modified_date and read = read_u64 and what = "''kMTime''"])
    (simp_all add: read_file_property_def u64_codec.decode_encode K_defs without_last_modified_date_def assms)

lemma read_windows_attrs:
  assumes "\<And>x. \<not> has_windows_attributes (g x)" "length fs = n"
  shows "pbind (read_file_properties hb n (st\<lparr>fs_files := map g fs\<rparr>)) f (write_file_windows_attrs fs @ rest)
    = pbind (read_file_properties hb n
        (st\<lparr>fs_files := map (\<lambda>x. if has_windows_attributes x then with_windows_attributes (windows_attributes x) (g x) else g x) fs\<rparr>)) f rest"
  unfolding write_file_windows_attrs_def assms(2) [symmetric]
  by (subst read_times_written [where g = g and without = without_windows_attributes and read = read_u32 and what = "''kWinAttributes''"])
    (simp_all add: read_file_property_def u32_codec.decode_encode K_defs without_windows_attributes_def assms)

lemma read_described:
  assumes "files_ok hb fs" "length fs = n"
  shows "pbind (read_file_properties hb n (flags_read fs)) f
      (write_file_names fs @ write_file_ctimes fs @ write_file_atimes fs @ write_file_mtimes fs @ write_file_windows_attrs fs
        @ write_u8 K_END @ rest)
    = f ((flags_read fs)\<lparr>fs_files := map described fs\<rparr>) rest"
proof -
  have ok: "list_all (name_ok hb) fs" "fits hb TotalNameBytes (1 + sum_list (map name_size fs))"
    using assms(1) by (simp_all add: files_ok_def)
  have files: "fs_files (flags_read fs) = map (\<lambda>_. default_entry) fs" by (simp add: flags_read_def map_replicate_const)
  show ?thesis
    apply (subst read_file_names_written [OF ok files])
    apply (subst read_ctimes, simp add: default_entry_def, simp add: assms(2))
    apply (subst read_atimes, simp add: default_entry_def with_creation_date_def, simp add: assms(2))
    apply (subst read_mtimes, simp add: default_entry_def with_creation_date_def with_access_date_def, simp add: assms(2))
    apply (subst read_windows_attrs, simp add: default_entry_def with_creation_date_def with_access_date_def with_last_modified_date_def, simp add: assms(2))
    apply (simp add: bind_last_property)
    apply (rule arg_cong [where f = "\<lambda>x. f x rest"])
    apply (simp add: described_def default_entry_def with_creation_date_def with_access_date_def with_last_modified_date_def
      with_windows_attributes_def nt_time_ticks)
    done
qed

text \<open>The entries that have a stream are, in order, the sub-streams of the blocks.\<close>

definition streams_match :: "sub_streams_info \<Rightarrow> archive_entry list \<Rightarrow> bool" where
  "streams_match S fs \<longleftrightarrow> map entry_size (filter has_stream fs) = unpack_sizes S
     \<and> map entry_crc (filter has_stream fs) = crcs S \<and> has_crc S = full_set (length (filter has_stream fs))"

lemma nth_filtered: "P x \<Longrightarrow> filter P (pre @ x # fs) ! length (filter P pre) = x"
  by (simp add: nth_append)

lemma nth_option_map: "xs = map f ys \<Longrightarrow> k < length ys \<Longrightarrow> nth_option xs k = Some (f (ys ! k))"
  by (simp add: nth_option_def)

lemma flags_read_empty:
  assumes "fs0 = pre @ f # fs" "\<not> has_stream f"
  shows "(case fs_empty_file (flags_read fs0) of Some s \<Rightarrow> \<not> bitset_contains s (length (empties pre)) | None \<Rightarrow> True) = is_directory f"
    "(case fs_anti (flags_read fs0) of Some s \<Rightarrow> bitset_contains s (length (empties pre)) | None \<Rightarrow> False) = is_anti_item f"
proof -
  have e: "empties fs0 ! length (empties pre) = f" "length (empties pre) < length (empties fs0)" "f \<in> set (empties fs0)"
    using assms nth_filtered [of "\<lambda>f. \<not> has_stream f" f pre fs] by (simp_all add: empties_def)
  have "flag_set P fs0 = s \<Longrightarrow> bitset_contains s (length (empties pre)) \<longleftrightarrow> P f" for P s
    using e by (auto simp: flag_set_parts(3))
  then show "(case fs_empty_file (flags_read fs0) of Some s \<Rightarrow> \<not> bitset_contains s (length (empties pre)) | None \<Rightarrow> True) = is_directory f"
    "(case fs_anti (flags_read fs0) of Some s \<Rightarrow> bitset_contains s (length (empties pre)) | None \<Rightarrow> False) = is_anti_item f"
    using e(3) by (auto simp: flags_read_def list_ex_iff)
qed

lemma described_streamed:
  "has_stream f \<Longrightarrow> (described f)\<lparr>has_stream := True, is_directory := False, is_anti_item := False,
     entry_has_crc := True, entry_crc := entry_crc f, entry_size := entry_size f\<rparr> = restored f"
  by (simp add: restored_def described_def default_entry_def)

lemma described_plain:
  "\<not> has_stream f \<Longrightarrow> (described f)\<lparr>has_stream := False, is_directory := is_directory f, is_anti_item := is_anti_item f,
     entry_has_crc := False, entry_size := 0\<rparr> = restored f"
  by (simp add: restored_def described_def default_entry_def)

lemma assign_described:
  assumes "streams_match S fs0" "fs0 = pre @ fs" "st = (flags_read fs0)\<lparr>fs_files := x\<rparr>"
  shows "assign_streams (Some S) st (map described fs) (length pre) (length (filter has_stream pre)) (length (empties pre))
    = Inr (map restored fs)"
  using assms(2)
proof (induction fs arbitrary: pre)
  case (Cons f fs)
  have IH: "assign_streams (Some S) st (map described fs) (length (pre @ [f])) (length (filter has_stream (pre @ [f])))
      (length (empties (pre @ [f]))) = Inr (map restored fs)"
    using Cons.prems by (intro Cons.IH) simp
  have streamed: "(case fs_empty_stream st of None \<Rightarrow> True | Some s \<Rightarrow> \<not> bitset_contains s (length pre)) = has_stream f"
    using Cons.prems by (auto simp: assms(3) flags_read_def empties_def nth_append split: option.splits if_splits)
  show ?case
  proof (cases "has_stream f")
    case True
    have k: "filter has_stream fs0 ! length (filter has_stream pre) = f" "length (filter has_stream pre) < length (filter has_stream fs0)"
      using nth_filtered [of has_stream f pre fs] Cons.prems True by simp_all
    have "nth_option (crcs S) (length (filter has_stream pre)) = Some (entry_crc f)"
      "nth_option (unpack_sizes S) (length (filter has_stream pre)) = Some (entry_size f)"
      "bitset_contains (has_crc S) (length (filter has_stream pre))"
      using assms(1) k nth_option_map [OF _ k(2), of _ entry_crc] nth_option_map [OF _ k(2), of _ entry_size]
      by (simp_all add: streams_match_def)
    then show ?thesis
      using IH streamed True described_streamed [OF True] by (simp add: empties_def)
  next
    case False
    note e = flags_read_empty [OF Cons.prems False]
    show ?thesis
      using IH streamed False e [unfolded empties_def] described_plain [OF False] by (simp add: assms(3) empties_def)
  qed
qed simp

lemma read_files_info_written:
  assumes "files_ok hb fs" "sub_streams a = Some S" "streams_match S fs"
  shows "pbind read_u8 (\<lambda>_. pbind (read_files_info hb a) f) (write_files_info fs @ rest)
    = pbind (plift (calculate_stream_map (a\<lparr>files := map restored fs\<rparr>))) f rest"
proof -
  have fit: "fits hb Entries (length fs)" using assms(1) by (simp add: files_ok_def)
  have streams: "assign_streams (sub_streams a) ((flags_read fs)\<lparr>fs_files := map described fs\<rparr>) (map described fs) 0 0 0
      = Inr (map restored fs)"
    using assign_described [OF assms(3), of "[]"] by (simp add: empties_def assms(2))
  show ?thesis
    unfolding write_files_info_def read_files_info_def
    by (simp add: steps bounds_count_fits [OF fit] read_flags_all [OF assms(1) refl] read_described [OF assms(1) refl] streams)
qed

section \<open>The header\<close>

lemma read_header_written:
  assumes "streams_ok_for hb vs p u" "files_ok hb fs" "streams_match (written_streams u) fs"
    and "write_header vs p u fs = Some w"
    and "calculate_stream_map ((streams_archive vs p u)\<lparr>files := map restored fs\<rparr>) = Inr a"
  shows "\<exists>body. w = write_u8 K_HEADER @ body \<and> read_header hb default_archive (body @ rest) = Inr (a, rest)"
proof -
  obtain streams where streams: "write_streams_info vs p u = Some streams"
    and w: "w = write_u8 K_HEADER @ write_u8 K_MAIN_STREAMS_INFO @ streams @ write_files_info fs @ write_u8 K_END"
    using assms(4) by (auto simp: write_header_def split: option.splits)
  have sub: "sub_streams (streams_archive vs p u) = Some (written_streams u)"
    by (cases "u = []") (simp_all add: streams_archive_def)
  obtain x where x: "write_files_info fs = write_u8 K_FILES_INFO @ x" by (simp add: write_files_info_def)
  have read: "pbind (read_files_info hb (streams_archive vs p u)) f (x @ r) = f a r" for f :: "archive \<Rightarrow> archive parser" and r
    using read_files_info_written [OF assms(2) sub assms(3), of f r] assms(5) by (simp add: x after_tag steps)
  have other: "K_MAIN_STREAMS_INFO \<noteq> K_ARCHIVE_PROPERTIES" "K_MAIN_STREAMS_INFO \<noteq> K_ADDITIONAL_STREAMS_INFO"
    by (simp_all add: K_defs)
  have "read_header hb default_archive ((write_u8 K_MAIN_STREAMS_INFO @ streams @ write_files_info fs @ write_u8 K_END) @ rest) = Inr (a, rest)"
    unfolding read_header_def x
    by (simp add: steps other read read_streams_info_written [OF assms(1) streams])
  then show ?thesis using w by simp
qed

end
