(* ===== verification/Archive_Writer.thy ===== *)
theory Archive_Writer
  imports Files_Roundtrip Io_Streams
begin

text \<open>
  \<open>ArchiveWriter\<close> of \<open>src/writer.rs\<close>: its state, the pushes, \<open>finish\<close> with the encoded header, and
  \<open>PreparedBlock\<close>.  The output is a file, its bytes and a position; it does not fail.  An encoder is
  known by what it writes to the writer below it for the writes it is given (\<open>we_encode\<close>, the finish
  included; \<open>we_abandon\<close> when it is dropped before it is finished); only the copy encoder is code of
  the crate.  A push is \<open>None\<close> when its reading loop does not end.
\<close>

section \<open>The output\<close>

record sink =
  sk_bytes :: bytes
  sk_pos :: nat

definition sink_seek :: "nat \<Rightarrow> sink \<Rightarrow> sink" where
  "sink_seek p s = s\<lparr>sk_pos := p\<rparr>"

definition sink_write :: "bytes \<Rightarrow> sink \<Rightarrow> sink" where
  "sink_write bs s =
     (if bs = [] then s
      else let front = take (sk_pos s) (sk_bytes s)
           in \<lparr>sk_bytes = front @ replicate (sk_pos s - length front) 0 @ bs @ drop (sk_pos s + length bs) (sk_bytes s),
               sk_pos = sk_pos s + length bs\<rparr>)"

section \<open>The state\<close>

record 's write_env =
  we_sha :: "'s sha256"
  we_build :: "encoder \<Rightarrow> encoder result"
  we_encode :: "encoder \<Rightarrow> bytes list \<Rightarrow> bytes list"
  we_abandon :: "encoder \<Rightarrow> bytes list \<Rightarrow> bytes list"
  we_versions :: codec_versions
  we_crc32 :: "bytes \<Rightarrow> u32"
  we_show :: "error \<Rightarrow> string"

record archive_writer =
  aw_output :: sink
  aw_files :: "archive_entry list"
  aw_methods :: "encoder_configuration list"
  aw_pack :: pack_info
  aw_unpack :: unpack_info
  aw_encrypt_header :: bool

definition archive_writer_new :: "sink \<Rightarrow> archive_writer" where
  "archive_writer_new output =
     \<lparr>aw_output = sink_seek (unat SIGNATURE_HEADER_SIZE) output, aw_files = [],
      aw_methods = [config_new (''LZMA2'', ID_LZMA2)],
      aw_pack = pack_info_default, aw_unpack = [], aw_encrypt_header = True\<rparr>"

definition set_content_methods :: "encoder_configuration list \<Rightarrow> archive_writer \<Rightarrow> archive_writer" where
  "set_content_methods methods w = (if methods = [] then w else w\<lparr>aw_methods := methods\<rparr>)"

definition set_encrypt_header :: "bool \<Rightarrow> archive_writer \<Rightarrow> archive_writer" where
  "set_encrypt_header enabled w = w\<lparr>aw_encrypt_header := enabled\<rparr>"

section \<open>The chain of encoders\<close>

text \<open>
  \<open>create_writer\<close> builds the encoders in order, the first one writing to the output, up to the first
  that fails: the encoders built and the error.  Deriving a key updates the cache inside the
  method's password.
\<close>

fun create_writer ::
  "'s write_env \<Rightarrow> encoder_configuration list \<Rightarrow> encoder list \<times> error option \<times> encoder_configuration list" where
  "create_writer env [] = ([], None, [])"
| "create_writer env (mc # mcs) =
     (case add_encoder (we_sha env) (we_build env) mc of
        (Inl e, mc') \<Rightarrow> ([], Some e, mc' # mcs)
      | (Inr enc, mc') \<Rightarrow>
          (case create_writer env mcs of (encs, failure, mcs') \<Rightarrow> (enc # encs, failure, mc' # mcs')))"

definition stage_writes :: "'s write_env \<Rightarrow> encoder \<Rightarrow> bytes list \<Rightarrow> bytes list" where
  "stage_writes env enc writes = (case enc of Enc_Copy \<Rightarrow> writes | _ \<Rightarrow> we_encode env enc writes)"

definition stage_abandoned :: "'s write_env \<Rightarrow> encoder \<Rightarrow> bytes list \<Rightarrow> bytes list" where
  "stage_abandoned env enc writes = (case enc of Enc_Copy \<Rightarrow> writes | _ \<Rightarrow> we_abandon env enc writes)"

definition bytes_in :: "bytes list \<Rightarrow> nat" where
  "bytes_in writes = length (concat writes)"

text \<open>
  What arrives at the output, and what the \<open>CountingWriter\<close>s between the encoders have counted: one
  count per encoder, of the bytes written into it.
\<close>

fun run_chain :: "(encoder \<Rightarrow> bytes list \<Rightarrow> bytes list) \<Rightarrow> encoder list \<Rightarrow> bytes list \<Rightarrow> bytes list \<times> u64 list" where
  "run_chain stage [] writes = (writes, [])"
| "run_chain stage (enc # encs) writes =
     (case run_chain stage encs writes of (mid, sizes) \<Rightarrow> (stage enc mid, of_nat (bytes_in mid) # sizes))"

text \<open>The chain is dropped before it is finished.\<close>

definition abandon :: "'s write_env \<Rightarrow> encoder list \<Rightarrow> bytes list \<Rightarrow> archive_writer \<Rightarrow> archive_writer" where
  "abandon env encs writes w =
     w\<lparr>aw_output := sink_write (concat (fst (run_chain (stage_abandoned env) encs writes))) (aw_output w)\<rparr>"

section \<open>Pushing\<close>

definition BUF_SIZE :: nat where "BUF_SIZE = 4096"

fun entries_names_from :: "string \<Rightarrow> archive_entry list \<Rightarrow> string" where
  "entries_names_from names [] = names"
| "entries_names_from names (e # es) =
     (let names = names @ utf8 (entry_name e) @ '';''
      in if 512 < length names then names else entries_names_from names es)"

definition entries_names :: "archive_entry list \<Rightarrow> string" where
  "entries_names es = entries_names_from [] es"

definition push_archive_entry ::
  "'s write_env \<Rightarrow> archive_entry \<Rightarrow> read_event list option \<Rightarrow> archive_writer
    \<Rightarrow> (archive_entry result \<times> archive_writer) option" where
  "push_archive_entry env entry reader w =
     (case (if is_directory entry then None else reader) of
        None \<Rightarrow>
          let entry = entry\<lparr>has_stream := False, entry_size := 0, compressed_size := 0, entry_has_crc := False\<rparr>
          in Some (Inr entry, w\<lparr>aw_files := aw_files w @ [entry]\<rparr>)
      | Some r \<Rightarrow>
          (case create_writer env (aw_methods w) of
             (encs, Some e, methods) \<Rightarrow> Some (Inl e, abandon env encs [] (w\<lparr>aw_methods := methods\<rparr>))
           | (encs, None, methods) \<Rightarrow>
               let w = w\<lparr>aw_methods := methods\<rparr> in
               (case read_loop source_read BUF_SIZE r [] of
                  None \<Rightarrow> None
                | Some (writes, Some e, _) \<Rightarrow>
                    Some (Inl (io_msg e (''Encode entry:'' @ utf8 (entry_name entry))), abandon env encs writes w)
                | Some (writes, None, _) \<Rightarrow>
                    let (out, sizes) = run_chain (stage_writes env) encs writes;
                        crc = we_crc32 env (concat writes);
                        compressed_crc = we_crc32 env (concat out);
                        entry = entry\<lparr>has_stream := True, entry_size := of_nat (bytes_in writes), entry_crc := ucast crc,
                          entry_has_crc := True, compressed_crc := ucast compressed_crc, compressed_size := of_nat (bytes_in out)\<rparr>
                    in Some (Inr entry,
                         w\<lparr>aw_output := sink_write (concat out) (aw_output w),
                           aw_pack := add_stream (of_nat (bytes_in out)) compressed_crc (aw_pack w),
                           aw_unpack := unpack_add methods sizes crc (aw_unpack w),
                           aw_files := aw_files w @ [entry]\<rparr>))))"

text \<open>The loop that copies sizes and checksums from the sources to the entries.\<close>

definition measured_entry :: "archive_entry \<Rightarrow> 's source_reader \<Rightarrow> archive_entry" where
  "measured_entry entry ri =
     entry\<lparr>entry_crc := ucast (sr_crc_value ri), entry_size := of_nat (sr_size ri), entry_has_crc := True\<rparr>"

definition push_archive_entries ::
  "'s write_env \<Rightarrow> archive_entry list \<Rightarrow> read_event list source_reader list \<Rightarrow> archive_writer
    \<Rightarrow> (unit result \<times> archive_writer) option" where
  "push_archive_entries env entries reader w =
     (if length reader \<noteq> length entries then Some (Inl Panic, w)
      else case create_writer env (aw_methods w) of
          (encs, Some e, methods) \<Rightarrow> Some (Inl e, abandon env encs [] (w\<lparr>aw_methods := methods\<rparr>))
        | (encs, None, methods) \<Rightarrow>
            let w = w\<lparr>aw_methods := methods\<rparr> in
            (case read_loop (seq_read (source_reader_read (we_crc32 env) source_read)) BUF_SIZE (seq_reader_new reader) [] of
               None \<Rightarrow> None
             | Some (writes, Some e, _) \<Rightarrow>
                 Some (Inl (io_msg e (''Encode entries:'' @ entries_names entries)), abandon env encs writes w)
             | Some (writes, None, r) \<Rightarrow>
                 let (out, sizes) = run_chain (stage_writes env) encs writes;
                     entries = map2 measured_entry entries (sq_readers r)
                 in Some (Inr (),
                      w\<lparr>aw_output := sink_write (concat out) (aw_output w),
                        aw_pack := add_stream (of_nat (bytes_in out)) (we_crc32 env (concat out)) (aw_pack w),
                        aw_unpack := unpack_add_multiple methods sizes (we_crc32 env (concat writes)) (of_nat (length entries))
                          (map entry_size entries) (map (\<lambda>e. ucast (entry_crc e)) entries) (aw_unpack w),
                        aw_files := aw_files w @ entries\<rparr>)))"

section \<open>Prepared blocks\<close>

record prepared_block =
  pb_compressed :: bytes
  pb_compressed_crc :: u32
  pb_entries :: "archive_entry list"
  pb_methods :: "encoder_configuration list"
  pb_sizes :: "u64 list"
  pb_crc :: u32
  pb_sub_stream_sizes :: "u64 list"
  pb_sub_stream_crcs :: "u32 list"

definition push_prepared_block :: "prepared_block \<Rightarrow> archive_writer \<Rightarrow> archive_writer" where
  "push_prepared_block b w =
     (if pb_entries b = [] then w
      else w\<lparr>aw_output := sink_write (pb_compressed b) (aw_output w),
             aw_pack := add_stream (of_nat (length (pb_compressed b))) (pb_compressed_crc b) (aw_pack w),
             aw_unpack := unpack_add_multiple (pb_methods b) (pb_sizes b) (pb_crc b) (of_nat (length (pb_entries b)))
               (pb_sub_stream_sizes b) (pb_sub_stream_crcs b) (aw_unpack w),
             aw_files := aw_files w @ pb_entries b\<rparr>)"

definition prepare_block ::
  "'s write_env \<Rightarrow> encoder_configuration list \<Rightarrow> archive_entry list \<Rightarrow> read_event list source_reader list
    \<Rightarrow> prepared_block result option" where
  "prepare_block env methods entries reader =
     (if methods = [] then Some (Inl (Other ''prepare_block: `methods` must not be empty''))
      else if length reader \<noteq> length entries
      then Some (Inl (Other (''prepare_block: '' @ decimal (length entries) @ '' entries against '' @ decimal (length reader) @ '' readers'')))
      else case create_writer env methods of
          (_, Some e, _) \<Rightarrow> Some (Inl e)
        | (encs, None, methods) \<Rightarrow>
            (case read_loop (seq_read (source_reader_read (we_crc32 env) source_read)) BUF_SIZE (seq_reader_new reader) [] of
               None \<Rightarrow> None
             | Some (writes, Some e, _) \<Rightarrow> Some (Inl (io_msg e (''prepare_block: read source:'' @ entries_names entries)))
             | Some (writes, None, r) \<Rightarrow>
                 let (out, sizes) = run_chain (stage_writes env) encs writes;
                     entries = map2 measured_entry entries (sq_readers r)
                 in Some (Inr \<lparr>pb_compressed = concat out, pb_compressed_crc = we_crc32 env (concat out), pb_entries = entries,
                      pb_methods = methods, pb_sizes = sizes, pb_crc = we_crc32 env (concat writes),
                      pb_sub_stream_sizes = map entry_size entries,
                      pb_sub_stream_crcs = map (\<lambda>e. ucast (entry_crc e)) entries\<rparr>)))"

section \<open>Finishing\<close>

text \<open>Cloning a configuration clones its password, which starts with an empty key cache.\<close>

definition config_clone :: "encoder_configuration \<Rightarrow> encoder_configuration" where
  "config_clone c = c\<lparr>cfg_options := map_option (\<lambda>opts. case opts of
     Aes a \<Rightarrow> Aes (a\<lparr>ao_password := password_clone (ao_password a)\<rparr>) | _ \<Rightarrow> opts) (cfg_options c)\<rparr>"

definition header_methods :: "archive_writer \<Rightarrow> bool \<times> encoder_configuration list" where
  "header_methods w =
     (let lzma = config_new (''LZMA'', ID_LZMA) in
      case (if aw_encrypt_header w then find (\<lambda>c. snd (cfg_method c) = ID_AES256_SHA256) (aw_methods w) else None) of
        None \<Rightarrow> (False, [lzma])
      | Some conf \<Rightarrow> (True, [config_clone conf, lzma]))"

definition to_io :: "'s write_env \<Rightarrow> error \<Rightarrow> error" where
  "to_io env e = (if e = Panic then Panic else from_io (Io_Error OtherKind (we_show env e)))"

definition write_encoded_header :: "'s write_env \<Rightarrow> archive_writer \<Rightarrow> bytes result \<times> archive_writer" where
  "write_encoded_header env w =
     (case write_header (we_versions env) (aw_pack w) (aw_unpack w) (aw_files w) of
        None \<Rightarrow> (Inl Panic, w)
      | Some raw_header \<Rightarrow>
          let pos = of_nat (sk_pos (aw_output w)) - SIGNATURE_HEADER_SIZE;
              size = of_nat (length raw_header) :: u64;
              (must_encrypt_header, methods) = header_methods w
          in case create_writer env methods of
               (_, Some e, _) \<Rightarrow> (Inl (to_io env e), w)
             | (encs, None, methods) \<Rightarrow>
                 let (out, sizes) = run_chain (stage_writes env) encs [raw_header];
                     encoded_data = concat out;
                     compress_size = of_nat (length encoded_data) :: u64
                 in if \<not> must_encrypt_header \<and> size \<le> compress_size + 20 then (Inr raw_header, w)
                    else
                      let w = w\<lparr>aw_output := sink_write encoded_data (aw_output w)\<rparr>;
                          pack = add_stream compress_size (we_crc32 env encoded_data) (pack_info_default\<lparr>pi_pos := pos\<rparr>);
                          unpack = unpack_add methods sizes (we_crc32 env raw_header) []
                      in case write_unpack_info (we_versions env) unpack of
                           None \<Rightarrow> (Inl Panic, w)
                         | Some u \<Rightarrow> (Inr (write_u8 K_ENCODED_HEADER @ write_pack_info pack @ u @ write_substreams unpack
                                         @ write_u8 K_END), w))"

definition start_header_bytes :: "(bytes \<Rightarrow> u32) \<Rightarrow> u64 \<Rightarrow> bytes \<Rightarrow> bytes" where
  "start_header_bytes crc32 header_pos header =
     (let start = write_u64_le (header_pos - SIGNATURE_HEADER_SIZE)
                  @ write_u64_le (0xFFFFFFFF AND of_nat (length header))
                  @ write_u32 (crc32 header)
      in SEVEN_Z_SIGNATURE @ write_u8 0 @ write_u8 4 @ write_u32 (crc32 start) @ start)"

definition finish :: "'s write_env \<Rightarrow> archive_writer \<Rightarrow> sink result" where
  "finish env w =
     (case write_encoded_header env w of
        (Inl e, w) \<Rightarrow> Inl e
      | (Inr header, w) \<Rightarrow>
          let header_pos = of_nat (sk_pos (aw_output w));
              output = sink_write header (aw_output w)
          in Inr (sink_write (start_header_bytes (we_crc32 env) header_pos header) (sink_seek 0 output)))"

end
