(* ===== verification/Writer_Correct.thy ===== *)
theory Writer_Correct
  imports Archive_Writer
begin

text \<open>
  What the pushes keep: the pack streams lie end to end behind the signature header, with the sizes
  and checksums the pack info records, and the blocks describe, in order, the entries that have a
  stream.  The states a sequence of successful operations reaches are an inductive set, and the
  invariant is proved by induction over it.
\<close>

section \<open>The output\<close>

definition written :: "sink \<Rightarrow> bytes \<Rightarrow> bool" where
  "written s xs \<longleftrightarrow> sk_pos s = 32 + length xs \<and> length (sk_bytes s) \<le> sk_pos s \<and> drop 32 (sk_bytes s) = xs"

lemma sink_write_pos: "sk_pos (sink_write bs s) = sk_pos s + length bs"
  by (simp add: sink_write_def Let_def)

lemma written_new: "length (sk_bytes s) \<le> 32 \<Longrightarrow> written (sink_seek 32 s) []"
  by (simp add: written_def sink_seek_def)

lemma written_write:
  assumes "written s xs"
  shows "written (sink_write bs s) (xs @ bs)"
proof (cases "bs = []")
  case False
  define front where "front = sk_bytes s @ replicate (32 + length xs - length (sk_bytes s)) 0"
  have pos: "sk_pos s = 32 + length xs" "length (sk_bytes s) \<le> 32 + length xs" "drop 32 (sk_bytes s) = xs"
    using assms by (simp_all add: written_def)
  have front: "length front = 32 + length xs" "drop 32 front = xs"
  proof -
    show "length front = 32 + length xs" using pos(2) by (simp add: front_def)
    have "length (sk_bytes s) - 32 = length xs" using pos(3) length_drop [of 32 "sk_bytes s"] by simp
    then have "xs = [] \<or> length (sk_bytes s) = 32 + length xs" by (cases xs) auto
    then show "drop 32 front = xs"
    proof
      assume x: "xs = []"
      then have "length (sk_bytes s) \<le> 32" using pos(2) by simp
      then show ?thesis by (simp add: front_def x)
    next
      assume "length (sk_bytes s) = 32 + length xs"
      then show ?thesis using pos(3) by (simp add: front_def)
    qed
  qed
  have "sink_write bs s = \<lparr>sk_bytes = front @ bs, sk_pos = 32 + length xs + length bs\<rparr>"
    using False pos by (simp add: sink_write_def Let_def front_def)
  then show ?thesis using front by (simp add: written_def)
qed (use assms in \<open>simp add: sink_write_def\<close>)

section \<open>The chain\<close>

lemma run_chain_sizes:
  "run_chain stage encs writes = (out, sizes) \<Longrightarrow> length sizes = length encs
    \<and> (encs \<noteq> [] \<longrightarrow> last sizes = of_nat (bytes_in writes))"
proof (induction encs arbitrary: out sizes)
  case (Cons enc encs)
  obtain mid rest where r: "run_chain stage encs writes = (mid, rest)" by (cases "run_chain stage encs writes")
  then have "sizes = of_nat (bytes_in mid) # rest" using Cons.prems by simp
  moreover have "mid = writes" "rest = []" if "encs = []" using r that by simp_all
  ultimately show ?case using Cons.IH [OF r] by (cases "encs = []") auto
qed simp

lemma create_writer_lengths:
  "create_writer env mcs = (encs, None, mcs') \<Longrightarrow> length encs = length mcs \<and> length mcs' = length mcs"
proof (induction mcs arbitrary: encs mcs')
  case (Cons mc mcs)
  obtain r mc' where r: "add_encoder (we_sha env) (we_build env) mc = (r, mc')" by (cases "add_encoder (we_sha env) (we_build env) mc")
  obtain es f ms where w: "create_writer env mcs = (es, f, ms)" by (cases "create_writer env mcs")
  show ?case using Cons.prems Cons.IH [of es ms] r w by (cases r) auto
qed simp

section \<open>Blocks and the entries they hold\<close>

definition holds_entries :: "block_info \<Rightarrow> archive_entry list \<Rightarrow> bool" where
  "holds_entries b es \<longleftrightarrow> stream_block_ok b \<and> stream_count b = length es \<and> stream_sizes b = map entry_size es
     \<and> map ucast (crcs_of_block b) = map entry_crc es"

lemma holds_one:
  assumes "methods \<noteq> []" "length sizes = length methods" "length methods < 2 ^ 64" "last sizes = entry_size e" "entry_crc e = ucast crc"
  shows "unpack_add methods sizes crc u = u @ [last (unpack_add methods sizes crc u)] \<and> holds_entries (last (unpack_add methods sizes crc u)) [e]"
  using assms
  by (simp add: unpack_add_def holds_entries_def stream_block_ok_def streams_described_def stream_count_def stream_sizes_def
      crcs_of_block_def)

lemma holds_many:
  fixes sub_crcs :: "u32 list"
  assumes "methods \<noteq> []" "length sizes = length methods" "length methods < 2 ^ 64" "length es < 2 ^ 64"
    and "sum_list (map (unat \<circ> entry_size) es) = unat (last sizes)"
    and "map entry_crc es = map ucast sub_crcs"
  shows "holds_entries \<lparr>bi_methods = methods, bi_sizes = sizes, bi_crc = crc, bi_num_sub_unpack_streams = of_nat (length es),
      bi_sub_stream_sizes = map entry_size es, bi_sub_stream_crcs = sub_crcs\<rparr> es"
proof -
  have n: "unat (of_nat (length es) :: u64) = length es" using assms(4) by (simp add: unat_of_nat_u64)
  have len: "length sub_crcs = length es" using arg_cong [OF assms(6), of length] by simp
  have one: "(of_nat (length es) :: u64) = 1 \<longleftrightarrow> length es = 1" "1 < (of_nat (length es) :: u64) \<longleftrightarrow> 1 < length es"
    using n by (auto simp: word_unat_eq_iff word_less_nat_alt)
  show ?thesis
  proof (cases es)
    case Nil
    then show ?thesis using assms(1-3) n
      by (simp add: holds_entries_def stream_block_ok_def streams_described_def stream_count_def stream_sizes_def crcs_of_block_def)
  next
    case (Cons e es')
    show ?thesis
    proof (cases es')
      case Nil
      obtain c where c: "sub_crcs = [c]" "entry_crc e = ucast c" using assms(6) len Cons Nil by (cases sub_crcs) auto
      have "last sizes = entry_size e" using assms(5) Cons Nil by (simp add: word_unat_eq_iff)
      then show ?thesis using assms(1-3) Cons Nil c
        by (simp add: holds_entries_def stream_block_ok_def streams_described_def stream_count_def stream_sizes_def crcs_of_block_def)
    next
      case (Cons e' es'')
      then have many: "1 < length es" using \<open>es = e # es'\<close> by simp
      then show ?thesis using assms len n one(2)
        by (simp add: holds_entries_def stream_block_ok_def streams_described_def stream_count_def stream_sizes_def crcs_of_block_def comp_def)
    qed
  qed
qed

section \<open>The invariant\<close>

definition packs_ok :: "(bytes \<Rightarrow> u32) \<Rightarrow> pack_info \<Rightarrow> bytes list \<Rightarrow> bool" where
  "packs_ok crc32 p packs \<longleftrightarrow> pi_pos p = 0 \<and> map unat (pi_sizes p) = map length packs \<and> pi_crcs p = map crc32 packs"

definition writer_ok :: "(bytes \<Rightarrow> u32) \<Rightarrow> archive_writer \<Rightarrow> bool" where
  "writer_ok crc32 w \<longleftrightarrow> aw_methods w \<noteq> [] \<and> length (aw_methods w) < 2 ^ 64 \<and> sk_pos (aw_output w) < 2 ^ 64
     \<and> (\<exists>packs groups. written (aw_output w) (concat packs) \<and> packs_ok crc32 (aw_pack w) packs
          \<and> list_all2 holds_entries (aw_unpack w) groups \<and> length groups = length packs
          \<and> filter has_stream (aw_files w) = concat groups)"

lemma writer_ok_new: "length (sk_bytes s) \<le> 32 \<Longrightarrow> writer_ok crc32 (archive_writer_new s)"
  unfolding writer_ok_def archive_writer_new_def
  by (intro conjI exI [of _ "[]"]) (simp_all add: packs_ok_def pack_info_default_def SIGNATURE_HEADER_SIZE_def written_new [unfolded sink_seek_def] sink_seek_def config_new_def)

lemma writer_ok_settings:
  "writer_ok crc32 w \<Longrightarrow> length ms < 2 ^ 64 \<Longrightarrow> writer_ok crc32 (set_content_methods ms w)"
  "writer_ok crc32 w \<Longrightarrow> writer_ok crc32 (set_encrypt_header b w)"
  by (auto simp: writer_ok_def set_content_methods_def set_encrypt_header_def)

text \<open>Adding a block: its packed bytes at the end of the output, its record, its entries.\<close>

lemma writer_ok_block:
  assumes "writer_ok crc32 w" "sk_pos (aw_output w) + length packed < 2 ^ 64" "holds_entries b (filter has_stream es)"
    and "ms \<noteq> []" "length ms < 2 ^ 64"
  shows "writer_ok crc32 (w\<lparr>aw_methods := ms, aw_output := sink_write packed (aw_output w),
    aw_pack := add_stream (of_nat (length packed)) (crc32 packed) (aw_pack w), aw_unpack := aw_unpack w @ [b],
    aw_files := aw_files w @ es\<rparr>)"
proof -
  obtain packs groups where w: "written (aw_output w) (concat packs)" "packs_ok crc32 (aw_pack w) packs"
    "list_all2 holds_entries (aw_unpack w) groups" "length groups = length packs" "filter has_stream (aw_files w) = concat groups"
    using assms(1) unfolding writer_ok_def by blast
  have "written (sink_write packed (aw_output w)) (concat (packs @ [packed]))" using written_write [OF w(1)] by simp
  moreover have "length packed < 2 ^ 64" using assms(2) by simp
  then have "packs_ok crc32 (add_stream (of_nat (length packed)) (crc32 packed) (aw_pack w)) (packs @ [packed])"
    using w(2) by (simp add: packs_ok_def add_stream_def unat_of_nat_u64)
  moreover have "list_all2 holds_entries (aw_unpack w @ [b]) (groups @ [filter has_stream es])"
    using w(3) assms(3) by (simp add: list_all2_appendI)
  ultimately show ?thesis
    using w(4,5) assms(2,4,5) unfolding writer_ok_def
    by (intro conjI exI [of _ "packs @ [packed]"] exI [of _ "groups @ [filter has_stream es]"]) (simp_all add: sink_write_pos)
qed

lemma writer_ok_plain:
  "writer_ok crc32 w \<Longrightarrow> list_all (\<lambda>e. \<not> has_stream e) es \<Longrightarrow> writer_ok crc32 (w\<lparr>aw_files := aw_files w @ es\<rparr>)"
  by (auto simp: writer_ok_def list_all_iff filter_empty_conv)

section \<open>Every push keeps the invariant\<close>

lemma push_entry_ok:
  assumes "writer_ok (we_crc32 env) w" "push_archive_entry env e r w = Some (Inr e', w')" "sk_pos (aw_output w') < 2 ^ 64"
  shows "writer_ok (we_crc32 env) w'"
proof (cases "if is_directory e then None else r")
  case None
  then have "w' = w\<lparr>aw_files := aw_files w @ [e\<lparr>has_stream := False, entry_size := 0, compressed_size := 0, entry_has_crc := False\<rparr>]\<rparr>"
    using assms(2) by (auto simp: push_archive_entry_def Let_def)
  then show ?thesis using writer_ok_plain [OF assms(1)] by simp
next
  case (Some src)
  obtain encs f ms where c: "create_writer env (aw_methods w) = (encs, f, ms)" by (cases "create_writer env (aw_methods w)")
  have "f = None" using assms(2) Some c by (cases f) (auto simp: push_archive_entry_def)
  note c = c [unfolded this]
  obtain pieces err s' where l: "read_loop source_read BUF_SIZE src [] = Some (pieces, err, s')"
    using script.loop_ends [of BUF_SIZE src "[]"] by (auto simp: BUF_SIZE_def)
  have "err = None" using assms(2) Some c l by (cases err) (auto simp: push_archive_entry_def Let_def)
  note l = l [unfolded this]
  obtain out sizes where r: "run_chain (stage_writes env) encs pieces = (out, sizes)" by (cases "run_chain (stage_writes env) encs pieces")
  define crc where "crc = we_crc32 env (concat pieces)"
  define e1 where "e1 = e\<lparr>has_stream := True, entry_size := of_nat (bytes_in pieces), entry_crc := ucast crc,
    entry_has_crc := True, compressed_crc := ucast (we_crc32 env (concat out)), compressed_size := of_nat (bytes_in out)\<rparr>"
  have w': "w' = w\<lparr>aw_methods := ms, aw_output := sink_write (concat out) (aw_output w),
      aw_pack := add_stream (of_nat (length (concat out))) (we_crc32 env (concat out)) (aw_pack w),
      aw_unpack := unpack_add ms sizes crc (aw_unpack w), aw_files := aw_files w @ [e1]\<rparr>"
    using assms(2) Some c l r by (auto simp: push_archive_entry_def Let_def e1_def crc_def bytes_in_def)
  have methods: "aw_methods w \<noteq> []" "length (aw_methods w) < 2 ^ 64" using assms(1) by (simp_all add: writer_ok_def)
  have len: "length encs = length (aw_methods w)" "length ms = length (aw_methods w)" using create_writer_lengths [OF c] by simp_all
  then have "encs \<noteq> []" "ms \<noteq> []" using methods(1) by auto
  then have one: "holds_entries (last (unpack_add ms sizes crc (aw_unpack w))) [e1]"
    using holds_one [of ms sizes e1 crc "aw_unpack w"] run_chain_sizes [OF r] len methods by (simp add: e1_def)
  have u: "unpack_add ms sizes crc (aw_unpack w) = aw_unpack w @ [last (unpack_add ms sizes crc (aw_unpack w))]"
    by (simp add: unpack_add_def)
  have "sk_pos (aw_output w) + length (concat out) < 2 ^ 64" using assms(3) by (simp add: w' sink_write_pos)
  then show ?thesis
    unfolding w' by (subst u, intro writer_ok_block) (use assms(1) one \<open>ms \<noteq> []\<close> len methods in \<open>simp_all add: e1_def\<close>)
qed

text \<open>What the loop of a solid block leaves: the entries with the sizes and checksums of their sources.\<close>

lemma measured_entries:
  assumes "list_all2 (measured crc32) ds rs" "length es = length ds" "list_all has_stream es"
  shows "map entry_size (map2 measured_entry es rs) = map (of_nat \<circ> length) ds"
    "map entry_crc (map2 measured_entry es rs) = map (ucast \<circ> crc32) ds"
    "filter has_stream (map2 measured_entry es rs) = map2 measured_entry es rs"
    "length (map2 measured_entry es rs) = length es"
proof -
  have len: "length es = length ds" "length ds = length rs" using assms(1,2) by (simp_all add: list_all2_lengthD)
  then show "length (map2 measured_entry es rs) = length es" by simp
  show "map entry_size (map2 measured_entry es rs) = map (of_nat \<circ> length) ds"
    using len assms(1) by (induction es ds rs rule: list_induct3) (simp_all add: measured_entry_def measured_def)
  show "map entry_crc (map2 measured_entry es rs) = map (ucast \<circ> crc32) ds"
    using len assms(1) by (induction es ds rs rule: list_induct3) (simp_all add: measured_entry_def measured_def)
  show "filter has_stream (map2 measured_entry es rs) = map2 measured_entry es rs"
    using len assms(3) by (induction es ds rs rule: list_induct3) (simp_all add: measured_entry_def)
qed

lemma sum_of_lengths:
  "length (concat ds) < 2 ^ 64 \<Longrightarrow> sum_list (map (unat \<circ> (of_nat \<circ> length :: bytes \<Rightarrow> u64)) ds) = length (concat ds)"
  by (induction ds) (auto simp: unat_of_nat_u64)

text \<open>The part that \<open>push_archive_entries\<close> and \<open>prepare_block\<close> share.\<close>

definition solid_block :: "'s write_env \<Rightarrow> encoder_configuration list \<Rightarrow> archive_entry list \<Rightarrow> bytes list \<Rightarrow> block_info \<Rightarrow> archive_entry list \<Rightarrow> bytes \<Rightarrow> bool" where
  "solid_block env ms es ds b es' packed \<longleftrightarrow>
     (\<exists>encs ms0 writes out sizes (rs :: read_event list source_reader list). create_writer env ms0 = (encs, None, ms) \<and> length ms = length ms0
        \<and> concat writes = concat ds \<and> run_chain (stage_writes env) encs writes = (out, sizes) \<and> packed = concat out
        \<and> list_all2 (measured (we_crc32 env)) ds rs \<and> es' = map2 measured_entry es rs
        \<and> b = \<lparr>bi_methods = ms, bi_sizes = sizes, bi_crc = we_crc32 env (concat writes),
            bi_num_sub_unpack_streams = of_nat (length es'), bi_sub_stream_sizes = map entry_size es',
            bi_sub_stream_crcs = map (\<lambda>e. ucast (entry_crc e)) es'\<rparr>)"

lemma ucast_widen: "(ucast (ucast (c :: u32) :: u64) :: u32) = c"
  by (rule bit_word_eqI) (simp add: bit_simps)

lemma solid_block_holds:
  assumes "solid_block env ms es ds b es' packed" "length es = length ds" "list_all has_stream es" "length es < 2 ^ 64"
    and "ms \<noteq> []" "length ms < 2 ^ 64" "length (concat ds) < 2 ^ 64"
  shows "holds_entries b (filter has_stream es')"
proof -
  obtain encs ms0 writes out sizes and rs :: "read_event list source_reader list" where c: "create_writer env ms0 = (encs, None, ms)"
    and w: "concat writes = concat ds" and r: "run_chain (stage_writes env) encs writes = (out, sizes)"
    and m: "list_all2 (measured (we_crc32 env)) ds rs" and es': "es' = map2 measured_entry es rs"
    and b: "b = \<lparr>bi_methods = ms, bi_sizes = sizes, bi_crc = we_crc32 env (concat writes),
            bi_num_sub_unpack_streams = of_nat (length es'), bi_sub_stream_sizes = map entry_size es',
            bi_sub_stream_crcs = map (\<lambda>e. ucast (entry_crc e)) es'\<rparr>"
    using assms(1) unfolding solid_block_def by blast
  note e = measured_entries [OF m assms(2,3), folded es']
  have encs: "length encs = length ms" "encs \<noteq> []" using create_writer_lengths [OF c] assms(5) by auto
  have sizes: "length sizes = length ms" "last sizes = of_nat (length (concat ds))"
    using run_chain_sizes [OF r] encs w by (simp_all add: bytes_in_def)
  have "sum_list (map (unat \<circ> entry_size) es') = sum_list (map unat (map entry_size es'))" by (simp add: comp_def)
  also have "\<dots> = length (concat ds)" unfolding e(1) using sum_of_lengths [OF assms(7)] by (simp add: comp_def)
  also have "\<dots> = unat (last sizes)" using assms(7) sizes(2) by (simp add: unat_of_nat_u64)
  finally have sum: "sum_list (map (unat \<circ> entry_size) es') = unat (last sizes)" .
  have "map (\<lambda>e. ucast (ucast (entry_crc e) :: u32)) es' = map entry_crc es'"
    unfolding list_eq_iff_nth_eq using e(2) by (simp add: list_eq_iff_nth_eq ucast_widen)
  then have crcs: "map entry_crc es' = map ucast (map (\<lambda>e. ucast (entry_crc e) :: u32) es')" by (simp add: comp_def)
  show ?thesis
    unfolding e(3) b by (rule holds_many) (use assms(4-6) e(4) sizes(1) sum crcs in simp_all)
qed

lemma solid_loop:
  assumes "list_all plain_source ss"
  obtains writes q where "read_loop (seq_read (source_reader_read crc32 source_read)) BUF_SIZE (seq_reader_new (map source_reader_new ss)) []
      = Some (writes, None, q)"
    "concat writes = concat (map source_data ss)" "list_all2 (measured crc32) (map source_data ss) (sq_readers q)"
  using plain.sources_measured [OF assms, of BUF_SIZE crc32] by (auto simp: BUF_SIZE_def)

lemma push_entries_ok:
  assumes "writer_ok (we_crc32 env) w" "push_archive_entries env es (map source_reader_new ss) w = Some (Inr (), w')"
    and "list_all plain_source ss" "list_all has_stream es" "length es < 2 ^ 64" "length (concat (map source_data ss)) < 2 ^ 64"
    and "sk_pos (aw_output w') < 2 ^ 64"
  shows "writer_ok (we_crc32 env) w'"
proof -
  have len: "length es = length (map source_data ss)" using assms(2) by (simp add: push_archive_entries_def split: if_splits)
  obtain encs f ms where c: "create_writer env (aw_methods w) = (encs, f, ms)" by (cases "create_writer env (aw_methods w)")
  have "f = None" using assms(2) c by (cases f) (auto simp: push_archive_entries_def split: if_splits)
  note c = c [unfolded this]
  obtain writes q where l: "read_loop (seq_read (source_reader_read (we_crc32 env) source_read)) BUF_SIZE (seq_reader_new (map source_reader_new ss)) []
      = Some (writes, None, q)" "concat writes = concat (map source_data ss)"
      "list_all2 (measured (we_crc32 env)) (map source_data ss) (sq_readers q)"
    by (rule solid_loop [OF assms(3)])
  obtain out sizes where r: "run_chain (stage_writes env) encs writes = (out, sizes)" by (cases "run_chain (stage_writes env) encs writes")
  define es' where "es' = map2 measured_entry es (sq_readers q)"
  define b where "b = \<lparr>bi_methods = ms, bi_sizes = sizes, bi_crc = we_crc32 env (concat writes),
            bi_num_sub_unpack_streams = of_nat (length es'), bi_sub_stream_sizes = map entry_size es',
            bi_sub_stream_crcs = map (\<lambda>e. ucast (entry_crc e) :: u32) es'\<rparr>"
  have w': "w' = w\<lparr>aw_methods := ms, aw_output := sink_write (concat out) (aw_output w),
      aw_pack := add_stream (of_nat (length (concat out))) (we_crc32 env (concat out)) (aw_pack w),
      aw_unpack := aw_unpack w @ [b], aw_files := aw_files w @ es'\<rparr>"
    using assms(2) len c l(1) r by (auto simp: push_archive_entries_def Let_def es'_def b_def bytes_in_def unpack_add_multiple_def)
  have methods: "ms \<noteq> []" "length ms < 2 ^ 64" "length ms = length (aw_methods w)"
    using assms(1) create_writer_lengths [OF c] by (auto simp: writer_ok_def)
  have "solid_block env ms es (map source_data ss) b es' (concat out)"
    unfolding solid_block_def using c r l(2,3) methods(3) b_def es'_def by blast
  from solid_block_holds [OF this len assms(4,5) methods(1,2) assms(6)]
  have "holds_entries b (filter has_stream es')" .
  moreover have "sk_pos (aw_output w) + length (concat out) < 2 ^ 64" using assms(7) by (simp add: w' sink_write_pos)
  ultimately show ?thesis unfolding w' using assms(1) methods by (intro writer_ok_block) simp_all
qed

lemma push_prepared_ok:
  assumes "writer_ok (we_crc32 env) w" "prepare_block env ms es (map source_reader_new ss) = Some (Inr b)"
    and "list_all plain_source ss" "list_all has_stream es" "length es < 2 ^ 64" "length (concat (map source_data ss)) < 2 ^ 64"
    and "sk_pos (aw_output (push_prepared_block b w)) < 2 ^ 64" "length ms < 2 ^ 64"
  shows "writer_ok (we_crc32 env) (push_prepared_block b w)"
proof (cases "pb_entries b = []")
  case False
  have len: "length es = length (map source_data ss)" "ms \<noteq> []" using assms(2) by (simp_all add: prepare_block_def split: if_splits)
  obtain encs f ms' where c: "create_writer env ms = (encs, f, ms')" by (cases "create_writer env ms")
  have "f = None" using assms(2) c by (cases f) (auto simp: prepare_block_def split: if_splits)
  note c = c [unfolded this]
  obtain writes q where l: "read_loop (seq_read (source_reader_read (we_crc32 env) source_read)) BUF_SIZE (seq_reader_new (map source_reader_new ss)) []
      = Some (writes, None, q)" "concat writes = concat (map source_data ss)"
      "list_all2 (measured (we_crc32 env)) (map source_data ss) (sq_readers q)"
    by (rule solid_loop [OF assms(3)])
  obtain out sizes where r: "run_chain (stage_writes env) encs writes = (out, sizes)" by (cases "run_chain (stage_writes env) encs writes")
  define es' where "es' = map2 measured_entry es (sq_readers q)"
  define bi where "bi = \<lparr>bi_methods = ms', bi_sizes = sizes, bi_crc = we_crc32 env (concat writes),
            bi_num_sub_unpack_streams = of_nat (length es'), bi_sub_stream_sizes = map entry_size es',
            bi_sub_stream_crcs = map (\<lambda>e. ucast (entry_crc e) :: u32) es'\<rparr>"
  have b: "b = \<lparr>pb_compressed = concat out, pb_compressed_crc = we_crc32 env (concat out), pb_entries = es',
      pb_methods = ms', pb_sizes = sizes, pb_crc = we_crc32 env (concat writes),
      pb_sub_stream_sizes = map entry_size es', pb_sub_stream_crcs = map (\<lambda>e. ucast (entry_crc e)) es'\<rparr>"
    using assms(2) len c l(1) r by (auto simp: prepare_block_def Let_def es'_def)
  have w': "push_prepared_block b w = w\<lparr>aw_methods := aw_methods w, aw_output := sink_write (concat out) (aw_output w),
      aw_pack := add_stream (of_nat (length (concat out))) (we_crc32 env (concat out)) (aw_pack w),
      aw_unpack := aw_unpack w @ [bi], aw_files := aw_files w @ es'\<rparr>"
    using False by (simp add: push_prepared_block_def b bi_def unpack_add_multiple_def)
  have methods: "ms' \<noteq> []" "length ms' < 2 ^ 64" "length ms' = length ms"
    using len(2) assms(8) create_writer_lengths [OF c] by auto
  have own: "aw_methods w \<noteq> []" "length (aw_methods w) < 2 ^ 64" using assms(1) by (simp_all add: writer_ok_def)
  have "solid_block env ms' es (map source_data ss) bi es' (concat out)"
    unfolding solid_block_def using c r l(2,3) methods(3) bi_def es'_def by blast
  from solid_block_holds [OF this len(1) assms(4,5) methods(1,2) assms(6)]
  have "holds_entries bi (filter has_stream es')" .
  moreover have "sk_pos (aw_output w) + length (concat out) < 2 ^ 64" using assms(7) by (simp add: w' sink_write_pos)
  ultimately show ?thesis unfolding w' using assms(1) own by (intro writer_ok_block) simp_all
qed (use assms(1) in \<open>simp add: push_prepared_block_def\<close>)

section \<open>The states a writer reaches\<close>

text \<open>
  The operations of a writer, as long as they succeed.  The entries of a solid block must be entries
  with a stream, which \<open>push_archive_entries\<close> does not check; nothing is larger than 2 to the 64.
\<close>

definition solid_input :: "archive_entry list \<Rightarrow> read_event list list \<Rightarrow> bool" where
  "solid_input es ss \<longleftrightarrow> list_all plain_source ss \<and> list_all has_stream es \<and> length es < 2 ^ 64
     \<and> length (concat (map source_data ss)) < 2 ^ 64"

inductive reaches_by_successes :: "'s write_env \<Rightarrow> sink \<Rightarrow> archive_writer \<Rightarrow> bool" for env target where
  start: "reaches_by_successes env target (archive_writer_new target)"
| methods: "reaches_by_successes env target w \<Longrightarrow> length ms < 2 ^ 64 \<Longrightarrow> reaches_by_successes env target (set_content_methods ms w)"
| encrypt: "reaches_by_successes env target w \<Longrightarrow> reaches_by_successes env target (set_encrypt_header b w)"
| entry: "reaches_by_successes env target w \<Longrightarrow> push_archive_entry env e r w = Some (Inr e', w') \<Longrightarrow> sk_pos (aw_output w') < 2 ^ 64
    \<Longrightarrow> reaches_by_successes env target w'"
| entries: "reaches_by_successes env target w \<Longrightarrow> push_archive_entries env es (map source_reader_new ss) w = Some (Inr (), w')
    \<Longrightarrow> solid_input es ss \<Longrightarrow> sk_pos (aw_output w') < 2 ^ 64 \<Longrightarrow> reaches_by_successes env target w'"
| prepared: "reaches_by_successes env target w \<Longrightarrow> prepare_block env ms es (map source_reader_new ss) = Some (Inr b)
    \<Longrightarrow> solid_input es ss \<Longrightarrow> length ms < 2 ^ 64 \<Longrightarrow> sk_pos (aw_output (push_prepared_block b w)) < 2 ^ 64
    \<Longrightarrow> reaches_by_successes env target (push_prepared_block b w)"

lemma reaches_by_successes_ok:
  assumes "length (sk_bytes target) \<le> 32"
  shows "reaches_by_successes env target w \<Longrightarrow> writer_ok (we_crc32 env) w"
proof (induction rule: reaches_by_successes.induct)
  case start
  then show ?case using assms by (rule writer_ok_new)
next
  case (entry w e r e' w')
  then show ?case by (blast intro: push_entry_ok)
next
  case (entries w es ss w')
  then show ?case unfolding solid_input_def by (blast intro: push_entries_ok)
next
  case (prepared w ms es ss b)
  then show ?case unfolding solid_input_def by (blast intro: push_prepared_ok)
qed (simp_all add: writer_ok_settings)

text \<open>
  C31: after any sequence of successful operations the records of a writer describe its output.  The
  conditions, all in \<open>reaches_by_successes\<close>: every push succeeded; the entries given to
  \<open>push_archive_entries\<close> and to a prepared block have \<open>has_stream\<close> set, and their sources deliver
  their bytes without an error; the target is empty behind the 32 bytes of the signature header,
  and the output stays below 2 to the 64.  A push that fails leaves bytes the
  pack info does not know of, and a solid entry without \<open>has_stream\<close> is written as an empty one, so neither is
  covered.  Then the output holds the pack streams end to end behind the 32 bytes of the signature
  header, the pack info records their sizes and CRCs, there is one block per pack stream, every
  block's counts, sizes and checksums are those of the entries it holds, and the entries with a
  stream are the entries of the blocks in order.
\<close>

theorem writer_records_describe_the_output:
  assumes "reaches_by_successes env target w" "length (sk_bytes target) \<le> 32"
  shows "\<exists>packs groups. drop 32 (sk_bytes (aw_output w)) = concat packs
    \<and> map unat (pi_sizes (aw_pack w)) = map length packs \<and> pi_crcs (aw_pack w) = map (we_crc32 env) packs
    \<and> length packs = length (aw_unpack w) \<and> filter has_stream (aw_files w) = concat groups
    \<and> list_all2 (\<lambda>b es. stream_count b = length es \<and> stream_sizes b = map entry_size es
        \<and> map ucast (crcs_of_block b) = map entry_crc es \<and> length (bi_sizes b) = length (bi_methods b)) (aw_unpack w) groups"
proof -
  obtain packs groups where w: "written (aw_output w) (concat packs)" "packs_ok (we_crc32 env) (aw_pack w) packs"
    "list_all2 holds_entries (aw_unpack w) groups" "length groups = length packs" "filter has_stream (aw_files w) = concat groups"
    using reaches_by_successes_ok [OF assms(2,1)] unfolding writer_ok_def by blast
  have "list_all2 (\<lambda>b es. stream_count b = length es \<and> stream_sizes b = map entry_size es
        \<and> map ucast (crcs_of_block b) = map entry_crc es \<and> length (bi_sizes b) = length (bi_methods b)) (aw_unpack w) groups"
    by (rule list_all2_mono [OF w(3)]) (auto simp: holds_entries_def stream_block_ok_def)
  moreover have "length packs = length (aw_unpack w)" using w(3,4) by (simp add: list_all2_lengthD)
  ultimately show ?thesis using w(1,2,5) unfolding written_def packs_ok_def by blast
qed

text \<open>A writer that copies: an entry, then a solid block of two.\<close>

definition no_sha :: "unit sha256" where
  "no_sha = \<lparr>sha_new = (), sha_update = (\<lambda>_ _. ()), sha_finalize = (\<lambda>_. [])\<rparr>"

definition copy_env :: "unit write_env" where
  "copy_env = \<lparr>we_sha = no_sha, we_build = Inr, we_encode = (\<lambda>_ ws. ws), we_abandon = (\<lambda>_ ws. ws),
     we_versions = \<lparr>brotli_version = 1, zstd_version_major = 1, zstd_version_minor = 5\<rparr>,
     we_crc32 = length_crc, we_show = (\<lambda>_. [])\<rparr>"

definition copy_writer :: archive_writer where
  "copy_writer = set_content_methods [config_new (''COPY'', ID_COPY)] (archive_writer_new \<lparr>sk_bytes = [], sk_pos = 0\<rparr>)"

lemma read_loop_one: "0 < length bs \<Longrightarrow> length bs \<le> n \<Longrightarrow> read_loop source_read n [Got bs] [] = Some ([bs], None, [])"
  by (simp add: read_loop.simps)

lemma pushed_one:
  "\<exists>w e. push_archive_entry copy_env (new_file [0x61]) (Some [Got [7, 8]]) copy_writer = Some (Inr e, w)
    \<and> drop 32 (sk_bytes (aw_output w)) = [7, 8] \<and> sk_pos (aw_output w) = 34 \<and> length (aw_unpack w) = 1
    \<and> map entry_name (aw_files w) = [[0x61]]"
  by (simp add: push_archive_entry_def copy_writer_def set_content_methods_def archive_writer_new_def config_new_def
      new_file_def default_entry_def add_encoder_def copy_env_def read_loop_one BUF_SIZE_def stage_writes_def Let_def
      sink_write_def sink_seek_def SIGNATURE_HEADER_SIZE_def bytes_in_def unpack_add_def add_stream_def pack_info_default_def)

theorem writer_records_describe_the_output_witness:
  "\<exists>w e. push_archive_entry copy_env (new_file [0x61]) (Some [Got [7, 8]]) copy_writer = Some (Inr e, w)
    \<and> (\<exists>p. drop 32 (sk_bytes (aw_output w)) = p \<and> map unat (pi_sizes (aw_pack w)) = [length p])"
proof -
  obtain w e where p: "push_archive_entry copy_env (new_file [0x61]) (Some [Got [7, 8]]) copy_writer = Some (Inr e, w)"
    "sk_pos (aw_output w) = 34" "length (aw_unpack w) = 1" using pushed_one by blast
  have "reaches_by_successes copy_env \<lparr>sk_bytes = [], sk_pos = 0\<rparr> copy_writer"
    unfolding copy_writer_def by (rule methods [OF start]) simp
  then have r: "reaches_by_successes copy_env \<lparr>sk_bytes = [], sk_pos = 0\<rparr> w" by (rule entry [OF _ p(1)]) (simp add: p(2))
  obtain packs groups where c: "drop 32 (sk_bytes (aw_output w)) = concat packs" "map unat (pi_sizes (aw_pack w)) = map length packs"
    "length packs = length (aw_unpack w)"
    using writer_records_describe_the_output [OF r] by auto
  obtain q where "packs = [q]" using c(3) p(3) by (auto simp: length_Suc_conv)
  then show ?thesis using p(1) c(1,2) by auto
qed

end
