(* ===== verification/Written_Header.thy ===== *)
theory Written_Header
  imports Writer_Correct
begin

text \<open>
  The header of a writer, read back: the composition of \<open>Header_Roundtrip\<close>, \<open>Files_Roundtrip\<close> and
  \<open>Writer_Correct\<close>, and the cases outside its hypotheses, in which the header is written and cannot
  be read.
\<close>

section \<open>The header reads back\<close>

text \<open>
  The limits of the reader: counts, property bytes and names it accepts (a name has no zero character,
  which would end it).
\<close>

definition within_limits :: "header_bounds \<Rightarrow> codec_versions \<Rightarrow> archive_writer \<Rightarrow> bool" where
  "within_limits hb vs w \<longleftrightarrow> unpack_info_ok hb vs (aw_unpack w) \<and> fits hb Entries (stream_total (aw_unpack w))
     \<and> list_all (name_ok hb) (aw_files w) \<and> fits hb Entries (length (aw_files w))
     \<and> fits hb TotalNameBytes (1 + sum_list (map name_size (aw_files w)))"

text \<open>
  What the writer must have been lucky with.  A pack CRC of zero is taken for an undefined one, and then
  the header lists no pack CRCs (\<open>pack_crcs_are_lost\<close>).  A vector of flags of the entries without a stream is
  written up to the last flag that is set, and the reader wants a bit for each of these entries
  (\<open>nine_empties_do_not_read_back\<close>); up to eight such entries always fit.
\<close>

definition vectors_fit :: "archive_writer \<Rightarrow> bool" where
  "vectors_fit w \<longleftrightarrow> (\<forall>c \<in> set (pi_crcs (aw_pack w)). c \<noteq> 0)
     \<and> flags_fit (\<lambda>f. \<not> is_directory f) (aw_files w) \<and> flags_fit is_anti_item (aw_files w)"

lemma few_empties_fit:
  assumes "length (empties fs) \<le> 8"
  shows "flags_fit P fs"
  unfolding flags_fit_def
proof
  assume "list_ex P (empties fs)"
  then obtain i where "i < length (empties fs)" "P (empties fs ! i)" by (auto simp: list_ex_length)
  then have "bitset_contains (collected P fs) i" by (simp add: collected_parts(3))
  then have "1 \<le> bit_count (collected P fs)" by (auto simp: contains_iff)
  then have "(bit_count (collected P fs) + 7) div 8 = 1" "(length (empties fs) + 7) div 8 = 1"
    using collected_parts(2) [of P fs] assms by (intro div_nat_eqI; simp)+
  then show "(bit_count (collected P fs) + 7) div 8 = (length (empties fs) + 7) div 8" by simp
qed

lemma has_stream_restored [simp]: "has_stream (restored f) = has_stream f"
  by (simp add: restored_def described_def default_entry_def)

lemma held_entries:
  assumes "list_all2 holds_entries u groups"
  shows "list_all stream_block_ok u" "stream_total u = length (concat groups)"
    "concat (map stream_sizes u) = map entry_size (concat groups)"
    "map ucast (concat (map crcs_of_block u)) = map entry_crc (concat groups)"
  using assms by (induction rule: list_all2_induct) (simp_all add: holds_entries_def)

lemma calculate_stream_map_files:
  assumes "calculate_stream_map a = Inr a'"
  shows "map (\<lambda>f. f\<lparr>compressed_size := 0\<rparr>) (files a') = map (\<lambda>f. f\<lparr>compressed_size := 0\<rparr>) (files a)"
    "blocks a' = blocks a" "pack_sizes a' = pack_sizes a" "pack_pos a' = pack_pos a" "sub_streams a' = sub_streams a"
  using assms
  by (elim calculate_stream_map_parts, use assign_blocks_Inr [OF _ start_in_file_loop] in \<open>fastforce simp: files_placed_def\<close>)+

lemma restored_uncompressed: "(restored f)\<lparr>compressed_size := 0\<rparr> = restored f"
  by (simp add: restored_def described_def default_entry_def)

text \<open>
  C30: under two conditions, the header a writer writes reads back to what was pushed.  The conditions: it
  is within the reader's limits (\<open>within_limits\<close>), and its vectors fit (\<open>vectors_fit\<close>): no pack stream
  has the CRC zero, and the flag vectors of the entries without a stream are as long as the reader
  expects, which they are when there are at most eight such entries.  Outside the second condition headers
  do fail to read back, as shown below.  Then, for every state successful operations lead to,
  the header parser consumes exactly the written bytes and returns an archive with the pushed entries in
  order: names, flags, dates, attributes, sizes and checksums (what the format does not store is at its
  default), one block per pack stream with its coders, and the pack sizes.
\<close>

theorem written_header_reads_back:
  assumes "reaches_by_successes env target w" "length (sk_bytes target) \<le> 32"
    and "within_limits hb (we_versions env) w" "vectors_fit w"
    and "write_header (we_versions env) (aw_pack w) (aw_unpack w) (aw_files w) = Some header"
  shows "\<exists>body a. header = write_u8 K_HEADER @ body \<and> read_header hb default_archive (body @ rest) = Inr (a, rest)
    \<and> map (\<lambda>f. f\<lparr>compressed_size := 0\<rparr>) (files a) = map restored (aw_files w)
    \<and> blocks a = map (counted_block (we_versions env)) (aw_unpack w)
    \<and> pack_pos a = 0 \<and> pack_sizes a = pi_sizes (aw_pack w) \<and> sub_streams a = Some (written_streams (aw_unpack w))"
proof -
  define vs u p fs where "vs = we_versions env" and "u = aw_unpack w" and "p = aw_pack w" and "fs = aw_files w"
  obtain packs groups where w: "written (aw_output w) (concat packs)" "packs_ok (we_crc32 env) p packs"
    "list_all2 holds_entries u groups" "length groups = length packs" "filter has_stream fs = concat groups" "sk_pos (aw_output w) < 2 ^ 64"
    using reaches_by_successes_ok [OF assms(2,1)] unfolding writer_ok_def u_def p_def fs_def by blast
  note held = held_entries [OF w(3)]
  have fit: "list_all (\<lambda>c. c \<noteq> 0) (pi_crcs p)" "unpack_info_ok hb vs u" "fits hb Entries (stream_total u)" "files_ok hb fs"
    using assms(3,4) by (simp_all add: within_limits_def vectors_fit_def files_ok_def list_all_iff u_def p_def fs_def vs_def)
  have lens: "length (pi_sizes p) = length packs" "length (pi_crcs p) = length packs" "length u = length packs" "pi_pos p = 0"
    using w(2,3,4) map_eq_imp_length_eq [of unat "pi_sizes p"] by (auto simp: packs_ok_def list_all2_lengthD)
  have entries: "fits hb Entries (length u)" using fit(2) by (simp add: unpack_info_ok_def)
  have streams: "streams_ok_for hb vs p u"
    using fit held(1) lens entries by (simp add: streams_ok_for_def pack_info_ok_def sub_streams_ok_def)
  have match: "streams_match (written_streams u) fs"
    using held w(5) by (simp add: streams_match_def written_streams_def)
  have archive: "pack_sizes (streams_archive vs p u) = pi_sizes p" "blocks (streams_archive vs p u) = map (counted_block vs) u"
    "pack_pos (streams_archive vs p u) = 0" "sub_streams (streams_archive vs p u) = Some (written_streams u)"
    using lens by (auto simp: streams_archive_def default_archive_def)
  define a0 where "a0 = (streams_archive vs p u)\<lparr>files := map restored fs\<rparr>"
  have "\<exists>a. calculate_stream_map a0 = Inr a"
  proof (rule calculate_stream_map_built)
    show "list_all (\<lambda>b. length (packed_streams b) = 1) (blocks a0)"
      by (simp add: a0_def archive counted_block_def sized_block_def written_block_def list_all_iff)
    have "sum_list (map unat (pi_sizes p)) = length (concat packs)" using w(2) by (simp add: packs_ok_def length_concat)
    then show "sum_list (map unat (pack_sizes a0)) < 2 ^ 64" using w(1,6) by (simp add: a0_def archive written_def)
    show "length (blocks a0) = length (pack_sizes a0)" "length (pack_sizes a0) \<le> usize_max"
      using lens entries by (simp_all add: a0_def archive fits_def usize_max_def)
    have "fits hb Entries (length fs)" using fit(4) by (simp add: files_ok_def)
    then show "length (files a0) \<le> usize_max" by (simp add: a0_def fits_def usize_max_def)
    have "filter has_stream (map restored fs) = map restored (filter has_stream fs)" by (simp add: filter_map comp_def)
    then show "sum_list (map num_unpack_sub_streams (blocks a0)) = length (filter has_stream (files a0))"
      using held(2) w(5) by (simp add: a0_def archive stream_total_def comp_def)
  qed
  then obtain a where a: "calculate_stream_map a0 = Inr a" ..
  note parts = calculate_stream_map_files [OF a]
  obtain body where "header = write_u8 K_HEADER @ body" "read_header hb default_archive (body @ rest) = Inr (a, rest)"
    using read_header_written [OF streams fit(4) match _ a [unfolded a0_def], of header rest] assms(5)
    by (auto simp: vs_def p_def u_def fs_def)
  moreover have "map (\<lambda>f. f\<lparr>compressed_size := 0\<rparr>) (files a) = map restored fs"
    using parts(1) by (simp add: a0_def comp_def restored_uncompressed)
  moreover have "blocks a = map (counted_block vs) u" "pack_pos a = 0" "pack_sizes a = pi_sizes p" "sub_streams a = Some (written_streams u)"
    by (simp_all add: parts(2-5) a0_def archive)
  ultimately show ?thesis unfolding vs_def u_def p_def fs_def by blast
qed

definition pushed_writer :: archive_writer where
  "pushed_writer = copy_writer\<lparr>aw_output := \<lparr>sk_bytes = replicate 32 0 @ [7, 8], sk_pos = 34\<rparr>,
     aw_pack := \<lparr>pi_crcs = [2], pi_sizes = [2], pi_pos = 0\<rparr>,
     aw_unpack := [\<lparr>bi_methods = [config_new (''COPY'', ID_COPY)], bi_sizes = [2], bi_crc = 2, bi_num_sub_unpack_streams = 1,
       bi_sub_stream_sizes = [], bi_sub_stream_crcs = []\<rparr>],
     aw_files := [(new_file [0x61])\<lparr>entry_size := 2, entry_crc := 2, entry_has_crc := True, compressed_crc := 2, compressed_size := 2\<rparr>]\<rparr>"

lemma pushed_writer: "\<exists>e. push_archive_entry copy_env (new_file [0x61]) (Some [Got [7, 8]]) copy_writer = Some (Inr e, pushed_writer)"
  by (simp add: push_archive_entry_def copy_writer_def set_content_methods_def archive_writer_new_def config_new_def
      new_file_def default_entry_def add_encoder_def copy_env_def read_loop_one BUF_SIZE_def stage_writes_def Let_def
      sink_write_def sink_seek_def SIGNATURE_HEADER_SIZE_def bytes_in_def unpack_add_def add_stream_def pack_info_default_def
      pushed_writer_def length_crc_def)

lemma pushed_reached: "reaches_by_successes copy_env \<lparr>sk_bytes = [], sk_pos = 0\<rparr> pushed_writer"
proof -
  obtain e where e: "push_archive_entry copy_env (new_file [0x61]) (Some [Got [7, 8]]) copy_writer = Some (Inr e, pushed_writer)"
    using pushed_writer by blast
  have "reaches_by_successes copy_env \<lparr>sk_bytes = [], sk_pos = 0\<rparr> copy_writer" unfolding copy_writer_def by (rule methods [OF start]) simp
  then show ?thesis by (rule entry [OF _ e]) (simp add: pushed_writer_def)
qed

lemma copy_properties: "get_options_as_properties vs (''COPY'', ID_COPY) None = Some []"
  by (simp add: get_options_as_properties_def Let_def method_ids)

lemma pushed_fits: "within_limits \<lparr>hb_bytes = 60, hb_limits = limits_default\<rparr> (we_versions copy_env) pushed_writer"
  by (simp add: within_limits_def pushed_writer_def copy_writer_def unpack_info_ok_def block_info_ok_def config_ok_def config_new_def
      ID_COPY_def [THEN arg_cong [where f = length]]
      copy_properties fits_def KIB_def MIB_def bounds_cap_def limits_default_def name_ok_def
      new_file_def default_entry_def scalar_value_def encode_utf16_def encode_scalar_def name_size_def coder_total_def stream_total_def stream_count_def)

lemma pushed_vectors: "vectors_fit pushed_writer"
  by (simp add: vectors_fit_def pushed_writer_def few_empties_fit empties_def new_file_def default_entry_def)

theorem written_header_reads_back_witness:
  "\<exists>header body a. write_header (we_versions copy_env) (aw_pack pushed_writer) (aw_unpack pushed_writer) (aw_files pushed_writer) = Some header
    \<and> header = write_u8 K_HEADER @ body
    \<and> read_header \<lparr>hb_bytes = 60, hb_limits = limits_default\<rparr> default_archive (body @ [9]) = Inr (a, [9])
    \<and> map entry_name (files a) = [[0x61]] \<and> map entry_size (files a) = [2] \<and> pack_sizes a = [2]"
proof -
  obtain header where h: "write_header (we_versions copy_env) (aw_pack pushed_writer) (aw_unpack pushed_writer) (aw_files pushed_writer) = Some header"
    by (simp add: write_header_def write_streams_info_def write_unpack_info_def write_block_info_def write_single_codec_def copy_properties
        pushed_writer_def config_new_def)
  obtain body a where r: "header = write_u8 K_HEADER @ body"
    "read_header \<lparr>hb_bytes = 60, hb_limits = limits_default\<rparr> default_archive (body @ [9]) = Inr (a, [9])"
    "map (\<lambda>f. f\<lparr>compressed_size := 0\<rparr>) (files a) = map restored (aw_files pushed_writer)" "pack_sizes a = pi_sizes (aw_pack pushed_writer)"
    using written_header_reads_back [OF pushed_reached _ pushed_fits pushed_vectors h, of "[9]"] by auto
  have "map entry_name (files a) = map entry_name (map (\<lambda>f. f\<lparr>compressed_size := 0\<rparr>) (files a))"
    "map entry_size (files a) = map entry_size (map (\<lambda>f. f\<lparr>compressed_size := 0\<rparr>) (files a))" by simp_all
  then show ?thesis using h r(1,2,4) unfolding r(3)
    by (simp add: pushed_writer_def restored_def described_def new_file_def default_entry_def)
qed

section \<open>Headers that do not read back\<close>

text \<open>
  When the CRC of a pack stream is zero, the vector of defined CRCs is written without the CRCs: the
  header does not say what they are, and the reader takes what follows for them.
\<close>

lemma pack_crcs_are_lost:
  "write_pack_info \<lparr>pi_crcs = [0, 5], pi_sizes = [0, 1], pi_pos = 0\<rparr> = write_pack_info \<lparr>pi_crcs = [0, 6], pi_sizes = [0, 1], pi_pos = 0\<rparr>"
proof -
  have "[0..<2] = [0, 1 :: nat]" by (simp add: upt_rec)
  then have "insert_where (\<lambda>i. [0, 5 :: u32] ! i \<noteq> 0) 2 s = insert_where (\<lambda>i. [0, 6 :: u32] ! i \<noteq> 0) 2 s" for s
    by (simp add: insert_where_def)
  then show ?thesis by (simp add: write_pack_info_def del: One_nat_def) (simp add: numeral_2_eq_2 [symmetric])
qed

text \<open>
  An empty file followed by eight directories: the bit vector of empty files has one byte and the
  reader expects two.
\<close>

definition nine_empties :: "archive_entry list" where
  "nine_empties = (new_file [0x61])\<lparr>has_stream := False\<rparr> # replicate 8 (new_directory [0x64])"

lemma nine_empties_short: "\<not> flags_fit (\<lambda>f. \<not> is_directory f) nine_empties"
  by code_simp

lemma nine_empties_do_not_read_back:
  assumes "fs_empty_stream st = Some (no_stream_set nine_empties)"
  shows "write_file_empty_files nine_empties = [K_EMPTY_FILE, 1, 0x80]
    \<and> (\<exists>st'. read_file_property hb n K_EMPTY_FILE 1 st (0x80 # K_NAME # rest) = Inr (st', rest))"
proof -
  have w: "write_file_empty_files nine_empties = [K_EMPTY_FILE, 1, 0x80]" by code_simp
  have "length (empties nine_empties) = 9"
    by (simp add: nine_empties_def empties_def new_file_def new_directory_def default_entry_def)
  then have len: "bitset_len (no_stream_set nine_empties) = 9" by (simp add: no_stream_set_len)
  have nine: "[0..<9] = [0, 1, 2, 3, 4, 5, 6, 7, 8 :: nat]" by (simp add: upt_rec)
  have "\<exists>b. read_bits 9 (0x80 # K_NAME # rest) = Inr (b, rest)"
    by (simp add: read_bits_def nine pbind_def K_defs)
  then show ?thesis using w assms len by (auto simp: read_file_property_def K_defs pbind_def)
qed

end
