(* ===== verification/Crypto_Backend.thy ===== *)
theory Crypto_Backend
  imports Prelude
begin

text \<open>
  The AES-256-CBC backends of \<open>src/crypto_backend.rs\<close>: AWS-LC, RustCrypto and the host.  The raw block
  cipher is not in the source.  What the crates below promise is CBC mode over it, in one of three shapes:
  a stateless call on whole blocks (\<open>oneshot\<close>), a decryptor that chains block by block (\<open>step\<close>), and a
  hook of the embedder (\<open>hook\<close>).  Each is a parameter; \<open>cbc\<close> is the mode they are documented to compute.
\<close>

datatype aes_error = KeyLength | IvLength | BlockAlignment | BackendRefused | HostPanic

fun aes_error_text :: "aes_error \<Rightarrow> string" where
  "aes_error_text KeyLength = ''an AES-256 key is 32 bytes''"
| "aes_error_text IvLength = ''an AES initialisation vector is 16 bytes''"
| "aes_error_text BlockAlignment = ''AES-CBC ciphertext is a whole number of 16-byte blocks''"
| "aes_error_text BackendRefused = ''the AES backend refused the key or the ciphertext''"
| "aes_error_text HostPanic = []"

definition AES_BLOCK_LEN :: nat where "AES_BLOCK_LEN = 16"
definition AES256_KEY_LEN :: nat where "AES256_KEY_LEN = 32"

lemmas aes_lengths = AES_BLOCK_LEN_def AES256_KEY_LEN_def

text \<open>The three backends all hold the key and the vector the next block is chained to.\<close>

record cbc_state =
  cbc_key :: bytes
  cbc_iv :: bytes

section \<open>The backends\<close>

text \<open>AWS-LC builds a key schedule, which it may refuse.\<close>

definition awslc_new :: "(bytes \<Rightarrow> bool) \<Rightarrow> bytes \<Rightarrow> bytes \<Rightarrow> aes_error + cbc_state" where
  "awslc_new accepts key iv =
     (if length key \<noteq> AES256_KEY_LEN then Inl KeyLength
      else if length iv \<noteq> AES_BLOCK_LEN then Inl IvLength
      else if accepts key then Inr \<lparr>cbc_key = key, cbc_iv = iv\<rparr> else Inl BackendRefused)"

definition awslc_decrypt ::
  "(bytes \<Rightarrow> bytes \<Rightarrow> bytes \<Rightarrow> bytes option) \<Rightarrow> cbc_state \<Rightarrow> bytes \<Rightarrow> (aes_error + bytes) \<times> cbc_state" where
  "awslc_decrypt oneshot st xs =
     (if length xs mod AES_BLOCK_LEN \<noteq> 0 then (Inl BlockAlignment, st)
      else if xs = [] then (Inr [], st)
      else let next_iv = drop (length xs - AES_BLOCK_LEN) xs
           in case oneshot (cbc_key st) (cbc_iv st) xs of
                None \<Rightarrow> (Inl BackendRefused, st)
              | Some plain \<Rightarrow> (Inr plain, st\<lparr>cbc_iv := next_iv\<rparr>))"

definition rustcrypto_new :: "bytes \<Rightarrow> bytes \<Rightarrow> aes_error + cbc_state" where
  "rustcrypto_new key iv =
     (if length key \<noteq> AES256_KEY_LEN then Inl KeyLength
      else if length iv \<noteq> AES_BLOCK_LEN then Inl IvLength
      else Inr \<lparr>cbc_key = key, cbc_iv = iv\<rparr>)"

function decrypt_chunks :: "('c \<Rightarrow> bytes \<Rightarrow> bytes \<times> 'c) \<Rightarrow> 'c \<Rightarrow> bytes \<Rightarrow> bytes \<times> 'c" where
  "decrypt_chunks step st xs =
     (if length xs < AES_BLOCK_LEN then (xs, st)
      else case step st (take AES_BLOCK_LEN xs) of
             (plain, st') \<Rightarrow>
               (case decrypt_chunks step st' (drop AES_BLOCK_LEN xs) of (rest, st'') \<Rightarrow> (plain @ rest, st'')))"
  by pat_completeness auto
termination by (relation "measure (\<lambda>(step, st, xs). length xs)") (auto simp: aes_lengths)

declare decrypt_chunks.simps [simp del]

definition rustcrypto_decrypt ::
  "('c \<Rightarrow> bytes \<Rightarrow> bytes \<times> 'c) \<Rightarrow> 'c \<Rightarrow> bytes \<Rightarrow> (aes_error + bytes) \<times> 'c" where
  "rustcrypto_decrypt step st xs =
     (if length xs mod AES_BLOCK_LEN \<noteq> 0 then (Inl BlockAlignment, st)
      else case decrypt_chunks step st xs of (plain, st') \<Rightarrow> (Inr plain, st'))"

text \<open>The host's hook is stateless, and a hook that fails or answers with another length panics.\<close>

definition host_decrypt ::
  "(bytes \<Rightarrow> bytes \<Rightarrow> bytes \<Rightarrow> string + bytes) \<Rightarrow> cbc_state \<Rightarrow> bytes \<Rightarrow> (aes_error + bytes) \<times> cbc_state" where
  "host_decrypt hook st xs =
     (if length xs mod AES_BLOCK_LEN \<noteq> 0 then (Inl BlockAlignment, st)
      else if xs = [] then (Inr [], st)
      else let next_iv = drop (length xs - AES_BLOCK_LEN) xs
           in case hook (cbc_key st) (cbc_iv st) xs of
                Inl e \<Rightarrow> (Inl HostPanic, st)
              | Inr plain \<Rightarrow>
                  if length plain \<noteq> length xs then (Inl HostPanic, st) else (Inr plain, st\<lparr>cbc_iv := next_iv\<rparr>))"

definition host_new :: "bytes \<Rightarrow> bytes \<Rightarrow> aes_error + cbc_state" where
  "host_new key iv =
     (if length key \<noteq> AES256_KEY_LEN then Inl KeyLength
      else if length iv \<noteq> AES_BLOCK_LEN then Inl IvLength
      else Inr \<lparr>cbc_key = key, cbc_iv = iv\<rparr>)"

section \<open>CBC mode\<close>

definition xor_bytes :: "bytes \<Rightarrow> bytes \<Rightarrow> bytes" where
  "xor_bytes = map2 (\<lambda>x y. x XOR y)"

text \<open>Every plain block is the decrypted block, combined with the cipher block before it.\<close>

function cbc :: "(bytes \<Rightarrow> bytes) \<Rightarrow> bytes \<Rightarrow> bytes \<Rightarrow> bytes" where
  "cbc block iv xs =
     (if length xs < 16 then []
      else xor_bytes (block (take 16 xs)) iv @ cbc block (take 16 xs) (drop 16 xs))"
  by pat_completeness auto
termination by (relation "measure (\<lambda>(block, iv, xs). length xs)") auto

declare cbc.simps [simp del]

definition cbc_oneshot :: "(bytes \<Rightarrow> bytes \<Rightarrow> bytes) \<Rightarrow> bytes \<Rightarrow> bytes \<Rightarrow> bytes \<Rightarrow> bytes" where
  "cbc_oneshot block key iv xs = cbc (block key) iv xs"

definition cbc_step :: "(bytes \<Rightarrow> bytes \<Rightarrow> bytes) \<Rightarrow> cbc_state \<Rightarrow> bytes \<Rightarrow> bytes \<times> cbc_state" where
  "cbc_step block st b = (xor_bytes (block (cbc_key st) b) (cbc_iv st), st\<lparr>cbc_iv := b\<rparr>)"

lemma cbc_Nil [simp]: "cbc block iv [] = []"
  by (simp add: cbc.simps)

lemma whole_blocks_induct [consumes 1, case_names Nil block]:
  assumes "16 dvd length xs" "P []"
    and "\<And>b xs. length b = 16 \<Longrightarrow> 16 dvd length xs \<Longrightarrow> P xs \<Longrightarrow> P (b @ xs)"
  shows "P xs"
  using assms(1)
proof (induction "length xs" arbitrary: xs rule: less_induct)
  case less
  show ?case
  proof (cases "xs = []")
    case True
    then show ?thesis using assms(2) by simp
  next
    case False
    then have n: "16 \<le> length xs" using less.prems by (intro dvd_imp_le) auto
    have "16 dvd length (drop 16 xs)" using less.prems n by simp
    moreover have "P (drop 16 xs)" by (rule less.hyps) (use n calculation in simp_all)
    ultimately have "P (take 16 xs @ drop 16 xs)" by (intro assms(3)) (simp_all add: n)
    then show ?thesis by simp
  qed
qed

lemma cbc_block: "length b = 16 \<Longrightarrow> cbc block iv (b @ xs) = xor_bytes (block b) iv @ cbc block b xs"
  by (simp add: cbc.simps [of block iv "b @ xs"])

definition last_block :: "bytes \<Rightarrow> bytes \<Rightarrow> bytes" where
  "last_block iv xs = (if xs = [] then iv else drop (length xs - 16) xs)"

lemma last_block_block: "length b = 16 \<Longrightarrow> 16 dvd length xs \<Longrightarrow> last_block iv (b @ xs) = last_block b xs"
proof -
  assume b: "length b = 16" "16 dvd length xs"
  show ?thesis
  proof (cases "xs = []")
    case True
    then show ?thesis using b by (auto simp: last_block_def)
  next
    case False
    then have "16 \<le> length xs" using b(2) by (intro dvd_imp_le) auto
    then show ?thesis using False b by (auto simp: last_block_def)
  qed
qed

lemma cbc_append: "16 dvd length xs \<Longrightarrow> cbc block iv (xs @ ys) = cbc block iv xs @ cbc block (last_block iv xs) ys"
proof (induction xs arbitrary: iv rule: whole_blocks_induct)
  case Nil
  then show ?case by (simp add: last_block_def)
next
  case (block b xs)
  then show ?case by (simp add: cbc_block last_block_block)
qed

lemma length_cbc:
  assumes "\<And>b. length b = 16 \<Longrightarrow> length (block b) = 16"
  shows "16 dvd length xs \<Longrightarrow> length iv = 16 \<Longrightarrow> length (cbc block iv xs) = length xs"
proof (induction xs arbitrary: iv rule: whole_blocks_induct)
  case (block b xs)
  then show ?case using assms by (simp add: cbc_block xor_bytes_def)
qed simp

section \<open>The contract of a block decryptor\<close>

text \<open>
  A decryptor of whole blocks that may be driven in pieces: what it answers is the plain text of the piece,
  and the pieces add up.
\<close>

locale block_decryptor =
  fixes dec :: "'c \<Rightarrow> bytes \<Rightarrow> (aes_error + bytes) \<times> 'c" and ready :: "'c \<Rightarrow> bool" and plain :: "'c \<Rightarrow> bytes \<Rightarrow> bytes"
  assumes dec_law: "ready c \<Longrightarrow> 16 dvd length xs \<Longrightarrow>
      \<exists>c'. dec c xs = (Inr (plain c xs), c') \<and> ready c' \<and> (\<forall>ys. plain c (xs @ ys) = plain c xs @ plain c' ys)"
    and plain_length: "ready c \<Longrightarrow> 16 dvd length xs \<Longrightarrow> length (plain c xs) = length xs"
begin

lemma dec_cases:
  assumes "ready c" "16 dvd length xs"
  obtains c' where "dec c xs = (Inr (plain c xs), c')" "ready c'" "\<And>ys. plain c (xs @ ys) = plain c xs @ plain c' ys"
    "length (plain c xs) = length xs"
  using dec_law [OF assms] plain_length [OF assms] by blast

lemma plain_Nil: "ready c \<Longrightarrow> plain c [] = []"
  using plain_length [of c "[]"] by simp

end

definition sixteen :: "(bytes \<Rightarrow> bytes) \<Rightarrow> bool" where
  "sixteen block \<longleftrightarrow> (\<forall>b. length b = 16 \<longrightarrow> length (block b) = 16)"

definition cbc_ready :: "(bytes \<Rightarrow> bytes \<Rightarrow> bytes) \<Rightarrow> cbc_state \<Rightarrow> bool" where
  "cbc_ready block st \<longleftrightarrow> length (cbc_iv st) = 16 \<and> sixteen (block (cbc_key st))"

definition cbc_plain :: "(bytes \<Rightarrow> bytes \<Rightarrow> bytes) \<Rightarrow> cbc_state \<Rightarrow> bytes \<Rightarrow> bytes" where
  "cbc_plain block st = cbc (block (cbc_key st)) (cbc_iv st)"

text \<open>AWS-LC, RustCrypto and a host that keeps its contract.\<close>

abbreviation awslc_backend :: "(bytes \<Rightarrow> bytes \<Rightarrow> bytes) \<Rightarrow> cbc_state \<Rightarrow> bytes \<Rightarrow> (aes_error + bytes) \<times> cbc_state" where
  "awslc_backend block \<equiv> awslc_decrypt (\<lambda>key iv xs. Some (cbc_oneshot block key iv xs))"

abbreviation rustcrypto_backend :: "(bytes \<Rightarrow> bytes \<Rightarrow> bytes) \<Rightarrow> cbc_state \<Rightarrow> bytes \<Rightarrow> (aes_error + bytes) \<times> cbc_state" where
  "rustcrypto_backend block \<equiv> rustcrypto_decrypt (cbc_step block)"

abbreviation host_backend :: "(bytes \<Rightarrow> bytes \<Rightarrow> bytes) \<Rightarrow> cbc_state \<Rightarrow> bytes \<Rightarrow> (aes_error + bytes) \<times> cbc_state" where
  "host_backend block \<equiv> host_decrypt (\<lambda>key iv xs. Inr (cbc_oneshot block key iv xs))"

lemma aligned: "length xs mod AES_BLOCK_LEN = 0 \<longleftrightarrow> 16 dvd length xs"
  by (simp add: aes_lengths dvd_eq_mod_eq_0)

lemma awslc_whole: "16 dvd length xs \<Longrightarrow>
    awslc_backend block st xs = (Inr (cbc_plain block st xs), st\<lparr>cbc_iv := last_block (cbc_iv st) xs\<rparr>)"
  by (simp add: awslc_decrypt_def aligned cbc_oneshot_def cbc_plain_def last_block_def) (simp add: aes_lengths)

lemma decrypt_chunks_whole: "16 dvd length xs \<Longrightarrow>
    decrypt_chunks (cbc_step block) st xs = (cbc_plain block st xs, st\<lparr>cbc_iv := last_block (cbc_iv st) xs\<rparr>)"
proof (induction xs arbitrary: st rule: whole_blocks_induct)
  case Nil
  then show ?case by (simp add: decrypt_chunks.simps aes_lengths cbc_plain_def last_block_def)
next
  case (block b xs)
  have "cbc_step block st b = (xor_bytes (block (cbc_key st) b) (cbc_iv st), st\<lparr>cbc_iv := b\<rparr>)" by (simp add: cbc_step_def)
  then show ?case
    using block(1,2) block.IH [of "st\<lparr>cbc_iv := b\<rparr>"]
    by (subst decrypt_chunks.simps) (simp add: aes_lengths cbc_plain_def cbc_block last_block_block)
qed

lemma rustcrypto_whole: "16 dvd length xs \<Longrightarrow>
    rustcrypto_backend block st xs = (Inr (cbc_plain block st xs), st\<lparr>cbc_iv := last_block (cbc_iv st) xs\<rparr>)"
  by (simp add: rustcrypto_decrypt_def aligned decrypt_chunks_whole)

lemma host_whole: "cbc_ready block st \<Longrightarrow> 16 dvd length xs \<Longrightarrow>
    host_backend block st xs = (Inr (cbc_plain block st xs), st\<lparr>cbc_iv := last_block (cbc_iv st) xs\<rparr>)"
  by (simp add: host_decrypt_def aligned cbc_oneshot_def cbc_plain_def last_block_def cbc_ready_def sixteen_def length_cbc)
    (simp add: aes_lengths)

lemma cbc_plain_append: "16 dvd length xs \<Longrightarrow>
    cbc_plain block st (xs @ ys) = cbc_plain block st xs @ cbc_plain block (st\<lparr>cbc_iv := last_block (cbc_iv st) xs\<rparr>) ys"
  by (simp add: cbc_plain_def cbc_append)

lemma cbc_ready_next: "cbc_ready block st \<Longrightarrow> 16 dvd length xs \<Longrightarrow> cbc_ready block (st\<lparr>cbc_iv := last_block (cbc_iv st) xs\<rparr>)"
proof -
  assume a: "cbc_ready block st" "16 dvd length xs"
  have "16 \<le> length xs" if "xs \<noteq> []" using a(2) that by (intro dvd_imp_le) auto
  then show ?thesis using a(1) by (auto simp: cbc_ready_def last_block_def)
qed

lemma length_cbc_plain: "cbc_ready block st \<Longrightarrow> 16 dvd length xs \<Longrightarrow> length (cbc_plain block st xs) = length xs"
  by (simp add: cbc_plain_def cbc_ready_def sixteen_def length_cbc)

interpretation awslc: block_decryptor "awslc_backend block" "cbc_ready block" "cbc_plain block" for block
  by unfold_locales (auto simp: awslc_whole cbc_ready_next cbc_plain_append length_cbc_plain)

interpretation rustcrypto: block_decryptor "rustcrypto_backend block" "cbc_ready block" "cbc_plain block" for block
  by unfold_locales (auto simp: rustcrypto_whole cbc_ready_next cbc_plain_append length_cbc_plain)

interpretation host: block_decryptor "host_backend block" "cbc_ready block" "cbc_plain block" for block
  by unfold_locales (auto simp: host_whole cbc_ready_next cbc_plain_append length_cbc_plain)

section \<open>Encryption\<close>

text \<open>The encryptor is always RustCrypto's; it chains block by block to its own last cipher block.\<close>

definition cbc_encrypt_block :: "(bytes \<Rightarrow> bytes \<Rightarrow> bytes) \<Rightarrow> cbc_state \<Rightarrow> bytes \<Rightarrow> bytes \<times> cbc_state" where
  "cbc_encrypt_block eblock st b = (let c = eblock (cbc_key st) (xor_bytes b (cbc_iv st)) in (c, st\<lparr>cbc_iv := c\<rparr>))"

definition inverse_block :: "(bytes \<Rightarrow> bytes) \<Rightarrow> (bytes \<Rightarrow> bytes) \<Rightarrow> bool" where
  "inverse_block eblock block \<longleftrightarrow> (\<forall>b. length b = 16 \<longrightarrow> length (eblock b) = 16 \<and> length (block b) = 16 \<and> block (eblock b) = b)"

lemma xor_bytes_cancel: "length b = length iv \<Longrightarrow> xor_bytes (xor_bytes b iv) iv = b"
proof (induction b iv rule: list_induct2)
  case (Cons x xs y ys)
  then show ?case by (simp add: xor_bytes_def xor.assoc)
qed (simp add: xor_bytes_def)

lemma cbc_decrypts:
  assumes "inverse_block (eblock key) (block key)" "length b = 16" "length iv = 16"
    and "cbc_encrypt_block eblock \<lparr>cbc_key = key, cbc_iv = iv\<rparr> b = (c, st')"
  shows "cbc (block key) iv (c @ xs) = b @ cbc (block key) c xs \<and> st' = \<lparr>cbc_key = key, cbc_iv = c\<rparr> \<and> length c = 16"
proof -
  have "length (xor_bytes b iv) = 16" using assms(2,3) by (simp add: xor_bytes_def)
  then have "length (eblock key (xor_bytes b iv)) = 16" "block key (eblock key (xor_bytes b iv)) = xor_bytes b iv"
    using assms(1) by (simp_all add: inverse_block_def)
  moreover have "c = eblock key (xor_bytes b iv)" "st' = \<lparr>cbc_key = key, cbc_iv = c\<rparr>"
    using assms(4) by (auto simp: cbc_encrypt_block_def Let_def)
  ultimately show ?thesis using assms(2,3) by (simp add: cbc_block xor_bytes_cancel)
qed

section \<open>The backends agree\<close>

text \<open>A backend driven with any pieces: all its answers, and its state.\<close>

fun answers :: "('c \<Rightarrow> bytes \<Rightarrow> (aes_error + bytes) \<times> 'c) \<Rightarrow> 'c \<Rightarrow> bytes list \<Rightarrow> (aes_error + bytes) list \<times> 'c" where
  "answers dec st [] = ([], st)"
| "answers dec st (xs # xss) = (case dec st xs of (r, st') \<Rightarrow> (case answers dec st' xss of (rs, st'') \<Rightarrow> (r # rs, st'')))"

lemma same_answers:
  assumes "\<And>st xs. cbc_ready block st \<Longrightarrow> dec st xs = dec' st xs \<and> cbc_ready block (snd (dec st xs))"
  shows "cbc_ready block st \<Longrightarrow> answers dec st xss = answers dec' st xss"
proof (induction xss arbitrary: st)
  case (Cons xs xss)
  obtain r st' where d: "dec st xs = (r, st')" by (cases "dec st xs")
  then have "dec' st xs = (r, st')" "cbc_ready block st'" using assms [OF Cons.prems, of xs] unfolding d by simp_all
  then show ?case using d Cons.IH by simp
qed simp

lemma misaligned:
  assumes "\<not> 16 dvd length xs"
  shows "awslc_backend block st xs = (Inl BlockAlignment, st)" "rustcrypto_backend block st xs = (Inl BlockAlignment, st)"
    "host_backend block st xs = (Inl BlockAlignment, st)"
  using assms aligned [of xs] by (simp_all add: awslc_decrypt_def rustcrypto_decrypt_def host_decrypt_def)

lemma backend_steps_agree:
  assumes "cbc_ready block st"
  shows "awslc_backend block st xs = rustcrypto_backend block st xs" "host_backend block st xs = rustcrypto_backend block st xs"
    "cbc_ready block (snd (rustcrypto_backend block st xs))"
  using assms by (cases "16 dvd length xs";
      simp add: awslc_whole rustcrypto_whole host_whole misaligned cbc_ready_next)+

text \<open>
  C13: the build's choice of a cipher backend cannot be seen.  From the same key and vector AWS-LC,
  RustCrypto and a host that keeps its contract give the same answers to every sequence of calls, whole
  blocks or not, empty or not, and end in the same state.
\<close>

theorem backends_agree:
  assumes "sixteen (block key)"
  shows "map_sum id (\<lambda>st. answers (awslc_backend block) st xss) (awslc_new (\<lambda>_. True) key iv)
       = map_sum id (\<lambda>st. answers (rustcrypto_backend block) st xss) (rustcrypto_new key iv)
    \<and> map_sum id (\<lambda>st. answers (host_backend block) st xss) (host_new key iv)
       = map_sum id (\<lambda>st. answers (rustcrypto_backend block) st xss) (rustcrypto_new key iv)"
proof (cases "length key = 32 \<and> length iv = 16")
  case True
  then have "cbc_ready block \<lparr>cbc_key = key, cbc_iv = iv\<rparr>" using assms by (simp add: cbc_ready_def)
  then have "answers (awslc_backend block) \<lparr>cbc_key = key, cbc_iv = iv\<rparr> xss = answers (rustcrypto_backend block) \<lparr>cbc_key = key, cbc_iv = iv\<rparr> xss"
    "answers (host_backend block) \<lparr>cbc_key = key, cbc_iv = iv\<rparr> xss = answers (rustcrypto_backend block) \<lparr>cbc_key = key, cbc_iv = iv\<rparr> xss"
    by (rule same_answers [rotated]; simp add: backend_steps_agree)+
  then show ?thesis using True by (simp add: awslc_new_def rustcrypto_new_def host_new_def aes_lengths)
next
  case False
  then show ?thesis by (auto simp: awslc_new_def rustcrypto_new_def host_new_def aes_lengths)
qed

text \<open>At a toy cipher, which turns the bits of a block over: two pieces, one of them no whole block.\<close>

theorem backends_agree_witness:
  "map_sum id (\<lambda>st. fst (answers (awslc_backend (\<lambda>key. map (\<lambda>x. 255 - x))) st [replicate 16 0, [1]]))
       (awslc_new (\<lambda>_. True) (replicate 32 1) (replicate 16 2)) = Inr [Inr (replicate 16 253), Inl BlockAlignment]"
proof -
  let ?block = "\<lambda>(key :: bytes). map (\<lambda>x :: u8. 255 - x)"
  have "sixteen (?block (replicate 32 1))" by (simp add: sixteen_def)
  note backends_agree [where block = ?block and key = "replicate 32 1" and iv = "replicate 16 2" and xss = "[replicate 16 0, [1]]",
      OF this, THEN conjunct1,
      THEN arg_cong [where f = "map_sum id fst"]]
  moreover have "map_sum id (\<lambda>st. fst (answers (rustcrypto_backend ?block) st [replicate 16 0, [1]]))
      (rustcrypto_new (replicate 32 1) (replicate 16 2)) = Inr [Inr (replicate 16 253), Inl BlockAlignment]"
    by code_simp
  ultimately show ?thesis by (simp add: sum.map_comp comp_def id_def del: answers.simps)
qed

end
