(* ===== verification/Aes_Stream.thy ===== *)
theory Aes_Stream
  imports Io_Streams Aes_Key Crypto_Backend
begin

text \<open>
  The streams over the cipher of \<open>src/encryption/aes.rs\<close>: \<open>Aes256Sha256Decoder\<close>, which decrypts in the
  buffer of its caller, and \<open>Aes256Sha256Encoder\<close>.  \<open>carry\<close> and \<open>plain\<close> are fixed arrays with their
  bounds in the source; here they are the bytes between the bounds.  The cipher is a parameter of the
  definitions, and one of the backends in the theorems.
\<close>

section \<open>The decoder\<close>

definition crypto_error :: "aes_error \<Rightarrow> io_error" where
  "crypto_error e = Io_Error InvalidData (aes_error_text e)"

record ('c, 's) aes_decoder =
  ad_cipher :: 'c
  ad_input :: 's
  ad_done :: bool
  ad_carry :: bytes
  ad_plain :: bytes
  ad_pos :: nat

definition aes_decoder_start :: "'c \<Rightarrow> 's \<Rightarrow> ('c, 's) aes_decoder" where
  "aes_decoder_start c input =
     \<lparr>ad_cipher = c, ad_input = input, ad_done = False, ad_carry = [], ad_plain = [], ad_pos = 0\<rparr>"

definition aes_decoder_new ::
  "'h sha256 \<Rightarrow> (bytes \<Rightarrow> bytes \<Rightarrow> aes_error + 'c) \<Rightarrow> 's \<Rightarrow> bytes \<Rightarrow> password \<Rightarrow> u8 \<Rightarrow> u64
    \<Rightarrow> ('c, 's) aes_decoder result \<times> password" where
  "aes_decoder_new sha cipher_new input props pw max_cycles_power max_kdf_rounds =
     (case get_aes_key sha props pw max_cycles_power max_kdf_rounds of
        (Inl e, pw') \<Rightarrow> (Inl e, pw')
      | (Inr (key, iv), pw') \<Rightarrow>
          (case cipher_new key iv of
             Inl e \<Rightarrow> (Inl (Other (aes_error_text e)), pw')
           | Inr c \<Rightarrow> (Inr (aes_decoder_start c input), pw')))"

definition aes_finish :: "('c, 's) aes_decoder \<Rightarrow> (io_error + bytes) \<times> ('c, 's) aes_decoder" where
  "aes_finish d =
     (if ad_carry d = [] then Inr [] else Inl (Io_Error InvalidData ''IllegalBlockSize''), d\<lparr>ad_done := True\<rparr>)"

text \<open>
  Reading until there is a block, into a buffer of \<open>limit\<close> bytes that already holds some: the loop of
  both paths.  The answer is whether a block was reached.
\<close>

function gather :: "'s io_reader \<Rightarrow> nat \<Rightarrow> bytes \<Rightarrow> 's \<Rightarrow> (io_error + bool) \<times> bytes \<times> 's" where
  "gather rd limit held s =
     (if AES_BLOCK_LEN \<le> length held then (Inr True, held, s)
      else case rd (limit - length held) s of
             (Inl e, s') \<Rightarrow> (Inl e, held, s')
           | (Inr bs, s') \<Rightarrow> if bs = [] then (Inr False, held, s') else gather rd limit (held @ bs) s')"
  by pat_completeness auto
termination by (relation "measure (\<lambda>(rd, limit, held, s). AES_BLOCK_LEN - length held)") (auto simp: aes_lengths neq_Nil_conv)

declare gather.simps [simp del]

definition fill_one_block ::
  "('c \<Rightarrow> bytes \<Rightarrow> (aes_error + bytes) \<times> 'c) \<Rightarrow> 's io_reader \<Rightarrow> ('c, 's) aes_decoder
    \<Rightarrow> (io_error + bytes) \<times> ('c, 's) aes_decoder" where
  "fill_one_block dec rd d =
     (case gather rd AES_BLOCK_LEN (ad_carry d) (ad_input d) of
        (Inl e, held, s') \<Rightarrow> (Inl e, d\<lparr>ad_input := s', ad_carry := held\<rparr>)
      | (Inr reached, held, s') \<Rightarrow>
          if \<not> reached then aes_finish (d\<lparr>ad_input := s', ad_carry := held\<rparr>)
          else case dec (ad_cipher d) held of
                 (Inl e, c) \<Rightarrow> (Inl (crypto_error e), d\<lparr>ad_input := s', ad_carry := [], ad_cipher := c\<rparr>)
               | (Inr plain, c) \<Rightarrow> (Inr plain, d\<lparr>ad_input := s', ad_carry := [], ad_cipher := c, ad_plain := plain\<rparr>))"

definition drain_plain :: "nat \<Rightarrow> ('c, 's) aes_decoder \<Rightarrow> bytes \<times> ('c, 's) aes_decoder" where
  "drain_plain n d =
     (let bs = take n (ad_plain d) in (bs, d\<lparr>ad_plain := drop n (ad_plain d), ad_pos := ad_pos d + length bs\<rparr>))"

definition aes_read ::
  "('c \<Rightarrow> bytes \<Rightarrow> (aes_error + bytes) \<times> 'c) \<Rightarrow> 's io_reader \<Rightarrow> ('c, 's) aes_decoder io_reader" where
  "aes_read dec rd n d =
     (if n = 0 then (Inr [], d)
      else if ad_plain d \<noteq> [] then (case drain_plain n d of (bs, d') \<Rightarrow> (Inr bs, d'))
      else if ad_done d then (Inr [], d)
      else if n < AES_BLOCK_LEN
      then case fill_one_block dec rd d of
             (Inl e, d') \<Rightarrow> (Inl e, d')
           | (Inr got, d') \<Rightarrow> if got = [] then (Inr [], d') else (case drain_plain n d' of (bs, d'') \<Rightarrow> (Inr bs, d''))
      else
        let capacity = n - n mod AES_BLOCK_LEN
        in case gather rd capacity (ad_carry d) (ad_input d) of
             (Inl e, held, s') \<Rightarrow> (Inl e, d\<lparr>ad_input := s', ad_carry := []\<rparr>)
           | (Inr reached, held, s') \<Rightarrow>
               if \<not> reached then aes_finish (d\<lparr>ad_input := s', ad_carry := held\<rparr>)
               else
                 let whole = length held - length held mod AES_BLOCK_LEN;
                     d' = d\<lparr>ad_input := s', ad_carry := drop whole held\<rparr>
                 in case dec (ad_cipher d) (take whole held) of
                      (Inl e, c) \<Rightarrow> (Inl (crypto_error e), d'\<lparr>ad_cipher := c\<rparr>)
                    | (Inr plain, c) \<Rightarrow> (Inr plain, d'\<lparr>ad_cipher := c, ad_pos := ad_pos d + whole\<rparr>))"

definition aes_seek :: "seek_from \<Rightarrow> ('c, 's) aes_decoder \<Rightarrow> (io_error + u64) \<times> ('c, 's) aes_decoder" where
  "aes_seek pos d =
     (let len = int (length (ad_plain d))
      in case pos of
           SeekStart p \<Rightarrow>
             let n = min (sint (p - of_nat (ad_pos d) :: i64)) len
             in if n < 0 then (Inr 0, d) else (Inr p, d\<lparr>ad_plain := drop (nat n) (ad_plain d)\<rparr>)
         | SeekEnd p \<Rightarrow> (Inl (Io_Error OtherKind ''Aes256 decoder unsupport seek from end''), d)
         | SeekCurrent p \<Rightarrow>
             let n = min (sint p) len
             in if n < 0 then (Inr 0, d)
                else (Inr (of_nat (ad_pos d) + of_int n), d\<lparr>ad_plain := drop (nat n) (ad_plain d)\<rparr>))"

section \<open>The encoder\<close>

text \<open>
  A write returns how many bytes it took and what it handed to the writer below.  An empty write ends the
  stream: what does not fill a block is padded with zeros.
\<close>

record 'c aes_encoder =
  ae_cipher :: 'c
  ae_buffer :: bytes
  ae_finished :: bool
  ae_write_size :: u32

definition aes_encoder_start :: "'c \<Rightarrow> 'c aes_encoder" where
  "aes_encoder_start c = \<lparr>ae_cipher = c, ae_buffer = [], ae_finished = False, ae_write_size = 0\<rparr>"

definition write_block :: "('c \<Rightarrow> bytes \<Rightarrow> bytes \<times> 'c) \<Rightarrow> bytes \<Rightarrow> 'c aes_encoder \<Rightarrow> bytes \<times> 'c aes_encoder" where
  "write_block enc b e =
     (case enc (ae_cipher e) b of
        (out, c) \<Rightarrow> (out, e\<lparr>ae_cipher := c, ae_write_size := ae_write_size e + of_nat (length b)\<rparr>))"

function write_chunks :: "('c \<Rightarrow> bytes \<Rightarrow> bytes \<times> 'c) \<Rightarrow> bytes \<Rightarrow> 'c aes_encoder \<Rightarrow> bytes \<times> 'c aes_encoder" where
  "write_chunks enc buf e =
     (if length buf < 16 then ([], e\<lparr>ae_buffer := ae_buffer e @ buf\<rparr>)
      else case write_block enc (take 16 buf) e of
             (out, e') \<Rightarrow> (case write_chunks enc (drop 16 buf) e' of (rest, e'') \<Rightarrow> (out @ rest, e'')))"
  by pat_completeness auto
termination by (relation "measure (\<lambda>(enc, buf, e). length buf)") auto

declare write_chunks.simps [simp del]

definition aes_flush :: "('c \<Rightarrow> bytes \<Rightarrow> bytes \<times> 'c) \<Rightarrow> 'c aes_encoder \<Rightarrow> bytes \<times> 'c aes_encoder" where
  "aes_flush enc e =
     (if ae_buffer e \<noteq> [] \<and> ae_finished e
      then case write_block enc (ae_buffer e @ replicate (16 - length (ae_buffer e)) 0) e of
             (out, e') \<Rightarrow> (out, e'\<lparr>ae_buffer := []\<rparr>)
      else ([], e))"

definition aes_write :: "('c \<Rightarrow> bytes \<Rightarrow> bytes \<times> 'c) \<Rightarrow> bytes \<Rightarrow> 'c aes_encoder \<Rightarrow> (nat \<times> bytes) \<times> 'c aes_encoder" where
  "aes_write enc buf e =
     (if ae_finished e \<and> buf \<noteq> [] then ((0, []), e)
      else if buf = [] then (case aes_flush enc (e\<lparr>ae_finished := True\<rparr>) of (out, e') \<Rightarrow> ((0, out), e'))
      else if ae_buffer e = []
      then (case write_chunks enc buf e of (out, e') \<Rightarrow> ((length buf, out), e'))
      else if 16 \<le> length buf + length (ae_buffer e)
      then
        let end_at = 16 - length (ae_buffer e)
        in case write_block enc (ae_buffer e @ take end_at buf) e of
             (first, e') \<Rightarrow>
               (case write_chunks enc (drop end_at buf) (e'\<lparr>ae_buffer := []\<rparr>) of
                  (rest, e'') \<Rightarrow> ((length buf, first @ rest), e''))
      else ((length buf, []), e\<lparr>ae_buffer := ae_buffer e @ buf\<rparr>))"

text \<open>A caller that writes the pieces of its data and then ends the stream.\<close>

fun write_all_pieces :: "('c \<Rightarrow> bytes \<Rightarrow> bytes \<times> 'c) \<Rightarrow> bytes list \<Rightarrow> 'c aes_encoder \<Rightarrow> bytes \<times> 'c aes_encoder" where
  "write_all_pieces enc [] e = (case aes_write enc [] e of ((n, out), e') \<Rightarrow> (out, e'))"
| "write_all_pieces enc (p # ps) e =
     (case aes_write enc p e of
        ((n, out), e') \<Rightarrow> (case write_all_pieces enc ps e' of (rest, e'') \<Rightarrow> (out @ rest, e'')))"

section \<open>The decoder delivers the plain text\<close>

definition aes_good :: "('c \<Rightarrow> bool) \<Rightarrow> ('s \<Rightarrow> bool) \<Rightarrow> ('s \<Rightarrow> bytes) \<Rightarrow> ('c, 's) aes_decoder \<Rightarrow> bool" where
  "aes_good ready good content d \<longleftrightarrow>
     good (ad_input d) \<and> ready (ad_cipher d) \<and> 16 dvd length (ad_carry d @ content (ad_input d)) \<and> length (ad_carry d) < 16
     \<and> (ad_done d \<longrightarrow> ad_carry d = [] \<and> content (ad_input d) = [])"

definition aes_content :: "('c \<Rightarrow> bytes \<Rightarrow> bytes) \<Rightarrow> ('s \<Rightarrow> bytes) \<Rightarrow> ('c, 's) aes_decoder \<Rightarrow> bytes" where
  "aes_content plain content d = ad_plain d @ plain (ad_cipher d) (ad_carry d @ content (ad_input d))"

lemma no_partial_block: "16 dvd length xs \<Longrightarrow> length xs < 16 \<Longrightarrow> xs = []"
  using nat_dvd_not_less [of "length xs" 16] by auto

context byte_source begin

lemma gathers:
  assumes "16 \<le> limit"
  shows "good s \<Longrightarrow> length held \<le> limit \<Longrightarrow>
    \<exists>reached held' s'. gather rd limit held s = (Inr reached, held', s') \<and> good s' \<and> held @ content s = held' @ content s'
      \<and> length held' \<le> limit \<and> (reached \<longleftrightarrow> 16 \<le> length held') \<and> (\<not> reached \<longrightarrow> content s' = [])"
proof (induction "length (content s)" arbitrary: s held rule: less_induct)
  case less
  show ?case
  proof (cases "16 \<le> length held")
    case True
    then show ?thesis using less.prems by (intro exI [of _ True] exI [of _ held] exI [of _ s]) (simp add: gather.simps aes_lengths)
  next
    case False
    then have "0 < limit - length held" using assms by simp
    from read_law [OF less.prems(1) this] obtain bs s1 where r: "rd (limit - length held) s = (Inr bs, s1)" "good s1"
      "length bs \<le> limit - length held" "content s = bs @ content s1" "bs = [] \<longrightarrow> content s = []" by blast
    show ?thesis
    proof (cases "bs = []")
      case True
      then show ?thesis
        using False r less.prems by (intro exI [of _ False] exI [of _ held] exI [of _ s1]) (simp add: gather.simps aes_lengths)
    next
      case nonempty: False
      then have "length (content s1) < length (content s)" using r(4) by simp
      moreover have "length (held @ bs) \<le> limit" using r(3) less.prems(2) by simp
      ultimately show ?thesis
        using less.hyps [of s1 "held @ bs"] r False nonempty by (subst gather.simps) (simp add: aes_lengths)
    qed
  qed
qed

end

context block_decryptor begin

lemma drains:
  assumes "aes_good ready good content d" "ad_plain d \<noteq> []" "0 < n"
  shows "\<exists>bs d'. drain_plain n d = (bs, d') \<and> aes_good ready good content d' \<and> length bs \<le> n
    \<and> aes_content plain content d = bs @ aes_content plain content d' \<and> bs \<noteq> []"
  using assms by (simp add: drain_plain_def aes_good_def aes_content_def Let_def)

lemma fills:
  assumes "byte_source rd good content" "aes_good ready good content d" "ad_plain d = []"
  shows "\<exists>got d'. fill_one_block dec rd d = (Inr got, d') \<and> aes_good ready good content d' \<and> ad_plain d' = got
    \<and> aes_content plain content d = aes_content plain content d' \<and> (got = [] \<longrightarrow> aes_content plain content d = [])"
proof -
  have d: "good (ad_input d)" "ready (ad_cipher d)" "16 dvd length (ad_carry d @ content (ad_input d))" "length (ad_carry d) < 16"
    using assms(2) by (simp_all add: aes_good_def)
  have "length (ad_carry d) \<le> 16" using d(4) by simp
  from byte_source.gathers [OF assms(1) order_refl d(1) this]
  obtain reached held s' where g: "gather rd 16 (ad_carry d) (ad_input d) = (Inr reached, held, s')" "good s'"
    "ad_carry d @ content (ad_input d) = held @ content s'" "length held \<le> 16" "reached \<longleftrightarrow> 16 \<le> length held"
    "\<not> reached \<longrightarrow> content s' = []"
    by blast
  show ?thesis
  proof (cases reached)
    case False
    then have "16 dvd length held" "length held < 16" "content s' = []" using d(3) g by simp_all
    then have "held = []" by (intro no_partial_block)
    then show ?thesis
      using False g assms(3) d(2) \<open>content s' = []\<close>
      by (auto simp: fill_one_block_def aes_lengths aes_finish_def aes_good_def aes_content_def plain_Nil)
  next
    case True
    then have h: "length held = 16" using g(4,5) by simp
    have w: "16 dvd length (content s')" using d(3) h unfolding g(3) by simp
    have "16 dvd length held" by (simp add: h)
    from dec_cases [OF d(2) this] obtain c' where c: "dec (ad_cipher d) held = (Inr (plain (ad_cipher d) held), c')" "ready c'"
      "\<And>ys. plain (ad_cipher d) (held @ ys) = plain (ad_cipher d) held @ plain c' ys" "length (plain (ad_cipher d) held) = length held"
      by blast
    have "\<not> ad_done d" using assms(2) g(3) h by (auto simp: aes_good_def)
    moreover have "plain (ad_cipher d) held \<noteq> []" using c(4) h by auto
    ultimately show ?thesis
      using True g h c w assms(3) by (simp add: fill_one_block_def aes_lengths aes_good_def aes_content_def)
  qed
qed

lemma aes_source:
  fixes rd :: "'s io_reader"
  assumes "byte_source rd good content"
  shows "byte_source (aes_read dec rd) (aes_good ready good content) (aes_content plain content)"
proof
  fix d :: "('c, 's) aes_decoder" and n :: nat
  assume d: "aes_good ready good content d" "0 < n"
  let ?goal = "\<lambda>r. \<exists>bs d'. r = (Inr bs, d') \<and> aes_good ready good content d' \<and> length bs \<le> n
    \<and> aes_content plain content d = bs @ aes_content plain content d' \<and> (bs = [] \<longrightarrow> aes_content plain content d = [])"
  have c: "ready (ad_cipher d)" "good (ad_input d)" "16 dvd length (ad_carry d @ content (ad_input d))" "length (ad_carry d) < 16"
    using d(1) by (simp_all add: aes_good_def)
  consider "ad_plain d \<noteq> []" | "ad_plain d = []" "ad_done d" | "ad_plain d = []" "\<not> ad_done d" "n < 16"
    | "ad_plain d = []" "\<not> ad_done d" "16 \<le> n" by linarith
  then show "?goal (aes_read dec rd n d)"
  proof cases
    case 1
    then show ?thesis using drains [OF d(1) 1 d(2)] d(2) by (auto simp: aes_read_def)
  next
    case 2
    then show ?thesis using d c(1) by (auto simp: aes_read_def aes_good_def aes_content_def plain_Nil)
  next
    case 3
    obtain got d' where f: "fill_one_block dec rd d = (Inr got, d')" "aes_good ready good content d'" "ad_plain d' = got"
      "aes_content plain content d = aes_content plain content d'" "got = [] \<longrightarrow> aes_content plain content d = []"
      using fills [OF assms d(1) 3(1)] by blast
    show ?thesis
    proof (cases "got = []")
      case True
      then show ?thesis using 3 f d(2) by (auto simp: aes_read_def aes_lengths)
    next
      case False
      then show ?thesis using 3 f d(2) drains [OF f(2) _ d(2)] by (auto simp: aes_read_def aes_lengths)
    qed
  next
    case 4
    define capacity where "capacity = n - n mod 16"
    have cap: "16 \<le> capacity" "capacity \<le> n" "16 dvd capacity"
    proof -
      have "capacity = 16 * (n div 16)" "0 < n div 16" using 4(3) by (simp_all add: capacity_def minus_mod_eq_mult_div div_greater_zero_iff)
      then show "16 \<le> capacity" "16 dvd capacity" by simp_all
      show "capacity \<le> n" by (simp add: capacity_def)
    qed
    have "length (ad_carry d) \<le> capacity" using c(4) cap(1) by simp
    from byte_source.gathers [OF assms cap(1) c(2) this] obtain reached held s' where
      g: "gather rd capacity (ad_carry d) (ad_input d) = (Inr reached, held, s')" "good s'"
      "ad_carry d @ content (ad_input d) = held @ content s'" "length held \<le> capacity" "reached \<longleftrightarrow> 16 \<le> length held"
      "\<not> reached \<longrightarrow> content s' = []" by blast
    show ?thesis
    proof (cases reached)
      case False
      then have "16 dvd length held" "length held < 16" "content s' = []" using c(3) g by simp_all
      then have "held = []" by (intro no_partial_block)
      then show ?thesis
        using False g 4 c(1) \<open>content s' = []\<close> unfolding capacity_def
        by (auto simp: aes_read_def aes_lengths aes_finish_def aes_good_def aes_content_def plain_Nil)
    next
      case True
      define whole where "whole = length held - length held mod 16"
      have w: "16 dvd whole" "16 \<le> whole" "whole \<le> length held" "length held - whole < 16"
        using True g(5) by (auto simp: whole_def minus_mod_eq_mult_div div_greater_zero_iff intro: mod_less_divisor)
      let ?xs = "take whole held"
      have "16 dvd length ?xs" using w by simp
      from dec_cases [OF c(1) this] obtain c' where k: "dec (ad_cipher d) ?xs = (Inr (plain (ad_cipher d) ?xs), c')" "ready c'"
        "\<And>ys. plain (ad_cipher d) (?xs @ ys) = plain (ad_cipher d) ?xs @ plain c' ys" "length (plain (ad_cipher d) ?xs) = length ?xs" by blast
      have split: "ad_carry d @ content (ad_input d) = ?xs @ drop whole held @ content s'" using g(3) by simp
      have rest: "16 dvd length (drop whole held @ content s')" using c(3) w(1,3) unfolding split by simp
      have "plain (ad_cipher d) (ad_carry d @ content (ad_input d)) = plain (ad_cipher d) ?xs @ plain c' (drop whole held @ content s')"
        unfolding split by (rule k(3))
      moreover have "plain (ad_cipher d) ?xs \<noteq> []" using k(4) w by auto
      moreover have "length (plain (ad_cipher d) ?xs) \<le> n" using k(4) w(3) g(4) cap(2) by simp
      ultimately show ?thesis
        using True g(1,2) 4 k(1,2) w(3,4) rest unfolding capacity_def
        by (simp add: aes_read_def aes_lengths aes_good_def aes_content_def whole_def [symmetric] Let_def)
    qed
  qed
qed

end

section \<open>The encoder writes the cipher text of the padded data\<close>

text \<open>\<open>decrypt_chunks\<close> runs any step over the blocks of a byte string; here the step encrypts.\<close>

lemma chunks_block:
  "length b = 16 \<Longrightarrow> decrypt_chunks step st (b @ ys)
    = (fst (step st b) @ fst (decrypt_chunks step (snd (step st b)) ys), snd (decrypt_chunks step (snd (step st b)) ys))"
  by (subst decrypt_chunks.simps) (simp add: aes_lengths split: prod.split)

lemma chunks_append:
  "16 dvd length xs \<Longrightarrow> decrypt_chunks step st (xs @ ys)
    = (fst (decrypt_chunks step st xs) @ fst (decrypt_chunks step (snd (decrypt_chunks step st xs)) ys),
       snd (decrypt_chunks step (snd (decrypt_chunks step st xs)) ys))"
proof (induction xs arbitrary: st rule: whole_blocks_induct)
  case Nil
  then show ?case by (simp add: decrypt_chunks.simps [of step st "[]"] aes_lengths)
next
  case (block b xs)
  then show ?case
    by (simp add: decrypt_chunks.simps [of step st "b @ _"] aes_lengths split: prod.split)
qed

definition whole_part :: "bytes \<Rightarrow> bytes" where
  "whole_part xs = take (length xs - length xs mod 16) xs"

definition partial_part :: "bytes \<Rightarrow> bytes" where
  "partial_part xs = drop (length xs - length xs mod 16) xs"

lemma parts: "whole_part xs @ partial_part xs = xs" "16 dvd length (whole_part xs)" "length (partial_part xs) < 16"
  by (simp_all add: whole_part_def partial_part_def)

lemma parts_of: "16 dvd length xs \<Longrightarrow> length ys < 16 \<Longrightarrow> whole_part (xs @ ys) = xs \<and> partial_part (xs @ ys) = ys"
  by (auto simp: whole_part_def partial_part_def dvd_def mod_mult_self2)

lemma write_chunks_parts:
  "ae_buffer e = [] \<Longrightarrow> write_chunks enc buf e = (out, e') \<Longrightarrow>
    out = fst (decrypt_chunks enc (ae_cipher e) (whole_part buf)) \<and> ae_cipher e' = snd (decrypt_chunks enc (ae_cipher e) (whole_part buf))
    \<and> ae_buffer e' = partial_part buf \<and> ae_finished e' = ae_finished e"
proof (induction "length buf" arbitrary: buf e out e' rule: less_induct)
  case less
  show ?case
  proof (cases "length buf < 16")
    case True
    then show ?thesis
      using less.prems by (subst (asm) write_chunks.simps) (auto simp: whole_part_def partial_part_def decrypt_chunks.simps aes_lengths)
  next
    case False
    obtain out1 e1 where w: "write_block enc (take 16 buf) e = (out1, e1)" by (cases "write_block enc (take 16 buf) e")
    obtain rest where r: "write_chunks enc (drop 16 buf) e1 = (rest, e')" "out = out1 @ rest"
      using less.prems(2) w False by (subst (asm) write_chunks.simps) (auto split: prod.splits)
    have e1: "enc (ae_cipher e) (take 16 buf) = (out1, ae_cipher e1)" "ae_buffer e1 = []" "ae_finished e1 = ae_finished e"
      using w less.prems(1) by (auto simp: write_block_def split: prod.splits)
    have IH: "rest = fst (decrypt_chunks enc (ae_cipher e1) (whole_part (drop 16 buf)))
      \<and> ae_cipher e' = snd (decrypt_chunks enc (ae_cipher e1) (whole_part (drop 16 buf)))
      \<and> ae_buffer e' = partial_part (drop 16 buf) \<and> ae_finished e' = ae_finished e1"
      by (rule less.hyps [OF _ e1(2) r(1)]) (use False in simp)
    have "whole_part buf = take 16 buf @ whole_part (drop 16 buf)" "partial_part buf = partial_part (drop 16 buf)"
      using parts_of [of "take 16 buf @ whole_part (drop 16 buf)" "partial_part (drop 16 buf)"] parts [of "drop 16 buf"] False
      by simp_all
    moreover have "decrypt_chunks enc (ae_cipher e) (take 16 buf @ ys)
        = (out1 @ fst (decrypt_chunks enc (ae_cipher e1) ys), snd (decrypt_chunks enc (ae_cipher e1) ys))" for ys
      using False e1(1) by (subst decrypt_chunks.simps) (simp add: aes_lengths split: prod.split)
    ultimately show ?thesis using IH r(2) e1(3) by simp
  qed
qed

lemma aes_write_parts:
  assumes "\<not> ae_finished e" "length (ae_buffer e) < 16" "buf \<noteq> []" "aes_write enc buf e = ((n, out), e')"
  shows "n = length buf \<and> \<not> ae_finished e' \<and> ae_buffer e' = partial_part (ae_buffer e @ buf)
    \<and> out = fst (decrypt_chunks enc (ae_cipher e) (whole_part (ae_buffer e @ buf)))
    \<and> ae_cipher e' = snd (decrypt_chunks enc (ae_cipher e) (whole_part (ae_buffer e @ buf)))"
proof -
  consider "ae_buffer e = []" | "ae_buffer e \<noteq> []" "length buf + length (ae_buffer e) < 16"
    | "ae_buffer e \<noteq> []" "16 \<le> length buf + length (ae_buffer e)" by linarith
  then show ?thesis
  proof cases
    case 1
    then show ?thesis using assms write_chunks_parts [OF 1] by (auto simp: aes_write_def split: prod.splits)
  next
    case 2
    then have "whole_part (ae_buffer e @ buf) = []" "partial_part (ae_buffer e @ buf) = ae_buffer e @ buf"
      by (simp_all add: whole_part_def partial_part_def)
    then show ?thesis using 2 assms by (auto simp: aes_write_def decrypt_chunks.simps aes_lengths)
  next
    case 3
    define b where "b = ae_buffer e @ take (16 - length (ae_buffer e)) buf"
    define rest where "rest = drop (16 - length (ae_buffer e)) buf"
    have b: "length b = 16" "ae_buffer e @ buf = b @ rest" using 3 assms(2) by (simp_all add: b_def rest_def)
    obtain out1 e1 where w: "write_block enc b e = (out1, e1)" by (cases "write_block enc b e")
    have e1: "enc (ae_cipher e) b = (out1, ae_cipher e1)" "ae_finished e1 = ae_finished e"
      using w by (auto simp: write_block_def split: prod.splits)
    obtain out2 where r: "write_chunks enc rest (e1\<lparr>ae_buffer := []\<rparr>) = (out2, e')" "out = out1 @ out2" "n = length buf"
      using assms 3 w unfolding b_def rest_def by (auto simp: aes_write_def Let_def split: prod.splits)
    have "whole_part (b @ rest) = b @ whole_part rest" "partial_part (b @ rest) = partial_part rest"
      using parts_of [of "b @ whole_part rest" "partial_part rest"] parts [of rest] b(1) by simp_all
    moreover have "decrypt_chunks enc (ae_cipher e) (b @ ys)
        = (out1 @ fst (decrypt_chunks enc (ae_cipher e1) ys), snd (decrypt_chunks enc (ae_cipher e1) ys))" for ys
      using b(1) e1(1) by (subst decrypt_chunks.simps) (simp add: aes_lengths split: prod.split)
    ultimately show ?thesis
      using write_chunks_parts [OF _ r(1)] r(2,3) e1(2) assms(1) by (simp add: b(2))
  qed
qed

text \<open>The data, filled up with zeros to whole blocks.\<close>

definition padded :: "bytes \<Rightarrow> bytes" where
  "padded xs = xs @ replicate ((16 - length xs mod 16) mod 16) 0"

lemma padded_whole: "16 dvd length (padded xs)"
proof -
  define r where "r = length xs mod 16"
  define q where "q = length xs div 16"
  have len: "length xs = 16 * q + r" "r < 16" by (simp_all add: q_def r_def)
  show ?thesis
  proof (cases "r = 0")
    case True
    then show ?thesis using len(1) by (simp add: padded_def)
  next
    case False
    then have "length (padded xs) = 16 * (q + 1)" using len by (simp add: padded_def)
    then show ?thesis by simp
  qed
qed

lemma written_pieces:
  assumes "[] \<notin> set ps"
  shows "\<not> ae_finished e \<Longrightarrow> length (ae_buffer e) < 16 \<Longrightarrow>
    fst (write_all_pieces enc ps e) = fst (decrypt_chunks enc (ae_cipher e) (padded (ae_buffer e @ concat ps)))"
  using assms
proof (induction ps arbitrary: e)
  case Nil
  show ?case
  proof (cases "ae_buffer e = []")
    case True
    then show ?thesis by (simp add: aes_write_def aes_flush_def padded_def decrypt_chunks.simps aes_lengths)
  next
    case False
    then have "padded (ae_buffer e) = ae_buffer e @ replicate (16 - length (ae_buffer e)) 0" "length (padded (ae_buffer e)) = 16"
      using Nil.prems(2) by (simp_all add: padded_def)
    then show ?thesis
      using False Nil.prems by (simp add: aes_write_def aes_flush_def write_block_def decrypt_chunks.simps aes_lengths split: prod.split)
  qed
next
  case (Cons p ps)
  have p: "p \<noteq> []" "[] \<notin> set ps" using Cons.prems(3) by auto
  obtain n out e' where w: "aes_write enc p e = ((n, out), e')" by (metis surj_pair)
  obtain rest e'' where r: "write_all_pieces enc ps e' = (rest, e'')" by (metis surj_pair)
  note a = aes_write_parts [OF Cons.prems(1,2) p(1) w]
  have "length (partial_part (ae_buffer e @ p)) < 16" by (rule parts(3))
  then have IH: "fst (write_all_pieces enc ps e') = fst (decrypt_chunks enc (ae_cipher e') (padded (ae_buffer e' @ concat ps)))"
    using Cons.IH [of e'] a p(2) by simp
  have "padded ((ae_buffer e @ p) @ concat ps) = whole_part (ae_buffer e @ p) @ padded (ae_buffer e' @ concat ps)"
  proof -
    have "(ae_buffer e @ p) @ concat ps = whole_part (ae_buffer e @ p) @ ae_buffer e' @ concat ps"
      using arg_cong [OF parts(1) [of "ae_buffer e @ p"], of "\<lambda>xs. xs @ concat ps"] a by simp
    moreover have "padded (xs @ ys) = xs @ padded ys" if "16 dvd length xs" for xs ys
      using that by (auto simp: padded_def dvd_def)
    ultimately show ?thesis using parts(2) by metis
  qed
  then show ?case using IH a w r by (simp add: chunks_append [OF parts(2)])
qed

lemma cbc_round_trip:
  assumes "inverse_block (eblock key) (block key)"
  shows "16 dvd length xs \<Longrightarrow> length iv = 16 \<Longrightarrow>
    cbc (block key) iv (fst (decrypt_chunks (cbc_encrypt_block eblock) \<lparr>cbc_key = key, cbc_iv = iv\<rparr> xs)) = xs
    \<and> length (fst (decrypt_chunks (cbc_encrypt_block eblock) \<lparr>cbc_key = key, cbc_iv = iv\<rparr> xs)) = length xs"
proof (induction xs arbitrary: iv rule: whole_blocks_induct)
  case Nil
  then show ?case by (simp add: decrypt_chunks.simps aes_lengths)
next
  case (block b xs)
  obtain c st' where e: "cbc_encrypt_block eblock \<lparr>cbc_key = key, cbc_iv = iv\<rparr> b = (c, st')"
    by (cases "cbc_encrypt_block eblock \<lparr>cbc_key = key, cbc_iv = iv\<rparr> b")
  note d = cbc_decrypts [where eblock = eblock and key = key and block = block and iv = iv, OF assms block.hyps(1) block.prems e]
  show ?case
    using d block.IH [of c] block.hyps(1) e by (simp add: chunks_block)
qed

text \<open>
  C7: what the AES encoder writes, the decoder reads back.  However the data is cut into writes, however
  the cipher text then arrives and whatever buffers the caller reads with, small or large, the decoder
  delivers the data, followed by the zeros that fill its last block, and never fails.  The theorem is about
  AWS-LC's backend; the others answer as it does.
\<close>

theorem aes_streams_round_trip:
  assumes "inverse_block (eblock key) (block key)" "length iv = 16" "[] \<notin> set ps"
    and "plain_source s" "source_data s = fst (write_all_pieces (cbc_encrypt_block eblock) ps (aes_encoder_start \<lparr>cbc_key = key, cbc_iv = iv\<rparr>))"
    and "\<forall>n\<in>set ns. 0 < n" "length (concat ps) + 16 < length ns"
  shows "\<exists>pieces d. drain (aes_read (awslc_backend block) source_read) ns (aes_decoder_start \<lparr>cbc_key = key, cbc_iv = iv\<rparr> s) = (Inr pieces, d)
    \<and> concat pieces = concat ps @ replicate ((16 - length (concat ps) mod 16) mod 16) 0"
proof -
  let ?st = "\<lparr>cbc_key = key, cbc_iv = iv\<rparr>" and ?d = "aes_decoder_start \<lparr>cbc_key = key, cbc_iv = iv\<rparr> s"
  have src: "source_data s = fst (decrypt_chunks (cbc_encrypt_block eblock) ?st (padded (concat ps)))"
    using written_pieces [OF assms(3), of "aes_encoder_start ?st"] assms(5) by (simp add: aes_encoder_start_def)
  note rt = cbc_round_trip [where eblock = eblock and key = key and block = block, OF assms(1) padded_whole assms(2), of "concat ps", folded src]
  have content: "aes_content (cbc_plain block) source_data ?d = padded (concat ps)"
    using rt by (simp add: aes_content_def aes_decoder_start_def cbc_plain_def)
  have "cbc_ready block ?st" using assms(1,2) by (simp add: cbc_ready_def sixteen_def inverse_block_def)
  moreover have "16 dvd length (source_data s)" using rt padded_whole [of "concat ps"] by simp
  ultimately have good: "aes_good (cbc_ready block) plain_source source_data ?d"
    using assms(4) by (simp add: aes_good_def aes_decoder_start_def)
  have "length (padded (concat ps)) < length ns" using assms(7) by (simp add: padded_def)
  then show ?thesis
    using byte_source.drain_all [OF awslc.aes_source [OF plain.byte_source_axioms] good assms(6)] content
    by (auto simp: padded_def)
qed

text \<open>At a toy cipher: four bytes in two writes, and the cipher text arriving in two pieces.\<close>

definition toy_text :: bytes where
  "toy_text = fst (write_all_pieces (cbc_encrypt_block (\<lambda>key. map (\<lambda>x. x + 1))) [[1, 2, 3], [4]]
     (aes_encoder_start \<lparr>cbc_key = [], cbc_iv = replicate 16 7\<rparr>))"

theorem aes_streams_round_trip_witness:
  "\<exists>pieces d. drain (aes_read (awslc_backend (\<lambda>key. map (\<lambda>x. x - 1))) source_read) (replicate 25 3)
      (aes_decoder_start \<lparr>cbc_key = [], cbc_iv = replicate 16 7\<rparr> [Got (take 5 toy_text), Got (drop 5 toy_text)]) = (Inr pieces, d)
    \<and> concat pieces = [1, 2, 3, 4] @ replicate 12 0"
proof -
  have "length toy_text = 16" by code_simp
  then have "plain_source [Got (take 5 toy_text), Got (drop 5 toy_text)]" by auto
  moreover have "source_data [Got (take 5 toy_text), Got (drop 5 toy_text)]
      = fst (write_all_pieces (cbc_encrypt_block (\<lambda>key. map (\<lambda>x. x + 1))) [[1, 2, 3], [4]]
          (aes_encoder_start \<lparr>cbc_key = [], cbc_iv = replicate 16 7\<rparr>))"
    unfolding toy_text_def [symmetric] by simp
  moreover have "inverse_block ((\<lambda>key. map (\<lambda>x. x + 1)) []) ((\<lambda>key. map (\<lambda>x. x - 1)) [])"
    by (simp add: inverse_block_def comp_def)
  ultimately show ?thesis
    using aes_streams_round_trip [where eblock = "\<lambda>key. map (\<lambda>x. x + 1)" and block = "\<lambda>key. map (\<lambda>x. x - 1)" and key = "[]"
        and iv = "replicate 16 7" and ps = "[[1, 2, 3], [4]]" and ns = "replicate 25 3" and s = "[Got (take 5 toy_text), Got (drop 5 toy_text)]"]
    by simp
qed

text \<open>
  A read that fails after some cipher text arrived: with a buffer of a block or more, what arrived is
  lost, with a smaller one it is kept.
\<close>

lemma failed_read_loses_cipher_text:
  "aes_read dec source_read 16 (aes_decoder_start c (Got [1, 2, 3, 4, 5] # Failed e # s)) = (Inl e, aes_decoder_start c s)"
  "aes_read dec source_read 15 (aes_decoder_start c (Got [1, 2, 3, 4, 5] # Failed e # s))
     = (Inl e, (aes_decoder_start c s)\<lparr>ad_carry := [1, 2, 3, 4, 5]\<rparr>)"
  by (simp_all add: aes_read_def fill_one_block_def aes_decoder_start_def aes_lengths gather.simps)

end
