(* ===== verification/Frame_Codec.thy ===== *)
theory Frame_Codec
  imports Io_Streams Byte_IO
begin

text \<open>
  The skippable frames around LZ4 and Brotli data, \<open>src/codec/lz4.rs\<close> and \<open>src/codec/brotli.rs\<close>.  Both
  files have the same \<open>InnerReader\<close>, which shows a codec one frame at a time; they differ in the header
  of a frame.  The codecs are of other crates: a decoder is a reader over an \<open>InnerReader\<close>, an encoder
  the bytes it makes of what it was fed.
\<close>

definition SKIPPABLE_FRAME_MAGIC :: u32 where "SKIPPABLE_FRAME_MAGIC = 0x184D2A50"
definition BROTLI_MAGIC :: u16 where "BROTLI_MAGIC = 0x5242"
definition HINT_UNIT_SIZE :: nat where "HINT_UNIT_SIZE = 65536"

section \<open>Reading integers from a stream\<close>

function fill_exact :: "'r io_reader \<Rightarrow> nat \<Rightarrow> bytes \<Rightarrow> 'r \<Rightarrow> (io_error + bytes) \<times> 'r" where
  "fill_exact rd n held r =
     (if n \<le> length held then (Inr held, r)
      else case rd (n - length held) r of
             (Inl e, r') \<Rightarrow> (Inl e, r')
           | (Inr bs, r') \<Rightarrow> if bs = [] then (Inl (Io_Error UnexpectedEof []), r') else fill_exact rd n (held @ bs) r')"
  by pat_completeness auto
termination by (relation "measure (\<lambda>(rd, n, held, r). n - length held)") (auto simp: neq_Nil_conv)

declare fill_exact.simps [simp del]

definition stream_u32 :: "'r io_reader \<Rightarrow> 'r \<Rightarrow> (io_error + u32) \<times> 'r" where
  "stream_u32 rd r = map_prod (map_sum id from_le_bytes) id (fill_exact rd 4 [] r)"

definition stream_u16 :: "'r io_reader \<Rightarrow> 'r \<Rightarrow> (io_error + u16) \<times> 'r" where
  "stream_u16 rd r = map_prod (map_sum id from_le_bytes) id (fill_exact rd 2 [] r)"

section \<open>One frame\<close>

datatype 'r inner_reader =
    Empty_Reader
  | Standard 'r (std_header: bytes) (std_header_finished: bool)
  | Skippable 'r (skp_remaining: u32) (skp_finished: bool)

fun inner_read :: "'r io_reader \<Rightarrow> 'r inner_reader io_reader" where
  "inner_read rd n Empty_Reader = (Inr [], Empty_Reader)"
| "inner_read rd n (Standard r header finished) =
     (if \<not> finished \<and> take n header \<noteq> [] then (Inr (take n header), Standard r (drop n header) finished)
      else case rd n r of (x, r') \<Rightarrow> (x, Standard r' header True))"
| "inner_read rd n (Skippable r remaining finished) =
     (if finished \<or> remaining = 0 then (Inr [], Skippable r remaining finished)
      else case rd (min (unat remaining) n) r of
             (Inl e, r') \<Rightarrow> (Inl e, Skippable r' remaining finished)
           | (Inr bs, r') \<Rightarrow>
               if bs = [] then (Inr [], Skippable r' remaining True)
               else let remaining' = remaining - of_nat (length bs)
                    in (Inr bs, Skippable r' remaining' (remaining' = 0)))"

fun is_eof :: "io_error \<Rightarrow> bool" where
  "is_eof (Io_Error k msg) \<longleftrightarrow> k = UnexpectedEof"

fun lz4_next_frame_header :: "'r io_reader \<Rightarrow> 'r inner_reader \<Rightarrow> (io_error + bool) \<times> 'r inner_reader" where
  "lz4_next_frame_header rd Empty_Reader = (Inr False, Empty_Reader)"
| "lz4_next_frame_header rd (Standard r header finished) = (Inr False, Standard r header finished)"
| "lz4_next_frame_header rd (Skippable r remaining finished) =
     (if \<not> finished then (Inr False, Skippable r remaining finished)
      else case stream_u32 rd r of
             (Inl e, r) \<Rightarrow> (if is_eof e then Inr False else Inl e, Skippable r remaining finished)
           | (Inr magic, r) \<Rightarrow>
               if magic \<noteq> SKIPPABLE_FRAME_MAGIC then (Inr False, Skippable r remaining finished)
               else case stream_u32 rd r of
                      (Inl e, r) \<Rightarrow> (Inl e, Skippable r remaining finished)
                    | (Inr skippable_size, r) \<Rightarrow>
                        if skippable_size \<noteq> 4 then (Inr False, Skippable r remaining finished)
                        else case stream_u32 rd r of
                               (Inl e, r) \<Rightarrow> (Inl e, Skippable r remaining finished)
                             | (Inr compressed_size, r) \<Rightarrow> (Inr True, Skippable r compressed_size False))"

fun brotli_next_frame_header :: "'r io_reader \<Rightarrow> 'r inner_reader \<Rightarrow> (io_error + bool) \<times> 'r inner_reader" where
  "brotli_next_frame_header rd Empty_Reader = (Inr False, Empty_Reader)"
| "brotli_next_frame_header rd (Standard r header finished) = (Inr False, Standard r header finished)"
| "brotli_next_frame_header rd (Skippable r remaining finished) =
     (if \<not> finished then (Inr False, Skippable r remaining finished)
      else case stream_u32 rd r of
             (Inl e, r) \<Rightarrow> (if is_eof e then Inr False else Inl e, Skippable r remaining finished)
           | (Inr magic, r) \<Rightarrow>
               if magic \<noteq> SKIPPABLE_FRAME_MAGIC then (Inr False, Skippable r remaining finished)
               else case stream_u32 rd r of
                      (Inl e, r) \<Rightarrow> (Inl e, Skippable r remaining finished)
                    | (Inr skippable_size, r) \<Rightarrow>
                        if skippable_size \<noteq> 8 then (Inr False, Skippable r remaining finished)
                        else case stream_u32 rd r of
                               (Inl e, r) \<Rightarrow> (Inl e, Skippable r remaining finished)
                             | (Inr compressed_size, r) \<Rightarrow>
                                 (case stream_u16 rd r of
                                    (Inl e, r) \<Rightarrow> (Inl e, Skippable r remaining finished)
                                  | (Inr brotli_magic, r) \<Rightarrow>
                                      if brotli_magic \<noteq> BROTLI_MAGIC then (Inr False, Skippable r remaining finished)
                                      else case stream_u16 rd r of
                                             (Inl e, r) \<Rightarrow> (Inl e, Skippable r remaining finished)
                                           | (Inr hint, r) \<Rightarrow> (Inr True, Skippable r compressed_size False)))"

section \<open>The decoders\<close>

text \<open>
  A decoder is \<open>None\<close> after its last frame.  When the codec delivers nothing, the next frame's header is
  read and a fresh codec takes over.
\<close>

definition frames_read ::
  "('r inner_reader \<Rightarrow> (io_error + bool) \<times> 'r inner_reader) \<Rightarrow> ('d \<times> 'r inner_reader) io_reader \<Rightarrow> 'd
    \<Rightarrow> ('d \<times> 'r inner_reader) option io_reader" where
  "frames_read next_header dec_read fresh n st =
     (case st of
        None \<Rightarrow> (Inr [], None)
      | Some inner \<Rightarrow>
          (case dec_read n inner of
             (Inr [], (d, ir)) \<Rightarrow>
               (case next_header ir of
                  (Inl e, ir') \<Rightarrow> (Inl e, Some (d, ir'))
                | (Inr True, ir') \<Rightarrow> (case dec_read n (fresh, ir') of (x, inner') \<Rightarrow> (x, Some inner'))
                | (Inr False, ir') \<Rightarrow> (Inr [], None))
           | (x, inner') \<Rightarrow> (x, Some inner')))"

definition lz4_read :: "'r io_reader \<Rightarrow> ('d \<times> 'r inner_reader) io_reader \<Rightarrow> 'd \<Rightarrow> ('d \<times> 'r inner_reader) option io_reader" where
  "lz4_read rd = frames_read (lz4_next_frame_header rd)"

definition brotli_read :: "'r io_reader \<Rightarrow> ('d \<times> 'r inner_reader) io_reader \<Rightarrow> 'd \<Rightarrow> ('d \<times> 'r inner_reader) option io_reader" where
  "brotli_read rd = frames_read (brotli_next_frame_header rd)"

text \<open>The first header is read with one call, which may return less than it was asked for.\<close>

definition lz4_new :: "'r io_reader \<Rightarrow> 'd \<Rightarrow> 'r \<Rightarrow> ('d \<times> 'r inner_reader) option result" where
  "lz4_new rd fresh input =
     (case rd 12 input of
        (Inl e, r) \<Rightarrow> Inl (from_io e)
      | (Inr header, r) \<Rightarrow>
          if length header < 4 then Inl (Other ''Input too short'')
          else if from_le_bytes (take 4 header) = SKIPPABLE_FRAME_MAGIC \<and> 12 \<le> length header
          then if from_le_bytes (take 4 (drop 4 header)) \<noteq> (4 :: u32)
               then Inl (Other ''Invalid lz4 skippable frame size'')
               else Inr (Some (fresh, Skippable r (from_le_bytes (take 4 (drop 8 header))) False))
          else Inr (Some (fresh, Standard r header False)))"

definition brotli_new :: "'r io_reader \<Rightarrow> 'd \<Rightarrow> 'r \<Rightarrow> ('d \<times> 'r inner_reader) option result" where
  "brotli_new rd fresh input =
     (case rd 16 input of
        (Inl e, r) \<Rightarrow> Inl (from_io e)
      | (Inr header, r) \<Rightarrow>
          if length header < 4 then Inl (Other ''Input too short'')
          else if from_le_bytes (take 4 header) = SKIPPABLE_FRAME_MAGIC \<and> 16 \<le> length header
          then if from_le_bytes (take 4 (drop 4 header)) \<noteq> (8 :: u32)
               then Inl (Other ''Invalid brotli skippable frame size'')
               else if from_le_bytes (take 2 (drop 12 header)) \<noteq> BROTLI_MAGIC
               then Inl (Other ''Invalid brotli magic value'')
               else Inr (Some (fresh, Skippable r (from_le_bytes (take 4 (drop 8 header))) False))
          else Inr (Some (fresh, Standard r header False)))"

section \<open>The encoders\<close>

text \<open>\<open>compress\<close> is what the codec makes of the data of a frame.\<close>

definition lz4_frame :: "(bytes \<Rightarrow> bytes) \<Rightarrow> bytes \<Rightarrow> bytes" where
  "lz4_frame compress xs =
     (if xs = [] then []
      else let c = compress xs
           in if c = [] then []
              else write_u32 SKIPPABLE_FRAME_MAGIC @ write_u32 4 @ write_u32 (of_nat (length c)) @ c)"

record lz4_framed =
  lf_frame_size :: nat
  lf_data :: bytes

definition lz4_framed_new :: "nat \<Rightarrow> lz4_framed" where
  "lz4_framed_new frame_size = \<lparr>lf_frame_size = frame_size, lf_data = []\<rparr>"

text \<open>The loop of \<open>write\<close>.  The constructor only makes a framed writer when \<open>frame_size\<close> is not zero.\<close>

function lz4_write :: "(bytes \<Rightarrow> bytes) \<Rightarrow> bytes \<Rightarrow> lz4_framed \<Rightarrow> bytes \<times> lz4_framed" where
  "lz4_write compress buf w =
     (if buf = [] \<or> lf_frame_size w = 0 then ([], w)
      else
        let n = min (length buf) (lf_frame_size w - length (lf_data w));
            w' = w\<lparr>lf_data := lf_data w @ take n buf\<rparr>
        in if lf_frame_size w \<le> length (lf_data w')
           then (case lz4_write compress (drop n buf) (w'\<lparr>lf_data := []\<rparr>) of
                   (out, w'') \<Rightarrow> (lz4_frame compress (lf_data w') @ out, w''))
           else lz4_write compress (drop n buf) w')"
  by pat_completeness auto
termination
  by (relation "measures [\<lambda>(compress, buf, w). length buf, \<lambda>(compress, buf, w). length (lf_data w)]") (auto simp: min_def)

declare lz4_write.simps [simp del]

definition lz4_flush :: "(bytes \<Rightarrow> bytes) \<Rightarrow> lz4_framed \<Rightarrow> bytes \<times> lz4_framed" where
  "lz4_flush compress w = (lz4_frame compress (lf_data w), w\<lparr>lf_data := []\<rparr>)"

definition lz4_finish :: "(bytes \<Rightarrow> bytes) \<Rightarrow> lz4_framed \<Rightarrow> bytes" where
  "lz4_finish compress w = lz4_frame compress (lf_data w)"

definition brotli_frame :: "bytes \<Rightarrow> nat \<Rightarrow> bytes" where
  "brotli_frame c uncompressed_bytes =
     (if c = [] then []
      else let hint_value = (uncompressed_bytes + HINT_UNIT_SIZE - 1) div HINT_UNIT_SIZE
           in write_u32 SKIPPABLE_FRAME_MAGIC @ write_u32 8 @ write_u32 (of_nat (length c)) @ write_u16 BROTLI_MAGIC
              @ write_u16 (if 65535 < hint_value then 65535 else of_nat hint_value) @ c)"

record brotli_framed =
  bf_frame_size :: nat
  bf_fed :: bytes
  bf_in_frame :: nat

definition brotli_framed_new :: "nat \<Rightarrow> brotli_framed" where
  "brotli_framed_new frame_size = \<lparr>bf_frame_size = frame_size, bf_fed = [], bf_in_frame = 0\<rparr>"

text \<open>\<open>takes\<close> is how much of a chunk the compressor takes, given what it was fed before.\<close>

function brotli_write ::
  "(bytes \<Rightarrow> bytes) \<Rightarrow> (bytes \<Rightarrow> bytes \<Rightarrow> nat) \<Rightarrow> bytes \<Rightarrow> brotli_framed \<Rightarrow> (io_error + bytes) \<times> brotli_framed" where
  "brotli_write compress takes buf w =
     (if buf = [] then (Inr [], w)
      else
        let chunk = take (bf_frame_size w - bf_in_frame w) buf;
            n = min (takes (bf_fed w) chunk) (length chunk)
        in if n = 0
           then (if chunk = [] then (Inr [], w) else (Inl (Io_Error WriteZero ''failed to write any bytes''), w))
           else
             let w' = w\<lparr>bf_fed := bf_fed w @ take n chunk, bf_in_frame := bf_in_frame w + n\<rparr>
             in if bf_frame_size w \<le> bf_in_frame w'
                then (case brotli_write compress takes (drop n buf) (w'\<lparr>bf_fed := [], bf_in_frame := 0\<rparr>) of
                        (Inl e, w'') \<Rightarrow> (Inl e, w'')
                      | (Inr out, w'') \<Rightarrow> (Inr (brotli_frame (compress (bf_fed w')) (bf_in_frame w') @ out), w''))
                else brotli_write compress takes (drop n buf) w')"
  by pat_completeness auto
termination by (relation "measure (\<lambda>(compress, takes, buf, w). length buf)") auto

declare brotli_write.simps [simp del]

definition brotli_flush :: "(bytes \<Rightarrow> bytes) \<Rightarrow> brotli_framed \<Rightarrow> bytes \<times> brotli_framed" where
  "brotli_flush compress w =
     (let c = compress (bf_fed w)
      in if c \<noteq> [] then (brotli_frame c (bf_in_frame w), w\<lparr>bf_fed := [], bf_in_frame := 0\<rparr>)
         else ([], w\<lparr>bf_fed := []\<rparr>))"

section \<open>Reading a frame's header\<close>

context byte_source begin

lemma fills_exactly:
  "good r \<Longrightarrow> length held \<le> n \<Longrightarrow> n \<le> length held + length (content r) \<Longrightarrow>
    \<exists>r'. fill_exact rd n held r = (Inr (held @ take (n - length held) (content r)), r') \<and> good r'
      \<and> content r' = drop (n - length held) (content r)"
proof (induction "n - length held" arbitrary: held r rule: less_induct)
  case less
  show ?case
  proof (cases "n = length held")
    case True
    then show ?thesis using less.prems by (simp add: fill_exact.simps)
  next
    case False
    then have m: "0 < n - length held" using less.prems(2) by simp
    obtain bs r1 where r: "rd (n - length held) r = (Inr bs, r1)" "good r1" "length bs \<le> n - length held"
      "content r = bs @ content r1" "bs = [] \<longleftrightarrow> content r = []"
      by (rule read_cases [OF less.prems(1) m])
    have "bs \<noteq> []" using r(5) less.prems(3) m by auto
    then have "0 < length bs" by simp
    then have "n - length (held @ bs) < n - length held" "length (held @ bs) \<le> n" "n \<le> length (held @ bs) + length (content r1)"
      using r(3) less.prems(3) m unfolding r(4) length_append by linarith+
    from less.hyps [OF this(1) r(2) this(2,3)] show ?thesis
      using r False \<open>bs \<noteq> []\<close> m by (subst fill_exact.simps) (auto simp: diff_diff_left)
  qed
qed

lemma fill_ends:
  assumes "good r" "content r = []" "length held < n"
  shows "\<exists>r'. fill_exact rd n held r = (Inl (Io_Error UnexpectedEof []), r')"
proof -
  obtain bs r1 where "rd (n - length held) r = (Inr bs, r1)" "content r = bs @ content r1"
    using assms read_law [of r "n - length held"] by auto
  then show ?thesis using assms by (simp add: fill_exact.simps)
qed

lemma reads_u32:
  assumes "good r" "content r = write_u32 v @ tail"
  shows "\<exists>r'. stream_u32 rd r = (Inr v, r') \<and> good r' \<and> content r' = tail"
proof -
  have "length (write_u32 v) = 4" by (simp add: write_u32_def)
  then show ?thesis
    using fills_exactly [of r "[]" 4] assms by (auto simp: stream_u32_def write_u32_def from_to_le_bytes_full)
qed

lemma reads_u16:
  assumes "good r" "content r = write_u16 v @ tail"
  shows "\<exists>r'. stream_u16 rd r = (Inr v, r') \<and> good r' \<and> content r' = tail"
proof -
  have "length (write_u16 v) = 2" by (simp add: write_u16_def)
  then show ?thesis
    using fills_exactly [of r "[]" 2] assms by (auto simp: stream_u16_def write_u16_def from_to_le_bytes_full)
qed

text \<open>The header of the next frame, and the end of the stream.\<close>

lemma lz4_header_read:
  assumes "good r" "content r = write_u32 SKIPPABLE_FRAME_MAGIC @ write_u32 4 @ write_u32 n @ tail"
  shows "\<exists>r'. lz4_next_frame_header rd (Skippable r m True) = (Inr True, Skippable r' n False) \<and> good r' \<and> content r' = tail"
proof -
  obtain r1 where 1: "stream_u32 rd r = (Inr SKIPPABLE_FRAME_MAGIC, r1)" "good r1" "content r1 = write_u32 4 @ write_u32 n @ tail"
    using reads_u32 [OF assms] by blast
  obtain r2 where 2: "stream_u32 rd r1 = (Inr 4, r2)" "good r2" "content r2 = write_u32 n @ tail" using reads_u32 [OF 1(2,3)] by blast
  obtain r3 where 3: "stream_u32 rd r2 = (Inr n, r3)" "good r3" "content r3 = tail" using reads_u32 [OF 2(2,3)] by blast
  show ?thesis by (simp add: 1(1) 2(1) 3)
qed

lemma brotli_header_read:
  assumes "good r" "content r = write_u32 SKIPPABLE_FRAME_MAGIC @ write_u32 8 @ write_u32 n @ write_u16 BROTLI_MAGIC @ write_u16 hint @ tail"
  shows "\<exists>r'. brotli_next_frame_header rd (Skippable r m True) = (Inr True, Skippable r' n False) \<and> good r' \<and> content r' = tail"
proof -
  obtain r1 where 1: "stream_u32 rd r = (Inr SKIPPABLE_FRAME_MAGIC, r1)" "good r1"
    "content r1 = write_u32 8 @ write_u32 n @ write_u16 BROTLI_MAGIC @ write_u16 hint @ tail"
    using reads_u32 [OF assms] by blast
  obtain r2 where 2: "stream_u32 rd r1 = (Inr 8, r2)" "good r2" "content r2 = write_u32 n @ write_u16 BROTLI_MAGIC @ write_u16 hint @ tail"
    using reads_u32 [OF 1(2,3)] by blast
  obtain r3 where 3: "stream_u32 rd r2 = (Inr n, r3)" "good r3" "content r3 = write_u16 BROTLI_MAGIC @ write_u16 hint @ tail"
    using reads_u32 [OF 2(2,3)] by blast
  obtain r4 where 4: "stream_u16 rd r3 = (Inr BROTLI_MAGIC, r4)" "good r4" "content r4 = write_u16 hint @ tail" using reads_u16 [OF 3(2,3)] by blast
  obtain r5 where 5: "stream_u16 rd r4 = (Inr hint, r5)" "good r5" "content r5 = tail" using reads_u16 [OF 4(2,3)] by blast
  show ?thesis by (simp add: 1(1) 2(1) 3(1) 4(1) 5)
qed

lemma no_more_frames:
  assumes "good r" "content r = []"
  shows "\<exists>ir. lz4_next_frame_header rd (Skippable r m True) = (Inr False, ir)" "\<exists>ir. brotli_next_frame_header rd (Skippable r m True) = (Inr False, ir)"
proof -
  obtain r' where "stream_u32 rd r = (Inl (Io_Error UnexpectedEof []), r')" using fill_ends [OF assms, of "[]" 4] by (auto simp: stream_u32_def)
  then show "\<exists>ir. lz4_next_frame_header rd (Skippable r m True) = (Inr False, ir)" "\<exists>ir. brotli_next_frame_header rd (Skippable r m True) = (Inr False, ir)"
    by simp_all
qed

end

section \<open>A stream of frames\<close>

text \<open>
  What a codec promises: started on a frame it delivers what the frame expands to, reads no further than
  the frame, and when it delivers nothing more it has read all of it.  \<open>busy xs tail st\<close> says that \<open>xs\<close> is
  still to come and \<open>tail\<close> follows the frame.
\<close>

definition frame_codec_law ::
  "('r \<Rightarrow> bool) \<Rightarrow> ('r \<Rightarrow> bytes) \<Rightarrow> ('d \<times> 'r inner_reader) io_reader \<Rightarrow> 'd \<Rightarrow> (bytes \<Rightarrow> bytes option)
    \<Rightarrow> (bytes \<Rightarrow> bytes \<Rightarrow> 'd \<times> 'r inner_reader \<Rightarrow> bool) \<Rightarrow> bool" where
  "frame_codec_law good content dec_read fresh expand busy \<longleftrightarrow>
     (\<forall>r c xs tail. good r \<longrightarrow> expand c = Some xs \<longrightarrow> content r = c @ tail \<longrightarrow> length c < 2 ^ 32 \<longrightarrow>
        busy xs tail (fresh, Skippable r (of_nat (length c)) False))
     \<and> (\<forall>xs tail st n. busy xs tail st \<longrightarrow> 0 < n \<longrightarrow> xs \<noteq> [] \<longrightarrow>
        (\<exists>bs ys st'. dec_read n st = (Inr bs, st') \<and> bs \<noteq> [] \<and> xs = bs @ ys \<and> busy ys tail st'))
     \<and> (\<forall>tail st n. busy [] tail st \<longrightarrow> 0 < n \<longrightarrow>
        (\<exists>d r. dec_read n st = (Inr [], (d, Skippable r 0 True)) \<and> good r \<and> content r = tail))"

text \<open>A reader that still delivers a certain content, whatever the buffers.\<close>

definition delivers_law :: "'s io_reader \<Rightarrow> ('s \<Rightarrow> bytes \<Rightarrow> bool) \<Rightarrow> bool" where
  "delivers_law rd D \<longleftrightarrow>
     (\<forall>s xs n. D s xs \<longrightarrow> 0 < n \<longrightarrow> (\<exists>bs ys s'. rd n s = (Inr bs, s') \<and> xs = bs @ ys \<and> D s' ys \<and> (bs = [] \<longrightarrow> xs = [])))"

lemma delivers_all:
  assumes "delivers_law rd D"
  shows "D s xs \<Longrightarrow> \<forall>n\<in>set ns. 0 < n \<Longrightarrow> length xs < length ns \<Longrightarrow> \<exists>pieces s'. drain rd ns s = (Inr pieces, s') \<and> concat pieces = xs"
proof (induction ns arbitrary: s xs)
  case (Cons n ns)
  have "0 < n" using Cons.prems(2) by simp
  then obtain bs ys s' where r: "rd n s = (Inr bs, s')" "xs = bs @ ys" "D s' ys" "bs = [] \<longrightarrow> xs = []"
    using assms Cons.prems(1) unfolding delivers_law_def by blast
  show ?case
  proof (cases "bs = []")
    case True
    then show ?thesis using r by simp
  next
    case False
    then have "length ys < length ns" using r(2) Cons.prems(3) by (cases bs) auto
    then obtain pieces s'' where "drain rd ns s' = (Inr pieces, s'')" "concat pieces = ys"
      using Cons.IH [OF r(3)] Cons.prems(2) by auto
    then show ?thesis using r False by simp
  qed
qed simp

definition frames_delivered ::
  "(bytes \<Rightarrow> bytes) \<Rightarrow> (bytes \<Rightarrow> bytes option) \<Rightarrow> (bytes \<Rightarrow> bytes \<Rightarrow> 'd \<times> 'r inner_reader \<Rightarrow> bool)
    \<Rightarrow> ('d \<times> 'r inner_reader) option \<Rightarrow> bytes \<Rightarrow> bool" where
  "frames_delivered head expand busy st xs \<longleftrightarrow>
     (case st of
        None \<Rightarrow> xs = []
      | Some inner \<Rightarrow> \<exists>ys cs. busy ys (concat (map (\<lambda>c. head c @ c) cs)) inner \<and> xs = ys @ concat (map (\<lambda>c. the (expand c)) cs)
          \<and> (\<forall>c\<in>set cs. length c < 2 ^ 32 \<and> (\<exists>y ys. expand c = Some (y # ys))))"

lemma frames_law:
  assumes "frame_codec_law good content dec_read fresh expand busy"
    and ends: "\<And>r. good r \<Longrightarrow> content r = [] \<Longrightarrow> \<exists>ir. next_header (Skippable r 0 True) = (Inr False, ir)"
    and goes_on: "\<And>r c tail. good r \<Longrightarrow> content r = head c @ tail \<Longrightarrow>
      \<exists>r'. next_header (Skippable r 0 True) = (Inr True, Skippable r' (of_nat (length c)) False) \<and> good r' \<and> content r' = tail"
  shows "delivers_law (frames_read next_header dec_read fresh) (frames_delivered head expand busy)"
proof (unfold delivers_law_def, intro allI impI)
  have start: "good r \<Longrightarrow> expand c = Some xs \<Longrightarrow> content r = c @ tail \<Longrightarrow> length c < 2 ^ 32 \<Longrightarrow>
      busy xs tail (fresh, Skippable r (of_nat (length c)) False)" for r c xs tail
    using assms(1) unfolding frame_codec_law_def by blast
  have step: "busy xs tail inner \<Longrightarrow> 0 < n \<Longrightarrow> xs \<noteq> [] \<Longrightarrow>
      \<exists>bs ys inner'. dec_read n inner = (Inr bs, inner') \<and> bs \<noteq> [] \<and> xs = bs @ ys \<and> busy ys tail inner'" for xs tail inner n
    using assms(1) unfolding frame_codec_law_def by blast
  have over: "busy [] tail inner \<Longrightarrow> 0 < n \<Longrightarrow>
      \<exists>d r. dec_read n inner = (Inr [], (d, Skippable r 0 True)) \<and> good r \<and> content r = tail" for tail inner n
    using assms(1) unfolding frame_codec_law_def by blast
  fix st xs and n :: nat
  assume D: "frames_delivered head expand busy st xs" and n: "0 < n"
  let ?goal = "\<exists>bs ys s'. frames_read next_header dec_read fresh n st = (Inr bs, s') \<and> xs = bs @ ys
    \<and> frames_delivered head expand busy s' ys \<and> (bs = [] \<longrightarrow> xs = [])"
  show ?goal
  proof (cases st)
    case None
    then show ?thesis using D by (simp add: frames_read_def frames_delivered_def)
  next
    case (Some inner)
    then obtain ys cs where b: "busy ys (concat (map (\<lambda>c. head c @ c) cs)) inner" "xs = ys @ concat (map (\<lambda>c. the (expand c)) cs)"
      "\<forall>c\<in>set cs. length c < 2 ^ 32 \<and> (\<exists>y ys. expand c = Some (y # ys))" using D by (auto simp: frames_delivered_def)
    show ?thesis
    proof (cases "ys = []")
      case False
      from step [OF b(1) n False] obtain bs zs inner' where r: "dec_read n inner = (Inr bs, inner')" "bs \<noteq> []" "ys = bs @ zs"
        "busy zs (concat (map (\<lambda>c. head c @ c) cs)) inner'" by blast
      have "frames_read next_header dec_read fresh n st = (Inr bs, Some inner')"
        using Some r(1,2) by (cases bs) (simp_all add: frames_read_def)
      moreover have "frames_delivered head expand busy (Some inner') (zs @ concat (map (\<lambda>c. the (expand c)) cs))"
        unfolding frames_delivered_def using r(4) b(3) by auto
      ultimately show ?thesis using b(2) r(2,3) by auto
    next
      case True
      with b(1) over [OF _ n] obtain d r where o: "dec_read n inner = (Inr [], (d, Skippable r 0 True))" "good r"
        "content r = concat (map (\<lambda>c. head c @ c) cs)" by blast
      show ?thesis
      proof (cases cs)
        case Nil
        then obtain ir where "next_header (Skippable r 0 True) = (Inr False, ir)" using ends o(2,3) by fastforce
        then show ?thesis using Some o(1) True b(2) Nil by (simp add: frames_read_def frames_delivered_def)
      next
        case (Cons c cs')
        then have "content r = head c @ (c @ concat (map (\<lambda>c. head c @ c) cs'))" using o(3) by simp
        from goes_on [OF o(2) this] obtain r' where h: "next_header (Skippable r 0 True) = (Inr True, Skippable r' (of_nat (length c)) False)"
          "good r'" "content r' = c @ concat (map (\<lambda>c. head c @ c) cs')" by blast
        obtain z zs where e: "expand c = Some (z # zs)" "length c < 2 ^ 32" using b(3) Cons by auto
        have "busy (z # zs) (concat (map (\<lambda>c. head c @ c) cs')) (fresh, Skippable r' (of_nat (length c)) False)"
          by (rule start [OF h(2) e(1) h(3) e(2)])
        from step [OF this n] obtain bs ws inner' where r: "dec_read n (fresh, Skippable r' (of_nat (length c)) False) = (Inr bs, inner')"
          "bs \<noteq> []" "z # zs = bs @ ws" "busy ws (concat (map (\<lambda>c. head c @ c) cs')) inner'" by blast
        have "frames_read next_header dec_read fresh n st = (Inr bs, Some inner')"
          using Some o(1) h(1) r(1) by (simp add: frames_read_def)
        moreover have "frames_delivered head expand busy (Some inner') (ws @ concat (map (\<lambda>c. the (expand c)) cs'))"
          unfolding frames_delivered_def using r(4) b(3) Cons by auto
        moreover have "xs = bs @ (ws @ concat (map (\<lambda>c. the (expand c)) cs'))" using b(2) True Cons e(1) r(3) by simp
        ultimately show ?thesis using r(2) by blast
      qed
    qed
  qed
qed

section \<open>The LZ4 frames round trip\<close>

text \<open>The data of the frames a writer makes: full ones, and what it still holds.\<close>

lemma lz4_write_frames:
  "0 < lf_frame_size w \<Longrightarrow> length (lf_data w) < lf_frame_size w \<Longrightarrow> lz4_write compress buf w = (out, w') \<Longrightarrow>
    \<exists>ds. out = concat (map (lz4_frame compress) ds) \<and> lf_data w @ buf = concat ds @ lf_data w' \<and> (\<forall>d\<in>set ds. d \<noteq> [] \<and> length d \<le> lf_frame_size w)
      \<and> length (lf_data w') < lf_frame_size w \<and> lf_frame_size w' = lf_frame_size w"
proof (induction "length buf" arbitrary: buf w out w' rule: less_induct)
  case less
  show ?case
  proof (cases "buf = []")
    case True
    then show ?thesis using less.prems by (auto simp: lz4_write.simps intro: exI [of _ "[]"])
  next
    case False
    define n where "n = min (length buf) (lf_frame_size w - length (lf_data w))"
    define v where "v = w\<lparr>lf_data := lf_data w @ take n buf\<rparr>"
    have n: "0 < n" "n \<le> length buf" "length (lf_data v) \<le> lf_frame_size w" "length (drop n buf) < length buf"
      using False less.prems(2) by (auto simp: n_def v_def)
    have fs: "lf_frame_size v = lf_frame_size w" by (simp add: v_def)
    show ?thesis
    proof (cases "lf_frame_size w \<le> length (lf_data v)")
      case True
      obtain rest where r: "lz4_write compress (drop n buf) (v\<lparr>lf_data := []\<rparr>) = (rest, w')" "out = lz4_frame compress (lf_data v) @ rest"
        using less.prems(3) False less.prems(1) True unfolding lz4_write.simps [of compress buf w] n_def [symmetric] Let_def v_def [symmetric]
        by (auto simp: fs split: prod.splits)
      have "0 < lf_frame_size (v\<lparr>lf_data := []\<rparr>)" "length (lf_data (v\<lparr>lf_data := []\<rparr>)) < lf_frame_size (v\<lparr>lf_data := []\<rparr>)"
        using less.prems(1) fs by simp_all
      from less.hyps [OF n(4) this r(1)] obtain ds where d: "rest = concat (map (lz4_frame compress) ds)"
        "drop n buf = concat ds @ lf_data w'" "\<forall>d\<in>set ds. d \<noteq> [] \<and> length d \<le> lf_frame_size w" "length (lf_data w') < lf_frame_size w"
        "lf_frame_size w' = lf_frame_size w" by (auto simp: fs)
      have "lf_data w @ buf = lf_data v @ drop n buf" by (simp add: v_def)
      then have "lf_data w @ buf = concat (lf_data v # ds) @ lf_data w'" using d(2) by simp
      moreover have "lf_data v \<noteq> []" using True less.prems(1) by auto
      ultimately show ?thesis using d n(3) r(2) by (intro exI [of _ "lf_data v # ds"]) auto
    next
      case more: False
      have r: "lz4_write compress (drop n buf) v = (out, w')"
        using less.prems(3) False less.prems(1) more unfolding lz4_write.simps [of compress buf w] n_def [symmetric] Let_def v_def [symmetric]
        by (simp add: fs)
      have "0 < lf_frame_size v" "length (lf_data v) < lf_frame_size v" using less.prems(1) fs more by simp_all
      from less.hyps [OF n(4) this r] show ?thesis by (simp add: fs) (simp add: v_def)
    qed
  qed
qed

fun lz4_write_pieces :: "(bytes \<Rightarrow> bytes) \<Rightarrow> bytes list \<Rightarrow> lz4_framed \<Rightarrow> bytes" where
  "lz4_write_pieces compress [] w = lz4_finish compress w"
| "lz4_write_pieces compress (p # ps) w = (case lz4_write compress p w of (out, w') \<Rightarrow> out @ lz4_write_pieces compress ps w')"

lemma lz4_pieces_frames:
  "0 < lf_frame_size w \<Longrightarrow> length (lf_data w) < lf_frame_size w \<Longrightarrow>
    \<exists>ds. lz4_write_pieces compress ps w = concat (map (lz4_frame compress) ds) \<and> lf_data w @ concat ps = concat ds
      \<and> (\<forall>d\<in>set ds. d \<noteq> [] \<and> length d \<le> lf_frame_size w)"
proof (induction ps arbitrary: w)
  case Nil
  then show ?case
    by (cases "lf_data w = []") (auto simp: lz4_finish_def lz4_frame_def intro: exI [of _ "[]"] exI [of _ "[lf_data w]"])
next
  case (Cons p ps)
  obtain out w' where w: "lz4_write compress p w = (out, w')" by (cases "lz4_write compress p w")
  from lz4_write_frames [OF Cons.prems w] obtain ds where d: "out = concat (map (lz4_frame compress) ds)"
    "lf_data w @ p = concat ds @ lf_data w'" "\<forall>d\<in>set ds. d \<noteq> [] \<and> length d \<le> lf_frame_size w" "length (lf_data w') < lf_frame_size w"
    "lf_frame_size w' = lf_frame_size w" by blast
  have "0 < lf_frame_size w'" "length (lf_data w') < lf_frame_size w'" using Cons.prems d by simp_all
  from Cons.IH [OF this] obtain es where e: "lz4_write_pieces compress ps w' = concat (map (lz4_frame compress) es)"
    "lf_data w' @ concat ps = concat es" "\<forall>d\<in>set es. d \<noteq> [] \<and> length d \<le> lf_frame_size w'" by blast
  have "lf_data w @ concat (p # ps) = concat (ds @ es)"
    using arg_cong [OF d(2), of "\<lambda>xs. xs @ concat ps"] e(2) by simp
  then show ?case using w d(1,3,5) e(1,3) by (intro exI [of _ "ds @ es"]) auto
qed

definition lz4_head :: "bytes \<Rightarrow> bytes" where
  "lz4_head c = write_u32 SKIPPABLE_FRAME_MAGIC @ write_u32 4 @ write_u32 (of_nat (length c))"

text \<open>The codec restores every frame of at most \<open>k\<close> bytes, and its frames fit the size field.\<close>

definition restores :: "nat \<Rightarrow> (bytes \<Rightarrow> bytes) \<Rightarrow> (bytes \<Rightarrow> bytes option) \<Rightarrow> bool" where
  "restores k compress expand \<longleftrightarrow>
     (\<forall>d. d \<noteq> [] \<longrightarrow> length d \<le> k \<longrightarrow> expand (compress d) = Some d \<and> compress d \<noteq> [] \<and> length (compress d) < 2 ^ 32)"

lemma lz4_frames_split:
  assumes "restores k compress expand" "\<forall>d\<in>set ds. d \<noteq> [] \<and> length d \<le> k"
  shows "concat (map (lz4_frame compress) ds) = concat (map (\<lambda>c. lz4_head c @ c) (map compress ds))
    \<and> concat (map (\<lambda>c. the (expand c)) (map compress ds)) = concat ds
    \<and> (\<forall>c\<in>set (map compress ds). length c < 2 ^ 32 \<and> (\<exists>y ys. expand c = Some (y # ys)))"
  using assms(2)
proof (induction ds)
  case (Cons d ds)
  then have "expand (compress d) = Some d" "compress d \<noteq> []" "length (compress d) < 2 ^ 32" "d \<noteq> []"
    using assms(1) by (simp_all add: restores_def)
  then show ?case using Cons by (auto simp: lz4_frame_def lz4_head_def Let_def neq_Nil_conv)
qed simp

text \<open>
  C10: framed LZ4 data round trips, when the first read of the decoder's source gets the whole 12 bytes of the
  first header, the frame size is positive, there is data, and the codec restores what it compressed.  Then,
  however the data is cut into writes, the frames that are written are read back to the data, whatever
  pieces the rest arrives in and whatever buffers the caller reads with.  A shorter first read is not taken for
  frames at all (\<open>short_first_read_is_not_framed\<close>).
\<close>

theorem lz4_frames_round_trip:
  assumes "0 < k" "restores k compress expand" "concat ps \<noteq> []"
    and "frame_codec_law plain_source source_data dec_read fresh expand busy"
    and "plain_source s" "source_data s = lz4_write_pieces compress ps (lz4_framed_new k)"
    and "source_read 12 s = (Inr first, s')" "length first = 12"
    and "\<forall>n\<in>set ns. 0 < n" "length (concat ps) < length ns"
  shows "\<exists>dec pieces end_state. lz4_new source_read fresh s = Inr dec
    \<and> drain (lz4_read source_read dec_read fresh) ns dec = (Inr pieces, end_state) \<and> concat pieces = concat ps"
proof -
  have new: "0 < lf_frame_size (lz4_framed_new k)" "length (lf_data (lz4_framed_new k)) < lf_frame_size (lz4_framed_new k)"
    "lf_frame_size (lz4_framed_new k) = k" "lf_data (lz4_framed_new k) = []"
    using assms(1) by (simp_all add: lz4_framed_new_def)
  from lz4_pieces_frames [OF new(1,2), of compress ps, folded assms(6), unfolded new(3,4) append_Nil]
  obtain ds where ds: "source_data s = concat (map (lz4_frame compress) ds)" "concat ps = concat ds"
    "\<forall>d\<in>set ds. d \<noteq> [] \<and> length d \<le> k" by blast
  obtain d ds' where d: "ds = d # ds'" using ds(2) assms(3) by (cases ds) simp_all
  define cs where "cs = map compress ds'"
  define c where "c = compress d"
  have c: "expand c = Some d" "length c < 2 ^ 32" "d \<noteq> []" using assms(2) ds(3) by (simp_all add: d c_def restores_def)
  note split = lz4_frames_split [OF assms(2) ds(3), unfolded d list.map concat.simps, folded c_def cs_def]
  have src: "source_data s = lz4_head c @ c @ concat (map (\<lambda>c. lz4_head c @ c) cs)" using ds(1) split by (simp add: d c_def)
  have read: "plain_source s'" "source_data s = first @ source_data s'"
    using plain.read_Inr [OF assms(5) _ assms(7)] by simp_all
  have "length (lz4_head c) = 12" by (simp add: lz4_head_def write_u32_def)
  then have first: "first = lz4_head c" "source_data s' = c @ concat (map (\<lambda>c. lz4_head c @ c) cs)"
    using read(2) src assms(8) append_eq_append_conv [of first "lz4_head c" "source_data s'" "c @ concat (map (\<lambda>c. lz4_head c @ c) cs)"]
    by simp_all
  have new_dec: "lz4_new source_read fresh s = Inr (Some (fresh, Skippable s' (of_nat (length c)) False))"
    using assms(7,8) unfolding first(1)
    by (simp add: lz4_new_def lz4_head_def write_u32_def from_to_le_bytes_full)
  have "busy d (concat (map (\<lambda>c. lz4_head c @ c) cs)) (fresh, Skippable s' (of_nat (length c)) False)"
    using assms(4) read(1) first(2) c(1,2) unfolding frame_codec_law_def by blast
  moreover have "concat ps = d @ concat (map (\<lambda>c. the (expand c)) cs)"
    using split c(1) ds(2) by (simp add: d)
  moreover have "\<forall>c\<in>set cs. length c < 2 ^ 32 \<and> (\<exists>y ys. expand c = Some (y # ys))" using split by simp
  ultimately have "frames_delivered lz4_head expand busy (Some (fresh, Skippable s' (of_nat (length c)) False)) (concat ps)"
    unfolding frames_delivered_def option.case by blast
  moreover have "delivers_law (lz4_read source_read dec_read fresh) (frames_delivered lz4_head expand busy)"
    unfolding lz4_read_def
  proof (rule frames_law [OF assms(4)])
    show "\<exists>ir. lz4_next_frame_header source_read (Skippable r 0 True) = (Inr False, ir)"
      if "plain_source r" "source_data r = []" for r by (rule plain.no_more_frames(1) [OF that])
    show "\<exists>r'. lz4_next_frame_header source_read (Skippable r 0 True) = (Inr True, Skippable r' (of_nat (length c)) False)
        \<and> plain_source r' \<and> source_data r' = tail" if "plain_source r" "source_data r = lz4_head c @ tail" for r c tail
      by (rule plain.lz4_header_read [OF that(1)]) (use that(2) in \<open>simp add: lz4_head_def\<close>)
  qed
  ultimately obtain pieces end_state where
    "drain (lz4_read source_read dec_read fresh) ns (Some (fresh, Skippable s' (of_nat (length c)) False)) = (Inr pieces, end_state)"
    "concat pieces = concat ps"
    using delivers_all [of "lz4_read source_read dec_read fresh" "frames_delivered lz4_head expand busy"
        "Some (fresh, Skippable s' (of_nat (length c)) False)" "concat ps" ns] assms(9,10) by auto
  then show ?thesis using new_dec by auto
qed

text \<open>With a codec that stores: frames of two bytes, three bytes written at once and one after them.\<close>

definition storing_read :: "(unit \<times> read_event list inner_reader) io_reader" where
  "storing_read n st = (case inner_read source_read n (snd st) of (x, ir) \<Rightarrow> (x, ((), ir)))"

definition storing_expand :: "bytes \<Rightarrow> bytes option" where
  "storing_expand c = (if c = [] then None else Some c)"

fun storing_busy :: "bytes \<Rightarrow> bytes \<Rightarrow> unit \<times> read_event list inner_reader \<Rightarrow> bool" where
  "storing_busy xs tail (u, Skippable r remaining finished) \<longleftrightarrow>
     plain_source r \<and> source_data r = xs @ tail \<and> length xs = unat remaining \<and> (finished \<longleftrightarrow> xs = [])"
| "storing_busy xs tail (u, ir) \<longleftrightarrow> False"

lemma storing_step:
  assumes "storing_busy xs tail st" "0 < n" "xs \<noteq> []"
  shows "\<exists>bs ys st'. storing_read n st = (Inr bs, st') \<and> bs \<noteq> [] \<and> xs = bs @ ys \<and> storing_busy ys tail st'"
proof -
  obtain u ir where st: "st = (u, ir)" by (cases st)
  from assms(1) obtain r remaining where r: "st = (u, Skippable r remaining False)" "plain_source r" "source_data r = xs @ tail"
    "length xs = unat remaining"
    using assms(3) unfolding st by (cases ir) auto
  have "0 < length xs" using assms(3) by simp
  then have "0 < min (unat remaining) n" using r(4) assms(2) by simp
  from plain.read_law [OF r(2) this] obtain bs r' where b: "source_read (min (unat remaining) n) r = (Inr bs, r')" "plain_source r'"
    "length bs \<le> min (unat remaining) n" "source_data r = bs @ source_data r'" "bs = [] \<longrightarrow> source_data r = []" by blast
  have nonempty: "bs \<noteq> []" using b(5) r(3) assms(3) by auto
  have "length bs \<le> length xs" using b(3) r(4) by simp
  then obtain ys where ys: "xs = bs @ ys" "source_data r' = ys @ tail"
    using r(3) b(4) by (auto simp: append_eq_append_conv2)
  have len: "unat (remaining - of_nat (length bs)) = length ys"
  proof -
    have "unat remaining < 2 ^ 32" by (simp add: u32_bound)
    then have k: "unat (of_nat (length bs) :: u32) = length bs" using b(3) by (simp add: unat_of_nat)
    then have "of_nat (length bs) \<le> remaining" using b(3) by (simp add: word_le_nat_alt)
    then show ?thesis using r(4) ys(1) k by (simp add: unat_sub)
  qed
  have "remaining \<noteq> 0" using r(4) assms(3) by auto
  moreover have "remaining - of_nat (length bs) = 0 \<longleftrightarrow> ys = []" using len by (auto simp: unat_eq_zero)
  ultimately have "storing_read n st = (Inr bs, ((), Skippable r' (remaining - of_nat (length bs)) (ys = [])))"
    using r(1) b(1) nonempty by (simp add: storing_read_def Let_def)
  then show ?thesis using nonempty ys b(2) len by (intro exI) auto
qed

lemma storing_law: "frame_codec_law plain_source source_data storing_read () storing_expand storing_busy"
proof -
  have "storing_busy xs tail ((), Skippable r (of_nat (length c)) False)"
    if "plain_source r" "storing_expand c = Some xs" "source_data r = c @ tail" "length c < 2 ^ 32" for r c xs tail
    using that by (auto simp: storing_expand_def unat_of_nat split: if_splits)
  moreover have "\<exists>d r. storing_read n st = (Inr [], (d, Skippable r 0 True)) \<and> plain_source r \<and> source_data r = tail"
    if "storing_busy [] tail st" for tail st n
  proof -
    from that obtain u r where "st = (u, Skippable r 0 True)" "plain_source r" "source_data r = tail"
      by (cases "([] :: bytes, tail, st)" rule: storing_busy.cases) (auto simp: unat_eq_zero)
    then show ?thesis by (simp add: storing_read_def)
  qed
  ultimately show ?thesis unfolding frame_codec_law_def using storing_step by blast
qed

definition two_frames :: bytes where
  "two_frames = lz4_write_pieces id [[1, 2, 3], [4]] (lz4_framed_new 2)"

theorem lz4_frames_round_trip_witness:
  "\<exists>dec pieces end_state. lz4_new source_read () [Got (take 20 two_frames), Got (drop 20 two_frames)] = Inr dec
    \<and> drain (lz4_read source_read storing_read ()) (replicate 5 3) dec = (Inr pieces, end_state) \<and> concat pieces = [1, 2, 3, 4]"
proof -
  have l: "length two_frames = 28" by code_simp
  have "restores 2 id storing_expand" by (simp add: restores_def storing_expand_def)
  moreover have "plain_source [Got (take 20 two_frames), Got (drop 20 two_frames)]" using l by auto
  moreover have "source_data [Got (take 20 two_frames), Got (drop 20 two_frames)] = lz4_write_pieces id [[1, 2, 3], [4]] (lz4_framed_new 2)"
    unfolding two_frames_def [symmetric] by simp
  moreover have "source_read 12 [Got (take 20 two_frames), Got (drop 20 two_frames)]
      = (Inr (take 12 two_frames), [Got (drop 12 (take 20 two_frames)), Got (drop 20 two_frames)])"
    using l by simp
  moreover have "length (take 12 two_frames) = 12" using l by simp
  ultimately show ?thesis
    using lz4_frames_round_trip [OF _ _ _ storing_law, where k = 2 and compress = id and ps = "[[1, 2, 3], [4]]" and ns = "replicate 5 3"]
    by simp
qed

text \<open>
  What the round trip needs.  A first read that stops inside the first header is taken for data without
  frames, and a read into an empty buffer ends the stream.
\<close>

lemma short_first_read_is_not_framed:
  assumes "4 \<le> n" "n < 12" "length frame = 12" "from_le_bytes (take 4 frame) = SKIPPABLE_FRAME_MAGIC"
  shows "lz4_new source_read fresh (Got (take n frame) # s) = Inr (Some (fresh, Standard s (take n frame) False))"
  using assms by (auto simp: lz4_new_def)

lemma empty_read_ends_the_stream:
  assumes "\<And>st. dec_read 0 st = (Inr [], st)"
  shows "lz4_read rd dec_read fresh 0 (Some (d, Skippable r remaining False)) = (Inr [], None)"
  using assms by (simp add: lz4_read_def frames_read_def)

end
