(* ===== verification/Filter_Streams.thy ===== *)
theory Filter_Streams
  imports Io_Streams Encoder_Setup
begin

text \<open>
  The readers and writers around the filters: \<open>src/codec/filter/delta.rs\<close> and \<open>src/codec/filter/bcj.rs\<close>.
  The converters are those of another crate and a parameter; they work in place and carry their history.
  The delta filter converts every byte it is given.  A branch filter converts a prefix and says how long it
  is, because it cannot judge the last few bytes without those that follow.  \<open>delta_law\<close> and \<open>branch_law\<close>
  state that contract: the pieces together are what one call on the whole data would have answered.
\<close>

section \<open>Writing below\<close>

text \<open>A \<open>Write\<close>: how many bytes it took, or its error.  \<open>write_all\<close> repeats it.\<close>

type_synonym 'w io_writer = "bytes \<Rightarrow> 'w \<Rightarrow> (io_error + nat) \<times> 'w"
type_synonym 'w io_write_all = "bytes \<Rightarrow> 'w \<Rightarrow> (io_error + unit) \<times> 'w"

text \<open>A writer that takes everything: what was written.\<close>

definition sink_write :: "bytes io_writer" where
  "sink_write bs w = (Inr (length bs), w @ bs)"

definition sink_write_all :: "bytes io_write_all" where
  "sink_write_all bs w = (Inr (), w @ bs)"

text \<open>Pieces written one after the other, until one fails.\<close>

fun write_pieces :: "'w io_writer \<Rightarrow> bytes list \<Rightarrow> 'w \<Rightarrow> (io_error + unit) \<times> 'w" where
  "write_pieces wr [] w = (Inr (), w)"
| "write_pieces wr (p # ps) w =
     (case wr p w of (Inl e, w') \<Rightarrow> (Inl e, w') | (Inr n, w') \<Rightarrow> write_pieces wr ps w')"

section \<open>Delta\<close>

type_synonym 'f converter = "'f \<Rightarrow> bytes \<Rightarrow> bytes \<times> 'f"

definition delta_props :: "nat \<Rightarrow> u8" where
  "delta_props distance = of_nat (min (max distance 1) 256 - 1)"

record ('f, 's) delta_stream =
  dl_inner :: 's
  dl_delta :: 'f

definition delta_new :: "(u8 \<Rightarrow> 'f) \<Rightarrow> 's \<Rightarrow> nat \<Rightarrow> ('f, 's) delta_stream" where
  "delta_new create inner distance = \<lparr>dl_inner = inner, dl_delta = create (delta_props distance)\<rparr>"

definition delta_read :: "'f converter \<Rightarrow> 's io_reader \<Rightarrow> ('f, 's) delta_stream io_reader" where
  "delta_read decode rd n r =
     (case rd n (dl_inner r) of
        (Inl e, s') \<Rightarrow> (Inl e, r\<lparr>dl_inner := s'\<rparr>)
      | (Inr bs, s') \<Rightarrow>
          if bs = [] then (Inr [], r\<lparr>dl_inner := s'\<rparr>)
          else case decode (dl_delta r) bs of (out, f') \<Rightarrow> (Inr out, \<lparr>dl_inner = s', dl_delta = f'\<rparr>))"

definition delta_write :: "'f converter \<Rightarrow> 'w io_writer \<Rightarrow> ('f, 'w) delta_stream io_writer" where
  "delta_write encode wr buf w =
     (case encode (dl_delta w) buf of
        (out, f') \<Rightarrow> (case wr out (dl_inner w) of (r, i) \<Rightarrow> (r, \<lparr>dl_inner = i, dl_delta = f'\<rparr>)))"

section \<open>Branch filters\<close>

type_synonym 'f branch_converter = "'f \<Rightarrow> bytes \<Rightarrow> nat \<times> bytes \<times> 'f"

record 'b bcj_filter =
  bf_is_encoder :: bool
  bf_bcj :: 'b

text \<open>A start offset that does not fit 32 bits is 0, and one that is not aligned is rounded down.\<close>

definition bcj_filter_new :: "(bcj_kind \<Rightarrow> u32 \<Rightarrow> 'b) \<Rightarrow> (bcj_kind \<Rightarrow> u32) \<Rightarrow> bcj_kind \<Rightarrow> nat \<Rightarrow> bool \<Rightarrow> 'b bcj_filter" where
  "bcj_filter_new create alignment kind start_pos is_encoder =
     (let start = (if start_pos < 2 ^ 32 then of_nat start_pos else 0)
      in \<lparr>bf_is_encoder = is_encoder, bf_bcj = create kind (start - start mod alignment kind)\<rparr>)"

definition bcj_code :: "'b branch_converter \<Rightarrow> 'b branch_converter \<Rightarrow> 'b bcj_filter branch_converter" where
  "bcj_code encode decode flt buf =
     (case (if bf_is_encoder flt then encode else decode) (bf_bcj flt) buf of
        (k, out, b) \<Rightarrow> (k, out, flt\<lparr>bf_bcj := b\<rparr>))"

definition FILTER_BUF_SIZE :: nat where "FILTER_BUF_SIZE = 4096"

record ('f, 's) bcj_reader =
  bj_inner :: 's
  bj_filter :: 'f
  bj_buf :: bytes
  bj_pos :: nat
  bj_filtered :: nat
  bj_unfiltered :: nat
  bj_end_reached :: bool

definition bcj_reader_new :: "'s \<Rightarrow> 'f \<Rightarrow> ('f, 's) bcj_reader" where
  "bcj_reader_new inner flt =
     \<lparr>bj_inner = inner, bj_filter = flt, bj_buf = replicate FILTER_BUF_SIZE 0, bj_pos = 0, bj_filtered = 0,
      bj_unfiltered = 0, bj_end_reached = False\<rparr>"

text \<open>The constructors of the eight kinds, \<open>new_x86\<close> to \<open>new_riscv\<close>, differ in the kind only.\<close>

definition bcj_reader_for ::
  "(bcj_kind \<Rightarrow> u32 \<Rightarrow> 'b) \<Rightarrow> (bcj_kind \<Rightarrow> u32) \<Rightarrow> bcj_kind \<Rightarrow> 's \<Rightarrow> nat \<Rightarrow> ('b bcj_filter, 's) bcj_reader" where
  "bcj_reader_for create alignment kind inner start_pos =
     bcj_reader_new inner (bcj_filter_new create alignment kind start_pos False)"

text \<open>The two steps at the top of the loop: what is filtered is handed over, and a full buffer is shifted.\<close>

definition bcj_hand_over :: "nat \<Rightarrow> ('f, 's) bcj_reader \<Rightarrow> bytes \<times> ('f, 's) bcj_reader" where
  "bcj_hand_over len r =
     (let n = min (bj_filtered r) len
      in (take n (drop (bj_pos r) (bj_buf r)), r\<lparr>bj_pos := bj_pos r + n, bj_filtered := bj_filtered r - n\<rparr>))"

definition bcj_shift :: "('f, 's) bcj_reader \<Rightarrow> ('f, 's) bcj_reader" where
  "bcj_shift r =
     (if bj_pos r + bj_filtered r + bj_unfiltered r = FILTER_BUF_SIZE
      then r\<lparr>bj_buf := rotate (bj_pos r) (bj_buf r), bj_pos := 0\<rparr> else r)"

text \<open>What is read goes behind the pending bytes, and the converter sees all that is not converted yet.\<close>

definition bcj_take_in :: "'f branch_converter \<Rightarrow> bytes \<Rightarrow> ('f, 's) bcj_reader \<Rightarrow> ('f, 's) bcj_reader" where
  "bcj_take_in code bs r =
     (let start = bj_pos r + bj_filtered r + bj_unfiltered r;
          buf = take start (bj_buf r) @ bs @ drop (start + length bs) (bj_buf r);
          unfiltered = bj_unfiltered r + length bs
      in case code (bj_filter r) (take unfiltered (drop (bj_pos r) buf)) of
           (k, out, f') \<Rightarrow>
             r\<lparr>bj_buf := take (bj_pos r) buf @ out @ drop (bj_pos r + unfiltered) buf, bj_filter := f',
               bj_filtered := k, bj_unfiltered := unfiltered - k\<rparr>)"

definition bcj_at_end :: "('f, 's) bcj_reader \<Rightarrow> ('f, 's) bcj_reader" where
  "bcj_at_end r = r\<lparr>bj_end_reached := True, bj_filtered := bj_unfiltered r, bj_unfiltered := 0\<rparr>"

lemma bcj_shift_fields [simp]:
  "bj_filtered (bcj_shift r) = bj_filtered r" "bj_unfiltered (bcj_shift r) = bj_unfiltered r"
  "bj_end_reached (bcj_shift r) = bj_end_reached r" "bj_inner (bcj_shift r) = bj_inner r" "bj_filter (bcj_shift r) = bj_filter r"
  by (simp_all add: bcj_shift_def)

lemma bcj_hand_over_fields:
  "bcj_hand_over len r = (bs, r1) \<Longrightarrow> bj_filtered r1 = bj_filtered r - min (bj_filtered r) len \<and> bj_unfiltered r1 = bj_unfiltered r
    \<and> bj_end_reached r1 = bj_end_reached r \<and> bj_inner r1 = bj_inner r \<and> bj_filter r1 = bj_filter r"
  by (auto simp: bcj_hand_over_def Let_def)

lemma bcj_at_end_fields [simp]:
  "bj_end_reached (bcj_at_end r)" "bj_filtered (bcj_at_end r) = bj_unfiltered r" "bj_unfiltered (bcj_at_end r) = 0"
  by (simp_all add: bcj_at_end_def)

text \<open>What the converter sees: what is pending and not converted, and what was read behind it.\<close>

definition bcj_window :: "bytes \<Rightarrow> ('f, 's) bcj_reader \<Rightarrow> bytes" where
  "bcj_window bs r =
     (let start = bj_pos r + bj_filtered r + bj_unfiltered r
      in take (bj_unfiltered r + length bs) (drop (bj_pos r) (take start (bj_buf r) @ bs @ drop (start + length bs) (bj_buf r))))"

lemma bcj_take_in_cases:
  assumes "code (bj_filter r) (bcj_window bs r) = (k, out, f')"
  shows "bj_filtered (bcj_take_in code bs r) = k" "bj_unfiltered (bcj_take_in code bs r) = bj_unfiltered r + length bs - k"
    "bj_end_reached (bcj_take_in code bs r) = bj_end_reached r" "bj_inner (bcj_take_in code bs r) = bj_inner r"
    "bj_filter (bcj_take_in code bs r) = f'" "bj_pos (bcj_take_in code bs r) = bj_pos r"
  using assms by (simp_all add: bcj_take_in_def bcj_window_def Let_def)

lemma bcj_take_in_fields:
  "bj_filtered (bcj_take_in code bs r) = 0 \<Longrightarrow> bj_unfiltered (bcj_take_in code bs r) = bj_unfiltered r + length bs"
  "bj_end_reached (bcj_take_in code bs r) = bj_end_reached r"
  by (metis bcj_take_in_cases(1,2) diff_zero surj_pair, metis bcj_take_in_cases(3) surj_pair)

text \<open>
  The loop.  \<open>got\<close> is what the caller's buffer holds and \<open>len\<close> what is left of it; on an error the
  caller is told of the error only.  A reader below cannot hand over more than the room it is given.
\<close>

function bcj_loop :: "'f branch_converter \<Rightarrow> 's io_reader \<Rightarrow> nat \<Rightarrow> bytes \<Rightarrow> ('f, 's) bcj_reader \<Rightarrow> (io_error + bytes) \<times> ('f, 's) bcj_reader" where
  "bcj_loop code rd len got r =
     (case bcj_hand_over len r of
        (bs, r1) \<Rightarrow>
          let r2 = bcj_shift r1; len' = len - min (bj_filtered r) len
          in if len' = 0 \<or> bj_end_reached r2 then (Inr (got @ bs), r2)
             else
               let in_size = FILTER_BUF_SIZE - (bj_pos r2 + bj_filtered r2 + bj_unfiltered r2)
               in case rd in_size (bj_inner r2) of
                    (Inl e, s') \<Rightarrow> (Inl e, r2\<lparr>bj_inner := s'\<rparr>)
                  | (Inr xs, s') \<Rightarrow>
                      if take in_size xs = [] then bcj_loop code rd len' (got @ bs) (bcj_at_end (r2\<lparr>bj_inner := s'\<rparr>))
                      else bcj_loop code rd len' (got @ bs) (bcj_take_in code (take in_size xs) (r2\<lparr>bj_inner := s'\<rparr>)))"
  by pat_completeness auto
termination
proof (relation "measures [\<lambda>(code, rd, len, got, r). 2 * len + (if 0 < bj_filtered r then 0 else 1),
    \<lambda>(code, rd, len, got, r). if bj_end_reached r then 0 else Suc (FILTER_BUF_SIZE - bj_unfiltered r)]", goal_cases)
  case 1
  show ?case by simp
next
  case prems: 2
  note f = bcj_hand_over_fields [OF prems(1) [symmetric, unfolded prems(2)]]
  show ?case using prems f by auto
next
  case prems: 3
  note f = bcj_hand_over_fields [OF prems(1) [symmetric, unfolded prems(2)]]
  show ?case using prems f by (auto simp: bcj_take_in_fields neq_Nil_conv)
qed

declare bcj_loop.simps [simp del]

definition bcj_read :: "'f branch_converter \<Rightarrow> 's io_reader \<Rightarrow> ('f, 's) bcj_reader io_reader" where
  "bcj_read code rd n r = (if n = 0 then (Inr [], r) else bcj_loop code rd n [] r)"

record ('f, 'w) bcj_writer =
  bw_inner :: 'w
  bw_filter :: 'f
  bw_buffer :: bytes

definition bcj_writer_new :: "'w \<Rightarrow> 'f \<Rightarrow> ('f, 'w) bcj_writer" where
  "bcj_writer_new inner flt = \<lparr>bw_inner = inner, bw_filter = flt, bw_buffer = []\<rparr>"

definition bcj_writer_for ::
  "(bcj_kind \<Rightarrow> u32 \<Rightarrow> 'b) \<Rightarrow> (bcj_kind \<Rightarrow> u32) \<Rightarrow> bcj_kind \<Rightarrow> 'w \<Rightarrow> nat \<Rightarrow> ('b bcj_filter, 'w) bcj_writer" where
  "bcj_writer_for create alignment kind inner start_pos =
     bcj_writer_new inner (bcj_filter_new create alignment kind start_pos True)"

text \<open>After a failed write the buffer still holds everything, converted in place.\<close>

definition bcj_write :: "'f branch_converter \<Rightarrow> 'w io_write_all \<Rightarrow> ('f, 'w) bcj_writer io_writer" where
  "bcj_write code wa buf w =
     (case code (bw_filter w) (bw_buffer w @ buf) of
        (k, out, f') \<Rightarrow>
          (case (if 0 < k then wa (take k out) (bw_inner w) else (Inr (), bw_inner w)) of
             (Inl e, i) \<Rightarrow> (Inl e, \<lparr>bw_inner = i, bw_filter = f', bw_buffer = out\<rparr>)
           | (Inr _, i) \<Rightarrow> (Inr (length buf), \<lparr>bw_inner = i, bw_filter = f', bw_buffer = drop k out\<rparr>)))"

definition bcj_finish :: "'w io_write_all \<Rightarrow> ('w \<Rightarrow> (io_error + unit) \<times> 'w) \<Rightarrow> ('f, 'w) bcj_writer \<Rightarrow> (io_error + unit) \<times> 'w" where
  "bcj_finish wa flush w =
     (case (if bw_buffer w \<noteq> [] then wa (bw_buffer w) (bw_inner w) else (Inr (), bw_inner w)) of
        (Inl e, i) \<Rightarrow> (Inl e, i)
      | (Inr _, i) \<Rightarrow> flush i)"

section \<open>What the filters do to a stream\<close>

text \<open>
  The contract of a branch converter: it changes only the prefix it converts, leaves fewer than 16 bytes,
  and what it converts of the first part of some data is what it would have converted given all of it.
\<close>

definition branch_law :: "'f branch_converter \<Rightarrow> ('f \<Rightarrow> bytes \<Rightarrow> bytes) \<Rightarrow> bool" where
  "branch_law code whole \<longleftrightarrow> (\<forall>f xs k out f'. code f xs = (k, out, f') \<longrightarrow>
     k \<le> length xs \<and> length xs < k + 16 \<and> length out = length xs \<and> drop k out = drop k xs \<and> whole f xs = out
     \<and> (\<forall>ys. whole f (xs @ ys) = take k out @ whole f' (drop k xs @ ys)))"

definition delta_law :: "'f converter \<Rightarrow> ('f \<Rightarrow> bytes \<Rightarrow> bytes) \<Rightarrow> bool" where
  "delta_law conv whole \<longleftrightarrow> (\<forall>f. whole f [] = []) \<and> (\<forall>f xs out f'. conv f xs = (out, f') \<longrightarrow>
     length out = length xs \<and> (\<forall>ys. whole f (xs @ ys) = out @ whole f' ys))"

lemma branch_law_step:
  assumes "branch_law code whole" "code f xs = (k, out, f')"
  shows "k \<le> length xs" "length xs < k + 16" "length out = length xs" "drop k out = drop k xs" "whole f xs = out"
    "whole f (xs @ ys) = take k out @ whole f' (drop k xs @ ys)"
  using assms unfolding branch_law_def by metis+

lemma branch_law_short:
  assumes "branch_law code whole" "code f xs = (k, out, f')"
  shows "whole f' (drop k xs) = drop k xs" "whole f [] = []"
proof -
  have "take k out @ whole f' (drop k xs) = take k out @ drop k out"
    using branch_law_step(5) [OF assms] branch_law_step(6) [OF assms, of "[]"] by simp
  then show "whole f' (drop k xs) = drop k xs" using branch_law_step(4) [OF assms] by simp
  obtain k0 o0 f0 where "code f [] = (k0, o0, f0)" by (metis surj_pair)
  then show "whole f [] = []" using branch_law_step(3,5) [OF assms(1)] by (metis length_0_conv list.size(3))
qed

text \<open>The filter of a kind and a direction keeps the contract of its converter.\<close>

definition bcj_whole :: "('b \<Rightarrow> bytes \<Rightarrow> bytes) \<Rightarrow> ('b \<Rightarrow> bytes \<Rightarrow> bytes) \<Rightarrow> 'b bcj_filter \<Rightarrow> bytes \<Rightarrow> bytes" where
  "bcj_whole wenc wdec flt = (if bf_is_encoder flt then wenc else wdec) (bf_bcj flt)"

lemma bcj_code_law:
  assumes "branch_law encode wenc" "branch_law decode wdec"
  shows "branch_law (bcj_code encode decode) (bcj_whole wenc wdec)"
  unfolding branch_law_def
proof (intro allI impI)
  fix f xs k out f'
  assume c: "bcj_code encode decode f xs = (k, out, f')"
  then obtain b where b: "(if bf_is_encoder f then encode else decode) (bf_bcj f) xs = (k, out, b)" "f' = f\<lparr>bf_bcj := b\<rparr>"
    by (auto simp: bcj_code_def split: prod.splits)
  have "branch_law (if bf_is_encoder f then encode else decode) (if bf_is_encoder f then wenc else wdec)" using assms by simp
  from branch_law_step [OF this b(1)] b(2)
  show "k \<le> length xs \<and> length xs < k + 16 \<and> length out = length xs \<and> drop k out = drop k xs \<and> bcj_whole wenc wdec f xs = out
    \<and> (\<forall>ys. bcj_whole wenc wdec f (xs @ ys) = take k out @ bcj_whole wenc wdec f' (drop k xs @ ys))"
    by (simp add: bcj_whole_def)
qed

subsection \<open>The branch reader\<close>

definition bj_pending :: "('f, 's) bcj_reader \<Rightarrow> bytes" where
  "bj_pending r = take (bj_unfiltered r) (drop (bj_pos r + bj_filtered r) (bj_buf r))"

definition bcj_good :: "('s \<Rightarrow> bool) \<Rightarrow> ('s \<Rightarrow> bytes) \<Rightarrow> ('f \<Rightarrow> bytes \<Rightarrow> bytes) \<Rightarrow> ('f, 's) bcj_reader \<Rightarrow> bool" where
  "bcj_good good content whole r \<longleftrightarrow>
     good (bj_inner r) \<and> length (bj_buf r) = FILTER_BUF_SIZE \<and> bj_pos r + bj_filtered r + bj_unfiltered r \<le> FILTER_BUF_SIZE
     \<and> bj_unfiltered r < 16 \<and> (bj_end_reached r \<longrightarrow> bj_unfiltered r = 0 \<and> content (bj_inner r) = [])
     \<and> whole (bj_filter r) (bj_pending r) = bj_pending r"

definition bcj_content :: "('f \<Rightarrow> bytes \<Rightarrow> bytes) \<Rightarrow> ('s \<Rightarrow> bytes) \<Rightarrow> ('f, 's) bcj_reader \<Rightarrow> bytes" where
  "bcj_content whole content r =
     take (bj_filtered r) (drop (bj_pos r) (bj_buf r))
     @ whole (bj_filter r) (bj_pending r @ content (bj_inner r))"

lemma hand_over_law:
  assumes "bcj_good good content whole r" "bcj_hand_over len r = (bs, r1)"
  shows "bcj_good good content whole r1" "length bs = min (bj_filtered r) len"
    "bcj_content whole content r = bs @ bcj_content whole content r1"
proof -
  define n where "n = min (bj_filtered r) len"
  have r1: "bs = take n (drop (bj_pos r) (bj_buf r))" "r1 = r\<lparr>bj_pos := bj_pos r + n, bj_filtered := bj_filtered r - n\<rparr>"
    using assms(2) by (auto simp: bcj_hand_over_def Let_def n_def)
  have pend: "bj_pending r1 = bj_pending r" by (simp add: r1 bj_pending_def n_def)
  show "bcj_good good content whole r1" using assms(1) pend by (auto simp: r1 bcj_good_def n_def)
  show "length bs = min (bj_filtered r) len" using assms(1) by (auto simp: r1 bcj_good_def n_def)
  have split: "take (bj_filtered r) (drop (bj_pos r) (bj_buf r)) = bs @ take (bj_filtered r - n) (drop (bj_pos r + n) (bj_buf r))"
    using take_add [of n "bj_filtered r - n" "drop (bj_pos r) (bj_buf r)"] by (simp add: r1 n_def add.commute)
  show "bcj_content whole content r = bs @ bcj_content whole content r1"
    unfolding bcj_content_def split pend by (simp add: r1(2))
qed

lemma rotate_split: "n \<le> length xs \<Longrightarrow> rotate n xs = drop n xs @ take n xs"
  by (cases "n = length xs") (auto simp: rotate_drop_take)

lemma shift_law:
  assumes "bcj_good good content whole r"
  shows "bcj_good good content whole (bcj_shift r)" "bcj_content whole content (bcj_shift r) = bcj_content whole content r"
    "bj_filtered r = 0 \<Longrightarrow> bj_pos (bcj_shift r) + bj_unfiltered r < FILTER_BUF_SIZE"
proof -
  have rot: "rotate (bj_pos r) (bj_buf r) = drop (bj_pos r) (bj_buf r) @ take (bj_pos r) (bj_buf r)"
    by (rule rotate_split) (use assms in \<open>simp add: bcj_good_def\<close>)
  have pend: "bj_pending (bcj_shift r) = bj_pending r"
    using assms by (auto simp: bcj_good_def bcj_shift_def bj_pending_def rot add.commute)
  show "bcj_good good content whole (bcj_shift r)" using assms pend by (auto simp: bcj_good_def bcj_shift_def)
  show "bcj_content whole content (bcj_shift r) = bcj_content whole content r"
    using assms unfolding bcj_content_def pend by (auto simp: bcj_good_def bcj_shift_def rot)
  show "bj_filtered r = 0 \<Longrightarrow> bj_pos (bcj_shift r) + bj_unfiltered r < FILTER_BUF_SIZE"
    using assms by (auto simp: bcj_good_def bcj_shift_def FILTER_BUF_SIZE_def)
qed

lemma take_in_law:
  assumes good: "bcj_good good content whole r" "bj_filtered r = 0" "\<not> bj_end_reached r"
    and room: "bj_pos r + bj_unfiltered r + length bs \<le> FILTER_BUF_SIZE"
    and law: "branch_law code whole" and s': "good s'" "content (bj_inner r) = bs @ content s'"
  shows "bcj_good good content whole (bcj_take_in code bs (r\<lparr>bj_inner := s'\<rparr>))"
    and "bcj_content whole content (bcj_take_in code bs (r\<lparr>bj_inner := s'\<rparr>)) = bcj_content whole content r"
proof -
  define p where "p = bj_pos r"
  define old where "old = take (bj_unfiltered r) (drop p (bj_buf r))"
  define rest where "rest = drop (p + bj_unfiltered r + length bs) (bj_buf r)"
  obtain k out f' where c: "code (bj_filter r) (old @ bs) = (k, out, f')" by (metis surj_pair)
  note l = branch_law_step [OF law c]
  have buf: "length (bj_buf r) = FILTER_BUF_SIZE" using good(1) by (simp add: bcj_good_def)
  have len: "length old = bj_unfiltered r" using room buf by (simp add: old_def p_def)
  have "take (p + bj_unfiltered r) (bj_buf r) = take p (bj_buf r) @ old" by (simp add: take_add old_def)
  then have t: "bcj_take_in code bs (r\<lparr>bj_inner := s'\<rparr>) = r\<lparr>bj_inner := s', bj_buf := take p (bj_buf r) @ out @ rest,
      bj_filter := f', bj_filtered := k, bj_unfiltered := length (old @ bs) - k\<rparr>"
    using good(2) room buf c len by (simp add: bcj_take_in_def Let_def p_def [symmetric] rest_def ac_simps)
  have tp: "length (take p (bj_buf r)) = p" using room buf by (simp add: p_def)
  have pend: "bj_pending (bcj_take_in code bs (r\<lparr>bj_inner := s'\<rparr>)) = drop k (old @ bs)"
    using l(1,3,4) tp unfolding t bj_pending_def by (simp add: p_def [symmetric])
  show "bcj_good good content whole (bcj_take_in code bs (r\<lparr>bj_inner := s'\<rparr>))"
    using good(1,3) l(1,2,3) len room s'(1) buf branch_law_short(1) [OF law c] unfolding bcj_good_def pend
    by (simp add: t p_def [symmetric] rest_def)
  have "bcj_content whole content (bcj_take_in code bs (r\<lparr>bj_inner := s'\<rparr>)) = take k out @ whole f' (drop k (old @ bs) @ content s')"
    using l(1,3,4) tp unfolding bcj_content_def pend by (simp add: t p_def [symmetric])
  also have "\<dots> = whole (bj_filter r) ((old @ bs) @ content s')" by (rule l(6) [symmetric])
  also have "\<dots> = bcj_content whole content r" using good(2) s'(2) by (simp add: bcj_content_def bj_pending_def old_def p_def)
  finally show "bcj_content whole content (bcj_take_in code bs (r\<lparr>bj_inner := s'\<rparr>)) = bcj_content whole content r" .
qed

lemma at_end_law:
  assumes "bcj_good good content whole r" "bj_filtered r = 0" "\<not> bj_end_reached r"
    and law: "branch_law code whole"
    and s': "good s'" "content (bj_inner r) = []" "content s' = []"
  shows "bcj_good good content whole (bcj_at_end (r\<lparr>bj_inner := s'\<rparr>))"
    and "bcj_content whole content (bcj_at_end (r\<lparr>bj_inner := s'\<rparr>)) = bcj_content whole content r"
proof -
  obtain k out f' where "code (bj_filter r) [] = (k, out, f')" by (metis surj_pair)
  then have empty: "whole (bj_filter r) [] = []" by (rule branch_law_short(2) [OF law])
  show "bcj_content whole content (bcj_at_end (r\<lparr>bj_inner := s'\<rparr>)) = bcj_content whole content r"
    using assms(1,2) s'(2,3) empty by (simp add: bcj_at_end_def bcj_content_def bcj_good_def bj_pending_def)
  show "bcj_good good content whole (bcj_at_end (r\<lparr>bj_inner := s'\<rparr>))"
    using assms(1,2) s' empty by (simp add: bcj_at_end_def bcj_good_def bj_pending_def)
qed

lemma bcj_loop_reads:
  assumes "bcj_hand_over len r = (bs, r1)" "r2 = bcj_shift r1" "len' = len - min (bj_filtered r) len" "len' \<noteq> 0" "\<not> bj_end_reached r2"
    and "room = FILTER_BUF_SIZE - (bj_pos r2 + bj_filtered r2 + bj_unfiltered r2)" "rd room (bj_inner r2) = (Inr xs, s')"
    and "take room xs = xs"
  shows "bcj_loop code rd len got r = bcj_loop code rd len' (got @ bs)
      (if xs = [] then bcj_at_end (r2\<lparr>bj_inner := s'\<rparr>) else bcj_take_in code xs (r2\<lparr>bj_inner := s'\<rparr>))"
  unfolding bcj_loop.simps [of code rd len got r] assms(1) prod.case Let_def
    assms(2) [symmetric] assms(3) [symmetric] assms(6) [symmetric] assms(7) sum.case assms(8)
  using assms(4,5) by simp

lemma bcj_loop_law:
  assumes "branch_law code whole" "byte_source rd good content" "bcj_good good content whole r"
  shows "\<exists>bs r'. bcj_loop code rd len got r = (Inr (got @ bs), r') \<and> bcj_good good content whole r' \<and> length bs \<le> len
    \<and> bcj_content whole content r = bs @ bcj_content whole content r' \<and> (length bs = len \<or> bcj_content whole content r' = [])"
  using assms
proof (induction code rd len got r rule: bcj_loop.induct)
  case (1 code rd len got r)
  obtain bs r1 where h: "bcj_hand_over len r = (bs, r1)" by (metis surj_pair)
  define r2 where "r2 = bcj_shift r1"
  define len' where "len' = len - min (bj_filtered r) len"
  note hl = hand_over_law [OF 1(5) h] and hf = bcj_hand_over_fields [OF h]
  note sl = shift_law [OF hl(1)]
  have g2: "bcj_good good content whole r2" "bcj_content whole content r = bs @ bcj_content whole content r2"
    using sl(1,2) hl(3) by (simp_all add: r2_def)
  have lens: "length bs + len' = len" using hl(2) by (simp add: len'_def)
  show ?case
  proof (cases "len' = 0 \<or> bj_end_reached r2")
    case True
    have "bcj_content whole content r2 = []" if "len' \<noteq> 0"
    proof -
      have "bj_filtered r2 = 0" using hf that by (auto simp: r2_def len'_def)
      then show ?thesis using True that g2(1) by (auto simp: bcj_content_def bcj_good_def bj_pending_def)
    qed
    moreover have "bcj_loop code rd len got r = (Inr (got @ bs), r2)"
      using True h by (subst bcj_loop.simps) (simp add: r2_def len'_def Let_def)
    ultimately show ?thesis using g2 lens by (cases "len' = 0") auto
  next
    case stay: False
    define room where "room = FILTER_BUF_SIZE - (bj_pos r2 + bj_filtered r2 + bj_unfiltered r2)"
    have f2: "bj_filtered r2 = 0" "bj_filtered r1 = 0" using hf stay by (auto simp: r2_def len'_def)
    then have room: "0 < room" "bj_pos r2 + bj_unfiltered r2 + room = FILTER_BUF_SIZE"
      using sl(3) by (simp_all add: room_def r2_def)
    have good: "good (bj_inner r2)" using g2(1) by (simp add: bcj_good_def)
    from byte_source.read_cases [OF 1(4) good room(1)]
    obtain xs s' where x: "rd room (bj_inner r2) = (Inr xs, s')" "good s'" "length xs \<le> room"
      "content (bj_inner r2) = xs @ content s'" "xs = [] \<longleftrightarrow> content (bj_inner r2) = []" by metis
    define r3 where "r3 = (if xs = [] then bcj_at_end (r2\<lparr>bj_inner := s'\<rparr>) else bcj_take_in code xs (r2\<lparr>bj_inner := s'\<rparr>))"
    have fit: "\<not> bj_end_reached r2" "bj_pos r2 + bj_unfiltered r2 + length xs \<le> FILTER_BUF_SIZE"
      using stay room(2) x(3) by auto
    have r3: "bcj_good good content whole r3 \<and> bcj_content whole content r3 = bcj_content whole content r2"
    proof (cases "xs = []")
      case True
      have none: "content (bj_inner r2) = []" using True x(5) by blast
      then have "content s' = []" using x(4) by simp
      from at_end_law [OF g2(1) f2(1) fit(1) 1(3) x(2) none this] show ?thesis using True by (simp add: r3_def)
    next
      case False
      then show ?thesis using take_in_law [OF g2(1) f2(1) fit 1(3) x(2,4)] by (simp add: r3_def)
    qed
    have loop: "bcj_loop code rd len got r = bcj_loop code rd len' (got @ bs) r3"
      unfolding r3_def by (rule bcj_loop_reads [where rd = rd, OF h r2_def len'_def _ _ room_def x(1)]) (use stay x(3) in simp_all)
    have "\<exists>bs' r'. bcj_loop code rd len' (got @ bs) r3 = (Inr ((got @ bs) @ bs'), r') \<and> bcj_good good content whole r'
      \<and> length bs' \<le> len' \<and> bcj_content whole content r3 = bs' @ bcj_content whole content r'
      \<and> (length bs' = len' \<or> bcj_content whole content r' = [])"
    proof (cases "xs = []")
      case True
      then have "bcj_good good content whole (bcj_at_end (r2\<lparr>bj_inner := s'\<rparr>))" using r3 by (simp add: r3_def)
      from "1.IH"(1) [OF h [symmetric] r2_def len'_def stay room_def x(1) [symmetric] refl _ 1(3,4) this]
      show ?thesis using True by (simp add: r3_def)
    next
      case False
      then have "bcj_good good content whole (bcj_take_in code (take room xs) (r2\<lparr>bj_inner := s'\<rparr>))" using r3 x(3) by (simp add: r3_def)
      from "1.IH"(2) [OF h [symmetric] r2_def len'_def stay room_def x(1) [symmetric] refl _ 1(3,4) this]
      show ?thesis using False x(3) room(1) by (simp add: r3_def)
    qed
    then show ?thesis using g2(2) r3 lens loop by auto
  qed
qed

text \<open>So a branch reader over a reader that delivers some bytes delivers their conversion.\<close>

lemma bcj_source:
  assumes "branch_law code whole" "byte_source rd good content"
  shows "byte_source (bcj_read code rd) (bcj_good good content whole) (bcj_content whole content)"
proof
  fix r :: "('a, 'b) bcj_reader" and n :: nat
  assume r: "bcj_good good content whole r" "0 < n"
  from bcj_loop_law [OF assms r(1), of n "[]"]
  show "\<exists>bs r'. bcj_read code rd n r = (Inr bs, r') \<and> bcj_good good content whole r' \<and> length bs \<le> n
      \<and> bcj_content whole content r = bs @ bcj_content whole content r' \<and> (bs = [] \<longrightarrow> bcj_content whole content r = [])"
    using r(2) by (auto simp: bcj_read_def)
qed

lemma bcj_reader_start:
  assumes "branch_law code whole" "good s"
  shows "bcj_good good content whole (bcj_reader_new s f)" "bcj_content whole content (bcj_reader_new s f) = whole f (content s)"
proof -
  obtain k out f' where "code f [] = (k, out, f')" by (metis surj_pair)
  then have "whole f [] = []" by (rule branch_law_short(2) [OF assms(1)])
  then show "bcj_good good content whole (bcj_reader_new s f)"
    using assms(2) by (simp add: bcj_good_def bcj_reader_new_def bj_pending_def)
  show "bcj_content whole content (bcj_reader_new s f) = whole f (content s)"
    by (simp add: bcj_content_def bcj_reader_new_def bj_pending_def)
qed

subsection \<open>The branch writer\<close>

lemma bcj_write_step:
  assumes "code (bw_filter w) (bw_buffer w @ p) = (k, out, f')"
  shows "bcj_write code sink_write_all p w
    = (Inr (length p), \<lparr>bw_inner = bw_inner w @ take k out, bw_filter = f', bw_buffer = drop k out\<rparr>)"
  using assms by (simp add: bcj_write_def sink_write_all_def)

lemma bcj_written:
  assumes "branch_law code whole"
  shows "whole (bw_filter w) (bw_buffer w) = bw_buffer w \<Longrightarrow>
    \<exists>w'. write_pieces (bcj_write code sink_write_all) ps w = (Inr (), w')
      \<and> bcj_finish sink_write_all (\<lambda>i. (Inr (), i)) w' = (Inr (), bw_inner w @ whole (bw_filter w) (bw_buffer w @ concat ps))"
proof (induction ps arbitrary: w)
  case Nil
  then show ?case by (simp add: bcj_finish_def sink_write_all_def)
next
  case (Cons p ps)
  obtain k out f' where c: "code (bw_filter w) (bw_buffer w @ p) = (k, out, f')" by (metis surj_pair)
  define w1 where "w1 = \<lparr>bw_inner = bw_inner w @ take k out, bw_filter = f', bw_buffer = drop k out\<rparr>"
  have "whole (bw_filter w1) (bw_buffer w1) = bw_buffer w1"
    using branch_law_short(1) [OF assms c] branch_law_step(4) [OF assms c] by (simp add: w1_def)
  from Cons.IH [OF this] show ?case
    using bcj_write_step [where code = code, OF c] branch_law_step(4) [OF assms c] branch_law_step(6) [OF assms c, of "concat ps"]
    by (simp add: w1_def)
qed

subsection \<open>Delta\<close>

lemma delta_source:
  assumes "delta_law decode whole" "byte_source rd good content"
  shows "byte_source (delta_read decode rd) (\<lambda>r. good (dl_inner r)) (\<lambda>r. whole (dl_delta r) (content (dl_inner r)))"
proof
  fix r :: "('a, 'b) delta_stream" and n :: nat
  assume r: "good (dl_inner r)" "0 < n"
  from byte_source.read_cases [OF assms(2) r]
  obtain bs s' where b: "rd n (dl_inner r) = (Inr bs, s')" "good s'" "length bs \<le> n"
    "content (dl_inner r) = bs @ content s'" "bs = [] \<longleftrightarrow> content (dl_inner r) = []" by metis
  obtain out f' where c: "decode (dl_delta r) bs = (out, f')" by (metis surj_pair)
  have law: "length out = length bs" "whole (dl_delta r) (bs @ ys) = out @ whole f' ys" "whole f [] = []" for f ys
    using assms(1) c unfolding delta_law_def by metis+
  show "\<exists>bs r'. delta_read decode rd n r = (Inr bs, r') \<and> good (dl_inner r') \<and> length bs \<le> n
      \<and> whole (dl_delta r) (content (dl_inner r)) = bs @ whole (dl_delta r') (content (dl_inner r'))
      \<and> (bs = [] \<longrightarrow> whole (dl_delta r) (content (dl_inner r)) = [])"
  proof (cases "bs = []")
    case True
    then have none: "content (dl_inner r) = []" using b(5) by blast
    then have "content s' = []" using b(4) by simp
    then show ?thesis using True none b(1,2) law(3) by (simp add: delta_read_def)
  next
    case False
    then have "out \<noteq> []" using law(1) by auto
    then show ?thesis using False b(1,2,3) c law by (simp add: delta_read_def b(4))
  qed
qed

lemma delta_written:
  assumes "delta_law encode whole"
  shows "\<exists>f'. write_pieces (delta_write encode sink_write) ps w
    = (Inr (), \<lparr>dl_inner = dl_inner w @ whole (dl_delta w) (concat ps), dl_delta = f'\<rparr>)"
proof (induction ps arbitrary: w)
  case Nil
  then show ?case using assms by (auto simp: delta_law_def intro!: exI [of _ "dl_delta w"])
next
  case (Cons p ps)
  obtain out f' where c: "encode (dl_delta w) p = (out, f')" by (metis surj_pair)
  have law: "whole (dl_delta w) (p @ concat ps) = out @ whole f' (concat ps)" using assms c unfolding delta_law_def by metis
  from Cons.IH [of "\<lparr>dl_inner = dl_inner w @ out, dl_delta = f'\<rparr>"] show ?case
    using c law by (simp add: delta_write_def sink_write_def)
qed

text \<open>
  A delta writer over one that takes less than it is given: the history has gone past what was taken, so
  the bytes that are offered again are converted with the wrong history.
\<close>

definition toy_delta :: "u8 converter" where
  "toy_delta f xs = (map (\<lambda>i. xs ! i - (if i = 0 then f else xs ! (i - 1))) [0..<length xs], if xs = [] then f else last xs)"

definition sink_write_one :: "bytes io_writer" where
  "sink_write_one bs w = (Inr (min 1 (length bs)), w @ take 1 bs)"

lemma short_write_loses_delta_history:
  "fst (delta_write toy_delta sink_write_one [5, 7] \<lparr>dl_inner = [], dl_delta = 0\<rparr>) = Inr 1"
  "dl_inner (snd (write_pieces (delta_write toy_delta sink_write_one) [[5, 7], [7]] \<lparr>dl_inner = [], dl_delta = 0\<rparr>)) = [5, 0]"
  "dl_inner (snd (write_pieces (delta_write toy_delta sink_write) [[5, 7]] \<lparr>dl_inner = [], dl_delta = 0\<rparr>)) = [5, 2]"
  by (code_simp, code_simp, code_simp)

section \<open>The delta filters undo each other\<close>

text \<open>
  C29: what the delta writer writes, the delta reader of the same distance reads back, when the writer below
  takes everything it is given.  However the data is cut into writes they all succeed; however the written bytes
  then arrive and whatever buffers the caller reads with, the reader delivers the data, and neither fails.
  The converters are those of \<open>lzma-turbo\<close>, under the contract \<open>delta_law\<close>, and decoding undoes encoding of a
  whole stream.  Over a writer that takes less the history goes wrong (\<open>short_write_loses_delta_history\<close>).
\<close>

theorem delta_round_trip:
  assumes "delta_law encode wenc" "delta_law decode wdec"
    and "\<forall>props xs. wdec (create props) (wenc (create props) xs) = xs"
  shows "\<exists>w. write_pieces (delta_write encode sink_write) ps (delta_new create [] distance) = (Inr (), w)
    \<and> (\<forall>s ns. plain_source s \<and> source_data s = dl_inner w \<and> (\<forall>n\<in>set ns. 0 < n) \<and> length (concat ps) < length ns \<longrightarrow>
        (\<exists>pieces d. drain (delta_read decode source_read) ns (delta_new create s distance) = (Inr pieces, d)
          \<and> concat pieces = concat ps))"
proof -
  obtain f' where w: "write_pieces (delta_write encode sink_write) ps (delta_new create [] distance)
    = (Inr (), \<lparr>dl_inner = wenc (create (delta_props distance)) (concat ps), dl_delta = f'\<rparr>)"
    using delta_written [OF assms(1), of ps "delta_new create [] distance"] by (auto simp: delta_new_def)
  have "\<exists>pieces d. drain (delta_read decode source_read) ns (delta_new create s distance) = (Inr pieces, d) \<and> concat pieces = concat ps"
    if s: "plain_source s" "source_data s = wenc (create (delta_props distance)) (concat ps)" "\<forall>n\<in>set ns. 0 < n"
      "length (concat ps) < length ns" for s ns
  proof -
    have data: "wdec (create (delta_props distance)) (source_data s) = concat ps" using assms(3) s(2) by simp
    then obtain pieces d where "drain (delta_read decode source_read) ns (delta_new create s distance) = (Inr pieces, d)" "concat ps = concat pieces"
      using byte_source.drain_all [OF delta_source [OF assms(2) plain.byte_source_axioms], of "delta_new create s distance" ns] s
      by (auto simp: delta_new_def)
    then show ?thesis by auto
  qed
  then show ?thesis using w by auto
qed

text \<open>At the filter of distance one, whose state is the byte before.\<close>

fun differences :: "u8 \<Rightarrow> bytes \<Rightarrow> bytes" where
  "differences f [] = []"
| "differences f (x # xs) = (x - f) # differences x xs"

fun running_sums :: "u8 \<Rightarrow> bytes \<Rightarrow> bytes" where
  "running_sums f [] = []"
| "running_sums f (x # xs) = (x + f) # running_sums (x + f) xs"

definition unit_encode :: "u8 converter" where
  "unit_encode f xs = (differences f xs, last (f # xs))"

definition unit_decode :: "u8 converter" where
  "unit_decode f xs = (running_sums f xs, last (f # running_sums f xs))"

lemma differences_append: "differences f (xs @ ys) = differences f xs @ differences (last (f # xs)) ys"
  by (induction xs arbitrary: f) auto

lemma running_sums_append: "running_sums f (xs @ ys) = running_sums f xs @ running_sums (last (f # running_sums f xs)) ys"
  by (induction xs arbitrary: f) auto

lemma unit_lengths [simp]: "length (differences f xs) = length xs" "length (running_sums f xs) = length xs"
  by (induction xs arbitrary: f) auto

lemma unit_laws: "delta_law unit_encode differences" "delta_law unit_decode running_sums"
  by (auto simp: delta_law_def unit_encode_def unit_decode_def differences_append running_sums_append simp del: last.simps)

lemma sums_of_differences: "running_sums f (differences f xs) = xs"
  by (induction xs arbitrary: f) auto

theorem delta_round_trip_witness:
  "\<exists>w. write_pieces (delta_write unit_encode sink_write) [[5, 7], [], [4]] (delta_new (\<lambda>props. 0) [] 1) = (Inr (), w)
    \<and> dl_inner w = [5, 2, - 3]
    \<and> (\<exists>pieces d. drain (delta_read unit_decode source_read) (replicate 4 2) (delta_new (\<lambda>props. 0) [Got [5], Got [2, - 3]] 1) = (Inr pieces, d)
        \<and> concat pieces = [5, 7, 4])"
proof -
  have id: "\<forall>props xs. running_sums ((\<lambda>props :: u8. 0) props) (differences ((\<lambda>props. 0) props) xs) = xs"
    by (simp add: sums_of_differences)
  obtain w where w: "write_pieces (delta_write unit_encode sink_write) [[5, 7], [], [4]] (delta_new (\<lambda>props. 0) [] 1) = (Inr (), w)"
    and read: "\<forall>s ns. plain_source s \<and> source_data s = dl_inner w \<and> (\<forall>n\<in>set ns. 0 < n) \<and> length (concat [[5, 7], [], [4 :: u8]]) < length ns \<longrightarrow>
        (\<exists>pieces d. drain (delta_read unit_decode source_read) ns (delta_new (\<lambda>props. 0) s 1) = (Inr pieces, d)
          \<and> concat pieces = concat [[5, 7], [], [4]])"
    using delta_round_trip [OF unit_laws id, of "[[5, 7], [], [4]]" 1] by blast
  have "dl_inner w = [5, 2, - 3]"
    using w by (auto simp: delta_write_def unit_encode_def sink_write_def delta_new_def)
  then show ?thesis using w read [rule_format, of "[Got [5], Got [2, - 3]]" "replicate 4 2"] by auto
qed

section \<open>The branch filters undo each other\<close>

text \<open>
  C12: what a branch filter writer writes, the branch filter reader of the same kind reads back.  However
  the data is cut into writes, the writer accepts it all and passes on as many bytes as it was given;
  however those then arrive and whatever buffers the caller reads with, the reader delivers the data, and
  neither fails.  The converters are those of \<open>lzma-turbo\<close>, under the contract \<open>branch_law\<close>.
\<close>

theorem filters_round_trip:
  assumes "branch_law encode wenc" "branch_law decode wdec"
    and "\<forall>start xs. wdec (create kind start) (wenc (create kind start) xs) = xs" "\<forall>start xs. length (wenc (create kind start) xs) = length xs"
  shows "\<exists>w stream. write_pieces (bcj_write (bcj_code encode decode) sink_write_all) ps
        (bcj_writer_for create alignment kind [] start_pos) = (Inr (), w)
    \<and> bcj_finish sink_write_all (\<lambda>i. (Inr (), i)) w = (Inr (), stream) \<and> length stream = length (concat ps)
    \<and> (\<forall>s ns. plain_source s \<and> source_data s = stream \<and> (\<forall>n\<in>set ns. 0 < n) \<and> length (concat ps) < length ns \<longrightarrow>
        (\<exists>pieces d. drain (bcj_read (bcj_code encode decode) source_read) ns
            (bcj_reader_for create alignment kind s start_pos) = (Inr pieces, d)
          \<and> concat pieces = concat ps))"
proof -
  note law = bcj_code_law [OF assms(1,2)]
  let ?e = "bcj_filter_new create alignment kind start_pos True" and ?d = "bcj_filter_new create alignment kind start_pos False"
  let ?stream = "bcj_whole wenc wdec ?e (concat ps)"
  obtain k out f' where "bcj_code encode decode ?e [] = (k, out, f')" by (metis surj_pair)
  then have "bcj_whole wenc wdec ?e [] = []" by (rule branch_law_short(2) [OF law])
  then obtain w where w: "write_pieces (bcj_write (bcj_code encode decode) sink_write_all) ps (bcj_writer_new [] ?e) = (Inr (), w)"
    "bcj_finish sink_write_all (\<lambda>i. (Inr (), i)) w = (Inr (), ?stream)"
    using bcj_written [OF law, of "bcj_writer_new [] ?e" ps] by (auto simp: bcj_writer_new_def)
  have lens: "length ?stream = length (concat ps)" "bcj_whole wenc wdec ?d ?stream = concat ps"
    using assms(3,4) by (simp_all add: bcj_whole_def bcj_filter_new_def Let_def)
  have "\<exists>pieces d. drain (bcj_read (bcj_code encode decode) source_read) ns (bcj_reader_new s ?d) = (Inr pieces, d) \<and> concat pieces = concat ps"
    if s: "plain_source s" "source_data s = ?stream" "\<forall>n\<in>set ns. 0 < n" "length (concat ps) < length ns" for s ns
  proof -
    have start: "bcj_content (bcj_whole wenc wdec) source_data (bcj_reader_new s ?d) = concat ps"
      using bcj_reader_start(2) [OF law, of plain_source s source_data ?d] s(1,2) lens(2) by simp
    from byte_source.drain_all [OF bcj_source [OF law plain.byte_source_axioms] bcj_reader_start(1) [where good = plain_source and f = ?d, OF law s(1)] s(3)] start s(4)
    obtain pieces d where "drain (bcj_read (bcj_code encode decode) source_read) ns (bcj_reader_new s ?d) = (Inr pieces, d)" "concat ps = concat pieces"
      by auto
    then show ?thesis by auto
  qed
  then show ?thesis using w lens(1) unfolding bcj_writer_for_def bcj_reader_for_def by blast
qed

text \<open>At a converter that adds one to every byte of each whole group of four.\<close>

definition toy_branch :: "u8 \<Rightarrow> unit branch_converter" where
  "toy_branch a f xs = (let k = length xs - length xs mod 4 in (k, map (\<lambda>x. x + a) (take k xs) @ drop k xs, f))"

definition toy_whole :: "u8 \<Rightarrow> unit \<Rightarrow> bytes \<Rightarrow> bytes" where
  "toy_whole a f xs = (let k = length xs - length xs mod 4 in map (\<lambda>x. x + a) (take k xs) @ drop k xs)"

lemma toy_branch_law: "branch_law (toy_branch a) (toy_whole a)"
proof -
  have part: "toy_whole a f (xs @ ys) = map (\<lambda>x. x + a) (take (length xs - length xs mod 4) xs)
      @ toy_whole a f (drop (length xs - length xs mod 4) xs @ ys)" for f xs ys
  proof -
    define q where "q = length xs div 4"
    have k: "length xs - length xs mod 4 = 4 * q" "4 * q \<le> length xs" by (simp_all add: q_def minus_mod_eq_mult_div)
    define b where "b = drop (4 * q) xs @ ys"
    have xs: "xs @ ys = take (4 * q) xs @ b" "length (take (4 * q) xs) = 4 * q" using k(2) by (simp_all add: b_def)
    show ?thesis unfolding k(1) b_def [symmetric] xs(1) toy_whole_def Let_def using xs(2) by (simp add: mod_mult_self2 ac_simps)
  qed
  have small: "length xs < length xs - length xs mod 4 + 16" for xs :: bytes
    using mod_less_divisor [of 4 "length xs"] by linarith
  show ?thesis
    unfolding branch_law_def
  proof (intro allI impI)
    fix f xs k out f'
    assume "toy_branch a f xs = (k, out, f')"
    then have k: "k = length xs - length xs mod 4" "out = map (\<lambda>x. x + a) (take k xs) @ drop k xs" "f' = f"
      by (auto simp: toy_branch_def Let_def)
    have "k \<le> length xs" "length xs < k + 16" using small [of xs] k(1) by simp_all
    then show "k \<le> length xs \<and> length xs < k + 16 \<and> length out = length xs \<and> drop k out = drop k xs \<and> toy_whole a f xs = out
        \<and> (\<forall>ys. toy_whole a f (xs @ ys) = take k out @ toy_whole a f' (drop k xs @ ys))"
      using part [of f xs] k by (simp add: toy_whole_def Let_def)
  qed
qed

theorem filters_round_trip_witness:
  "\<exists>w stream. write_pieces (bcj_write (bcj_code (toy_branch 1) (toy_branch (- 1))) sink_write_all) [[1, 2, 3], [4, 5]]
        (bcj_writer_for (\<lambda>kind start. ()) (\<lambda>kind. 4) Arm [] 0) = (Inr (), w)
    \<and> bcj_finish sink_write_all (\<lambda>i. (Inr (), i)) w = (Inr (), stream) \<and> length stream = 5
    \<and> (\<exists>pieces d. drain (bcj_read (bcj_code (toy_branch 1) (toy_branch (- 1))) source_read) (replicate 6 2)
          (bcj_reader_for (\<lambda>kind start. ()) (\<lambda>kind. 4) Arm [Got stream] 0) = (Inr pieces, d)
        \<and> concat pieces = [1, 2, 3, 4, 5])"
proof -
  have toy: "\<forall>start xs. toy_whole (- 1) ((\<lambda>kind (start :: u32). ()) Arm start) (toy_whole 1 ((\<lambda>kind start. ()) Arm start) xs) = xs"
    "\<forall>start xs. length (toy_whole 1 ((\<lambda>kind (start :: u32). ()) Arm start) xs) = length xs"
    by (simp_all add: toy_whole_def Let_def comp_def)
  obtain w stream where w: "write_pieces (bcj_write (bcj_code (toy_branch 1) (toy_branch (- 1))) sink_write_all) [[1, 2, 3], [4, 5]]
        (bcj_writer_for (\<lambda>kind start. ()) (\<lambda>kind. 4) Arm [] 0) = (Inr (), w)"
      "bcj_finish sink_write_all (\<lambda>i. (Inr (), i)) w = (Inr (), stream)" "length stream = length (concat [[1, 2, 3], [4, 5 :: u8]])"
    and read: "\<forall>s ns. plain_source s \<and> source_data s = stream \<and> (\<forall>n\<in>set ns. 0 < n) \<and> length (concat [[1, 2, 3], [4, 5 :: u8]]) < length ns \<longrightarrow>
        (\<exists>pieces d. drain (bcj_read (bcj_code (toy_branch 1) (toy_branch (- 1))) source_read) ns
            (bcj_reader_for (\<lambda>kind start. ()) (\<lambda>kind. 4) Arm s 0) = (Inr pieces, d)
          \<and> concat pieces = concat [[1, 2, 3], [4, 5]])"
    using filters_round_trip [OF toy_branch_law toy_branch_law toy, where ps = "[[1, 2, 3], [4, 5]]" and alignment = "\<lambda>kind. 4" and start_pos = 0]
    by blast
  have "plain_source [Got stream]" "source_data [Got stream] = stream" using w(3) by auto
  then show ?thesis using w read [rule_format, of "[Got stream]" "replicate 6 2"] by auto
qed

end
