(* ===== verification/Bcj2.thy ===== *)
theory Bcj2
  imports Io_Streams "HOL-Library.Monad_Syntax"
begin

text \<open>
  The BCJ2 filter of \<open>src/codec/filter/bcj2.rs\<close> and \<open>src/codec/filter/bcj2/decode.rs\<close>: one stream of machine
  code, whose call and jump targets are in two streams of their own and were chosen by a range coder with a
  stream of its own.  The four streams are buffered in one memory, \<open>decode\<close> works on the indices of that
  memory and stops wherever a buffer runs empty or the destination is full, and \<open>read\<close> refills and goes on.
  An access outside of an array is \<open>None\<close>.  The arrays of a fixed size are functions of their index; every
  index of theirs is a constant, a stream number, or a byte plus two.  \<open>ip += num\<close> is on \<open>u32\<close> and wraps as in the
  release profile; a build with overflow checks would panic once 4 GiB of code have gone through one stream.
\<close>

section \<open>The state of the decoder\<close>

definition byte_at :: "'a list \<Rightarrow> nat \<Rightarrow> 'a option" where
  "byte_at xs i = (if i < length xs then Some (xs ! i) else None)"

definition set_at :: "'a list \<Rightarrow> nat \<Rightarrow> 'a \<Rightarrow> 'a list option" where
  "set_at xs i v = (if i < length xs then Some (xs[i := v]) else None)"

definition BCJ2_BUF_SIZE :: nat where "BCJ2_BUF_SIZE = 2 ^ 18"

text \<open>Stream numbers, and the states: a stream that ran empty, bytes of an address still to write, or neither.\<close>

definition MAIN :: nat where "MAIN = 0"
definition CALL :: nat where "CALL = 1"
definition JUMP :: nat where "JUMP = 2"
definition RC :: nat where "RC = 3"
definition STREAMS :: nat where "STREAMS = 4"
definition ORIG_0 :: nat where "ORIG_0 = STREAMS"
definition ORIG_3 :: nat where "ORIG_3 = STREAMS + 3"
definition ORIG :: nat where "ORIG = STREAMS + 4"
definition STATE_OK :: nat where "STATE_OK = STREAMS + 5"

lemmas b2_consts = MAIN_def CALL_def JUMP_def RC_def STREAMS_def ORIG_0_def ORIG_3_def ORIG_def STATE_OK_def

definition is_32bit :: "nat \<Rightarrow> bool" where
  "is_32bit s \<longleftrightarrow> s = CALL \<or> s = JUMP"

definition K_TOP_VALUE :: u32 where "K_TOP_VALUE = 0x1000000"
definition BIT_MODEL_TOTAL :: u16 where "BIT_MODEL_TOTAL = 2048"

record bcj2_decoder =
  b2_bufs :: "nat \<Rightarrow> nat"
  b2_lims :: "nat \<Rightarrow> nat"
  b2_dest :: nat
  b2_state :: nat
  b2_ip :: u32
  b2_temp :: "nat \<Rightarrow> u8"
  b2_range :: u32
  b2_code :: u32
  b2_probs :: "nat \<Rightarrow> u16"

definition bcj2_decoder_new :: bcj2_decoder where
  "bcj2_decoder_new =
     \<lparr>b2_bufs = (\<lambda>_. 0), b2_lims = (\<lambda>_. 0), b2_dest = 0, b2_state = STATE_OK, b2_ip = 0, b2_temp = (\<lambda>_. 0),
      b2_range = 0, b2_code = 0, b2_probs = (\<lambda>_. BIT_MODEL_TOTAL div 2)\<rparr>"

section \<open>Decoding\<close>

text \<open>The range coder takes a byte, and decides a bit.\<close>

definition shift_code :: "u32 \<Rightarrow> u8 \<Rightarrow> u32" where
  "shift_code c b = push_bit 8 c OR ucast b"

definition b2_take_code :: "bytes \<Rightarrow> bcj2_decoder \<Rightarrow> bcj2_decoder option" where
  "b2_take_code src d = do {
     b \<leftarrow> byte_at src (b2_bufs d RC);
     Some (d\<lparr>b2_code := shift_code (b2_code d) b, b2_bufs := (b2_bufs d)(RC := b2_bufs d RC + 1)\<rparr>) }"

definition b2_bit :: "u32 \<Rightarrow> u32 \<Rightarrow> u16 \<Rightarrow> bool \<times> u32 \<times> u32 \<times> u16" where
  "b2_bit rng code ttt =
     (let bound = drop_bit 11 rng * ucast ttt
      in if code < bound then (False, bound, code, ttt + drop_bit 5 (BIT_MODEL_TOTAL - ttt))
         else (True, rng - bound, code - bound, ttt - drop_bit 5 ttt))"

definition prob_index :: "u8 \<Rightarrow> u8 \<Rightarrow> nat" where
  "prob_index prev b = (if b = 0xE8 then 2 + unat prev else if b = 0xE9 then 1 else 0)"

text \<open>The first five bytes of the range coder; \<open>None\<close> inside is that decoding goes on.\<close>

function b2_start :: "bytes \<Rightarrow> bcj2_decoder \<Rightarrow> (bool option \<times> bcj2_decoder) option" where
  "b2_start src d =
     (if b2_range d = 5 then
        (if b2_code d = 0xFFFFFFFF then Some (Some False, d) else Some (None, d\<lparr>b2_range := 0xFFFFFFFF\<rparr>))
      else if b2_range d = 1 \<and> b2_code d \<noteq> 0 then Some (Some False, d)
      else if b2_bufs d RC = b2_lims d RC then Some (Some True, d\<lparr>b2_state := RC\<rparr>)
      else do {
        d' \<leftarrow> b2_take_code src d;
        b2_start src (d'\<lparr>b2_range := b2_range d + 1\<rparr>) })"
  by pat_completeness auto
termination
  by (relation "measure (\<lambda>(src, d). length src - b2_bufs d RC)")
    (auto simp: b2_take_code_def byte_at_def split: bind_splits if_splits)

text \<open>The bytes of an address that found no room before.\<close>

function b2_pending :: "bytes \<Rightarrow> bcj2_decoder \<Rightarrow> (bool \<times> bytes \<times> bcj2_decoder) option" where
  "b2_pending dst d =
     (if b2_state d \<le> ORIG_3 then
        if b2_dest d = length dst then Some (True, dst, d)
        else do {
          dst' \<leftarrow> set_at dst (b2_dest d) (b2_temp d (b2_state d - ORIG_0));
          b2_pending dst' (d\<lparr>b2_state := b2_state d + 1, b2_dest := b2_dest d + 1\<rparr>) }
      else Some (False, dst, d))"
  by pat_completeness auto
termination by (relation "measure (\<lambda>(dst, d). ORIG - b2_state d)") (auto simp: b2_consts)

text \<open>The machine code up to the next branch, which is not counted, or to the limit.\<close>

function b2_scan :: "bytes \<Rightarrow> bytes \<Rightarrow> nat \<Rightarrow> nat \<Rightarrow> nat \<Rightarrow> (nat \<times> bytes) option" where
  "b2_scan src dst s t lim = do {
     b \<leftarrow> byte_at src s;
     dst' \<leftarrow> set_at dst t b;
     if b \<noteq> 0x0F then
       if b AND 0xFE = 0xE8 then Some (s, dst')
       else if s + 1 \<noteq> lim then b2_scan src dst' (s + 1) (t + 1) lim else Some (s + 1, dst')
     else if s + 1 = lim then Some (s + 1, dst')
     else do {
       c \<leftarrow> byte_at src (s + 1);
       if c AND 0xF0 \<noteq> 0x80 then b2_scan src dst' (s + 1) (t + 1) lim
       else do { dst'' \<leftarrow> set_at dst' (t + 1) c; Some (s + 1, dst'') } } }"
  by pat_completeness auto
termination
  by (relation "measure (\<lambda>(src, dst, s, t, lim). length src - s)") (auto simp: byte_at_def split: if_splits)

declare b2_start.simps [simp del] b2_pending.simps [simp del] b2_scan.simps [simp del]


text \<open>One round of the loop: return, go on, take an address, or leave the loop.\<close>

datatype b2_next = Return bool | Again | Address | Stop

definition b2_normalise :: "bytes \<Rightarrow> bcj2_decoder \<Rightarrow> bcj2_decoder option" where
  "b2_normalise src d = do {
     d' \<leftarrow> b2_take_code src d;
     Some (d'\<lparr>b2_range := push_bit 8 (b2_range d)\<rparr>) }"

text \<open>The machine code is copied up to a branch, and the range coder says whether its address was moved.\<close>

definition b2_copy :: "bytes \<Rightarrow> bytes \<Rightarrow> nat \<Rightarrow> bcj2_decoder \<Rightarrow> (nat \<times> bytes) option" where
  "b2_copy src dst lim d =
     (let s = b2_bufs d MAIN; t = b2_dest d
      in if b2_temp d 3 = 0x0F
         then do {
           b \<leftarrow> byte_at src s;
           if b AND 0xF0 = 0x80 then do { dst' \<leftarrow> set_at dst t b; Some (s, dst') } else b2_scan src dst s t lim }
         else b2_scan src dst s t lim)"

definition b2_code_bytes :: "bytes \<Rightarrow> bytes \<Rightarrow> bcj2_decoder \<Rightarrow> (b2_next \<times> bytes \<times> bcj2_decoder) option" where
  "b2_code_bytes src dst d =
     (let first = b2_bufs d MAIN; avail = b2_lims d MAIN - first; room = length dst - b2_dest d
      in if avail = 0 then Some (Return True, dst, d\<lparr>b2_state := MAIN\<rparr>)
         else if room = 0 then Some (Return True, dst, d\<lparr>b2_state := ORIG\<rparr>)
         else do {
           let lim = first + min avail room;
           (s, dst') \<leftarrow> b2_copy src dst lim d;
           let num = s - first;
           if s = lim
           then do {
             b \<leftarrow> byte_at src (s - 1);
             Some (Return True, dst',
               d\<lparr>b2_temp := (b2_temp d)(3 := b), b2_bufs := (b2_bufs d)(MAIN := s), b2_ip := b2_ip d + of_nat num,
                 b2_dest := b2_dest d + num, b2_state := if s = b2_lims d MAIN then MAIN else ORIG\<rparr>) }
           else do {
             b \<leftarrow> byte_at src s;
             prev \<leftarrow> (if num = 0 then Some (b2_temp d 3) else byte_at src (s - 1));
             let i = prob_index prev b;
             (case b2_bit (b2_range d) (b2_code d) (b2_probs d i) of
                (moved, rng, code, prob) \<Rightarrow>
                  Some (if moved then Address else Again, dst',
                    d\<lparr>b2_temp := (b2_temp d)(3 := b), b2_bufs := (b2_bufs d)(MAIN := s + 1),
                      b2_ip := b2_ip d + of_nat (num + 1), b2_dest := b2_dest d + (num + 1),
                      b2_range := rng, b2_code := code, b2_probs := (b2_probs d)(i := prob)\<rparr>)) } })"

definition b2_main :: "bytes \<Rightarrow> bytes \<Rightarrow> bcj2_decoder \<Rightarrow> (b2_next \<times> bytes \<times> bcj2_decoder) option" where
  "b2_main src dst d =
     (if b2_range d < K_TOP_VALUE then
        if b2_bufs d RC = b2_lims d RC then Some (Return True, dst, d\<lparr>b2_state := RC\<rparr>)
        else do { d' \<leftarrow> b2_normalise src d; b2_code_bytes src dst d' }
      else b2_code_bytes src dst d)"

definition be_word :: "u8 \<Rightarrow> u8 \<Rightarrow> u8 \<Rightarrow> u8 \<Rightarrow> u32" where
  "be_word b0 b1 b2 b3 = push_bit 24 (ucast b0) OR push_bit 16 (ucast b1) OR push_bit 8 (ucast b2) OR ucast b3"

definition le_bytes4 :: "u32 \<Rightarrow> bytes" where
  "le_bytes4 v = [ucast v, ucast (drop_bit 8 v), ucast (drop_bit 16 v), ucast (drop_bit 24 v)]"

fun b2_put :: "bytes \<Rightarrow> nat \<Rightarrow> bytes \<Rightarrow> bytes option" where
  "b2_put dst t [] = Some dst"
| "b2_put dst t (b # bs) = do { dst' \<leftarrow> set_at dst t b; b2_put dst' (t + 1) bs }"

text \<open>The address of a call or a jump was absolute and becomes relative again; what finds no room is kept.\<close>

definition b2_address :: "bytes \<Rightarrow> bytes \<Rightarrow> bcj2_decoder \<Rightarrow> (b2_next \<times> bytes \<times> bcj2_decoder) option" where
  "b2_address src dst d =
     (let cj = (if b2_temp d 3 = 0xE8 then CALL else JUMP); cur = b2_bufs d cj
      in if cur = b2_lims d cj then Some (Stop, dst, d\<lparr>b2_state := cj\<rparr>)
         else if length src < cur then None
         else case take 4 (drop cur src) of
                [x0, x1, x2, x3] \<Rightarrow>
                  let ip = b2_ip d + 4; val = be_word x0 x1 x2 x3 - ip; bs = le_bytes4 val;
                      d' = d\<lparr>b2_bufs := (b2_bufs d)(cj := cur + 4), b2_ip := ip\<rparr>;
                      room = length dst - b2_dest d
                  in if room < 4
                     then do {
                       dst' \<leftarrow> b2_put dst (b2_dest d) (take room bs);
                       Some (Stop, dst', d'\<lparr>b2_temp := (\<lambda>i. if i < 4 then bs ! i else b2_temp d i),
                         b2_dest := b2_dest d + room, b2_state := ORIG_0 + room\<rparr>) }
                     else do {
                       dst' \<leftarrow> b2_put dst (b2_dest d) bs;
                       Some (Again, dst', d'\<lparr>b2_temp := (b2_temp d)(3 := bs ! 3), b2_dest := b2_dest d + 4\<rparr>) }
              | _ \<Rightarrow> Some (Return False, dst, d))"

lemma bind_Some: "Option.bind x f = Some y \<longleftrightarrow> (\<exists>a. x = Some a \<and> f a = Some y)"
  by (cases x) auto

lemma scan_forward: "b2_scan src dst s t lim = Some (s', dst') \<Longrightarrow> s \<le> s'"
proof (induction "length src - s" arbitrary: dst s t rule: less_induct)
  case less
  have IH: "s \<le> s'" if "b2_scan src x (s + 1) (t + 1) lim = Some (s', dst')" "s < length src" for x
  proof -
    have "length src - (s + 1) < length src - s" using that(2) by simp
    from less.hyps [OF this that(1)] show ?thesis by simp
  qed
  from less.prems show ?case
    by (subst (asm) b2_scan.simps) (auto simp: bind_Some byte_at_def split: if_splits dest!: IH [simplified])
qed

lemma copy_forward: "b2_copy src dst lim d = Some (s', dst') \<Longrightarrow> b2_bufs d MAIN \<le> s'"
  by (auto simp: b2_copy_def bind_Some Let_def dest: scan_forward split: if_splits)

text \<open>What a round takes from the memory.\<close>

definition b2_left :: "bytes \<Rightarrow> bcj2_decoder \<Rightarrow> nat" where
  "b2_left src d = (length src - b2_bufs d MAIN) + (length src - b2_bufs d CALL) + (length src - b2_bufs d JUMP)"

lemma b2_left_state [simp]: "b2_left src (d\<lparr>b2_state := x\<rparr>) = b2_left src d"
  by (simp add: b2_left_def)

lemma code_bytes_bufs:
  assumes "b2_code_bytes src dst d = Some (nx, dst', d')"
  shows "(nx = Return True \<and> b2_bufs d' = b2_bufs d)
    \<or> (\<exists>s. b2_bufs d MAIN \<le> s \<and> (nx = Return True \<and> b2_bufs d' = (b2_bufs d)(MAIN := s)
          \<or> s < length src \<and> nx \<in> {Again, Address} \<and> b2_bufs d' = (b2_bufs d)(MAIN := s + 1)))"
proof (cases "b2_lims d MAIN - b2_bufs d MAIN = 0 \<or> length dst - b2_dest d = 0")
  case True
  then show ?thesis using assms by (auto simp: b2_code_bytes_def Let_def split: if_splits)
next
  case False
  define lim where "lim = b2_bufs d MAIN + min (b2_lims d MAIN - b2_bufs d MAIN) (length dst - b2_dest d)"
  from assms False obtain s dst1 where c: "b2_copy src dst lim d = Some (s, dst1)"
    by (auto simp: b2_code_bytes_def Let_def bind_Some lim_def)
  note f = copy_forward [OF c]
  show ?thesis
  proof (cases "s = lim")
    case True
    then have "nx = Return True \<and> b2_bufs d' = (b2_bufs d)(MAIN := s)"
      using assms False c unfolding lim_def by (auto simp: b2_code_bytes_def Let_def bind_Some)
    then show ?thesis using f by blast
  next
    case stop: False
    obtain b where b: "byte_at src s = Some b" using assms False c stop unfolding lim_def by (auto simp: b2_code_bytes_def Let_def bind_Some)
    obtain prev where p: "(if s - b2_bufs d MAIN = 0 then Some (b2_temp d 3) else byte_at src (s - 1)) = Some prev"
      using assms False c stop b unfolding lim_def by (auto simp: b2_code_bytes_def Let_def bind_Some)
    obtain moved rng code prob where bit: "b2_bit (b2_range d) (b2_code d) (b2_probs d (prob_index prev b)) = (moved, rng, code, prob)"
      by (metis surj_pair)
    have "nx = (if moved then Address else Again)" "b2_bufs d' = (b2_bufs d)(MAIN := s + 1)"
      using assms False c stop b p bit unfolding lim_def by (auto simp: b2_code_bytes_def Let_def)
    moreover have "s < length src" using b by (simp add: byte_at_def split: if_splits)
    ultimately show ?thesis using f by (cases moved) auto
  qed
qed

lemma code_bytes_forward:
  assumes "b2_code_bytes src dst d = Some (nx, dst', d')"
  shows "b2_left src d' \<le> b2_left src d \<and> (nx = Again \<or> nx = Address \<longrightarrow> b2_left src d' < b2_left src d)"
  using code_bytes_bufs [OF assms] by (auto simp: b2_left_def b2_consts)

lemma main_forward:
  assumes "b2_main src dst d = Some (nx, dst', d')"
  shows "b2_left src d' \<le> b2_left src d \<and> (nx = Again \<or> nx = Address \<longrightarrow> b2_left src d' < b2_left src d)"
proof -
  have idx: "RC \<noteq> MAIN" "RC \<noteq> CALL" "RC \<noteq> JUMP" by (simp_all add: b2_consts)
  have "b2_left src d1 = b2_left src d" if "b2_normalise src d = Some d1" for d1
    using that idx by (auto simp: b2_normalise_def b2_take_code_def bind_Some b2_left_def)
  then show ?thesis
    using assms by (auto simp: b2_main_def bind_Some split: if_splits dest!: code_bytes_forward)
qed

lemma address_forward:
  assumes "b2_address src dst d = Some (nx, dst', d')"
  shows "nx = Again \<longrightarrow> b2_left src d' < b2_left src d"
proof -
  have idx: "CALL \<noteq> MAIN" "JUMP \<noteq> MAIN" "CALL \<noteq> JUMP" by (simp_all add: b2_consts)
  have four: "cur + 4 \<le> length src" if "take 4 (drop cur src) = [x0, x1, x2, x3]" for cur x0 x1 x2 x3
    using arg_cong [OF that, of length] by simp
  show ?thesis
    using assms idx
    by (auto simp: b2_address_def b2_left_def Let_def bind_Some split: if_splits list.splits dest!: four)
qed

function b2_loop :: "bytes \<Rightarrow> bytes \<Rightarrow> bcj2_decoder \<Rightarrow> (b2_next \<times> bytes \<times> bcj2_decoder) option" where
  "b2_loop src dst d =
     (case (if is_32bit (b2_state d) then Some (Address, dst, d\<lparr>b2_state := STATE_OK\<rparr>) else b2_main src dst d) of
        None \<Rightarrow> None
      | Some (nx, dst1, d1) \<Rightarrow>
          if nx = Again then b2_loop src dst1 d1
          else if nx = Address
          then (case b2_address src dst1 d1 of
                  None \<Rightarrow> None
                | Some (nx', dst2, d2) \<Rightarrow> if nx' = Again then b2_loop src dst2 d2 else Some (nx', dst2, d2))
          else Some (nx, dst1, d1))"
  by pat_completeness auto
termination
proof (relation "measure (\<lambda>(src, dst, d). b2_left src d)", goal_cases)
  case 1
  show ?case by simp
next
  case prems: 2
  then show ?case by (auto split: if_splits dest: main_forward)
next
  case prems: 3
  then show ?case by (fastforce split: if_splits dest: main_forward address_forward)
qed

declare b2_loop.simps [simp del]

definition b2_decode :: "bytes \<Rightarrow> bytes \<Rightarrow> bcj2_decoder \<Rightarrow> (bool \<times> bytes \<times> bcj2_decoder) option" where
  "b2_decode src dst d = do {
     (early, dst1, d1) \<leftarrow>
       (if b2_range d \<le> 5 then do { (r, d1) \<leftarrow> b2_start src (d\<lparr>b2_state := STATE_OK\<rparr>); Some (r, dst, d1) }
        else if ORIG_0 \<le> b2_state d
        then do { (full, dst1, d1) \<leftarrow> b2_pending dst d; Some (if full then Some True else None, dst1, d1) }
        else Some (None, dst, d));
     (case early of
        Some r \<Rightarrow> Some (r, dst1, d1)
      | None \<Rightarrow> do {
          (nx, dst2, d2) \<leftarrow> b2_loop src dst1 d1;
          (case nx of
             Return r \<Rightarrow> Some (r, dst2, d2)
           | _ \<Rightarrow>
               if b2_range d2 < K_TOP_VALUE \<and> b2_bufs d2 RC \<noteq> b2_lims d2 RC
               then do { d3 \<leftarrow> b2_normalise src d2; Some (True, dst2, d3) }
               else Some (True, dst2, d2)) }) }"

section \<open>Reading\<close>

record 's bcj2_reader =
  b2r_mem :: bytes
  b2r_inputs :: "'s list"
  b2r_decoder :: bcj2_decoder
  b2r_extra :: "nat \<Rightarrow> nat"
  b2r_read_res :: "nat \<Rightarrow> bool"
  b2r_left :: nat

definition bcj2_reader_new :: "nat \<Rightarrow> 's list \<Rightarrow> nat \<Rightarrow> 's bcj2_reader" where
  "bcj2_reader_new buf_size inputs uncompressed_size =
     \<lparr>b2r_mem = replicate (buf_size * STREAMS) 0, b2r_inputs = inputs,
      b2r_decoder = bcj2_decoder_new\<lparr>b2_bufs := (\<lambda>i. i * buf_size), b2_lims := (\<lambda>i. i * buf_size)\<rparr>,
      b2r_extra = (\<lambda>_. 0), b2r_read_res = (\<lambda>_. True), b2r_left = uncompressed_size\<rparr>"

primrec b2_move :: "nat \<Rightarrow> nat \<Rightarrow> nat \<Rightarrow> bytes \<Rightarrow> bytes option" where
  "b2_move 0 from_index to_index mem = Some mem"
| "b2_move (Suc n) from_index to_index mem = do {
     b \<leftarrow> byte_at mem from_index;
     mem' \<leftarrow> set_at mem to_index b;
     b2_move n (from_index + 1) (to_index + 1) mem' }"

text \<open>Reading into the buffer at \<open>at\<close> behind the \<open>held\<close> bytes in it; a stream of words is read until it has one.\<close>

function b2_fill :: "'s io_reader \<Rightarrow> nat \<Rightarrow> nat \<Rightarrow> bool \<Rightarrow> nat \<Rightarrow> bytes \<Rightarrow> 's \<Rightarrow> (io_error + nat) \<times> bytes \<times> 's" where
  "b2_fill rd buf_size at words held mem s =
     (case rd (buf_size - held) s of
        (Inl e, s') \<Rightarrow> (Inl e, mem, s')
      | (Inr xs, s') \<Rightarrow>
          let bs = take (buf_size - held) xs; mem' = take (at + held) mem @ bs @ drop (at + held + length bs) mem
          in if bs = [] then (Inr held, mem, s')
             else if held + length bs < 4 \<and> words then b2_fill rd buf_size at words (held + length bs) mem' s'
             else (Inr (held + length bs), mem', s'))"
  by pat_completeness auto
termination
  by (relation "measure (\<lambda>(rd, buf_size, at, words, held, mem, s). 4 - held)") (auto simp: neq_Nil_conv)

declare b2_fill.simps [simp del]

definition b2_error :: "string \<Rightarrow> io_error" where
  "b2_error msg = Io_Error InvalidData msg"

text \<open>The end of a read: when everything has been delivered the decoder must be at rest.\<close>

definition b2_finish :: "nat \<Rightarrow> 's bcj2_reader \<Rightarrow> io_error + nat" where
  "b2_finish told r =
     (let d = b2r_decoder r
      in if b2r_left r = 0 \<and> b2_code d \<noteq> 0 then Inl (b2_error ''bcj2 decode error:4'')
         else if b2r_left r = 0 \<and> b2_state d \<noteq> MAIN \<and> b2_state d \<noteq> ORIG then Inl (b2_error ''bcj2 decode error:5'')
         else Inr told)"

partial_function (option) b2_read_loop ::
  "'s io_reader \<Rightarrow> nat \<Rightarrow> bytes \<Rightarrow> nat \<Rightarrow> 's bcj2_reader \<Rightarrow> ((io_error + nat) \<times> bytes \<times> 's bcj2_reader) option" where
  "b2_read_loop rd buf_size dst told r =
     Option.bind (b2_decode (b2r_mem r) dst (b2r_decoder r)) (\<lambda>(ok, dst', d).
       if \<not> ok then Some (Inl (b2_error ''bcj2 decode error''), dst', r\<lparr>b2r_decoder := d\<rparr>)
       else
         let cur = b2_dest d - told; r1 = r\<lparr>b2r_decoder := d, b2r_left := b2r_left r - cur\<rparr>;
             told' = told + cur; i = b2_state d; held = b2r_extra r i; at = i * buf_size
         in if STREAMS \<le> i then Some (b2_finish told' r1, dst', r1)
            else Option.bind (b2_move held (b2_bufs d i) at (b2r_mem r)) (\<lambda>mem.
              let d2 = d\<lparr>b2_bufs := (b2_bufs d)(i := at), b2_lims := (b2_lims d)(i := at)\<rparr>;
                  r2 = r1\<lparr>b2r_mem := mem, b2r_decoder := d2\<rparr>
              in if \<not> b2r_read_res r i then Some (Inl (b2_error ''bcj2 decode error:2''), dst', r2)
                 else Option.bind (byte_at (b2r_inputs r) i) (\<lambda>s.
                   case b2_fill rd buf_size at (is_32bit i) held mem s of
                     (Inl e, mem', s') \<Rightarrow> Some (Inl e, dst', r2\<lparr>b2r_mem := mem', b2r_inputs := (b2r_inputs r)[i := s']\<rparr>)
                   | (Inr got, mem', s') \<Rightarrow>
                       let r3 = r2\<lparr>b2r_mem := mem', b2r_inputs := (b2r_inputs r)[i := s']\<rparr>;
                           extra = (if is_32bit i then got mod 4 else 0);
                           r4 = (if is_32bit i then r3\<lparr>b2r_extra := (b2r_extra r)(i := extra)\<rparr> else r3)
                       in if got = 0 then Some (b2_finish told' r3, dst', r3)
                          else if is_32bit i \<and> got < 4
                          then Some (if told' \<noteq> 0 then Inr told' else Inl (b2_error ''bcj2 decode error:3''), dst', r4)
                          else b2_read_loop rd buf_size dst' told'
                            (r4\<lparr>b2r_decoder := d2\<lparr>b2_lims := (b2_lims d)(i := at + (got - extra))\<rparr>\<rparr>))))"

definition bcj2_read :: "'s io_reader \<Rightarrow> nat \<Rightarrow> nat \<Rightarrow> 's bcj2_reader \<Rightarrow> ((io_error + bytes) \<times> 's bcj2_reader) option" where
  "bcj2_read rd buf_size n r =
     (let room = min n (b2r_left r)
      in if room = 0 then Some (Inr [], r)
         else Option.bind
           (b2_read_loop rd buf_size (replicate room 0) 0 (r\<lparr>b2r_decoder := (b2r_decoder r)\<lparr>b2_dest := 0\<rparr>\<rparr>))
           (\<lambda>(res, dst, r'). Some (case res of Inl e \<Rightarrow> Inl e | Inr told \<Rightarrow> Inr (take told dst), r')))"

end
