(* ===== verification/Bcj2_Decode.thy ===== *)
theory Bcj2_Decode
  imports Bcj2
begin

text \<open>
  What \<open>Bcj2Decoder::decode\<close> computes.  \<open>m_step\<close> is BCJ2 as a machine on four byte strings, with no buffers:
  it emits a byte, makes a step without one, waits for a stream, or is broken.  \<open>decode_law\<close> shows that a call
  of \<open>decode\<close> makes machine steps on what is buffered and what is still to come, writes exactly what they
  emit, never reads or writes outside of its arrays, and stops only where it must.
\<close>

section \<open>The machine\<close>

record b2_machine =
  m_range :: u32
  m_code :: u32
  m_probs :: "nat \<Rightarrow> u16"
  m_prev :: u8
  m_ip :: u32
  m_pend :: bytes
  m_branch :: bool
  m_strm :: "nat \<Rightarrow> bytes"

datatype b2_outcome = Emits u8 b2_machine | Silent b2_machine | Waits nat | Broken

definition m_norm :: "b2_machine \<Rightarrow> b2_machine" where
  "m_norm m =
     (if m_range m < K_TOP_VALUE
      then case m_strm m RC of
             [] \<Rightarrow> m
           | b # bs \<Rightarrow> m\<lparr>m_range := push_bit 8 (m_range m), m_code := shift_code (m_code m) b, m_strm := (m_strm m)(RC := bs)\<rparr>
      else m)"

definition is_branch :: "u8 \<Rightarrow> u8 \<Rightarrow> bool" where
  "is_branch prev b \<longleftrightarrow> b AND 0xFE = 0xE8 \<or> prev = 0x0F \<and> b AND 0xF0 = 0x80"

definition m_target :: "b2_machine \<Rightarrow> nat" where
  "m_target m = (if m_prev m = 0xE8 then CALL else JUMP)"

definition m_after :: "u8 \<Rightarrow> b2_machine \<Rightarrow> b2_machine" where
  "m_after b m =
     (let i = prob_index (m_prev m) b;
          m1 = m\<lparr>m_prev := b, m_ip := m_ip m + 1, m_strm := (m_strm m)(MAIN := tl (m_strm m MAIN))\<rparr>
      in if is_branch (m_prev m) b
         then case b2_bit (m_range m) (m_code m) (m_probs m i) of
                (moved, rng, code, prob) \<Rightarrow>
                  m_norm (m1\<lparr>m_range := rng, m_code := code, m_probs := (m_probs m)(i := prob), m_branch := moved\<rparr>)
         else m1)"

definition m_step :: "b2_machine \<Rightarrow> b2_outcome" where
  "m_step m =
     (if m_range m < 5 then
        if m_range m = 1 \<and> m_code m \<noteq> 0 then Broken
        else case m_strm m RC of
               [] \<Rightarrow> Waits RC
             | b # bs \<Rightarrow> Silent (m\<lparr>m_range := m_range m + 1, m_code := shift_code (m_code m) b, m_strm := (m_strm m)(RC := bs)\<rparr>)
      else if m_range m = 5 then if m_code m = 0xFFFFFFFF then Broken else Silent (m\<lparr>m_range := 0xFFFFFFFF\<rparr>)
      else case m_pend m of
             p # ps \<Rightarrow> Emits p (m\<lparr>m_pend := ps\<rparr>)
           | [] \<Rightarrow>
               if m_branch m
               then case take 4 (m_strm m (m_target m)) of
                      [x0, x1, x2, x3] \<Rightarrow>
                        let ip = m_ip m + 4; bs = le_bytes4 (be_word x0 x1 x2 x3 - ip)
                        in Silent (m\<lparr>m_ip := ip, m_prev := bs ! 3, m_pend := bs, m_branch := False,
                             m_strm := (m_strm m)(m_target m := drop 4 (m_strm m (m_target m)))\<rparr>)
                    | _ \<Rightarrow> Waits (m_target m)
               else if m_range m < K_TOP_VALUE then Waits RC
               else case m_strm m MAIN of [] \<Rightarrow> Waits MAIN | b # bs \<Rightarrow> Emits b (m_after b m))"

inductive m_runs :: "b2_machine \<Rightarrow> bytes \<Rightarrow> b2_machine \<Rightarrow> bool" where
  stop: "m_runs m [] m"
| silent: "m_step m = Silent m' \<Longrightarrow> m_runs m' out m'' \<Longrightarrow> m_runs m out m''"
| emit: "m_step m = Emits b m' \<Longrightarrow> m_runs m' out m'' \<Longrightarrow> m_runs m (b # out) m''"

lemmas m_runs_intros = m_runs.intros

lemma runs_trans: "m_runs m out m' \<Longrightarrow> m_runs m' out' m'' \<Longrightarrow> m_runs m (out @ out') m''"
  by (induction rule: m_runs.induct) (auto intro: m_runs_intros)

lemma runs_silent: "m_step m = Silent m' \<Longrightarrow> m_runs m [] m'"
  by (rule m_runs.silent [OF _ m_runs.stop])

text \<open>The machine is deterministic: of two runs from one state one goes on where the other stopped.\<close>

lemma runs_compare:
  "m_runs m out m' \<Longrightarrow> m_runs m out' m'' \<Longrightarrow> (\<exists>x. out' = out @ x \<and> m_runs m' x m'') \<or> (\<exists>x. out = out' @ x \<and> m_runs m'' x m')"
proof (induction arbitrary: out' m'' rule: m_runs.induct)
  case (stop m)
  then show ?case by auto
next
  case (silent m m1 out m')
  from silent.prems show ?case
  proof (cases rule: m_runs.cases)
    case stop
    then show ?thesis using m_runs.silent [OF silent.hyps(1,2)] by auto
  next
    case (silent m2)
    then show ?thesis using \<open>m_step m = Silent m1\<close> silent.IH by auto
  next
    case (emit b m2 o2)
    then show ?thesis using \<open>m_step m = Silent m1\<close> by simp
  qed
next
  case (emit m b m1 out m')
  from emit.prems show ?case
  proof (cases rule: m_runs.cases)
    case stop
    then show ?thesis using m_runs.emit [OF emit.hyps(1,2)] by auto
  next
    case (silent m2)
    then show ?thesis using \<open>m_step m = Emits b m1\<close> by simp
  next
    case (emit c m2 o2)
    then show ?thesis using \<open>m_step m = Emits b m1\<close> emit.IH by auto
  qed
qed

text \<open>A machine that has everything: it has emitted all, decoded every address and used its code up.\<close>

definition at_rest :: "b2_machine \<Rightarrow> bool" where
  "at_rest m \<longleftrightarrow> 5 < m_range m \<and> K_TOP_VALUE \<le> m_range m \<and> m_pend m = [] \<and> \<not> m_branch m \<and> m_code m = 0"

section \<open>Numbers\<close>

lemma top_value: "unat K_TOP_VALUE = 2 ^ 24"
  by (simp add: K_TOP_VALUE_def)

definition prob_ok :: "u16 \<Rightarrow> bool" where
  "prob_ok p \<longleftrightarrow> 31 \<le> unat p \<and> unat p \<le> 2017"

definition range_ok :: "u32 \<Rightarrow> bool" where
  "range_ok r \<longleftrightarrow> 2 ^ 16 \<le> unat r"

lemma range_ok_gt: "range_ok r \<Longrightarrow> \<not> r \<le> 5 \<and> \<not> r < 5 \<and> r \<noteq> 5 \<and> 5 < r"
  by (auto simp: range_ok_def word_le_nat_alt word_less_nat_alt)

lemma top_range_ok: "K_TOP_VALUE \<le> r \<Longrightarrow> range_ok r"
  by (simp add: range_ok_def word_le_nat_alt top_value)

lemma shifted_range:
  assumes "range_ok r" "r < K_TOP_VALUE"
  shows "K_TOP_VALUE \<le> push_bit 8 r"
proof -
  have r: "2 ^ 16 \<le> unat r" "unat r < 2 ^ 24" using assms by (simp_all add: range_ok_def word_less_nat_alt top_value)
  have "unat (push_bit 8 r) = unat r * 256"
    using r(2) by (simp add: push_bit_eq_mult unat_mult_lem [THEN iffD1])
  then show ?thesis using r(1) by (simp add: word_le_nat_alt top_value)
qed

lemma keeps_31: "31 \<le> x \<Longrightarrow> 31 \<le> x - x div (32 :: nat)"
proof -
  assume x: "31 \<le> x"
  have "x div 32 * 32 + x mod 32 = x" by simp
  moreover have "x div 32 = 0 \<Longrightarrow> 31 \<le> x mod 32" using x by simp
  ultimately show ?thesis by (cases "x div 32 = 0") linarith+
qed

lemma prob_up: "31 \<le> p \<Longrightarrow> p \<le> 2017 \<Longrightarrow> 31 \<le> p + (2048 - p) div 32 \<and> p + (2048 - p) div 32 \<le> (2017 :: nat)"
  using keeps_31 [of "2048 - p"] by linarith

lemma prob_down: "31 \<le> p \<Longrightarrow> p \<le> 2017 \<Longrightarrow> 31 \<le> p - p div 32 \<and> p - p div 32 \<le> (2017 :: nat)"
  using keeps_31 [of p] by linarith

lemma unat_drop_div: "unat (drop_bit n (w :: 'a :: len word)) = unat w div 2 ^ n"
proof -
  have "unat (drop_bit n w) = drop_bit n (unat w)" by (rule unat_drop_bit_eq)
  then show ?thesis by (simp only: drop_bit_eq_div [where ?'a = nat])
qed

lemma bit_ok:
  assumes "K_TOP_VALUE \<le> r" "prob_ok p" "b2_bit r c p = (moved, r', c', p')"
  shows "range_ok r' \<and> prob_ok p'"
proof -
  define q where "q = unat r div 2048"
  define bound where "bound = drop_bit 11 r * ucast p"
  have p: "31 \<le> unat p" "unat p \<le> 2017" using assms(2) by (simp_all add: prob_ok_def)
  have r: "2 ^ 24 \<le> unat r" "unat r < 2 ^ 32" using assms(1) u32_bound [of r] by (simp_all add: word_le_nat_alt top_value)
  have q: "8192 \<le> q" "q < 2 ^ 21" "q * 2048 \<le> unat r" using r by (simp_all add: q_def)
  have d: "unat (drop_bit 11 r) = q" by (simp add: unat_drop_div q_def)
  have up: "unat (ucast p :: u32) = unat p" by (rule unat_ucast_widen) simp
  have prod: "q * unat p \<le> q * 2017" "q * 31 \<le> q * unat p" using p by simp_all
  have small: "q * unat p < 2 ^ 32" by (rule le_less_trans [OF prod(1)]) (use q(2) in simp)
  have b: "unat bound = q * unat p"
    unfolding bound_def d [symmetric] up [symmetric]
    by (rule unat_mult_lem [THEN iffD1]) (use small d up in simp)
  have up_prob: "unat (p + drop_bit 5 (BIT_MODEL_TOTAL - p)) = unat p + (2048 - unat p) div 32"
  proof -
    have "unat (BIT_MODEL_TOTAL - p) = 2048 - unat p" using p by (simp add: BIT_MODEL_TOTAL_def unat_sub word_le_nat_alt)
    then have "unat (drop_bit 5 (BIT_MODEL_TOTAL - p)) = (2048 - unat p) div 32" by (simp add: unat_drop_div)
    then show ?thesis using prob_up [OF p] by (subst unat_add_lem [THEN iffD1]) simp_all
  qed
  have "unat (drop_bit 5 p) = unat p div 32" by (simp add: unat_drop_div)
  then have down_prob: "unat (p - drop_bit 5 p) = unat p - unat p div 32" by (simp add: unat_sub word_le_nat_alt)
  show ?thesis
  proof (cases "c < bound")
    case True
    then have "r' = bound" "p' = p + drop_bit 5 (BIT_MODEL_TOTAL - p)"
      using assms(3) by (simp_all add: b2_bit_def Let_def bound_def)
    moreover have "65536 \<le> q * unat p" using prod(2) q(1) by linarith
    ultimately show ?thesis using b up_prob prob_up [OF p] by (simp add: range_ok_def prob_ok_def)
  next
    case False
    then have r': "r' = r - bound" "p' = p - drop_bit 5 p"
      using assms(3) by (simp_all add: b2_bit_def Let_def bound_def)
    have "unat bound \<le> unat r" using b prod(1) q(3) by linarith
    then have "unat r' = unat r - q * unat p" using r'(1) b by (simp add: unat_sub word_le_nat_alt)
    then have "65536 \<le> unat r'" using prod(1) q by linarith
    then show ?thesis using r'(2) down_prob prob_down [OF p] by (simp add: range_ok_def prob_ok_def)
  qed
qed

section \<open>The machine behind a decoder\<close>

definition window :: "'a list \<Rightarrow> nat \<Rightarrow> nat \<Rightarrow> 'a list" where
  "window xs a b = take (b - a) (drop a xs)"

lemma window_lemmas [simp]:
  "window xs a a = []" "a \<le> b \<Longrightarrow> b \<le> length xs \<Longrightarrow> length (window xs a b) = b - a"
  by (simp_all add: window_def)

lemma window_append: "a \<le> b \<Longrightarrow> b \<le> c \<Longrightarrow> window xs a c = window xs a b @ window xs b c"
  using take_add [of "b - a" "c - b" "drop a xs"] by (simp add: window_def)

lemma window_Cons: "a < b \<Longrightarrow> a < length xs \<Longrightarrow> window xs a b = xs ! a # window xs (a + 1) b"
  by (simp add: window_def Cons_nth_drop_Suc [symmetric] take_Cons' diff_Suc)

lemma window_snoc: "a \<le> b \<Longrightarrow> b < length xs \<Longrightarrow> window xs a (b + 1) = window xs a b @ [xs ! b]"
  by (simp add: window_def Suc_diff_le take_Suc_conv_app_nth)

text \<open>
  \<open>tail i\<close> is what follows the buffered bytes of stream \<open>i\<close>.  While the code has started, the machine is shown
  with its next byte of code already taken, because the decoder takes it at different times.
\<close>

definition b2_view :: "bool \<Rightarrow> (nat \<Rightarrow> bytes) \<Rightarrow> bytes \<Rightarrow> bcj2_decoder \<Rightarrow> b2_machine" where
  "b2_view br tail src d =
     \<lparr>m_range = b2_range d, m_code = b2_code d, m_probs = b2_probs d, m_prev = b2_temp d 3, m_ip = b2_ip d,
      m_pend = (if 5 < b2_range d \<and> ORIG_0 \<le> b2_state d \<and> b2_state d \<le> ORIG_3 then map (b2_temp d) [b2_state d - ORIG_0..<4] else []),
      m_branch = br, m_strm = (\<lambda>i. window src (b2_bufs d i) (b2_lims d i) @ tail i)\<rparr>"

definition b2_mach :: "bool \<Rightarrow> (nat \<Rightarrow> bytes) \<Rightarrow> bytes \<Rightarrow> bcj2_decoder \<Rightarrow> b2_machine" where
  "b2_mach br tail src d = (if b2_range d \<le> 5 then b2_view br tail src d else m_norm (b2_view br tail src d))"

definition dec_inv :: "bytes \<Rightarrow> bytes \<Rightarrow> bcj2_decoder \<Rightarrow> bool" where
  "dec_inv src dst d \<longleftrightarrow>
     (\<forall>i < STREAMS. b2_bufs d i \<le> b2_lims d i \<and> b2_lims d i \<le> length src)
     \<and> (\<forall>i \<in> {CALL, JUMP}. 4 dvd b2_lims d i - b2_bufs d i)
     \<and> b2_dest d \<le> length dst \<and> (b2_range d \<le> 5 \<or> range_ok (b2_range d)) \<and> (\<forall>i. prob_ok (b2_probs d i))
     \<and> (b2_range d \<le> 5 \<longrightarrow> b2_state d \<in> {RC, STATE_OK}) \<and> b2_state d \<le> STATE_OK"

text \<open>
  From \<open>d\<close> with the destination \<open>dst\<close> to \<open>d'\<close> with \<open>dst'\<close>: the destination grew by what the machine emitted.
\<close>

definition advances ::
  "(nat \<Rightarrow> bytes) \<Rightarrow> bytes \<Rightarrow> bool \<times> bytes \<times> bcj2_decoder \<Rightarrow> bool \<times> bytes \<times> bcj2_decoder \<Rightarrow> bool" where
  "advances tail src x y \<longleftrightarrow>
     (case x of (br, dst, d) \<Rightarrow> case y of (br', dst', d') \<Rightarrow>
        dec_inv src dst' d' \<and> b2_lims d' = b2_lims d \<and> (\<forall>i. b2_bufs d i \<le> b2_bufs d' i)
        \<and> length dst' = length dst \<and> b2_dest d \<le> b2_dest d'
        \<and> take (b2_dest d) dst' = take (b2_dest d) dst
        \<and> m_runs (b2_mach br tail src d) (window dst' (b2_dest d) (b2_dest d')) (b2_mach br' tail src d'))"

lemma advances_trans:
  assumes "advances tail src x y" "advances tail src y z"
  shows "advances tail src x z"
proof -
  obtain br dst d where x: "x = (br, dst, d)" by (metis surj_pair)
  obtain br1 dst1 d1 where y: "y = (br1, dst1, d1)" by (metis surj_pair)
  obtain br2 dst2 d2 where z: "z = (br2, dst2, d2)" by (metis surj_pair)
  note a = assms [unfolded x y z advances_def prod.case]
  have le: "b2_dest d \<le> b2_dest d1" "b2_dest d1 \<le> b2_dest d2" using a by auto
  have keep: "take (b2_dest d1) dst2 = take (b2_dest d1) dst1" using a(2) by blast
  have "window dst2 (b2_dest d) (b2_dest d1) = window dst1 (b2_dest d) (b2_dest d1)"
    using arg_cong [OF keep, of "drop (b2_dest d)"] by (simp add: window_def drop_take)
  then have out: "window dst2 (b2_dest d) (b2_dest d2) = window dst1 (b2_dest d) (b2_dest d1) @ window dst2 (b2_dest d1) (b2_dest d2)"
    using window_append [OF le, of dst2] by simp
  have "take (b2_dest d) dst2 = take (b2_dest d) dst"
  proof -
    have "take (b2_dest d) dst2 = take (b2_dest d) (take (b2_dest d1) dst2)" using le by (simp add: min_def)
    also have "\<dots> = take (b2_dest d) dst1" unfolding keep using le by (simp add: min_def)
    finally show ?thesis using a(1) by simp
  qed
  moreover have "m_runs (b2_mach br tail src d) (window dst2 (b2_dest d) (b2_dest d2)) (b2_mach br2 tail src d2)"
    unfolding out using a runs_trans by blast
  moreover have "\<forall>i. b2_bufs d i \<le> b2_bufs d2 i" using a order.trans by blast
  ultimately show ?thesis
    unfolding x z advances_def prod.case using a le by auto
qed

lemma advances_same:
  assumes "dec_inv src dst d'" "b2_lims d' = b2_lims d" "\<forall>i. b2_bufs d i \<le> b2_bufs d' i" "b2_dest d' = b2_dest d"
    "m_runs (b2_mach br tail src d) [] (b2_mach br' tail src d')"
  shows "advances tail src (br, dst, d) (br', dst, d')"
  using assms by (simp add: advances_def)

subsection \<open>Starting\<close>

lemma start_law:
  assumes "dec_inv src dst d" "b2_range d \<le> 5"
  shows "\<exists>r d'. b2_start src d = Some (r, d') \<and> advances tail src (False, dst, d) (False, dst, d')
    \<and> (r = Some False \<longrightarrow> b2_range d' \<le> 5 \<and> m_step (b2_mach False tail src d') = Broken)
    \<and> (r = Some True \<longrightarrow> b2_state d' = RC \<and> b2_bufs d' RC = b2_lims d' RC
        \<and> (tail RC = [] \<longrightarrow> m_step (b2_mach False tail src d') = Waits RC))
    \<and> (r = None \<longrightarrow> 5 < b2_range d' \<and> K_TOP_VALUE \<le> b2_range d' \<and> b2_state d' = b2_state d)"
  using assms
proof (induction src d rule: b2_start.induct)
  case (1 src d)
  have m: "b2_mach False tail src d = b2_view False tail src d" using 1(3) by (simp add: b2_mach_def)
  have le: "b2_bufs d RC \<le> b2_lims d RC" "b2_lims d RC \<le> length src" using 1(2) by (auto simp: dec_inv_def b2_consts)
  consider "b2_range d = 5" "b2_code d = 0xFFFFFFFF" | "b2_range d = 5" "b2_code d \<noteq> 0xFFFFFFFF"
    | "b2_range d \<noteq> 5" "b2_range d = 1" "b2_code d \<noteq> 0"
    | "b2_range d \<noteq> 5" "\<not> (b2_range d = 1 \<and> b2_code d \<noteq> 0)" "b2_bufs d RC = b2_lims d RC"
    | "b2_range d \<noteq> 5" "\<not> (b2_range d = 1 \<and> b2_code d \<noteq> 0)" "b2_bufs d RC < b2_lims d RC" using le by fastforce
  then show ?case
  proof cases
    case case1: 1
    have "advances tail src (False, dst, d) (False, dst, d)"
      by (rule advances_same [OF 1(2)]) (simp_all add: m_runs.stop)
    moreover have "m_step (b2_view False tail src d) = Broken" using case1 by (simp add: m_step_def b2_view_def)
    moreover have "b2_start src d = Some (Some False, d)" using case1 by (subst b2_start.simps) simp
    ultimately show ?thesis using m 1(3) by auto
  next
    case case2: 2
    let ?d = "d\<lparr>b2_range := 0xFFFFFFFF\<rparr>"
    have top: "K_TOP_VALUE \<le> (0xFFFFFFFF :: u32)" by (simp add: K_TOP_VALUE_def)
    have "b2_mach False tail src ?d = b2_view False tail src ?d" using top by (simp add: b2_mach_def m_norm_def b2_view_def K_TOP_VALUE_def)
    moreover have "m_step (b2_view False tail src d) = Silent (b2_view False tail src ?d)"
      using case2 1(2) by (auto simp: m_step_def b2_view_def dec_inv_def b2_consts)
    moreover have "dec_inv src dst ?d" using 1(2) top_range_ok [OF top] by (simp add: dec_inv_def)
    ultimately have "advances tail src (False, dst, d) (False, dst, ?d)"
      by (intro advances_same) (simp_all add: m runs_silent)
    moreover have "b2_start src d = Some (None, ?d)" using case2 by (subst b2_start.simps) simp
    ultimately show ?thesis using top by auto
  next
    case case3: 3
    have "advances tail src (False, dst, d) (False, dst, d)"
      by (rule advances_same [OF 1(2)]) (simp_all add: m_runs.stop)
    moreover have "m_step (b2_view False tail src d) = Broken" using case3 by (simp add: m_step_def b2_view_def)
    moreover have "b2_start src d = Some (Some False, d)" using case3 by (subst b2_start.simps) simp
    ultimately show ?thesis using m 1(3) by auto
  next
    case case4: 4
    let ?d = "d\<lparr>b2_state := RC\<rparr>"
    have r: "b2_range d < 5" using 1(3) case4(1) by simp
    have np: "\<not> 5 < b2_range d" using 1(3) by simp
    have v: "b2_mach False tail src ?d = b2_view False tail src d" using 1(3) by (simp add: b2_mach_def b2_view_def np)
    have "dec_inv src dst ?d" using 1(2) by (auto simp: dec_inv_def b2_consts)
    then have "advances tail src (False, dst, d) (False, dst, ?d)"
      by (intro advances_same) (simp_all add: m v m_runs.stop)
    moreover have "m_step (b2_view False tail src d) = Waits RC" if "tail RC = []"
      using case4 r that by (auto simp: m_step_def b2_view_def)
    moreover have "b2_start src d = Some (Some True, ?d)" using case4 by (subst b2_start.simps) simp
    ultimately show ?thesis using v case4(3) by auto
  next
    case case5: 5
    let ?b = "src ! b2_bufs d RC"
    let ?d = "d\<lparr>b2_code := shift_code (b2_code d) ?b, b2_bufs := (b2_bufs d)(RC := b2_bufs d RC + 1), b2_range := b2_range d + 1\<rparr>"
    have r: "b2_range d < 5" using 1(3) case5(1) by simp
    have r1: "b2_range d + 1 \<le> 5"
      using r by (simp add: word_le_nat_alt word_less_nat_alt unat_word_ariths)
    have take: "b2_take_code src d = Some (d\<lparr>b2_code := shift_code (b2_code d) ?b, b2_bufs := (b2_bufs d)(RC := b2_bufs d RC + 1)\<rparr>)"
      using case5(3) le by (simp add: b2_take_code_def byte_at_def)
    have inv: "dec_inv src dst ?d" using 1(2,3) case5(3) r1 by (auto simp: dec_inv_def b2_consts)
    have m': "b2_mach False tail src ?d = b2_view False tail src ?d" using r1 by (simp add: b2_mach_def)
    have strm: "window src (b2_bufs d RC) (b2_lims d RC) = ?b # window src (b2_bufs d RC + 1) (b2_lims d RC)"
      by (rule window_Cons) (use case5(3) le in simp_all)
    have "m_step (b2_view False tail src d) = Silent (b2_view False tail src ?d)"
      using case5(2) r strm 1(2,3) r1 by (auto simp: m_step_def b2_view_def fun_eq_iff)
    then have run: "m_runs (b2_mach False tail src d) [] (b2_mach False tail src ?d)" unfolding m m' by (rule runs_silent)
    have adv: "advances tail src (False, dst, d) (False, dst, ?d)"
      by (rule advances_same [OF inv _ _ _ run]) simp_all
    have loop: "b2_start src d = b2_start src ?d" using case5 take by (subst b2_start.simps) auto
    have "b2_bufs d RC \<noteq> b2_lims d RC" using case5(3) by simp
    from 1(1) [OF case5(1,2) this take] have "\<exists>r d'. b2_start src ?d = Some (r, d') \<and> advances tail src (False, dst, ?d) (False, dst, d')
        \<and> (r = Some False \<longrightarrow> b2_range d' \<le> 5 \<and> m_step (b2_mach False tail src d') = Broken)
        \<and> (r = Some True \<longrightarrow> b2_state d' = RC \<and> b2_bufs d' RC = b2_lims d' RC
            \<and> (tail RC = [] \<longrightarrow> m_step (b2_mach False tail src d') = Waits RC))
        \<and> (r = None \<longrightarrow> 5 < b2_range d' \<and> K_TOP_VALUE \<le> b2_range d' \<and> b2_state d' = b2_state ?d)"
      using inv r1 by simp
    then show ?thesis unfolding loop using advances_trans [OF adv] by fastforce
  qed
qed

subsection \<open>Addresses that found no room\<close>

lemma m_norm_fields [simp]:
  "m_probs (m_norm m) = m_probs m" "m_prev (m_norm m) = m_prev m" "m_ip (m_norm m) = m_ip m" "m_pend (m_norm m) = m_pend m"
  "m_branch (m_norm m) = m_branch m" "i \<noteq> RC \<Longrightarrow> m_strm (m_norm m) i = m_strm m i"
  by (simp_all add: m_norm_def split: list.split)

lemma m_norm_range: "range_ok (m_range m) \<Longrightarrow> range_ok (m_range (m_norm m))"
  by (auto simp: m_norm_def split: list.split intro: top_range_ok shifted_range)

lemma m_norm_update:
  "m_norm (m\<lparr>m_pend := p\<rparr>) = (m_norm m)\<lparr>m_pend := p\<rparr>"
  "m_norm (m\<lparr>m_ip := ip, m_prev := v, m_pend := p, m_branch := br\<rparr>) = (m_norm m)\<lparr>m_ip := ip, m_prev := v, m_pend := p, m_branch := br\<rparr>"
  by (simp_all add: m_norm_def split: list.split)

lemma mach_running: "range_ok (b2_range d) \<Longrightarrow> b2_mach br tail src d = m_norm (b2_view br tail src d)"
  using range_ok_gt [of "b2_range d"] by (simp add: b2_mach_def)

lemma mach_range_ok: "range_ok (b2_range d) \<Longrightarrow> range_ok (m_range (b2_mach br tail src d))"
  by (simp add: mach_running m_norm_range b2_view_def)

lemma step_pending:
  "range_ok (m_range m) \<Longrightarrow> m_pend m = p # ps \<Longrightarrow> m_step m = Emits p (m\<lparr>m_pend := ps\<rparr>)"
  using range_ok_gt [of "m_range m"] by (simp add: m_step_def)

lemma step_address:
  "range_ok (m_range m) \<Longrightarrow> m_pend m = [] \<Longrightarrow> m_branch m \<Longrightarrow>
    m_step m = (case take 4 (m_strm m (m_target m)) of
       [x0, x1, x2, x3] \<Rightarrow>
         let ip = m_ip m + 4; bs = le_bytes4 (be_word x0 x1 x2 x3 - ip)
         in Silent (m\<lparr>m_ip := ip, m_prev := bs ! 3, m_pend := bs, m_branch := False,
              m_strm := (m_strm m)(m_target m := drop 4 (m_strm m (m_target m)))\<rparr>)
     | _ \<Rightarrow> Waits (m_target m))"
  using range_ok_gt [of "m_range m"] by (simp add: m_step_def)

lemma step_code:
  "range_ok (m_range m) \<Longrightarrow> m_pend m = [] \<Longrightarrow> \<not> m_branch m \<Longrightarrow>
    m_step m = (if m_range m < K_TOP_VALUE then Waits RC
      else case m_strm m MAIN of [] \<Rightarrow> Waits MAIN | b # bs \<Rightarrow> Emits b (m_after b m))"
  using range_ok_gt [of "m_range m"] by (simp add: m_step_def)

lemma advances_emit:
  assumes "dec_inv src (dst[b2_dest d := b]) d'" "b2_lims d' = b2_lims d" "\<forall>i. b2_bufs d i \<le> b2_bufs d' i" "b2_dest d' = b2_dest d + 1"
    "b2_dest d < length dst" "m_step (b2_mach br tail src d) = Emits b (b2_mach br' tail src d')"
  shows "advances tail src (br, dst, d) (br', dst[b2_dest d := b], d')"
  using assms window_Cons [of "b2_dest d" "b2_dest d + 1" "dst[b2_dest d := b]"]
  by (auto simp: advances_def intro: m_runs.emit m_runs.stop)

lemma pending_law:
  assumes "dec_inv src dst d" "range_ok (b2_range d)" "ORIG_0 \<le> b2_state d"
  shows "\<exists>full dst' d'. b2_pending dst d = Some (full, dst', d') \<and> advances tail src (False, dst, d) (False, dst', d')
    \<and> b2_range d' = b2_range d \<and> ORIG_0 \<le> b2_state d'
    \<and> (if full then b2_state d' \<le> ORIG_3 \<and> b2_dest d' = length dst' else ORIG_3 < b2_state d')"
  using assms
proof (induction dst d rule: b2_pending.induct)
  case (1 dst d)
  have refl: "advances tail src (False, dst, d) (False, dst, d)" by (rule advances_same [OF 1(2)]) (simp_all add: m_runs.stop)
  show ?case
  proof (cases "b2_state d \<le> ORIG_3")
    case False
    then have "b2_pending dst d = Some (False, dst, d)" by (subst b2_pending.simps) simp
    then show ?thesis using refl 1(4) False by auto
  next
    case state: True
    show ?thesis
    proof (cases "b2_dest d = length dst")
      case True
      then have "b2_pending dst d = Some (True, dst, d)" using state by (subst b2_pending.simps) simp
      then show ?thesis using refl 1(4) state True by auto
    next
      case False
      then have room: "b2_dest d < length dst" using 1(2) by (simp add: dec_inv_def)
      define b where "b = b2_temp d (b2_state d - ORIG_0)"
      define d1 where "d1 = d\<lparr>b2_state := b2_state d + 1, b2_dest := b2_dest d + 1\<rparr>"
      have set: "set_at dst (b2_dest d) b = Some (dst[b2_dest d := b])" using room by (simp add: set_at_def)
      have loop: "b2_pending dst d = b2_pending (dst[b2_dest d := b]) d1"
        using state False set by (subst b2_pending.simps) (simp add: b_def d1_def)
      have gt: "5 < b2_range d" "\<not> b2_range d \<le> 5" using range_ok_gt [OF 1(3)] by auto
      have inv: "dec_inv src (dst[b2_dest d := b]) d1"
        using 1(2) room state gt by (auto simp: dec_inv_def d1_def b2_consts)
      have "[b2_state d - ORIG_0..<4] = (b2_state d - ORIG_0) # [b2_state d - ORIG_0 + 1..<4]"
        using state by (intro upt_conv_Cons [THEN trans]) (simp_all add: b2_consts)
      moreover have "Suc (b2_state d - 4) = b2_state d - 3" using 1(4) by (simp add: b2_consts)
      ultimately have pend: "m_pend (b2_view False tail src d) = b # m_pend (b2_view False tail src d1)"
        using state 1(4) gt by (auto simp: b2_view_def d1_def b_def b2_consts)
      have view: "b2_view False tail src d1 = (b2_view False tail src d)\<lparr>m_pend := m_pend (b2_view False tail src d1)\<rparr>"
        by (simp add: b2_view_def d1_def)
      have mach: "b2_mach False tail src d1 = (b2_mach False tail src d)\<lparr>m_pend := m_pend (b2_view False tail src d1)\<rparr>"
      proof -
        have "b2_mach False tail src d1 = m_norm (b2_view False tail src d1)" by (rule mach_running) (simp add: d1_def 1(3))
        also have "\<dots> = m_norm ((b2_view False tail src d)\<lparr>m_pend := m_pend (b2_view False tail src d1)\<rparr>)"
          by (rule arg_cong [OF view])
        finally show ?thesis by (simp add: m_norm_update mach_running [OF 1(3)])
      qed
      have "m_step (b2_mach False tail src d) = Emits b (b2_mach False tail src d1)"
        unfolding mach by (rule step_pending) (use mach_range_ok [OF 1(3)] pend 1(3) in \<open>simp_all add: mach_running\<close>)
      then have adv: "advances tail src (False, dst, d) (False, dst[b2_dest d := b], d1)"
        by (intro advances_emit inv room) (simp_all add: d1_def)
      from 1(1) [OF state False set [unfolded b_def]] have "\<exists>full dst' d'. b2_pending (dst[b2_dest d := b]) d1 = Some (full, dst', d')
          \<and> advances tail src (False, dst[b2_dest d := b], d1) (False, dst', d') \<and> b2_range d' = b2_range d1 \<and> ORIG_0 \<le> b2_state d'
          \<and> (if full then b2_state d' \<le> ORIG_3 \<and> b2_dest d' = length dst' else ORIG_3 < b2_state d')"
        using inv 1(3,4) by (simp add: b_def d1_def)
      then obtain full dst' d' where r: "b2_pending (dst[b2_dest d := b]) d1 = Some (full, dst', d')"
          "advances tail src (False, dst[b2_dest d := b], d1) (False, dst', d')" "b2_range d' = b2_range d1" "ORIG_0 \<le> b2_state d'"
          "if full then b2_state d' \<le> ORIG_3 \<and> b2_dest d' = length dst' else ORIG_3 < b2_state d'" by blast
      show ?thesis
        using r advances_trans [OF adv r(2)] unfolding loop by (auto simp: d1_def)
    qed
  qed
qed

subsection \<open>Machine code\<close>

fun plain_code :: "u8 \<Rightarrow> bytes \<Rightarrow> bool" where
  "plain_code prev [] \<longleftrightarrow> True"
| "plain_code prev (b # bs) \<longleftrightarrow> \<not> is_branch prev b \<and> plain_code b bs"

definition overwrite :: "bytes \<Rightarrow> nat \<Rightarrow> bytes \<Rightarrow> bytes" where
  "overwrite dst t bs = take t dst @ bs @ drop (t + length bs) dst"

lemma overwrite_simps:
  "t \<le> length dst \<Longrightarrow> overwrite dst t [] = dst"
  "t < length dst \<Longrightarrow> overwrite dst t (b # bs) = overwrite (dst[t := b]) (t + 1) bs"
  "t + length bs \<le> length dst \<Longrightarrow> length (overwrite dst t bs) = length dst"
  "t + length bs \<le> length dst \<Longrightarrow> take t (overwrite dst t bs) = take t dst"
  "t + length bs \<le> length dst \<Longrightarrow> window (overwrite dst t bs) t (t + length bs) = bs"
proof -
  show "overwrite dst t (b # bs) = overwrite (dst[t := b]) (t + 1) bs" if "t < length dst"
    using that by (simp add: overwrite_def take_Suc_conv_app_nth)
qed (auto simp: overwrite_def window_def)

lemma put_law: "t + length bs \<le> length dst \<Longrightarrow> b2_put dst t bs = Some (overwrite dst t bs)"
  by (induction bs arbitrary: dst t) (auto simp: set_at_def overwrite_simps)

lemma last_window: "s \<le> e \<Longrightarrow> e \<le> length src \<Longrightarrow> last (prev # window src s e) = (if e = s then prev else src ! (e - 1))"
  using window_snoc [of s "e - 1" src] by (cases "e = s") auto

lemma scan_law:
  "s < lim \<Longrightarrow> lim \<le> length src \<Longrightarrow> t + (lim - s) \<le> length dst \<Longrightarrow> \<not> (prev = 0x0F \<and> src ! s AND 0xF0 = 0x80) \<Longrightarrow>
    \<exists>e. s \<le> e \<and> e \<le> lim \<and> plain_code prev (window src s e)
      \<and> (e < lim \<longrightarrow> is_branch (last (prev # window src s e)) (src ! e))
      \<and> b2_scan src dst s t lim = Some (e, overwrite dst t (window src s (if e < lim then e + 1 else e)))"
proof (induction "lim - s" arbitrary: s t dst prev rule: less_induct)
  case less
  define b where "b = src ! s"
  have s: "s < length src" "t < length dst" using less.prems by auto
  have here: "byte_at src s = Some b" "set_at dst t b = Some (dst[t := b])" using s by (simp_all add: byte_at_def set_at_def b_def)
  have one: "window src s (s + 1) = [b]" using s window_Cons [of s "s + 1" src] by (simp add: b_def)
  show ?case
  proof (cases "b \<noteq> 0x0F \<and> b AND 0xFE = 0xE8")
    case True
    then have "b2_scan src dst s t lim = Some (s, overwrite dst t [b])"
      using here s by (subst b2_scan.simps) (simp add: overwrite_simps)
    moreover have "is_branch prev b" using True by (simp add: is_branch_def)
    ultimately show ?thesis using less.prems(1) one by (intro exI [of _ s]) (simp add: b_def)
  next
    case False
    have "b = 0x0F \<Longrightarrow> b AND 0xFE \<noteq> 0xE8" by simp
    then have plain: "\<not> is_branch prev b" using False less.prems(4) by (auto simp: is_branch_def b_def)
    show ?thesis
    proof (cases "s + 1 = lim")
      case True
      then have "b2_scan src dst s t lim = Some (s + 1, overwrite dst t [b])"
        using here s False by (subst b2_scan.simps) (auto simp: overwrite_simps)
      then show ?thesis using True one plain by (intro exI [of _ "s + 1"]) simp
    next
      case more: False
      define c where "c = src ! (s + 1)"
      have s1: "s + 1 < lim" "s + 1 < length src" "t + 1 < length dst" using more less.prems by auto
      have two: "window src s (s + 1 + 1) = [b, c]" using s s1 window_Cons [of s "s + 1 + 1" src] window_Cons [of "s + 1" "s + 1 + 1" src]
        by (simp add: b_def c_def)
      show ?thesis
      proof (cases "b = 0x0F \<and> c AND 0xF0 = 0x80")
        case True
        then have "b2_scan src dst s t lim = Some (s + 1, overwrite dst t [b, c])"
          using here s s1 more by (subst b2_scan.simps) (simp add: byte_at_def set_at_def overwrite_simps c_def)
        moreover have "is_branch b c" using True by (simp add: is_branch_def)
        ultimately show ?thesis using s1 one two plain by (intro exI [of _ "s + 1"]) (simp add: c_def)
      next
        case go: False
        then have loop: "b2_scan src dst s t lim = b2_scan src (dst[t := b]) (s + 1) (t + 1) lim"
          using here False more s1 by (subst b2_scan.simps) (auto simp: byte_at_def c_def)
        obtain e where e: "s + 1 \<le> e" "e \<le> lim" "plain_code b (window src (s + 1) e)"
            "e < lim \<longrightarrow> is_branch (last (b # window src (s + 1) e)) (src ! e)"
            "b2_scan src (dst[t := b]) (s + 1) (t + 1) lim
              = Some (e, overwrite (dst[t := b]) (t + 1) (window src (s + 1) (if e < lim then e + 1 else e)))"
        proof -
          have pre: "lim - (s + 1) < lim - s" "t + 1 + (lim - (s + 1)) \<le> length (dst[t := b])" "\<not> (b = 0x0F \<and> src ! (s + 1) AND 0xF0 = 0x80)"
            using less.prems s1 go by (auto simp: c_def)
          from less.hyps [OF pre(1) s1(1) less.prems(2) pre(2,3)] show thesis using that by blast
        qed
        have "window src s x = b # window src (s + 1) x" if "s + 1 \<le> x" for x
          using window_Cons [of s x src] that s by (simp add: b_def)
        then show ?thesis
          using e plain s unfolding loop by (intro exI [of _ e]) (simp add: overwrite_simps)
      qed
    qed
  qed
qed

text \<open>The machine on plain code, while its range needs no byte.\<close>

lemma runs_plain:
  assumes "K_TOP_VALUE \<le> m_range m" "m_pend m = []" "\<not> m_branch m" "plain_code (m_prev m) bs" "m_strm m MAIN = bs @ rest"
  shows "m_runs m bs (m\<lparr>m_prev := last (m_prev m # bs), m_ip := m_ip m + of_nat (length bs), m_strm := (m_strm m)(MAIN := rest)\<rparr>)"
  using assms
proof (induction bs arbitrary: m)
  case Nil
  have "(m_strm m)(MAIN := rest) = m_strm m" using Nil(5) by auto
  then have "m\<lparr>m_prev := last (m_prev m # []), m_ip := m_ip m + of_nat (length ([] :: bytes)), m_strm := (m_strm m)(MAIN := rest)\<rparr> = m"
    by (cases m) simp
  then show ?case by (metis m_runs.stop)
next
  case (Cons b bs)
  define m1 where "m1 = m\<lparr>m_prev := b, m_ip := m_ip m + 1, m_strm := (m_strm m)(MAIN := bs @ rest)\<rparr>"
  have "m_step m = Emits b m1"
    using Cons.prems top_range_ok [OF Cons.prems(1)] by (simp add: step_code m_after_def m1_def not_less Let_def)
  moreover have "m_runs m1 bs (m1\<lparr>m_prev := last (m_prev m1 # bs), m_ip := m_ip m1 + of_nat (length bs), m_strm := (m_strm m1)(MAIN := rest)\<rparr>)"
    by (rule Cons.IH) (use Cons.prems in \<open>simp_all add: m1_def\<close>)
  moreover have "m1\<lparr>m_prev := last (m_prev m1 # bs), m_ip := m_ip m1 + of_nat (length bs), m_strm := (m_strm m1)(MAIN := rest)\<rparr>
      = m\<lparr>m_prev := last (m_prev m # b # bs), m_ip := m_ip m + of_nat (length (b # bs)), m_strm := (m_strm m)(MAIN := rest)\<rparr>"
    by (simp add: m1_def)
  ultimately show ?case using m_runs.emit by metis
qed

lemma copy_law:
  assumes "b2_bufs d MAIN < lim" "lim \<le> length src" "b2_dest d + (lim - b2_bufs d MAIN) \<le> length dst"
  shows "\<exists>e. b2_bufs d MAIN \<le> e \<and> e \<le> lim \<and> plain_code (b2_temp d 3) (window src (b2_bufs d MAIN) e)
    \<and> (e < lim \<longrightarrow> is_branch (last (b2_temp d 3 # window src (b2_bufs d MAIN) e)) (src ! e))
    \<and> b2_copy src dst lim d = Some (e, overwrite dst (b2_dest d) (window src (b2_bufs d MAIN) (if e < lim then e + 1 else e)))"
proof (cases "b2_temp d 3 = 0x0F \<and> src ! b2_bufs d MAIN AND 0xF0 = 0x80")
  case True
  have s: "b2_bufs d MAIN < length src" "b2_dest d < length dst" using assms by auto
  then have "b2_copy src dst lim d = Some (b2_bufs d MAIN, overwrite dst (b2_dest d) [src ! b2_bufs d MAIN])"
    using True by (simp add: b2_copy_def byte_at_def set_at_def Let_def overwrite_simps)
  moreover have "is_branch (b2_temp d 3) (src ! b2_bufs d MAIN)" using True by (simp add: is_branch_def)
  moreover have "window src (b2_bufs d MAIN) (b2_bufs d MAIN + 1) = [src ! b2_bufs d MAIN]"
    using s window_Cons [of "b2_bufs d MAIN" "b2_bufs d MAIN + 1" src] by simp
  ultimately show ?thesis using assms(1) by (intro exI [of _ "b2_bufs d MAIN"]) simp
next
  case False
  have "b2_bufs d MAIN < length src" using assms by simp
  then have "b2_copy src dst lim d = b2_scan src dst (b2_bufs d MAIN) (b2_dest d) lim"
    using False by (auto simp: b2_copy_def byte_at_def Let_def)
  then show ?thesis using scan_law [OF assms False] by simp
qed

definition no_pending :: "bcj2_decoder \<Rightarrow> bool" where
  "no_pending d \<longleftrightarrow> \<not> (ORIG_0 \<le> b2_state d \<and> b2_state d \<le> ORIG_3)"

lemma view_state:
  assumes "no_pending d" "no_pending (d\<lparr>b2_state := x\<rparr>)"
  shows "b2_mach br tail src (d\<lparr>b2_state := x\<rparr>) = b2_mach br tail src d"
proof -
  have "b2_view br tail src (d\<lparr>b2_state := x\<rparr>) = b2_view br tail src d"
    using assms by (auto simp: b2_view_def no_pending_def)
  then show ?thesis by (simp add: b2_mach_def)
qed

lemma view_quiet:
  "no_pending d \<Longrightarrow> b2_view br tail src d =
     \<lparr>m_range = b2_range d, m_code = b2_code d, m_probs = b2_probs d, m_prev = b2_temp d 3, m_ip = b2_ip d,
      m_pend = [], m_branch = br, m_strm = (\<lambda>i. window src (b2_bufs d i) (b2_lims d i) @ tail i)\<rparr>"
  by (auto simp: b2_view_def no_pending_def)

lemma no_pending_simps [simp]:
  "no_pending (d\<lparr>b2_state := MAIN\<rparr>)" "no_pending (d\<lparr>b2_state := RC\<rparr>)" "no_pending (d\<lparr>b2_state := ORIG\<rparr>)"
  "no_pending (d\<lparr>b2_state := STATE_OK\<rparr>)" "no_pending (d\<lparr>b2_state := CALL\<rparr>)" "no_pending (d\<lparr>b2_state := JUMP\<rparr>)"
  by (simp_all add: no_pending_def b2_consts)

lemma code_bytes_law:
  assumes inv: "dec_inv src dst d" and top: "K_TOP_VALUE \<le> b2_range d" and quiet: "no_pending d"
  shows "\<exists>nx dst' d'. b2_code_bytes src dst d = Some (nx, dst', d') \<and> advances tail src (False, dst, d) (nx = Address, dst', d')
    \<and> (nx = Return True \<and> b2_range d' = b2_range d
          \<and> (b2_state d' = MAIN \<and> b2_bufs d' MAIN = b2_lims d' MAIN \<or> b2_state d' = ORIG \<and> b2_dest d' = length dst')
        \<or> nx \<in> {Again, Address} \<and> b2_state d' = b2_state d \<and> range_ok (b2_range d'))"
proof -
  note ok = top_range_ok [OF top]
  have gt: "5 < b2_range d" "\<not> b2_range d \<le> 5" using range_ok_gt [OF ok] by auto
  define s where "s = b2_bufs d MAIN"
  define room where "room = length dst - b2_dest d"
  have le: "s \<le> b2_lims d MAIN" "b2_lims d MAIN \<le> length src" "b2_dest d \<le> length dst"
    using inv by (auto simp: dec_inv_def b2_consts s_def)
  have m: "b2_mach False tail src d = b2_view False tail src d"
    using top gt by (simp add: b2_mach_def m_norm_def b2_view_def not_less)
  consider "b2_lims d MAIN = s" | "s < b2_lims d MAIN" "room = 0" | "s < b2_lims d MAIN" "0 < room" using le(1) by linarith
  then show ?thesis
  proof cases
    case 1
    have "b2_code_bytes src dst d = Some (Return True, dst, d\<lparr>b2_state := MAIN\<rparr>)"
      using 1 by (simp add: b2_code_bytes_def Let_def s_def)
    moreover have "dec_inv src dst (d\<lparr>b2_state := MAIN\<rparr>)" using inv gt by (auto simp: dec_inv_def b2_consts)
    moreover have "b2_mach False tail src (d\<lparr>b2_state := MAIN\<rparr>) = b2_mach False tail src d"
      by (rule view_state [OF quiet]) simp
    ultimately show ?thesis using 1 by (auto simp: s_def intro!: advances_same m_runs.stop)
  next
    case 2
    have "b2_code_bytes src dst d = Some (Return True, dst, d\<lparr>b2_state := ORIG\<rparr>)"
      using 2 by (simp add: b2_code_bytes_def Let_def s_def room_def)
    moreover have "dec_inv src dst (d\<lparr>b2_state := ORIG\<rparr>)" using inv gt by (auto simp: dec_inv_def b2_consts)
    moreover have "b2_mach False tail src (d\<lparr>b2_state := ORIG\<rparr>) = b2_mach False tail src d"
      by (rule view_state [OF quiet]) simp
    ultimately show ?thesis using 2 le(3) by (auto simp: room_def intro!: advances_same m_runs.stop)
  next
    case 3
    define lim where "lim = s + min (b2_lims d MAIN - s) room"
    have lim: "s < lim" "lim \<le> b2_lims d MAIN" "lim \<le> length src" "b2_dest d + (lim - s) \<le> length dst"
      using 3 le by (auto simp: lim_def room_def)
    from copy_law [OF lim(1,3,4) [unfolded s_def]]
    obtain e where e: "s \<le> e" "e \<le> lim" "plain_code (b2_temp d 3) (window src s e)"
        "e < lim \<longrightarrow> is_branch (last (b2_temp d 3 # window src s e)) (src ! e)"
        "b2_copy src dst lim d = Some (e, overwrite dst (b2_dest d) (window src s (if e < lim then e + 1 else e)))"
      unfolding s_def by blast
    note lim_eq = lim_def [unfolded s_def room_def]
    have num: "b2_lims d MAIN - b2_bufs d MAIN \<noteq> 0" "length dst - b2_dest d \<noteq> 0" using 3 by (simp_all add: s_def room_def)
    have strm: "m_strm (b2_view False tail src d) MAIN = window src s e @ (window src e (b2_lims d MAIN) @ tail MAIN)"
      using window_append [of s e "b2_lims d MAIN" src] e(1,2) lim(2) by (simp add: b2_view_def s_def)
    have plain: "m_runs (b2_view False tail src d) (window src s e) ((b2_view False tail src d)\<lparr>m_prev := last (b2_temp d 3 # window src s e),
        m_ip := b2_ip d + of_nat (length (window src s e)), m_strm := (m_strm (b2_view False tail src d))(MAIN := window src e (b2_lims d MAIN) @ tail MAIN)\<rparr>)"
      using runs_plain [of "b2_view False tail src d" "window src s e" "window src e (b2_lims d MAIN) @ tail MAIN"] top e(3) strm
      by (simp add: view_quiet [OF quiet])
    show ?thesis
    proof (cases "e = lim")
      case True
      define d' where "d' = d\<lparr>b2_temp := (b2_temp d)(3 := src ! (lim - 1)), b2_bufs := (b2_bufs d)(MAIN := lim), b2_ip := b2_ip d + of_nat (lim - s),
        b2_dest := b2_dest d + (lim - s), b2_state := if lim = b2_lims d MAIN then MAIN else ORIG\<rparr>"
      have res: "b2_code_bytes src dst d = Some (Return True, overwrite dst (b2_dest d) (window src s lim), d')"
        using num e(5) True lim(1,3) by (simp add: b2_code_bytes_def Let_def byte_at_def d'_def s_def flip: lim_eq)
      have q': "no_pending d'" by (simp add: d'_def no_pending_def b2_consts)
      have len: "length (window src s lim) = lim - s" using lim by simp
      have "b2_mach False tail src d' = b2_view False tail src d'"
        using top gt by (simp add: b2_mach_def m_norm_def b2_view_def not_less d'_def)
      also have "\<dots> = (b2_view False tail src d)\<lparr>m_prev := last (b2_temp d 3 # window src s e),
        m_ip := b2_ip d + of_nat (length (window src s e)), m_strm := (m_strm (b2_view False tail src d))(MAIN := window src e (b2_lims d MAIN) @ tail MAIN)\<rparr>"
        unfolding view_quiet [OF q'] view_quiet [OF quiet] True last_window [OF less_imp_le [OF lim(1)] lim(3)] len
        using lim(1) by (auto simp: d'_def)
      finally have run: "m_runs (b2_mach False tail src d) (window src s lim) (b2_mach False tail src d')"
        using plain True by (simp add: m)
      have inv': "dec_inv src (overwrite dst (b2_dest d) (window src s lim)) d'"
        using inv gt lim len by (auto simp: dec_inv_def d'_def overwrite_simps b2_consts s_def)
      have "window (overwrite dst (b2_dest d) (window src s lim)) (b2_dest d) (b2_dest d + (lim - s)) = window src s lim"
        using overwrite_simps(5) [of "b2_dest d" "window src s lim" dst] len lim(4) by simp
      then have adv: "advances tail src (False, dst, d) (False, overwrite dst (b2_dest d) (window src s lim), d')"
        using inv' run lim len by (simp add: advances_def d'_def overwrite_simps s_def)
      have "b2_state d' = MAIN \<and> b2_bufs d' MAIN = b2_lims d' MAIN
          \<or> b2_state d' = ORIG \<and> b2_dest d' = length (overwrite dst (b2_dest d) (window src s lim))"
      proof (cases "lim = b2_lims d MAIN")
        case False
        then have "lim - s = room" using lim(1) le(1) by (auto simp: lim_def)
        then show ?thesis using False lim len le(3) by (simp add: d'_def overwrite_simps room_def)
      qed (simp add: d'_def)
      then show ?thesis using res adv by (auto simp: d'_def)
    next
      case False
      then have e': "e < lim" "e < length src" using e(2) lim(3) by simp_all
      define b where "b = src ! e"
      define prev where "prev = last (b2_temp d 3 # window src s e)"
      define i where "i = prob_index prev b"
      obtain moved rng code prob where bit: "b2_bit (b2_range d) (b2_code d) (b2_probs d i) = (moved, rng, code, prob)"
        by (metis surj_pair)
      note good = bit_ok [OF top _ bit]
      define d' where "d' = d\<lparr>b2_temp := (b2_temp d)(3 := b), b2_bufs := (b2_bufs d)(MAIN := e + 1), b2_ip := b2_ip d + of_nat (e - s + 1),
        b2_dest := b2_dest d + (e - s + 1), b2_range := rng, b2_code := code, b2_probs := (b2_probs d)(i := prob)\<rparr>"
      have prev: "(if e - s = 0 then Some (b2_temp d 3) else byte_at src (e - 1)) = Some prev"
        using last_window [OF e(1) less_imp_le [OF e'(2)]] e(1) e'(2) by (auto simp: prev_def byte_at_def)
      have out: "window src s (e + 1) = window src s e @ [b]" "length (window src s (e + 1)) = e - s + 1"
        using e(1) e' window_snoc [of s e src] by (simp_all add: b_def)
      have res: "b2_code_bytes src dst d = Some (if moved then Address else Again, overwrite dst (b2_dest d) (window src s (e + 1)), d')"
        using num e(5) e' prev bit by (simp add: b2_code_bytes_def Let_def byte_at_def d'_def s_def i_def b_def flip: lim_eq)
      have prob: "prob_ok (b2_probs d i)" using inv by (simp add: dec_inv_def)
      have ok': "range_ok rng" "prob_ok prob" using good [OF prob] by simp_all
      have gt': "\<not> rng \<le> 5" using range_ok_gt [OF ok'(1)] by simp
      have q': "no_pending d'" using quiet by (simp add: d'_def no_pending_def)
      define v where "v = (b2_view False tail src d)\<lparr>m_prev := prev, m_ip := b2_ip d + of_nat (length (window src s e)),
        m_strm := (m_strm (b2_view False tail src d))(MAIN := window src e (b2_lims d MAIN) @ tail MAIN)\<rparr>"
      have rest: "window src e (b2_lims d MAIN) = b # window src (e + 1) (b2_lims d MAIN)"
        using window_Cons [of e "b2_lims d MAIN" src] e' lim(2) by (simp add: b_def)
      have v: "m_range v = b2_range d" "m_code v = b2_code d" "m_probs v = b2_probs d" "m_prev v = prev" "m_pend v = []" "\<not> m_branch v"
        "m_strm v MAIN = b # window src (e + 1) (b2_lims d MAIN) @ tail MAIN"
        by (simp_all add: v_def view_quiet [OF quiet] rest)
      have "m_step v = Emits b (m_after b v)"
        using step_code [of v] v ok top by (simp add: not_less)
      moreover have "m_after b v = m_norm (b2_view moved tail src d')"
      proof -
        have "is_branch prev b" using e(4) e'(1) by (simp add: prev_def b_def)
        then have "m_after b v = m_norm (v\<lparr>m_prev := b, m_ip := m_ip v + 1, m_strm := (m_strm v)(MAIN := window src (e + 1) (b2_lims d MAIN) @ tail MAIN),
            m_range := rng, m_code := code, m_probs := (b2_probs d)(i := prob), m_branch := moved\<rparr>)"
          using v bit by (simp add: m_after_def Let_def i_def)
        also have "v\<lparr>m_prev := b, m_ip := m_ip v + 1, m_strm := (m_strm v)(MAIN := window src (e + 1) (b2_lims d MAIN) @ tail MAIN),
            m_range := rng, m_code := code, m_probs := (b2_probs d)(i := prob), m_branch := moved\<rparr> = b2_view moved tail src d'"
          unfolding view_quiet [OF q'] v_def view_quiet [OF quiet] using e(1) e' by (auto simp: d'_def)
        finally show ?thesis .
      qed
      moreover have "b2_mach moved tail src d' = m_norm (b2_view moved tail src d')" by (rule mach_running) (simp add: d'_def ok'(1))
      ultimately have last: "m_runs v [b] (b2_mach moved tail src d')" by (simp add: m_runs.emit m_runs.stop)
      have "m_runs (b2_mach False tail src d) (window src s e) v" using plain by (simp add: m v_def prev_def)
      from runs_trans [OF this last] have run: "m_runs (b2_mach False tail src d) (window src s (e + 1)) (b2_mach moved tail src d')" unfolding out(1) .
      have fits: "b2_dest d + (e - s + 1) \<le> length dst" using lim(4) e(1) e'(1) by simp
      have inv': "dec_inv src (overwrite dst (b2_dest d) (window src s (e + 1))) d'"
        using inv gt gt' ok' fits e' lim(2) out(2) by (auto simp: dec_inv_def d'_def overwrite_simps b2_consts)
      have "window (overwrite dst (b2_dest d) (window src s (e + 1))) (b2_dest d) (b2_dest d + (e - s + 1)) = window src s (e + 1)"
        using overwrite_simps(5) [of "b2_dest d" "window src s (e + 1)" dst] out(2) fits by simp
      then have adv: "advances tail src (False, dst, d) (moved, overwrite dst (b2_dest d) (window src s (e + 1)), d')"
        using inv' run fits out(2) e(1) by (simp add: advances_def d'_def overwrite_simps s_def)
      show ?thesis using res adv ok'(1) by (cases moved) (auto simp: d'_def)
    qed
  qed
qed

text \<open>The byte of code that the machine has already taken.\<close>

lemma normalise_law:
  assumes "dec_inv src dst d" "range_ok (b2_range d)" "b2_range d < K_TOP_VALUE" "b2_bufs d RC \<noteq> b2_lims d RC"
  shows "\<exists>d'. b2_normalise src d = Some d' \<and> advances tail src (br, dst, d) (br, dst, d') \<and> K_TOP_VALUE \<le> b2_range d'
    \<and> b2_state d' = b2_state d \<and> b2_dest d' = b2_dest d \<and> (\<forall>i. i \<noteq> RC \<longrightarrow> b2_bufs d' i = b2_bufs d i)
    \<and> b2_mach br tail src d' = b2_mach br tail src d"
proof -
  have "b2_bufs d RC \<le> b2_lims d RC \<and> b2_lims d RC \<le> length src" using assms(1) by (auto simp: dec_inv_def b2_consts)
  then have le: "b2_bufs d RC < b2_lims d RC" "b2_lims d RC \<le> length src" using assms(4) by simp_all
  have gt: "5 < b2_range d" "\<not> b2_range d \<le> 5" using range_ok_gt [OF assms(2)] by auto
  let ?b = "src ! b2_bufs d RC"
  define r where "r = push_bit 8 (b2_range d)"
  define d' where "d' = d\<lparr>b2_code := shift_code (b2_code d) ?b, b2_bufs := (b2_bufs d)(RC := b2_bufs d RC + 1), b2_range := r\<rparr>"
  have top: "K_TOP_VALUE \<le> r" unfolding r_def by (rule shifted_range [OF assms(2,3)])
  have gt': "5 < r" "\<not> r \<le> 5" "\<not> r < K_TOP_VALUE" using range_ok_gt [OF top_range_ok [OF top]] top by auto
  have res: "b2_normalise src d = Some d'" using le by (simp add: b2_normalise_def b2_take_code_def byte_at_def d'_def r_def)
  have inv: "dec_inv src dst d'" 
    using assms(1) le gt(2) gt'(2) top_range_ok [OF top] unfolding dec_inv_def d'_def by (simp add: b2_consts)
  have strm: "window src (b2_bufs d RC) (b2_lims d RC) = ?b # window src (b2_bufs d RC + 1) (b2_lims d RC)"
    by (rule window_Cons) (use le in simp_all)
  have "m_norm (b2_view br tail src d) = b2_view br tail src d'"
    using assms(3) gt gt' strm by (auto simp: m_norm_def b2_view_def d'_def r_def [symmetric])
  moreover have "m_norm (b2_view br tail src d') = b2_view br tail src d'" using gt' by (simp add: m_norm_def b2_view_def d'_def)
  ultimately have mach: "b2_mach br tail src d' = b2_mach br tail src d" using gt gt' by (simp add: b2_mach_def d'_def)
  then have "advances tail src (br, dst, d) (br, dst, d')"
    by (intro advances_same inv) (simp_all add: d'_def m_runs.stop)
  then show ?thesis using res top mach by (intro exI [of _ d']) (simp add: d'_def)
qed

lemma main_law:
  assumes "dec_inv src dst d" "range_ok (b2_range d)" "no_pending d"
  shows "\<exists>nx dst' d'. b2_main src dst d = Some (nx, dst', d') \<and> advances tail src (False, dst, d) (nx = Address, dst', d')
    \<and> (nx = Return True
          \<and> (b2_state d' = RC \<and> b2_bufs d' RC = b2_lims d' RC \<and> b2_range d' < K_TOP_VALUE \<and> range_ok (b2_range d')
            \<or> K_TOP_VALUE \<le> b2_range d'
              \<and> (b2_state d' = MAIN \<and> b2_bufs d' MAIN = b2_lims d' MAIN \<or> b2_state d' = ORIG \<and> b2_dest d' = length dst'))
        \<or> nx \<in> {Again, Address} \<and> b2_state d' = b2_state d \<and> range_ok (b2_range d'))"
proof -
  have gt: "5 < b2_range d" "\<not> b2_range d \<le> 5" using range_ok_gt [OF assms(2)] by auto
  consider "K_TOP_VALUE \<le> b2_range d" | "b2_range d < K_TOP_VALUE" "b2_bufs d RC = b2_lims d RC"
    | "b2_range d < K_TOP_VALUE" "b2_bufs d RC \<noteq> b2_lims d RC" by fastforce
  then show ?thesis
  proof cases
    case 1
    then have "\<not> b2_range d < K_TOP_VALUE" by simp
    then have "b2_main src dst d = b2_code_bytes src dst d" by (simp add: b2_main_def)
    then show ?thesis using code_bytes_law [OF assms(1) 1 assms(3), of tail] 1 by fastforce
  next
    case 2
    have "advances tail src (False, dst, d) (False, dst, d\<lparr>b2_state := RC\<rparr>)"
    proof (rule advances_same)
      show "dec_inv src dst (d\<lparr>b2_state := RC\<rparr>)" using assms(1) gt by (auto simp: dec_inv_def b2_consts)
      show "m_runs (b2_mach False tail src d) [] (b2_mach False tail src (d\<lparr>b2_state := RC\<rparr>))"
        by (subst view_state [OF assms(3)]) (simp_all add: m_runs.stop)
    qed simp_all
    moreover have "b2_main src dst d = Some (Return True, dst, d\<lparr>b2_state := RC\<rparr>)" using 2 by (simp add: b2_main_def)
    ultimately show ?thesis using 2 assms(2) by auto
  next
    case 3
    obtain d1 where d1: "b2_normalise src d = Some d1" "advances tail src (False, dst, d) (False, dst, d1)" "K_TOP_VALUE \<le> b2_range d1"
        "b2_state d1 = b2_state d"
      using normalise_law [OF assms(1,2) 3, of tail False] by blast
    have "b2_main src dst d = b2_code_bytes src dst d1" using 3 d1(1) by (simp add: b2_main_def)
    moreover have "dec_inv src dst d1" "no_pending d1" using d1(2,4) assms(3) by (simp_all add: advances_def no_pending_def)
    ultimately show ?thesis using code_bytes_law [OF _ d1(3), of src dst tail] advances_trans [OF d1(2)] d1(3,4) by fastforce
  qed
qed

subsection \<open>Addresses\<close>

lemma runs_pending: "range_ok (m_range m) \<Longrightarrow> m_pend m = ps @ qs \<Longrightarrow> m_runs m ps (m\<lparr>m_pend := qs\<rparr>)"
proof (induction ps arbitrary: m)
  case Nil
  then have "m\<lparr>m_pend := qs\<rparr> = m" by (cases m) simp
  then show ?case by (simp add: m_runs.stop)
next
  case (Cons p ps)
  have "m_runs (m\<lparr>m_pend := ps @ qs\<rparr>) ps ((m\<lparr>m_pend := ps @ qs\<rparr>)\<lparr>m_pend := qs\<rparr>)"
    by (rule Cons.IH) (use Cons.prems in simp_all)
  then show ?case using step_pending [of m p "ps @ qs"] Cons.prems by (simp add: m_runs.emit)
qed

lemma m_norm_strm:
  "i \<noteq> RC \<Longrightarrow> m_norm (m\<lparr>m_strm := (m_strm m)(i := x)\<rparr>) = (m_norm m)\<lparr>m_strm := (m_strm (m_norm m))(i := x)\<rparr>"
  by (auto simp: m_norm_def fun_upd_twist split: list.split)

lemma four_bytes:
  assumes "cur + 4 \<le> length src"
  obtains x0 x1 x2 x3 where "take 4 (drop cur src) = [x0, x1, x2, x3]"
proof -
  have "window src cur (cur + 4) = [src ! cur, src ! (cur + 1), src ! (cur + 2), src ! (cur + 3)]"
    using assms window_Cons [of cur "cur + 4" src] window_Cons [of "cur + 1" "cur + 4" src]
      window_Cons [of "cur + 2" "cur + 4" src] window_Cons [of "Suc (Suc (Suc cur))" "cur + 4" src] by (simp add: numeral_3_eq_3 eval_nat_numeral)
  then show thesis using that by (simp add: window_def)
qed

lemma le_bytes4_length [simp]: "length (le_bytes4 v) = 4"
  by (simp add: le_bytes4_def)

lemma address_law:
  assumes inv: "dec_inv src dst d" and ok: "range_ok (b2_range d)" and quiet: "no_pending d"
  shows "\<exists>nx dst' d'. b2_address src dst d = Some (nx, dst', d') \<and> b2_range d' = b2_range d
    \<and> (nx = Stop \<and> advances tail src (True, dst, d) (True, dst', d') \<and> is_32bit (b2_state d') \<and> b2_bufs d' (b2_state d') = b2_lims d' (b2_state d')
          \<and> (length (tail (b2_state d')) < 4 \<longrightarrow> m_step (b2_mach True tail src d') = Waits (b2_state d'))
      \<or> nx = Stop \<and> advances tail src (True, dst, d) (False, dst', d') \<and> ORIG_0 \<le> b2_state d' \<and> b2_state d' \<le> ORIG_3 \<and> b2_dest d' = length dst'
      \<or> nx = Again \<and> advances tail src (True, dst, d) (False, dst', d') \<and> b2_state d' = b2_state d)"
proof -
  define cj where "cj = (if b2_temp d 3 = 0xE8 then CALL else JUMP)"
  have cj: "cj < STREAMS" "cj \<in> {CALL, JUMP}" "cj \<noteq> RC" "cj \<noteq> MAIN" "is_32bit cj" by (auto simp: cj_def b2_consts is_32bit_def)
  have gt: "5 < b2_range d" "\<not> b2_range d \<le> 5" using range_ok_gt [OF ok] by auto
  define cur where "cur = b2_bufs d cj"
  have "cur \<le> b2_lims d cj \<and> b2_lims d cj \<le> length src \<and> b2_dest d \<le> length dst" using inv cj(1) by (auto simp: dec_inv_def cur_def)
  then have le: "cur \<le> b2_lims d cj" "b2_lims d cj \<le> length src" "b2_dest d \<le> length dst" by simp_all
  have words: "4 dvd b2_lims d cj - cur" using inv cj(2) by (auto simp: dec_inv_def cur_def)
  define v where "v = b2_view True tail src d"
  have m: "b2_mach True tail src d = m_norm v" using ok by (simp add: mach_running v_def)
  have mok: "range_ok (m_range (m_norm v))" using mach_range_ok [OF ok, of True tail src] by (simp add: m)
  have v: "m_pend v = []" "m_branch v" "m_prev v = b2_temp d 3" "m_ip v = b2_ip d" "m_strm v = (\<lambda>i. window src (b2_bufs d i) (b2_lims d i) @ tail i)"
    using quiet by (simp_all add: v_def view_quiet)
  have target: "m_target (m_norm v) = cj" by (simp add: m_target_def v(3) cj_def)
  show ?thesis
  proof (cases "cur = b2_lims d cj")
    case True
    let ?d = "d\<lparr>b2_state := cj\<rparr>"
    have res: "b2_address src dst d = Some (Stop, dst, ?d)"
      using True by (simp add: b2_address_def Let_def cj_def [symmetric] cur_def)
    have "no_pending ?d" using cj(2) by (auto simp: no_pending_def b2_consts)
    then have mach: "b2_mach True tail src ?d = m_norm v" using view_state [OF quiet] m by simp
    have "dec_inv src dst ?d" using inv gt cj(2) by (auto simp: dec_inv_def b2_consts)
    then have "advances tail src (True, dst, d) (True, dst, ?d)"
      by (intro advances_same) (simp_all add: m mach m_runs.stop)
    moreover have "m_step (m_norm v) = Waits cj" if "length (tail cj) < 4"
    proof -
      have "take 4 (m_strm (m_norm v) cj) = tail cj" using that cj(3) True by (simp add: v(5) cur_def)
      then show ?thesis using that step_address [OF mok] v(1,2) target by (auto split: list.split)
    qed
    ultimately show ?thesis using res True cj(5) by (auto simp: mach cur_def)
  next
    case False
    have in_buf: "cur + 4 \<le> b2_lims d cj"
    proof -
      obtain k where "b2_lims d cj - cur = 4 * k" using words by (auto simp: dvd_def)
      then show ?thesis using False le(1) by (cases k) auto
    qed
    then have "cur + 4 \<le> length src" using le(2) by simp
    from four_bytes [OF this] obtain x0 x1 x2 x3 where x: "take 4 (drop cur src) = [x0, x1, x2, x3]" .
    define ip where "ip = b2_ip d + 4"
    define bs where "bs = le_bytes4 (be_word x0 x1 x2 x3 - ip)"
    have bs: "length bs = 4" by (simp add: bs_def)
    define room where "room = length dst - b2_dest d"
    have win: "window src cur (b2_lims d cj) = [x0, x1, x2, x3] @ window src (cur + 4) (b2_lims d cj)"
      using window_append [of cur "cur + 4" "b2_lims d cj" src] in_buf x by (simp add: window_def)
    define vs where "vs = v\<lparr>m_strm := (m_strm v)(cj := window src (cur + 4) (b2_lims d cj) @ tail cj)\<rparr>"
    define w where "w p = (m_norm vs)\<lparr>m_ip := ip, m_prev := bs ! 3, m_pend := p, m_branch := False\<rparr>" for p
    have strm: "m_strm (m_norm v) cj = [x0, x1, x2, x3] @ window src (cur + 4) (b2_lims d cj) @ tail cj"
      using cj(3) win by (simp add: v(5) cur_def)
    have "m_step (m_norm v) = Silent (w bs)"
      using step_address [OF mok] v(1,2) target strm m_norm_strm [OF cj(3), of v]
      by (simp add: w_def vs_def v(4) ip_def [symmetric] bs_def [symmetric] Let_def)
    then have to_w: "m_runs (b2_mach True tail src d) [] (w bs)" unfolding m by (rule runs_silent)
    have wok: "range_ok (m_range (w p))" for p
      using m_norm_strm [OF cj(3), of v] mok by (simp add: w_def vs_def)
    have emits: "m_runs (b2_mach True tail src d) ps (w qs)" if "bs = ps @ qs" for ps qs
    proof -
      have "(w bs)\<lparr>m_pend := qs\<rparr> = w qs" by (cases "m_norm vs") (simp add: w_def)
      moreover have "m_pend (w bs) = ps @ qs" using that by (simp add: w_def)
      from runs_trans [OF to_w runs_pending [OF wok this]] have "m_runs (b2_mach True tail src d) ps ((w bs)\<lparr>m_pend := qs\<rparr>)" by simp
      ultimately show ?thesis by metis
    qed
    have w: "w p = m_norm (vs\<lparr>m_ip := ip, m_prev := bs ! 3, m_pend := p, m_branch := False\<rparr>)" for p
      by (simp add: w_def m_norm_update)
    have words': "4 dvd b2_lims d cj - (cur + 4)" using dvd_diff_nat [OF words, of 4] by (simp add: diff_diff_left)
    have bufs: "\<forall>i<STREAMS. ((b2_bufs d)(cj := cur + 4)) i \<le> b2_lims d i \<and> b2_lims d i \<le> length src"
      "\<forall>i\<in>{CALL, JUMP}. 4 dvd b2_lims d i - ((b2_bufs d)(cj := cur + 4)) i"
      using inv in_buf words' by (auto simp: dec_inv_def)
    have rest: "b2_range d \<le> 5 \<or> range_ok (b2_range d)" "\<forall>i. prob_ok (b2_probs d i)" "b2_state d \<le> STATE_OK"
      using inv by (auto simp: dec_inv_def)
    have src4: "\<not> length src < cur" "cur \<noteq> b2_lims d cj" using False le in_buf by auto
    show ?thesis
    proof (cases "room < 4")
      case True
      define d' where "d' = d\<lparr>b2_bufs := (b2_bufs d)(cj := cur + 4), b2_ip := ip, b2_temp := (\<lambda>i. if i < 4 then bs ! i else b2_temp d i),
        b2_dest := b2_dest d + room, b2_state := ORIG_0 + room\<rparr>"
      have len: "length (take room bs) = room" using True bs by simp
      have fits: "b2_dest d + length (take room bs) \<le> length dst" unfolding len using le(3) by (simp add: room_def)
      have res: "b2_address src dst d = Some (Stop, overwrite dst (b2_dest d) (take room bs), d')"
        unfolding d'_def bs_def using src4 x put_law [OF fits, unfolded bs_def] True
        by (simp add: b2_address_def Let_def cj_def [symmetric] cur_def [symmetric] ip_def [symmetric] room_def [symmetric])
      have "map (b2_temp d') [room..<4] = drop room bs"
        by (rule nth_equalityI) (use bs in \<open>auto simp: d'_def\<close>)
      then have "b2_view False tail src d' = vs\<lparr>m_ip := ip, m_prev := bs ! 3, m_pend := drop room bs, m_branch := False\<rparr>"
        using True gt by (auto simp: b2_view_def vs_def v_def d'_def b2_consts)
      then have mach: "b2_mach False tail src d' = w (drop room bs)"
        using gt by (simp add: w b2_mach_def d'_def)
      have run: "m_runs (b2_mach True tail src d) (take room bs) (b2_mach False tail src d')" unfolding mach by (rule emits) simp
      have "ORIG_0 + room \<le> STATE_OK" using True by (simp add: b2_consts)
      then have inv': "dec_inv src (overwrite dst (b2_dest d) (take room bs)) d'"
        using bufs rest fits len gt unfolding dec_inv_def d'_def by (simp add: overwrite_simps)
      have "window (overwrite dst (b2_dest d) (take room bs)) (b2_dest d) (b2_dest d + room) = take room bs"
        using overwrite_simps(5) [OF fits] len by simp
      then have "advances tail src (True, dst, d) (False, overwrite dst (b2_dest d) (take room bs), d')"
        using inv' run fits len by (simp add: advances_def d'_def overwrite_simps cur_def)
      then show ?thesis using res True le(3) fits len by (auto simp: d'_def b2_consts overwrite_simps room_def)
    next
      case False
      define d' where "d' = d\<lparr>b2_bufs := (b2_bufs d)(cj := cur + 4), b2_ip := ip, b2_temp := (b2_temp d)(3 := bs ! 3), b2_dest := b2_dest d + 4\<rparr>"
      have fits: "b2_dest d + length bs \<le> length dst" using False bs by (simp add: room_def)
      have res: "b2_address src dst d = Some (Again, overwrite dst (b2_dest d) bs, d')"
        using src4 x put_law [OF fits] False
        by (simp add: b2_address_def Let_def cj_def [symmetric] cur_def [symmetric] ip_def [symmetric] bs_def [symmetric] room_def [symmetric] d'_def)
      have "no_pending d'" using quiet by (simp add: no_pending_def d'_def)
      then have "b2_view False tail src d' = vs\<lparr>m_ip := ip, m_prev := bs ! 3, m_pend := [], m_branch := False\<rparr>"
        by (auto simp: view_quiet view_quiet [OF quiet] vs_def v_def d'_def)
      then have mach: "b2_mach False tail src d' = w []"
        using gt by (simp add: w b2_mach_def d'_def)
      have run: "m_runs (b2_mach True tail src d) bs (b2_mach False tail src d')" unfolding mach by (rule emits) simp
      have inv': "dec_inv src (overwrite dst (b2_dest d) bs) d'"
        using bufs rest fits bs gt unfolding dec_inv_def d'_def by (simp add: overwrite_simps)
      have "window (overwrite dst (b2_dest d) bs) (b2_dest d) (b2_dest d + 4) = bs"
        using overwrite_simps(5) [OF fits] bs by simp
      then have "advances tail src (True, dst, d) (False, overwrite dst (b2_dest d) bs, d')"
        using inv' run fits bs by (simp add: advances_def d'_def overwrite_simps cur_def)
      then show ?thesis using res by (auto simp: d'_def)
    qed
  qed
qed

subsection \<open>The whole of decode\<close>

text \<open>Where a call may stop: at an empty buffer, which the machine needs, or at the end of the destination.\<close>

definition decode_exit :: "(nat \<Rightarrow> bytes) \<Rightarrow> bytes \<Rightarrow> bytes \<Rightarrow> bcj2_decoder \<Rightarrow> bool" where
  "decode_exit tail src dst d \<longleftrightarrow>
     (b2_state d < STREAMS \<and> b2_bufs d (b2_state d) = b2_lims d (b2_state d)
         \<and> ((if is_32bit (b2_state d) then length (tail (b2_state d)) < 4 else tail (b2_state d) = [])
             \<longrightarrow> m_step (b2_mach (is_32bit (b2_state d)) tail src d) = Waits (b2_state d))
      \<or> ORIG_0 \<le> b2_state d \<and> b2_state d \<le> ORIG \<and> b2_dest d = length dst)
     \<and> (b2_state d = MAIN \<or> b2_state d = ORIG \<longrightarrow> K_TOP_VALUE \<le> b2_range d)"

lemma code_exit:
  assumes "range_ok (b2_range d)"
    and "b2_state d = RC \<and> b2_bufs d RC = b2_lims d RC \<and> b2_range d < K_TOP_VALUE
      \<or> K_TOP_VALUE \<le> b2_range d \<and> (b2_state d = MAIN \<and> b2_bufs d MAIN = b2_lims d MAIN \<or> b2_state d = ORIG \<and> b2_dest d = length dst)"
  shows "decode_exit tail src dst d \<and> \<not> is_32bit (b2_state d)"
proof -
  have not32: "\<not> is_32bit (b2_state d)" using assms(2) by (auto simp: is_32bit_def b2_consts)
  have quiet: "no_pending d" using assms(2) by (auto simp: no_pending_def b2_consts)
  note mach = mach_running [OF assms(1), of False tail src, unfolded view_quiet [OF quiet]]
  note step = step_code [OF mach_range_ok [OF assms(1), of False tail src]]
  from assms(2) consider (rc) "b2_state d = RC" "b2_bufs d RC = b2_lims d RC" "b2_range d < K_TOP_VALUE"
    | (main) "K_TOP_VALUE \<le> b2_range d" "b2_state d = MAIN" "b2_bufs d MAIN = b2_lims d MAIN"
    | (orig) "K_TOP_VALUE \<le> b2_range d" "b2_state d = ORIG" "b2_dest d = length dst" by blast
  then show ?thesis
  proof cases
    case rc
    have "m_step (b2_mach False tail src d) = Waits RC" if "tail RC = []"
      using step rc that by (simp add: mach m_norm_def)
    then show ?thesis using rc not32 by (auto simp: decode_exit_def) (auto simp: b2_consts)
  next
    case main
    then have "\<not> b2_range d < K_TOP_VALUE" by simp
    then have "m_step (b2_mach False tail src d) = Waits MAIN" if "tail MAIN = []"
      using step main that by (simp add: mach m_norm_def)
    then show ?thesis using main not32 by (auto simp: decode_exit_def) (auto simp: b2_consts)
  next
    case orig
    then show ?thesis using not32 by (auto simp: decode_exit_def b2_consts)
  qed
qed

lemma loop_law:
  assumes "dec_inv src dst d" "range_ok (b2_range d)" "no_pending d"
  shows "\<exists>nx dst' d'. b2_loop src dst d = Some (nx, dst', d')
    \<and> advances tail src (is_32bit (b2_state d), dst, d) (is_32bit (b2_state d'), dst', d') \<and> range_ok (b2_range d')
    \<and> decode_exit tail src dst' d' \<and> (nx = Return True \<or> nx = Stop \<and> \<not> (b2_state d' = MAIN \<or> b2_state d' = ORIG))"
  using assms
proof (induction "b2_left src d" arbitrary: dst d rule: less_induct)
  case less
  let ?R = "\<lambda>x dst d. \<exists>nx dst' d'. x = Some (nx, dst', d') \<and> advances tail src (is_32bit (b2_state d), dst, d) (is_32bit (b2_state d'), dst', d')
    \<and> range_ok (b2_range d') \<and> decode_exit tail src dst' d' \<and> (nx = Return True \<or> nx = Stop \<and> \<not> (b2_state d' = MAIN \<or> b2_state d' = ORIG))"
  have again: "?R (b2_loop src dst1 d1) dst d"
    if "b2_left src d1 < b2_left src d" "advances tail src (is_32bit (b2_state d), dst, d) (False, dst1, d1)" "range_ok (b2_range d1)"
      "no_pending d1" "\<not> is_32bit (b2_state d1)" for dst1 d1
  proof -
    have "dec_inv src dst1 d1" using that(2) by (simp add: advances_def)
    from less.hyps [OF that(1) this that(3,4)] show ?thesis using that(5) advances_trans [OF that(2)] by simp blast
  qed
  have address: "?R (case b2_address src dst1 d1 of None \<Rightarrow> None
      | Some (nx, dst2, d2) \<Rightarrow> if nx = Again then b2_loop src dst2 d2 else Some (nx, dst2, d2)) dst d"
    if a: "b2_left src d1 \<le> b2_left src d" "advances tail src (is_32bit (b2_state d), dst, d) (True, dst1, d1)" "range_ok (b2_range d1)"
      "no_pending d1" "\<not> is_32bit (b2_state d1)" for dst1 d1
  proof -
    have "dec_inv src dst1 d1" using a(2) by (simp add: advances_def)
    from address_law [OF this a(3,4), of tail] obtain nx dst2 d2 where r: "b2_address src dst1 d1 = Some (nx, dst2, d2)" "b2_range d2 = b2_range d1"
      and alt: "nx = Stop \<and> advances tail src (True, dst1, d1) (True, dst2, d2) \<and> is_32bit (b2_state d2) \<and> b2_bufs d2 (b2_state d2) = b2_lims d2 (b2_state d2)
          \<and> (length (tail (b2_state d2)) < 4 \<longrightarrow> m_step (b2_mach True tail src d2) = Waits (b2_state d2))
        \<or> nx = Stop \<and> advances tail src (True, dst1, d1) (False, dst2, d2) \<and> ORIG_0 \<le> b2_state d2 \<and> b2_state d2 \<le> ORIG_3 \<and> b2_dest d2 = length dst2
        \<or> nx = Again \<and> advances tail src (True, dst1, d1) (False, dst2, d2) \<and> b2_state d2 = b2_state d1" by blast
    from alt consider (words) "nx = Stop" "advances tail src (True, dst1, d1) (True, dst2, d2)" "is_32bit (b2_state d2)" "b2_bufs d2 (b2_state d2) = b2_lims d2 (b2_state d2)"
          "length (tail (b2_state d2)) < 4 \<longrightarrow> m_step (b2_mach True tail src d2) = Waits (b2_state d2)"
        | (full) "nx = Stop" "advances tail src (True, dst1, d1) (False, dst2, d2)" "ORIG_0 \<le> b2_state d2" "b2_state d2 \<le> ORIG_3" "b2_dest d2 = length dst2"
        | (go) "nx = Again" "advances tail src (True, dst1, d1) (False, dst2, d2)" "b2_state d2 = b2_state d1" by blast
    then show ?thesis
    proof cases
      case words
      have "b2_state d2 < STREAMS" "b2_state d2 \<noteq> MAIN" "b2_state d2 \<noteq> ORIG" using words(3) by (auto simp: is_32bit_def b2_consts)
      then show ?thesis using r words advances_trans [OF a(2) words(2)] a(3) by (simp add: decode_exit_def)
    next
      case full
      have "b2_state d2 \<noteq> MAIN" "b2_state d2 \<noteq> ORIG" "\<not> is_32bit (b2_state d2)" "b2_state d2 \<le> ORIG"
        using full(3,4) by (auto simp: is_32bit_def b2_consts)
      then show ?thesis using r full advances_trans [OF a(2) full(2)] a(3) by (simp add: decode_exit_def)
    next
      case go
      have "b2_left src d2 < b2_left src d" using address_forward [OF r(1)] go(1) a(1) by simp
      moreover have "no_pending d2" "\<not> is_32bit (b2_state d2)" "range_ok (b2_range d2)" using go(3) a(3-5) r(2) by (simp_all add: no_pending_def)
      ultimately show ?thesis using again [OF _ advances_trans [OF a(2) go(2)]] r(1) go(1) by simp
    qed
  qed
  show ?case
  proof (cases "is_32bit (b2_state d)")
    case True
    have gt: "\<not> b2_range d \<le> 5" using range_ok_gt [OF less.prems(2)] by simp
    have "dec_inv src dst (d\<lparr>b2_state := STATE_OK\<rparr>)" using less.prems(1) gt by (auto simp: dec_inv_def)
    then have "advances tail src (True, dst, d) (True, dst, d\<lparr>b2_state := STATE_OK\<rparr>)"
      by (intro advances_same) (simp_all add: view_state [OF less.prems(3)] m_runs.stop)
    moreover have "\<not> is_32bit STATE_OK" by (simp add: is_32bit_def b2_consts)
    ultimately show ?thesis
      using address [of "d\<lparr>b2_state := STATE_OK\<rparr>" dst] True less.prems(2) by (subst b2_loop.simps) simp
  next
    case False
    from main_law [OF less.prems, of tail] obtain nx dst1 d1 where r: "b2_main src dst d = Some (nx, dst1, d1)"
        "advances tail src (False, dst, d) (nx = Address, dst1, d1)"
      and alt: "nx = Return True
            \<and> (b2_state d1 = RC \<and> b2_bufs d1 RC = b2_lims d1 RC \<and> b2_range d1 < K_TOP_VALUE \<and> range_ok (b2_range d1)
              \<or> K_TOP_VALUE \<le> b2_range d1
                \<and> (b2_state d1 = MAIN \<and> b2_bufs d1 MAIN = b2_lims d1 MAIN \<or> b2_state d1 = ORIG \<and> b2_dest d1 = length dst1))
          \<or> nx \<in> {Again, Address} \<and> b2_state d1 = b2_state d \<and> range_ok (b2_range d1)" by blast
    note fw = main_forward [OF r(1)]
    from alt consider (returns) "nx = Return True" | (goes) "nx = Again" | (addr) "nx = Address" by blast
    then show ?thesis
    proof cases
      case returns
      have "range_ok (b2_range d1)" using alt returns by (auto intro: top_range_ok)
      moreover have "decode_exit tail src dst1 d1 \<and> \<not> is_32bit (b2_state d1)"
        by (rule code_exit [OF \<open>range_ok (b2_range d1)\<close>]) (use alt returns in blast)
      ultimately show ?thesis using r returns False by (subst b2_loop.simps) simp
    next
      case goes
      have "?R (b2_loop src dst1 d1) dst d"
        by (rule again) (use fw r(2) alt goes False less.prems(3) in \<open>simp_all add: no_pending_def\<close>)
      then show ?thesis using r(1) goes False by (subst b2_loop.simps) simp
    next
      case addr
      have "?R (case b2_address src dst1 d1 of None \<Rightarrow> None
          | Some (nx, dst2, d2) \<Rightarrow> if nx = Again then b2_loop src dst2 d2 else Some (nx, dst2, d2)) dst d"
        by (rule address) (use fw r(2) alt addr False less.prems(3) in \<open>simp_all add: no_pending_def\<close>)
      then show ?thesis using r(1) addr False by (subst b2_loop.simps) simp
    qed
  qed
qed

lemma decode_law:
  assumes inv: "dec_inv src dst d"
  shows "\<exists>ok dst' d'. b2_decode src dst d = Some (ok, dst', d')
    \<and> advances tail src (is_32bit (b2_state d), dst, d) (is_32bit (b2_state d'), dst', d')
    \<and> (if ok then decode_exit tail src dst' d' else m_step (b2_mach (is_32bit (b2_state d')) tail src d') = Broken)"
proof -
  let ?fin = "\<lambda>dst1 d1. Option.bind (b2_loop src dst1 d1) (\<lambda>(nx, dst2, d2).
      case nx of Return r \<Rightarrow> Some (r, dst2, d2)
      | _ \<Rightarrow> if b2_range d2 < K_TOP_VALUE \<and> b2_bufs d2 RC \<noteq> b2_lims d2 RC
             then Option.bind (b2_normalise src d2) (\<lambda>d3. Some (True, dst2, d3)) else Some (True, dst2, d2))"
  let ?R = "\<lambda>x. \<exists>ok dst' d'. x = Some (ok, dst', d')
    \<and> advances tail src (is_32bit (b2_state d), dst, d) (is_32bit (b2_state d'), dst', d')
    \<and> (if ok then decode_exit tail src dst' d' else m_step (b2_mach (is_32bit (b2_state d')) tail src d') = Broken)"
  have finish: "?R (?fin dst1 d1)"
    if a: "advances tail src (is_32bit (b2_state d), dst, d) (is_32bit (b2_state d1), dst1, d1)" "range_ok (b2_range d1)" "no_pending d1" for dst1 d1
  proof -
    have "dec_inv src dst1 d1" using a(1) by (simp add: advances_def)
    from loop_law [OF this a(2,3), of tail] obtain nx dst2 d2 where l: "b2_loop src dst1 d1 = Some (nx, dst2, d2)"
        "advances tail src (is_32bit (b2_state d1), dst1, d1) (is_32bit (b2_state d2), dst2, d2)" "range_ok (b2_range d2)"
        "decode_exit tail src dst2 d2" "nx = Return True \<or> nx = Stop \<and> \<not> (b2_state d2 = MAIN \<or> b2_state d2 = ORIG)" by blast
    note adv = advances_trans [OF a(1) l(2)]
    show ?thesis
    proof (cases "nx = Stop \<and> b2_range d2 < K_TOP_VALUE \<and> b2_bufs d2 RC \<noteq> b2_lims d2 RC")
      case True
      have "dec_inv src dst2 d2" using l(2) by (simp add: advances_def)
      from normalise_law [OF this l(3), of tail "is_32bit (b2_state d2)"] True
      obtain d3 where n: "b2_normalise src d2 = Some d3" "advances tail src (is_32bit (b2_state d2), dst2, d2) (is_32bit (b2_state d2), dst2, d3)"
          "K_TOP_VALUE \<le> b2_range d3" "b2_state d3 = b2_state d2" "b2_dest d3 = b2_dest d2" "\<forall>i. i \<noteq> RC \<longrightarrow> b2_bufs d3 i = b2_bufs d2 i"
          "b2_mach (is_32bit (b2_state d2)) tail src d3 = b2_mach (is_32bit (b2_state d2)) tail src d2" by blast
      have "b2_lims d3 = b2_lims d2" using n(2) by (simp add: advances_def)
      moreover have "b2_state d2 \<noteq> RC \<or> STREAMS \<le> b2_state d2" using l(4) True by (auto simp: decode_exit_def b2_consts)
      ultimately have "decode_exit tail src dst2 d3"
        using l(4,5) True n(3-7) by (auto simp: decode_exit_def b2_consts)
      moreover have "?fin dst1 d1 = Some (True, dst2, d3)" using l(1) True n(1) by simp
      ultimately show ?thesis using advances_trans [OF adv n(2)] n(4) by auto
    next
      case False
      then have "?fin dst1 d1 = Some (True, dst2, d2)" using l(1,5) by auto
      then show ?thesis using adv l(4) by auto
    qed
  qed
  have refl: "advances tail src (is_32bit (b2_state d), dst, d) (is_32bit (b2_state d), dst, d)"
    by (rule advances_same [OF inv]) (simp_all add: m_runs.stop)
  have "b2_range d \<le> 5 \<or> range_ok (b2_range d)" using inv by (simp add: dec_inv_def)
  then consider (start) "b2_range d \<le> 5" | (pending) "range_ok (b2_range d)" "ORIG_0 \<le> b2_state d" | (going) "range_ok (b2_range d)" "b2_state d < ORIG_0"
    using linorder_not_less by blast
  then show ?thesis
  proof cases
    case start
    let ?d = "d\<lparr>b2_state := STATE_OK\<rparr>"
    have not32: "\<not> is_32bit (b2_state d)" "\<not> is_32bit STATE_OK" using inv start by (auto simp: dec_inv_def is_32bit_def b2_consts)
    have np: "\<not> 5 < b2_range d" using start by simp
    have inv1: "dec_inv src dst ?d" using inv by (simp add: dec_inv_def)
    have "b2_mach False tail src ?d = b2_mach False tail src d" using start np by (simp add: b2_mach_def b2_view_def)
    then have adv0: "advances tail src (is_32bit (b2_state d), dst, d) (False, dst, ?d)"
      using not32 by (intro advances_same inv1) (simp_all add: m_runs.stop)
    from start_law [OF inv1, of tail] start obtain r d1 where s: "b2_start src ?d = Some (r, d1)" "advances tail src (False, dst, ?d) (False, dst, d1)"
        "r = Some False \<longrightarrow> b2_range d1 \<le> 5 \<and> m_step (b2_mach False tail src d1) = Broken"
        "r = Some True \<longrightarrow> b2_state d1 = RC \<and> b2_bufs d1 RC = b2_lims d1 RC \<and> (tail RC = [] \<longrightarrow> m_step (b2_mach False tail src d1) = Waits RC)"
        "r = None \<longrightarrow> 5 < b2_range d1 \<and> K_TOP_VALUE \<le> b2_range d1 \<and> b2_state d1 = STATE_OK" by auto
    note adv = advances_trans [OF adv0 s(2)]
    show ?thesis
    proof (cases r)
      case None
      then have "?R (?fin dst d1)"
        using s(5) adv not32 by (intro finish) (simp_all add: top_range_ok no_pending_def b2_consts)
      then show ?thesis using start s(1) None by (simp add: b2_decode_def)
    next
      case (Some ok)
      have res: "b2_decode src dst d = Some (ok, dst, d1)" using start s(1) Some by (simp add: b2_decode_def)
      show ?thesis
      proof (cases ok)
        case True
        have "decode_exit tail src dst d1 \<and> \<not> is_32bit (b2_state d1)"
          using s(4) Some True by (simp add: decode_exit_def is_32bit_def) (simp add: b2_consts)
        then show ?thesis using res adv True by auto
      next
        case False
        then have "b2_range d1 \<le> 5" using s(3) Some by simp
        then have "\<not> is_32bit (b2_state d1)"
          using s(2) by (auto simp: advances_def dec_inv_def is_32bit_def b2_consts)
        then show ?thesis using res adv False s(3) Some by auto
      qed
    qed
  next
    case pending
    have not32: "\<not> is_32bit (b2_state d)" "\<not> b2_range d \<le> 5" using pending range_ok_gt by (auto simp: is_32bit_def b2_consts)
    from pending_law [OF inv pending, of tail] obtain full dst1 d1 where p: "b2_pending dst d = Some (full, dst1, d1)"
        "advances tail src (False, dst, d) (False, dst1, d1)" "b2_range d1 = b2_range d" "ORIG_0 \<le> b2_state d1"
        "if full then b2_state d1 \<le> ORIG_3 \<and> b2_dest d1 = length dst1 else ORIG_3 < b2_state d1" by blast
    have not32': "\<not> is_32bit (b2_state d1)" using p(4) by (auto simp: is_32bit_def b2_consts)
    show ?thesis
    proof (cases full)
      case True
      have "decode_exit tail src dst1 d1" using True p(4,5) by (auto simp: decode_exit_def b2_consts)
      moreover have "b2_decode src dst d = Some (True, dst1, d1)" using True p(1) not32(2) pending(2) by (simp add: b2_decode_def)
      ultimately show ?thesis using p(2) not32 not32' by auto
    next
      case False
      then have "?R (?fin dst1 d1)"
        using p not32 not32' pending(1) by (intro finish) (simp_all add: no_pending_def)
      then show ?thesis using False p(1) not32(2) pending(2) by (simp add: b2_decode_def)
    qed
  next
    case going
    have "?R (?fin dst d)" using going refl by (intro finish) (simp_all add: no_pending_def)
    moreover have "\<not> b2_range d \<le> 5" "\<not> ORIG_0 \<le> b2_state d" using going range_ok_gt by auto
    ultimately show ?thesis by (simp add: b2_decode_def)
  qed
qed

end
