(* ===== verification/Bcj2_Correct.thy ===== *)
theory Bcj2_Correct
  imports Bcj2_Decode
begin

text \<open>
  What \<open>Bcj2Reader::read\<close> delivers: the bytes that the machine of \<open>Bcj2_Decode\<close> emits on its four streams,
  whatever the pieces the streams arrive in and whatever buffers the caller reads with.
\<close>

section \<open>Refilling a buffer\<close>

lemma window_cong:
  assumes "length xs = length ys" "\<And>k. a \<le> k \<Longrightarrow> k < b \<Longrightarrow> k < length ys \<Longrightarrow> xs ! k = ys ! k"
  shows "window xs a b = window ys a b"
  by (rule nth_equalityI) (use assms in \<open>auto simp: window_def\<close>)

lemma move_law:
  "to \<le> from_index \<Longrightarrow> from_index + n \<le> length mem \<Longrightarrow>
    b2_move n from_index to mem = Some (overwrite mem to (window mem from_index (from_index + n)))"
proof (induction n arbitrary: from_index to mem)
  case 0
  then show ?case by (simp add: overwrite_simps)
next
  case (Suc n)
  define b where "b = mem ! from_index"
  define w where "w = window mem (from_index + 1) (from_index + 1 + n)"
  have win: "window mem from_index (from_index + Suc n) = b # w"
    using window_Cons [of from_index "from_index + Suc n" mem] Suc.prems by (simp add: b_def w_def)
  have w: "window (mem[to := b]) (from_index + 1) (from_index + 1 + n) = w"
    unfolding w_def using Suc.prems by (intro window_cong) auto
  have "b2_move n (from_index + 1) (to + 1) (mem[to := b]) = Some (overwrite (mem[to := b]) (to + 1) w)"
    using Suc.IH [of "to + 1" "from_index + 1" "mem[to := b]", unfolded w] Suc.prems by simp
  moreover have "overwrite mem to (b # w) = overwrite (mem[to := b]) (to + 1) w"
    by (rule overwrite_simps(2)) (use Suc.prems in simp)
  moreover have "byte_at mem from_index = Some b" "set_at mem to b = Some (mem[to := b])"
    using Suc.prems by (simp_all add: byte_at_def set_at_def b_def)
  ultimately show ?case unfolding win by simp
qed

lemma overwrite_nth:
  "t + length bs \<le> length xs \<Longrightarrow> k < t \<or> t + length bs \<le> k \<Longrightarrow> k < length xs \<Longrightarrow> overwrite xs t bs ! k = xs ! k"
  by (auto simp: overwrite_def nth_append)

lemma overwrite_overwrite:
  "t + length bs + length cs \<le> length xs \<Longrightarrow> overwrite (overwrite xs t bs) (t + length bs) cs = overwrite xs t (bs @ cs)"
  by (auto simp: overwrite_def ac_simps)

lemma fill_law:
  assumes "byte_source rd good content"
  shows "good s \<Longrightarrow> held < buf_size \<Longrightarrow> 4 \<le> buf_size \<Longrightarrow> at + buf_size \<le> length mem \<Longrightarrow>
    \<exists>bs s'. b2_fill rd buf_size at words held mem s = (Inr (held + length bs), overwrite mem (at + held) bs, s')
      \<and> good s' \<and> held + length bs \<le> buf_size \<and> content s = bs @ content s' \<and> (bs = [] \<longrightarrow> content s = [])
      \<and> (words \<and> held + length bs < 4 \<longrightarrow> content s' = [])"
proof (induction "4 - held" arbitrary: held mem s rule: less_induct)
  case less
  have "0 < buf_size - held" using less.prems(2) by simp
  from byte_source.read_cases [OF assms less.prems(1) this]
  obtain xs s1 where x: "rd (buf_size - held) s = (Inr xs, s1)" "good s1" "length xs \<le> buf_size - held"
    and c: "content s = xs @ content s1" and e: "xs = [] \<longleftrightarrow> content s = []" by metis
  have put: "take (at + held) mem @ xs @ drop (at + held + length xs) mem = overwrite mem (at + held) xs" by (simp add: overwrite_def)
  have fit: "held + length xs \<le> buf_size" using x(3) less.prems(2) by simp
  consider (none) "xs = []" | (more) "xs \<noteq> []" "held + length xs < 4" "words" | (got) "xs \<noteq> []" "\<not> (held + length xs < 4 \<and> words)" by blast
  then show ?case
  proof cases
    case none
    have c': "content s = []" using none e by blast
    have "content s1 = []" using c none unfolding c' by simp
    moreover have "b2_fill rd buf_size at words held mem s = (Inr held, mem, s1)"
      using none x(1) by (subst b2_fill.simps) simp
    moreover have "overwrite mem (at + held) [] = mem" using less.prems(2,4) by (intro overwrite_simps) simp
    ultimately show ?thesis using c' x(2) less.prems(2) by (intro exI [of _ "[]"] exI [of _ s1]) simp
  next
    case more
    have step: "b2_fill rd buf_size at words held mem s = b2_fill rd buf_size at words (held + length xs) (overwrite mem (at + held) xs) s1"
      using more x(1,3) put by (subst b2_fill.simps) (simp add: Let_def)
    have lt: "4 - (held + length xs) < 4 - held" using more(1,2) by (cases xs) auto
    have len: "length (overwrite mem (at + held) xs) = length mem" using fit less.prems(4) by (intro overwrite_simps) simp
    have "held + length xs < buf_size" using more(2) less.prems(3) by simp
    from less.hyps [OF lt x(2) this less.prems(3) less.prems(4) [folded len]]
    obtain bs s' where b: "b2_fill rd buf_size at words (held + length xs) (overwrite mem (at + held) xs) s1
        = (Inr (held + length xs + length bs), overwrite (overwrite mem (at + held) xs) (at + (held + length xs)) bs, s')"
        "good s'" "held + length xs + length bs \<le> buf_size" "content s1 = bs @ content s'"
        "words \<and> held + length xs + length bs < 4 \<longrightarrow> content s' = []"
      by blast
    have "overwrite (overwrite mem (at + held) xs) (at + (held + length xs)) bs = overwrite mem (at + held) (xs @ bs)"
      using overwrite_overwrite [of "at + held" xs bs mem] b(3) less.prems(4) by (simp add: add.assoc)
    then have "b2_fill rd buf_size at words held mem s = (Inr (held + length (xs @ bs)), overwrite mem (at + held) (xs @ bs), s')"
      unfolding step b(1) by simp
    moreover have "content s = (xs @ bs) @ content s'" using c b(4) by simp
    moreover have "words \<and> held + length (xs @ bs) < 4 \<longrightarrow> content s' = []" using b(5) by (simp add: add.assoc)
    ultimately show ?thesis using b(2,3) more(1) by (intro exI [of _ "xs @ bs"] exI [of _ s'] conjI) (assumption | simp)+
  next
    case got
    have "b2_fill rd buf_size at words held mem s = (Inr (held + length xs), overwrite mem (at + held) xs, s1)"
      using got x(1,3) put by (subst b2_fill.simps) (auto simp: Let_def)
    then show ?thesis using got x(2) c fit by (intro exI [of _ xs] exI [of _ s1] conjI) (assumption | blast)+
  qed
qed

section \<open>Staying on the way to the end\<close>

lemma rest_step:
  assumes "at_rest m"
  shows "m_step m = Waits MAIN \<or> (\<exists>b m'. m_step m = Emits b m')"
proof -
  have "\<not> m_range m < 5" "m_range m \<noteq> 5" "\<not> m_range m < K_TOP_VALUE" "m_pend m = []" "\<not> m_branch m"
    using assms by (auto simp: at_rest_def)
  then show ?thesis by (cases "m_strm m MAIN") (simp_all add: m_step_def)
qed

lemma runs_stuck: "m_runs m [] m' \<Longrightarrow> (\<And>x. m_step m \<noteq> Silent x) \<Longrightarrow> m' = m"
  by (cases rule: m_runs.cases) auto

lemma runs_waiting:
  assumes "m_runs m out m'" "m_step m = Waits i"
  shows "out = [] \<and> m' = m"
  using assms by (cases rule: m_runs.cases) auto

lemma runs_broken:
  assumes "m_runs m out m'" "m_step m = Broken"
  shows "out = [] \<and> m' = m"
  using assms by (cases rule: m_runs.cases) auto

lemma on_the_way:
  assumes "m_runs m rest e" "at_rest e" "m_runs m out m'" "length out \<le> length rest"
  obtains more where "rest = out @ more" "m_runs m' more e"
proof -
  from runs_compare [OF assms(1,3)] have "\<exists>more. rest = out @ more \<and> m_runs m' more e"
  proof
    assume "\<exists>x. out = rest @ x \<and> m_runs e x m'"
    then have "out = rest" "m_runs e [] m'" using assms(4) by auto
    moreover have "m' = e" using rest_step [OF assms(2)] by (intro runs_stuck [OF \<open>m_runs e [] m'\<close>]) auto
    ultimately show ?thesis by (auto intro: m_runs.stop)
  qed blast
  then show ?thesis using that by blast
qed

section \<open>The reader\<close>

definition r_tail :: "('s \<Rightarrow> bytes) \<Rightarrow> 's bcj2_reader \<Rightarrow> nat \<Rightarrow> bytes" where
  "r_tail content r i =
     (if i < STREAMS
      then window (b2r_mem r) (b2_lims (b2r_decoder r) i) (b2_lims (b2r_decoder r) i + b2r_extra r i) @ content (b2r_inputs r ! i)
      else [])"

definition r_mach :: "('s \<Rightarrow> bytes) \<Rightarrow> 's bcj2_reader \<Rightarrow> b2_machine" where
  "r_mach content r = b2_mach (is_32bit (b2_state (b2r_decoder r))) (r_tail content r) (b2r_mem r) (b2r_decoder r)"

definition b2r_inv :: "('s \<Rightarrow> bool) \<Rightarrow> nat \<Rightarrow> 's bcj2_reader \<Rightarrow> bool" where
  "b2r_inv good buf_size r \<longleftrightarrow>
     4 \<le> buf_size \<and> length (b2r_mem r) = buf_size * STREAMS \<and> length (b2r_inputs r) = STREAMS
     \<and> list_all good (b2r_inputs r) \<and> (\<forall>i. b2r_read_res r i)
     \<and> (\<forall>i < STREAMS. i * buf_size \<le> b2_bufs (b2r_decoder r) i
          \<and> b2_lims (b2r_decoder r) i + b2r_extra r i \<le> i * buf_size + buf_size
          \<and> b2r_extra r i \<le> (if is_32bit i then 3 else 0))
     \<and> (\<forall>i \<ge> STREAMS. b2_lims (b2r_decoder r) i \<le> b2_bufs (b2r_decoder r) i)"

lemma buffer_in_memory: "i < STREAMS \<Longrightarrow> i * n + n \<le> n * STREAMS"
proof -
  assume "i < STREAMS"
  then have "(i + 1) * n \<le> STREAMS * n" by (intro mult_le_mono1) simp
  then show ?thesis by (simp add: mult.commute)
qed

lemma buffers_apart:
  assumes "i < STREAMS" "j < STREAMS" "i \<noteq> j" "i * n \<le> k" "k < i * n + n"
  shows "k < j * n \<or> j * n + n \<le> (k :: nat)"
proof (cases "i < j")
  case True
  then have "(i + 1) * n \<le> j * n" by (intro mult_le_mono1) simp
  then show ?thesis using assms(5) by simp
next
  case False
  then have "(j + 1) * n \<le> i * n" using assms(3) by (intro mult_le_mono1) simp
  then show ?thesis using assms(4) by simp
qed

definition refilled :: "nat \<Rightarrow> nat \<Rightarrow> nat \<Rightarrow> bytes \<Rightarrow> 's \<Rightarrow> 's bcj2_reader \<Rightarrow> 's bcj2_reader" where
  "refilled buf_size i got mem s r =
     (let x = (if is_32bit i then got mod 4 else 0); d = b2r_decoder r; at = i * buf_size
      in r\<lparr>b2r_mem := mem, b2r_inputs := (b2r_inputs r)[i := s],
           b2r_extra := (if is_32bit i then (b2r_extra r)(i := x) else b2r_extra r),
           b2r_decoder := d\<lparr>b2_bufs := (b2_bufs d)(i := at), b2_lims := (b2_lims d)(i := at + (got - x))\<rparr>\<rparr>)"

text \<open>A buffer that was refilled shows the same machine: its bytes moved from the source into the memory.\<close>

lemma refilled_mach:
  assumes inv: "b2r_inv good buf_size r" and i: "i < STREAMS"
    and spent: "b2_bufs (b2r_decoder r) i = b2_lims (b2r_decoder r) i"
    and le: "\<And>j. j < STREAMS \<Longrightarrow> b2_bufs (b2r_decoder r) j \<le> b2_lims (b2r_decoder r) j"
    and mem': "mem' = overwrite (b2r_mem r) (i * buf_size) new" "length new = got" "got \<le> buf_size"
    and data: "r_tail content r i = new @ content s'"
  shows "r_mach content (refilled buf_size i got mem' s' r) = r_mach content r"
proof -
  define d where "d = b2r_decoder r"
  define x where "x = (if is_32bit i then got mod 4 else 0)"
  let ?r = "refilled buf_size i got mem' s' r"
  let ?d = "b2r_decoder ?r"
  have x: "x \<le> got" by (simp add: x_def)
  have len: "length (b2r_mem r) = buf_size * STREAMS" "length (b2r_inputs r) = STREAMS" using inv by (simp_all add: b2r_inv_def)
  have d': "b2_bufs ?d = (b2_bufs d)(i := i * buf_size)" "b2_lims ?d = (b2_lims d)(i := i * buf_size + (got - x))"
    by (simp_all add: refilled_def Let_def d_def x_def)
  have ex: "b2r_extra ?r i = x" using inv i by (auto simp: refilled_def Let_def x_def b2r_inv_def)
  have ex': "b2r_extra ?r j = b2r_extra r j" if "j \<noteq> i" for j using that by (simp add: refilled_def Let_def)
  have mem: "b2r_mem ?r = mem'" "b2r_inputs ?r = (b2r_inputs r)[i := s']" by (simp_all add: refilled_def Let_def)
  have fit: "i * buf_size + got \<le> length (b2r_mem r)" using buffer_in_memory [OF i, of buf_size] mem'(3) len by simp
  have streams: "window (b2r_mem ?r) (b2_bufs ?d j) (b2_lims ?d j) @ r_tail content ?r j
      = window (b2r_mem r) (b2_bufs d j) (b2_lims d j) @ r_tail content r j" for j
  proof -
    consider (own) "j = i" | (other) "j < STREAMS" "j \<noteq> i" | (out) "\<not> j < STREAMS" by blast
    then show ?thesis
    proof cases
      case own
      have w: "window mem' (i * buf_size) (i * buf_size + got) = new"
        using overwrite_simps(5) [of "i * buf_size" new "b2r_mem r"] mem' fit by simp
      have "window mem' (i * buf_size) (i * buf_size + (got - x)) @ window mem' (i * buf_size + (got - x)) (i * buf_size + (got - x) + x) = new"
        using window_append [of "i * buf_size" "i * buf_size + (got - x)" "i * buf_size + got" mem'] x w by simp
      then have "window (b2r_mem ?r) (b2_bufs ?d i) (b2_lims ?d i) @ r_tail content ?r i = new @ content s'"
        using i len(2) by (simp add: r_tail_def d' ex mem del: append_assoc add: append_assoc [symmetric])
      then show ?thesis using own data spent by (simp add: d_def)
    next
      case other
      have b: "j * buf_size \<le> b2_bufs d j" "b2_lims d j + b2r_extra r j \<le> j * buf_size + buf_size"
        using inv other(1) by (simp_all add: b2r_inv_def d_def)
      have same: "mem' ! k = b2r_mem r ! k" if "j * buf_size \<le> k" "k < j * buf_size + buf_size" "k < length (b2r_mem r)" for k
      proof -
        from buffers_apart [OF other(1) i other(2) that(1,2)] have "k < i * buf_size \<or> i * buf_size + buf_size \<le> k" .
        then show ?thesis unfolding mem'(1) using that(3) fit mem'(2,3) by (intro overwrite_nth) auto
      qed
      have lm: "length mem' = length (b2r_mem r)" using fit mem'(1,2) by (simp add: overwrite_simps)
      have w: "window mem' a e = window (b2r_mem r) a e" if "j * buf_size \<le> a" "e \<le> j * buf_size + buf_size" for a e
        using that by (intro window_cong lm same) auto
      have "j * buf_size \<le> b2_lims d j" using b(1) le [OF other(1)] by (simp add: d_def)
      then show ?thesis using other b by (simp add: r_tail_def d' mem ex' w flip: d_def)
    next
      case out
      then have "b2_lims d j \<le> b2_bufs d j" "j \<noteq> i" using inv i by (auto simp: b2r_inv_def d_def)
      then show ?thesis using out by (simp add: r_tail_def d' window_def)
    qed
  qed
  have "b2_view (is_32bit (b2_state ?d)) (r_tail content ?r) (b2r_mem ?r) ?d
      = b2_view (is_32bit (b2_state d)) (r_tail content r) (b2r_mem r) d"
    unfolding b2_view_def streams by (simp add: refilled_def Let_def d_def)
  moreover have "b2_range ?d = b2_range d" by (simp add: refilled_def Let_def d_def)
  ultimately show ?thesis by (simp add: r_mach_def b2_mach_def d_def)
qed

lemma refilled_inv:
  assumes "b2r_inv good buf_size r" "i < STREAMS" "length mem' = length (b2r_mem r)" "good s'" "got \<le> buf_size"
  shows "b2r_inv good buf_size (refilled buf_size i got mem' s' r)"
proof -
  define x where "x = (if is_32bit i then got mod 4 else 0)"
  have "got mod 4 < 4" by simp
  then have x: "x \<le> got" "x \<le> (if is_32bit i then 3 else 0)" unfolding x_def by (auto simp only: split: if_splits)
  have "list_all good ((b2r_inputs r)[i := s'])"
    using assms(1,4) set_update_subset_insert [of "b2r_inputs r" i s'] by (auto simp: b2r_inv_def list_all_iff)
  moreover have "i * buf_size + (got - x) + x \<le> i * buf_size + buf_size" using x assms(5) by simp
  moreover have "\<not> is_32bit i \<Longrightarrow> b2r_extra r i = 0" using assms(1,2) by (auto simp: b2r_inv_def)
  ultimately show ?thesis
    using assms x unfolding b2r_inv_def refilled_def Let_def x_def [symmetric] by auto
qed

lemma refilled_dec_inv:
  assumes "dec_inv (b2r_mem r) dst (b2r_decoder r)" "b2r_inv good buf_size r" "i < STREAMS"
    "length mem' = length (b2r_mem r)" "got \<le> buf_size"
  shows "dec_inv mem' dst (b2r_decoder (refilled buf_size i got mem' s' r))"
proof -
  define x where "x = (if is_32bit i then got mod 4 else 0)"
  have "i * buf_size + (got - x) \<le> length (b2r_mem r)"
    using buffer_in_memory [OF assms(3), of buf_size] assms(2,5) by (simp add: b2r_inv_def)
  moreover have "is_32bit i \<Longrightarrow> 4 dvd got - x" by (simp add: x_def dvd_minus_mod)
  moreover have "i \<in> {CALL, JUMP} \<longleftrightarrow> is_32bit i" by (simp add: is_32bit_def)
  ultimately show ?thesis
    using assms(1,4) unfolding dec_inv_def refilled_def Let_def x_def [symmetric] by auto
qed

lemma refill_law:
  assumes src: "byte_source rd good content" and inv: "b2r_inv good buf_size r"
    and dec: "dec_inv (b2r_mem r) dst (b2r_decoder r)" and i: "i < STREAMS"
    and spent: "b2_bufs (b2r_decoder r) i = b2_lims (b2r_decoder r) i"
  obtains mem1 got mem2 s' where
    "b2_move (b2r_extra r i) (b2_bufs (b2r_decoder r) i) (i * buf_size) (b2r_mem r) = Some mem1"
    "b2_fill rd buf_size (i * buf_size) (is_32bit i) (b2r_extra r i) mem1 (b2r_inputs r ! i) = (Inr got, mem2, s')"
    "got = 0 \<Longrightarrow> r_tail content r i = []"
    "is_32bit i \<Longrightarrow> got < 4 \<Longrightarrow> length (r_tail content r i) < 4"
    "0 < got \<Longrightarrow> \<not> (is_32bit i \<and> got < 4) \<Longrightarrow>
       length (content s') < length (content (b2r_inputs r ! i)) \<and> b2r_inv good buf_size (refilled buf_size i got mem2 s' r)
       \<and> dec_inv mem2 dst (b2r_decoder (refilled buf_size i got mem2 s' r))
       \<and> r_mach content (refilled buf_size i got mem2 s' r) = r_mach content r"
proof -
  define d where "d = b2r_decoder r"
  define at where "at = i * buf_size"
  define held where "held = window (b2r_mem r) (b2_lims d i) (b2_lims d i + b2r_extra r i)"
  have len: "4 \<le> buf_size" "length (b2r_mem r) = buf_size * STREAMS" "length (b2r_inputs r) = STREAMS" "list_all good (b2r_inputs r)"
    using inv by (simp_all add: b2r_inv_def)
  have b: "at \<le> b2_lims d i" "b2_lims d i + b2r_extra r i \<le> at + buf_size" "b2r_extra r i \<le> (if is_32bit i then 3 else 0)"
    using inv i spent unfolding b2r_inv_def d_def at_def by auto
  have room: "at + buf_size \<le> length (b2r_mem r)" using buffer_in_memory [OF i, of buf_size] len(2) by (simp add: at_def)
  have held: "length held = b2r_extra r i" using b(2) room by (simp add: held_def)
  have ex: "b2r_extra r i < buf_size" using b(3) len(1) by (simp split: if_splits)
  have le: "b2_bufs (b2r_decoder r) j \<le> b2_lims (b2r_decoder r) j" if "j < STREAMS" for j
    using dec that by (simp add: dec_inv_def)
  have mv: "b2_move (b2r_extra r i) (b2_bufs d i) at (b2r_mem r) = Some (overwrite (b2r_mem r) at held)"
    unfolding held_def using move_law [OF b(1), of "b2r_extra r i" "b2r_mem r"] b(2) room spent by (simp add: d_def)
  have l1: "length (overwrite (b2r_mem r) at held) = length (b2r_mem r)"
    by (rule overwrite_simps(3)) (use held ex room in simp)
  have g: "good (b2r_inputs r ! i)" using len(3,4) i by (simp add: list_all_length)
  from fill_law [OF src g ex len(1) room [folded l1], of "is_32bit i"] obtain bs s' where
    f: "b2_fill rd buf_size at (is_32bit i) (b2r_extra r i) (overwrite (b2r_mem r) at held) (b2r_inputs r ! i)
        = (Inr (b2r_extra r i + length bs), overwrite (overwrite (b2r_mem r) at held) (at + b2r_extra r i) bs, s')"
      "good s'" "b2r_extra r i + length bs \<le> buf_size" "content (b2r_inputs r ! i) = bs @ content s'"
      "bs = [] \<longrightarrow> content (b2r_inputs r ! i) = []" "is_32bit i \<and> b2r_extra r i + length bs < 4 \<longrightarrow> content s' = []" by blast
  define mem2 where "mem2 = overwrite (b2r_mem r) at (held @ bs)"
  have m2: "overwrite (overwrite (b2r_mem r) at held) (at + b2r_extra r i) bs = mem2"
    unfolding mem2_def held [symmetric] by (rule overwrite_overwrite) (use held f(3) room in simp)
  have l2: "length mem2 = length (b2r_mem r)"
    unfolding mem2_def by (rule overwrite_simps(3)) (use held f(3) room in simp)
  have tail: "r_tail content r i = (held @ bs) @ content s'" using i f(4) by (simp add: r_tail_def held_def d_def)
  have n: "length (held @ bs) = b2r_extra r i + length bs" using held by simp
  show thesis
  proof (rule that [OF mv [unfolded d_def at_def] f(1) [unfolded m2, unfolded at_def]])
    assume "b2r_extra r i + length bs = 0"
    then have "held = []" "bs = []" using held by simp_all
    then show "r_tail content r i = []" using tail f(4,5) by simp
  next
    assume "is_32bit i" "b2r_extra r i + length bs < 4"
    then show "length (r_tail content r i) < 4" using tail f(6) n by simp
  next
    assume more: "0 < b2r_extra r i + length bs" "\<not> (is_32bit i \<and> b2r_extra r i + length bs < 4)"
    have "bs \<noteq> []" using more b(3) by (auto split: if_splits)
    moreover have "r_mach content (refilled buf_size i (b2r_extra r i + length bs) mem2 s' r) = r_mach content r"
      by (rule refilled_mach [where new = "held @ bs"]) (use inv i spent le f(3) tail n in \<open>simp_all add: mem2_def at_def\<close>)
    ultimately show "length (content s') < length (content (b2r_inputs r ! i))
       \<and> b2r_inv good buf_size (refilled buf_size i (b2r_extra r i + length bs) mem2 s' r)
       \<and> dec_inv mem2 dst (b2r_decoder (refilled buf_size i (b2r_extra r i + length bs) mem2 s' r))
       \<and> r_mach content (refilled buf_size i (b2r_extra r i + length bs) mem2 s' r) = r_mach content r"
      using refilled_inv [OF inv i l2 f(2,3)] refilled_dec_inv [OF dec inv i l2 f(3)] f(4) by simp
  qed
qed

section \<open>A read\<close>

text \<open>Where the machine has emitted everything, the decoder passes the final checks.\<close>

lemma rest_finish:
  assumes e: "at_rest e" and run: "m_runs (b2_mach (is_32bit (b2_state d)) tail src d) [] e"
    and exit: "decode_exit tail src dst d" and dec: "dec_inv src dst d"
    and waits: "b2_state d < STREAMS \<Longrightarrow> m_step (b2_mach (is_32bit (b2_state d)) tail src d) = Waits (b2_state d)"
  shows "(b2_state d = MAIN \<or> b2_state d = ORIG) \<and> b2_code d = 0"
proof -
  let ?m = "b2_mach (is_32bit (b2_state d)) tail src d"
  have state: "b2_state d = MAIN \<or> b2_state d = ORIG"
  proof (cases "b2_state d < STREAMS")
    case True
    from runs_waiting [OF run waits [OF True]] have "e = ?m" by simp
    then show ?thesis using rest_step [OF e] waits [OF True] by auto
  next
    case False
    then have orig: "ORIG_0 \<le> b2_state d" "b2_state d \<le> ORIG" using exit by (auto simp: decode_exit_def)
    have "b2_state d = ORIG"
    proof (rule ccontr)
      assume "b2_state d \<noteq> ORIG"
      then have st: "b2_state d \<le> ORIG_3" using orig(2) by (simp add: b2_consts)
      have ok: "range_ok (b2_range d)" using dec orig(1) st by (auto simp: dec_inv_def b2_consts)
      have "b2_state d - ORIG_0 < 4" using st by (simp add: b2_consts)
      then have "[b2_state d - ORIG_0..<4] \<noteq> []" by simp
      then have "m_pend ?m \<noteq> []" using mach_running [OF ok] range_ok_gt [OF ok] orig(1) st by (simp add: b2_view_def)
      then obtain p ps where p: "m_pend ?m = p # ps" by (cases "m_pend ?m") auto
      have "m_step ?m = Emits p (?m\<lparr>m_pend := ps\<rparr>)" by (rule step_pending [OF mach_range_ok [OF ok] p])
      then have "e = ?m" using runs_stuck [OF run] by simp
      then show False using e p by (simp add: at_rest_def)
    qed
    then show ?thesis by simp
  qed
  then have top: "K_TOP_VALUE \<le> b2_range d" using exit by (auto simp: decode_exit_def)
  have ok: "range_ok (b2_range d)" by (rule top_range_ok [OF top])
  have not32: "\<not> is_32bit (b2_state d)" and quiet: "no_pending d"
    using state by (auto simp: is_32bit_def no_pending_def b2_consts)
  have "\<not> b2_range d < K_TOP_VALUE" using top by simp
  then have m: "?m = b2_view False tail src d" using not32 by (simp add: mach_running [OF ok] m_norm_def b2_view_def)
  have gt: "\<not> b2_range d < 5" "b2_range d \<noteq> 5" using range_ok_gt [OF ok] by auto
  have "m_step ?m \<noteq> Silent x" for x
    unfolding m view_quiet [OF quiet] m_step_def using gt \<open>\<not> b2_range d < K_TOP_VALUE\<close> by (simp split: list.split)
  from runs_stuck [OF run this] have "b2_code d = 0" using e unfolding m by (simp add: at_rest_def b2_view_def)
  then show ?thesis using state by simp
qed

lemma sum_list_less:
  "i < length xs \<Longrightarrow> (f y :: nat) < f (xs ! i) \<Longrightarrow> sum_list (map f (xs[i := y])) < sum_list (map f xs)"
proof (induction xs arbitrary: i)
  case (Cons x xs)
  then show ?case by (cases i) auto
qed simp

lemma r_mach_same:
  assumes "b2r_mem r' = b2r_mem r" "b2r_inputs r' = b2r_inputs r" "b2r_extra r' = b2r_extra r" "b2_lims (b2r_decoder r') = b2_lims (b2r_decoder r)"
  shows "r_tail content r' = r_tail content r"
  by (rule ext) (simp add: r_tail_def assms)

text \<open>
  The machine is on its way to \<open>e\<close> and has \<open>rest\<close> still to emit.
\<close>

definition b2r_way :: "('s \<Rightarrow> bool) \<Rightarrow> ('s \<Rightarrow> bytes) \<Rightarrow> nat \<Rightarrow> b2_machine \<Rightarrow> bytes \<Rightarrow> bytes \<Rightarrow> 's bcj2_reader \<Rightarrow> bool" where
  "b2r_way good content buf_size e rest dst r \<longleftrightarrow>
     b2r_inv good buf_size r \<and> dec_inv (b2r_mem r) dst (b2r_decoder r)
     \<and> m_runs (r_mach content r) rest e \<and> length rest = b2r_left r"

lemma decode_step:
  assumes way: "b2r_way good content buf_size e rest dst r" and e: "at_rest e"
    and room: "length dst - b2_dest (b2r_decoder r) \<le> b2r_left r"
  obtains dst1 d1 later where "b2_decode (b2r_mem r) dst (b2r_decoder r) = Some (True, dst1, d1)"
    "length dst1 = length dst" "take (b2_dest (b2r_decoder r)) dst1 = take (b2_dest (b2r_decoder r)) dst"
    "b2_dest (b2r_decoder r) \<le> b2_dest d1" "b2_dest d1 \<le> length dst"
    "rest = window dst1 (b2_dest (b2r_decoder r)) (b2_dest d1) @ later"
    "\<And>left. left = length later \<Longrightarrow> b2r_way good content buf_size e later dst1 (r\<lparr>b2r_decoder := d1, b2r_left := left\<rparr>)"
    "decode_exit (r_tail content r) (b2r_mem r) dst1 d1"
    "r_mach content (r\<lparr>b2r_decoder := d1\<rparr>) = b2_mach (is_32bit (b2_state d1)) (r_tail content r) (b2r_mem r) d1"
    "r_tail content (r\<lparr>b2r_decoder := d1\<rparr>) = r_tail content r"
proof -
  define d where "d = b2r_decoder r"
  have inv: "b2r_inv good buf_size r" and dec: "dec_inv (b2r_mem r) dst d" and run: "m_runs (r_mach content r) rest e"
    and left: "length rest = b2r_left r" using way by (simp_all add: b2r_way_def d_def)
  from decode_law [OF dec, of "r_tail content r"] obtain ok dst1 d1 where dd: "b2_decode (b2r_mem r) dst d = Some (ok, dst1, d1)"
    and adv: "advances (r_tail content r) (b2r_mem r) (is_32bit (b2_state d), dst, d) (is_32bit (b2_state d1), dst1, d1)"
    and exit: "if ok then decode_exit (r_tail content r) (b2r_mem r) dst1 d1
      else m_step (b2_mach (is_32bit (b2_state d1)) (r_tail content r) (b2r_mem r) d1) = Broken" by blast
  have a: "dec_inv (b2r_mem r) dst1 d1" "b2_lims d1 = b2_lims d" "\<forall>i. b2_bufs d i \<le> b2_bufs d1 i" "length dst1 = length dst"
    "b2_dest d \<le> b2_dest d1" "take (b2_dest d) dst1 = take (b2_dest d) dst"
    "m_runs (b2_mach (is_32bit (b2_state d)) (r_tail content r) (b2r_mem r) d) (window dst1 (b2_dest d) (b2_dest d1))
       (b2_mach (is_32bit (b2_state d1)) (r_tail content r) (b2r_mem r) d1)"
    using adv by (simp_all add: advances_def)
  have le: "b2_dest d1 \<le> length dst1" using a(1) by (simp add: dec_inv_def)
  have tail: "r_tail content (r\<lparr>b2r_decoder := d1, b2r_left := left\<rparr>) = r_tail content r" for left
    by (rule r_mach_same) (simp_all add: a(2) d_def)
  have tail': "r_tail content (r\<lparr>b2r_decoder := d1\<rparr>) = r_tail content r"
    by (rule r_mach_same) (simp_all add: a(2) d_def)
  have "length (window dst1 (b2_dest d) (b2_dest d1)) \<le> length rest" using left room a(4,5) le by (simp add: d_def)
  from on_the_way [OF run e a(7) [folded r_mach_def [of content r, folded d_def]] this] obtain later
    where later: "rest = window dst1 (b2_dest d) (b2_dest d1) @ later"
      "m_runs (b2_mach (is_32bit (b2_state d1)) (r_tail content r) (b2r_mem r) d1) later e" .
  have ok: "ok"
  proof (rule ccontr)
    assume "\<not> ok"
    then have b: "m_step (b2_mach (is_32bit (b2_state d1)) (r_tail content r) (b2r_mem r) d1) = Broken" using exit by simp
    from runs_broken [OF later(2) b] b rest_step [OF e] show False by auto
  qed
  have "b2r_inv good buf_size (r\<lparr>b2r_decoder := d1, b2r_left := left\<rparr>)" for left
    using inv a(2,3) unfolding b2r_inv_def d_def by (auto intro: order_trans)
  then have "b2r_way good content buf_size e later dst1 (r\<lparr>b2r_decoder := d1, b2r_left := left\<rparr>)" if "left = length later" for left
    using a(1) later(2) that by (simp add: b2r_way_def r_mach_def tail)
  then show thesis
    using dd a(4-6) le later(1) exit ok tail' by (intro that [of dst1 d1 later]) (simp_all add: d_def r_mach_def)
qed

text \<open>What a read leaves: the destination is full, and there is either nothing left or the way goes on.\<close>

definition b2r_done ::
  "('s \<Rightarrow> bool) \<Rightarrow> ('s \<Rightarrow> bytes) \<Rightarrow> nat \<Rightarrow> b2_machine \<Rightarrow> bytes \<Rightarrow> nat \<Rightarrow> bytes \<Rightarrow> ((io_error + nat) \<times> bytes \<times> 's bcj2_reader) option \<Rightarrow> bool" where
  "b2r_done good content buf_size e rest told dst x \<longleftrightarrow>
     (\<exists>dst' r' later. x = Some (Inr (length dst), dst', r') \<and> length dst' = length dst \<and> take told dst' = take told dst
        \<and> rest = window dst' told (length dst) @ later \<and> b2r_left r' = length later
        \<and> (later \<noteq> [] \<longrightarrow> b2r_way good content buf_size e later dst' r'))"

lemma done_later:
  assumes "b2r_done good content buf_size e later told' dst1 x" "length dst1 = length dst" "take told dst1 = take told dst"
    "told \<le> told'" "told' \<le> length dst" "rest = window dst1 told told' @ later"
  shows "b2r_done good content buf_size e rest told dst x"
proof -
  obtain dst' r' rest' where x: "x = Some (Inr (length dst1), dst', r')" "length dst' = length dst1" "take told' dst' = take told' dst1"
    "later = window dst' told' (length dst1) @ rest'" "b2r_left r' = length rest'"
    "rest' \<noteq> [] \<longrightarrow> b2r_way good content buf_size e rest' dst' r'"
    using assms(1) unfolding b2r_done_def by blast
  have "take told dst' = take told (take told' dst')" using assms(4) by (simp add: min_def)
  also have "\<dots> = take told dst" unfolding x(3) using assms(3,4) by (simp add: min_def)
  finally have keep: "take told dst' = take told dst" .
  have "window dst' told told' = window dst1 told told'"
    using arg_cong [OF x(3), of "drop told"] by (simp add: window_def drop_take)
  then have "window dst' told (length dst) = window dst1 told told' @ window dst' told' (length dst)"
    using window_append [OF assms(4,5), of dst'] by simp
  then have "rest = window dst' told (length dst) @ rest'" using x(4) assms(2,6) by simp
  then show ?thesis using x keep assms(2) unfolding b2r_done_def by auto
qed

lemma read_loop_law:
  assumes src: "byte_source rd good content" and e: "at_rest e"
  shows "b2r_way good content buf_size e rest dst r \<Longrightarrow> b2_dest (b2r_decoder r) = told \<Longrightarrow> length dst - told \<le> b2r_left r
    \<Longrightarrow> told \<le> length dst \<Longrightarrow> b2r_done good content buf_size e rest told dst (b2_read_loop rd buf_size dst told r)"
proof (induction "sum_list (map (\<lambda>s. length (content s)) (b2r_inputs r))" arbitrary: rest dst r told rule: less_induct)
  case less
  define d where "d = b2r_decoder r"
  from decode_step [OF less.prems(1) e, unfolded less.prems(2), OF less.prems(3)] obtain dst1 d1 later where
    dec: "b2_decode (b2r_mem r) dst d = Some (True, dst1, d1)"
    and len: "length dst1 = length dst" and keep: "take told dst1 = take told dst"
    and dest: "told \<le> b2_dest d1" "b2_dest d1 \<le> length dst"
    and rest: "rest = window dst1 told (b2_dest d1) @ later"
    and way: "\<And>left. left = length later \<Longrightarrow> b2r_way good content buf_size e later dst1 (r\<lparr>b2r_decoder := d1, b2r_left := left\<rparr>)"
    and exit: "decode_exit (r_tail content r) (b2r_mem r) dst1 d1"
    and mach: "r_mach content (r\<lparr>b2r_decoder := d1\<rparr>) = b2_mach (is_32bit (b2_state d1)) (r_tail content r) (b2r_mem r) d1"
    and tail: "r_tail content (r\<lparr>b2r_decoder := d1\<rparr>) = r_tail content r"
    unfolding d_def by metis
  define i where "i = b2_state d1"
  define told' where "told' = b2_dest d1"
  define r1 where "r1 = r\<lparr>b2r_decoder := d1, b2r_left := b2r_left r - (b2_dest d1 - told)\<rparr>"
  have left: "b2r_left r - (b2_dest d1 - told) = length later"
  proof -
    have "length rest = b2r_left r" using less.prems(1) by (simp add: b2r_way_def)
    moreover have "length rest = (b2_dest d1 - told) + length later" unfolding rest using dest len by simp
    ultimately show ?thesis by linarith
  qed
  have way1: "b2r_way good content buf_size e later dst1 r1" unfolding r1_def by (rule way [OF left])
  have room: "length dst - told' \<le> b2r_left r1" using less.prems(3) dest by (simp add: r1_def told'_def)
  have left1: "b2r_left r1 = length later" using left by (simp add: r1_def)
  have r1: "b2r_decoder r1 = d1" "b2r_mem r1 = b2r_mem r" "b2r_inputs r1 = b2r_inputs r" "b2r_extra r1 = b2r_extra r"
    "b2r_read_res r1 = b2r_read_res r" by (simp_all add: r1_def)
  have tail1: "r_tail content r1 = r_tail content r" using r_mach_same [of r1 "r\<lparr>b2r_decoder := d1\<rparr>" content] tail by (simp add: r1)
  let ?m = "b2_mach (is_32bit i) (r_tail content r) (b2r_mem r) d1"
  have mach1: "r_mach content r1 = ?m" by (simp add: r_mach_def tail1 r1 i_def)
  have run: "m_runs ?m later e" using way1 mach1 by (simp add: b2r_way_def)
  have dec1: "dec_inv (b2r_mem r) dst1 d1" and inv1: "b2r_inv good buf_size r1" using way1 by (simp_all add: b2r_way_def r1)
  have finish: "b2_finish told' r' = Inr (length dst)" if "b2_code (b2r_decoder r') = b2_code d1" "b2_state (b2r_decoder r') = i"
    "b2r_left r' = b2r_left r1" "told' = length dst" "i < STREAMS \<Longrightarrow> m_step ?m = Waits i" for r' :: "'a bcj2_reader"
  proof (cases "later = []")
    case True
    have "m_runs ?m [] e" using run True by simp
    from rest_finish [OF e this [unfolded i_def] exit dec1] that(5) have "(i = MAIN \<or> i = ORIG) \<and> b2_code d1 = 0" by (simp add: i_def)
    then show ?thesis using that by (auto simp: b2_finish_def)
  next
    case False
    then show ?thesis using that left1 by (simp add: b2_finish_def)
  qed
  have stops: "b2r_done good content buf_size e rest told dst (Some (Inr (length dst), dst1, r'))"
    if "told' = length dst" "b2r_left r' = b2r_left r1" "later \<noteq> [] \<Longrightarrow> b2r_way good content buf_size e later dst1 r'" for r'
    using that len keep rest left1 unfolding b2r_done_def told'_def by auto
  show ?case
  proof (cases "STREAMS \<le> i")
    case True
    then have full: "told' = length dst" using exit len by (auto simp: decode_exit_def i_def told'_def)
    have "b2_read_loop rd buf_size dst told r = Some (b2_finish told' r1, dst1, r1)"
      using dec True dest by (subst b2_read_loop.simps) (simp add: Let_def r1_def i_def told'_def flip: d_def)
    also have "b2_finish told' r1 = Inr (length dst)" by (rule finish) (use full True in \<open>simp_all add: r1 i_def\<close>)
    finally show ?thesis using stops [OF full, of r1] way1 by simp
  next
    case False
    then have i: "i < STREAMS" by simp
    then have spent: "b2_bufs d1 i = b2_lims d1 i" using exit by (auto simp: decode_exit_def i_def b2_consts)
    have waits: "m_step ?m = Waits i" if "if is_32bit i then length (r_tail content r i) < 4 else r_tail content r i = []"
    proof -
      have "\<not> ORIG_0 \<le> i" using i by (simp add: b2_consts)
      then show ?thesis using exit [unfolded decode_exit_def, folded i_def] that by blast
    qed
    have main: "i = MAIN \<and> later = []" if "m_step ?m = Waits i"
      using runs_waiting [OF run that] rest_step [OF e] that by auto
    from refill_law [OF src inv1 dec1 [folded r1(2), folded r1(1)] i, unfolded r1, OF spent] obtain mem1 got mem2 s' where
      mv: "b2_move (b2r_extra r i) (b2_bufs d1 i) (i * buf_size) (b2r_mem r) = Some mem1"
      and fill: "b2_fill rd buf_size (i * buf_size) (is_32bit i) (b2r_extra r i) mem1 (b2r_inputs r ! i) = (Inr got, mem2, s')"
      and none: "got = 0 \<Longrightarrow> r_tail content r1 i = []"
      and short: "is_32bit i \<Longrightarrow> got < 4 \<Longrightarrow> length (r_tail content r1 i) < 4"
      and goes: "0 < got \<Longrightarrow> \<not> (is_32bit i \<and> got < 4) \<Longrightarrow>
         length (content s') < length (content (b2r_inputs r ! i)) \<and> b2r_inv good buf_size (refilled buf_size i got mem2 s' r1)
         \<and> dec_inv mem2 dst1 (b2r_decoder (refilled buf_size i got mem2 s' r1))
         \<and> r_mach content (refilled buf_size i got mem2 s' r1) = r_mach content r1" by blast
    have res: "b2r_read_res r i" "byte_at (b2r_inputs r) i = Some (b2r_inputs r ! i)"
      using inv1 i by (simp_all add: b2r_inv_def r1 byte_at_def)
    note step = dec mv fill res False dest
    consider (dry) "got = 0" | (bit) "is_32bit i" "0 < got" "got < 4" | (later) "0 < got" "\<not> (is_32bit i \<and> got < 4)" by auto
    then show ?thesis
    proof cases
      case dry
      define r3 where "r3 = r1\<lparr>b2r_mem := mem1,
        b2r_decoder := d1\<lparr>b2_bufs := (b2_bufs d1)(i := i * buf_size), b2_lims := (b2_lims d1)(i := i * buf_size)\<rparr>,
        b2r_mem := mem2, b2r_inputs := (b2r_inputs r)[i := s']\<rparr>"
      have w: "m_step ?m = Waits i" by (rule waits) (use none [OF dry] in \<open>simp add: tail1\<close>)
      from main [OF w] have m: "i = MAIN" "later = []" by simp_all
      have "told' = length dst" using room left1 m(2) dest by (simp add: told'_def)
      moreover have "b2_read_loop rd buf_size dst told r = Some (b2_finish told' r3, dst1, r3)"
        using step dry by (subst b2_read_loop.simps) (simp add: Let_def r1_def r3_def told'_def flip: d_def i_def)
      moreover have "b2_finish told' r3 = Inr (length dst)"
        by (rule finish) (use \<open>told' = length dst\<close> w in \<open>simp_all add: r3_def r1 i_def\<close>)
      ultimately show ?thesis using stops [of r3] m(2) by (simp add: r3_def)
    next
      case bit
      have "m_step ?m = Waits i" by (rule waits) (use short [OF bit(1,3)] bit(1) in \<open>simp add: tail1\<close>)
      then have "i = MAIN" using main by simp
      then show ?thesis using bit(1) by (simp add: is_32bit_def b2_consts)
    next
      case later
      let ?r = "refilled buf_size i got mem2 s' r1"
      note g = goes [OF later]
      have loop: "b2_read_loop rd buf_size dst told r = b2_read_loop rd buf_size dst1 told' ?r"
        using step later by (subst b2_read_loop.simps) (simp add: Let_def r1_def refilled_def told'_def flip: d_def i_def)
      have ref: "b2r_inputs ?r = (b2r_inputs r)[i := s']" "b2_dest (b2r_decoder ?r) = told'" "b2r_left ?r = b2r_left r1" "b2r_mem ?r = mem2"
        by (simp_all add: refilled_def Let_def r1 told'_def)
      have "i < length (b2r_inputs r)" using inv1 i by (simp add: b2r_inv_def r1)
      then have lt: "sum_list (map (\<lambda>s. length (content s)) (b2r_inputs ?r)) < sum_list (map (\<lambda>s. length (content s)) (b2r_inputs r))"
        unfolding ref(1) using g by (intro sum_list_less) simp_all
      have "b2r_way good content buf_size e later dst1 ?r"
        using g run mach1 left1 by (simp add: b2r_way_def ref)
      then have "b2r_done good content buf_size e later told' dst1 (b2_read_loop rd buf_size dst1 told' ?r)"
        by (rule less.hyps [OF lt]) (use ref room len dest in \<open>simp_all add: told'_def\<close>)
      then show ?thesis unfolding loop by (rule done_later) (use len keep dest rest in \<open>simp_all add: told'_def\<close>)
    qed
  qed
qed

section \<open>The reader as a source\<close>

definition bcj2_io :: "'s io_reader \<Rightarrow> nat \<Rightarrow> 's bcj2_reader io_reader" where
  "bcj2_io rd buf_size n r =
     (case bcj2_read rd buf_size n r of Some x \<Rightarrow> x | None \<Rightarrow> (Inl (b2_error ''panic''), r))"

definition b2r_state :: "('s \<Rightarrow> bool) \<Rightarrow> ('s \<Rightarrow> bytes) \<Rightarrow> nat \<Rightarrow> b2_machine \<Rightarrow> bytes \<Rightarrow> 's bcj2_reader \<Rightarrow> bool" where
  "b2r_state good content buf_size e rest r \<longleftrightarrow>
     b2r_left r = length rest \<and> (rest \<noteq> [] \<longrightarrow> (\<exists>dst. b2r_way good content buf_size e rest dst r))"

lemma state_rest:
  assumes "b2r_state good content buf_size e rest r" "b2r_state good content buf_size e rest' r"
  shows "rest = rest'"
proof (cases "rest = []")
  case False
  then have "length rest = length rest'" "rest' \<noteq> []" using assms by (auto simp: b2r_state_def)
  then have "m_runs (r_mach content r) rest e" "m_runs (r_mach content r) rest' e"
    using assms False unfolding b2r_state_def b2r_way_def by blast+
  from runs_compare [OF this] have "(\<exists>x. rest' = rest @ x) \<or> (\<exists>x. rest = rest' @ x)" by blast
  then show ?thesis using \<open>length rest = length rest'\<close> by (elim disjE exE) simp_all
qed (use assms in \<open>simp add: b2r_state_def\<close>)

lemma bcj2_read_law:
  assumes src: "byte_source rd good content" and e: "at_rest e" and st: "b2r_state good content buf_size e rest r"
  shows "\<exists>r'. bcj2_io rd buf_size n r = (Inr (take n rest), r') \<and> b2r_state good content buf_size e (drop n rest) r'"
proof (cases "n = 0 \<or> rest = []")
  case True
  then have "bcj2_io rd buf_size n r = (Inr [], r)" using st by (auto simp: bcj2_io_def bcj2_read_def b2r_state_def)
  then show ?thesis using True st by auto
next
  case False
  define room where "room = min n (length rest)"
  have room: "0 < room" "room \<le> length rest" "b2r_left r = length rest" using False st by (simp_all add: room_def b2r_state_def)
  obtain dst0 where w0: "b2r_way good content buf_size e rest dst0 r" using st False by (auto simp: b2r_state_def)
  define r0 where "r0 = r\<lparr>b2r_decoder := (b2r_decoder r)\<lparr>b2_dest := 0\<rparr>\<rparr>"
  have tail: "r_tail content r0 = r_tail content r" by (rule r_mach_same) (simp_all add: r0_def)
  have "b2_mach br t m (d\<lparr>b2_dest := 0\<rparr>) = b2_mach br t m d" for br t m d by (simp add: b2_mach_def b2_view_def)
  moreover have "b2r_mem r0 = b2r_mem r" "b2r_decoder r0 = (b2r_decoder r)\<lparr>b2_dest := 0\<rparr>" by (simp_all add: r0_def)
  ultimately have mach: "r_mach content r0 = r_mach content r" by (simp add: r_mach_def tail)
  have "b2r_way good content buf_size e rest (replicate room 0) r0"
  proof -
    have "dec_inv (b2r_mem r) (replicate room 0) ((b2r_decoder r)\<lparr>b2_dest := 0\<rparr>)"
      using w0 unfolding b2r_way_def by (simp add: dec_inv_def)
    moreover have "b2r_inv good buf_size r0" using w0 unfolding b2r_way_def by (simp add: b2r_inv_def r0_def)
    ultimately show ?thesis using w0 mach unfolding b2r_way_def by (simp add: r0_def)
  qed
  then have "b2r_done good content buf_size e rest 0 (replicate room 0) (b2_read_loop rd buf_size (replicate room 0) 0 r0)"
    by (rule read_loop_law [OF src e]) (use room in \<open>simp_all add: r0_def\<close>)
  then obtain dst' r' later where l: "b2_read_loop rd buf_size (replicate room 0) 0 r0 = Some (Inr room, dst', r')" "length dst' = room"
    "rest = window dst' 0 room @ later" "b2r_left r' = length later" "later \<noteq> [] \<longrightarrow> b2r_way good content buf_size e later dst' r'"
    unfolding b2r_done_def by auto
  have w: "window dst' 0 room = dst'" using l(2) by (simp add: window_def)
  have "length dst' = min n (length dst' + length later)" using l(2,3) unfolding w by (simp add: room_def)
  then have "n = length dst' \<or> length dst' \<le> n \<and> later = []" by (cases later) (auto simp: min_def split: if_splits)
  then have parts: "take n rest = dst'" "drop n rest = later" using l(3) unfolding w by auto
  have "bcj2_io rd buf_size n r = (Inr dst', r')"
  proof -
    have "min n (b2r_left r) = room" unfolding room(3) by (simp add: room_def)
    then show ?thesis using room(1) l(1,2) by (simp add: bcj2_io_def bcj2_read_def Let_def flip: r0_def)
  qed
  moreover have "b2r_state good content buf_size e later r'" using l(4,5) by (auto simp: b2r_state_def)
  ultimately show ?thesis unfolding parts by blast
qed

lemma bcj2_source:
  assumes src: "byte_source rd good content" and e: "at_rest e"
  shows "byte_source (bcj2_io rd buf_size) (\<lambda>r. \<exists>rest. b2r_state good content buf_size e rest r)
    (\<lambda>r. THE rest. b2r_state good content buf_size e rest r)"
proof
  fix r :: "'a bcj2_reader" and n :: nat
  assume "\<exists>rest. b2r_state good content buf_size e rest r" "0 < n"
  then obtain rest where st: "b2r_state good content buf_size e rest r" by blast
  have only: "(THE rest. b2r_state good content buf_size e rest x) = y" if "b2r_state good content buf_size e y x" for x y
    using that state_rest by blast
  from bcj2_read_law [OF src e st, of n] obtain r' where
    r: "bcj2_io rd buf_size n r = (Inr (take n rest), r')" "b2r_state good content buf_size e (drop n rest) r'" by blast
  show "\<exists>bs s'. bcj2_io rd buf_size n r = (Inr bs, s') \<and> (\<exists>rest. b2r_state good content buf_size e rest s') \<and> length bs \<le> n
    \<and> (THE rest. b2r_state good content buf_size e rest r) = bs @ (THE rest. b2r_state good content buf_size e rest s')
    \<and> (bs = [] \<longrightarrow> (THE rest. b2r_state good content buf_size e rest r) = [])"
    unfolding only [OF st] using r only [OF r(2)] \<open>0 < n\<close> by auto
qed

section \<open>From the start\<close>

definition m_start :: "(nat \<Rightarrow> bytes) \<Rightarrow> b2_machine" where
  "m_start strm =
     \<lparr>m_range = 0, m_code = 0, m_probs = (\<lambda>_. BIT_MODEL_TOTAL div 2), m_prev = 0, m_ip = 0, m_pend = [], m_branch = False,
      m_strm = (\<lambda>i. if i < STREAMS then strm i else [])\<rparr>"

lemma new_state:
  assumes "4 \<le> buf_size" "length inputs = STREAMS" "list_all good inputs" "m_runs (m_start (\<lambda>i. content (inputs ! i))) data e"
  shows "b2r_state good content buf_size e data (bcj2_reader_new buf_size inputs (length data))"
proof -
  let ?r = "bcj2_reader_new buf_size inputs (length data)"
  have "b2r_inv good buf_size ?r" using assms(1-3) by (simp add: b2r_inv_def bcj2_reader_new_def)
  moreover have "dec_inv (b2r_mem ?r) [] (b2r_decoder ?r)"
  proof -
    have "i * buf_size \<le> buf_size * STREAMS" if "i < STREAMS" for i
      using buffer_in_memory [OF that, of buf_size] by (rule order_trans [OF le_add1])
    moreover have "prob_ok (BIT_MODEL_TOTAL div 2)" by (simp add: prob_ok_def BIT_MODEL_TOTAL_def)
    ultimately show ?thesis by (simp add: dec_inv_def bcj2_reader_new_def bcj2_decoder_new_def)
  qed
  moreover have "r_mach content ?r = m_start (\<lambda>i. content (inputs ! i))"
    by (auto simp: r_mach_def b2_mach_def b2_view_def r_tail_def bcj2_reader_new_def bcj2_decoder_new_def m_start_def is_32bit_def b2_consts)
  ultimately have "b2r_way good content buf_size e data [] ?r" using assms(4) by (simp add: b2r_way_def bcj2_reader_new_def)
  then show ?thesis by (auto simp: b2r_state_def bcj2_reader_new_def)
qed

text \<open>The machine runs for at most \<open>k\<close> steps.\<close>

fun m_run :: "nat \<Rightarrow> b2_machine \<Rightarrow> bytes \<times> b2_machine" where
  "m_run 0 m = ([], m)"
| "m_run (Suc k) m =
     (case m_step m of
        Silent m' \<Rightarrow> m_run k m'
      | Emits b m' \<Rightarrow> (case m_run k m' of (out, m'') \<Rightarrow> (b # out, m''))
      | Waits i \<Rightarrow> ([], m)
      | Broken \<Rightarrow> ([], m))"

lemma m_run_runs: "m_run k m = (out, m') \<Longrightarrow> m_runs m out m'"
  by (induction k m arbitrary: out m' rule: m_run.induct) (auto intro: m_runs_intros split: b2_outcome.splits prod.splits)

text \<open>
  C11: \<open>Bcj2Reader\<close> delivers what BCJ2 means.  When the machine on four plain streams emits \<open>code\<close> and comes to
  rest, then reading with any buffers, from streams that arrive in any pieces, never panics, never fails, and
  delivers exactly \<open>code\<close>.
\<close>

theorem bcj2_reads_the_code:
  assumes "4 \<le> buf_size" "length inputs = STREAMS" "list_all plain_source inputs"
    and run: "m_runs (m_start (\<lambda>i. source_data (inputs ! i))) code e" and e: "at_rest e"
    and ns: "\<forall>n\<in>set ns. 0 < n" "length code < length ns"
  shows "\<exists>pieces r. drain (bcj2_io source_read buf_size) ns (bcj2_reader_new buf_size inputs (length code)) = (Inr pieces, r)
    \<and> concat pieces = code"
proof -
  let ?r = "bcj2_reader_new buf_size inputs (length code)"
  let ?st = "b2r_state plain_source source_data buf_size e"
  have st: "?st code ?r" by (rule new_state) (use assms in simp_all)
  then have data: "(THE rest. ?st rest ?r) = code" using state_rest by blast
  from byte_source.drain_prefix [OF bcj2_source [OF plain.byte_source_axioms e], of buf_size ?r ns] st ns data
  show ?thesis by auto
qed

text \<open>The machine code is \<open>41 E8\<close>, a call whose address was made absolute, and \<open>90\<close>.\<close>

definition call_streams :: "read_event list list" where
  "call_streams =
     [[Got [0x41], Got [0xE8, 0x90]], [Got [0, 0], Got [1, 0]], [], [Got [0, 0x7F], Got [0xFF, 0xFC, 0]]]"

theorem bcj2_reads_the_code_witness:
  "\<exists>pieces r. drain (bcj2_io source_read 4) (replicate 8 2) (bcj2_reader_new 4 call_streams 7) = (Inr pieces, r)
    \<and> concat pieces = [0x41, 0xE8, 0xFA, 0, 0, 0, 0x90]"
proof -
  let ?m = "m_start (\<lambda>i. source_data (call_streams ! i))"
  obtain code e where r: "m_run 14 ?m = (code, e)" by (metis surj_pair)
  have "fst (m_run 14 ?m) = [0x41, 0xE8, 0xFA, 0, 0, 0, 0x90] \<and> at_rest (snd (m_run 14 ?m))"
    by code_simp
  then have e: "code = [0x41, 0xE8, 0xFA, 0, 0, 0, 0x90]" "at_rest e" unfolding r by simp_all
  have len: "length code = 7" by (simp add: e(1))
  have streams: "length call_streams = STREAMS" "list_all plain_source call_streams"
    by (simp_all add: call_streams_def plain_source_def STREAMS_def)
  have ns: "\<forall>n\<in>set (replicate 8 2). 0 < (n :: nat)" "length code < length (replicate 8 (2 :: nat))" by (simp_all add: len)
  show ?thesis
    by (rule bcj2_reads_the_code [OF order.refl [of "4 :: nat"] streams m_run_runs [OF r] e(2) ns, unfolded len, unfolded e(1)])
qed

end
