(* ===== verification/Encoder_Thread.thy ===== *)
theory Encoder_Thread
  imports Errors
begin

text \<open>
  The bridge from the archive writer, which pushes, to the LZMA and LZMA2 encoders, which pull:
  \<open>src/codec/lzma_turbo/writer.rs\<close>.  The encoder runs on a thread of its own; a bounded channel brings it
  the chunks that are written, an unbounded one takes its output back.  A state holds both threads and both
  channels, and a step is one atomic action of either thread, so the reachable states are those of every
  schedule.  The encoder is a parameter: \<open>enc_next\<close> says what it does next in each of its states.
\<close>

section \<open>The encoder and the two threads\<close>

datatype lzma_error = Param_Error | Alloc_Error | Read_Error | Write_Error | Data_Error

definition lzma_io_error :: "(lzma_error \<Rightarrow> string) \<Rightarrow> lzma_error \<Rightarrow> io_error" where
  "lzma_io_error render e =
     Io_Error (case e of Param_Error \<Rightarrow> InvalidInput | Alloc_Error \<Rightarrow> OutOfMemory | _ \<Rightarrow> OtherKind) (render e)"

text \<open>It reads into a buffer, where an empty answer is the end of the input, writes, or returns.\<close>

datatype 'e enc_step = Pull nat "bytes \<Rightarrow> 'e" | Push bytes 'e | Return "lzma_error option" | Crash

datatype exit = Clean | Refused lzma_error | Panicked

datatype 'e worker = Running 'e | Exited exit

text \<open>What the writer's thread still has to do: chunks to send and flushes, then \<open>finish\<close>.\<close>

datatype writer_op = Send_Chunk bytes | Flush_Output

datatype phase = Sending "writer_op list" | Draining "writer_op list" | Finishing | Returned "io_error option"

definition CHUNK :: nat where "CHUNK = 2 ^ 20"
definition INPUT_DEPTH :: nat where "INPUT_DEPTH = 2"

function chunks_of :: "nat \<Rightarrow> bytes \<Rightarrow> bytes list" where
  "chunks_of n bs = (if bs = [] \<or> n = 0 then [] else take n bs # chunks_of n (drop n bs))"
  by pat_completeness auto
termination by (relation "measure (\<lambda>(n, bs). length bs)") auto

declare chunks_of.simps [simp del]

definition write_ops :: "bytes \<Rightarrow> writer_op list" where
  "write_ops buf = map Send_Chunk (chunks_of CHUNK buf)"

record 'e bridge =
  br_phase :: phase
  br_input :: "bytes list"
  br_open :: bool
  br_pending :: bytes
  br_worker :: "'e worker"
  br_output :: "bytes list"
  br_inner :: bytes

definition bridge_new :: "'e \<Rightarrow> writer_op list \<Rightarrow> 'e bridge" where
  "bridge_new e ops =
     \<lparr>br_phase = Sending ops, br_input = [], br_open = True, br_pending = [], br_worker = Running e, br_output = [], br_inner = []\<rparr>"

text \<open>What a writer reports of a worker that stopped before it was told to.\<close>

definition worker_error :: "(lzma_error \<Rightarrow> string) \<Rightarrow> exit \<Rightarrow> io_error" where
  "worker_error render x =
     (case x of
        Clean \<Rightarrow> Io_Error OtherKind ''the LZMA encoder stopped early''
      | Refused e \<Rightarrow> lzma_io_error render e
      | Panicked \<Rightarrow> Io_Error OtherKind ''the LZMA encoder thread panicked'')"

definition joined :: "(lzma_error \<Rightarrow> string) \<Rightarrow> exit \<Rightarrow> io_error option" where
  "joined render x = (case x of Clean \<Rightarrow> None | _ \<Rightarrow> Some (worker_error render x))"

text \<open>
  The writer's thread: sending waits while the channel is full and fails once its receiver is gone; after
  every chunk what the encoder has produced is handed on; \<open>finish\<close> closes the channel, collects the output
  until its sender is gone, and joins.
\<close>

inductive writer_step :: "(lzma_error \<Rightarrow> string) \<Rightarrow> 'e bridge \<Rightarrow> 'e bridge \<Rightarrow> bool" for render where
  send: "br_phase s = Sending (Send_Chunk c # ops) \<Longrightarrow> br_worker s = Running e \<Longrightarrow> length (br_input s) < INPUT_DEPTH \<Longrightarrow>
    writer_step render s (s\<lparr>br_phase := Draining ops, br_input := br_input s @ [c]\<rparr>)"
| refused: "br_phase s = Sending (Send_Chunk c # ops) \<Longrightarrow> br_worker s = Exited x \<Longrightarrow>
    writer_step render s (s\<lparr>br_phase := Returned (Some (worker_error render x))\<rparr>)"
| flush: "br_phase s = Sending (Flush_Output # ops) \<Longrightarrow> writer_step render s (s\<lparr>br_phase := Draining ops\<rparr>)"
| drain: "br_phase s = Draining ops \<Longrightarrow> br_output s = c # cs \<Longrightarrow>
    writer_step render s (s\<lparr>br_output := cs, br_inner := br_inner s @ c\<rparr>)"
| drained: "br_phase s = Draining ops \<Longrightarrow> br_output s = [] \<Longrightarrow> writer_step render s (s\<lparr>br_phase := Sending ops\<rparr>)"
| close_input: "br_phase s = Sending [] \<Longrightarrow> writer_step render s (s\<lparr>br_phase := Finishing, br_open := False\<rparr>)"
| collect: "br_phase s = Finishing \<Longrightarrow> br_output s = c # cs \<Longrightarrow>
    writer_step render s (s\<lparr>br_output := cs, br_inner := br_inner s @ c\<rparr>)"
| join: "br_phase s = Finishing \<Longrightarrow> br_output s = [] \<Longrightarrow> br_worker s = Exited x \<Longrightarrow>
    writer_step render s (s\<lparr>br_phase := Returned (joined render x)\<rparr>)"

text \<open>The encoder's thread: \<open>ChannelSource::read\<close>, \<open>ChannelSink::write\<close> and its end.\<close>

inductive worker_step :: "('e \<Rightarrow> 'e enc_step) \<Rightarrow> 'e bridge \<Rightarrow> 'e bridge \<Rightarrow> bool" for enc_next where
  no_room: "br_worker s = Running e \<Longrightarrow> enc_next e = Pull 0 k \<Longrightarrow> worker_step enc_next s (s\<lparr>br_worker := Running (k [])\<rparr>)"
| read: "br_worker s = Running e \<Longrightarrow> enc_next e = Pull n k \<Longrightarrow> 0 < n \<Longrightarrow> br_pending s \<noteq> [] \<Longrightarrow>
    worker_step enc_next s (s\<lparr>br_worker := Running (k (take n (br_pending s))), br_pending := drop n (br_pending s)\<rparr>)"
| receive: "br_worker s = Running e \<Longrightarrow> enc_next e = Pull n k \<Longrightarrow> 0 < n \<Longrightarrow> br_pending s = [] \<Longrightarrow> br_input s = c # cs \<Longrightarrow>
    worker_step enc_next s (s\<lparr>br_pending := c, br_input := cs\<rparr>)"
| end_of_input: "br_worker s = Running e \<Longrightarrow> enc_next e = Pull n k \<Longrightarrow> 0 < n \<Longrightarrow> br_pending s = [] \<Longrightarrow> br_input s = [] \<Longrightarrow>
    \<not> br_open s \<Longrightarrow> worker_step enc_next s (s\<lparr>br_worker := Running (k [])\<rparr>)"
| push: "br_worker s = Running e \<Longrightarrow> enc_next e = Push bs e' \<Longrightarrow>
    worker_step enc_next s (s\<lparr>br_worker := Running e', br_output := br_output s @ [bs]\<rparr>)"
| returns: "br_worker s = Running e \<Longrightarrow> enc_next e = Return r \<Longrightarrow>
    worker_step enc_next s (s\<lparr>br_worker := Exited (case r of None \<Rightarrow> Clean | Some x \<Rightarrow> Refused x), br_input := []\<rparr>)"
| crashes: "br_worker s = Running e \<Longrightarrow> enc_next e = Crash \<Longrightarrow>
    worker_step enc_next s (s\<lparr>br_worker := Exited Panicked, br_input := []\<rparr>)"

definition bridge_step :: "(lzma_error \<Rightarrow> string) \<Rightarrow> ('e \<Rightarrow> 'e enc_step) \<Rightarrow> 'e bridge \<Rightarrow> 'e bridge \<Rightarrow> bool" where
  "bridge_step render enc_next s s' \<longleftrightarrow> writer_step render s s' \<or> worker_step enc_next s s'"

inductive_cases writer_stepE: "writer_step render s s'"
inductive_cases worker_stepE: "worker_step enc_next s s'"

text \<open>
  The encoders of the codec crate and the settings they are built with; \<open>tc_lzma\<close> and \<open>tc_lzma2\<close> are the
  constructors, for fixed properties.
\<close>

record 'e turbo_crate =
  tc_lzma :: "lzma_error + 'e"
  tc_lzma2 :: "lzma_error + 'e"
  tc_set_block_size :: "u64 \<Rightarrow> 'e \<Rightarrow> 'e"
  tc_set_threads :: "nat \<Rightarrow> 'e \<Rightarrow> 'e"
  tc_block_size_solid :: u64

datatype turbo_coder = Coder_Lzma | Coder_Lzma2 u64 nat

datatype 'e turbo_encoder = Turbo_Lzma 'e | Turbo_Lzma2 'e

definition turbo_encoder_new :: "'e turbo_crate \<Rightarrow> turbo_coder \<Rightarrow> lzma_error + 'e turbo_encoder" where
  "turbo_encoder_new tc coder =
     (case coder of
        Coder_Lzma \<Rightarrow> map_sum id Turbo_Lzma (tc_lzma tc)
      | Coder_Lzma2 block_size threads \<Rightarrow>
          map_sum id (\<lambda>e. Turbo_Lzma2 (tc_set_threads tc threads (tc_set_block_size tc block_size e))) (tc_lzma2 tc))"

text \<open>The state \<open>Encoder::run\<close> starts encoding in: without threads an LZMA2 encoder is made serial and solid first.\<close>

definition encoder_run :: "'e turbo_crate \<Rightarrow> bool \<Rightarrow> 'e turbo_encoder \<Rightarrow> 'e" where
  "encoder_run tc threaded enc =
     (case enc of
        Turbo_Lzma e \<Rightarrow> e
      | Turbo_Lzma2 e \<Rightarrow>
          if threaded then e else tc_set_block_size tc (tc_block_size_solid tc) (tc_set_threads tc 1 e))"

text \<open>Where no thread can be started, the input is held and encoded from a slice when the writer finishes.\<close>

partial_function (option) encode_slice ::
  "('e \<Rightarrow> 'e enc_step) \<Rightarrow> 'e \<Rightarrow> bytes \<Rightarrow> bytes \<Rightarrow> (exit \<times> bytes) option" where
  "encode_slice enc_next e rest out =
     (case enc_next e of
        Pull n k \<Rightarrow> encode_slice enc_next (k (take n rest)) (drop n rest) out
      | Push bs e' \<Rightarrow> encode_slice enc_next e' rest (out @ bs)
      | Return r \<Rightarrow> Some (case r of None \<Rightarrow> Clean | Some x \<Rightarrow> Refused x, out)
      | Crash \<Rightarrow> Some (Panicked, out))"

definition finish_buffered ::
  "'e turbo_crate \<Rightarrow> ('e \<Rightarrow> 'e enc_step) \<Rightarrow> 'e turbo_encoder \<Rightarrow> bytes \<Rightarrow> (exit \<times> bytes) option" where
  "finish_buffered tc enc_next enc buf = encode_slice enc_next (encoder_run tc False enc) buf []"

section \<open>What an encoder promises\<close>

text \<open>
  The runs of an encoder by itself: what it was fed, whether it was told that the input ended, what it
  pushed, and its state.
\<close>

inductive encodes :: "('e \<Rightarrow> 'e enc_step) \<Rightarrow> 'e \<Rightarrow> bytes \<Rightarrow> bool \<Rightarrow> bytes \<Rightarrow> 'e \<Rightarrow> bool" for enc_next e0 where
  start: "encodes enc_next e0 [] False [] e0"
| feed: "encodes enc_next e0 fed False out e \<Longrightarrow> enc_next e = Pull n k \<Longrightarrow> bs \<noteq> [] \<Longrightarrow> length bs \<le> n \<Longrightarrow>
    encodes enc_next e0 (fed @ bs) False out (k bs)"
| over: "encodes enc_next e0 fed eof out e \<Longrightarrow> enc_next e = Pull n k \<Longrightarrow> 0 < n \<Longrightarrow> encodes enc_next e0 fed True out (k [])"
| nothing: "encodes enc_next e0 fed eof out e \<Longrightarrow> enc_next e = Pull 0 k \<Longrightarrow> encodes enc_next e0 fed eof out (k [])"
| pushed: "encodes enc_next e0 fed eof out e \<Longrightarrow> enc_next e = Push bs e' \<Longrightarrow> encodes enc_next e0 fed eof (out @ bs) e'"

text \<open>
  It reads its input to the end, and what it pushes depends on its input alone; it does not go on forever
  without being fed.
\<close>

definition encoder_meets :: "('e \<Rightarrow> 'e enc_step) \<Rightarrow> 'e \<Rightarrow> (bytes \<Rightarrow> bytes) \<Rightarrow> bool" where
  "encoder_meets enc_next e0 spec \<longleftrightarrow>
     (\<forall>fed eof out e. encodes enc_next e0 fed eof out e \<longrightarrow>
        enc_next e \<noteq> Crash \<and> (\<forall>r. enc_next e = Return r \<longrightarrow> r = None \<and> eof \<and> out = spec fed))"

definition quietens :: "('e \<Rightarrow> 'e enc_step) \<Rightarrow> ('e \<Rightarrow> nat) \<Rightarrow> bool" where
  "quietens enc_next rank \<longleftrightarrow>
     (\<forall>e. (\<forall>n k. enc_next e = Pull n k \<longrightarrow> rank (k []) < rank e) \<and> (\<forall>bs e'. enc_next e = Push bs e' \<longrightarrow> rank e' < rank e))"

section \<open>Every schedule\<close>

fun op_bytes :: "writer_op list \<Rightarrow> bytes" where
  "op_bytes [] = []"
| "op_bytes (Send_Chunk c # ops) = c @ op_bytes ops"
| "op_bytes (Flush_Output # ops) = op_bytes ops"

fun phase_ops :: "phase \<Rightarrow> writer_op list" where
  "phase_ops (Sending ops) = ops"
| "phase_ops (Draining ops) = ops"
| "phase_ops p = []"

fun is_open :: "phase \<Rightarrow> bool" where
  "is_open (Sending ops) = True"
| "is_open (Draining ops) = True"
| "is_open p = False"

text \<open>
  Nothing is lost, repeated or reordered: what the encoder was fed, what waits in the source and in the
  channel, and what is still to be sent add up to the data; what reached the inner writer and what waits in
  the output channel is what the encoder pushed.
\<close>

definition bridge_inv :: "('e \<Rightarrow> 'e enc_step) \<Rightarrow> 'e \<Rightarrow> (bytes \<Rightarrow> bytes) \<Rightarrow> bytes \<Rightarrow> 'e bridge \<Rightarrow> bool" where
  "bridge_inv enc_next e0 spec xs s \<longleftrightarrow>
     br_open s = is_open (br_phase s) \<and> length (br_input s) \<le> INPUT_DEPTH
     \<and> (case br_worker s of
          Running e \<Rightarrow> (\<exists>fed eof. encodes enc_next e0 fed eof (br_inner s @ concat (br_output s)) e
            \<and> fed @ br_pending s @ concat (br_input s) @ op_bytes (phase_ops (br_phase s)) = xs
            \<and> (eof \<longrightarrow> \<not> br_open s \<and> br_input s = [] \<and> br_pending s = []))
            \<and> (\<forall>r. br_phase s \<noteq> Returned r)
        | Exited x \<Rightarrow> x = Clean \<and> \<not> br_open s \<and> br_inner s @ concat (br_output s) = spec xs
            \<and> (\<forall>r. br_phase s = Returned r \<longrightarrow> r = None \<and> br_output s = []))"

lemma bridge_inv_start: "bridge_inv enc_next e0 spec (op_bytes ops) (bridge_new e0 ops)"
  unfolding bridge_inv_def bridge_new_def by (auto intro: encodes.start)

lemma writer_step_inv: "writer_step render s s' \<Longrightarrow> bridge_inv enc_next e0 spec xs s \<Longrightarrow> bridge_inv enc_next e0 spec xs s'"
  by (erule writer_stepE) (auto simp: bridge_inv_def joined_def INPUT_DEPTH_def split: worker.splits)

lemma worker_step_inv:
  assumes "encoder_meets enc_next e0 spec"
  shows "worker_step enc_next s s' \<Longrightarrow> bridge_inv enc_next e0 spec xs s \<Longrightarrow> bridge_inv enc_next e0 spec xs s'"
proof (erule worker_stepE)
  fix e k
  assume "bridge_inv enc_next e0 spec xs s" "br_worker s = Running e" "enc_next e = Pull 0 k" "s' = s\<lparr>br_worker := Running (k [])\<rparr>"
  then show "bridge_inv enc_next e0 spec xs s'" by (auto simp: bridge_inv_def dest: encodes.nothing)
next
  fix e n k
  assume i: "bridge_inv enc_next e0 spec xs s" "br_worker s = Running e" "enc_next e = Pull n k" "0 < n" "br_pending s \<noteq> []"
    and s': "s' = s\<lparr>br_worker := Running (k (take n (br_pending s))), br_pending := drop n (br_pending s)\<rparr>"
  then obtain fed eof where f: "encodes enc_next e0 fed eof (br_inner s @ concat (br_output s)) e"
    "fed @ br_pending s @ concat (br_input s) @ op_bytes (phase_ops (br_phase s)) = xs" "\<not> eof"
    by (auto simp: bridge_inv_def)
  have "encodes enc_next e0 (fed @ take n (br_pending s)) False (br_inner s @ concat (br_output s)) (k (take n (br_pending s)))"
    by (rule encodes.feed [where k = k and n = n and e = e]) (use f i in auto)
  moreover have "(fed @ take n (br_pending s)) @ drop n (br_pending s) @ concat (br_input s) @ op_bytes (phase_ops (br_phase s)) = xs"
    using f(2) append_assoc [of "take n (br_pending s)" "drop n (br_pending s)"] by (simp only: append_assoc append_take_drop_id)
  ultimately show "bridge_inv enc_next e0 spec xs s'"
    using i(1,2) s' unfolding bridge_inv_def
    by (simp, intro exI [of _ "fed @ take n (br_pending s)"] exI [of _ False]) simp
next
  fix e n k c cs
  assume "bridge_inv enc_next e0 spec xs s" "br_worker s = Running e" "br_pending s = []" "br_input s = c # cs"
    "s' = s\<lparr>br_pending := c, br_input := cs\<rparr>"
  then show "bridge_inv enc_next e0 spec xs s'" by (auto simp: bridge_inv_def)
next
  fix e n k
  assume i: "bridge_inv enc_next e0 spec xs s" "br_worker s = Running e" "enc_next e = Pull n k" "0 < n" "br_pending s = []"
    "br_input s = []" "\<not> br_open s" and s': "s' = s\<lparr>br_worker := Running (k [])\<rparr>"
  then obtain fed eof where "encodes enc_next e0 fed eof (br_inner s @ concat (br_output s)) e"
    "fed @ op_bytes (phase_ops (br_phase s)) = xs" by (auto simp: bridge_inv_def)
  note f = this
  have "encodes enc_next e0 fed True (br_inner s @ concat (br_output s)) (k [])"
    by (rule encodes.over [where k = k and n = n and e = e]) (use f i in auto)
  then show "bridge_inv enc_next e0 spec xs s'"
    using i(1,2,5-7) f(2) s' unfolding bridge_inv_def
    by (simp, intro exI [of _ fed] exI [of _ True]) blast
next
  fix e bs e'
  assume i: "bridge_inv enc_next e0 spec xs s" "br_worker s = Running e" "enc_next e = Push bs e'"
    and s': "s' = s\<lparr>br_worker := Running e', br_output := br_output s @ [bs]\<rparr>"
  then obtain fed eof where f: "encodes enc_next e0 fed eof (br_inner s @ concat (br_output s)) e"
    "fed @ br_pending s @ concat (br_input s) @ op_bytes (phase_ops (br_phase s)) = xs"
    "eof \<longrightarrow> \<not> br_open s \<and> br_input s = [] \<and> br_pending s = []" by (auto simp: bridge_inv_def)
  have "encodes enc_next e0 fed eof (br_inner s @ concat (br_output s @ [bs])) e'"
    using encodes.pushed [where e = e and enc_next = enc_next and bs = bs and e' = e', OF f(1) i(3)] by simp
  then show "bridge_inv enc_next e0 spec xs s'"
    using i(1,2) f(2,3) s' unfolding bridge_inv_def by (simp del: concat_append) blast
next
  fix e r
  assume i: "bridge_inv enc_next e0 spec xs s" "br_worker s = Running e" "enc_next e = Return r"
    and s': "s' = s\<lparr>br_worker := Exited (case r of None \<Rightarrow> Clean | Some x \<Rightarrow> Refused x), br_input := []\<rparr>"
  then obtain fed eof where f: "encodes enc_next e0 fed eof (br_inner s @ concat (br_output s)) e"
    "fed @ br_pending s @ concat (br_input s) @ op_bytes (phase_ops (br_phase s)) = xs"
    "eof \<longrightarrow> \<not> br_open s \<and> br_input s = [] \<and> br_pending s = []" "br_open s = is_open (br_phase s)"
    by (auto simp: bridge_inv_def)
  have m: "r = None" eof "br_inner s @ concat (br_output s) = spec fed"
    using assms f(1) i(3) unfolding encoder_meets_def by blast+
  moreover have "op_bytes (phase_ops (br_phase s)) = []" using f(3,4) m(2) by (cases "br_phase s") auto
  ultimately show "bridge_inv enc_next e0 spec xs s'" using i(1,2) f s' by (auto simp: bridge_inv_def)
next
  fix e
  assume "bridge_inv enc_next e0 spec xs s" "br_worker s = Running e" "enc_next e = Crash"
  then have False using assms by (auto simp: bridge_inv_def encoder_meets_def)
  then show "bridge_inv enc_next e0 spec xs s'" ..
qed

lemma reachable_inv:
  assumes "encoder_meets enc_next e0 spec" "(bridge_step render enc_next)\<^sup>*\<^sup>* (bridge_new e0 ops) s"
  shows "bridge_inv enc_next e0 spec (op_bytes ops) s"
  using assms(2)
proof induction
  case base
  show ?case by (rule bridge_inv_start)
next
  case (step s s')
  from step.hyps(2) consider "writer_step render s s'" | "worker_step enc_next s s'" by (auto simp: bridge_step_def)
  then show ?case
  proof cases
    case 1
    then show ?thesis using step.IH by (rule writer_step_inv)
  next
    case 2
    then show ?thesis using step.IH by (rule worker_step_inv [OF assms(1)])
  qed
qed

text \<open>The two threads never wait for each other.\<close>

lemma worker_can_step:
  assumes "br_worker s = Running e" "br_pending s \<noteq> [] \<or> br_input s \<noteq> [] \<or> \<not> br_open s"
  shows "\<exists>s'. worker_step enc_next s s'"
proof (cases "enc_next e")
  case (Pull n k)
  show ?thesis
  proof (cases "n = 0")
    case True
    then show ?thesis using worker_step.no_room [where enc_next = enc_next and e = e and s = s, OF assms(1)] Pull by blast
  next
    case False
    then have n: "0 < n" by simp
    consider "br_pending s \<noteq> []" | c cs where "br_pending s = []" "br_input s = c # cs"
      | "br_pending s = []" "br_input s = []" "\<not> br_open s" using assms(2) by (cases "br_input s") auto
    then show ?thesis
    proof cases
      case 1
      then show ?thesis using worker_step.read [where enc_next = enc_next and e = e and s = s, OF assms(1) Pull n] by blast
    next
      case 2
      then show ?thesis using worker_step.receive [where enc_next = enc_next and e = e and s = s, OF assms(1) Pull n] by blast
    next
      case 3
      then show ?thesis using worker_step.end_of_input [where enc_next = enc_next and e = e and s = s, OF assms(1) Pull n] by blast
    qed
  qed
next
  case (Push bs e')
  then show ?thesis using worker_step.push [where enc_next = enc_next and e = e and s = s, OF assms(1)] by blast
next
  case (Return r)
  then show ?thesis using worker_step.returns [where enc_next = enc_next and e = e and s = s, OF assms(1)] by blast
next
  case Crash
  then show ?thesis using worker_step.crashes [where enc_next = enc_next and e = e and s = s, OF assms(1)] by blast
qed

lemma no_deadlock:
  assumes "bridge_inv enc_next e0 spec xs s" "\<forall>r. br_phase s \<noteq> Returned r"
  shows "\<exists>s'. bridge_step render enc_next s s'"
proof (cases "br_phase s")
  case (Sending ops)
  show ?thesis
  proof (cases ops)
    case Nil
    then have "writer_step render s (s\<lparr>br_phase := Finishing, br_open := False\<rparr>)" using Sending by (intro writer_step.close_input) simp
    then show ?thesis unfolding bridge_step_def by blast
  next
    case (Cons op ops')
    show ?thesis
    proof (cases op)
      case (Send_Chunk c)
      have p: "br_phase s = Sending (Send_Chunk c # ops')" using Sending Cons Send_Chunk by simp
      show ?thesis
      proof (cases "br_worker s")
        case (Running e)
        show ?thesis
        proof (cases "length (br_input s) < INPUT_DEPTH")
          case True
          from writer_step.send [OF p Running True] show ?thesis unfolding bridge_step_def by blast
        next
          case False
          then have "br_input s \<noteq> []" by (auto simp: INPUT_DEPTH_def)
          then have "\<exists>s'. worker_step enc_next s s'" by (intro worker_can_step [OF Running]) simp
          then show ?thesis unfolding bridge_step_def by blast
        qed
      next
        case (Exited x)
        from writer_step.refused [OF p Exited] show ?thesis unfolding bridge_step_def by blast
      qed
    next
      case Flush_Output
      then have "writer_step render s (s\<lparr>br_phase := Draining ops'\<rparr>)" using Sending Cons by (intro writer_step.flush) simp
      then show ?thesis unfolding bridge_step_def by blast
    qed
  qed
next
  case (Draining ops)
  then show ?thesis
  proof (cases "br_output s")
    case Nil
    from writer_step.drained [OF Draining this] show ?thesis unfolding bridge_step_def by blast
  next
    case (Cons c cs)
    from writer_step.drain [OF Draining this] show ?thesis unfolding bridge_step_def by blast
  qed
next
  case Finishing
  have closed: "\<not> br_open s" using assms(1) Finishing by (simp add: bridge_inv_def)
  show ?thesis
  proof (cases "br_output s")
    case (Cons c cs)
    from writer_step.collect [OF Finishing this] show ?thesis unfolding bridge_step_def by blast
  next
    case Nil
    show ?thesis
    proof (cases "br_worker s")
      case (Running e)
      have "\<exists>s'. worker_step enc_next s s'" by (intro worker_can_step [OF Running]) (simp add: closed)
      then show ?thesis unfolding bridge_step_def by blast
    next
      case (Exited x)
      from writer_step.join [OF Finishing Nil this] show ?thesis unfolding bridge_step_def by blast
    qed
  qed
next
  case (Returned r)
  then show ?thesis using assms(2) by blast
qed

section \<open>Every schedule ends\<close>

fun phase_rank :: "phase \<Rightarrow> nat" where
  "phase_rank (Sending ops) = 2"
| "phase_rank (Draining ops) = 3"
| "phase_rank Finishing = 1"
| "phase_rank (Returned r) = 0"

definition unfed :: "'e bridge \<Rightarrow> nat" where
  "unfed s = length (op_bytes (phase_ops (br_phase s))) + length (br_pending s) + length (concat (br_input s))"

definition worker_rank :: "('e \<Rightarrow> nat) \<Rightarrow> 'e bridge \<Rightarrow> nat" where
  "worker_rank rank s = (case br_worker s of Running e \<Rightarrow> Suc (rank e) | Exited x \<Rightarrow> 0)"

definition bridge_order :: "('e \<Rightarrow> nat) \<Rightarrow> ('e bridge \<times> 'e bridge) set" where
  "bridge_order rank = measures [unfed, worker_rank rank, \<lambda>s. length (phase_ops (br_phase s)), \<lambda>s. length (br_input s),
     \<lambda>s. length (br_output s), \<lambda>s. phase_rank (br_phase s)]"

lemma writer_step_decreases: "writer_step render s s' \<Longrightarrow> (s', s) \<in> bridge_order rank"
  by (erule writer_stepE) (auto simp: bridge_order_def unfed_def worker_rank_def)

lemma worker_step_decreases:
  assumes "quietens enc_next rank"
  shows "worker_step enc_next s s' \<Longrightarrow> (s', s) \<in> bridge_order rank"
proof -
  have q: "enc_next e = Pull n k \<Longrightarrow> rank (k []) < rank e" "enc_next e = Push bs e' \<Longrightarrow> rank e' < rank e" for e n k bs e'
    using assms unfolding quietens_def by blast+
  show "worker_step enc_next s s' \<Longrightarrow> (s', s) \<in> bridge_order rank"
    by (erule worker_stepE) (auto simp: bridge_order_def unfed_def worker_rank_def dest: q)
qed

lemma no_infinite_run:
  assumes "quietens enc_next rank"
  shows "\<not> (\<forall>i. bridge_step render enc_next (run i) (run (Suc i)))"
proof
  assume "\<forall>i. bridge_step render enc_next (run i) (run (Suc i))"
  then have "(run (Suc i), run i) \<in> bridge_order rank" for i
    using writer_step_decreases worker_step_decreases [OF assms] unfolding bridge_step_def by blast
  moreover have "wf (bridge_order rank)" by (simp add: bridge_order_def)
  ultimately show False using wf_iff_no_infinite_down_chain [of "bridge_order rank"] by blast
qed

text \<open>The path without a thread, over the same encoder.\<close>

lemma encode_slice_meets:
  assumes "encoder_meets enc_next e0 spec" "quietens enc_next rank"
  shows "encodes enc_next e0 fed (rest = [] \<and> eof) out e \<Longrightarrow> encode_slice enc_next e rest out = Some (Clean, spec (fed @ rest))"
proof (induction "(length rest, rank e)" arbitrary: fed rest eof out e rule: wf_induct_rule [OF wf_lex_prod [OF wf_less_than wf_less_than]])
  case 1
  note IH = 1(1) and enc = 1(2)
  have q: "enc_next e = Pull n k \<Longrightarrow> rank (k []) < rank e" "enc_next e = Push bs e' \<Longrightarrow> rank e' < rank e" for n k bs e'
    using assms(2) unfolding quietens_def by blast+
  show ?case
  proof (cases "enc_next e")
    case (Pull n k)
    consider "n = 0" | "0 < n" "rest = []" | "0 < n" "rest \<noteq> []" by blast
    then show ?thesis
    proof cases
      case 1
      have "encodes enc_next e0 fed (rest = [] \<and> eof) out (k [])" by (rule encodes.nothing [OF enc]) (simp add: Pull 1)
      from IH [OF _ this] have "encode_slice enc_next (k []) rest out = Some (Clean, spec (fed @ rest))" using q(1) [OF Pull] by simp
      then show ?thesis by (subst encode_slice.simps) (simp add: Pull 1)
    next
      case 2
      have "encodes enc_next e0 fed True out (k [])" by (rule encodes.over [OF enc Pull 2(1)])
      then have "encodes enc_next e0 fed (rest = [] \<and> True) out (k [])" using 2(2) by simp
      from IH [OF _ this] have "encode_slice enc_next (k []) rest out = Some (Clean, spec (fed @ rest))" using q(1) [OF Pull] by simp
      then show ?thesis using 2 by (subst encode_slice.simps) (simp add: Pull)
    next
      case 3
      have enc': "encodes enc_next e0 fed False out e" using enc 3(2) by simp
      have "encodes enc_next e0 (fed @ take n rest) False out (k (take n rest))"
        by (rule encodes.feed [where k = k and n = n and e = e]) (use enc' Pull 3 in auto)
      then have "encodes enc_next e0 (fed @ take n rest) (drop n rest = [] \<and> False) out (k (take n rest))" by simp
      from IH [OF _ this] have "encode_slice enc_next (k (take n rest)) (drop n rest) out = Some (Clean, spec ((fed @ take n rest) @ drop n rest))"
        using 3 by simp
      then show ?thesis by (subst encode_slice.simps) (simp add: Pull)
    qed
  next
    case (Push bs e')
    have "encodes enc_next e0 fed (rest = [] \<and> eof) (out @ bs) e'" by (rule encodes.pushed [OF enc Push])
    from IH [OF _ this] have "encode_slice enc_next e' rest (out @ bs) = Some (Clean, spec (fed @ rest))" using q(2) [OF Push] by simp
    then show ?thesis by (subst encode_slice.simps) (simp add: Push)
  next
    case (Return r)
    then have "r = None \<and> (rest = [] \<and> eof) \<and> out = spec fed" using assms(1) enc unfolding encoder_meets_def by blast
    then show ?thesis using Return by (subst encode_slice.simps) simp
  next
    case Crash
    then show ?thesis using assms(1) enc unfolding encoder_meets_def by blast
  qed
qed

text \<open>What is written is cut into chunks and nothing else.\<close>

lemma chunks_of_concat: "0 < n \<Longrightarrow> concat (chunks_of n bs) = bs"
  by (induction n bs rule: chunks_of.induct) (subst chunks_of.simps, auto)

lemma op_bytes_append: "op_bytes (xs @ ys) = op_bytes xs @ op_bytes ys"
  by (induction xs rule: op_bytes.induct) simp_all

lemma op_bytes_chunks: "op_bytes (map Send_Chunk cs) = concat cs"
  by (induction cs) simp_all

lemma op_bytes_writes: "op_bytes (concat (map write_ops ps)) = concat ps"
  by (induction ps) (simp_all add: op_bytes_append op_bytes_chunks write_ops_def chunks_of_concat CHUNK_def)

text \<open>
  C8: the encoder thread delivers, under every schedule.  For an encoder that reads its input to the end and
  whose output depends on its input alone, and for writes of any sizes: no schedule of the two threads
  goes on forever, none is stuck before \<open>finish\<close> returns, and when it returns there was no error and
  the inner writer holds exactly the encoding of everything that was written.  Where no thread can be
  started, \<open>finish\<close> writes the encoding that the reconfigured encoder, serial and with solid blocks, makes
  of the same bytes; for LZMA it is the same encoder and the same encoding.
\<close>

theorem encoder_thread_delivers:
  assumes "encoder_meets enc_next (encoder_run tc True enc) spec" "quietens enc_next rank"
    and "\<And>e. enc = Turbo_Lzma2 e \<Longrightarrow>
      encoder_meets enc_next (tc_set_block_size tc (tc_block_size_solid tc) (tc_set_threads tc 1 e)) serial_spec"
  shows "(\<nexists>run. run 0 = bridge_new (encoder_run tc True enc) (concat (map write_ops ps))
        \<and> (\<forall>i. bridge_step render enc_next (run i) (run (Suc i))))
    \<and> (\<forall>s. (bridge_step render enc_next)\<^sup>*\<^sup>* (bridge_new (encoder_run tc True enc) (concat (map write_ops ps))) s \<longrightarrow>
         (\<exists>s'. bridge_step render enc_next s s') \<or> (br_phase s = Returned None \<and> br_inner s = spec (concat ps)))
    \<and> finish_buffered tc enc_next enc (concat ps) = Some (Clean,
        case enc of Turbo_Lzma e \<Rightarrow> spec (concat ps) | Turbo_Lzma2 e \<Rightarrow> serial_spec (concat ps))"
proof (intro conjI allI impI)
  define e0 where "e0 = encoder_run tc True enc"
  show "\<nexists>run. run 0 = bridge_new (encoder_run tc True enc) (concat (map write_ops ps))
      \<and> (\<forall>i. bridge_step render enc_next (run i) (run (Suc i)))"
    using no_infinite_run [OF assms(2)] by blast
  have slice: "encode_slice enc_next e (concat ps) [] = Some (Clean, sp (concat ps))" if "encoder_meets enc_next e sp" for e sp
    using encode_slice_meets [OF that assms(2), of "[]" "concat ps" False "[]" e] encodes.start [of enc_next e] by simp
  show "finish_buffered tc enc_next enc (concat ps) = Some (Clean,
      case enc of Turbo_Lzma e \<Rightarrow> spec (concat ps) | Turbo_Lzma2 e \<Rightarrow> serial_spec (concat ps))"
    using slice [OF assms(1)] slice [OF assms(3)] by (cases enc) (simp_all add: finish_buffered_def encoder_run_def)
  fix s
  assume "(bridge_step render enc_next)\<^sup>*\<^sup>* (bridge_new (encoder_run tc True enc) (concat (map write_ops ps))) s"
  from reachable_inv [OF assms(1) this]
  have inv: "bridge_inv enc_next (encoder_run tc True enc) spec (concat ps) s" by (simp add: op_bytes_writes)
  show "(\<exists>s'. bridge_step render enc_next s s') \<or> (br_phase s = Returned None \<and> br_inner s = spec (concat ps))"
  proof (cases "\<forall>r. br_phase s \<noteq> Returned r")
    case True
    then show ?thesis using no_deadlock [OF inv] by blast
  next
    case False
    then show ?thesis using inv by (auto simp: bridge_inv_def split: worker.splits)
  qed
qed

text \<open>
  At an encoder that copies four bytes at a time, and writes a byte in front when its blocks are solid.
\<close>

datatype copier = Marking | Reading | Holding bytes | Ended

fun copier_next :: "copier \<Rightarrow> copier enc_step" where
  "copier_next Marking = Push [255] Reading"
| "copier_next Reading = Pull 4 (\<lambda>bs. if bs = [] then Ended else Holding bs)"
| "copier_next (Holding bs) = Push bs Reading"
| "copier_next Ended = Return None"

definition copier_crate :: "copier turbo_crate" where
  "copier_crate = \<lparr>tc_lzma = Inr Reading, tc_lzma2 = Inr Reading, tc_set_block_size = (\<lambda>n e. if n = 0 then Marking else e),
     tc_set_threads = (\<lambda>n e. e), tc_block_size_solid = 0\<rparr>"

lemma copier_encodes:
  assumes "mark = (if e0 = Marking then [255] else [])" "e0 = Marking \<or> e0 = Reading"
  shows "encodes copier_next e0 fed eof out e \<Longrightarrow>
    (case e of Marking \<Rightarrow> e0 = Marking \<and> out = [] \<and> fed = [] \<and> \<not> eof | Reading \<Rightarrow> out = mark @ fed \<and> \<not> eof
       | Holding bs \<Rightarrow> out @ bs = mark @ fed \<and> \<not> eof | Ended \<Rightarrow> out = mark @ fed \<and> eof)"
proof (induction rule: encodes.induct)
  case start
  then show ?case using assms by auto
next
  case (feed fed out e n k bs)
  then show ?case by (cases e) auto
next
  case (over fed eof out e n k)
  then show ?case by (cases e) auto
next
  case (nothing fed eof out e k)
  then show ?case by (cases e) auto
next
  case (pushed fed eof out e bs e')
  then show ?case using assms by (cases e) auto
qed

lemma copier_meets:
  assumes "mark = (if e0 = Marking then [255] else [])" "e0 = Marking \<or> e0 = Reading"
  shows "encoder_meets copier_next e0 (\<lambda>bs. mark @ bs)"
  unfolding encoder_meets_def
proof (intro allI impI)
  fix fed eof out e
  assume "encodes copier_next e0 fed eof out e"
  from copier_encodes [OF assms this]
  show "copier_next e \<noteq> Crash \<and> (\<forall>r. copier_next e = Return r \<longrightarrow> r = None \<and> eof \<and> out = mark @ fed)" by (cases e) auto
qed

definition copier_rank :: "copier \<Rightarrow> nat" where
  "copier_rank e = (case e of Marking \<Rightarrow> 2 | Reading \<Rightarrow> 1 | Holding bs \<Rightarrow> 2 | Ended \<Rightarrow> 0)"

lemma copier_quietens: "quietens copier_next copier_rank"
  unfolding quietens_def
proof (intro allI)
  fix e
  show "(\<forall>n k. copier_next e = Pull n k \<longrightarrow> copier_rank (k []) < copier_rank e)
      \<and> (\<forall>bs e'. copier_next e = Push bs e' \<longrightarrow> copier_rank e' < copier_rank e)" by (cases e) (auto simp: copier_rank_def)
qed

theorem encoder_thread_delivers_witness:
  "turbo_encoder_new copier_crate (Coder_Lzma2 8 2) = Inr (Turbo_Lzma2 Reading)
    \<and> (\<nexists>run. run 0 = bridge_new Reading (concat (map write_ops [[1, 2, 3], [4, 5]])) \<and> (\<forall>i. bridge_step (\<lambda>_. []) copier_next (run i) (run (Suc i))))
    \<and> finish_buffered copier_crate copier_next (Turbo_Lzma2 Reading) [1, 2, 3, 4, 5] = Some (Clean, [255, 1, 2, 3, 4, 5])"
proof -
  have runs: "encoder_run copier_crate True (Turbo_Lzma2 Reading) = Reading"
    "tc_set_block_size copier_crate (tc_block_size_solid copier_crate) (tc_set_threads copier_crate 1 Reading) = Marking"
    by (simp_all add: encoder_run_def copier_crate_def)
  have meets: "encoder_meets copier_next (encoder_run copier_crate True (Turbo_Lzma2 Reading)) (\<lambda>bs. [] @ bs)"
    "encoder_meets copier_next (tc_set_block_size copier_crate (tc_block_size_solid copier_crate) (tc_set_threads copier_crate 1 e))
       (\<lambda>bs. [255] @ bs)" if "Turbo_Lzma2 Reading = Turbo_Lzma2 e" for e
    unfolding runs that [simplified, symmetric] by (rule copier_meets; simp)+
  have "turbo_encoder_new copier_crate (Coder_Lzma2 8 2) = Inr (Turbo_Lzma2 Reading)"
    by (simp add: turbo_encoder_new_def copier_crate_def)
  then show ?thesis
    using encoder_thread_delivers [OF meets(1) [OF refl] copier_quietens meets(2), of "[[1, 2, 3], [4, 5]]" "\<lambda>_. []"]
    by (simp add: runs)
qed

end
