(* ===== verification/Spec2Isabelle.thy ===== *)
theory Spec2Isabelle
  imports Completions Archive_Pass Lzma2_Reading Written_Header Aes_Stream Frame_Codec Filter_Streams Bcj2_Correct Encoder_Thread
begin

text \<open>
  A verification library for \<open>sevenz-turbo\<close>, a Rust crate that reads and writes 7z archives.  File
  names are those of \<open>src/src\<close> of the repository.

  \<^bold>\<open>The program.\<close>  A 7z file is a 32-byte signature header, the packed data of its blocks, and a header
  at the end.  A block is compressed by a chain or a graph of coders and holds the data of one or more
  entries.  The header lists the sizes of the packed streams, the coders of every block, the sizes and
  checksums of the sub-streams of every block, and the entries; it may itself be compressed and
  encrypted.  Reading goes from \<open>Archive::read_with_limits\<close> through \<open>init_archive\<close> and \<open>read_header\<close> to
  \<open>calculate_stream_map\<close>, which places the entries in the blocks; decoding builds one decoder per coder.
  Writing goes through \<open>ArchiveWriter\<close>: every push sends the bytes of a source through a chain of
  encoders and records sizes and checksums, \<open>finish\<close> writes the header.  A caller bounds what a
  hostile file can cost with \<open>ArchiveLimits\<close>.

  \<^bold>\<open>The theories\<close>, in the order of their imports.
  \<^item> \<open>Prelude\<close>: words, checked and saturating arithmetic, lists.
  \<^item> \<open>Errors\<close> (\<open>error.rs\<close>): the error type and its conversions.
  \<^item> \<open>Byte_IO\<close> (\<open>lib.rs\<close>, \<open>reader.rs\<close>, \<open>writer.rs\<close>): parsers over byte lists, fixed-width integers, the
    variable-length NUMBER.  The locale \<open>codec\<close> is the contract of a writer and the reader that inverts
    it; it is interpreted for every integer format.
  \<^item> \<open>Bit_Set\<close> (\<open>bitset.rs\<close>), \<open>Nt_Time\<close> (\<open>time.rs\<close>), \<open>Utf16\<close> (the names of the header).
  \<^item> \<open>Archive_Model\<close> (\<open>archive.rs\<close>, \<open>block.rs\<close>), \<open>Limits\<close> (\<open>container.rs\<close>): the data model and the
    caller's limits, budgets and views.
  \<^item> \<open>Coder_Graph\<close>, \<open>Stream_Map\<close>, \<open>Header_Reader\<close> (\<open>reader.rs\<close>): reading a block and checking its graph,
    the stream map, the whole header; \<open>Header_Safety\<close> proves what holds for every input.  \<open>Coder_Graph\<close> also has
    the walk over the coders of a block (\<open>ordered_coders\<close>), which visits none twice in a block that passes
    the check.
  \<^item> \<open>Lzma2_Plan\<close>, \<open>Lzma2_Reader\<close> (\<open>codec/lzma_turbo.rs\<close>): dictionaries, the plan of a parallel decode, its
    budgets and its control block; the reader that reads ahead, feeds whole runs to the parallel decoder and
    drains it.  \<open>Lzma2_Reading\<close> states what the reader relies on of decoder and scanner (\<open>serves\<close>) and proves
    that it then delivers the data.
  \<^item> \<open>Aes_Key\<close> (\<open>encryption/aes.rs\<close>, \<open>encryption/password.rs\<close>): passwords, key derivation and its budget.
    \<open>Crypto_Backend\<close> (\<open>crypto_backend.rs\<close>): the AES-CBC backends; the locale \<open>block_decryptor\<close> is their common
    contract, interpreted on each of them.  \<open>Aes_Stream\<close> (\<open>encryption/aes.rs\<close>): the decrypting reader and the
    encrypting writer and their round trip.
  \<^item> \<open>Encoder_Options\<close>, \<open>Encoder_Setup\<close> (\<open>encoder_options.rs\<close>, \<open>encoder.rs\<close>, \<open>archive.rs\<close>): the options a
    caller builds, the property bytes, the construction of encoders.
  \<^item> \<open>Decoder_Setup\<close> (\<open>decoder.rs\<close>): the construction of decoders from property bytes.
  \<^item> \<open>Header_Writer\<close> (\<open>writer.rs\<close>, \<open>writer/pack_info.rs\<close>, \<open>writer/unpack_info.rs\<close>): the header a writer
    writes; \<open>Header_Roundtrip\<close> and \<open>Files_Roundtrip\<close> prove that the reader reads it back.
  \<^item> \<open>Io_Streams\<close> (\<open>reader.rs\<close>, \<open>writer/source_reader.rs\<close>, \<open>writer/seq_reader.rs\<close>): readers as step functions;
    bounded, shared, verifying, measuring and sequencing readers.  The locale \<open>byte_source\<close> is the contract
    of a reader that delivers a known content in pieces of any size, \<open>ending_reader\<close> the weaker one the
    copying loops need; both are interpreted on scripted and plain sources and carried through the
    adapters.
  \<^item> \<open>Archive_Writer\<close> (\<open>writer.rs\<close>, \<open>writer/counting_writer.rs\<close>): pushing entries, blocks and prepared
    blocks, finishing; \<open>Writer_Correct\<close> proves the invariant of the reachable states, and \<open>Written_Header\<close>
    composes it with the round trips.
  \<^item> \<open>Open_Archive\<close> (\<open>reader.rs\<close>): opening a file, encoded headers, the checks on the whole archive, the
    search for a lost header; \<open>Opening_Safety\<close> proves what holds for every file.
  \<^item> \<open>Block_Decoder\<close>, \<open>Decode_Archive\<close> (\<open>reader.rs\<close>): the two decode stacks, \<open>BlockDecoder\<close>, and the loops of
    \<open>ArchiveReader\<close> over blocks and entries.  \<open>Decode_Correct\<close> proves what the entries deliver, \<open>Decode_Safety\<close>
    when decoding does not panic, \<open>Completions\<close> (\<open>container.rs\<close>) what the hooks are told; \<open>Stored_File\<close> is a
    complete file, byte for byte, on which their hypotheses hold.  \<open>Stack_Follows\<close> proves that the stack
    \<open>read_file\<close> builds for one entry delivers what the stack of a pass delivers, also when the password has
    cached a key by then; \<open>Archive_Pass\<close> proves, from what opening the file has computed, that a pass visits
    every entry once and that \<open>read_file\<close> delivers what the pass delivers.
  \<^item> \<open>Frame_Codec\<close> (\<open>codec/lz4.rs\<close>, \<open>codec/brotli.rs\<close>): skippable frames, read and written.
  \<^item> \<open>Filter_Streams\<close> (\<open>codec/filter/delta.rs\<close>, \<open>codec/filter/bcj.rs\<close>): the streams around the filters.
  \<^item> \<open>Bcj2\<close> (\<open>codec/filter/bcj2.rs\<close>, \<open>codec/filter/bcj2/decode.rs\<close>): the BCJ2 decoder over one memory of four
    buffers, and its reader.  \<open>Bcj2_Decode\<close> states BCJ2 as a machine without buffers and proves that a call of
    \<open>decode\<close> makes steps of it; \<open>Bcj2_Correct\<close> proves that the reader delivers what the machine emits.
  \<^item> \<open>Encoder_Thread\<close> (\<open>codec/lzma_turbo/writer.rs\<close>): the writer that runs an encoder on a thread of its own, as a
    step relation of two processes and their channels, with an invariant and progress under every schedule;
    where no thread can be started, the encoder is configured anew, serial and with solid blocks.

  \<^bold>\<open>Conventions.\<close>  Integers are words of the width of the source where a bound or a wrap-around matters;
  \<open>usize\<close> is a natural number with its bound (64 bits) checked where the code checks it.  A parser is a
  function from a byte list to an error or a value and the rest.  \<open>Panic\<close> is an extra constructor of the
  error type for the places where the code would panic: an index out of range, an assertion.  The safety
  properties show for which inputs it is not reached: opening a file never does, decoding does not when
  every block has a packed stream and the callbacks and the codecs' constructors do not panic themselves; a
  block without packed streams does panic (\<open>sourceless_block_panics\<close>).  Sums the code writes with \<open>+=\<close> and
  that no check bounds wrap as in the release profile, which has no overflow checks: \<open>ip\<close> of the BCJ2 decoder
  after 4 GiB, \<open>unpacked_offset\<close> of the entry loop and \<open>at\<close> of the file boundaries.  A writer to a \<open>Vec\<close> is the bytes it appends.  A reader is a
  function from a buffer size and a state to an error or bytes and the next state, and the callers' loops
  over readers that may never end are partial functions.  A password is passed and returned, because
  deriving a key fills its cache.

  \<^bold>\<open>Parameters.\<close>  Code of other crates is an argument: SHA-256 (\<open>sha256\<close>), CRC-32, the codecs' encoders and
  decoders (\<open>we_encode\<close>, \<open>oe_run\<close>, known by what they deliver for what they are fed), their constructors
  (\<open>builders\<close>, \<open>we_build\<close>), bounds of PPMd and version numbers.

  The decoder and scanner of the parallel LZMA2 path (\<open>mt_env\<close>), the codecs inside the frames, the converters
  of the filters, the raw AES block cipher and the encoder behind the thread are parameters of the same kind;
  what a theorem relies on of them is a named hypothesis with an instance in its witness.

  \<^bold>\<open>Bounds and fuel.\<close>  No definition runs on fuel.  Loops over a declared count recurse on the count, which
  the code has bounded by the header size; the walk of the coder graph and of the ordered coders has a
  termination proof, as have the loops of the BCJ2 decoder, whose measure is what is left in its buffers; the
  search for a lost header recurses on the position.  A loop that reads until a reader below it is done is a
  partial function to an option, and the theorems about it show that it returns.

  \<^bold>\<open>Not modelled.\<close>  File-system access (\<open>util/compress.rs\<close>, \<open>util/decompress.rs\<close>, \<open>LazyFileReader\<close>), the hooks'
  panic guards (\<open>hooks.rs\<close>), the bindings for JavaScript, timing and recycled buffers of the parallel reader, and
  everything that is not part of the library (tests, examples, tools).  The blocks of \<open>Block_Decoder\<close> take the
  decoders as parameters; that \<open>Bcj2\<close>, \<open>Filter_Streams\<close>, \<open>Aes_Stream\<close> and \<open>Lzma2_Reader\<close> keep the contract
  \<open>byte_source\<close> is what connects them.
\<close>

end
